(* ===== verification/Prelude.thy ===== *)
theory Prelude
  imports Main "HOL-Library.Word" "HOL-Library.Monad_Syntax" "HOL-Library.Multiset"
begin

text \<open>
  Shared vocabulary of the development: machine types of the 32-bit target, the failure
  convention, and the generic facts on options, lists and words that the component theories
  use.

  \<^item> A C function that can hit a failed \<^verbatim>\<open>ASSERT\<close>, a \<^verbatim>\<open>PANIC\<close> or undefined behaviour
    (a null or dangling pointer, an out-of-bounds index) returns \<open>'a option\<close>: \<open>None\<close> is
    "the kernel stops here", \<open>Some r\<close> is "returns \<open>r\<close>". Loops that the source does not
    bound are \<^theory_text>\<open>partial_function (option)\<close>, where \<open>None\<close> also covers not returning;
    the theorems then state that the result is \<open>Some\<close>.
  \<^item> \<open>unsigned\<close>, \<open>size_t\<close>, \<open>uint32_t\<close>, \<open>unsigned long\<close> and addresses that take part in
    arithmetic are 32-bit words; \<open>uint8_t\<close> is an 8-bit word, \<open>uint64_t\<close> a 64-bit word.
\<close>

unbundle bit_operations_syntax

section \<open>Machine types\<close>

type_synonym u8 = "8 word"
type_synonym u32 = "32 word"
type_synonym u64 = "64 word"

section \<open>Failure\<close>

text \<open>\<^verbatim>\<open>ASSERT (b)\<close> of \<^verbatim>\<open>lib/debug.h\<close>.\<close>

definition c_assert :: "bool \<Rightarrow> unit option" where
  "c_assert b = (if b then Some () else None)"

lemma c_assert_simps [simp]:
  "c_assert True = Some ()"
  "c_assert False = None"
  "(c_assert b = Some u) = b"
  "(c_assert b = None) = (\<not> b)"
  by (auto simp: c_assert_def)

lemma bind_c_assert_eq_Some [simp]:
  "(Option.bind (c_assert b) f = Some r) = (b \<and> f () = Some r)"
  by (auto simp: c_assert_def)

lemma bind_eq_Some_iff:
  "(Option.bind m f = Some r) = (\<exists>x. m = Some x \<and> f x = Some r)"
  by (cases m) auto

text \<open>Signed arithmetic that leaves the range of \<open>int\<close> is undefined.\<close>

definition c_int :: "int \<Rightarrow> int option" where
  "c_int i = (if - (2 ^ 31) \<le> i \<and> i < 2 ^ 31 then Some i else None)"

section \<open>Lists\<close>

lemma distinct_last_notin_butlast:
  "distinct xs \<Longrightarrow> xs \<noteq> [] \<Longrightarrow> last xs \<notin> set (butlast xs)"
  by (metis append_butlast_last_id distinct_append disjoint_insert(1) inf_commute list.simps(15)
      list.set(1) )

lemma distinct_hd_notin_tl: "distinct xs \<Longrightarrow> xs \<noteq> [] \<Longrightarrow> hd xs \<notin> set (tl xs)"
  by (cases xs) auto

lemma in_set_butlast: "x \<in> set (butlast xs) \<Longrightarrow> x \<in> set xs"
  by (rule in_set_butlastD)

lemma in_set_tl: "x \<in> set (tl xs) \<Longrightarrow> x \<in> set xs"
  by (cases xs) auto

lemma ex_range_Suc:
  "a < c \<Longrightarrow> (\<exists>j. a \<le> j \<and> j < c \<and> P j) \<longleftrightarrow> P a \<or> (\<exists>j. Suc a \<le> j \<and> j < c \<and> P j)" for a :: nat
  by (metis Suc_leD le_eq_less_or_eq less_eq_Suc_le)

section \<open>Words\<close>

lemma u32_unat_bound: "unat (w :: u32) < 4294967296"
  using unsigned_less [of w] by simp

lemma u32_unat_max [simp]: "unat (- 1 :: u32) = 4294967295"
  by (simp add: unsigned_minus_1_eq_mask mask_eq_exp_minus_1)

lemma unat_Suc_less: "i < cnt \<Longrightarrow> unat (i + 1 :: u32) = Suc (unat i)"
  using u32_unat_bound [of cnt] by (simp add: word_less_nat_alt unat_word_ariths(1))

lemma unat_incr_less: "i < cnt \<Longrightarrow> unat cnt - unat (i + 1 :: u32) < unat cnt - unat i"
  by (simp add: unat_Suc_less word_less_nat_alt)

lemma unat_add_no_wrap: "unat (a :: u32) + unat b \<le> unat (c :: u32) \<Longrightarrow> unat (a + b) = unat a + unat b"
  using u32_unat_bound [of c] by (simp add: unat_word_ariths(1))

lemma unat_drop_bit: "unat (drop_bit k w) = unat w div 2 ^ k"
  by (simp only: unsigned_drop_bit_eq) (simp add: drop_bit_eq_div take_bit_nat_eq_self unsigned_less)

lemma unat_take_bit: "unat (take_bit k (w :: u32)) = unat w mod 2 ^ k"
  by (simp only: unsigned_take_bit_eq) (simp add: take_bit_eq_mod)

lemma unat_push_bit: "unat x * 2 ^ k < 2 ^ 32 \<Longrightarrow> unat (push_bit k x :: u32) = unat x * 2 ^ k"
  by (simp only: unsigned_push_bit_eq) (simp add: take_bit_eq_mod push_bit_eq_mult)

lemma unat_plus_u32: "unat a + unat b < 2 ^ 32 \<Longrightarrow> unat (a + b :: u32) = unat a + unat b"
  by (simp add: unat_word_ariths)

lemma unat_mult_u32: "unat a * unat b < 2 ^ 32 \<Longrightarrow> unat (a * b :: u32) = unat a * unat b"
  by (simp add: unat_word_ariths)

lemma and_not_mask: "w AND NOT (mask n) = push_bit n (drop_bit n w)" for w :: u32
  by (rule bit_eqI) (auto simp: bit_simps)

lemma sint_u32_small: "unat (w :: u32) < 2 ^ 31 \<Longrightarrow> sint w = int (unat w)"
proof -
  assume "unat w < 2 ^ 31"
  then have "w < 0x80000000" by (simp add: word_less_nat_alt)
  then have "uint w < 2 ^ 31" by (simp add: word_less_def)
  moreover have "sint w = (uint w + 2 ^ 31) mod 2 ^ 32 - 2 ^ 31"
    using int_word_sint [of "uint w", where ?'a = 32] by simp
  moreover have "(uint w + 2 ^ 31) mod 2 ^ 32 = uint w + 2 ^ 31"
    using calculation(1) by (intro mod_pos_pos_trivial) auto
  ultimately show ?thesis by simp
qed

end
