(* ===== verification/Lists.thy ===== *)
theory Lists
  imports Prelude
begin

text \<open>
  \<^verbatim>\<open>lib/kernel/list.c\<close>: doubly linked lists with a head and a tail sentinel, modelled on a
  pointer heap. Pointers are addresses (\<open>0\<close> is \<open>NULL\<close>); the two fields of
  \<^verbatim>\<open>struct list_elem\<close> are two partial maps, one per field, so that an assignment to
  \<open>prev\<close> is visibly independent of one to \<open>next\<close>. \<^verbatim>\<open>struct list\<close> at address \<open>l\<close> embeds its
  head at \<open>l\<close> and its tail eight bytes later.
\<close>

section \<open>Data\<close>

type_synonym addr = nat

abbreviation NULL :: addr where
  "NULL \<equiv> 0"

record list_heap =
  prevs :: "addr \<rightharpoonup> addr"
  nexts :: "addr \<rightharpoonup> addr"

type_synonym less_func = "addr \<Rightarrow> addr \<Rightarrow> bool"

definition head_of :: "addr \<Rightarrow> addr" where
  "head_of l = l"

definition tail_of :: "addr \<Rightarrow> addr" where
  "tail_of l = l + 8"

text \<open>Field reads and writes through a pointer; \<open>NULL\<close> and unallocated addresses fault.\<close>

definition get_prev :: "list_heap \<Rightarrow> addr \<Rightarrow> addr option" where
  "get_prev h a = (if a = NULL then None else prevs h a)"

definition get_next :: "list_heap \<Rightarrow> addr \<Rightarrow> addr option" where
  "get_next h a = (if a = NULL then None else nexts h a)"

definition set_prev :: "list_heap \<Rightarrow> addr \<Rightarrow> addr \<Rightarrow> list_heap option" where
  "set_prev h a v =
     (if a = NULL \<or> prevs h a = None then None else Some (h\<lparr>prevs := (prevs h)(a \<mapsto> v)\<rparr>))"

definition set_next :: "list_heap \<Rightarrow> addr \<Rightarrow> addr \<Rightarrow> list_heap option" where
  "set_next h a v =
     (if a = NULL \<or> nexts h a = None then None else Some (h\<lparr>nexts := (nexts h)(a \<mapsto> v)\<rparr>))"

section \<open>Operations\<close>

definition is_head :: "list_heap \<Rightarrow> addr \<Rightarrow> bool option" where
  "is_head h e =
     (if e = NULL then Some False
      else do { p \<leftarrow> get_prev h e;
                if p \<noteq> NULL then Some False
                else do { n \<leftarrow> get_next h e; Some (n \<noteq> NULL) } })"

definition is_interior :: "list_heap \<Rightarrow> addr \<Rightarrow> bool option" where
  "is_interior h e =
     (if e = NULL then Some False
      else do { p \<leftarrow> get_prev h e;
                if p = NULL then Some False
                else do { n \<leftarrow> get_next h e; Some (n \<noteq> NULL) } })"

definition is_tail :: "list_heap \<Rightarrow> addr \<Rightarrow> bool option" where
  "is_tail h e =
     (if e = NULL then Some False
      else do { p \<leftarrow> get_prev h e;
                if p = NULL then Some False
                else do { n \<leftarrow> get_next h e; Some (n = NULL) } })"

text \<open>C's short-circuit \<^verbatim>\<open>||\<close> on tests that read the heap.\<close>

definition or_else :: "bool option \<Rightarrow> bool option \<Rightarrow> bool option" where
  "or_else a b = do { x \<leftarrow> a; if x then Some True else b }"

definition list_init :: "list_heap \<Rightarrow> addr \<Rightarrow> list_heap option" where
  "list_init h l = do {
     c_assert (l \<noteq> NULL);
     h \<leftarrow> set_prev h (head_of l) NULL;
     h \<leftarrow> set_next h (head_of l) (tail_of l);
     h \<leftarrow> set_prev h (tail_of l) (head_of l);
     set_next h (tail_of l) NULL }"

definition list_begin :: "list_heap \<Rightarrow> addr \<Rightarrow> addr option" where
  "list_begin h l = do { c_assert (l \<noteq> NULL); get_next h (head_of l) }"

definition list_next :: "list_heap \<Rightarrow> addr \<Rightarrow> addr option" where
  "list_next h e = do {
     ok \<leftarrow> or_else (is_head h e) (is_interior h e);
     c_assert ok;
     get_next h e }"

definition list_end :: "addr \<Rightarrow> addr option" where
  "list_end l = do { c_assert (l \<noteq> NULL); Some (tail_of l) }"

definition list_rbegin :: "list_heap \<Rightarrow> addr \<Rightarrow> addr option" where
  "list_rbegin h l = do { c_assert (l \<noteq> NULL); get_prev h (tail_of l) }"

definition list_prev :: "list_heap \<Rightarrow> addr \<Rightarrow> addr option" where
  "list_prev h e = do {
     ok \<leftarrow> or_else (is_interior h e) (is_tail h e);
     c_assert ok;
     get_prev h e }"

definition list_rend :: "addr \<Rightarrow> addr option" where
  "list_rend l = do { c_assert (l \<noteq> NULL); Some (head_of l) }"

definition list_head :: "addr \<Rightarrow> addr option" where
  "list_head l = do { c_assert (l \<noteq> NULL); Some (head_of l) }"

definition list_tail :: "addr \<Rightarrow> addr option" where
  "list_tail l = do { c_assert (l \<noteq> NULL); Some (tail_of l) }"

definition list_insert :: "list_heap \<Rightarrow> addr \<Rightarrow> addr \<Rightarrow> list_heap option" where
  "list_insert h before elem = do {
     ok \<leftarrow> or_else (is_interior h before) (is_tail h before);
     c_assert ok;
     c_assert (elem \<noteq> NULL);
     p \<leftarrow> get_prev h before;
     h \<leftarrow> set_prev h elem p;
     h \<leftarrow> set_next h elem before;
     p \<leftarrow> get_prev h before;
     h \<leftarrow> set_next h p elem;
     set_prev h before elem }"

definition list_splice :: "list_heap \<Rightarrow> addr \<Rightarrow> addr \<Rightarrow> addr \<Rightarrow> list_heap option" where
  "list_splice h before first lst = do {
     ok \<leftarrow> or_else (is_interior h before) (is_tail h before);
     c_assert ok;
     if first = lst then Some h
     else do {
       lst \<leftarrow> list_prev h lst;
       ok \<leftarrow> is_interior h first;
       c_assert ok;
       ok \<leftarrow> is_interior h lst;
       c_assert ok;
       p \<leftarrow> get_prev h first;
       n \<leftarrow> get_next h lst;
       h \<leftarrow> set_next h p n;
       n \<leftarrow> get_next h lst;
       p \<leftarrow> get_prev h first;
       h \<leftarrow> set_prev h n p;
       p \<leftarrow> get_prev h before;
       h \<leftarrow> set_prev h first p;
       h \<leftarrow> set_next h lst before;
       p \<leftarrow> get_prev h before;
       h \<leftarrow> set_next h p first;
       set_prev h before lst } }"

definition list_push_front :: "list_heap \<Rightarrow> addr \<Rightarrow> addr \<Rightarrow> list_heap option" where
  "list_push_front h l elem = do { b \<leftarrow> list_begin h l; list_insert h b elem }"

definition list_push_back :: "list_heap \<Rightarrow> addr \<Rightarrow> addr \<Rightarrow> list_heap option" where
  "list_push_back h l elem = do { b \<leftarrow> list_end l; list_insert h b elem }"

definition list_remove :: "list_heap \<Rightarrow> addr \<Rightarrow> (list_heap \<times> addr) option" where
  "list_remove h elem = do {
     ok \<leftarrow> is_interior h elem;
     c_assert ok;
     p \<leftarrow> get_prev h elem;
     n \<leftarrow> get_next h elem;
     h \<leftarrow> set_next h p n;
     n \<leftarrow> get_next h elem;
     p \<leftarrow> get_prev h elem;
     h \<leftarrow> set_prev h n p;
     n \<leftarrow> get_next h elem;
     Some (h, n) }"

definition list_empty :: "list_heap \<Rightarrow> addr \<Rightarrow> bool option" where
  "list_empty h l = do { b \<leftarrow> list_begin h l; e \<leftarrow> list_end l; Some (b = e) }"

definition list_front :: "list_heap \<Rightarrow> addr \<Rightarrow> addr option" where
  "list_front h l = do {
     b \<leftarrow> list_empty h l;
     c_assert (\<not> b);
     get_next h (head_of l) }"

definition list_back :: "list_heap \<Rightarrow> addr \<Rightarrow> addr option" where
  "list_back h l = do {
     b \<leftarrow> list_empty h l;
     c_assert (\<not> b);
     get_prev h (tail_of l) }"

definition list_pop_front :: "list_heap \<Rightarrow> addr \<Rightarrow> (list_heap \<times> addr) option" where
  "list_pop_front h l = do {
     front \<leftarrow> list_front h l;
     (h, _) \<leftarrow> list_remove h front;
     Some (h, front) }"

definition list_pop_back :: "list_heap \<Rightarrow> addr \<Rightarrow> (list_heap \<times> addr) option" where
  "list_pop_back h l = do {
     back \<leftarrow> list_back h l;
     (h, _) \<leftarrow> list_remove h back;
     Some (h, back) }"

partial_function (option) list_size_loop ::
  "list_heap \<Rightarrow> addr \<Rightarrow> addr \<Rightarrow> u32 \<Rightarrow> u32 option" where
  "list_size_loop h l e cnt = do {
     en \<leftarrow> list_end l;
     if e = en then Some cnt
     else do { e' \<leftarrow> list_next h e; list_size_loop h l e' (cnt + 1) } }"

definition list_size :: "list_heap \<Rightarrow> addr \<Rightarrow> u32 option" where
  "list_size h l = do { e \<leftarrow> list_begin h l; list_size_loop h l e 0 }"

text \<open>\<open>swap (&e->prev, &e->next)\<close> and the two swaps on the sentinels of \<open>list_reverse\<close>.\<close>

partial_function (option) list_reverse_loop ::
  "list_heap \<Rightarrow> addr \<Rightarrow> addr \<Rightarrow> list_heap option" where
  "list_reverse_loop h l e = do {
     en \<leftarrow> list_end l;
     if e = en then Some h
     else do {
       p \<leftarrow> get_prev h e;
       n \<leftarrow> get_next h e;
       h \<leftarrow> set_prev h e n;
       h \<leftarrow> set_next h e p;
       e' \<leftarrow> get_prev h e;
       list_reverse_loop h l e' } }"

definition list_reverse :: "list_heap \<Rightarrow> addr \<Rightarrow> list_heap option" where
  "list_reverse h l = do {
     b \<leftarrow> list_empty h l;
     if b then Some h
     else do {
       e \<leftarrow> list_begin h l;
       h \<leftarrow> list_reverse_loop h l e;
       hn \<leftarrow> get_next h (head_of l);
       tp \<leftarrow> get_prev h (tail_of l);
       h \<leftarrow> set_next h (head_of l) tp;
       h \<leftarrow> set_prev h (tail_of l) hn;
       first \<leftarrow> get_next h (head_of l);
       lst \<leftarrow> get_prev h (tail_of l);
       fp \<leftarrow> get_prev h first;
       ln \<leftarrow> get_next h lst;
       h \<leftarrow> set_prev h first ln;
       set_next h lst fp } }"

partial_function (option) is_sorted_loop ::
  "less_func \<Rightarrow> list_heap \<Rightarrow> addr \<Rightarrow> addr \<Rightarrow> bool option" where
  "is_sorted_loop lessf h a b = do {
     a \<leftarrow> list_next h a;
     if a = b then Some True
     else do {
       p \<leftarrow> list_prev h a;
       if lessf a p then Some False else is_sorted_loop lessf h a b } }"

definition is_sorted :: "less_func \<Rightarrow> list_heap \<Rightarrow> addr \<Rightarrow> addr \<Rightarrow> bool option" where
  "is_sorted lessf h a b = (if a \<noteq> b then is_sorted_loop lessf h a b else Some True)"

partial_function (option) find_end_of_run_loop ::
  "less_func \<Rightarrow> list_heap \<Rightarrow> addr \<Rightarrow> addr \<Rightarrow> addr option" where
  "find_end_of_run_loop lessf h a b = do {
     a \<leftarrow> list_next h a;
     if a = b then Some a
     else do {
       p \<leftarrow> list_prev h a;
       if \<not> lessf a p then find_end_of_run_loop lessf h a b else Some a } }"

definition find_end_of_run :: "less_func \<Rightarrow> list_heap \<Rightarrow> addr \<Rightarrow> addr \<Rightarrow> addr option" where
  "find_end_of_run lessf h a b = do {
     c_assert (a \<noteq> NULL);
     c_assert (b \<noteq> NULL);
     c_assert (a \<noteq> b);
     find_end_of_run_loop lessf h a b }"

partial_function (option) inplace_merge_loop ::
  "less_func \<Rightarrow> list_heap \<Rightarrow> addr \<Rightarrow> addr \<Rightarrow> addr \<Rightarrow> list_heap option" where
  "inplace_merge_loop lessf h a0 a1b0 b1 =
     (if a0 \<noteq> a1b0 \<and> a1b0 \<noteq> b1 then
        if \<not> lessf a1b0 a0 then do {
          a0' \<leftarrow> list_next h a0;
          inplace_merge_loop lessf h a0' a1b0 b1 }
        else do {
          a1b0' \<leftarrow> list_next h a1b0;
          p \<leftarrow> list_prev h a1b0';
          h' \<leftarrow> list_splice h a0 p a1b0';
          inplace_merge_loop lessf h' a0 a1b0' b1 }
      else Some h)"

definition inplace_merge ::
  "less_func \<Rightarrow> list_heap \<Rightarrow> addr \<Rightarrow> addr \<Rightarrow> addr \<Rightarrow> list_heap option" where
  "inplace_merge lessf h a0 a1b0 b1 = do {
     c_assert (a0 \<noteq> NULL);
     c_assert (a1b0 \<noteq> NULL);
     c_assert (b1 \<noteq> NULL);
     ok \<leftarrow> is_sorted lessf h a0 a1b0;
     c_assert ok;
     ok \<leftarrow> is_sorted lessf h a1b0 b1;
     c_assert ok;
     inplace_merge_loop lessf h a0 a1b0 b1 }"

text \<open>
  The \<^verbatim>\<open>for\<close> loop of \<open>list_sort\<close> (one pass over the list, merging adjacent runs) and the
  \<^verbatim>\<open>do\<close> loop around it; the run counter is a \<open>size_t\<close>.
\<close>

partial_function (option) list_sort_pass ::
  "less_func \<Rightarrow> list_heap \<Rightarrow> addr \<Rightarrow> addr \<Rightarrow> u32 \<Rightarrow> (list_heap \<times> u32) option" where
  "list_sort_pass lessf h l a0 output_run_cnt = do {
     en \<leftarrow> list_end l;
     if a0 = en then Some (h, output_run_cnt)
     else do {
       a1b0 \<leftarrow> find_end_of_run lessf h a0 en;
       if a1b0 = en then Some (h, output_run_cnt + 1)
       else do {
         b1 \<leftarrow> find_end_of_run lessf h a1b0 en;
         h \<leftarrow> inplace_merge lessf h a0 a1b0 b1;
         list_sort_pass lessf h l b1 (output_run_cnt + 1) } } }"

partial_function (option) list_sort_loop ::
  "less_func \<Rightarrow> list_heap \<Rightarrow> addr \<Rightarrow> list_heap option" where
  "list_sort_loop lessf h l = do {
     a0 \<leftarrow> list_begin h l;
     (h, output_run_cnt) \<leftarrow> list_sort_pass lessf h l a0 0;
     if output_run_cnt > 1 then list_sort_loop lessf h l else Some h }"

definition list_sort :: "less_func \<Rightarrow> list_heap \<Rightarrow> addr \<Rightarrow> list_heap option" where
  "list_sort lessf h l = do {
     c_assert (l \<noteq> NULL);
     h \<leftarrow> list_sort_loop lessf h l;
     b \<leftarrow> list_begin h l;
     e \<leftarrow> list_end l;
     ok \<leftarrow> is_sorted lessf h b e;
     c_assert ok;
     Some h }"

partial_function (option) list_insert_ordered_loop ::
  "less_func \<Rightarrow> list_heap \<Rightarrow> addr \<Rightarrow> addr \<Rightarrow> addr \<Rightarrow> addr option" where
  "list_insert_ordered_loop lessf h l elem e = do {
     en \<leftarrow> list_end l;
     if e = en then Some e
     else if lessf elem e then Some e
     else do { e' \<leftarrow> list_next h e; list_insert_ordered_loop lessf h l elem e' } }"

definition list_insert_ordered ::
  "less_func \<Rightarrow> list_heap \<Rightarrow> addr \<Rightarrow> addr \<Rightarrow> list_heap option" where
  "list_insert_ordered lessf h l elem = do {
     c_assert (l \<noteq> NULL);
     c_assert (elem \<noteq> NULL);
     e \<leftarrow> list_begin h l;
     e \<leftarrow> list_insert_ordered_loop lessf h l elem e;
     list_insert h e elem }"

partial_function (option) list_unique_loop ::
  "less_func \<Rightarrow> list_heap \<Rightarrow> addr \<Rightarrow> addr \<Rightarrow> addr \<Rightarrow> list_heap option" where
  "list_unique_loop lessf h l duplicates elem = do {
     nx \<leftarrow> list_next h elem;
     en \<leftarrow> list_end l;
     if nx = en then Some h
     else if \<not> lessf elem nx \<and> \<not> lessf nx elem then do {
       (h, _) \<leftarrow> list_remove h nx;
       h \<leftarrow> (if duplicates \<noteq> NULL then list_push_back h duplicates nx else Some h);
       list_unique_loop lessf h l duplicates elem }
     else list_unique_loop lessf h l duplicates nx }"

definition list_unique ::
  "less_func \<Rightarrow> list_heap \<Rightarrow> addr \<Rightarrow> addr \<Rightarrow> list_heap option" where
  "list_unique lessf h l duplicates = do {
     c_assert (l \<noteq> NULL);
     b \<leftarrow> list_empty h l;
     if b then Some h
     else do { e \<leftarrow> list_begin h l; list_unique_loop lessf h l duplicates e } }"

partial_function (option) list_max_loop ::
  "less_func \<Rightarrow> list_heap \<Rightarrow> addr \<Rightarrow> addr \<Rightarrow> addr \<Rightarrow> addr option" where
  "list_max_loop lessf h l m e = do {
     en \<leftarrow> list_end l;
     if e = en then Some m
     else do { e' \<leftarrow> list_next h e; list_max_loop lessf h l (if lessf m e then e else m) e' } }"

definition list_max :: "less_func \<Rightarrow> list_heap \<Rightarrow> addr \<Rightarrow> addr option" where
  "list_max lessf h l = do {
     m \<leftarrow> list_begin h l;
     en \<leftarrow> list_end l;
     if m \<noteq> en then do { e \<leftarrow> list_next h m; list_max_loop lessf h l m e } else Some m }"

partial_function (option) list_min_loop ::
  "less_func \<Rightarrow> list_heap \<Rightarrow> addr \<Rightarrow> addr \<Rightarrow> addr \<Rightarrow> addr option" where
  "list_min_loop lessf h l m e = do {
     en \<leftarrow> list_end l;
     if e = en then Some m
     else do { e' \<leftarrow> list_next h e; list_min_loop lessf h l (if lessf e m then e else m) e' } }"

definition list_min :: "less_func \<Rightarrow> list_heap \<Rightarrow> addr \<Rightarrow> addr option" where
  "list_min lessf h l = do {
     m \<leftarrow> list_begin h l;
     en \<leftarrow> list_end l;
     if m \<noteq> en then do { e \<leftarrow> list_next h m; list_min_loop lessf h l m e } else Some m }"

section \<open>Representation: which list a heap holds\<close>

definition alloc :: "list_heap \<Rightarrow> addr \<Rightarrow> bool" where
  "alloc h a \<longleftrightarrow> a \<noteq> NULL \<and> prevs h a \<noteq> None \<and> nexts h a \<noteq> None"

definition link :: "list_heap \<Rightarrow> addr \<Rightarrow> addr \<Rightarrow> bool" where
  "link h a b \<longleftrightarrow> nexts h a = Some b \<and> prevs h b = Some a"

fun linked :: "list_heap \<Rightarrow> addr list \<Rightarrow> bool" where
  "linked h (a # b # r) \<longleftrightarrow> link h a b \<and> linked h (b # r)"
| "linked h _ \<longleftrightarrow> True"

definition nodes :: "addr \<Rightarrow> addr list \<Rightarrow> addr list" where
  "nodes l xs = head_of l # xs @ [tail_of l]"

definition dlist :: "list_heap \<Rightarrow> addr \<Rightarrow> addr list \<Rightarrow> bool" where
  "dlist h l xs \<longleftrightarrow>
     distinct (nodes l xs) \<and> (\<forall>a \<in> set (nodes l xs). alloc h a) \<and>
     prevs h (head_of l) = Some NULL \<and> nexts h (tail_of l) = Some NULL \<and>
     linked h (nodes l xs)"

text \<open>Two heaps that agree outside a set of elements: the frame of an operation.\<close>

definition same_except :: "addr set \<Rightarrow> list_heap \<Rightarrow> list_heap \<Rightarrow> bool" where
  "same_except S h h' \<longleftrightarrow> (\<forall>a. a \<notin> S \<longrightarrow> prevs h' a = prevs h a \<and> nexts h' a = nexts h a)"

lemma linked_append:
  "xs \<noteq> [] \<Longrightarrow> ys \<noteq> [] \<Longrightarrow>
   linked h (xs @ ys) \<longleftrightarrow> linked h xs \<and> link h (last xs) (hd ys) \<and> linked h ys"
  by (induction h xs rule: linked.induct) (auto simp: neq_Nil_conv)

lemma linked_Cons: "linked h (x # xs) \<longleftrightarrow> xs = [] \<or> link h x (hd xs) \<and> linked h xs"
  by (cases xs) auto

lemma linked_cong:
  "(\<And>a. a \<in> set (butlast xs) \<Longrightarrow> nexts h' a = nexts h a) \<Longrightarrow>
   (\<And>a. a \<in> set (tl xs) \<Longrightarrow> prevs h' a = prevs h a) \<Longrightarrow> linked h' xs = linked h xs"
  by (induction h xs rule: linked.induct) (auto simp: link_def split: if_splits)

lemma linked_next_upd [simp]:
  "a \<notin> set (butlast xs) \<Longrightarrow> linked (h\<lparr>nexts := (nexts h)(a \<mapsto> v)\<rparr>) xs = linked h xs"
  by (rule linked_cong) auto

lemma linked_prev_upd [simp]:
  "a \<notin> set (tl xs) \<Longrightarrow> linked (h\<lparr>prevs := (prevs h)(a \<mapsto> v)\<rparr>) xs = linked h xs"
  by (rule linked_cong) auto

lemma alloc_upd [simp]:
  "alloc (h\<lparr>nexts := (nexts h)(a \<mapsto> v)\<rparr>) b \<longleftrightarrow> alloc h b \<or> b = a \<and> a \<noteq> NULL \<and> prevs h a \<noteq> None"
  "alloc (h\<lparr>prevs := (prevs h)(a \<mapsto> v)\<rparr>) b \<longleftrightarrow> alloc h b \<or> b = a \<and> a \<noteq> NULL \<and> nexts h a \<noteq> None"
  by (auto simp: alloc_def)

lemma alloc_dom:
  "dom (prevs h') = dom (prevs h) \<Longrightarrow> dom (nexts h') = dom (nexts h) \<Longrightarrow> alloc h' a = alloc h a"
  by (auto simp: alloc_def domIff set_eq_iff)

lemma alloc_in_dom: "alloc h a \<Longrightarrow> a \<in> dom (prevs h) \<and> a \<in> dom (nexts h)"
  by (auto simp: alloc_def)

lemma dlist_cong:
  "same_except S h h' \<Longrightarrow> set (nodes l xs) \<inter> S = {} \<Longrightarrow> dlist h l xs \<Longrightarrow> dlist h' l xs"
proof -
  assume s: "same_except S h h'" and d: "set (nodes l xs) \<inter> S = {}" and dl: "dlist h l xs"
  have eq: "prevs h' a = prevs h a \<and> nexts h' a = nexts h a" if "a \<in> set (nodes l xs)" for a
    using s d that by (auto simp: same_except_def)
  have "linked h' (nodes l xs) = linked h (nodes l xs)"
    by (rule linked_cong) (auto simp: eq dest: in_set_butlastD in_set_tl)
  with dl eq show ?thesis by (auto simp: dlist_def alloc_def nodes_def)
qed

section \<open>Primitive operations on allocated elements\<close>

lemma get_alloc:
  "alloc h a \<Longrightarrow> get_prev h a = Some (the (prevs h a))"
  "alloc h a \<Longrightarrow> get_next h a = Some (the (nexts h a))"
  by (auto simp: alloc_def get_prev_def get_next_def)

lemma set_alloc:
  "alloc h a \<Longrightarrow> set_prev h a v = Some (h\<lparr>prevs := (prevs h)(a \<mapsto> v)\<rparr>)"
  "alloc h a \<Longrightarrow> set_next h a v = Some (h\<lparr>nexts := (nexts h)(a \<mapsto> v)\<rparr>)"
  by (auto simp: alloc_def set_prev_def set_next_def)

lemma list_next_eq:
  "list_next h e =
     (if alloc h e \<and> nexts h e \<noteq> Some NULL then nexts h e else None)"
  by (auto simp: list_next_def or_else_def is_head_def is_interior_def get_prev_def get_next_def
      alloc_def bind_eq_Some_iff split: Option.bind_splits)

lemma list_prev_eq:
  "list_prev h e =
     (if alloc h e \<and> prevs h e \<noteq> Some NULL then prevs h e else None)"
  by (auto simp: list_prev_def or_else_def is_tail_def is_interior_def get_prev_def get_next_def
      alloc_def bind_eq_Some_iff split: Option.bind_splits)

lemma is_interior_alloc:
  "alloc h e \<Longrightarrow> is_interior h e = Some (prevs h e \<noteq> Some NULL \<and> nexts h e \<noteq> Some NULL)"
  by (auto simp: is_interior_def get_prev_def get_next_def alloc_def)

lemma interior_or_tail_alloc:
  "alloc h e \<Longrightarrow> or_else (is_interior h e) (is_tail h e) = Some (prevs h e \<noteq> Some NULL)"
  by (auto simp: or_else_def is_tail_def is_interior_def get_prev_def get_next_def alloc_def)

lemma list_insert_alloc:
  assumes "alloc h b" "alloc h e" "alloc h p" "prevs h b = Some p" "e \<noteq> b"
  shows "list_insert h b e =
     Some (h\<lparr>prevs := (prevs h)(e \<mapsto> p, b \<mapsto> e), nexts := (nexts h)(e \<mapsto> b, p \<mapsto> e)\<rparr>)"
proof -
  have "p \<noteq> NULL" using assms by (simp add: alloc_def)
  with assms show ?thesis
    unfolding list_insert_def
    by (simp add: interior_or_tail_alloc get_alloc set_alloc) (simp add: alloc_def get_prev_def set_next_def set_prev_def)
qed

lemma list_remove_alloc:
  assumes "alloc h e" "alloc h p" "alloc h n" "prevs h e = Some p" "nexts h e = Some n"
    "p \<noteq> e" "n \<noteq> e"
  shows "list_remove h e = Some (h\<lparr>prevs := (prevs h)(n \<mapsto> p), nexts := (nexts h)(p \<mapsto> n)\<rparr>, n)"
proof -
  have "p \<noteq> NULL" "n \<noteq> NULL" using assms by (auto simp: alloc_def)
  with assms show ?thesis
    unfolding list_remove_def
    by (simp add: is_interior_alloc get_alloc set_alloc) (simp add: alloc_def get_prev_def get_next_def set_next_def set_prev_def)
qed

section \<open>Traversal of a represented list\<close>

lemma nodes_split: "nodes l (as @ bs) = (head_of l # as) @ (bs @ [tail_of l])"
  by (simp add: nodes_def)

lemma dlist_alloc: "dlist h l xs \<Longrightarrow> a \<in> set (nodes l xs) \<Longrightarrow> alloc h a"
  by (simp add: dlist_def)

lemma dlist_distinct: "dlist h l xs \<Longrightarrow> distinct (nodes l xs)"
  by (simp add: dlist_def)

lemma dlist_not_NULL: "dlist h l xs \<Longrightarrow> l \<noteq> NULL"
  by (auto simp: dlist_def nodes_def alloc_def head_of_def)

lemma dlist_link: "dlist h l xs \<Longrightarrow> nodes l xs = as @ a # b # bs \<Longrightarrow> link h a b"
  by (cases "as = []") (auto simp: dlist_def linked_append)

lemma dlist_list_next:
  assumes "dlist h l xs" "nodes l xs = as @ a # b # bs"
  shows "list_next h a = Some b"
proof -
  have "alloc h a" "alloc h b" using assms by (auto intro: dlist_alloc)
  moreover have "link h a b" using assms by (rule dlist_link)
  ultimately show ?thesis by (auto simp: list_next_eq link_def alloc_def)
qed

lemma dlist_list_prev:
  assumes "dlist h l xs" "nodes l xs = as @ a # b # bs"
  shows "list_prev h b = Some a"
proof -
  have "alloc h a" "alloc h b" using assms by (auto intro: dlist_alloc)
  moreover have "link h a b" using assms by (rule dlist_link)
  ultimately show ?thesis by (auto simp: list_prev_eq link_def alloc_def)
qed

lemma dlist_end [simp]: "dlist h l xs \<Longrightarrow> list_end l = Some (tail_of l)"
  by (simp add: list_end_def dlist_not_NULL)

lemma dlist_begin: "dlist h l xs \<Longrightarrow> list_begin h l = Some (hd (xs @ [tail_of l]))"
  using dlist_link [of h l xs "[]" "head_of l" "hd (xs @ [tail_of l])" "tl (xs @ [tail_of l])"]
  by (cases xs) (auto simp: list_begin_def dlist_not_NULL nodes_def link_def get_next_def head_of_def)

lemma dlist_rbegin: "dlist h l xs \<Longrightarrow> list_rbegin h l = Some (last (head_of l # xs))"
  using dlist_link [of h l xs "butlast (head_of l # xs)" "last (head_of l # xs)" "tail_of l" "[]"]
  by (simp add: list_rbegin_def dlist_not_NULL nodes_def link_def get_prev_def tail_of_def)

lemma dlist_empty:
  assumes "dlist h l xs" shows "list_empty h l = Some (xs = [])"
proof (cases xs)
  case (Cons a list)
  then have "a \<noteq> tail_of l" using dlist_distinct [OF assms] by (auto simp: nodes_def)
  then show ?thesis using Cons assms by (simp add: list_empty_def dlist_begin)
qed (use assms in \<open>simp add: list_empty_def dlist_begin\<close>)

lemma same_except_refl [simp]: "same_except S h h"
  by (simp add: same_except_def)

lemma same_except_trans:
  "same_except S h h' \<Longrightarrow> same_except S h' h'' \<Longrightarrow> same_except S h h''"
  by (simp add: same_except_def)

lemma same_except_mono: "same_except S h h' \<Longrightarrow> S \<subseteq> T \<Longrightarrow> same_except T h h'"
  by (auto simp: same_except_def)

section \<open>Insertion, removal and block moves\<close>

lemma dlist_init:
  assumes "alloc h (head_of l)" "alloc h (tail_of l)"
  shows "\<exists>h'. list_init h l = Some h' \<and> dlist h' l [] \<and> same_except {head_of l, tail_of l} h h'"
  using assms
  by (auto simp: list_init_def set_prev_def set_next_def alloc_def dlist_def nodes_def link_def
      head_of_def tail_of_def same_except_def)

lemma dlist_insert:
  assumes d: "dlist h l (as @ bs)" and e: "alloc h e" "e \<notin> set (nodes l (as @ bs))"
  shows "\<exists>h'. list_insert h (hd (bs @ [tail_of l])) e = Some h' \<and> dlist h' l (as @ e # bs) \<and>
           same_except (insert e (set (nodes l (as @ bs)))) h h' \<and> (\<forall>a. alloc h' a = alloc h a)"
proof -
  define A where "A = head_of l # as"
  define B where "B = bs @ [tail_of l]"
  have AB: "nodes l (as @ bs) = A @ B" and ne: "A \<noteq> []" "B \<noteq> []"
    by (auto simp: A_def B_def nodes_def)
  have l: "linked h A" "linked h B" "link h (last A) (hd B)"
    using d ne by (auto simp: dlist_def AB linked_append)
  have al: "\<forall>a \<in> set (A @ B). alloc h a" using d by (simp add: dlist_def AB)
  have ds: "distinct (A @ B)" using d by (simp add: dlist_def AB)
  have eAB: "e \<notin> set A" "e \<notin> set B" using e by (auto simp: AB)
  have pb: "alloc h (hd B)" "alloc h (last A)" "hd B \<noteq> last A" "e \<noteq> hd B" "e \<noteq> last A"
    using al ds ne eAB by (auto simp: disjoint_iff) (metis hd_in_set last_in_set)+
  let ?h = "h\<lparr>prevs := (prevs h)(e \<mapsto> last A, hd B \<mapsto> e), nexts := (nexts h)(e \<mapsto> hd B, last A \<mapsto> e)\<rparr>"
  have ins: "list_insert h (hd B) e = Some ?h"
    using pb e l by (intro list_insert_alloc) (auto simp: link_def)
  have lA: "linked ?h A"
    using l(1) by (subst linked_cong [where h = h])
      (use ds ne eAB pb in \<open>auto dest: in_set_butlastD in_set_tl distinct_last_notin_butlast hd_in_set\<close>)
  have lB: "linked ?h B"
    using l(2) by (subst linked_cong [where h = h])
      (use ds ne eAB pb in \<open>auto dest: in_set_butlastD in_set_tl distinct_hd_notin_tl last_in_set\<close>)
  have "linked ?h (A @ e # B)"
    using ne lA lB pb by (simp add: linked_append linked_Cons link_def)
  moreover have "nodes l (as @ e # bs) = A @ e # B" by (simp add: A_def B_def nodes_def)
  moreover have "distinct (A @ e # B)" using ds eAB by auto
  moreover have all: "alloc ?h a = alloc h a" for a
    using e(1) pb by (auto simp: alloc_def)
  moreover have "prevs ?h (head_of l) = Some NULL" "nexts ?h (tail_of l) = Some NULL"
    using d ne eAB pb ds by (auto simp: dlist_def A_def B_def hd_append split: if_splits)
  ultimately have "dlist ?h l (as @ e # bs)"
    using al e(1) by (simp add: dlist_def)
  moreover have "same_except (insert e (set (nodes l (as @ bs)))) h ?h"
    using ne by (auto simp: same_except_def AB)
  ultimately show ?thesis using ins all by (auto simp: B_def)
qed

lemma linked_upds:
  "linked h X \<Longrightarrow> \<forall>a \<in> set (butlast X). nexts h' a = nexts h a \<Longrightarrow>
   \<forall>a \<in> set (tl X). prevs h' a = prevs h a \<Longrightarrow> linked h' X"
  using linked_cong [of X h' h] by blast

lemma butlast_distinct: "distinct X \<Longrightarrow> c \<in> set (butlast X) \<Longrightarrow> c \<in> set X \<and> c \<noteq> last X"
  by (cases "X = []") (auto dest: in_set_butlastD distinct_last_notin_butlast)

lemma tl_distinct: "distinct X \<Longrightarrow> c \<in> set (tl X) \<Longrightarrow> c \<in> set X \<and> c \<noteq> hd X"
  by (cases X) auto

lemma dlist_remove:
  assumes d: "dlist h l (as @ e # bs)"
  shows "\<exists>h'. list_remove h e = Some (h', hd (bs @ [tail_of l])) \<and> dlist h' l (as @ bs) \<and>
           same_except (set (nodes l (as @ bs))) h h' \<and> (\<forall>a. alloc h' a = alloc h a)"
proof -
  define A where "A = head_of l # as"
  define B where "B = bs @ [tail_of l]"
  have AB: "nodes l (as @ e # bs) = A @ e # B" "nodes l (as @ bs) = A @ B" and ne: "A \<noteq> []" "B \<noteq> []"
    by (auto simp: A_def B_def nodes_def)
  have l: "linked h A" "linked h B" "link h (last A) e" "link h e (hd B)"
    using d ne by (auto simp: dlist_def AB linked_append linked_Cons)
  have al: "alloc h e" "\<forall>a \<in> set (A @ B). alloc h a" using d by (auto simp: dlist_def AB)
  have ds: "distinct (A @ e # B)" using d by (simp add: dlist_def AB)
  have pb: "alloc h (hd B)" "alloc h (last A)" "hd B \<noteq> e" "last A \<noteq> e"
    using al ds ne by (auto dest: hd_in_set last_in_set)
  let ?h = "h\<lparr>prevs := (prevs h)(hd B \<mapsto> last A), nexts := (nexts h)(last A \<mapsto> hd B)\<rparr>"
  have rm: "list_remove h e = Some (?h, hd B)"
    using pb al l by (intro list_remove_alloc) (auto simp: link_def)
  have lA: "linked ?h A"
    using l(1) by (subst linked_cong [where h = h])
      (use ds ne pb in \<open>auto dest: in_set_butlastD in_set_tl distinct_last_notin_butlast hd_in_set\<close>)
  have lB: "linked ?h B"
    using l(2) by (subst linked_cong [where h = h])
      (use ds ne pb in \<open>auto dest: in_set_butlastD in_set_tl distinct_hd_notin_tl last_in_set\<close>)
  have "linked ?h (A @ B)"
    using ne lA lB pb by (simp add: linked_append link_def)
  moreover have all: "alloc ?h a = alloc h a" for a
    using pb by (auto simp: alloc_def)
  moreover have "prevs ?h (head_of l) = Some NULL" "nexts ?h (tail_of l) = Some NULL"
    using d ne pb ds by (auto simp: dlist_def A_def B_def hd_append split: if_splits)
  ultimately have "dlist ?h l (as @ bs)"
    using al ds by (simp add: dlist_def AB)
  moreover have "same_except (set (nodes l (as @ bs))) h ?h"
    using ne by (auto simp: same_except_def AB)
  ultimately show ?thesis using rm all by (auto simp: B_def)
qed

lemma list_splice_alloc:
  assumes "alloc h b" "alloc h q" "prevs h b = Some q"
    "alloc h f" "alloc h p" "prevs h f = Some p" "nexts h f \<noteq> Some NULL"
    "alloc h x" "alloc h n" "nexts h x = Some n" "prevs h n = Some x" "prevs h x \<noteq> Some NULL"
    "f \<noteq> n" "p \<noteq> x" "b \<noteq> n" "b \<noteq> f"
  shows "list_splice h b f n =
     Some (h\<lparr>prevs := (prevs h)(n \<mapsto> p, f \<mapsto> q, b \<mapsto> x),
             nexts := (nexts h)(p \<mapsto> n, x \<mapsto> b, q \<mapsto> f)\<rparr>)"
proof -
  have nn: "p \<noteq> NULL" "n \<noteq> NULL" "q \<noteq> NULL" "x \<noteq> NULL" using assms by (auto simp: alloc_def)
  have pv: "list_prev h n = Some x" using assms nn by (simp add: list_prev_eq)
  have t1: "or_else (is_interior h b) (is_tail h b) = Some True"
    using assms(1-3) nn by (simp only: interior_or_tail_alloc) simp
  have t2: "is_interior h f = Some True" "is_interior h x = Some True"
    using assms(4,6-8,10,12) nn by (simp_all add: is_interior_alloc)
  show ?thesis
    unfolding list_splice_def using assms nn pv
    by (simp add: t1 t2 get_alloc set_alloc)
      (auto simp: alloc_def get_prev_def get_next_def set_next_def set_prev_def)
qed

text \<open>\<open>list_splice\<close> within one list, moving a block to before an earlier element.\<close>

lemma dlist_splice:
  assumes d: "dlist h l (as @ M @ S @ bs)" and ne: "M \<noteq> []" "S \<noteq> []"
  shows "\<exists>h'. list_splice h (hd M) (hd S) (hd (bs @ [tail_of l])) = Some h' \<and>
           dlist h' l (as @ S @ M @ bs) \<and>
           same_except (set (nodes l (as @ M @ S @ bs))) h h' \<and> (\<forall>a. alloc h' a = alloc h a)"
proof -
  define A where "A = head_of l # as"
  define B where "B = bs @ [tail_of l]"
  have AB: "nodes l (as @ M @ S @ bs) = A @ M @ S @ B" "nodes l (as @ S @ M @ bs) = A @ S @ M @ B"
    and neAB: "A \<noteq> []" "B \<noteq> []"
    by (auto simp: A_def B_def nodes_def)
  have l: "linked h A" "linked h M" "linked h S" "linked h B"
    "link h (last A) (hd M)" "link h (last M) (hd S)" "link h (last S) (hd B)"
    using d ne neAB by (auto simp: dlist_def AB linked_append)
  have al: "\<forall>a \<in> set A \<union> set M \<union> set S \<union> set B. alloc h a" using d by (auto simp: dlist_def AB)
  have ds: "distinct (A @ M @ S @ B)" using d by (simp add: dlist_def AB)
  have mem: "last A \<in> set A" "hd M \<in> set M" "last M \<in> set M" "hd S \<in> set S" "last S \<in> set S"
    "hd B \<in> set B" using ne neAB by auto
  have nz: "c \<noteq> NULL" if "c \<in> set A \<union> set M \<union> set S \<union> set B" for c
    using al that by (auto simp: alloc_def)
  have nxS: "nexts h (hd S) \<noteq> Some NULL"
    using l(3,7) mem nz ne by (cases S; cases "tl S") (auto simp: link_def)
  have pvS: "prevs h (last S) \<noteq> Some NULL"
  proof (cases "butlast S = []")
    case True
    then have "last S = hd S" using ne by (metis append_butlast_last_id append_Nil list.sel(1))
    then show ?thesis using l(6) mem nz by (auto simp: link_def)
  next
    case False
    have "linked h (butlast S @ [last S])" using l(3) ne by simp
    then have "link h (last (butlast S)) (last S)" using False by (simp add: linked_append)
    moreover have "last (butlast S) \<in> set S" using False by (meson in_set_butlastD last_in_set)
    ultimately show ?thesis using nz by (auto simp: link_def)
  qed
  let ?h = "h\<lparr>prevs := (prevs h)(hd B \<mapsto> last M, hd S \<mapsto> last A, hd M \<mapsto> last S),
              nexts := (nexts h)(last M \<mapsto> hd B, last S \<mapsto> hd M, last A \<mapsto> hd S)\<rparr>"
  have sp: "list_splice h (hd M) (hd S) (hd B) = Some ?h"
    by (rule list_splice_alloc) (use al l mem ds nxS pvS in \<open>auto simp: link_def\<close>)
  have notin: "last A \<notin> set M" "last A \<notin> set S" "last A \<notin> set B"
    "last M \<notin> set A" "last M \<notin> set S" "last M \<notin> set B" "hd M \<notin> set A" "hd M \<notin> set S" "hd M \<notin> set B"
    "last S \<notin> set A" "last S \<notin> set M" "last S \<notin> set B" "hd S \<notin> set A" "hd S \<notin> set M" "hd S \<notin> set B"
    "hd B \<notin> set A" "hd B \<notin> set M" "hd B \<notin> set S"
    using mem ds by (auto simp: disjoint_iff)
  have dst: "distinct A" "distinct M" "distinct S" "distinct B" using ds by auto
  have lA: "linked ?h A"
    by (rule linked_upds [OF l(1)])
      (auto dest!: butlast_distinct [OF dst(1)] tl_distinct [OF dst(1)] simp: notin)
  have lM: "linked ?h M"
    by (rule linked_upds [OF l(2)])
      (auto dest!: butlast_distinct [OF dst(2)] tl_distinct [OF dst(2)] simp: notin)
  have lS: "linked ?h S"
    by (rule linked_upds [OF l(3)])
      (auto dest!: butlast_distinct [OF dst(3)] tl_distinct [OF dst(3)] simp: notin)
  have lB: "linked ?h B"
    by (rule linked_upds [OF l(4)])
      (auto dest!: butlast_distinct [OF dst(4)] tl_distinct [OF dst(4)] simp: notin)
  have ah: "alloc h (last A)" "alloc h (hd M)" "alloc h (last M)" "alloc h (hd S)" "alloc h (last S)"
    "alloc h (hd B)" using al mem by blast+
  have neqs: "last A \<noteq> last S" "last A \<noteq> last M" "last S \<noteq> last M" "hd S \<noteq> hd M" "hd S \<noteq> hd B" "hd M \<noteq> hd B"
    using mem notin by metis+
  have "head_of l \<in> set A" "tail_of l \<in> set B" by (simp_all add: A_def B_def)
  then have sent: "head_of l \<notin> {hd B, hd S, hd M}" "tail_of l \<notin> {last M, last S, last A}"
    using notin by auto
  have "link ?h (last A) (hd S)" "link ?h (last S) (hd M)" "link ?h (last M) (hd B)"
    using neqs by (simp_all add: link_def)
  then have "linked ?h (A @ S @ M @ B)"
    using ne neAB lA lM lS lB by (simp add: linked_append)
  moreover have all: "alloc ?h a = alloc h a" for a
    by (rule alloc_dom) (simp_all add: insert_absorb ah [THEN alloc_in_dom])
  moreover have "distinct (A @ S @ M @ B)" using ds by (simp add: disjoint_iff) blast
  moreover have "prevs ?h (head_of l) = Some NULL" "nexts ?h (tail_of l) = Some NULL"
    using d sent by (auto simp: dlist_def)
  ultimately have "dlist ?h l (as @ S @ M @ bs)"
    using al by (simp add: dlist_def AB ball_Un)
  moreover have "same_except (set (nodes l (as @ M @ S @ bs))) h ?h"
    using mem by (auto simp: same_except_def AB)
  ultimately show ?thesis using sp all by (auto simp: B_def)
qed

section \<open>The operations on a represented list\<close>

lemma dlist_push_front:
  assumes "dlist h l xs" "alloc h e" "e \<notin> set (nodes l xs)"
  shows "\<exists>h'. list_push_front h l e = Some h' \<and> dlist h' l (e # xs) \<and>
           same_except (insert e (set (nodes l xs))) h h' \<and> (\<forall>a. alloc h' a = alloc h a)"
  using dlist_insert [of h l "[]" xs e] assms by (simp add: list_push_front_def dlist_begin)

lemma dlist_push_back:
  assumes "dlist h l xs" "alloc h e" "e \<notin> set (nodes l xs)"
  shows "\<exists>h'. list_push_back h l e = Some h' \<and> dlist h' l (xs @ [e]) \<and>
           same_except (insert e (set (nodes l xs))) h h' \<and> (\<forall>a. alloc h' a = alloc h a)"
  using dlist_insert [of h l xs "[]" e] assms by (simp add: list_push_back_def)

lemma dlist_front: "dlist h l (x # xs) \<Longrightarrow> list_front h l = Some x"
  using dlist_begin [of h l "x # xs"]
  by (simp add: list_front_def dlist_empty list_begin_def dlist_not_NULL)

lemma dlist_back: "dlist h l (xs @ [x]) \<Longrightarrow> list_back h l = Some x"
  using dlist_rbegin [of h l "xs @ [x]"]
  by (simp add: list_back_def dlist_empty list_rbegin_def dlist_not_NULL)

lemma dlist_pop_front:
  assumes "dlist h l (x # xs)"
  shows "\<exists>h'. list_pop_front h l = Some (h', x) \<and> dlist h' l xs \<and>
           same_except (set (nodes l xs)) h h' \<and> (\<forall>a. alloc h' a = alloc h a)"
  using dlist_remove [of h l "[]" x xs] assms by (auto simp: list_pop_front_def dlist_front)

lemma dlist_pop_back:
  assumes "dlist h l (xs @ [x])"
  shows "\<exists>h'. list_pop_back h l = Some (h', x) \<and> dlist h' l xs \<and>
           same_except (set (nodes l xs)) h h' \<and> (\<forall>a. alloc h' a = alloc h a)"
  using dlist_remove [of h l xs x "[]"] assms by (auto simp: list_pop_back_def dlist_back)

lemma list_pop_front_empty: "dlist h l [] \<Longrightarrow> list_pop_front h l = None"
  by (simp add: list_pop_front_def list_front_def dlist_empty)

lemma dlist_hd_next:
  assumes "dlist h l (as @ b # bs)"
  shows "list_next h b = Some (hd (bs @ [tail_of l]))" "b \<noteq> tail_of l"
proof -
  show "list_next h b = Some (hd (bs @ [tail_of l]))"
    using dlist_list_next [OF assms, of "head_of l # as" b "hd (bs @ [tail_of l])" "tl (bs @ [tail_of l])"]
    by (cases bs) (auto simp: nodes_def)
  show "b \<noteq> tail_of l" using dlist_distinct [OF assms] by (auto simp: nodes_def)
qed

lemma list_size_loop_dlist:
  "dlist h l (as @ bs) \<Longrightarrow>
   list_size_loop h l (hd (bs @ [tail_of l])) cnt = Some (cnt + of_nat (length bs))"
proof (induction bs arbitrary: as cnt)
  case Nil
  then show ?case by (simp add: list_size_loop.simps)
next
  case (Cons b bs)
  from Cons.IH [of "as @ [b]"] Cons.prems dlist_hd_next [of h l as b bs] show ?case
    by (simp add: list_size_loop.simps [of h l b] algebra_simps)
qed

lemma dlist_size: "dlist h l xs \<Longrightarrow> list_size h l = Some (of_nat (length xs))"
  using list_size_loop_dlist [of h l "[]" xs 0] by (simp add: list_size_def dlist_begin)

text \<open>Reversal: the loop swaps the two fields of every interior element.\<close>

definition swapped :: "addr set \<Rightarrow> list_heap \<Rightarrow> list_heap \<Rightarrow> bool" where
  "swapped S h h' \<longleftrightarrow> same_except S h h' \<and> (\<forall>a \<in> S. prevs h' a = nexts h a \<and> nexts h' a = prevs h a)"

lemma list_reverse_loop_dlist:
  assumes "dlist h0 l (as @ bs)" "swapped (set as) h0 h"
  shows "\<exists>h'. list_reverse_loop h l (hd (bs @ [tail_of l])) = Some h' \<and> swapped (set (as @ bs)) h0 h'"
  using assms
proof (induction bs arbitrary: as h)
  case Nil
  then show ?case by (auto simp: list_reverse_loop.simps)
next
  case (Cons b bs)
  have b: "b \<notin> set as" "alloc h0 b" "b \<noteq> tail_of l"
    using dlist_distinct [OF Cons.prems(1)] dlist_alloc [OF Cons.prems(1)] by (auto simp: nodes_def)
  have nx: "nexts h0 b = Some (hd (bs @ [tail_of l]))"
    using dlist_hd_next [OF Cons.prems(1)] by (auto simp: list_next_eq split: if_splits)
  have hb: "prevs h b = prevs h0 b" "nexts h b = nexts h0 b"
    using Cons.prems(2) b by (auto simp: swapped_def same_except_def)
  have al: "alloc h b" using b hb by (simp add: alloc_def)
  let ?h = "h\<lparr>prevs := (prevs h)(b \<mapsto> hd (bs @ [tail_of l])), nexts := (nexts h)(b \<mapsto> the (prevs h0 b))\<rparr>"
  have sw: "swapped (set (as @ [b])) h0 ?h"
    using Cons.prems(2) b nx by (auto simp: swapped_def same_except_def alloc_def)
  obtain h' where h': "list_reverse_loop ?h l (hd (bs @ [tail_of l])) = Some h'"
    "swapped (set (as @ b # bs)) h0 h'"
    using Cons.IH [of "as @ [b]" ?h] Cons.prems(1) sw by auto
  have "list_reverse_loop h l b = list_reverse_loop ?h l (hd (bs @ [tail_of l]))"
    using al b hb nx Cons.prems(1)
    by (simp add: list_reverse_loop.simps [of h l b] get_alloc set_alloc)
      (simp add: get_prev_def alloc_def)
  with h' show ?case by auto
qed

lemma linked_rev:
  assumes "linked h xs" "\<And>a. a \<in> set xs \<Longrightarrow> prevs h' a = nexts h a \<and> nexts h' a = prevs h a"
  shows "linked h' (rev xs)"
  using assms
proof (induction xs)
  case (Cons x xs)
  show ?case
  proof (cases "xs = []")
    case False
    with Cons show ?thesis by (auto simp: linked_Cons linked_append link_def last_rev)
  qed simp
qed simp

lemma dlist_reverse:
  assumes d: "dlist h l xs"
  shows "\<exists>h'. list_reverse h l = Some h' \<and> dlist h' l (rev xs) \<and>
           same_except (set (nodes l xs)) h h' \<and> (\<forall>a. alloc h' a = alloc h a)"
proof (cases "xs = []")
  case True
  with d show ?thesis by (auto simp: list_reverse_def dlist_empty)
next
  case ne: False
  have AB: "nodes l xs = head_of l # xs @ [tail_of l]" by (simp add: nodes_def)
  have ds: "distinct (head_of l # xs @ [tail_of l])" using d by (simp add: dlist_def AB)
  have al: "alloc h (head_of l)" "alloc h (tail_of l)" "\<And>a. a \<in> set xs \<Longrightarrow> alloc h a"
    using d by (auto simp: dlist_def AB)
  have l: "link h (head_of l) (hd xs)" "linked h xs" "link h (last xs) (tail_of l)"
    using d ne by (auto simp: dlist_def AB linked_Cons linked_append)
  obtain h1 where h1: "list_reverse_loop h l (hd xs) = Some h1" "swapped (set xs) h h1"
    using list_reverse_loop_dlist [of h l "[]" xs h] d ne by (auto simp: swapped_def)
  have s: "prevs h1 a = prevs h a" "nexts h1 a = nexts h a" if "a \<notin> set xs" for a
    using h1 that by (auto simp: swapped_def same_except_def)
  have sw: "prevs h1 a = nexts h a" "nexts h1 a = prevs h a" if "a \<in> set xs" for a
    using h1 that by (auto simp: swapped_def)
  have al1: "alloc h1 a = alloc h a" for a
    using s [of a] sw [of a] by (cases "a \<in> set xs") (auto simp: alloc_def)
  have mem: "hd xs \<in> set xs" "last xs \<in> set xs" using ne by auto
  have nt: "head_of l \<noteq> tail_of l" "head_of l \<notin> set xs" "tail_of l \<notin> set xs" using ds by auto
  let ?h = "h1\<lparr>prevs := (prevs h1)(tail_of l \<mapsto> hd xs, last xs \<mapsto> head_of l),
               nexts := (nexts h1)(head_of l \<mapsto> last xs, hd xs \<mapsto> tail_of l)\<rparr>"
  have vals: "nexts h1 (head_of l) = Some (hd xs)" "prevs h1 (tail_of l) = Some (last xs)"
    "prevs h1 (last xs) = Some (tail_of l)" "nexts h1 (hd xs) = Some (head_of l)"
    using l s sw mem nt by (auto simp: link_def)
  have allocs: "alloc h1 (head_of l)" "alloc h1 (tail_of l)" "alloc h1 (hd xs)" "alloc h1 (last xs)"
    using al al1 mem by auto
  have neqs: "hd xs \<noteq> head_of l" "hd xs \<noteq> tail_of l" "last xs \<noteq> head_of l" "last xs \<noteq> tail_of l"
    using mem nt by metis+
  have "list_reverse h l = Some ?h"
    using d ne neqs vals allocs mem nt h1(1)
    by (simp add: list_reverse_def dlist_empty dlist_begin get_alloc set_alloc)
       (auto simp: get_prev_def get_next_def set_prev_def set_next_def alloc_def)
  moreover have "linked ?h (rev xs)"
  proof -
    have "linked h1 (rev xs)" using l(2) by (rule linked_rev) (auto simp: sw)
    moreover have "last xs \<notin> set (tl (rev xs))" "hd xs \<notin> set (butlast (rev xs))"
      using ds ne by (auto simp: butlast_rev dest: distinct_hd_notin_tl)
        (metis distinct_append distinct_hd_notin_tl distinct_rev hd_rev rev_is_Nil_conv distinct.simps(2))
    ultimately show ?thesis using nt
      by (subst linked_cong [where h = h1]) (auto dest: in_set_tl in_set_butlastD)
  qed
  moreover have "link ?h (head_of l) (last xs)" "link ?h (hd xs) (tail_of l)"
    using nt neqs by (auto simp: link_def)
  ultimately have res: "list_reverse h l = Some ?h" "linked ?h (nodes l (rev xs))"
    using ne by (simp_all add: nodes_def linked_Cons linked_append hd_rev last_rev)
  have "alloc ?h a = alloc h1 a" for a
    by (rule alloc_dom) (simp_all add: insert_absorb allocs [THEN alloc_in_dom])
  then have all: "alloc ?h a = alloc h a" for a using al1 by simp
  have "dlist ?h l (rev xs)"
    using res(2) d nt neqs all s by (auto simp: dlist_def nodes_def)
  moreover have "same_except (set (nodes l xs)) h ?h"
    using s mem by (auto simp: same_except_def AB)
  ultimately show ?thesis using res(1) all by auto
qed

section \<open>Ordered lists: \<open>list_less_func\<close> and its contract\<close>

text \<open>
  What \<^verbatim>\<open>list.h\<close> asks of a \<open>list_less_func\<close>: a strict weak order ("true if A is less than
  B, or false if A is greater than or equal to B").
\<close>

locale less_order =
  fixes lessf :: less_func
  assumes asym: "lessf a b \<Longrightarrow> \<not> lessf b a"
    and neg_trans: "\<not> lessf a b \<Longrightarrow> \<not> lessf b c \<Longrightarrow> \<not> lessf a c"
begin

lemma less_trans: "lessf a b \<Longrightarrow> lessf b c \<Longrightarrow> lessf a c"
  using asym neg_trans by blast

lemma irrefl: "\<not> lessf a a"
  using asym by blast

end

definition in_order :: "less_func \<Rightarrow> addr list \<Rightarrow> bool" where
  "in_order lessf xs \<longleftrightarrow> sorted_wrt (\<lambda>a b. \<not> lessf b a) xs"

definition place :: "less_func \<Rightarrow> addr \<Rightarrow> addr list \<Rightarrow> addr list" where
  "place lessf e xs = takeWhile (\<lambda>x. \<not> lessf e x) xs @ e # dropWhile (\<lambda>x. \<not> lessf e x) xs"

lemma list_insert_ordered_loop_dlist:
  "dlist h l (as @ bs) \<Longrightarrow>
   list_insert_ordered_loop lessf h l e (hd (bs @ [tail_of l])) =
     Some (hd (dropWhile (\<lambda>x. \<not> lessf e x) bs @ [tail_of l]))"
proof (induction bs arbitrary: as)
  case Nil
  then show ?case by (simp add: list_insert_ordered_loop.simps)
next
  case (Cons b bs)
  from Cons.IH [of "as @ [b]"] Cons.prems dlist_hd_next [of h l as b bs] show ?case
    by (simp add: list_insert_ordered_loop.simps [of lessf h l e b])
qed

lemma dlist_insert_ordered:
  assumes "dlist h l xs" "alloc h e" "e \<notin> set (nodes l xs)"
  shows "\<exists>h'. list_insert_ordered lessf h l e = Some h' \<and> dlist h' l (place lessf e xs) \<and>
           same_except (insert e (set (nodes l xs))) h h' \<and> (\<forall>a. alloc h' a = alloc h a)"
proof -
  have loop: "list_insert_ordered_loop lessf h l e (hd (xs @ [tail_of l])) =
      Some (hd (dropWhile (\<lambda>x. \<not> lessf e x) xs @ [tail_of l]))"
    using list_insert_ordered_loop_dlist [of h l "[]" xs] assms by simp
  have "list_insert_ordered lessf h l e = list_insert h (hd (dropWhile (\<lambda>x. \<not> lessf e x) xs @ [tail_of l])) e"
    using assms loop by (simp add: list_insert_ordered_def dlist_begin dlist_not_NULL alloc_def)
  then show ?thesis
    using dlist_insert [of h l "takeWhile (\<lambda>x. \<not> lessf e x) xs" "dropWhile (\<lambda>x. \<not> lessf e x) xs" e] assms
    by (simp add: place_def)
qed

fun best :: "(addr \<Rightarrow> addr \<Rightarrow> bool) \<Rightarrow> addr \<Rightarrow> addr list \<Rightarrow> addr" where
  "best better m [] = m"
| "best better m (x # xs) = best better (if better x m then x else m) xs"

lemma list_max_loop_dlist:
  "dlist h l (as @ bs) \<Longrightarrow>
   list_max_loop lessf h l m (hd (bs @ [tail_of l])) = Some (best (\<lambda>a b. lessf b a) m bs)"
proof (induction bs arbitrary: as m)
  case Nil
  then show ?case by (simp add: list_max_loop.simps)
next
  case (Cons b bs)
  from Cons.IH [of "as @ [b]"] Cons.prems dlist_hd_next [of h l as b bs] show ?case
    by (simp add: list_max_loop.simps [of lessf h l m b])
qed

lemma list_min_loop_dlist:
  "dlist h l (as @ bs) \<Longrightarrow>
   list_min_loop lessf h l m (hd (bs @ [tail_of l])) = Some (best lessf m bs)"
proof (induction bs arbitrary: as m)
  case Nil
  then show ?case by (simp add: list_min_loop.simps)
next
  case (Cons b bs)
  from Cons.IH [of "as @ [b]"] Cons.prems dlist_hd_next [of h l as b bs] show ?case
    by (simp add: list_min_loop.simps [of lessf h l m b])
qed

lemma dlist_max:
  assumes "dlist h l xs"
  shows "list_max lessf h l =
    Some (case xs of [] \<Rightarrow> tail_of l | x # r \<Rightarrow> best (\<lambda>a b. lessf b a) x r)"
proof (cases xs)
  case (Cons x r)
  then show ?thesis
    using assms dlist_hd_next [of h l "[]" x r] list_max_loop_dlist [of h l "[x]" r lessf x]
    by (simp add: list_max_def dlist_begin)
qed (use assms in \<open>simp add: list_max_def dlist_begin\<close>)

lemma dlist_min:
  assumes "dlist h l xs"
  shows "list_min lessf h l = Some (case xs of [] \<Rightarrow> tail_of l | x # r \<Rightarrow> best lessf x r)"
proof (cases xs)
  case (Cons x r)
  then show ?thesis
    using assms dlist_hd_next [of h l "[]" x r] list_min_loop_dlist [of h l "[x]" r lessf x]
    by (simp add: list_min_def dlist_begin)
qed (use assms in \<open>simp add: list_min_def dlist_begin\<close>)

text \<open>\<open>list_unique\<close>: what stays in the list and what goes to \<open>duplicates\<close>.\<close>

fun uniq :: "less_func \<Rightarrow> addr \<Rightarrow> addr list \<Rightarrow> addr list \<times> addr list" where
  "uniq lessf e [] = ([], [])"
| "uniq lessf e (n # ns) =
     (if \<not> lessf e n \<and> \<not> lessf n e
      then (fst (uniq lessf e ns), n # snd (uniq lessf e ns))
      else (n # fst (uniq lessf n ns), snd (uniq lessf n ns)))"

lemma list_unique_loop_dlist:
  assumes "dlist h l (as @ e # bs)" "dlist h d ds" "set (nodes l (as @ e # bs)) \<inter> set (nodes d ds) = {}"
  shows "\<exists>h'. list_unique_loop lessf h l d e = Some h' \<and>
     dlist h' l (as @ e # fst (uniq lessf e bs)) \<and> dlist h' d (ds @ snd (uniq lessf e bs)) \<and>
     same_except (set (nodes l (as @ e # bs)) \<union> set (nodes d ds)) h h' \<and> (\<forall>a. alloc h' a = alloc h a)"
  using assms
proof (induction bs arbitrary: as e ds h)
  case Nil
  then show ?case
    using dlist_hd_next [of h l as e "[]"] by (auto simp: list_unique_loop.simps)
next
  case (Cons n ns)
  have nx: "list_next h e = Some n" "n \<noteq> tail_of l"
    using dlist_hd_next [of h l as e "n # ns"] dlist_hd_next [of h l "as @ [e]" n ns] Cons.prems(1) by auto
  have dn: "d \<noteq> NULL" using Cons.prems(2) by (rule dlist_not_NULL)
  show ?case
  proof (cases "\<not> lessf e n \<and> \<not> lessf n e")
    case True
    obtain h1 where h1: "list_remove h n = Some (h1, hd (ns @ [tail_of l]))" "dlist h1 l (as @ e # ns)"
      "same_except (set (nodes l (as @ e # ns))) h h1" "\<forall>a. alloc h1 a = alloc h a"
      using dlist_remove [of h l "as @ [e]" n ns] Cons.prems(1) by auto
    have nodes_sub: "set (nodes l (as @ e # ns)) \<subseteq> set (nodes l (as @ e # n # ns))"
      "n \<in> set (nodes l (as @ e # n # ns))" by (auto simp: nodes_def)
    have d1: "dlist h1 d ds" using h1(3) by (rule dlist_cong) (use Cons.prems nodes_sub in auto)
    have n1: "alloc h1 n" "n \<notin> set (nodes d ds)"
      using h1(4) Cons.prems nodes_sub by (auto intro: dlist_alloc)
    obtain h2 where h2: "list_push_back h1 d n = Some h2" "dlist h2 d (ds @ [n])"
      "same_except (insert n (set (nodes d ds))) h1 h2" "\<forall>a. alloc h2 a = alloc h1 a"
      using dlist_push_back [OF d1 n1] by auto
    have "n \<notin> set (nodes l (as @ e # ns))" using dlist_distinct [OF Cons.prems(1)] by (auto simp: nodes_def)
    then have l2: "dlist h2 l (as @ e # ns)"
      using dlist_cong [OF h2(3) _ h1(2)] Cons.prems(3) nodes_sub by auto
    have disj: "set (nodes l (as @ e # ns)) \<inter> set (nodes d (ds @ [n])) = {}"
      using Cons.prems(3) \<open>n \<notin> set (nodes l (as @ e # ns))\<close> by (auto simp: nodes_def)
    obtain h3 where h3: "list_unique_loop lessf h2 l d e = Some h3"
      "dlist h3 l (as @ e # fst (uniq lessf e ns))" "dlist h3 d ((ds @ [n]) @ snd (uniq lessf e ns))"
      "same_except (set (nodes l (as @ e # ns)) \<union> set (nodes d (ds @ [n]))) h2 h3"
      "\<forall>a. alloc h3 a = alloc h2 a"
      using Cons.IH [OF l2 h2(2) disj] by auto
    have "same_except (set (nodes l (as @ e # n # ns)) \<union> set (nodes d ds)) h h3"
      using h1(3) h2(3) h3(4) by (auto simp: same_except_def nodes_def)
    moreover have "list_unique_loop lessf h l d e = Some h3"
      using True nx dn h1(1) h2(1) h3(1) Cons.prems(1) by (simp add: list_unique_loop.simps [of lessf h])
    ultimately show ?thesis using True h1(4) h2(4) h3 by auto
  next
    case False
    have "list_unique_loop lessf h l d e = list_unique_loop lessf h l d n"
      using False nx Cons.prems(1) by (auto simp: list_unique_loop.simps [of lessf h l d e])
    moreover have "\<exists>h'. list_unique_loop lessf h l d n = Some h' \<and>
       dlist h' l ((as @ [e]) @ n # fst (uniq lessf n ns)) \<and> dlist h' d (ds @ snd (uniq lessf n ns)) \<and>
       same_except (set (nodes l ((as @ [e]) @ n # ns)) \<union> set (nodes d ds)) h h' \<and>
       (\<forall>a. alloc h' a = alloc h a)"
      by (rule Cons.IH) (use Cons.prems in auto)
    ultimately show ?thesis using False by auto
  qed
qed

lemma dlist_unique:
  assumes "dlist h l (x # xs)" "dlist h d ds" "set (nodes l (x # xs)) \<inter> set (nodes d ds) = {}"
  shows "\<exists>h'. list_unique lessf h l d = Some h' \<and>
     dlist h' l (x # fst (uniq lessf x xs)) \<and> dlist h' d (ds @ snd (uniq lessf x xs))"
  using list_unique_loop_dlist [of h l "[]" x xs d ds lessf] assms
  by (auto simp: list_unique_def dlist_empty dlist_begin dlist_not_NULL)

section \<open>The queue interface\<close>

text \<open>
  What the kernel's wait queues (the ready list, semaphore and condition waiters) rely on:
  \<open>list_push_back\<close> and \<open>list_pop_front\<close> implement a first-in first-out queue over whatever
  represents the list.
\<close>

primrec enq_all :: "('h \<Rightarrow> addr \<Rightarrow> addr \<Rightarrow> 'h option) \<Rightarrow> 'h \<Rightarrow> addr \<Rightarrow> addr list \<Rightarrow> 'h option" where
  "enq_all enq h l [] = Some h"
| "enq_all enq h l (e # es) = do { h \<leftarrow> enq h l e; enq_all enq h l es }"

primrec deq_n ::
  "('h \<Rightarrow> addr \<Rightarrow> ('h \<times> addr) option) \<Rightarrow> 'h \<Rightarrow> addr \<Rightarrow> nat \<Rightarrow> ('h \<times> addr list) option" where
  "deq_n deq h l 0 = Some (h, [])"
| "deq_n deq h l (Suc n) = do {
     (h, x) \<leftarrow> deq h l;
     (h, xs) \<leftarrow> deq_n deq h l n;
     Some (h, x # xs) }"

locale fifo_queue =
  fixes rep :: "'h \<Rightarrow> addr \<Rightarrow> addr list \<Rightarrow> bool"
    and elem_ok :: "'h \<Rightarrow> addr \<Rightarrow> bool"
    and enq :: "'h \<Rightarrow> addr \<Rightarrow> addr \<Rightarrow> 'h option"
    and deq :: "'h \<Rightarrow> addr \<Rightarrow> ('h \<times> addr) option"
  assumes enq_law: "rep h l xs \<Longrightarrow> elem_ok h e \<Longrightarrow> e \<notin> set (nodes l xs) \<Longrightarrow>
      \<exists>h'. enq h l e = Some h' \<and> rep h' l (xs @ [e]) \<and> (\<forall>a. elem_ok h' a = elem_ok h a)"
    and deq_law: "rep h l (x # xs) \<Longrightarrow> \<exists>h'. deq h l = Some (h', x) \<and> rep h' l xs"
begin

lemma enq_all_rep:
  "rep h l xs \<Longrightarrow> distinct es \<Longrightarrow> (\<And>e. e \<in> set es \<Longrightarrow> elem_ok h e \<and> e \<notin> set (nodes l xs)) \<Longrightarrow>
   \<exists>h'. enq_all enq h l es = Some h' \<and> rep h' l (xs @ es)"
proof (induction es arbitrary: h xs)
  case (Cons e es)
  obtain h1 where h1: "enq h l e = Some h1" "rep h1 l (xs @ [e])" "\<forall>a. elem_ok h1 a = elem_ok h a"
    using enq_law [OF Cons.prems(1), of e] Cons.prems(3) by auto
  have "\<exists>h'. enq_all enq h1 l es = Some h' \<and> rep h' l ((xs @ [e]) @ es)"
    by (rule Cons.IH [OF h1(2)]) (use Cons.prems h1(3) in \<open>auto simp: nodes_def\<close>)
  with h1(1) show ?case by auto
qed simp

lemma deq_n_rep: "rep h l (xs @ ys) \<Longrightarrow> \<exists>h'. deq_n deq h l (length xs) = Some (h', xs) \<and> rep h' l ys"
proof (induction xs arbitrary: h)
  case (Cons x xs)
  then obtain h1 where "deq h l = Some (h1, x)" "rep h1 l (xs @ ys)"
    using deq_law by fastforce
  with Cons.IH [of h1] show ?case by auto
qed simp

lemma first_in_first_out:
  assumes "rep h l xs" "distinct es" "\<And>e. e \<in> set es \<Longrightarrow> elem_ok h e \<and> e \<notin> set (nodes l xs)"
  shows "\<exists>h1 h2. enq_all enq h l es = Some h1 \<and>
     deq_n deq h1 l (length (xs @ es)) = Some (h2, xs @ es) \<and> rep h2 l []"
  using enq_all_rep [OF assms] deq_n_rep [of _ l "xs @ es" "[]"] by fastforce

end

interpretation kernel_list: fifo_queue dlist alloc list_push_back list_pop_front
proof unfold_locales
  fix h l xs e
  assume "dlist h l xs" "alloc h e" "e \<notin> set (nodes l xs)"
  then show "\<exists>h'. list_push_back h l e = Some h' \<and> dlist h' l (xs @ [e]) \<and> (\<forall>a. alloc h' a = alloc h a)"
    using dlist_push_back by blast
next
  fix h l x xs
  assume "dlist h l (x # xs)"
  then show "\<exists>h'. list_pop_front h l = Some (h', x) \<and> dlist h' l xs"
    using dlist_pop_front by blast
qed

section \<open>Properties\<close>

text \<open>A heap that holds the list 3, 1, 2 at address 100 and a free element 5.\<close>

definition example_heap :: list_heap where
  "example_heap =
     \<lparr>prevs = [100 \<mapsto> 0, 3 \<mapsto> 100, 1 \<mapsto> 3, 2 \<mapsto> 1, 108 \<mapsto> 2, 5 \<mapsto> 0, 200 \<mapsto> 0, 208 \<mapsto> 200],
      nexts = [100 \<mapsto> 3, 3 \<mapsto> 1, 1 \<mapsto> 2, 2 \<mapsto> 108, 108 \<mapsto> 0, 5 \<mapsto> 0, 200 \<mapsto> 208, 208 \<mapsto> 0]\<rparr>"

lemma example_heap_dlist: "dlist example_heap 100 [3, 1, 2]" "dlist example_heap 200 []"
  by (simp_all add: dlist_def nodes_def head_of_def tail_of_def alloc_def link_def example_heap_def)

text \<open>
  C15: the list is a FIFO queue on the heap. Appending fresh elements with \<open>list_push_back\<close> and
  then calling \<open>list_pop_front\<close> once per element returns, without any failed assertion, the old
  elements and then the new ones in order, and leaves the list empty.
\<close>

theorem list_fifo:
  assumes "dlist h l xs" "distinct es" "\<And>e. e \<in> set es \<Longrightarrow> alloc h e \<and> e \<notin> set (nodes l xs)"
  shows "\<exists>h1 h2. enq_all list_push_back h l es = Some h1 \<and>
     deq_n list_pop_front h1 l (length (xs @ es)) = Some (h2, xs @ es) \<and> dlist h2 l []"
  using assms by (rule kernel_list.first_in_first_out)

theorem list_fifo_witness:
  "\<exists>h1 h2. enq_all list_push_back example_heap 100 [5] = Some h1 \<and>
     deq_n list_pop_front h1 100 4 = Some (h2, [3, 1, 2, 5]) \<and> dlist h2 100 []"
  using list_fifo [OF example_heap_dlist(1), of "[5]"]
  by (simp add: numeral_eq_Suc nodes_def head_of_def tail_of_def alloc_def example_heap_def)

text \<open>
  \<open>list_splice\<close> moves a whole block. When the elements from \<open>first\<close> up to but not including
  \<open>last\<close> come after \<open>before\<close> in the same list, the call succeeds, the list afterwards has that
  block directly in front of \<open>before\<close> with every other element in its old place, and no element
  outside the list is written.
\<close>

theorem list_splice_moves_block:
  assumes "dlist h l (as @ M @ S @ bs)" "M \<noteq> []" "S \<noteq> []"
  shows "\<exists>h'. list_splice h (hd M) (hd S) (hd (bs @ [tail_of l])) = Some h' \<and>
           dlist h' l (as @ S @ M @ bs) \<and> same_except (set (nodes l (as @ M @ S @ bs))) h h'"
  using dlist_splice [OF assms] by blast

theorem list_splice_moves_block_witness:
  "\<exists>h'. list_splice example_heap 3 1 108 = Some h' \<and> dlist h' 100 [1, 2, 3] \<and>
     same_except (set (nodes 100 [3, 1, 2])) example_heap h'"
  using list_splice_moves_block [of example_heap 100 "[]" "[3]" "[1, 2]" "[]"] example_heap_dlist
  by (simp add: tail_of_def)

text \<open>
  \<open>list_reverse\<close> terminates on every well-formed list and reverses it in place, writing only
  the list's own elements and sentinels.
\<close>

theorem list_reverse_correct:
  assumes "dlist h l xs"
  shows "\<exists>h'. list_reverse h l = Some h' \<and> dlist h' l (rev xs) \<and> same_except (set (nodes l xs)) h h'"
  using dlist_reverse [OF assms] by blast

theorem list_reverse_correct_witness:
  "\<exists>h'. list_reverse example_heap 100 = Some h' \<and> dlist h' 100 [2, 1, 3] \<and>
     same_except (set (nodes 100 [3, 1, 2])) example_heap h'"
  using list_reverse_correct [OF example_heap_dlist(1)] by simp

lemma mset_uniq: "mset (fst (uniq lessf e bs)) + mset (snd (uniq lessf e bs)) = mset bs"
  by (induction lessf e bs rule: uniq.induct) auto

fun no_adjacent_ties :: "less_func \<Rightarrow> addr list \<Rightarrow> bool" where
  "no_adjacent_ties lessf (a # b # r) \<longleftrightarrow> (lessf a b \<or> lessf b a) \<and> no_adjacent_ties lessf (b # r)"
| "no_adjacent_ties lessf _ \<longleftrightarrow> True"

lemma no_adjacent_ties_uniq: "no_adjacent_ties lessf (e # fst (uniq lessf e bs))"
  by (induction lessf e bs rule: uniq.induct) auto

text \<open>
  \<open>list_unique\<close> on a non-empty list terminates and keeps the first element of each group of
  adjacent equal elements, so no two neighbours of the result compare equal; every removed element
  is appended to \<open>duplicates\<close>, so nothing is lost.
\<close>

theorem list_unique_correct:
  assumes "dlist h l (x # xs)" "dlist h d ds" "set (nodes l (x # xs)) \<inter> set (nodes d ds) = {}"
  shows "\<exists>h' kept dups. list_unique lessf h l d = Some h' \<and> dlist h' l (x # kept) \<and>
     dlist h' d (ds @ dups) \<and> no_adjacent_ties lessf (x # kept) \<and> mset kept + mset dups = mset xs"
  using dlist_unique [OF assms, of lessf] no_adjacent_ties_uniq [of lessf x xs] mset_uniq [of lessf x xs]
  by blast

theorem list_unique_correct_witness:
  "\<exists>h' kept dups. list_unique (\<lambda>a b. a div 2 < b div 2) example_heap 100 200 = Some h' \<and>
     dlist h' 100 (3 # kept) \<and> dlist h' 200 ([] @ dups) \<and>
     no_adjacent_ties (\<lambda>a b. a div 2 < b div 2) (3 # kept) \<and> mset kept + mset dups = mset [1, 2]"
  by (rule list_unique_correct [OF example_heap_dlist])
    (simp add: nodes_def head_of_def tail_of_def)

end
