(* ===== verification/List_Sort.thy ===== *)
theory List_Sort
  imports Lists
begin

text \<open>
  \<open>list_sort\<close> of \<^verbatim>\<open>lib/kernel/list.c\<close>: the in-place natural merge sort on the pointer heap
  refines a merge sort on sequences, which is shown to sort, to permute and to keep the order
  of ties. Termination follows from the number of descents, which every pass with more than
  one output run decreases.
\<close>

section \<open>Natural merge sort on sequences\<close>

fun split_run :: "less_func \<Rightarrow> addr \<Rightarrow> addr list \<Rightarrow> addr list \<times> addr list" where
  "split_run lessf r [] = ([], [])"
| "split_run lessf r (b # bs) =
     (if \<not> lessf b r then (b # fst (split_run lessf b bs), snd (split_run lessf b bs)) else ([], b # bs))"

fun merge_runs :: "less_func \<Rightarrow> addr list \<Rightarrow> addr list \<Rightarrow> addr list" where
  "merge_runs lessf [] bs = bs"
| "merge_runs lessf as [] = as"
| "merge_runs lessf (a # as) (b # bs) =
     (if \<not> lessf b a then a # merge_runs lessf as (b # bs) else b # merge_runs lessf (a # as) bs)"

lemma split_run_append [simp]: "fst (split_run lessf r bs) @ snd (split_run lessf r bs) = bs"
  by (induction bs arbitrary: r) auto

lemma split_run_length: "length (snd (split_run lessf r bs)) \<le> length bs"
  by (induction bs arbitrary: r) (auto simp: le_SucI)

function sort_pass :: "less_func \<Rightarrow> addr list \<Rightarrow> addr list \<times> nat" where
  "sort_pass lessf [] = ([], 0)"
| "sort_pass lessf (r # bs) =
     (case snd (split_run lessf r bs) of
        [] \<Rightarrow> (r # bs, 1)
      | s # cs \<Rightarrow>
          (let (ys, n) = sort_pass lessf (snd (split_run lessf s cs))
           in (merge_runs lessf (r # fst (split_run lessf r bs)) (s # fst (split_run lessf s cs)) @ ys,
               Suc n)))"
  by pat_completeness auto
termination
proof (relation "measure (\<lambda>(_, xs). length xs)")
  fix lessf r bs s cs
  assume "snd (split_run lessf r bs) = s # cs"
  then show "((lessf, snd (split_run lessf s cs)), lessf, r # bs) \<in> measure (\<lambda>(_, xs). length xs)"
    using split_run_length [of lessf r bs] split_run_length [of lessf s cs] by simp
qed simp

text \<open>Adjacent pairs out of order; a list is sorted when it has none.\<close>

fun descents :: "less_func \<Rightarrow> addr list \<Rightarrow> nat" where
  "descents lessf (a # b # r) = (if lessf b a then 1 else 0) + descents lessf (b # r)"
| "descents lessf _ = 0"

lemma descents_append:
  "xs \<noteq> [] \<Longrightarrow> ys \<noteq> [] \<Longrightarrow>
   descents lessf (xs @ ys) =
     descents lessf xs + (if lessf (hd ys) (last xs) then 1 else 0) + descents lessf ys"
  by (induction lessf xs rule: descents.induct) (auto simp: neq_Nil_conv)

lemma descents_split_run:
  "descents lessf (r # fst (split_run lessf r bs)) = 0"
  "snd (split_run lessf r bs) = s # cs \<Longrightarrow>
     descents lessf (r # bs) = Suc (descents lessf (s # cs)) \<and> length cs < length bs"
  "snd (split_run lessf r bs) = [] \<Longrightarrow> descents lessf (r # bs) = 0"
  by (induction bs arbitrary: r) (auto intro: less_SucI split: if_splits)

lemma merge_runs_Nil2 [simp]: "merge_runs lessf xs [] = xs"
  by (cases xs) auto

lemma set_merge_runs: "set (merge_runs lessf as bs) = set as \<union> set bs"
  by (induction lessf as bs rule: merge_runs.induct) auto

lemma mset_merge_runs: "mset (merge_runs lessf as bs) = mset as + mset bs"
  by (induction lessf as bs rule: merge_runs.induct) auto

context less_order
begin

lemma descents_in_order: "descents lessf xs = 0 \<longleftrightarrow> in_order lessf xs"
proof (induction xs)
  case (Cons x xs)
  show ?case
  proof (cases xs)
    case (Cons y ys)
    have "in_order lessf (x # y # ys) \<longleftrightarrow> \<not> lessf y x \<and> in_order lessf (y # ys)"
      using neg_trans [of _ y x] by (auto simp: in_order_def)
    with Cons Cons.IH show ?thesis by auto
  qed (simp add: in_order_def)
qed (simp add: in_order_def)

lemma in_order_Cons: "in_order lessf (x # xs) \<longleftrightarrow> (\<forall>y \<in> set xs. \<not> lessf y x) \<and> in_order lessf xs"
  by (simp add: in_order_def)

lemma in_order_merge_runs:
  "in_order lessf as \<Longrightarrow> in_order lessf bs \<Longrightarrow> in_order lessf (merge_runs lessf as bs)"
proof (induction as arbitrary: bs)
  case (Cons a as)
  show ?case
    using Cons.prems(2)
  proof (induction bs)
    case Nil
    with Cons.prems show ?case by simp
  next
    case (Cons b bs)
    note outer = \<open>in_order lessf (a # as)\<close> Cons.prems
    show ?case
    proof (cases "lessf b a")
      case True
      have "\<not> lessf y b" if "y \<in> set (a # as)" for y
        using that outer(1) True asym [of b a] neg_trans [of y a b] by (auto simp: in_order_Cons)
      then show ?thesis
        using True Cons.IH outer(2) by (auto simp: in_order_Cons set_merge_runs)
    next
      case False
      have "\<not> lessf y a" if "y \<in> set (b # bs)" for y
        using that outer(2) False neg_trans [of y b a] by (auto simp: in_order_Cons)
      moreover have "in_order lessf (merge_runs lessf as (b # bs))"
        using \<open>in_order lessf as \<Longrightarrow> in_order lessf (b # bs) \<Longrightarrow> in_order lessf (merge_runs lessf as (b # bs))\<close> outer
        by (simp add: in_order_Cons)
      ultimately show ?thesis
        using False outer(1) by (auto simp: in_order_Cons set_merge_runs)
    qed
  qed
qed simp

end

text \<open>Elements that compare equal keep their order: for every \<open>k\<close>, the same sequence of ties.\<close>

definition ties :: "less_func \<Rightarrow> addr \<Rightarrow> addr list \<Rightarrow> addr list" where
  "ties lessf k xs = filter (\<lambda>x. \<not> lessf k x \<and> \<not> lessf x k) xs"

lemma ties_append [simp]: "ties lessf k (xs @ ys) = ties lessf k xs @ ties lessf k ys"
  by (simp add: ties_def)

lemma mset_sort_pass: "mset (fst (sort_pass lessf xs)) = mset xs"
proof (induction lessf xs rule: sort_pass.induct)
  case (2 lessf r bs)
  show ?case
  proof (cases "snd (split_run lessf r bs)")
    case (Cons s cs)
    have "mset bs = mset (fst (split_run lessf r bs)) + mset (s # cs)"
      using split_run_append [of lessf r bs] Cons by (metis mset_append)
    moreover have "mset cs = mset (fst (split_run lessf s cs)) + mset (snd (split_run lessf s cs))"
      using split_run_append [of lessf s cs] by (metis mset_append)
    ultimately show ?thesis
      using Cons 2 [OF Cons] by (simp add: mset_merge_runs split_beta)
  qed simp
qed simp

lemma length_sort_pass: "length (fst (sort_pass lessf xs)) = length xs"
  by (metis mset_sort_pass size_mset)

lemma sort_pass_count: "snd (sort_pass lessf xs) = (if xs = [] then 0 else Suc (descents lessf xs div 2))"
proof (induction lessf xs rule: sort_pass.induct)
  case (2 lessf r bs)
  show ?case
  proof (cases "snd (split_run lessf r bs)")
    case Nil
    then show ?thesis by (simp add: descents_split_run)
  next
    case (Cons s cs)
    show ?thesis
    proof (cases "snd (split_run lessf s cs)")
      case Nil
      then show ?thesis using Cons descents_split_run(2) [OF Cons] by (simp add: descents_split_run(3) [OF Nil])
    next
      case (Cons t ds)
      with 2 [OF \<open>snd (split_run lessf r bs) = s # cs\<close>] \<open>snd (split_run lessf r bs) = s # cs\<close>
        descents_split_run(2) [OF \<open>snd (split_run lessf r bs) = s # cs\<close>] descents_split_run(2) [OF Cons]
      show ?thesis by (simp add: split_beta)
    qed
  qed
qed simp

lemma sort_pass_count_le: "snd (sort_pass lessf xs) \<le> length xs"
proof -
  have "descents lessf xs \<le> length xs - 1" for xs
    by (induction lessf xs rule: descents.induct) auto
  from this [of xs] show ?thesis by (cases xs) (auto simp: sort_pass_count simp del: sort_pass.simps)
qed

context less_order
begin

lemma sort_pass_descents: "descents lessf (fst (sort_pass lessf xs)) \<le> snd (sort_pass lessf xs) - 1"
proof (induction "length xs" arbitrary: xs rule: less_induct)
  case less
  show ?case
  proof (cases xs)
    case (Cons r bs)
    show ?thesis
    proof (cases "snd (split_run lessf r bs)")
      case Nil
      then show ?thesis using Cons by (simp add: descents_split_run)
    next
      case (Cons s cs)
      define m where "m = merge_runs lessf (r # fst (split_run lessf r bs)) (s # fst (split_run lessf s cs))"
      let ?p = "sort_pass lessf (snd (split_run lessf s cs))"
      have res: "sort_pass lessf xs = (m @ fst ?p, Suc (snd ?p))"
        using Cons \<open>xs = r # bs\<close> by (simp add: split_beta m_def)
      have "in_order lessf m" unfolding m_def
        by (intro in_order_merge_runs) (simp_all add: descents_in_order [symmetric] descents_split_run)
      then have m0: "descents lessf m = 0" by (simp add: descents_in_order)
      have mne: "m \<noteq> []" unfolding m_def by (metis list.distinct(1) merge_runs.simps(3))
      have "length (snd (split_run lessf s cs)) < length xs"
        using split_run_length [of lessf s cs] descents_split_run(2) [OF Cons] \<open>xs = r # bs\<close> by simp
      then have IH: "descents lessf (fst ?p) \<le> snd ?p - 1" by (rule less)
      show ?thesis
      proof (cases "fst ?p = []")
        case True
        then show ?thesis by (simp add: res m0)
      next
        case False
        then have "snd ?p > 0" by (auto simp: sort_pass_count)
        with False IH mne show ?thesis by (auto simp: res descents_append m0)
      qed
    qed
  qed simp
qed

lemma sort_pass_progress:
  "snd (sort_pass lessf xs) > 1 \<Longrightarrow> descents lessf (fst (sort_pass lessf xs)) < descents lessf xs"
  "snd (sort_pass lessf xs) \<le> 1 \<Longrightarrow> in_order lessf (fst (sort_pass lessf xs))"
  using sort_pass_descents [of xs]
  by (auto simp: sort_pass_count descents_in_order [symmetric] split: if_splits)

lemma ties_merge_runs:
  "in_order lessf as \<Longrightarrow> ties lessf k (merge_runs lessf as bs) = ties lessf k as @ ties lessf k bs"
proof (induction as arbitrary: bs)
  case (Cons a as)
  note ord = \<open>in_order lessf (a # as)\<close>
  have IH: "ties lessf k (merge_runs lessf as bs) = ties lessf k as @ ties lessf k bs" for bs
    using Cons by (simp add: in_order_Cons)
  show ?case
  proof (induction bs)
    case Nil
    then show ?case by (simp add: ties_def)
  next
    case (Cons b bs)
    show ?case
    proof (cases "lessf b a")
      case True
      have gt: "lessf b y" if "y \<in> set (a # as)" for y
        using that ord True neg_trans [of b y a] by (auto simp: in_order_Cons)
      have "ties lessf k (a # as) = []" if "\<not> lessf k b \<and> \<not> lessf b k"
      proof -
        have "lessf k y" if "y \<in> set (a # as)" for y
          using gt [OF that] \<open>\<not> lessf k b \<and> \<not> lessf b k\<close> neg_trans [of b k y] by blast
        then show ?thesis by (auto simp: ties_def filter_empty_conv)
      qed
      with True Cons show ?thesis by (auto simp: ties_def)
    next
      case False
      with IH [of "b # bs"] show ?thesis by (simp add: ties_def)
    qed
  qed
qed (simp add: ties_def)

lemma ties_sort_pass: "ties lessf k (fst (sort_pass lessf xs)) = ties lessf k xs"
proof (induction "length xs" arbitrary: xs rule: less_induct)
  case less
  show ?case
  proof (cases xs)
    case (Cons r bs)
    show ?thesis
    proof (cases "snd (split_run lessf r bs)")
      case Nil
      then show ?thesis using Cons by simp
    next
      case (Cons s cs)
      have "length (snd (split_run lessf s cs)) < length xs"
        using split_run_length [of lessf s cs] descents_split_run(2) [OF Cons] \<open>xs = r # bs\<close> by simp
      from less [OF this] have IH: "ties lessf k (fst (sort_pass lessf (snd (split_run lessf s cs)))) =
        ties lessf k (snd (split_run lessf s cs))" .
      have xs: "xs = (r # fst (split_run lessf r bs)) @ (s # fst (split_run lessf s cs)) @ snd (split_run lessf s cs)"
        using split_run_append [of lessf r bs] split_run_append [of lessf s cs] Cons \<open>xs = r # bs\<close> by simp
      have "in_order lessf (r # fst (split_run lessf r bs))"
        by (simp add: descents_in_order [symmetric] descents_split_run)
      then have "ties lessf k (fst (sort_pass lessf xs)) =
        (ties lessf k (r # fst (split_run lessf r bs)) @ ties lessf k (s # fst (split_run lessf s cs))) @
        ties lessf k (snd (split_run lessf s cs))"
        using Cons \<open>xs = r # bs\<close> IH by (simp add: split_beta ties_merge_runs del: merge_runs.simps)
      also have "\<dots> = ties lessf k xs" by (subst xs) (simp only: ties_append append_assoc)
      finally show ?thesis .
    qed
  qed simp
qed

end

section \<open>\<open>list_sort\<close> on the heap\<close>

lemma dlist_prev_interior:
  assumes "dlist h l (as @ a # b # bs)"
  shows "list_prev h b = Some a"
  using dlist_list_prev [OF assms, of "head_of l # as" a b "bs @ [tail_of l]"] by (simp add: nodes_def)

lemma find_end_of_run_loop_dlist:
  "dlist h l (as @ r # bs) \<Longrightarrow>
   find_end_of_run_loop lessf h r (tail_of l) = Some (hd (snd (split_run lessf r bs) @ [tail_of l]))"
proof (induction bs arbitrary: as r)
  case Nil
  then show ?case
    using dlist_hd_next [of h l as r "[]"] by (simp add: find_end_of_run_loop.simps)
next
  case (Cons b bs)
  have "list_next h r = Some b" "b \<noteq> tail_of l" "list_prev h b = Some r"
    using dlist_hd_next [of h l as r "b # bs"] dlist_hd_next [of h l "as @ [r]" b bs]
      dlist_prev_interior [of h l as r b bs] Cons.prems by auto
  with Cons.IH [of "as @ [r]" b] Cons.prems show ?case
    by (simp add: find_end_of_run_loop.simps [of lessf h r])
qed

lemma dlist_find_end_of_run:
  assumes "dlist h l (as @ r # bs)"
  shows "find_end_of_run lessf h r (tail_of l) = Some (hd (snd (split_run lessf r bs) @ [tail_of l]))"
proof -
  have "r \<noteq> NULL" "tail_of l \<noteq> NULL" "r \<noteq> tail_of l"
    using dlist_alloc [OF assms] dlist_distinct [OF assms] by (auto simp: nodes_def alloc_def)
  then show ?thesis
    using find_end_of_run_loop_dlist [OF assms] by (simp add: find_end_of_run_def)
qed

text \<open>Where a range of the list ends: the first element after it, or the tail.\<close>

lemma dlist_range_neq:
  assumes "dlist h l (as @ xs @ bs)" "xs \<noteq> []"
  shows "hd (xs @ bs @ [tail_of l]) \<noteq> hd (bs @ [tail_of l])"
proof -
  have "distinct (xs @ bs @ [tail_of l])" using dlist_distinct [OF assms(1)] by (simp add: nodes_def)
  then show ?thesis using assms(2) by (cases xs; cases bs) auto
qed

lemma is_sorted_loop_dlist:
  "dlist h l (as @ x # xs @ bs) \<Longrightarrow>
   is_sorted_loop lessf h x (hd (bs @ [tail_of l])) = Some (descents lessf (x # xs) = 0)"
proof (induction xs arbitrary: as x)
  case Nil
  then show ?case
    using dlist_hd_next [of h l as x bs] by (simp add: is_sorted_loop.simps)
next
  case (Cons y xs)
  have "list_next h x = Some y" "list_prev h y = Some x" "y \<noteq> hd (bs @ [tail_of l])"
    using dlist_hd_next [of h l as x "y # xs @ bs"] dlist_range_neq [of h l "as @ [x]" "y # xs" bs]
      dlist_prev_interior [of h l as x y "xs @ bs"] Cons.prems by auto
  with Cons.IH [of "as @ [x]" y] Cons.prems show ?case
    by (simp add: is_sorted_loop.simps [of lessf h x])
qed

lemma dlist_is_sorted:
  assumes "dlist h l (as @ xs @ bs)"
  shows "is_sorted lessf h (hd (xs @ bs @ [tail_of l])) (hd (bs @ [tail_of l])) = Some (descents lessf xs = 0)"
proof (cases xs)
  case (Cons y ys)
  with assms dlist_range_neq [OF assms] is_sorted_loop_dlist [of h l as y ys bs]
  show ?thesis by (simp add: is_sorted_def)
qed (simp add: is_sorted_def)

lemma inplace_merge_loop_dlist:
  assumes "dlist h l (as @ xs @ ys @ bs)"
  shows "\<exists>h'. inplace_merge_loop lessf h (hd (xs @ ys @ bs @ [tail_of l])) (hd (ys @ bs @ [tail_of l]))
              (hd (bs @ [tail_of l])) = Some h' \<and>
     dlist h' l (as @ merge_runs lessf xs ys @ bs) \<and>
     same_except (set (nodes l (as @ xs @ ys @ bs))) h h' \<and> (\<forall>a. alloc h' a = alloc h a)"
  using assms
proof (induction "length xs + length ys" arbitrary: as xs ys h rule: less_induct)
  case less
  show ?case
  proof (cases "xs = [] \<or> ys = []")
    case True
    then show ?thesis
      using less.prems by (cases ys) (auto simp: inplace_merge_loop.simps)
  next
    case False
    then obtain x xs' y ys' where xy: "xs = x # xs'" "ys = y # ys'" by (auto simp: neq_Nil_conv)
    have guard: "x \<noteq> y" "y \<noteq> hd (bs @ [tail_of l])"
      using dlist_range_neq [of h l as xs "ys @ bs"] dlist_range_neq [of h l "as @ xs" ys bs] less.prems xy
      by auto
    show ?thesis
    proof (cases "lessf y x")
      case nl: False
      have nx: "list_next h x = Some (hd (xs' @ ys @ bs @ [tail_of l]))"
        using dlist_hd_next [of h l as x "xs' @ ys @ bs"] less.prems xy by simp
      have "dlist h l ((as @ [x]) @ xs' @ ys @ bs)" using less.prems xy by simp
      from less.hyps [OF _ this] xy obtain h' where
        h': "inplace_merge_loop lessf h (hd (xs' @ ys @ bs @ [tail_of l])) (hd (ys @ bs @ [tail_of l]))
              (hd (bs @ [tail_of l])) = Some h'"
        "dlist h' l ((as @ [x]) @ merge_runs lessf xs' ys @ bs)"
        "same_except (set (nodes l ((as @ [x]) @ xs' @ ys @ bs))) h h'" "\<forall>a. alloc h' a = alloc h a"
        by auto
      then show ?thesis
        using nl guard nx xy by (auto simp: inplace_merge_loop.simps [of lessf h x])
    next
      case True
      let ?n = "hd (ys' @ bs @ [tail_of l])"
      have nx: "list_next h y = Some ?n"
        using dlist_hd_next [of h l "as @ xs" y "ys' @ bs"] less.prems xy by simp
      have pv: "list_prev h ?n = Some y"
        using dlist_list_prev [OF less.prems, of "head_of l # as @ xs" y ?n "tl (ys' @ bs @ [tail_of l])"] xy
        by (simp add: nodes_def)
      obtain h1 where h1: "list_splice h x y ?n = Some h1" "dlist h1 l (as @ [y] @ xs @ ys' @ bs)"
        "same_except (set (nodes l (as @ xs @ [y] @ ys' @ bs))) h h1" "\<forall>a. alloc h1 a = alloc h a"
        using dlist_splice [of h l as xs "[y]" "ys' @ bs"] less.prems xy by auto
      have "dlist h1 l ((as @ [y]) @ xs @ ys' @ bs)" using h1(2) by simp
      from less.hyps [OF _ this] xy obtain h' where
        h': "inplace_merge_loop lessf h1 x ?n (hd (bs @ [tail_of l])) = Some h'"
        "dlist h' l ((as @ [y]) @ merge_runs lessf xs ys' @ bs)"
        "same_except (set (nodes l ((as @ [y]) @ xs @ ys' @ bs))) h1 h'" "\<forall>a. alloc h' a = alloc h1 a"
        by auto
      have "same_except (set (nodes l (as @ xs @ ys @ bs))) h h'"
        using h1(3) h'(3) xy by (auto simp: same_except_def nodes_def)
      moreover have "inplace_merge_loop lessf h x y (hd (bs @ [tail_of l])) = Some h'"
        using True guard nx pv h1(1) h'(1) by (simp add: inplace_merge_loop.simps [of lessf h])
      ultimately show ?thesis
        using True h1(4) h'(2,4) xy by auto
    qed
  qed
qed

lemma dlist_inplace_merge:
  assumes "dlist h l (as @ xs @ ys @ bs)" "descents lessf xs = 0" "descents lessf ys = 0"
  shows "\<exists>h'. inplace_merge lessf h (hd (xs @ ys @ bs @ [tail_of l])) (hd (ys @ bs @ [tail_of l]))
              (hd (bs @ [tail_of l])) = Some h' \<and>
     dlist h' l (as @ merge_runs lessf xs ys @ bs) \<and>
     same_except (set (nodes l (as @ xs @ ys @ bs))) h h' \<and> (\<forall>a. alloc h' a = alloc h a)"
proof -
  have nz: "hd (zs @ [tail_of l]) \<noteq> NULL" if "set zs \<subseteq> set (as @ xs @ ys @ bs)" for zs
  proof -
    have "hd (zs @ [tail_of l]) \<in> set (nodes l (as @ xs @ ys @ bs))"
      using that by (cases zs) (auto simp: nodes_def)
    then show ?thesis using dlist_alloc [OF assms(1)] by (auto simp: alloc_def)
  qed
  have nz3: "hd (xs @ ys @ bs @ [tail_of l]) \<noteq> NULL" "hd (ys @ bs @ [tail_of l]) \<noteq> NULL"
    "hd (bs @ [tail_of l]) \<noteq> NULL"
    using nz [of "xs @ ys @ bs"] nz [of "ys @ bs"] nz [of bs] by auto
  have "inplace_merge lessf h (hd (xs @ ys @ bs @ [tail_of l])) (hd (ys @ bs @ [tail_of l])) (hd (bs @ [tail_of l]))
    = inplace_merge_loop lessf h (hd (xs @ ys @ bs @ [tail_of l])) (hd (ys @ bs @ [tail_of l])) (hd (bs @ [tail_of l]))"
    using nz3 assms
      dlist_is_sorted [of h l as xs "ys @ bs" lessf] dlist_is_sorted [of h l "as @ xs" ys bs lessf]
    by (simp add: inplace_merge_def)
  then show ?thesis using inplace_merge_loop_dlist [OF assms(1), of lessf] by simp
qed

lemma list_sort_pass_dlist:
  assumes "dlist h l (as @ bs)"
  shows "\<exists>h'. list_sort_pass lessf h l (hd (bs @ [tail_of l])) cnt =
       Some (h', cnt + of_nat (snd (sort_pass lessf bs))) \<and>
     dlist h' l (as @ fst (sort_pass lessf bs)) \<and>
     same_except (set (nodes l (as @ bs))) h h' \<and> (\<forall>a. alloc h' a = alloc h a)"
  using assms
proof (induction "length bs" arbitrary: as bs h cnt rule: less_induct)
  case less
  show ?case
  proof (cases bs)
    case Nil
    then show ?thesis using less.prems by (auto simp: list_sort_pass.simps)
  next
    case (Cons r rs)
    have r: "r \<noteq> tail_of l" "find_end_of_run lessf h r (tail_of l) = Some (hd (snd (split_run lessf r rs) @ [tail_of l]))"
      using dlist_hd_next [of h l as r rs] dlist_find_end_of_run [of h l as r rs] less.prems Cons by auto
    show ?thesis
    proof (cases "snd (split_run lessf r rs)")
      case Nil
      then show ?thesis
        using r less.prems \<open>bs = r # rs\<close> by (auto simp: list_sort_pass.simps)
    next
      case (Cons s cs)
      define u where "u = r # fst (split_run lessf r rs)"
      define v where "v = s # fst (split_run lessf s cs)"
      define w where "w = snd (split_run lessf s cs)"
      have bs: "bs = u @ v @ w"
        using split_run_append [of lessf r rs] split_run_append [of lessf s cs] Cons \<open>bs = r # rs\<close>
        by (simp add: u_def v_def w_def)
      have s: "s \<noteq> tail_of l" "find_end_of_run lessf h s (tail_of l) = Some (hd (w @ [tail_of l]))"
        using dlist_hd_next [of h l "as @ u" s "fst (split_run lessf s cs) @ w"]
          dlist_find_end_of_run [of h l "as @ u" s cs] less.prems bs
        by (auto simp: v_def w_def)
      obtain h1 where h1: "inplace_merge lessf h r s (hd (w @ [tail_of l])) = Some h1"
        "dlist h1 l (as @ merge_runs lessf u v @ w)"
        "same_except (set (nodes l (as @ u @ v @ w))) h h1" "\<forall>a. alloc h1 a = alloc h a"
        using dlist_inplace_merge [of h l as u v w lessf] less.prems bs
        by (auto simp: u_def v_def descents_split_run)
      have d1: "dlist h1 l ((as @ merge_runs lessf u v) @ w)" using h1(2) by simp
      have len: "length w < length bs" by (simp add: bs u_def)
      obtain h2 where h2: "list_sort_pass lessf h1 l (hd (w @ [tail_of l])) (cnt + 1) =
          Some (h2, cnt + 1 + of_nat (snd (sort_pass lessf w)))"
        "dlist h2 l ((as @ merge_runs lessf u v) @ fst (sort_pass lessf w))"
        "same_except (set (nodes l ((as @ merge_runs lessf u v) @ w))) h1 h2" "\<forall>a. alloc h2 a = alloc h1 a"
        using less.hyps [OF len d1, of "cnt + 1"] by auto
      have res: "sort_pass lessf bs = (merge_runs lessf u v @ fst (sort_pass lessf w), Suc (snd (sort_pass lessf w)))"
        using Cons \<open>bs = r # rs\<close> by (simp add: u_def v_def w_def split_beta)
      have "list_sort_pass lessf h l r cnt = Some (h2, cnt + of_nat (snd (sort_pass lessf bs)))"
        using r s h1(1) h2(1) Cons less.prems
        by (simp add: list_sort_pass.simps [of lessf h] res algebra_simps)
      moreover have "same_except (set (nodes l (as @ bs))) h h2"
        using h1(3) h2(3) by (auto simp: same_except_def nodes_def bs set_merge_runs)
      ultimately show ?thesis
        using h1(4) h2(2,4) res \<open>bs = r # rs\<close> by auto
    qed
  qed
qed

context less_order
begin

lemma list_sort_loop_dlist:
  assumes "dlist h l xs" "length xs < 2 ^ 32"
  shows "\<exists>h' ys. list_sort_loop lessf h l = Some h' \<and> dlist h' l ys \<and> in_order lessf ys \<and>
     mset ys = mset xs \<and> (\<forall>k. ties lessf k ys = ties lessf k xs) \<and>
     same_except (set (nodes l xs)) h h' \<and> (\<forall>a. alloc h' a = alloc h a)"
  using assms
proof (induction "descents lessf xs" arbitrary: xs h rule: less_induct)
  case less
  obtain n zs where p: "sort_pass lessf xs = (zs, n)" by fastforce
  obtain h1 where h1: "list_sort_pass lessf h l (hd (xs @ [tail_of l])) 0 = Some (h1, of_nat n)"
    "dlist h1 l zs" "same_except (set (nodes l xs)) h h1" "\<forall>a. alloc h1 a = alloc h a"
    using list_sort_pass_dlist [of h l "[]" xs lessf 0] less.prems p by auto
  have n: "n < 2 ^ 32" using sort_pass_count_le [of lessf xs] less.prems p by simp
  have m: "mset zs = mset xs" "\<forall>k. ties lessf k zs = ties lessf k xs" "length zs = length xs"
    using mset_sort_pass [of lessf xs] ties_sort_pass [of _ xs] length_sort_pass [of lessf xs] p by auto
  have nodes_eq: "set (nodes l zs) = set (nodes l xs)"
    using m(1) by (metis mset_eq_setD nodes_def set_append list.set(2) Un_insert_left)
  have gt: "(of_nat n > (1 :: u32)) \<longleftrightarrow> n > 1"
    using n by (simp add: word_less_nat_alt unat_of_nat)
  show ?case
  proof (cases "n > 1")
    case True
    then have "descents lessf zs < descents lessf xs" using sort_pass_progress(1) [of xs] p by simp
    from less.hyps [OF this h1(2)] m less.prems obtain h2 ys where
      h2: "list_sort_loop lessf h1 l = Some h2" "dlist h2 l ys" "in_order lessf ys" "mset ys = mset zs"
      "\<forall>k. ties lessf k ys = ties lessf k zs" "same_except (set (nodes l zs)) h1 h2" "\<forall>a. alloc h2 a = alloc h1 a"
      by auto
    have "list_sort_loop lessf h l = Some h2"
      using True gt h1(1) h2(1) less.prems by (simp add: list_sort_loop.simps [of lessf h] dlist_begin)
    moreover have "same_except (set (nodes l xs)) h h2"
      using h1(3) h2(6) nodes_eq by (simp add: same_except_def)
    ultimately show ?thesis using h1(4) h2 m by auto
  next
    case False
    have "list_sort_loop lessf h l = Some h1"
      using False gt h1(1) less.prems by (simp add: list_sort_loop.simps [of lessf h] dlist_begin)
    moreover have "in_order lessf zs" using sort_pass_progress(2) [of xs] p False by simp
    ultimately show ?thesis using h1 m by auto
  qed
qed

lemma dlist_sort:
  assumes "dlist h l xs" "length xs < 2 ^ 32"
  shows "\<exists>h' ys. list_sort lessf h l = Some h' \<and> dlist h' l ys \<and> in_order lessf ys \<and>
     mset ys = mset xs \<and> (\<forall>k. ties lessf k ys = ties lessf k xs) \<and>
     same_except (set (nodes l xs)) h h' \<and> (\<forall>a. alloc h' a = alloc h a)"
proof -
  obtain h' ys where h': "list_sort_loop lessf h l = Some h'" "dlist h' l ys" "in_order lessf ys"
    "mset ys = mset xs" "\<forall>k. ties lessf k ys = ties lessf k xs"
    "same_except (set (nodes l xs)) h h'" "\<forall>a. alloc h' a = alloc h a"
    using list_sort_loop_dlist [OF assms] by auto
  have "is_sorted lessf h' (hd (ys @ [tail_of l])) (tail_of l) = Some True"
    using dlist_is_sorted [of h' l "[]" ys "[]" lessf] h'(2,3) by (simp add: descents_in_order)
  then have "list_sort lessf h l = Some h'"
    using h' assms by (simp add: list_sort_def dlist_not_NULL dlist_begin)
  then show ?thesis using h' by auto
qed

lemma in_order_place: "in_order lessf xs \<Longrightarrow> in_order lessf (place lessf e xs)"
proof (induction xs)
  case (Cons x xs)
  show ?case
  proof (cases "lessf e x")
    case True
    have "\<not> lessf y e" if "y \<in> set (x # xs)" for y
      using that Cons.prems True asym [of e x] neg_trans [of y x e] by (auto simp: in_order_Cons)
    with True Cons.prems show ?thesis by (auto simp: place_def in_order_Cons)
  next
    case False
    have "set (place lessf e xs) = insert e (set xs)"
      unfolding place_def by (metis set_append list.set(2) Un_insert_right takeWhile_dropWhile_id)
    moreover have "place lessf e (x # xs) = x # place lessf e xs" using False by (simp add: place_def)
    ultimately show ?thesis using Cons False by (auto simp: in_order_Cons)
  qed
qed (simp add: place_def in_order_def)

end

section \<open>Properties\<close>

text \<open>
  C4: \<open>list_sort\<close> is correct. For a strict weak order and any list of fewer than \<open>2 ^ 32\<close>
  elements (the range of its \<open>size_t\<close> run counter), the call terminates with no failed
  assertion; the list is then in nondecreasing order, a permutation of the old one, elements
  that compare equal keep their relative order, and nothing outside the list is written.
\<close>

theorem list_sort_correct:
  assumes "less_order lessf" "dlist h l xs" "length xs < 2 ^ 32"
  shows "\<exists>h' ys. list_sort lessf h l = Some h' \<and> dlist h' l ys \<and> in_order lessf ys \<and>
     mset ys = mset xs \<and> (\<forall>k. ties lessf k ys = ties lessf k xs) \<and> same_except (set (nodes l xs)) h h'"
  using less_order.dlist_sort [OF assms] by blast

lemma less_order_nat: "less_order ((<) :: addr \<Rightarrow> addr \<Rightarrow> bool)"
  by unfold_locales auto

theorem list_sort_correct_witness:
  "\<exists>h' ys. list_sort (<) example_heap 100 = Some h' \<and> dlist h' 100 ys \<and> in_order (<) ys \<and>
     mset ys = mset [3, 1, 2] \<and> (\<forall>k. ties (<) k ys = ties (<) k [3, 1, 2]) \<and>
     same_except (set (nodes 100 [3, 1, 2])) example_heap h'"
  by (rule list_sort_correct [OF less_order_nat example_heap_dlist(1)]) simp

text \<open>
  \<open>list_insert_ordered\<close> keeps a list sorted: inserting a fresh element into a list that is in
  order succeeds and gives a list in order that holds exactly the old elements and the new one.
\<close>

theorem list_insert_ordered_correct:
  assumes "less_order lessf" "dlist h l xs" "alloc h e" "e \<notin> set (nodes l xs)" "in_order lessf xs"
  shows "\<exists>h' ys. list_insert_ordered lessf h l e = Some h' \<and> dlist h' l ys \<and> in_order lessf ys \<and>
     mset ys = add_mset e (mset xs)"
proof -
  have "mset (place lessf e xs) = add_mset e (mset xs)"
    unfolding place_def by (metis mset.simps(2) mset_append takeWhile_dropWhile_id union_mset_add_mset_right)
  then show ?thesis
    using dlist_insert_ordered [OF assms(2-4), of lessf] less_order.in_order_place [OF assms(1,5), of e] by blast
qed

theorem list_insert_ordered_correct_witness:
  "\<exists>h' ys. list_insert_ordered (<) example_heap 200 5 = Some h' \<and> dlist h' 200 ys \<and> in_order (<) ys \<and>
     mset ys = add_mset 5 (mset [])"
  by (rule list_insert_ordered_correct [OF less_order_nat example_heap_dlist(2)])
    (simp_all add: alloc_def example_heap_def nodes_def head_of_def tail_of_def in_order_def)

end
