(* ===== verification/Bitmap.thy ===== *)
theory Bitmap
  imports Prelude
begin

text \<open>
  \<^verbatim>\<open>lib/kernel/bitmap.c\<close>: an array of bits kept in an array of 32-bit words. The operations are
  modelled on the words; \<open>bm\<close> reads a bitmap as the list of its bits and every operation is
  shown to act on that list. The last part states the contract that the page allocator, the swap
  table and the free map rely on, runs of bits handed out and taken back without overlap.
\<close>

section \<open>Data\<close>

text \<open>The array that \<open>bits\<close> points to is the list of its elements.\<close>

record bitmap =
  bit_cnt :: u32
  bits :: "u32 list"

definition ELEM_BITS :: u32 where
  "ELEM_BITS = 32"

definition BITMAP_ERROR :: u32 where
  "BITMAP_ERROR = - 1"

definition DIV_ROUND_UP :: "u32 \<Rightarrow> u32 \<Rightarrow> u32" where
  "DIV_ROUND_UP x step = (x + step - 1) div step"

definition elem_idx :: "u32 \<Rightarrow> u32" where
  "elem_idx bit_idx = bit_idx div ELEM_BITS"

definition bit_mask :: "u32 \<Rightarrow> u32" where
  "bit_mask bit_idx = push_bit (unat (bit_idx mod ELEM_BITS)) 1"

definition elem_cnt :: "u32 \<Rightarrow> u32" where
  "elem_cnt cnt = DIV_ROUND_UP cnt ELEM_BITS"

definition byte_cnt :: "u32 \<Rightarrow> u32" where
  "byte_cnt cnt = 4 * elem_cnt cnt"

definition last_mask :: "bitmap \<Rightarrow> u32" where
  "last_mask b =
     (let last_bits = bit_cnt b mod ELEM_BITS
      in if last_bits \<noteq> 0 then push_bit (unat last_bits) 1 - 1 else - 1)"

section \<open>Operations\<close>

definition bitmap_size :: "bitmap \<Rightarrow> u32" where
  "bitmap_size b = bit_cnt b"

text \<open>Read-modify-write of the element \<open>b->bits[idx]\<close>; an index outside the array faults.\<close>

definition update_elem :: "bitmap \<Rightarrow> u32 \<Rightarrow> (u32 \<Rightarrow> u32) \<Rightarrow> bitmap option" where
  "update_elem b idx f =
     (if unat idx < length (bits b)
      then Some (b\<lparr>bits := (bits b)[unat idx := f (bits b ! unat idx)]\<rparr>) else None)"

definition bitmap_mark :: "bitmap \<Rightarrow> u32 \<Rightarrow> bitmap option" where
  "bitmap_mark b bit_idx = update_elem b (elem_idx bit_idx) (\<lambda>w. w OR bit_mask bit_idx)"

definition bitmap_reset :: "bitmap \<Rightarrow> u32 \<Rightarrow> bitmap option" where
  "bitmap_reset b bit_idx = update_elem b (elem_idx bit_idx) (\<lambda>w. w AND NOT (bit_mask bit_idx))"

definition bitmap_flip :: "bitmap \<Rightarrow> u32 \<Rightarrow> bitmap option" where
  "bitmap_flip b bit_idx = update_elem b (elem_idx bit_idx) (\<lambda>w. w XOR bit_mask bit_idx)"

definition bitmap_set :: "bitmap \<Rightarrow> u32 \<Rightarrow> bool \<Rightarrow> bitmap option" where
  "bitmap_set b idx value = do {
     c_assert (idx < bit_cnt b);
     if value then bitmap_mark b idx else bitmap_reset b idx }"

definition bitmap_test :: "bitmap \<Rightarrow> u32 \<Rightarrow> bool option" where
  "bitmap_test b idx = do {
     c_assert (idx < bit_cnt b);
     (if unat (elem_idx idx) < length (bits b)
      then Some (bits b ! unat (elem_idx idx) AND bit_mask idx \<noteq> 0) else None) }"

function bitmap_set_multiple_loop :: "bitmap \<Rightarrow> u32 \<Rightarrow> u32 \<Rightarrow> bool \<Rightarrow> u32 \<Rightarrow> bitmap option" where
  "bitmap_set_multiple_loop b start cnt value i =
     (if i < cnt then do {
        b \<leftarrow> bitmap_set b (start + i) value;
        bitmap_set_multiple_loop b start cnt value (i + 1) }
      else Some b)"
  by pat_completeness auto
termination
  by (relation "measure (\<lambda>(b, start, cnt, value, i). unat cnt - unat i)") (auto simp: unat_incr_less)

definition bitmap_set_multiple :: "bitmap \<Rightarrow> u32 \<Rightarrow> u32 \<Rightarrow> bool \<Rightarrow> bitmap option" where
  "bitmap_set_multiple b start cnt value = do {
     c_assert (start \<le> bit_cnt b);
     c_assert (start + cnt \<le> bit_cnt b);
     bitmap_set_multiple_loop b start cnt value 0 }"

definition bitmap_set_all :: "bitmap \<Rightarrow> bool \<Rightarrow> bitmap option" where
  "bitmap_set_all b value = bitmap_set_multiple b 0 (bitmap_size b) value"

text \<open>
  \<open>b0\<close> tells whether the \<open>malloc\<close> of the header succeeded and \<open>buf\<close> is what the \<open>malloc\<close> of
  the elements returned: the stale contents of the block, or \<open>None\<close> for a null pointer. The
  result \<open>Some None\<close> is a null pointer.
\<close>

definition bitmap_create :: "bool \<Rightarrow> u32 list option \<Rightarrow> u32 \<Rightarrow> bitmap option option" where
  "bitmap_create b0 buf cnt =
     (if b0 \<and> (buf \<noteq> None \<or> cnt = 0) then do {
        b \<leftarrow> bitmap_set_all \<lparr>bit_cnt = cnt, bits = (case buf of Some e \<Rightarrow> e | None \<Rightarrow> [])\<rparr> False;
        Some (Some b) }
      else Some None)"

definition bitmap_buf_size :: "u32 \<Rightarrow> u32" where
  "bitmap_buf_size cnt = 8 + byte_cnt cnt"

text \<open>
  \<open>buf\<close> holds the words of \<open>block\<close> behind the eight bytes of the header; the bitmap uses as many
  of them as it needs.
\<close>

definition bitmap_create_in_buf :: "u32 \<Rightarrow> u32 list \<Rightarrow> u32 \<Rightarrow> bitmap option" where
  "bitmap_create_in_buf cnt buf block_size = do {
     c_assert (bitmap_buf_size cnt \<le> block_size);
     bitmap_set_all \<lparr>bit_cnt = cnt, bits = take (unat (elem_cnt cnt)) buf\<rparr> False }"

function bitmap_count_loop :: "bitmap \<Rightarrow> u32 \<Rightarrow> u32 \<Rightarrow> bool \<Rightarrow> u32 \<Rightarrow> u32 \<Rightarrow> u32 option" where
  "bitmap_count_loop b start cnt value i value_cnt =
     (if i < cnt then do {
        t \<leftarrow> bitmap_test b (start + i);
        bitmap_count_loop b start cnt value (i + 1) (if t = value then value_cnt + 1 else value_cnt) }
      else Some value_cnt)"
  by pat_completeness auto
termination
  by (relation "measure (\<lambda>(b, start, cnt, value, i, value_cnt). unat cnt - unat i)") (auto simp: unat_incr_less)

definition bitmap_count :: "bitmap \<Rightarrow> u32 \<Rightarrow> u32 \<Rightarrow> bool \<Rightarrow> u32 option" where
  "bitmap_count b start cnt value = do {
     c_assert (start \<le> bit_cnt b);
     c_assert (start + cnt \<le> bit_cnt b);
     bitmap_count_loop b start cnt value 0 0 }"

function bitmap_contains_loop :: "bitmap \<Rightarrow> u32 \<Rightarrow> u32 \<Rightarrow> bool \<Rightarrow> u32 \<Rightarrow> bool option" where
  "bitmap_contains_loop b start cnt value i =
     (if i < cnt then do {
        t \<leftarrow> bitmap_test b (start + i);
        if t = value then Some True else bitmap_contains_loop b start cnt value (i + 1) }
      else Some False)"
  by pat_completeness auto
termination
  by (relation "measure (\<lambda>(b, start, cnt, value, i). unat cnt - unat i)") (auto simp: unat_incr_less)

definition bitmap_contains :: "bitmap \<Rightarrow> u32 \<Rightarrow> u32 \<Rightarrow> bool \<Rightarrow> bool option" where
  "bitmap_contains b start cnt value = do {
     c_assert (start \<le> bit_cnt b);
     c_assert (start + cnt \<le> bit_cnt b);
     bitmap_contains_loop b start cnt value 0 }"

definition bitmap_any :: "bitmap \<Rightarrow> u32 \<Rightarrow> u32 \<Rightarrow> bool option" where
  "bitmap_any b start cnt = bitmap_contains b start cnt True"

definition bitmap_none :: "bitmap \<Rightarrow> u32 \<Rightarrow> u32 \<Rightarrow> bool option" where
  "bitmap_none b start cnt = map_option Not (bitmap_contains b start cnt True)"

definition bitmap_all :: "bitmap \<Rightarrow> u32 \<Rightarrow> u32 \<Rightarrow> bool option" where
  "bitmap_all b start cnt = map_option Not (bitmap_contains b start cnt False)"

text \<open>
  \<^verbatim>\<open>for (i = start; i <= last; i++)\<close>: the increment could wrap if \<open>last\<close> were \<open>SIZE_MAX\<close>, so the
  loop is a partial function; \<open>bitmap_scan_loop_view\<close> shows that it always returns.
\<close>

partial_function (option) bitmap_scan_loop :: "bitmap \<Rightarrow> u32 \<Rightarrow> bool \<Rightarrow> u32 \<Rightarrow> u32 \<Rightarrow> u32 option" where
  "bitmap_scan_loop b cnt value lst i =
     (if i \<le> lst then do {
        c \<leftarrow> bitmap_contains b i cnt (\<not> value);
        if \<not> c then Some i else bitmap_scan_loop b cnt value lst (i + 1) }
      else Some BITMAP_ERROR)"

definition bitmap_scan :: "bitmap \<Rightarrow> u32 \<Rightarrow> u32 \<Rightarrow> bool \<Rightarrow> u32 option" where
  "bitmap_scan b start cnt value = do {
     c_assert (start \<le> bit_cnt b);
     if cnt \<le> bit_cnt b then bitmap_scan_loop b cnt value (bit_cnt b - cnt) start
     else Some BITMAP_ERROR }"

definition bitmap_scan_and_flip :: "bitmap \<Rightarrow> u32 \<Rightarrow> u32 \<Rightarrow> bool \<Rightarrow> (bitmap \<times> u32) option" where
  "bitmap_scan_and_flip b start cnt value = do {
     idx \<leftarrow> bitmap_scan b start cnt value;
     if idx \<noteq> BITMAP_ERROR then do {
       b \<leftarrow> bitmap_set_multiple b idx cnt (\<not> value);
       Some (b, idx) }
     else Some (b, idx) }"

definition bitmap_file_size :: "bitmap \<Rightarrow> u32" where
  "bitmap_file_size b = byte_cnt (bit_cnt b)"

declare bitmap_set_multiple_loop.simps [simp del] bitmap_count_loop.simps [simp del]
  bitmap_contains_loop.simps [simp del]

section \<open>A bitmap as a list of bits\<close>

definition wf_bitmap :: "bitmap \<Rightarrow> bool" where
  "wf_bitmap b \<longleftrightarrow> length (bits b) = (unat (bit_cnt b) + 31) div 32"

definition bm :: "bitmap \<Rightarrow> bool list" where
  "bm b = map (\<lambda>i. bit (bits b ! (i div 32)) (i mod 32)) [0..<unat (bit_cnt b)]"

lemma length_bm [simp]: "length (bm b) = unat (bit_cnt b)"
  by (simp add: bm_def)

lemma elem_idx_unat: "unat (elem_idx i) = unat i div 32"
  by (simp add: elem_idx_def ELEM_BITS_def unat_div)

lemma bit_bit_mask: "bit (bit_mask i) n \<longleftrightarrow> n = unat i mod 32"
  by (auto simp: bit_mask_def ELEM_BITS_def bit_simps unat_mod)

lemma and_bit_mask: "(w AND bit_mask i \<noteq> 0) \<longleftrightarrow> bit w (unat i mod 32)"
proof
  assume "w AND bit_mask i \<noteq> 0"
  then obtain n where "bit (w AND bit_mask i) n" by (auto simp: bit_eq_iff)
  then show "bit w (unat i mod 32)" by (auto simp: bit_and_iff bit_bit_mask)
next
  assume "bit w (unat i mod 32)"
  then have "bit (w AND bit_mask i) (unat i mod 32)" by (simp add: bit_and_iff bit_bit_mask)
  then show "w AND bit_mask i \<noteq> 0" by auto
qed

lemma wf_bitmap_idx: "wf_bitmap b \<Longrightarrow> n < unat (bit_cnt b) \<Longrightarrow> n div 32 < length (bits b)"
  by (simp add: wf_bitmap_def)

lemma bitmap_test_bm:
  "wf_bitmap b \<Longrightarrow> unat idx < unat (bit_cnt b) \<Longrightarrow> bitmap_test b idx = Some (bm b ! unat idx)"
  by (simp add: bitmap_test_def elem_idx_unat wf_bitmap_idx and_bit_mask word_less_nat_alt bm_def)

lemma update_elem_bm:
  assumes "wf_bitmap b" "unat idx < unat (bit_cnt b)"
    and "\<And>n. n < 32 \<Longrightarrow> bit (f (bits b ! (unat idx div 32))) n =
           (if n = unat idx mod 32 then v else bit (bits b ! (unat idx div 32)) n)"
  shows "\<exists>b'. update_elem b (elem_idx idx) f = Some b' \<and> wf_bitmap b' \<and> bit_cnt b' = bit_cnt b \<and>
     bm b' = (bm b)[unat idx := v]"
proof -
  let ?b = "b\<lparr>bits := (bits b)[unat idx div 32 := f (bits b ! (unat idx div 32))]\<rparr>"
  have inb: "unat idx div 32 < length (bits b)" using assms(1,2) by (rule wf_bitmap_idx)
  have same: "i = j" if "i div 32 = j div 32" "i mod 32 = j mod 32" for i j :: nat
    using that by (metis div_mult_mod_eq)
  have "bm ?b ! i = (bm b)[unat idx := v] ! i" if "i < unat (bit_cnt b)" for i
    using that assms(3) [of "i mod 32"] inb same [of "unat idx" i] assms(2)
    by (cases "unat idx = i") (auto simp: bm_def nth_list_update split: if_splits)
  then have "bm ?b = (bm b)[unat idx := v]"
    by (intro nth_equalityI) simp_all
  moreover have "update_elem b (elem_idx idx) f = Some ?b" "wf_bitmap ?b"
    using inb assms(1) by (simp_all add: update_elem_def elem_idx_unat wf_bitmap_def)
  ultimately show ?thesis by (intro exI [of _ ?b]) simp
qed

lemma bitmap_set_bm:
  assumes "wf_bitmap b" "unat idx < unat (bit_cnt b)"
  shows "\<exists>b'. bitmap_set b idx v = Some b' \<and> wf_bitmap b' \<and> bit_cnt b' = bit_cnt b \<and>
     bm b' = (bm b)[unat idx := v]"
  using update_elem_bm [OF assms, of "\<lambda>w. w OR bit_mask idx" True]
    update_elem_bm [OF assms, of "\<lambda>w. w AND NOT (bit_mask idx)" False] assms(2)
  by (cases v) (simp_all add: bitmap_set_def bitmap_mark_def bitmap_reset_def word_less_nat_alt bit_simps bit_bit_mask)

lemma bitmap_flip_bm:
  assumes "wf_bitmap b" "unat idx < unat (bit_cnt b)"
  shows "\<exists>b'. bitmap_flip b idx = Some b' \<and> wf_bitmap b' \<and> bit_cnt b' = bit_cnt b \<and>
     bm b' = (bm b)[unat idx := \<not> bm b ! unat idx]"
  using update_elem_bm [OF assms, of "\<lambda>w. w XOR bit_mask idx" "\<not> bm b ! unat idx"] assms(2)
  by (simp add: bitmap_flip_def bit_simps bit_bit_mask bm_def)

lemma bitmap_set_out_of_range: "\<not> idx < bit_cnt b \<Longrightarrow> bitmap_set b idx v = None"
  by (simp add: bitmap_set_def)

section \<open>Runs of bits\<close>

definition fill :: "nat \<Rightarrow> nat \<Rightarrow> bool \<Rightarrow> bool list \<Rightarrow> bool list" where
  "fill s n v xs = map (\<lambda>j. if s \<le> j \<and> j < s + n then v else xs ! j) [0..<length xs]"

definition run_at :: "bool list \<Rightarrow> bool \<Rightarrow> nat \<Rightarrow> nat \<Rightarrow> bool" where
  "run_at xs v n i \<longleftrightarrow> i + n \<le> length xs \<and> (\<forall>j. i \<le> j \<and> j < i + n \<longrightarrow> xs ! j = v)"

lemma length_fill [simp]: "length (fill s n v xs) = length xs"
  by (simp add: fill_def)

lemma nth_fill [simp]: "j < length xs \<Longrightarrow> fill s n v xs ! j = (if s \<le> j \<and> j < s + n then v else xs ! j)"
  by (simp add: fill_def)

lemma fill_0 [simp]: "fill s 0 v xs = xs"
  by (rule nth_equalityI) auto

lemma fill_Suc: "s < length xs \<Longrightarrow> fill (Suc s) n v (xs[s := v]) = fill s (Suc n) v xs"
  by (rule nth_equalityI) (auto simp: nth_list_update)

lemma bitmap_set_multiple_loop_bm:
  assumes "wf_bitmap b" "unat start + unat cnt \<le> unat (bit_cnt b)" "i \<le> cnt"
  shows "\<exists>b'. bitmap_set_multiple_loop b start cnt v i = Some b' \<and> wf_bitmap b' \<and>
     bit_cnt b' = bit_cnt b \<and> bm b' = fill (unat start + unat i) (unat cnt - unat i) v (bm b)"
  using assms
proof (induction b start cnt v i rule: bitmap_set_multiple_loop.induct)
  case (1 b start cnt v i)
  show ?case
  proof (cases "i < cnt")
    case True
    have n: "unat (start + i) = unat start + unat i"
      using True "1.prems" by (intro unat_add_no_wrap [where c = "bit_cnt b"]) (simp add: word_less_nat_alt)
    obtain b1 where b1: "bitmap_set b (start + i) v = Some b1" "wf_bitmap b1" "bit_cnt b1 = bit_cnt b"
      "bm b1 = (bm b)[unat start + unat i := v]"
      using bitmap_set_bm [of b "start + i" v] True "1.prems" by (auto simp: n word_less_nat_alt)
    have "i + 1 \<le> cnt" using True by (simp add: word_le_nat_alt word_less_nat_alt unat_Suc_less)
    from "1.IH" [OF True b1(1,2) _ this] b1(3) "1.prems"(2)
    obtain b2 where b2: "bitmap_set_multiple_loop b1 start cnt v (i + 1) = Some b2" "wf_bitmap b2"
      "bit_cnt b2 = bit_cnt b1"
      "bm b2 = fill (unat start + unat (i + 1)) (unat cnt - unat (i + 1)) v (bm b1)"
      by auto
    have "fill (Suc (unat start + unat i)) (unat cnt - Suc (unat i)) v (bm b1) =
        fill (unat start + unat i) (Suc (unat cnt - Suc (unat i))) v (bm b)"
      using True "1.prems"(2) unfolding b1(4) by (intro fill_Suc) (simp add: word_less_nat_alt)
    then show ?thesis
      using b1(1,3) b2 True
      by (auto simp: bitmap_set_multiple_loop.simps [of b] unat_Suc_less [OF True] Suc_diff_Suc word_less_nat_alt)
  next
    case False
    then show ?thesis
      using "1.prems" by (simp add: bitmap_set_multiple_loop.simps word_less_nat_alt)
  qed
qed

lemma range_asserts:
  "unat start + unat cnt \<le> unat (n :: u32) \<Longrightarrow> start \<le> n \<and> start + cnt \<le> n"
  using unat_add_no_wrap [of start cnt n] by (simp add: word_le_nat_alt)

lemma bitmap_set_multiple_bm:
  assumes "wf_bitmap b" "unat start + unat cnt \<le> unat (bit_cnt b)"
  shows "\<exists>b'. bitmap_set_multiple b start cnt v = Some b' \<and> wf_bitmap b' \<and>
     bit_cnt b' = bit_cnt b \<and> bm b' = fill (unat start) (unat cnt) v (bm b)"
  using bitmap_set_multiple_loop_bm [OF assms, of 0 v] range_asserts [OF assms(2)]
  by (simp add: bitmap_set_multiple_def)

lemma bitmap_set_multiple_loop_range:
  assumes "bitmap_set_multiple_loop b start cnt v i = Some b'" "unat start + unat i \<le> unat (bit_cnt b)" "wf_bitmap b" "i \<le> cnt"
  shows "unat start + unat cnt \<le> unat (bit_cnt b)"
  using assms
proof (induction b start cnt v i rule: bitmap_set_multiple_loop.induct)
  case (1 b start cnt v i)
  show ?case
  proof (cases "i < cnt")
    case True
    have n: "unat (start + i) = unat start + unat i"
      by (rule unat_add_no_wrap) (rule "1.prems"(2))
    from True "1.prems"(1) obtain b1 where b1: "bitmap_set b (start + i) v = Some b1"
      "bitmap_set_multiple_loop b1 start cnt v (i + 1) = Some b'"
      by (auto simp: bitmap_set_multiple_loop.simps [of b] bind_eq_Some_iff)
    then have lt: "unat start + unat i < unat (bit_cnt b)"
      using bitmap_set_out_of_range [of "start + i" b v] n by (cases "start + i < bit_cnt b") (auto simp: word_less_nat_alt)
    with bitmap_set_bm [OF "1.prems"(3), of "start + i" v] b1(1) n
    have "wf_bitmap b1" "bit_cnt b1 = bit_cnt b" by auto
    moreover have "i + 1 \<le> cnt" using True by (simp add: word_le_nat_alt word_less_nat_alt unat_Suc_less)
    ultimately show ?thesis
      using "1.IH" [OF True b1] lt by (simp add: unat_Suc_less [OF True])
  qed (use "1.prems" in \<open>auto simp: word_less_nat_alt word_le_nat_alt\<close>)
qed

lemma bitmap_set_multiple_range:
  assumes "wf_bitmap b" "bitmap_set_multiple b start cnt v = Some b'"
  shows "unat start + unat cnt \<le> unat (bit_cnt b)"
  using bitmap_set_multiple_loop_range [of b start cnt v 0 b'] assms
  by (auto simp: bitmap_set_multiple_def word_le_nat_alt)

lemma bitmap_contains_loop_bm:
  assumes "wf_bitmap b" "unat start + unat cnt \<le> unat (bit_cnt b)" "i \<le> cnt"
  shows "bitmap_contains_loop b start cnt v i =
     Some (\<exists>j. unat start + unat i \<le> j \<and> j < unat start + unat cnt \<and> bm b ! j = v)"
  using assms
proof (induction b start cnt v i rule: bitmap_contains_loop.induct)
  case (1 b start cnt v i)
  show ?case
  proof (cases "i < cnt")
    case True
    have n: "unat (start + i) = unat start + unat i"
      using True "1.prems" by (intro unat_add_no_wrap [where c = "bit_cnt b"]) (simp add: word_less_nat_alt)
    have t: "bitmap_test b (start + i) = Some (bm b ! (unat start + unat i))"
      using bitmap_test_bm [OF "1.prems"(1), of "start + i"] True "1.prems"(2) by (simp add: n word_less_nat_alt)
    have le: "i + 1 \<le> cnt" using True by (simp add: word_le_nat_alt word_less_nat_alt unat_Suc_less)
    show ?thesis
      using "1.IH" [OF True t _ "1.prems"(1,2) le] True
      by (subst ex_range_Suc)
        (simp_all add: bitmap_contains_loop.simps [of b start cnt v i] t unat_Suc_less [OF True] word_less_nat_alt)
  next
    case False
    then show ?thesis using "1.prems" by (auto simp: bitmap_contains_loop.simps word_less_nat_alt)
  qed
qed

lemma bitmap_contains_bm:
  assumes "wf_bitmap b" "unat start + unat cnt \<le> unat (bit_cnt b)"
  shows "bitmap_contains b start cnt v =
     Some (\<exists>j. unat start \<le> j \<and> j < unat start + unat cnt \<and> bm b ! j = v)"
  using bitmap_contains_loop_bm [OF assms, of 0 v] range_asserts [OF assms(2)]
  by (simp add: bitmap_contains_def)

lemma bitmap_count_loop_bm:
  assumes "wf_bitmap b" "unat start + unat cnt \<le> unat (bit_cnt b)" "i \<le> cnt"
  shows "bitmap_count_loop b start cnt v i c =
     Some (c + of_nat (length (filter (\<lambda>j. bm b ! j = v) [unat start + unat i..<unat start + unat cnt])))"
  using assms
proof (induction b start cnt v i c rule: bitmap_count_loop.induct)
  case (1 b start cnt v i c)
  show ?case
  proof (cases "i < cnt")
    case True
    have n: "unat (start + i) = unat start + unat i"
      using True "1.prems" by (intro unat_add_no_wrap [where c = "bit_cnt b"]) (simp add: word_less_nat_alt)
    have t: "bitmap_test b (start + i) = Some (bm b ! (unat start + unat i))"
      using bitmap_test_bm [OF "1.prems"(1), of "start + i"] True "1.prems"(2) by (simp add: n word_less_nat_alt)
    have le: "i + 1 \<le> cnt" using True by (simp add: word_le_nat_alt word_less_nat_alt unat_Suc_less)
    have "[unat start + unat i..<unat start + unat cnt] =
        (unat start + unat i) # [unat start + unat (i + 1)..<unat start + unat cnt]"
      using True by (simp add: upt_conv_Cons unat_Suc_less [OF True] word_less_nat_alt)
    then show ?thesis
      using "1.IH" [OF True t "1.prems"(1,2) le] True
      by (simp add: bitmap_count_loop.simps [of b start cnt v i] t)
  next
    case False
    then show ?thesis using "1.prems" by (auto simp: bitmap_count_loop.simps word_less_nat_alt)
  qed
qed

lemma bitmap_count_bm:
  assumes "wf_bitmap b" "unat start + unat cnt \<le> unat (bit_cnt b)"
  shows "bitmap_count b start cnt v =
     Some (of_nat (length (filter (\<lambda>j. bm b ! j = v) [unat start..<unat start + unat cnt])))"
  using bitmap_count_loop_bm [OF assms, of 0 v] range_asserts [OF assms(2)]
  by (simp add: bitmap_count_def)

lemma not_contains_run_at:
  assumes "wf_bitmap b" "unat i + unat cnt \<le> unat (bit_cnt b)"
  shows "bitmap_contains b i cnt (\<not> v) = Some (\<not> run_at (bm b) v (unat cnt) (unat i))"
  using assms by (auto simp: bitmap_contains_bm run_at_def)

definition scan_result :: "bool list \<Rightarrow> bool \<Rightarrow> nat \<Rightarrow> nat \<Rightarrow> u32 \<Rightarrow> bool" where
  "scan_result xs v n s r \<longleftrightarrow>
     (if r = BITMAP_ERROR then \<forall>i\<ge>s. \<not> run_at xs v n i
      else s \<le> unat r \<and> run_at xs v n (unat r) \<and> (\<forall>i. s \<le> i \<and> i < unat r \<longrightarrow> \<not> run_at xs v n i))"

lemma bitmap_scan_loop_bm:
  assumes "wf_bitmap b" "cnt \<le> bit_cnt b" "0 < cnt"
  shows "\<exists>r. bitmap_scan_loop b cnt v (bit_cnt b - cnt) i = Some r \<and>
     scan_result (bm b) v (unat cnt) (unat i) r"
proof (induction "unat (bit_cnt b - cnt) + 1 - unat i" arbitrary: i rule: less_induct)
  case less
  let ?lst = "bit_cnt b - cnt"
  have lst: "unat ?lst = unat (bit_cnt b) - unat cnt" using assms(2) by (simp add: unat_sub)
  have pos: "unat ?lst < unat (bit_cnt b)"
    using assms by (simp add: lst word_less_nat_alt word_le_nat_alt)
  show ?case
  proof (cases "i \<le> ?lst")
    case True
    have in_range: "unat i + unat cnt \<le> unat (bit_cnt b)"
      using True lst assms(2) by (simp add: word_le_nat_alt)
    have neq: "i \<noteq> BITMAP_ERROR"
      using True pos u32_unat_bound [of "bit_cnt b"] by (auto simp: BITMAP_ERROR_def word_le_nat_alt)
    show ?thesis
    proof (cases "run_at (bm b) v (unat cnt) (unat i)")
      case here: True
      then show ?thesis
        using True neq by (auto simp: bitmap_scan_loop.simps [of b] not_contains_run_at [OF assms(1) in_range] scan_result_def)
    next
      case later: False
      have lt: "i < bit_cnt b" using True pos by (simp add: word_le_nat_alt word_less_nat_alt)
      have "unat ?lst + 1 - unat (i + 1) < unat ?lst + 1 - unat i"
        using True unfolding unat_Suc_less [OF lt] word_le_nat_alt by linarith
      then obtain r where r: "bitmap_scan_loop b cnt v ?lst (i + 1) = Some r"
        "scan_result (bm b) v (unat cnt) (Suc (unat i)) r"
        using less [of "i + 1"] unat_Suc_less [OF lt] by auto
      have "scan_result (bm b) v (unat cnt) (unat i) r"
        using r(2) later unfolding scan_result_def
        by (metis Suc_leD le_eq_less_or_eq less_eq_Suc_le)
      then show ?thesis
        using r(1) True later
        by (simp add: bitmap_scan_loop.simps [of b cnt v ?lst i] not_contains_run_at [OF assms(1) in_range])
    qed
  next
    case False
    then have "\<not> run_at (bm b) v (unat cnt) j" if "unat i \<le> j" for j
      using that assms(2) by (auto simp: run_at_def lst word_le_nat_alt)
    then show ?thesis
      using False by (simp add: bitmap_scan_loop.simps [of b cnt v ?lst i] scan_result_def)
  qed
qed

lemma bitmap_scan_bm:
  assumes "wf_bitmap b" "start \<le> bit_cnt b" "0 < cnt"
  shows "\<exists>r. bitmap_scan b start cnt v = Some r \<and> scan_result (bm b) v (unat cnt) (unat start) r"
proof (cases "cnt \<le> bit_cnt b")
  case True
  then show ?thesis using bitmap_scan_loop_bm [OF assms(1) True assms(3)] assms(2) by (simp add: bitmap_scan_def)
next
  case False
  then show ?thesis using assms(2) by (auto simp: bitmap_scan_def scan_result_def run_at_def word_le_nat_alt)
qed

lemma bitmap_scan_zero:
  "start \<le> bit_cnt b \<Longrightarrow> bitmap_scan b start 0 v = Some start"
  by (simp add: bitmap_scan_def bitmap_scan_loop.simps bitmap_contains_def bitmap_contains_loop.simps)

lemma bitmap_scan_and_flip_bm:
  assumes "wf_bitmap b" "start \<le> bit_cnt b" "0 < cnt"
  shows "\<exists>b' r. bitmap_scan_and_flip b start cnt v = Some (b', r) \<and> wf_bitmap b' \<and>
     bit_cnt b' = bit_cnt b \<and> scan_result (bm b) v (unat cnt) (unat start) r \<and>
     (r = BITMAP_ERROR \<longrightarrow> b' = b) \<and>
     bm b' = (if r = BITMAP_ERROR then bm b else fill (unat r) (unat cnt) (\<not> v) (bm b))"
proof -
  obtain r where r: "bitmap_scan b start cnt v = Some r" "scan_result (bm b) v (unat cnt) (unat start) r"
    using bitmap_scan_bm [OF assms] by blast
  show ?thesis
  proof (cases "r = BITMAP_ERROR")
    case False
    then have "unat r + unat cnt \<le> unat (bit_cnt b)" using r(2) by (simp add: scan_result_def run_at_def)
    then show ?thesis
      using bitmap_set_multiple_bm [OF assms(1), of r cnt "\<not> v"] r False
      by (fastforce simp: bitmap_scan_and_flip_def)
  qed (use r assms(1) in \<open>simp add: bitmap_scan_and_flip_def\<close>)
qed

lemma nth_bm_replicate: "bm b = replicate (unat (bit_cnt b)) v \<longleftrightarrow> (\<forall>j < unat (bit_cnt b). bm b ! j = v)"
  by (auto simp: list_eq_iff_nth_eq)

lemma bitmap_set_all_bm:
  assumes "wf_bitmap b"
  shows "\<exists>b'. bitmap_set_all b v = Some b' \<and> wf_bitmap b' \<and> bit_cnt b' = bit_cnt b \<and>
     bm b' = replicate (unat (bit_cnt b)) v"
  using bitmap_set_multiple_bm [OF assms, of 0 "bit_cnt b" v]
  by (auto simp: bitmap_set_all_def bitmap_size_def nth_bm_replicate list_eq_iff_nth_eq)

section \<open>Handing out runs\<close>

text \<open>
  The contract of the three users of a bitmap (page pools, swap slots, disk sectors): an
  allocator of runs, and a client that issues requests and keeps a ledger of the runs it owns.
\<close>

definition run :: "u32 \<Rightarrow> u32 \<Rightarrow> nat set" where
  "run r cnt = {unat r..<unat r + unat cnt}"

datatype request = Acquire u32 | Release nat

fun serve ::
  "('b \<Rightarrow> u32 \<Rightarrow> ('b \<times> u32) option) \<Rightarrow> ('b \<Rightarrow> u32 \<Rightarrow> u32 \<Rightarrow> 'b option) \<Rightarrow>
   request \<Rightarrow> 'b \<times> (u32 \<times> u32) list \<Rightarrow> ('b \<times> (u32 \<times> u32) list) option" where
  "serve acq rel (Acquire n) (b, live) = do {
     (b, r) \<leftarrow> acq b n;
     Some (b, if r = BITMAP_ERROR then live else (r, n) # live) }"
| "serve acq rel (Release k) (b, live) =
     (if k < length live then do {
        b \<leftarrow> rel b (fst (live ! k)) (snd (live ! k));
        Some (b, take k live @ drop (Suc k) live) }
      else Some (b, live))"

primrec serve_all ::
  "('b \<Rightarrow> u32 \<Rightarrow> ('b \<times> u32) option) \<Rightarrow> ('b \<Rightarrow> u32 \<Rightarrow> u32 \<Rightarrow> 'b option) \<Rightarrow>
   request list \<Rightarrow> 'b \<times> (u32 \<times> u32) list \<Rightarrow> ('b \<times> (u32 \<times> u32) list) option" where
  "serve_all acq rel [] st = Some st"
| "serve_all acq rel (q # qs) st = do { st \<leftarrow> serve acq rel q st; serve_all acq rel qs st }"

definition runs :: "(u32 \<times> u32) list \<Rightarrow> nat set" where
  "runs live = (\<Union>(r, n) \<in> set live. run r n)"

fun disjoint_runs :: "(u32 \<times> u32) list \<Rightarrow> bool" where
  "disjoint_runs [] \<longleftrightarrow> True"
| "disjoint_runs ((r, n) # live) \<longleftrightarrow> 0 < n \<and> run r n \<inter> runs live = {} \<and> disjoint_runs live"

fun valid_request :: "request \<Rightarrow> bool" where
  "valid_request (Acquire n) \<longleftrightarrow> 0 < n"
| "valid_request (Release k) \<longleftrightarrow> True"

lemma runs_simps [simp]:
  "runs [] = {}"
  "runs ((r, n) # live) = run r n \<union> runs live"
  "runs (live @ live') = runs live \<union> runs live'"
  by (auto simp: runs_def)

lemma disjoint_runs_append [simp]:
  "disjoint_runs (live @ live') \<longleftrightarrow> disjoint_runs live \<and> disjoint_runs live' \<and> runs live \<inter> runs live' = {}"
  by (induction live rule: disjoint_runs.induct) auto

locale run_allocator =
  fixes ok :: "'b \<Rightarrow> bool"
    and used :: "'b \<Rightarrow> nat set"
    and acquire :: "'b \<Rightarrow> u32 \<Rightarrow> ('b \<times> u32) option"
    and release :: "'b \<Rightarrow> u32 \<Rightarrow> u32 \<Rightarrow> 'b option"
  assumes acquire_law: "ok b \<Longrightarrow> 0 < n \<Longrightarrow> \<exists>b' r. acquire b n = Some (b', r) \<and> ok b' \<and>
      (if r = BITMAP_ERROR then used b' = used b
       else run r n \<inter> used b = {} \<and> used b' = used b \<union> run r n)"
    and release_law: "ok b \<Longrightarrow> 0 < n \<Longrightarrow> run r n \<subseteq> used b \<Longrightarrow>
      \<exists>b'. release b r n = Some b' \<and> ok b' \<and> used b' = used b - run r n"
begin

lemma serve_keeps_ledger:
  assumes "ok b" "used b = runs live" "disjoint_runs live" "valid_request q"
  shows "\<exists>b' live'. serve acquire release q (b, live) = Some (b', live') \<and> ok b' \<and>
     used b' = runs live' \<and> disjoint_runs live'"
proof (cases q)
  case (Acquire n)
  with assms acquire_law [of b n] show ?thesis by (fastforce split: if_splits)
next
  case (Release k)
  show ?thesis
  proof (cases "k < length live")
    case True
    obtain r n where rn: "live ! k = (r, n)" by fastforce
    have split: "live = take k live @ (r, n) # drop (Suc k) live"
      using id_take_nth_drop [OF True] rn by simp
    then have used: "used b = runs (take k live) \<union> (run r n \<union> runs (drop (Suc k) live))"
      using assms(2) by (metis runs_simps(2,3))
    have dis: "disjoint_runs (take k live @ (r, n) # drop (Suc k) live)"
      using assms(3) split by metis
    then have "used b - run r n = runs (take k live @ drop (Suc k) live)"
      unfolding used by auto
    moreover have "disjoint_runs (take k live @ drop (Suc k) live)"
      using dis by auto
    moreover obtain b' where "release b r n = Some b'" "ok b'" "used b' = used b - run r n"
      using release_law [OF assms(1), of n r] used dis by auto
    ultimately show ?thesis
      using True rn Release by simp
  qed (use assms Release in auto)
qed

lemma no_overlap:
  assumes "ok b" "used b = runs live" "disjoint_runs live" "list_all valid_request qs"
  shows "\<exists>b' live'. serve_all acquire release qs (b, live) = Some (b', live') \<and> ok b' \<and>
     used b' = runs live' \<and> disjoint_runs live'"
  using assms
proof (induction qs arbitrary: b live)
  case (Cons q qs)
  then obtain b1 live1 where "serve acquire release q (b, live) = Some (b1, live1)" "ok b1"
    "used b1 = runs live1" "disjoint_runs live1"
    using serve_keeps_ledger [of b live q] by auto
  with Cons.IH [of b1 live1] Cons.prems(4) show ?case by simp
qed simp

end

definition marked :: "bitmap \<Rightarrow> nat set" where
  "marked b = {j. j < unat (bit_cnt b) \<and> bm b ! j}"

lemma marked_fill:
  "bit_cnt b' = bit_cnt b \<Longrightarrow> bm b' = fill (unat r) (unat n) v (bm b) \<Longrightarrow>
   marked b' = (if v then marked b \<union> (run r n \<inter> {..<unat (bit_cnt b)}) else marked b - run r n)"
  by (auto simp: marked_def run_def split: if_splits)

lemma bitmap_acquire_marked:
  assumes "wf_bitmap b" "0 < n"
  shows "\<exists>b' r. bitmap_scan_and_flip b 0 n False = Some (b', r) \<and> wf_bitmap b' \<and> bit_cnt b' = bit_cnt b \<and>
      (if r = BITMAP_ERROR then b' = b \<and> (\<forall>i. \<not> run_at (bm b) False (unat n) i)
       else run r n \<inter> marked b = {} \<and> marked b' = marked b \<union> run r n \<and>
         run r n \<subseteq> {..<unat (bit_cnt b)})"
proof -
  obtain b' r where b': "bitmap_scan_and_flip b 0 n False = Some (b', r)" "wf_bitmap b'"
    "bit_cnt b' = bit_cnt b" "scan_result (bm b) False (unat n) 0 r" "r = BITMAP_ERROR \<longrightarrow> b' = b"
    "bm b' = (if r = BITMAP_ERROR then bm b else fill (unat r) (unat n) True (bm b))"
    using bitmap_scan_and_flip_bm [OF assms(1) _ assms(2), of 0 False]
    by (auto simp del: split_paired_Ex cong: if_cong)
  have "run r n \<subseteq> {..<unat (bit_cnt b)} \<and> run r n \<inter> marked b = {}" if "r \<noteq> BITMAP_ERROR"
    using that b'(4) by (auto simp: scan_result_def run_at_def run_def marked_def)
  then show ?thesis
    using b' marked_fill [of b' b r n True] by (auto simp: scan_result_def)
qed

lemma bitmap_release_marked:
  assumes "wf_bitmap b" "0 < n" "run r n \<subseteq> marked b"
  shows "\<exists>b'. bitmap_set_multiple b r n False = Some b' \<and> wf_bitmap b' \<and> bit_cnt b' = bit_cnt b \<and>
     marked b' = marked b - run r n"
proof -
  have "unat r + unat n - 1 \<in> run r n" using assms(2) by (auto simp: run_def word_less_nat_alt)
  then have "unat r + unat n \<le> unat (bit_cnt b)" using assms(3) by (auto simp: marked_def)
  then obtain b' where "bitmap_set_multiple b r n False = Some b'" "wf_bitmap b'" "bit_cnt b' = bit_cnt b"
    "bm b' = fill (unat r) (unat n) False (bm b)"
    using bitmap_set_multiple_bm [OF assms(1)] by blast
  then show ?thesis using marked_fill [of b' b r n False] by auto
qed

interpretation bitmap_runs: run_allocator wf_bitmap marked
  "\<lambda>b n. bitmap_scan_and_flip b 0 n False" "\<lambda>b r n. bitmap_set_multiple b r n False"
proof unfold_locales
  show "\<exists>b' r. bitmap_scan_and_flip b 0 n False = Some (b', r) \<and> wf_bitmap b' \<and>
      (if r = BITMAP_ERROR then marked b' = marked b
       else run r n \<inter> marked b = {} \<and> marked b' = marked b \<union> run r n)"
    if "wf_bitmap b" "0 < n" for b n
    using bitmap_acquire_marked [OF that] by (auto split: if_splits)
  show "\<exists>b'. bitmap_set_multiple b r n False = Some b' \<and> wf_bitmap b' \<and> marked b' = marked b - run r n"
    if "wf_bitmap b" "0 < n" "run r n \<subseteq> marked b" for b r n
    using bitmap_release_marked [OF that] by blast
qed

section \<open>Properties\<close>

definition example_bitmap :: bitmap where
  "example_bitmap = \<lparr>bit_cnt = 40, bits = [4294967295, 0x17]\<rparr>"

lemma wf_example_bitmap: "wf_bitmap example_bitmap"
  by (simp add: wf_bitmap_def example_bitmap_def)

text \<open>
  C16: runs handed out by a bitmap never overlap. Starting from a bitmap whose marked bits are
  exactly the runs in the ledger, any sequence of requests, each either
  \<open>bitmap_scan_and_flip (b, 0, n, false)\<close> with \<open>n > 0\<close> or \<open>bitmap_set_multiple (b, r, n, false)\<close>
  on a run that is in the ledger, is served without a failed assertion; at the end the runs in
  the ledger are still pairwise disjoint and the marked bits are exactly their union.
\<close>

theorem bitmap_runs_disjoint:
  assumes "wf_bitmap b" "marked b = runs live" "disjoint_runs live" "list_all valid_request qs"
  shows "\<exists>b' live'. serve_all (\<lambda>b n. bitmap_scan_and_flip b 0 n False)
       (\<lambda>b r n. bitmap_set_multiple b r n False) qs (b, live) = Some (b', live') \<and>
     wf_bitmap b' \<and> marked b' = runs live' \<and> disjoint_runs live'"
  using assms by (rule bitmap_runs.no_overlap)

theorem bitmap_runs_disjoint_witness:
  "\<exists>b' live'. serve_all (\<lambda>b n. bitmap_scan_and_flip b 0 n False)
       (\<lambda>b r n. bitmap_set_multiple b r n False) [Acquire 3, Acquire 4, Release 1, Acquire 2]
       (\<lparr>bit_cnt = 8, bits = [0]\<rparr>, []) = Some (b', live') \<and>
     wf_bitmap b' \<and> marked b' = runs live' \<and> disjoint_runs live'"
  by (rule bitmap_runs_disjoint) (simp_all add: wf_bitmap_def marked_def bm_def)

text \<open>
  C26: \<open>bitmap_scan_and_flip\<close> for \<open>cnt > 0\<close> and \<open>start\<close> in range never fails an assertion. If it
  returns \<open>BITMAP_ERROR\<close> then no group of \<open>cnt\<close> bits equal to \<open>value\<close> lies at or after
  \<open>start\<close> and the bitmap is unchanged; otherwise it returns the first such group, and exactly
  the bits of that group are flipped.
\<close>

theorem bitmap_scan_and_flip_first_fit:
  assumes "wf_bitmap b" "start \<le> bit_cnt b" "0 < cnt"
  shows "\<exists>b' r. bitmap_scan_and_flip b start cnt val = Some (b', r) \<and> wf_bitmap b' \<and>
     (if r = BITMAP_ERROR
      then b' = b \<and> (\<forall>i\<ge>unat start. \<not> run_at (bm b) val (unat cnt) i)
      else unat start \<le> unat r \<and> run_at (bm b) val (unat cnt) (unat r) \<and>
        (\<forall>i. unat start \<le> i \<and> i < unat r \<longrightarrow> \<not> run_at (bm b) val (unat cnt) i) \<and>
        bm b' = fill (unat r) (unat cnt) (\<not> val) (bm b))"
  using bitmap_scan_and_flip_bm [OF assms, of val] unfolding scan_result_def by (metis (full_types))

theorem bitmap_scan_and_flip_first_fit_witness:
  "\<exists>b' r. bitmap_scan_and_flip example_bitmap 2 4 False = Some (b', r) \<and> wf_bitmap b' \<and>
     (if r = BITMAP_ERROR
      then b' = example_bitmap \<and> (\<forall>i\<ge>unat (2 :: u32). \<not> run_at (bm example_bitmap) False (unat (4 :: u32)) i)
      else unat (2 :: u32) \<le> unat r \<and> run_at (bm example_bitmap) False (unat (4 :: u32)) (unat r) \<and>
        (\<forall>i. unat (2 :: u32) \<le> i \<and> i < unat r \<longrightarrow> \<not> run_at (bm example_bitmap) False (unat (4 :: u32)) i) \<and>
        bm b' = fill (unat r) (unat (4 :: u32)) (\<not> False) (bm example_bitmap))"
  by (rule bitmap_scan_and_flip_first_fit [OF wf_example_bitmap]) (simp_all add: example_bitmap_def)

text \<open>
  C28: \<open>bitmap_set_multiple\<close> is safe although the sum in its second assertion can wrap: it returns
  exactly when \<open>start + cnt\<close>, taken without wrap-around, is within the bitmap, and then it sets
  those bits and no others.
\<close>

theorem bitmap_set_multiple_safe:
  assumes "wf_bitmap b"
  shows "case bitmap_set_multiple b start cnt val of
       None \<Rightarrow> unat (bit_cnt b) < unat start + unat cnt
     | Some b' \<Rightarrow> unat start + unat cnt \<le> unat (bit_cnt b) \<and> wf_bitmap b' \<and>
         bm b' = fill (unat start) (unat cnt) val (bm b)"
  using bitmap_set_multiple_bm [OF assms, of start cnt val] bitmap_set_multiple_range [OF assms, of start cnt val]
  by (cases "bitmap_set_multiple b start cnt val") (auto simp: not_le [symmetric])

theorem bitmap_set_multiple_safe_witness:
  "case bitmap_set_multiple example_bitmap 36 (- 1) True of
       None \<Rightarrow> unat (bit_cnt example_bitmap) < unat (36 :: u32) + unat (- 1 :: u32)
     | Some b' \<Rightarrow> unat (36 :: u32) + unat (- 1 :: u32) \<le> unat (bit_cnt example_bitmap) \<and> wf_bitmap b' \<and>
         bm b' = fill (unat (36 :: u32)) (unat (- 1 :: u32)) True (bm example_bitmap)"
  by (rule bitmap_set_multiple_safe [OF wf_example_bitmap])

text \<open>
  with \<open>cnt = 0\<close> the scan returns \<open>start\<close> and changes nothing, while the comment above
  \<open>bitmap_scan_and_flip\<close> promises 0.
\<close>

theorem bitmap_scan_and_flip_zero:
  assumes "start \<le> bit_cnt b"
  shows "bitmap_scan_and_flip b start 0 val = Some (b, start)"
  using assms bitmap_scan_zero [OF assms, of val]
  by (simp add: bitmap_scan_and_flip_def bitmap_set_multiple_def bitmap_set_multiple_loop.simps)

theorem bitmap_scan_and_flip_zero_witness:
  "bitmap_scan_and_flip example_bitmap 5 0 True = Some (example_bitmap, 5)"
  by (rule bitmap_scan_and_flip_zero) (simp add: example_bitmap_def)

end
