(* ===== verification/Arithmetic.thy ===== *)
theory Arithmetic
  imports Prelude "HOL-Library.Signed_Division"
begin

text \<open>
  \<^verbatim>\<open>lib/arithmetic.c\<close>: 64-bit division and remainder built from the 32-bit \<^verbatim>\<open>DIVL\<close> instruction.
  A divide error (\<^verbatim>\<open>#DE\<close>) is \<open>None\<close>. Signed values are words read with \<open>sint\<close>.
\<close>

section \<open>Operations\<close>

definition divl :: "u64 \<Rightarrow> u32 \<Rightarrow> u32 option" where
  "divl n d =
     (if d = 0 \<or> 2 ^ 32 \<le> n div ucast d then None else Some (ucast (n div ucast d)))"

definition nlz :: "u32 \<Rightarrow> nat" where
  "nlz x =
     (let n = 0;
          (n, x) = (if x \<le> 0x0000FFFF then (n + 16, push_bit 16 x) else (n, x));
          (n, x) = (if x \<le> 0x00FFFFFF then (n + 8, push_bit 8 x) else (n, x));
          (n, x) = (if x \<le> 0x0FFFFFFF then (n + 4, push_bit 4 x) else (n, x));
          (n, x) = (if x \<le> 0x3FFFFFFF then (n + 2, push_bit 2 x) else (n, x))
      in if x \<le> 0x7FFFFFFF then n + 1 else n)"

definition udiv64 :: "u64 \<Rightarrow> u64 \<Rightarrow> u64 option" where
  "udiv64 n d =
     (if drop_bit 32 d = 0 then
        (let b = push_bit 32 1;
             n1 = ucast (drop_bit 32 n) :: u32;
             n0 = ucast n :: u32;
             d0 = ucast d :: u32
         in if d0 = 0 then None
            else do {
              q \<leftarrow> divl (b * ucast (n1 mod d0) + ucast n0) d0;
              Some (ucast q + b * ucast (n1 div d0)) })
      else if n < d then Some 0
      else
        (let d1 = ucast (drop_bit 32 d) :: u32;
             s = nlz d1
         in do {
              q0 \<leftarrow> divl (drop_bit 1 n) (ucast (drop_bit 32 (push_bit s d)));
              let q = ucast (drop_bit (31 - s) q0) in
              Some (if n - (q - 1) * d < d then q - 1 else q) }))"

definition umod64 :: "u64 \<Rightarrow> u64 \<Rightarrow> u32 option" where
  "umod64 n d = do { q \<leftarrow> udiv64 n d; Some (ucast (n - d * q)) }"

definition sdiv64 :: "u64 \<Rightarrow> u64 \<Rightarrow> u64 option" where
  "sdiv64 n d =
     (let n_abs = (if 0 \<le> sint n then n else - n);
          d_abs = (if 0 \<le> sint d then d else - d)
      in do {
           q_abs \<leftarrow> udiv64 n_abs d_abs;
           Some (if (sint n < 0) = (sint d < 0) then q_abs else - q_abs) })"

definition smod64 :: "u64 \<Rightarrow> u64 \<Rightarrow> u32 option" where
  "smod64 n d = do { q \<leftarrow> sdiv64 n d; Some (ucast (n - d * q)) }"

definition divdi3 :: "u64 \<Rightarrow> u64 \<Rightarrow> u64 option" where
  "divdi3 n d = sdiv64 n d"

definition moddi3 :: "u64 \<Rightarrow> u64 \<Rightarrow> u64 option" where
  "moddi3 n d = do { r \<leftarrow> smod64 n d; Some (scast r) }"

definition udivdi3 :: "u64 \<Rightarrow> u64 \<Rightarrow> u64 option" where
  "udivdi3 n d = udiv64 n d"

definition umoddi3 :: "u64 \<Rightarrow> u64 \<Rightarrow> u64 option" where
  "umoddi3 n d = do { r \<leftarrow> umod64 n d; Some (ucast r) }"

section \<open>Leading zeros\<close>

text \<open>
  One step of the search: at a point where the top bit is known to be above position \<open>k\<close>, a
  shift by \<open>j\<close> when \<open>x\<close> has \<open>j\<close> leading zeros raises that to \<open>k + j\<close> or more.
\<close>

lemma nlz_step:
  fixes x y c y' :: u32
  assumes "unat y = unat x * 2 ^ n" "2 ^ (32 - 2 * j) \<le> unat y" "n + 2 * j \<le> 32" "1 \<le> j"
    and c: "Suc (unat c) = 2 ^ (32 - j)"
    and step: "(n', y') = (if y \<le> c then (n + j, push_bit j y) else (n, y))"
  shows "unat y' = unat x * 2 ^ n' \<and> 2 ^ (32 - j) \<le> unat y' \<and> n' + j \<le> 32"
proof (cases "y \<le> c")
  case True
  have "unat y < 2 ^ (32 - j)" using True c by (simp add: word_le_nat_alt flip: less_Suc_eq_le)
  then have "unat y * 2 ^ j < 2 ^ (32 - j) * 2 ^ j" by simp
  then have y': "unat (push_bit j y) = unat y * 2 ^ j"
    using assms(3) by (intro unat_push_bit) (simp flip: power_add)
  have "(2 :: nat) ^ (32 - j) = 2 ^ (32 - 2 * j) * 2 ^ j"
    using assms(3) by (simp flip: power_add)
  then have "2 ^ (32 - j) \<le> unat y * 2 ^ j" using assms(2) by simp
  then show ?thesis
    using y' True step assms(1,3) by (simp add: power_add)
next
  case False
  then have "Suc (unat c) \<le> unat y" by (simp add: word_le_nat_alt)
  then show ?thesis using False step assms(1,3) c by simp
qed

lemma nlz_normalises:
  assumes "x \<noteq> 0"
  shows "nlz x < 32 \<and> 2 ^ 31 \<le> unat x * 2 ^ nlz x \<and> unat x * 2 ^ nlz x < 2 ^ 32"
proof -
  obtain n1 y1 where 1: "(n1, y1) = (if x \<le> 0xFFFF then (0 + 16 :: nat, push_bit 16 x) else (0, x))"
    by (metis surj_pair)
  have s1: "unat y1 = unat x * 2 ^ n1 \<and> 2 ^ (32 - 16) \<le> unat y1 \<and> n1 + 16 \<le> 32"
    by (rule nlz_step [OF _ _ _ _ _ 1]) (use assms in \<open>simp_all add: unat_gt_0 Suc_le_eq\<close>)
  obtain n2 y2 where 2: "(n2, y2) = (if y1 \<le> 0xFFFFFF then (n1 + 8, push_bit 8 y1) else (n1, y1))"
    by (metis surj_pair)
  have s2: "unat y2 = unat x * 2 ^ n2 \<and> 2 ^ (32 - 8) \<le> unat y2 \<and> n2 + 8 \<le> 32"
    by (rule nlz_step [OF _ _ _ _ _ 2]) (use s1 in simp_all)
  obtain n3 y3 where 3: "(n3, y3) = (if y2 \<le> 0xFFFFFFF then (n2 + 4, push_bit 4 y2) else (n2, y2))"
    by (metis surj_pair)
  have s3: "unat y3 = unat x * 2 ^ n3 \<and> 2 ^ (32 - 4) \<le> unat y3 \<and> n3 + 4 \<le> 32"
    by (rule nlz_step [OF _ _ _ _ _ 3]) (use s2 in simp_all)
  obtain n4 y4 where 4: "(n4, y4) = (if y3 \<le> 0x3FFFFFFF then (n3 + 2, push_bit 2 y3) else (n3, y3))"
    by (metis surj_pair)
  have s4: "unat y4 = unat x * 2 ^ n4 \<and> 2 ^ (32 - 2) \<le> unat y4 \<and> n4 + 2 \<le> 32"
    by (rule nlz_step [OF _ _ _ _ _ 4]) (use s3 in simp_all)
  obtain n5 y5 where 5: "(n5, y5) = (if y4 \<le> 0x7FFFFFFF then (n4 + 1, push_bit 1 y4) else (n4, y4))"
    by (metis surj_pair)
  have s5: "unat y5 = unat x * 2 ^ n5 \<and> 2 ^ (32 - 1) \<le> unat y5 \<and> n5 + 1 \<le> 32"
    by (rule nlz_step [OF _ _ _ _ _ 5]) (use s4 in simp_all)
  have "nlz x = n5"
    by (simp only: nlz_def Let_def prod.case flip: 1 2 3 4) (use 5 in \<open>simp split: if_splits\<close>)
  then show ?thesis
    using s5 u32_unat_bound [of y5] by auto
qed

section \<open>The quotient estimate\<close>

text \<open>
  The arithmetic behind the long-divisor branch: dividing by the divisor with its low bits
  cleared gives the quotient or one more.
\<close>

lemma quotient_estimate:
  fixes n d s v :: nat
  assumes d: "2 ^ 31 \<le> v" "v * 2 ^ (32 - s) \<le> d" "d < v * 2 ^ (32 - s) + 2 ^ (32 - s)"
    and s: "s < 32" and n: "n < 2 ^ 64"
  shows "n div d \<le> n div (v * 2 ^ (32 - s)) \<and> (n div (v * 2 ^ (32 - s)) - 1) * d \<le> n"
proof -
  define D q e where "D = v * 2 ^ (32 - s)" and "q = n div D" and "e = d - D"
  have D: "2 ^ (63 - s) \<le> D"
  proof -
    have "63 - s = 31 + (32 - s)" using s by simp
    then have "(2 :: nat) ^ (63 - s) = 2 ^ 31 * 2 ^ (32 - s)" by (simp only: power_add)
    then show ?thesis using d(1) by (simp add: D_def)
  qed
  then have "0 < D" by (meson less_le_trans zero_less_numeral zero_less_power)
  have de: "d = D + e" "e \<le> 2 ^ (32 - s) - 1" using d(2,3) by (auto simp: D_def e_def)
  have qD: "q * D \<le> n" by (simp add: q_def)
  have q: "q < 2 ^ (s + 1)"
  proof -
    have "q * 2 ^ (63 - s) < 2 ^ 64" using qD D n by (meson le_less_trans mult_le_mono2)
    moreover have "(2 :: nat) ^ 64 = 2 ^ (s + 1) * 2 ^ (63 - s)" using s by (simp only: flip: power_add) simp
    ultimately show ?thesis by (metis mult_less_cancel2)
  qed
  have "(q - 1) * e \<le> D"
  proof (cases "s = 31")
    case True
    then show ?thesis using de(2) q D by (cases e) auto
  next
    case False
    have "(q - 1) * e \<le> 2 ^ (s + 1) * 2 ^ (32 - s)" using q de(2) by (intro mult_le_mono) auto
    also have "\<dots> = 2 ^ 33" using s by (simp flip: power_add)
    also have "\<dots> \<le> 2 ^ (63 - s)" using False s by (intro power_increasing) auto
    finally show ?thesis using D by simp
  qed
  moreover have "(q - 1) * d = (q - 1) * D + (q - 1) * e" by (simp add: de(1) distrib_left)
  ultimately have "(q - 1) * d \<le> n" using qD by (cases q) auto
  moreover have "n div d \<le> q" unfolding q_def using de(1) \<open>0 < D\<close> by (intro div_le_mono2) auto
  ultimately show ?thesis by (simp add: q_def D_def)
qed

section \<open>Division\<close>

lemma u64_unat_bound: "unat (w :: u64) < 18446744073709551616"
  using unsigned_less [of w] by simp

lemma unat_ucast_u64 [simp]: "unat (ucast (w :: u32) :: u64) = unat w"
  using u32_unat_bound [of w] by (simp add: unsigned_ucast_eq take_bit_nat_eq_self)

lemma unat_ucast_u32: "unat (ucast (w :: u64) :: u32) = unat w mod 2 ^ 32"
  by (simp add: unsigned_ucast_eq take_bit_eq_mod)

lemma unat_add_u64: "unat a + unat b < 2 ^ 64 \<Longrightarrow> unat (a + b :: u64) = unat a + unat b"
  by (simp add: unat_word_ariths)

lemma unat_mult_u64: "unat a * unat b < 2 ^ 64 \<Longrightarrow> unat (a * b :: u64) = unat a * unat b"
  by (simp add: unat_word_ariths)

lemma divl_eq:
  assumes "unat n div unat d < 2 ^ 32" "d \<noteq> 0"
  shows "\<exists>q. divl n d = Some q \<and> unat q = unat n div unat d"
  using assms by (auto simp: divl_def word_le_nat_alt unat_div unat_ucast_u32)

lemma split_division:
  fixes B :: nat
  shows "(B * (n1 mod D) + n0) div D + B * (n1 div D) = (B * n1 + n0) div D"
proof (cases "D = 0")
  case False
  have eq: "B * n1 + n0 = (B * (n1 mod D) + n0) + B * (n1 div D) * D"
    by (metis add.assoc add.commute distrib_left mod_mult_div_eq mult.assoc mult.commute)
  show ?thesis by (subst eq) (simp add: False)
qed simp

lemma udiv64_short:
  assumes "unat d < 2 ^ 32" "d \<noteq> 0"
  shows "udiv64 n d = Some (n div d)"
proof -
  define n1 n0 d0 :: u32 where "n1 = ucast (drop_bit 32 n)" and "n0 = ucast n" and "d0 = ucast d"
  define b :: u64 where "b = push_bit 32 1"
  have b: "unat b = 2 ^ 32" by (simp add: b_def)
  have d0: "unat d0 = unat d" "d0 \<noteq> 0"
    using assms by (simp_all add: d0_def unat_ucast_u32 flip: unat_eq_zero)
  have n: "unat n = 2 ^ 32 * unat n1 + unat n0"
    using u64_unat_bound [of n] by (simp add: n1_def n0_def unat_ucast_u32 unat_drop_bit)
  have bound: "2 ^ 32 * (unat n1 mod unat d) + unat n0 < 2 ^ 32 * unat d"
  proof -
    have "unat n1 mod unat d < unat d" using assms(2) by (simp add: unat_gt_0)
    then have "2 ^ 32 * (unat n1 mod unat d) + 2 ^ 32 \<le> 2 ^ 32 * unat d"
      by (metis Suc_leI mult_Suc_right add.commute mult_le_mono2)
    then show ?thesis using u32_unat_bound [of n0] by simp
  qed
  have arg: "unat (b * ucast (n1 mod d0) + ucast n0) = 2 ^ 32 * (unat n1 mod unat d) + unat n0"
    using bound assms(1) by (subst unat_add_u64; subst unat_mult_u64) (simp_all add: b d0 unat_mod)
  moreover have "(2 ^ 32 * (unat n1 mod unat d) + unat n0) div unat d < 2 ^ 32"
    using bound by (simp add: less_mult_imp_div_less mult.commute)
  ultimately obtain q where q: "divl (b * ucast (n1 mod d0) + ucast n0) d0 = Some q"
      "unat q = (2 ^ 32 * (unat n1 mod unat d) + unat n0) div unat d"
    using divl_eq [of "b * ucast (n1 mod d0) + ucast n0" d0] d0 by auto
  have sum: "unat q + 2 ^ 32 * (unat n1 div unat d) = unat n div unat d"
    unfolding q(2) n by (rule split_division)
  then have "unat q + 2 ^ 32 * (unat n1 div unat d) < 2 ^ 64"
    using le_less_trans [OF div_le_dividend u64_unat_bound [of n]] by simp
  then have "unat (ucast q + b * ucast (n1 div d0)) = unat (n div d)"
    using sum by (subst unat_add_u64; subst unat_mult_u64) (simp_all add: b d0 unat_div)
  moreover have "drop_bit 32 d = 0"
    using assms(1) by (simp add: unat_drop_bit flip: unat_eq_zero)
  ultimately show ?thesis
    using q(1) d0(2) by (simp add: udiv64_def Let_def n1_def n0_def d0_def b_def word_unat_eq_iff)
qed

lemma unat_push_bit_u64: "unat x * 2 ^ k < 2 ^ 64 \<Longrightarrow> unat (push_bit k x :: u64) = unat x * 2 ^ k"
  by (simp only: unsigned_push_bit_eq) (simp add: take_bit_eq_mod push_bit_eq_mult)

lemma normalised_divisor:
  fixes D s :: nat
  assumes "s < 32" "2 ^ 31 \<le> (D div 2 ^ 32) * 2 ^ s" "(D div 2 ^ 32) * 2 ^ s < 2 ^ 32"
  defines "v \<equiv> D * 2 ^ s div 2 ^ 32"
  shows "D * 2 ^ s < 2 ^ 64" "2 ^ 31 \<le> v" "v * 2 ^ (32 - s) \<le> D"
    "D < v * 2 ^ (32 - s) + 2 ^ (32 - s)"
proof -
  have pow: "(2 :: nat) ^ 32 = 2 ^ (32 - s) * 2 ^ s" using assms(1) by (simp only: flip: power_add) simp
  have "D div 2 ^ 32 < 2 ^ (32 - s)"
    using assms(3) pow by (metis mult_less_cancel2)
  then have "Suc (D div 2 ^ 32) \<le> 2 ^ (32 - s)" by simp
  then have "Suc (D div 2 ^ 32) * 2 ^ s \<le> 2 ^ 32" unfolding pow by (rule mult_le_mono1)
  then have "Suc (D div 2 ^ 32) * 2 ^ s * 2 ^ 32 \<le> 2 ^ 64"
    using mult_le_mono1 [of "Suc (D div 2 ^ 32) * 2 ^ s" "2 ^ 32" "2 ^ 32"] by simp
  moreover have "D < Suc (D div 2 ^ 32) * 2 ^ 32"
    using div_mult_mod_eq [of D "2 ^ 32"] mod_less_divisor [of "2 ^ 32" D] by simp
  then have "D * 2 ^ s < Suc (D div 2 ^ 32) * 2 ^ 32 * 2 ^ s" by (rule mult_less_mono1) simp
  then have "D * 2 ^ s < Suc (D div 2 ^ 32) * 2 ^ s * 2 ^ 32" by (simp only: mult_ac)
  ultimately show "D * 2 ^ s < 2 ^ 64" by linarith
  have "(D div 2 ^ 32) * 2 ^ s * 2 ^ 32 \<le> D * 2 ^ s"
    using div_mult_mod_eq [of D "2 ^ 32"] by (metis le_add1 mult.assoc mult.commute mult_le_mono1)
  then have "(D div 2 ^ 32) * 2 ^ s \<le> v" unfolding v_def by (simp add: less_eq_div_iff_mult_less_eq)
  then show "2 ^ 31 \<le> v" using assms(2) by simp
  have "v * 2 ^ 32 \<le> D * 2 ^ s" unfolding v_def by simp
  then show "v * 2 ^ (32 - s) \<le> D" unfolding pow by (simp flip: mult.assoc)
  have "D * 2 ^ s < Suc v * 2 ^ 32"
    unfolding v_def using div_mult_mod_eq [of "D * 2 ^ s" "2 ^ 32"] mod_less_divisor [of "2 ^ 32" "D * 2 ^ s"] by simp
  then have "D < Suc v * 2 ^ (32 - s)" unfolding pow by (metis mult.assoc mult_less_cancel2)
  then show "D < v * 2 ^ (32 - s) + 2 ^ (32 - s)" by simp
qed

lemma correct_estimate:
  fixes n d q :: u64
  assumes "unat d \<le> unat n" "unat n div unat d \<le> unat q" "(unat q - 1) * unat d \<le> unat n" "0 < unat d"
  shows "(if n - (q - 1) * d < d then q - 1 else q) = n div d"
proof -
  have "1 \<le> unat q" using assms(1,2,4) by (metis Suc_leI One_nat_def div_greater_zero_iff le_trans)
  then have q1: "unat (q - 1) = unat q - 1" by (simp add: unat_sub word_le_nat_alt)
  have prod: "unat ((q - 1) * d) = (unat q - 1) * unat d"
    using assms(3) u64_unat_bound [of n] by (subst unat_mult_u64) (simp_all add: q1)
  then have "unat (n - (q - 1) * d) = unat n - (unat q - 1) * unat d"
    using assms(3) by (simp add: unat_sub word_le_nat_alt)
  then have test: "n - (q - 1) * d < d \<longleftrightarrow> unat n < unat q * unat d"
    using assms(3) \<open>1 \<le> unat q\<close> by (cases "unat q") (auto simp: word_less_nat_alt)
  show ?thesis
  proof (cases "unat n < unat q * unat d")
    case True
    then have "unat n div unat d < unat q" by (simp add: less_mult_imp_div_less)
    moreover have "unat q - 1 \<le> unat n div unat d"
      using assms(3,4) by (simp add: less_eq_div_iff_mult_less_eq)
    ultimately have "unat n div unat d = unat q - 1" by simp
    then show ?thesis using True test q1 by (simp add: word_unat_eq_iff unat_div)
  next
    case False
    then have "unat q \<le> unat n div unat d" using assms(4) by (simp add: less_eq_div_iff_mult_less_eq)
    then show ?thesis using False test assms(2) by (simp add: word_unat_eq_iff unat_div)
  qed
qed

lemma udiv64_long:
  assumes "2 ^ 32 \<le> unat d"
  shows "udiv64 n d = Some (n div d)"
proof (cases "n < d")
  case True
  then have "n div d = 0" by (simp add: word_less_nat_alt unat_div flip: unat_eq_zero)
  moreover have "drop_bit 32 d \<noteq> 0"
    using assms by (simp add: unat_drop_bit flip: unat_eq_zero)
  ultimately show ?thesis using True by (simp add: udiv64_def)
next
  case False
  define d1 :: u32 where "d1 = ucast (drop_bit 32 d)"
  define s where "s = nlz d1"
  define v :: u32 where "v = ucast (drop_bit 32 (push_bit s d))"
  have d1: "unat d1 = unat d div 2 ^ 32"
    using u64_unat_bound [of d] by (simp add: d1_def unat_ucast_u32 unat_drop_bit)
  then have "d1 \<noteq> 0" "drop_bit 32 d \<noteq> 0"
    using assms by (simp_all add: unat_drop_bit flip: unat_eq_zero)
  have s: "s < 32" "2 ^ 31 \<le> (unat d div 2 ^ 32) * 2 ^ s" "(unat d div 2 ^ 32) * 2 ^ s < 2 ^ 32"
    using nlz_normalises [OF \<open>d1 \<noteq> 0\<close>] d1 by (simp_all add: s_def)
  note dv = normalised_divisor [OF s]
  have v: "unat v = unat d * 2 ^ s div 2 ^ 32"
    using dv(1) by (simp add: v_def unat_ucast_u32 unat_drop_bit unat_push_bit_u64)
  have "unat n div 2 < 2 ^ 32 * 2 ^ 31" using u64_unat_bound [of n] by simp
  also have "\<dots> \<le> 2 ^ 32 * unat v" using dv(2) v by (intro mult_le_mono2) simp
  finally have "unat n div 2 div unat v < 2 ^ 32" by (simp add: less_mult_imp_div_less mult.commute)
  moreover have "v \<noteq> 0" using dv(2) v by (auto simp flip: unat_eq_zero)
  ultimately obtain q0 where q0: "divl (drop_bit 1 n) v = Some q0" "unat q0 = unat n div 2 div unat v"
    using divl_eq [of "drop_bit 1 n" v] by (auto simp: unat_drop_bit)
  define q :: u64 where "q = ucast (drop_bit (31 - s) q0)"
  have "32 - s = Suc (31 - s)" using s(1) by simp
  then have q: "unat q = unat n div (unat v * 2 ^ (32 - s))"
    by (simp add: q_def unat_drop_bit q0(2) mult_ac flip: div_mult2_eq)
  have est: "unat n div unat d \<le> unat q" "(unat q - 1) * unat d \<le> unat n"
    using quotient_estimate [of "unat v" s "unat d" "unat n"] dv(2-4) s(1) v q u64_unat_bound [of n] by simp_all
  have "(if n - (q - 1) * d < d then q - 1 else q) = n div d"
    by (rule correct_estimate) (use False est assms in \<open>simp_all add: word_less_nat_alt\<close>)
  then show ?thesis
    using False q0(1) \<open>drop_bit 32 d \<noteq> 0\<close>
    by (auto simp: udiv64_def Let_def simp flip: d1_def s_def v_def q_def split: if_splits)
qed

lemma udiv64_eq: "d \<noteq> 0 \<Longrightarrow> udiv64 n d = Some (n div d)"
  using udiv64_short [of d n] udiv64_long [of d n] by (cases "unat d < 2 ^ 32") simp_all

lemma udiv64_by_zero: "udiv64 n 0 = None"
  by (simp add: udiv64_def)

lemma umod64_eq: "d \<noteq> 0 \<Longrightarrow> umod64 n d = Some (ucast (n mod d))"
  by (simp add: umod64_def udiv64_eq minus_mult_div_eq_mod)

section \<open>Signed division\<close>

lemma sint_eq_uint: "sint (w :: u64) = (if uint w < 2 ^ 63 then uint w else uint w - 2 ^ 64)"
proof -
  have "sint w = (uint w + 2 ^ 63) mod 2 ^ 64 - 2 ^ 63"
    using int_word_sint [of "uint w", where ?'a = 64] by simp
  moreover have "(uint w + 2 ^ 63) mod 2 ^ 64 = (if uint w < 2 ^ 63 then uint w + 2 ^ 63 else uint w - 2 ^ 63)"
  proof (cases "uint w < 2 ^ 63")
    case False
    have "(uint w + 2 ^ 63) mod 2 ^ 64 = (uint w - 2 ^ 63 + 2 ^ 64) mod 2 ^ 64" by (simp add: add.commute)
    also have "\<dots> = (uint w - 2 ^ 63) mod 2 ^ 64" by (rule mod_add_self2)
    also have "\<dots> = uint w - 2 ^ 63"
      using False uint_bounded [of w] by (intro mod_pos_pos_trivial) auto
    finally show ?thesis using False by simp
  qed simp
  ultimately show ?thesis by simp
qed

lemma uint_minus: "uint (- w :: u64) = (if w = 0 then 0 else 2 ^ 64 - uint w)"
proof (cases "w = 0")
  case False
  then have "0 < uint w" using uint_0_iff [of w] by (simp add: order_less_le)
  have "uint (- w) = (- uint w + 2 ^ 64) mod 2 ^ 64" by (simp add: uint_word_ariths(4))
  also have "\<dots> = 2 ^ 64 - uint w"
    using \<open>0 < uint w\<close> uint_bounded [of w] by (subst mod_pos_pos_trivial) auto
  finally show ?thesis using False by simp
qed simp

lemma uint_abs: "uint (if 0 \<le> sint w then w else - w :: u64) = \<bar>sint w\<bar>"
  using uint_bounded [of w] by (auto simp: sint_eq_uint uint_minus)

lemma sdiv64_eq:
  assumes "d \<noteq> 0" "\<not> (sint n = - (2 ^ 63) \<and> sint d = - 1)"
  shows "\<exists>q. sdiv64 n d = Some q \<and> sint q = sint n sdiv sint d"
proof -
  define na da where "na = (if 0 \<le> sint n then n else - n)" and "da = (if 0 \<le> sint d then d else - d)"
  have abs: "uint na = \<bar>sint n\<bar>" "uint da = \<bar>sint d\<bar>"
    unfolding na_def da_def by (rule uint_abs)+
  have "sint d \<noteq> 0" using assms(1) uint_bounded [of d] by (auto simp: sint_eq_uint uint_0_iff split: if_splits)
  then have "da \<noteq> 0" using abs(2) by auto
  define Q where "Q = \<bar>sint n\<bar> div \<bar>sint d\<bar>"
  have q: "uint (na div da) = Q" by (simp add: uint_div abs Q_def)
  have "0 \<le> Q" unfolding q [symmetric] by simp
  have n: "\<bar>sint n\<bar> \<le> 2 ^ 63" using uint_bounded [of n] by (simp add: sint_eq_uint)
  have "Q \<le> \<bar>sint n\<bar>" unfolding Q_def using \<open>sint d \<noteq> 0\<close> zdiv_mono2 [of "\<bar>sint n\<bar>" 1 "\<bar>sint d\<bar>"] by simp
  have small: "Q < 2 ^ 63" if "(sint n < 0) = (sint d < 0)"
  proof (rule ccontr)
    assume "\<not> Q < 2 ^ 63"
    then have Q: "Q = 2 ^ 63" "\<bar>sint n\<bar> = 2 ^ 63" using n \<open>Q \<le> \<bar>sint n\<bar>\<close> by auto
    then have "sint n = - (2 ^ 63)" using uint_bounded [of n] by (auto simp: sint_eq_uint split: if_splits)
    moreover have "Q * \<bar>sint d\<bar> \<le> \<bar>sint n\<bar>"
      unfolding Q_def using div_mult_mod_eq [of "\<bar>sint n\<bar>" "\<bar>sint d\<bar>"] \<open>sint d \<noteq> 0\<close> by (smt (verit) pos_mod_sign)
    then have "\<bar>sint d\<bar> \<le> 1" using Q by simp
    then have "sint d = - 1" using that \<open>sint d \<noteq> 0\<close> calculation by auto
    ultimately show False using assms(2) by simp
  qed
  have "sint n sdiv sint d = (if (sint n < 0) = (sint d < 0) then Q else - Q)"
    using \<open>sint d \<noteq> 0\<close> by (auto simp: signed_divide_int_def Q_def sgn_if)
  moreover have "sint (na div da) = Q" if "(sint n < 0) = (sint d < 0)"
    using small [OF that] q by (simp add: sint_eq_uint)
  moreover have "sint (- (na div da)) = - Q"
    using q \<open>0 \<le> Q\<close> \<open>Q \<le> \<bar>sint n\<bar>\<close> n by (auto simp: sint_eq_uint uint_minus)
  ultimately show ?thesis
    using \<open>da \<noteq> 0\<close> by (simp add: sdiv64_def Let_def udiv64_eq flip: na_def da_def)
qed

section \<open>Properties\<close>

text \<open>
  C17: \<open>udiv64\<close> divides: for every nonzero divisor neither use of the \<^verbatim>\<open>DIVL\<close> instruction traps
  and the result is the full 64-bit quotient.
\<close>

theorem udiv64_correct:
  assumes "d \<noteq> 0"
  shows "udiv64 n d = Some (n div d)"
  using assms by (rule udiv64_eq)

theorem udiv64_correct_witness: "udiv64 (- 1) (2 ^ 40 + 12345) = Some ((- 1) div (2 ^ 40 + 12345))"
  by (rule udiv64_correct) simp

text \<open>
  \<open>sdiv64\<close> is C's signed division, rounding towards zero, for every nonzero divisor except
  in the one case whose quotient does not fit in 64 bits.
\<close>

theorem sdiv64_correct:
  assumes "d \<noteq> 0" "\<not> (sint n = - (2 ^ 63) \<and> sint d = - 1)"
  shows "\<exists>q. sdiv64 n d = Some q \<and> sint q = sint n sdiv sint d"
  using assms by (rule sdiv64_eq)

theorem sdiv64_correct_witness: "\<exists>q. sdiv64 (- 7) 2 = Some q \<and> sint q = sint (- 7 :: u64) sdiv sint (2 :: u64)"
  by (rule sdiv64_correct) simp_all

text \<open>
  the remainder routine that the compiler calls for unsigned 64-bit \<open>%\<close> keeps only the low
  32 bits of the remainder, because \<open>umod64\<close> returns \<open>uint32_t\<close>: its result is the true
  remainder exactly when that remainder is below \<open>2 ^ 32\<close>.
\<close>

theorem umoddi3_truncates:
  assumes "d \<noteq> 0"
  shows "umoddi3 n d = Some ((n mod d) mod 2 ^ 32) \<and>
    (umoddi3 n d = Some (n mod d) \<longleftrightarrow> n mod d < 2 ^ 32)"
proof -
  have "umoddi3 n d = Some ((n mod d) mod 2 ^ 32)"
    using assms by (simp add: umoddi3_def umod64_eq word_unat_eq_iff unat_ucast_u32 unat_mod)
  then show ?thesis
    by (auto simp: word_unat_eq_iff word_less_nat_alt unat_mod)
qed

theorem umoddi3_truncates_witness:
  "umoddi3 (2 ^ 32) (2 ^ 33) = Some ((2 ^ 32 mod 2 ^ 33) mod 2 ^ 32) \<and>
    (umoddi3 (2 ^ 32) (2 ^ 33) = Some (2 ^ 32 mod 2 ^ 33) \<longleftrightarrow> (2 ^ 32 mod 2 ^ 33 :: u64) < 2 ^ 32)"
  by (rule umoddi3_truncates) simp

end
