(* ===== verification/Prng.thy ===== *)
theory Prng
  imports Prelude
begin

text \<open>
  \<^verbatim>\<open>lib/random.c\<close>: the RC4-based pseudo-random generator. The static variables are a record that
  every function takes and returns; an index outside \<open>s[256]\<close> would be \<open>None\<close>.
\<close>

section \<open>State and operations\<close>

record rng =
  s_box :: "u8 list"
  s_i :: u8
  s_j :: u8
  inited :: bool

definition rng_at :: "u8 list \<Rightarrow> nat \<Rightarrow> u8 option" where
  "rng_at a i = (if i < length a then Some (a ! i) else None)"

definition swap_byte :: "u8 list \<Rightarrow> nat \<Rightarrow> nat \<Rightarrow> u8 list option" where
  "swap_byte arr a b = do {
     t \<leftarrow> rng_at arr a;
     v \<leftarrow> rng_at arr b;
     Some (arr[a := v, b := t]) }"

text \<open>The bytes of \<open>seed\<close>, lowest first.\<close>

definition seedp :: "u32 \<Rightarrow> nat \<Rightarrow> u8" where
  "seedp seed i = ucast (drop_bit (8 * (i mod 4)) seed)"

primrec random_init_fill :: "nat \<Rightarrow> u8 list \<Rightarrow> u8 list" where
  "random_init_fill 0 a = a"
| "random_init_fill (Suc n) a = (random_init_fill n a)[n := of_nat n]"

function random_init_mix :: "u32 \<Rightarrow> nat \<Rightarrow> u8 \<Rightarrow> u8 list \<Rightarrow> u8 list option" where
  "random_init_mix seed i j a =
     (if i < 256 then do {
        v \<leftarrow> rng_at a i;
        let j = j + (v + seedp seed i) in do {
          a \<leftarrow> swap_byte a i (unat j);
          random_init_mix seed (i + 1) j a } }
      else Some a)"
  by pat_completeness auto
termination
  by (relation "measure (\<lambda>(seed, i, j, a). 256 - i)") auto

definition random_init :: "u32 \<Rightarrow> rng \<Rightarrow> rng option" where
  "random_init seed g = do {
     a \<leftarrow> random_init_mix seed 0 0 (random_init_fill 256 (s_box g));
     Some \<lparr>s_box = a, s_i = 0, s_j = 0, inited = True\<rparr> }"

definition random_byte :: "rng \<Rightarrow> (rng \<times> u8) option" where
  "random_byte g = do {
     let i = s_i g + 1;
     v \<leftarrow> rng_at (s_box g) (unat i);
     let j = s_j g + v;
     a \<leftarrow> swap_byte (s_box g) (unat i) (unat j);
     vi \<leftarrow> rng_at a (unat i);
     vj \<leftarrow> rng_at a (unat j);
     out \<leftarrow> rng_at a (unat (vi + vj));
     Some (g\<lparr>s_box := a, s_i := i, s_j := j\<rparr>, out) }"

primrec random_bytes_loop :: "nat \<Rightarrow> rng \<Rightarrow> (rng \<times> u8 list) option" where
  "random_bytes_loop 0 g = Some (g, [])"
| "random_bytes_loop (Suc n) g = do {
     (g, b) \<leftarrow> random_byte g;
     (g, bs) \<leftarrow> random_bytes_loop n g;
     Some (g, b # bs) }"

definition random_bytes :: "u32 \<Rightarrow> rng \<Rightarrow> (rng \<times> u8 list) option" where
  "random_bytes sz g = do {
     g \<leftarrow> (if \<not> inited g then random_init 0 g else Some g);
     random_bytes_loop (unat sz) g }"

definition random_ulong :: "rng \<Rightarrow> (rng \<times> u32) option" where
  "random_ulong g = do {
     (g, bs) \<leftarrow> random_bytes 4 g;
     case bs of
       [a, b, c, d] \<Rightarrow>
         Some (g, ucast a OR push_bit 8 (ucast b) OR push_bit 16 (ucast c) OR push_bit 24 (ucast d))
     | _ \<Rightarrow> None }"

declare random_init_mix.simps [simp del]

section \<open>The table stays a permutation\<close>

definition all_bytes :: "u8 list" where
  "all_bytes = map of_nat [0..<256]"

definition rng_ok :: "rng \<Rightarrow> bool" where
  "rng_ok g \<longleftrightarrow> length (s_box g) = 256 \<and> (inited g \<longrightarrow> mset (s_box g) = mset all_bytes)"

lemma unat_u8 [simp]: "unat (w :: u8) < 256"
  using unsigned_less [of w] by simp

lemma swap_byte_perm:
  assumes "i < length a" "j < length a"
  shows "\<exists>a'. swap_byte a i j = Some a' \<and> mset a' = mset a \<and> length a' = length a"
  using assms by (auto simp: swap_byte_def rng_at_def mset_swap)

lemma random_init_fill_nth:
  "length a = 256 \<Longrightarrow> n \<le> 256 \<Longrightarrow> length (random_init_fill n a) = 256 \<and>
   (\<forall>i<n. random_init_fill n a ! i = of_nat i)"
  by (induction n) (auto simp: nth_list_update less_Suc_eq)

lemma random_init_fill_all: "length a = 256 \<Longrightarrow> random_init_fill 256 a = all_bytes"
  using random_init_fill_nth [of a 256] by (intro nth_equalityI) (auto simp: all_bytes_def)

lemma random_init_mix_perm:
  "length a = 256 \<Longrightarrow> \<exists>a'. random_init_mix seed i j a = Some a' \<and> mset a' = mset a \<and> length a' = 256"
proof (induction seed i j a rule: random_init_mix.induct)
  case (1 seed i j a)
  show ?case
  proof (cases "i < 256")
    case True
    let ?j = "j + (a ! i + seedp seed i)"
    have at: "rng_at a i = Some (a ! i)" using "1.prems" True by (simp add: rng_at_def)
    obtain a1 where a1: "swap_byte a i (unat ?j) = Some a1" "mset a1 = mset a" "length a1 = length a"
      using swap_byte_perm [of i a "unat ?j"] True "1.prems" by auto
    show ?thesis
      using "1.IH" [OF True at refl a1(1)] a1 "1.prems" True
      by (simp add: random_init_mix.simps [of seed i] at Let_def)
  qed (use 1 in \<open>simp add: random_init_mix.simps\<close>)
qed

lemma random_init_ok:
  assumes "length (s_box g) = 256"
  shows "\<exists>g'. random_init seed g = Some g' \<and> rng_ok g' \<and> inited g'"
  using random_init_mix_perm [of all_bytes seed 0 0] random_init_fill_all [OF assms]
  by (auto simp: random_init_def rng_ok_def all_bytes_def)

lemma random_byte_ok:
  assumes "rng_ok g" "inited g"
  shows "\<exists>g' b. random_byte g = Some (g', b) \<and> rng_ok g' \<and> inited g'"
proof -
  let ?i = "s_i g + 1"
  let ?j = "s_j g + s_box g ! unat ?i"
  have len: "length (s_box g) = 256" using assms by (simp add: rng_ok_def)
  obtain a where a: "swap_byte (s_box g) (unat ?i) (unat ?j) = Some a" "mset a = mset (s_box g)" "length a = 256"
    using swap_byte_perm [of "unat ?i" "s_box g" "unat ?j"] len by auto
  then show ?thesis
    using assms len by (simp add: random_byte_def rng_at_def Let_def rng_ok_def)
qed

lemma random_bytes_loop_ok:
  "rng_ok g \<Longrightarrow> inited g \<Longrightarrow>
   \<exists>g' bs. random_bytes_loop n g = Some (g', bs) \<and> length bs = n \<and> rng_ok g' \<and> inited g'"
proof (induction n arbitrary: g)
  case (Suc n)
  then obtain g1 b where "random_byte g = Some (g1, b)" "rng_ok g1" "inited g1"
    using random_byte_ok by blast
  with Suc.IH [of g1] show ?case by auto
qed simp

section \<open>Properties\<close>

text \<open>
  \<open>random_bytes\<close> always succeeds: whether or not the generator has been seeded, it never
  indexes outside the table, writes exactly \<open>size\<close> bytes, and leaves the table a permutation of
  the 256 byte values.
\<close>

theorem random_bytes_total:
  assumes "rng_ok g"
  shows "\<exists>g' bs. random_bytes sz g = Some (g', bs) \<and> length bs = unat sz \<and>
    mset (s_box g') = mset all_bytes \<and> inited g'"
proof (cases "inited g")
  case True
  then show ?thesis
    using random_bytes_loop_ok [OF assms, of "unat sz"] by (auto simp: random_bytes_def rng_ok_def)
next
  case False
  obtain g1 where "random_init 0 g = Some g1" "rng_ok g1" "inited g1"
    using random_init_ok [of g 0] assms by (auto simp: rng_ok_def)
  then show ?thesis
    using False random_bytes_loop_ok [of g1 "unat sz"] by (auto simp: random_bytes_def rng_ok_def)
qed

theorem random_bytes_total_witness:
  "\<exists>g' bs. random_bytes 5 \<lparr>s_box = replicate 256 0, s_i = 0, s_j = 0, inited = False\<rparr> = Some (g', bs) \<and>
     length bs = unat (5 :: u32) \<and> mset (s_box g') = mset all_bytes \<and> inited g'"
  by (rule random_bytes_total) (simp add: rng_ok_def)

end
