(* ===== verification/Vaddr.thy ===== *)
theory Vaddr
  imports Prelude
begin

text \<open>
  \<^verbatim>\<open>threads/vaddr.h\<close> and \<^verbatim>\<open>threads/pte.h\<close>: the split of 32-bit virtual addresses, the mapping of
  physical memory at \<open>PHYS_BASE\<close>, and page directory and page table entries.
\<close>

section \<open>Virtual addresses\<close>

definition BITMASK :: "nat \<Rightarrow> nat \<Rightarrow> u32" where
  "BITMASK shift cnt = push_bit shift (push_bit cnt 1 - 1)"

definition PGBITS :: nat where
  "PGBITS = 12"

definition PGSIZE :: u32 where
  "PGSIZE = push_bit PGBITS 1"

definition PGMASK :: u32 where
  "PGMASK = BITMASK 0 PGBITS"

definition pg_ofs :: "u32 \<Rightarrow> u32" where
  "pg_ofs va = va AND PGMASK"

definition pg_no :: "u32 \<Rightarrow> u32" where
  "pg_no va = drop_bit PGBITS va"

definition pg_round_up :: "u32 \<Rightarrow> u32" where
  "pg_round_up va = (va + PGSIZE - 1) AND NOT PGMASK"

definition pg_round_down :: "u32 \<Rightarrow> u32" where
  "pg_round_down va = va AND NOT PGMASK"

definition PHYS_BASE :: u32 where
  "PHYS_BASE = 0xc0000000"

definition is_user_vaddr :: "u32 \<Rightarrow> bool" where
  "is_user_vaddr vaddr \<longleftrightarrow> vaddr < PHYS_BASE"

definition is_kernel_vaddr :: "u32 \<Rightarrow> bool" where
  "is_kernel_vaddr vaddr \<longleftrightarrow> PHYS_BASE \<le> vaddr"

definition ptov :: "u32 \<Rightarrow> u32 option" where
  "ptov paddr = do {
     c_assert (paddr < PHYS_BASE);
     Some (paddr + PHYS_BASE) }"

definition vtop :: "u32 \<Rightarrow> u32 option" where
  "vtop vaddr = do {
     c_assert (is_kernel_vaddr vaddr);
     Some (vaddr - PHYS_BASE) }"

section \<open>Page table entries\<close>

definition PTSHIFT :: nat where
  "PTSHIFT = PGBITS"

definition PTBITS :: nat where
  "PTBITS = 10"

definition PTMASK :: u32 where
  "PTMASK = BITMASK PTSHIFT PTBITS"

definition PDSHIFT :: nat where
  "PDSHIFT = PTSHIFT + PTBITS"

definition pt_no :: "u32 \<Rightarrow> u32" where
  "pt_no va = drop_bit PTSHIFT (va AND PTMASK)"

definition pd_no :: "u32 \<Rightarrow> u32" where
  "pd_no va = drop_bit PDSHIFT va"

definition PTE_ADDR :: u32 where "PTE_ADDR = 0xfffff000"
definition PTE_P :: u32 where "PTE_P = 0x1"
definition PTE_W :: u32 where "PTE_W = 0x2"
definition PTE_U :: u32 where "PTE_U = 0x4"
definition PTE_A :: u32 where "PTE_A = 0x20"
definition PTE_D :: u32 where "PTE_D = 0x40"

definition pde_create :: "u32 \<Rightarrow> u32 option" where
  "pde_create pt = do {
     c_assert (pg_ofs pt = 0);
     p \<leftarrow> vtop pt;
     Some (p OR PTE_U OR PTE_P OR PTE_W) }"

definition pde_get_pt :: "u32 \<Rightarrow> u32 option" where
  "pde_get_pt pde = do {
     c_assert (pde AND PTE_P \<noteq> 0);
     ptov (pde AND PTE_ADDR) }"

definition pte_create_kernel :: "u32 \<Rightarrow> bool \<Rightarrow> u32 option" where
  "pte_create_kernel page writable = do {
     c_assert (pg_ofs page = 0);
     p \<leftarrow> vtop page;
     Some (p OR PTE_P OR (if writable then PTE_W else 0)) }"

definition pte_create_user :: "u32 \<Rightarrow> bool \<Rightarrow> u32 option" where
  "pte_create_user page writable = do {
     pte \<leftarrow> pte_create_kernel page writable;
     Some (pte OR PTE_U) }"

definition pte_get_page :: "u32 \<Rightarrow> u32 option" where
  "pte_get_page pte = ptov (pte AND PTE_ADDR)"

section \<open>Arithmetic reading\<close>

lemma PGMASK_mask: "PGMASK = mask 12"
  by (simp add: PGMASK_def BITMASK_def PGBITS_def mask_eq_exp_minus_1)

lemma PGSIZE_eq [simp]: "PGSIZE = 4096"
  by (simp add: PGSIZE_def PGBITS_def)

lemma pg_ofs_take_bit: "pg_ofs va = take_bit 12 va"
  by (simp add: pg_ofs_def PGMASK_mask take_bit_eq_mask)

lemma unat_pg_ofs: "unat (pg_ofs va) = unat va mod 4096"
  by (simp add: pg_ofs_take_bit unat_take_bit)

lemma pg_ofs_0: "pg_ofs va = 0 \<longleftrightarrow> 4096 dvd unat va"
  by (simp add: unat_pg_ofs dvd_eq_mod_eq_0 flip: unat_eq_zero)

lemma unat_pg_no: "unat (pg_no va) = unat va div 4096"
  by (simp add: pg_no_def PGBITS_def unat_drop_bit)

lemma unat_pd_no: "unat (pd_no va) = unat va div 2 ^ 22"
  by (simp add: pd_no_def PDSHIFT_def PTSHIFT_def PTBITS_def PGBITS_def unat_drop_bit)

lemma unat_pg_round_down: "unat (pg_round_down va) = 4096 * (unat va div 4096)"
  using u32_unat_bound [of va]
  by (simp add: pg_round_down_def PGMASK_mask and_not_mask unat_push_bit unat_drop_bit mult.commute
      le_less_trans [OF div_times_less_eq_dividend])

lemma pt_no_bits: "pt_no va = take_bit 10 (drop_bit 12 va)"
proof -
  have m: "PTMASK = push_bit 12 (mask 10)"
    by (simp add: PTMASK_def BITMASK_def PTSHIFT_def PTBITS_def PGBITS_def mask_eq_exp_minus_1)
  show ?thesis
    unfolding pt_no_def m by (intro bit_eqI) (auto simp: PTSHIFT_def PGBITS_def bit_simps)
qed

lemma unat_pt_no: "unat (pt_no va) = unat va div 4096 mod 1024"
  by (simp add: pt_no_bits unat_take_bit unat_drop_bit)

lemma vtop_kernel:
  "0xc0000000 \<le> unat v \<Longrightarrow> vtop v = Some (v - 0xc0000000) \<and> unat (v - 0xc0000000) = unat v - 0xc0000000"
  by (simp add: vtop_def is_kernel_vaddr_def PHYS_BASE_def word_le_nat_alt unat_sub)

lemma vtop_Some_D: "vtop v = Some p \<Longrightarrow> 0xc0000000 \<le> unat v \<and> p = v - 0xc0000000"
  by (auto simp: vtop_def is_kernel_vaddr_def PHYS_BASE_def word_le_nat_alt)

lemma ptov_Some: "(ptov p = Some v) \<longleftrightarrow> unat p < 0xc0000000 \<and> v = p + 0xc0000000"
  by (auto simp: ptov_def PHYS_BASE_def word_less_nat_alt)

lemma vtop_ptov: "vtop v = Some p \<Longrightarrow> ptov p = Some v"
  using vtop_kernel [of v] u32_unat_bound [of v] by (auto simp: ptov_Some dest!: vtop_Some_D)

section \<open>Entries\<close>

text \<open>An entry is an aligned address joined with flags from the low twelve bits.\<close>

lemma PTE_ADDR_mask: "PTE_ADDR = NOT (mask 12)"
  by (simp add: PTE_ADDR_def mask_eq_exp_minus_1)

lemma entry_addr:
  assumes "take_bit 12 p = 0" "take_bit 12 f = f"
  shows "(p OR f) AND PTE_ADDR = (p :: u32)"
proof (rule bit_eqI)
  fix n
  show "bit ((p OR f) AND PTE_ADDR) n = bit p n"
    using arg_cong [OF assms(1), of "\<lambda>w. bit w n"] arg_cong [OF assms(2), of "\<lambda>w. bit w n"]
    by (auto simp: PTE_ADDR_mask bit_simps dest: bit_imp_le_length)
qed

lemma entry_flags:
  assumes "take_bit 12 p = 0" "take_bit 12 m = m"
  shows "(p OR f) AND m = f AND (m :: u32)"
proof (rule bit_eqI)
  fix n
  show "bit ((p OR f) AND m) n = bit (f AND m) n"
    using arg_cong [OF assms(1), of "\<lambda>w. bit w n"] arg_cong [OF assms(2), of "\<lambda>w. bit w n"]
    by (auto simp: bit_simps)
qed

lemma aligned_vtop:
  assumes "pg_ofs page = 0" "vtop page = Some p"
  shows "take_bit 12 p = 0"
proof -
  have "unat p = unat page - 0xc0000000" "0xc0000000 \<le> unat page"
    using vtop_Some_D [OF assms(2)] vtop_kernel [of page] by auto
  then have "4096 dvd unat p" using assms(1) by (simp add: pg_ofs_0 dvd_diff_nat)
  then show ?thesis by (simp add: unat_take_bit flip: unat_eq_zero)
qed

lemmas flag_defs = PTE_P_def PTE_W_def PTE_U_def PTE_A_def PTE_D_def

lemma pde_roundtrip:
  assumes "pg_ofs pt = 0" "is_kernel_vaddr pt"
  shows "\<exists>pde. pde_create pt = Some pde \<and> pde_get_pt pde = Some pt \<and> pde AND PTE_P \<noteq> 0 \<and> pde \<noteq> 0"
proof -
  obtain p where p: "vtop pt = Some p" using assms(2) by (simp add: vtop_def)
  note al = aligned_vtop [OF assms(1) p]
  have "p OR PTE_U OR PTE_P OR PTE_W = p OR 7" by (simp add: flag_defs)
  moreover have "(p OR 7) AND PTE_ADDR = p" by (rule entry_addr [OF al]) simp
  moreover have "(p OR 7) AND PTE_P = 1" using entry_flags [OF al, of PTE_P 7] by (simp add: PTE_P_def)
  ultimately show ?thesis
    using assms p vtop_ptov [OF p] by (auto simp: pde_create_def pde_get_pt_def)
qed

lemma pte_roundtrip:
  assumes "pg_ofs page = 0" "is_kernel_vaddr page"
  shows "\<exists>pte. pte_create_user page w = Some pte \<and> pte_get_page pte = Some page \<and>
    pte AND PTE_P \<noteq> 0 \<and> pte AND PTE_U \<noteq> 0 \<and> (pte AND PTE_W \<noteq> 0) = w \<and>
    pte AND PTE_A = 0 \<and> pte AND PTE_D = 0"
proof -
  obtain p where p: "vtop page = Some p" using assms(2) by (simp add: vtop_def)
  note al = aligned_vtop [OF assms(1) p]
  define f :: u32 where "f = (if w then 7 else 5)"
  have "p OR PTE_P OR (if w then PTE_W else 0) OR PTE_U = p OR f"
    by (simp add: flag_defs f_def)
  moreover have "(p OR f) AND PTE_ADDR = p" by (rule entry_addr [OF al]) (simp add: f_def)
  moreover have "(p OR f) AND m = f AND m" if "take_bit 12 m = m" for m
    using that by (rule entry_flags [OF al])
  ultimately show ?thesis
    using assms p vtop_ptov [OF p]
    by (simp add: pte_create_user_def pte_create_kernel_def pte_get_page_def or.assoc flag_defs f_def)
qed

section \<open>Properties\<close>

text \<open>
  an entry made by \<open>pte_create_user\<close> for a page-aligned kernel address decodes back to that
  address with \<open>pte_get_page\<close>; it is present and user accessible, writable exactly if asked,
  and neither accessed nor dirty.
\<close>

theorem pte_create_user_roundtrip:
  assumes "pg_ofs page = 0" "is_kernel_vaddr page"
  shows "\<exists>pte. pte_create_user page writable = Some pte \<and> pte_get_page pte = Some page \<and>
    pte AND PTE_P \<noteq> 0 \<and> pte AND PTE_U \<noteq> 0 \<and> (pte AND PTE_W \<noteq> 0) = writable \<and>
    pte AND PTE_A = 0 \<and> pte AND PTE_D = 0"
  using assms by (rule pte_roundtrip)

theorem pte_create_user_roundtrip_witness:
  "\<exists>pte. pte_create_user 0xc0105000 True = Some pte \<and> pte_get_page pte = Some 0xc0105000 \<and>
    pte AND PTE_P \<noteq> 0 \<and> pte AND PTE_U \<noteq> 0 \<and> (pte AND PTE_W \<noteq> 0) = True \<and>
    pte AND PTE_A = 0 \<and> pte AND PTE_D = 0"
  by (rule pte_create_user_roundtrip) (simp_all add: pg_ofs_0 is_kernel_vaddr_def PHYS_BASE_def)

text \<open>
  the three fields of a virtual address determine it: directory index, table index and
  offset are below 1024, 1024 and 4096 and reassemble to the address.
\<close>

theorem vaddr_split:
  "unat va = unat (pd_no va) * 2 ^ 22 + unat (pt_no va) * 2 ^ 12 + unat (pg_ofs va) \<and>
   pd_no va < 1024 \<and> pt_no va < 1024 \<and> pg_ofs va < PGSIZE"
proof -
  define a b c where "a = unat va div 4096" and "b = unat va div 4194304" and "c = unat va mod 4096"
  have "unat va = 4096 * a + c" by (simp add: a_def c_def)
  moreover have "a = 1024 * b + a mod 1024"
    using mult_div_mod_eq [of 1024 a] by (simp add: a_def b_def flip: div_mult2_eq)
  moreover have "b < 1024" "c < 4096"
    using u32_unat_bound [of va] by (simp_all add: b_def c_def less_mult_imp_div_less)
  moreover have "unat (pd_no va) = b" "unat (pt_no va) = a mod 1024" "unat (pg_ofs va) = c"
    by (simp_all add: unat_pd_no unat_pt_no unat_pg_ofs a_def b_def c_def)
  ultimately show ?thesis
    by (simp add: word_less_nat_alt)
qed

end
