(* ===== verification/Palloc.thy ===== *)
theory Palloc
  imports Bitmap Vaddr "HOL-Library.Signed_Division"
begin

text \<open>
  \<^verbatim>\<open>threads/palloc.c\<close>: the page allocator with its kernel and user pools. The state has both pools
  and the memory they manage, as 32-bit words at word-aligned addresses, since pages are filled on
  allocation and on release. \<open>palloc_get_multiple\<close> searches the bitmap under the lock of its pool,
  which is free again at its end, and \<open>palloc_free_multiple\<close> takes no lock; the lock is left out, and so
  are messages.
\<close>

section \<open>State\<close>

record pool =
  used_map :: bitmap
  base :: u32

record palloc_state =
  kernel_pool :: pool
  user_pool :: pool
  mem :: "u32 \<Rightarrow> u32"

definition PAL_ASSERT :: u32 where "PAL_ASSERT = 1"
definition PAL_ZERO :: u32 where "PAL_ZERO = 2"
definition PAL_USER :: u32 where "PAL_USER = 4"

text \<open>\<^verbatim>\<open>memset\<close> of whole words: \<open>v\<close> is the byte value repeated four times.\<close>

definition memset_words :: "(u32 \<Rightarrow> u32) \<Rightarrow> u32 \<Rightarrow> u32 \<Rightarrow> u32 \<Rightarrow> u32 \<Rightarrow> u32" where
  "memset_words m dst v sz = (\<lambda>a. if unat dst \<le> unat a \<and> unat a < unat dst + unat sz then v else m a)"

section \<open>Operations\<close>

definition init_pool :: "(u32 \<Rightarrow> u32) \<Rightarrow> u32 \<Rightarrow> u32 \<Rightarrow> pool option" where
  "init_pool m start page_cnt = do {
     let bm_pages = DIV_ROUND_UP (bitmap_buf_size page_cnt) PGSIZE;
     c_assert (\<not> bm_pages > page_cnt);
     let page_cnt = page_cnt - bm_pages;
     let buf = map (\<lambda>i. m (start + 8 + 4 * of_nat i)) [0..<unat (bm_pages * PGSIZE) div 4 - 2];
     b \<leftarrow> bitmap_create_in_buf page_cnt buf (bm_pages * PGSIZE);
     Some \<lparr>used_map = b, base = start + bm_pages * PGSIZE\<rparr> }"

definition page_from_pool :: "pool \<Rightarrow> u32 \<Rightarrow> bool" where
  "page_from_pool p page =
     (let page_no = pg_no page;
          start_page = pg_no (base p);
          end_page = start_page + bitmap_size (used_map p)
      in start_page \<le> page_no \<and> page_no < end_page)"

definition palloc_init :: "(u32 \<Rightarrow> u32) \<Rightarrow> u32 \<Rightarrow> u32 \<Rightarrow> palloc_state option" where
  "palloc_init m init_ram_pages user_page_limit = do {
     free_start \<leftarrow> ptov (1024 * 1024);
     free_end \<leftarrow> ptov (init_ram_pages * PGSIZE);
     let free_pages = (word_of_int (sint (free_end - free_start) sdiv 4096) :: u32);
     let user_pages = free_pages div 2;
     let user_pages = (if user_pages > user_page_limit then user_page_limit else user_pages);
     let kernel_pages = free_pages - user_pages;
     kp \<leftarrow> init_pool m free_start kernel_pages;
     up \<leftarrow> init_pool m (free_start + kernel_pages * PGSIZE) user_pages;
     Some \<lparr>kernel_pool = kp, user_pool = up, mem = m\<rparr> }"

definition select_pool :: "bool \<Rightarrow> palloc_state \<Rightarrow> pool" where
  "select_pool user st = (if user then user_pool st else kernel_pool st)"

definition set_used_map :: "bool \<Rightarrow> bitmap \<Rightarrow> palloc_state \<Rightarrow> palloc_state" where
  "set_used_map user b st =
     (if user then st\<lparr>user_pool := (user_pool st)\<lparr>used_map := b\<rparr>\<rparr>
      else st\<lparr>kernel_pool := (kernel_pool st)\<lparr>used_map := b\<rparr>\<rparr>)"

definition palloc_get_multiple :: "u32 \<Rightarrow> u32 \<Rightarrow> palloc_state \<Rightarrow> (palloc_state \<times> u32) option" where
  "palloc_get_multiple flags page_cnt st =
     (let user = (flags AND PAL_USER \<noteq> 0); pool = select_pool user st in
      if page_cnt = 0 then Some (st, 0)
      else do {
        (b, page_idx) \<leftarrow> bitmap_scan_and_flip (used_map pool) 0 page_cnt False;
        let st = set_used_map user b st;
        let pages = (if page_idx \<noteq> BITMAP_ERROR then base pool + PGSIZE * page_idx else 0);
        if pages \<noteq> 0 then
          Some (if flags AND PAL_ZERO \<noteq> 0 then st\<lparr>mem := memset_words (mem st) pages 0 (PGSIZE * page_cnt)\<rparr>
                else st, pages)
        else if flags AND PAL_ASSERT \<noteq> 0 then None
        else Some (st, pages) })"

definition palloc_get_page :: "u32 \<Rightarrow> palloc_state \<Rightarrow> (palloc_state \<times> u32) option" where
  "palloc_get_page flags st = palloc_get_multiple flags 1 st"

definition palloc_free_multiple :: "u32 \<Rightarrow> u32 \<Rightarrow> palloc_state \<Rightarrow> palloc_state option" where
  "palloc_free_multiple pages page_cnt st = do {
     c_assert (pg_ofs pages = 0);
     if pages = 0 \<or> page_cnt = 0 then Some st
     else do {
       user \<leftarrow> (if page_from_pool (kernel_pool st) pages then Some False
               else if page_from_pool (user_pool st) pages then Some True
               else None);
       let pool = select_pool user st;
       let page_idx = pg_no pages - pg_no (base pool);
       let st = st\<lparr>mem := memset_words (mem st) pages 0xcccccccc (PGSIZE * page_cnt)\<rparr>;
       a \<leftarrow> bitmap_all (used_map pool) page_idx page_cnt;
       c_assert a;
       b \<leftarrow> bitmap_set_multiple (used_map pool) page_idx page_cnt False;
       Some (set_used_map user b st) } }"

definition palloc_free_page :: "u32 \<Rightarrow> palloc_state \<Rightarrow> palloc_state option" where
  "palloc_free_page page st = palloc_free_multiple page 1 st"

section \<open>Pages in use\<close>

definition pool_ok :: "pool \<Rightarrow> bool" where
  "pool_ok p \<longleftrightarrow> wf_bitmap (used_map p) \<and> 4096 dvd unat (base p) \<and> 0xc0000000 \<le> unat (base p) \<and>
     unat (base p) + 4096 * unat (bit_cnt (used_map p)) < 2 ^ 32"

definition palloc_ok :: "palloc_state \<Rightarrow> bool" where
  "palloc_ok st \<longleftrightarrow> pool_ok (kernel_pool st) \<and> pool_ok (user_pool st) \<and>
     unat (base (kernel_pool st)) + 4096 * unat (bit_cnt (used_map (kernel_pool st)))
       \<le> unat (base (user_pool st))"

text \<open>The numbers of the pages of a pool, and of those that are handed out.\<close>

definition first_page :: "pool \<Rightarrow> nat" where
  "first_page p = unat (base p) div 4096"

definition pool_range :: "pool \<Rightarrow> nat set" where
  "pool_range p = {first_page p..<first_page p + unat (bit_cnt (used_map p))}"

definition in_use :: "pool \<Rightarrow> nat set" where
  "in_use p = (\<lambda>j. first_page p + j) ` marked (used_map p)"

lemma in_use_subset: "in_use p \<subseteq> pool_range p"
  by (auto simp: in_use_def pool_range_def marked_def)

lemma pools_disjoint: "palloc_ok st \<Longrightarrow> pool_range (kernel_pool st) \<inter> pool_range (user_pool st) = {}"
  by (auto simp: palloc_ok_def pool_ok_def pool_range_def first_page_def elim!: dvdE)

lemma set_used_map_simps [simp]:
  "select_pool u (set_used_map u b st) = (select_pool u st)\<lparr>used_map := b\<rparr>"
  "select_pool (\<not> u) (set_used_map u b st) = select_pool (\<not> u) st"
  "mem (set_used_map u b st) = mem st"
  "set_used_map u (used_map (select_pool u st)) st = st"
  by (simp_all add: select_pool_def set_used_map_def)

lemma palloc_ok_set_used_map:
  "palloc_ok st \<Longrightarrow> wf_bitmap b \<Longrightarrow> bit_cnt b = bit_cnt (used_map (select_pool u st)) \<Longrightarrow>
   palloc_ok (set_used_map u b st)"
  by (auto simp: palloc_ok_def pool_ok_def set_used_map_def select_pool_def)

lemma palloc_ok_select: "palloc_ok st \<Longrightarrow> pool_ok (select_pool u st)"
  by (simp add: palloc_ok_def select_pool_def)

lemma palloc_ok_mem [simp]: "palloc_ok (st\<lparr>mem := m\<rparr>) = palloc_ok st" "select_pool u (st\<lparr>mem := m\<rparr>) = select_pool u st"
  by (simp_all add: palloc_ok_def select_pool_def)

definition page_run :: "u32 \<Rightarrow> u32 \<Rightarrow> nat set" where
  "page_run page cnt = {unat page div 4096..<unat page div 4096 + unat cnt}"

lemma pool_page:
  assumes "pool_ok p" "unat i + unat n \<le> unat (bit_cnt (used_map p))" "0 < n"
  shows "unat (base p + PGSIZE * i) = unat (base p) + 4096 * unat i"
    "page_run (base p + PGSIZE * i) n = (\<lambda>j. first_page p + j) ` run i n"
    "base p + PGSIZE * i \<noteq> 0" "pg_ofs (base p + PGSIZE * i) = 0"
    "pg_no (base p + PGSIZE * i) - pg_no (base p) = i"
proof -
  have b: "4096 dvd unat (base p)" "unat (base p) + 4096 * unat (bit_cnt (used_map p)) < 2 ^ 32"
    "0xc0000000 \<le> unat (base p)"
    using assms(1) by (simp_all add: pool_ok_def)
  have "unat (PGSIZE * i) = 4096 * unat i"
    using b(2) assms(2) by (subst unat_mult_u32) simp_all
  then show sum: "unat (base p + PGSIZE * i) = unat (base p) + 4096 * unat i"
    using b(2) assms(2) by (subst unat_plus_u32) simp_all
  then have "unat (base p + PGSIZE * i) div 4096 = first_page p + unat i"
    by (simp add: first_page_def)
  then show "page_run (base p + PGSIZE * i) n = (\<lambda>j. first_page p + j) ` run i n"
    by (simp add: page_run_def run_def image_add_atLeastLessThan ac_simps)
  show "base p + PGSIZE * i \<noteq> 0" using sum b(3) by auto
  show "pg_ofs (base p + PGSIZE * i) = 0" using sum b(1) by (simp add: pg_ofs_0)
  show "pg_no (base p + PGSIZE * i) - pg_no (base p) = i"
    using sum by (simp add: word_unat_eq_iff unat_sub word_le_nat_alt unat_pg_no)
qed

lemma run_fits:
  assumes "run r n \<subseteq> {..<m}" "0 < n"
  shows "unat r + unat n \<le> m"
proof -
  have "unat r + unat n - 1 \<in> run r n" using assms(2) by (auto simp: run_def word_less_nat_alt)
  then show ?thesis using assms(1) by auto
qed

lemma in_use_marked:
  "in_use (p\<lparr>used_map := b\<rparr>) = (\<lambda>j. first_page p + j) ` marked b"
  by (simp add: in_use_def first_page_def)

lemma image_add_disjoint: "(\<lambda>j. a + j) ` A \<inter> (\<lambda>j. a + j) ` B = {} \<longleftrightarrow> A \<inter> B = {}" for a :: nat
  by auto

lemma palloc_get_multiple_success:
  assumes "palloc_ok st" "0 < n" "run_at (bm (used_map (select_pool u st))) False (unat n) i"
    and u: "u = (flags AND PAL_USER \<noteq> 0)"
  shows "\<exists>st' pages. palloc_get_multiple flags n st = Some (st', pages) \<and> palloc_ok st' \<and>
     pages \<noteq> 0 \<and> pg_ofs pages = 0 \<and>
     page_run pages n \<subseteq> pool_range (select_pool u st) - in_use (select_pool u st) \<and>
     in_use (select_pool u st') = in_use (select_pool u st) \<union> page_run pages n \<and>
     select_pool (\<not> u) st' = select_pool (\<not> u) st \<and>
     mem st' = (if flags AND PAL_ZERO \<noteq> 0 then memset_words (mem st) pages 0 (PGSIZE * n) else mem st)"
proof -
  let ?p = "select_pool u st"
  have p: "pool_ok ?p" using assms(1) by (rule palloc_ok_select)
  then have "wf_bitmap (used_map ?p)" by (simp add: pool_ok_def)
  from bitmap_acquire_marked [OF this assms(2)] obtain b r where
    b: "bitmap_scan_and_flip (used_map ?p) 0 n False = Some (b, r)" "wf_bitmap b"
      "bit_cnt b = bit_cnt (used_map ?p)" and
    r0: "if r = BITMAP_ERROR then b = used_map ?p \<and> (\<forall>i. \<not> run_at (bm (used_map ?p)) False (unat n) i)
       else run r n \<inter> marked (used_map ?p) = {} \<and> marked b = marked (used_map ?p) \<union> run r n \<and>
         run r n \<subseteq> {..<unat (bit_cnt (used_map ?p))}"
    by blast
  have "r \<noteq> BITMAP_ERROR" using r0 assms(3) by auto
  with r0 have r: "r \<noteq> BITMAP_ERROR" "run r n \<inter> marked (used_map ?p) = {}"
      "marked b = marked (used_map ?p) \<union> run r n" "run r n \<subseteq> {..<unat (bit_cnt (used_map ?p))}"
    by simp_all
  have fits: "unat r + unat n \<le> unat (bit_cnt (used_map ?p))"
    using r(4) assms(2) by (rule run_fits)
  note pg = pool_page [OF p fits assms(2)]
  let ?pages = "base ?p + PGSIZE * r"
  let ?st = "set_used_map u b st"
  have "in_use (select_pool u ?st) = in_use ?p \<union> page_run ?pages n"
    unfolding set_used_map_simps in_use_marked r(3) pg(2) image_Un by (simp add: in_use_def)
  moreover have "page_run ?pages n \<subseteq> pool_range ?p - in_use ?p"
    using r(2,4) unfolding pg(2) by (auto simp: in_use_def pool_range_def)
  moreover have "palloc_ok ?st" using assms(1) b(2,3) by (rule palloc_ok_set_used_map)
  ultimately show ?thesis
    using b(1) r(1) pg(3,4) assms(2) unfolding palloc_get_multiple_def u [symmetric] Let_def by auto
qed

lemma palloc_get_multiple_failure:
  assumes "palloc_ok st" "0 < n" "\<And>i. \<not> run_at (bm (used_map (select_pool u st))) False (unat n) i"
    and u: "u = (flags AND PAL_USER \<noteq> 0)"
  shows "palloc_get_multiple flags n st = (if flags AND PAL_ASSERT \<noteq> 0 then None else Some (st, 0))"
proof -
  let ?p = "select_pool u st"
  have "wf_bitmap (used_map ?p)" using palloc_ok_select [OF assms(1)] by (simp add: pool_ok_def)
  from bitmap_scan_and_flip_bm [OF this, of 0 n False] assms(2,3)
  have "bitmap_scan_and_flip (used_map ?p) 0 n False = Some (used_map ?p, BITMAP_ERROR)"
    by (auto simp: scan_result_def split: if_splits)
  then show ?thesis
    using assms(2) unfolding palloc_get_multiple_def u [symmetric] Let_def by auto
qed

lemma page_from_pool_iff:
  assumes "pool_ok p"
  shows "page_from_pool p page \<longleftrightarrow> unat page div 4096 \<in> pool_range p"
proof -
  have "unat (pg_no (base p) + bit_cnt (used_map p)) = first_page p + unat (bit_cnt (used_map p))"
    using assms by (subst unat_plus_u32) (auto simp: unat_pg_no pool_ok_def first_page_def)
  then show ?thesis
    by (simp add: page_from_pool_def Let_def bitmap_size_def pool_range_def word_le_nat_alt
        word_less_nat_alt unat_pg_no first_page_def)
qed

lemma bitmap_all_bm:
  assumes "wf_bitmap b" "unat start + unat cnt \<le> unat (bit_cnt b)"
  shows "bitmap_all b start cnt = Some (run start cnt \<subseteq> marked b)"
  using assms by (auto simp: bitmap_all_def bitmap_contains_bm run_def marked_def)

text \<open>The index of an aligned page in the pool that contains it.\<close>

lemma page_index:
  assumes "pool_ok p" "pg_ofs page = 0" "unat page div 4096 \<in> pool_range p"
  shows "page = base p + PGSIZE * (pg_no page - pg_no (base p))"
    "unat (pg_no page - pg_no (base p)) = unat page div 4096 - first_page p"
proof -
  show idx: "unat (pg_no page - pg_no (base p)) = unat page div 4096 - first_page p"
    using assms(3) by (simp add: pool_range_def first_page_def unat_sub word_le_nat_alt unat_pg_no)
  have d: "4096 dvd unat page" "4096 dvd unat (base p)" "first_page p \<le> unat page div 4096"
    using assms by (auto simp: pg_ofs_0 pool_ok_def pool_range_def)
  then have "unat page = unat (base p) + 4096 * (unat page div 4096 - first_page p)"
    by (auto simp: first_page_def elim!: dvdE)
  moreover have "unat (PGSIZE * (pg_no page - pg_no (base p))) = 4096 * (unat page div 4096 - first_page p)"
    using u32_unat_bound [of page] calculation idx by (subst unat_mult_u32) simp_all
  ultimately show "page = base p + PGSIZE * (pg_no page - pg_no (base p))"
    using u32_unat_bound [of page] by (subst word_unat_eq_iff, subst unat_plus_u32) simp_all
qed

lemma page_run_nonempty: "0 < n \<Longrightarrow> unat page div 4096 \<in> page_run page n"
  by (simp add: page_run_def word_less_nat_alt)

lemma page_run_subset: "0 < n \<Longrightarrow> page_run page n \<subseteq> pool_range p \<Longrightarrow>
    unat page div 4096 + unat n \<le> first_page p + unat (bit_cnt (used_map p))"
  using subsetD [of "page_run page n" "pool_range p" "unat page div 4096 + unat n - 1"]
  by (simp add: page_run_def pool_range_def word_less_nat_alt)

text \<open>
  Releasing pages: the assertions hold exactly when all of them are in use in the pool that
  contains the first one. The pool found is the one that holds the first page, and within it the
  run of pages is a run of bits.
\<close>

definition page_idx_in :: "pool \<Rightarrow> u32 \<Rightarrow> u32" where
  "page_idx_in p page = pg_no page - pg_no (base p)"

lemma palloc_free_body:
  assumes ok: "palloc_ok st" and n: "0 < n" and al: "pg_ofs pages = 0" and nz: "pages \<noteq> 0"
    and pool: "unat pages div 4096 \<in> pool_range (select_pool u st)"
  shows "palloc_free_multiple pages n st = do {
       a \<leftarrow> bitmap_all (used_map (select_pool u st)) (page_idx_in (select_pool u st) pages) n;
       c_assert a;
       b \<leftarrow> bitmap_set_multiple (used_map (select_pool u st)) (page_idx_in (select_pool u st) pages) n False;
       Some (set_used_map u b (st\<lparr>mem := memset_words (mem st) pages 0xcccccccc (PGSIZE * n)\<rparr>)) }"
proof -
  have "(if page_from_pool (kernel_pool st) pages then Some False
       else if page_from_pool (user_pool st) pages then Some True else None) = Some u"
    using pool pools_disjoint [OF ok] ok
    by (cases u) (auto simp: palloc_ok_def page_from_pool_iff select_pool_def)
  moreover have "n \<noteq> 0" using n by auto
  ultimately show ?thesis
    unfolding palloc_free_multiple_def using al nz by (simp add: Let_def page_idx_in_def)
qed

lemma page_run_in_use:
  assumes p: "pool_ok p" and n: "0 < n" and al: "pg_ofs pages = 0"
    and range: "unat pages div 4096 \<in> pool_range p"
    and fits: "unat (page_idx_in p pages) + unat n \<le> unat (bit_cnt (used_map p))"
  shows "page_run pages n = (\<lambda>j. first_page p + j) ` run (page_idx_in p pages) n"
    and "page_run pages n \<subseteq> in_use p \<longleftrightarrow> run (page_idx_in p pages) n \<subseteq> marked (used_map p)"
proof -
  show run: "page_run pages n = (\<lambda>j. first_page p + j) ` run (page_idx_in p pages) n"
    using pool_page(2) [OF p fits n] page_index(1) [OF p al range] by (simp add: page_idx_in_def)
  show "page_run pages n \<subseteq> in_use p \<longleftrightarrow> run (page_idx_in p pages) n \<subseteq> marked (used_map p)"
    unfolding run in_use_def by auto
qed

lemma palloc_free_multiple_in_use:
  assumes ok: "palloc_ok st" and n: "0 < n" and al: "pg_ofs pages = 0" and nz: "pages \<noteq> 0"
    and used: "page_run pages n \<subseteq> in_use (select_pool u st)"
  shows "\<exists>st'. palloc_free_multiple pages n st = Some st' \<and> palloc_ok st' \<and>
        in_use (select_pool u st') = in_use (select_pool u st) - page_run pages n \<and>
        select_pool (\<not> u) st' = select_pool (\<not> u) st \<and>
        mem st' = memset_words (mem st) pages 0xcccccccc (PGSIZE * n)"
proof -
  define p idx where "p = select_pool u st" and "idx = page_idx_in p pages"
  have p: "pool_ok p" "wf_bitmap (used_map p)"
    using palloc_ok_select [OF ok] by (simp_all add: p_def pool_ok_def)
  have sub: "page_run pages n \<subseteq> pool_range p" using used in_use_subset by (auto simp: p_def)
  then have range: "unat pages div 4096 \<in> pool_range p" using page_run_nonempty [OF n] by blast
  have fit: "unat idx + unat n \<le> unat (bit_cnt (used_map p))"
    using page_run_subset [OF n sub] page_index(2) [OF p(1) al range] range
    by (simp add: idx_def page_idx_in_def pool_range_def)
  note run = page_run_in_use [OF p(1) n al range, folded idx_def, OF fit]
  have "run idx n \<subseteq> marked (used_map p)" using used run(2) by (simp add: p_def)
  with bitmap_release_marked [OF p(2) n this] obtain b where
    b: "bitmap_set_multiple (used_map p) idx n False = Some b" "wf_bitmap b"
      "bit_cnt b = bit_cnt (used_map p)" "marked b = marked (used_map p) - run idx n"
      "bitmap_all (used_map p) idx n = Some True"
    using bitmap_all_bm [OF p(2) fit] by auto
  have "in_use (p\<lparr>used_map := b\<rparr>) = in_use p - page_run pages n"
    unfolding in_use_marked b(4) run(1) by (auto simp: in_use_def)
  then show ?thesis
    using b ok palloc_ok_set_used_map [of "st\<lparr>mem := memset_words (mem st) pages 0xcccccccc (PGSIZE * n)\<rparr>" b u]
      palloc_free_body [OF ok n al nz, of u] range
    by (auto simp flip: p_def idx_def)
qed

lemma palloc_free_multiple_not_in_use:
  assumes ok: "palloc_ok st" and n: "0 < n" and al: "pg_ofs pages = 0" and nz: "pages \<noteq> 0"
    and range: "unat pages div 4096 \<in> pool_range (select_pool u st)"
    and used: "\<not> page_run pages n \<subseteq> in_use (select_pool u st)"
  shows "palloc_free_multiple pages n st = None"
proof -
  define p idx where "p = select_pool u st" and "idx = page_idx_in p pages"
  have p: "pool_ok p" "wf_bitmap (used_map p)"
    using palloc_ok_select [OF ok] by (simp_all add: p_def pool_ok_def)
  note body = palloc_free_body [OF ok n al nz range, folded p_def, folded idx_def]
  show ?thesis
  proof (cases "unat idx + unat n \<le> unat (bit_cnt (used_map p))")
    case True
    have "unat pages div 4096 \<in> pool_range p" using range by (simp add: p_def)
    from page_run_in_use(2) [OF p(1) n al this] True used
    have "\<not> run idx n \<subseteq> marked (used_map p)" by (simp add: idx_def p_def)
    then show ?thesis unfolding body using bitmap_all_bm [OF p(2) True] by simp
  next
    case False
    then have "bitmap_set_multiple (used_map p) idx n False = None"
      using bitmap_set_multiple_range [OF p(2)] by (metis option.exhaust)
    then show ?thesis unfolding body by (cases "bitmap_all (used_map p) idx n") (auto simp: c_assert_def)
  qed
qed

section \<open>Initialisation\<close>

lemma unat_DIV_ROUND_UP:
  assumes "unat x + unat k < 2 ^ 32" "0 < unat k"
  shows "unat (DIV_ROUND_UP x k) = (unat x + unat k - 1) div unat k"
proof -
  have "unat (x + k) = unat x + unat k" using assms(1) by (rule unat_plus_u32)
  then have "unat (x + k - 1) = unat x + unat k - 1"
    using assms(2) by (simp add: unat_sub word_le_nat_alt)
  then show ?thesis by (simp add: DIV_ROUND_UP_def unat_div)
qed

lemma unat_elem_cnt: "unat n + 32 < 2 ^ 32 \<Longrightarrow> unat (elem_cnt n) = (unat n + 31) div 32"
  unfolding elem_cnt_def ELEM_BITS_def by (subst unat_DIV_ROUND_UP) simp_all

definition bm_pages_of :: "nat \<Rightarrow> nat" where
  "bm_pages_of n = (8 + 4 * ((n + 31) div 32) + 4095) div 4096"

lemma bm_pages_of_le: "1 \<le> n \<Longrightarrow> bm_pages_of n \<le> n"
proof -
  assume "1 \<le> n"
  then have "8 + 4 * ((n + 31) div 32) + 4095 < Suc n * 4096"
    using div_le_dividend [of "n + 31" 32] unfolding mult_Suc by linarith
  then show ?thesis
    unfolding bm_pages_of_def using less_mult_imp_div_less less_Suc_eq_le by blast
qed

lemma bm_pages_of_enough: "8 + 4 * ((n + 31) div 32) \<le> 4096 * bm_pages_of n"
proof -
  let ?x = "8 + 4 * ((n + 31) div 32)"
  have "?x + 4095 = 4096 * bm_pages_of n + (?x + 4095) mod 4096"
    unfolding bm_pages_of_def by (rule mult_div_mod_eq [symmetric])
  moreover have "(?x + 4095) mod 4096 \<le> 4095" using mod_less_divisor [of 4096 "?x + 4095"] by linarith
  ultimately show ?thesis by linarith
qed

lemma init_pool_ok:
  assumes n: "1 \<le> unat n" "unat n \<le> 2 ^ 18"
  shows "\<exists>p. init_pool m start n = Some p \<and> wf_bitmap (used_map p) \<and> marked (used_map p) = {} \<and>
     unat (bit_cnt (used_map p)) = unat n - bm_pages_of (unat n) \<and>
     base p = start + of_nat (bm_pages_of (unat n)) * PGSIZE"
proof -
  define k K where "k = DIV_ROUND_UP (bitmap_buf_size n) PGSIZE" and "K = bm_pages_of (unat n)"
  have size: "unat (bitmap_buf_size c) = 8 + 4 * ((unat c + 31) div 32)" if "unat c \<le> 2 ^ 18" for c
  proof -
    have e: "unat (elem_cnt c) = (unat c + 31) div 32" "(unat c + 31) div 32 \<le> 8192"
      using that by (simp_all add: unat_elem_cnt)
    then have "unat (4 * elem_cnt c) = 4 * ((unat c + 31) div 32)" by (subst unat_mult_u32) simp_all
    then show ?thesis
      unfolding bitmap_buf_size_def byte_cnt_def using e(2) by (subst unat_plus_u32) simp_all
  qed
  have K: "K \<le> unat n" unfolding K_def using n(1) by (rule bm_pages_of_le)
  have k: "unat k = K"
    unfolding k_def K_def bm_pages_of_def using n size [OF n(2)] by (subst unat_DIV_ROUND_UP) simp_all
  have k4: "unat (k * PGSIZE) = 4096 * K" using k K n by (subst unat_mult_u32) simp_all
  define n' where "n' = n - k"
  have n': "unat n' = unat n - K" unfolding n'_def using k K by (simp add: unat_sub word_le_nat_alt)
  have "unat n' \<le> 2 ^ 18" "unat n' \<le> unat n" using n' n by simp_all
  have fits: "8 + 4 * ((unat n' + 31) div 32) \<le> 4096 * K"
    using bm_pages_of_enough [of "unat n"] div_le_mono [of "unat n' + 31" "unat n + 31" 32] \<open>unat n' \<le> unat n\<close>
    unfolding K_def by linarith
  define buf where "buf = map (\<lambda>i. m (start + 8 + 4 * of_nat i)) [0..<unat (k * PGSIZE) div 4 - 2]"
  have "length (take (unat (elem_cnt n')) buf) = (unat n' + 31) div 32"
    using fits \<open>unat n' \<le> 2 ^ 18\<close> unfolding buf_def k4 by (simp add: unat_elem_cnt)
  then have "wf_bitmap \<lparr>bit_cnt = n', bits = take (unat (elem_cnt n')) buf\<rparr>"
    by (simp add: wf_bitmap_def)
  from bitmap_set_all_bm [OF this, of False] obtain b where
    b: "bitmap_set_all \<lparr>bit_cnt = n', bits = take (unat (elem_cnt n')) buf\<rparr> False = Some b"
      "wf_bitmap b" "bit_cnt b = n'" "bm b = replicate (unat n') False"
    by auto
  have "bitmap_buf_size n' \<le> k * PGSIZE"
    using fits k4 size [OF \<open>unat n' \<le> 2 ^ 18\<close>] by (simp add: word_le_nat_alt)
  moreover have "\<not> n < k" using K k by (simp add: word_less_nat_alt)
  ultimately have "init_pool m start n = Some \<lparr>used_map = b, base = start + k * PGSIZE\<rparr>"
    using b(1) by (simp add: init_pool_def bitmap_create_in_buf_def Let_def flip: PGSIZE_eq k_def n'_def buf_def)
  moreover have "k = of_nat K" by (simp flip: k)
  ultimately show ?thesis
    using b n' by (auto simp: marked_def K_def)
qed

lemma unat_page_addr:
  "unat a + 4096 * k < 2 ^ 32 \<Longrightarrow> unat (a + of_nat k * PGSIZE) = unat a + 4096 * k"
proof -
  assume a: "unat a + 4096 * k < 2 ^ 32"
  then have "unat (of_nat k :: u32) = k" by (simp add: unat_of_nat)
  then have "unat (of_nat k * PGSIZE) = 4096 * k" using a by (subst unat_mult_u32) simp_all
  then show ?thesis using a by (subst unat_plus_u32) simp_all
qed

lemma palloc_init_state:
  assumes "258 \<le> unat ram" "unat ram < 2 ^ 18" "1 \<le> unat limit"
  shows "\<exists>st. palloc_init m ram limit = Some st \<and> palloc_ok st \<and> mem st = m \<and>
     in_use (kernel_pool st) = {} \<and> in_use (user_pool st) = {}"
proof -
  define F U where "F = unat ram - 256" and "U = min (F div 2) (unat limit)"
  define f :: u32 where "f = of_nat F"
  define un where "un = (if limit < f div 2 then limit else f div 2)"
  define kn where "kn = f - un"
  have f: "unat f = F" using assms by (simp add: f_def F_def unat_sub word_le_nat_alt)
  have un: "unat un = U" using f by (auto simp: un_def U_def unat_div word_less_nat_alt)
  have kn: "unat kn = F - U" using f un by (simp add: kn_def unat_sub word_le_nat_alt U_def)
  have bounds: "1 \<le> U" "1 \<le> F - U" "U \<le> F" "F + 256 = unat ram" using assms by (auto simp: U_def F_def)
  have lo: "ptov (1024 * 1024) = Some 0xc0100000" by (simp add: ptov_Some)
  have ram4: "unat (ram * PGSIZE) = 4096 * unat ram" using assms(2) by (subst unat_mult_u32) simp_all
  then have hi: "ptov (ram * PGSIZE) = Some (ram * PGSIZE + 0xc0000000)"
    using assms(2) by (simp add: ptov_Some)
  have d: "unat (ram * PGSIZE + 0xc0000000 - 0xc0100000) = 4096 * F"
  proof -
    have "ram * PGSIZE + 0xc0000000 - 0xc0100000 = ram * PGSIZE - 0x100000" by simp
    then show ?thesis using ram4 assms(1) by (simp add: unat_sub word_le_nat_alt F_def)
  qed
  have fp: "word_of_int (sint (ram * PGSIZE + 0xc0000000 - 0xc0100000) sdiv 4096) = f"
  proof -
    have "sint (ram * PGSIZE + 0xc0000000 - 0xc0100000) = int (4096 * F)"
      using d bounds assms(2) by (subst sint_u32_small) simp_all
    moreover have "int (4096 * F) sdiv 4096 = int F" using bounds by (simp add: signed_divide_int_def)
    ultimately show ?thesis by (simp add: f_def)
  qed
  have n: "1 \<le> unat kn" "unat kn \<le> 2 ^ 18" "1 \<le> unat un" "unat un \<le> 2 ^ 18"
    using bounds kn un assms(2) by simp_all
  obtain kp where kp: "init_pool m 0xc0100000 kn = Some kp" "wf_bitmap (used_map kp)" "marked (used_map kp) = {}"
    "unat (bit_cnt (used_map kp)) = unat kn - bm_pages_of (unat kn)"
    "base kp = 0xc0100000 + of_nat (bm_pages_of (unat kn)) * PGSIZE"
    using init_pool_ok [OF n(1,2)] by blast
  obtain up where up: "init_pool m (0xc0100000 + kn * PGSIZE) un = Some up" "wf_bitmap (used_map up)"
    "marked (used_map up) = {}" "unat (bit_cnt (used_map up)) = unat un - bm_pages_of (unat un)"
    "base up = 0xc0100000 + kn * PGSIZE + of_nat (bm_pages_of (unat un)) * PGSIZE"
    using init_pool_ok [OF n(3,4)] by blast
  have init: "palloc_init m ram limit = Some \<lparr>kernel_pool = kp, user_pool = up, mem = m\<rparr>"
    by (simp only: palloc_init_def lo hi Let_def bind.bind_lunit fp kp(1) up(1) flip: un_def kn_def)
  note le = bm_pages_of_le [OF n(1)] bm_pages_of_le [OF n(3)]
  have "unat (base kp) = 0xc0100000 + 4096 * bm_pages_of (unat kn)"
    unfolding kp(5) using le bounds kn un assms(2) by (subst unat_page_addr) simp_all
  moreover have "unat kn < 2 ^ 18 - 256" using kn bounds assms(2) by linarith
  then have "unat (0xc0100000 + kn * PGSIZE) = 0xc0100000 + 4096 * unat kn"
    using unat_page_addr [of "0xc0100000" "unat kn"] by simp
  then have "unat (base up) = 0xc0100000 + 4096 * unat kn + 4096 * bm_pages_of (unat un)"
    unfolding up(5) using le bounds kn un assms(2) by (subst unat_page_addr) simp_all
  moreover have "unat kn + unat un + 256 = unat ram" using bounds kn un by simp
  ultimately have "palloc_ok \<lparr>kernel_pool = kp, user_pool = up, mem = m\<rparr>"
    using kp(2,4) up(2,4) le assms(2) by (simp add: palloc_ok_def pool_ok_def) (intro conjI; linarith)
  then show ?thesis using init kp(3) up(3) by (simp add: in_use_def)
qed

section \<open>The allocator contract\<close>

text \<open>Each pool, with page numbers for bit numbers, is again an allocator of runs.\<close>

definition pool_acquire :: "bool \<Rightarrow> palloc_state \<Rightarrow> u32 \<Rightarrow> (palloc_state \<times> u32) option" where
  "pool_acquire user st n = do {
     (st, pages) \<leftarrow> palloc_get_multiple (if user then PAL_USER else 0) n st;
     Some (st, if pages = 0 then BITMAP_ERROR else pg_no pages) }"

definition pool_release :: "palloc_state \<Rightarrow> u32 \<Rightarrow> u32 \<Rightarrow> palloc_state option" where
  "pool_release st page n = palloc_free_multiple (page * PGSIZE) n st"

lemma pool_acquire_law:
  assumes "palloc_ok st" "0 < n"
  shows "\<exists>st' r. pool_acquire u st n = Some (st', r) \<and> palloc_ok st' \<and>
      (if r = BITMAP_ERROR then in_use (select_pool u st') = in_use (select_pool u st)
       else run r n \<inter> in_use (select_pool u st) = {} \<and>
         in_use (select_pool u st') = in_use (select_pool u st) \<union> run r n)"
proof -
  let ?fl = "if u then PAL_USER else 0 :: u32"
  have fl: "u = (?fl AND PAL_USER \<noteq> 0)" "?fl AND PAL_ASSERT = 0"
    by (simp_all add: PAL_USER_def PAL_ASSERT_def)
  show ?thesis
  proof (cases "\<exists>i. run_at (bm (used_map (select_pool u st))) False (unat n) i")
    case True
    then obtain st' pages where g: "palloc_get_multiple ?fl n st = Some (st', pages)" "palloc_ok st'"
      "pages \<noteq> 0" "page_run pages n \<subseteq> pool_range (select_pool u st) - in_use (select_pool u st)"
      "in_use (select_pool u st') = in_use (select_pool u st) \<union> page_run pages n"
      using palloc_get_multiple_success [OF assms _ fl(1)] by blast
    have "unat (pg_no pages) < 2 ^ 20"
      using u32_unat_bound [of pages] by (simp add: unat_pg_no less_mult_imp_div_less)
    then have "pg_no pages \<noteq> BITMAP_ERROR" by (auto simp: BITMAP_ERROR_def)
    moreover have "run (pg_no pages) n = page_run pages n"
      by (simp add: run_def page_run_def unat_pg_no)
    ultimately show ?thesis using g by (auto simp: pool_acquire_def)
  next
    case False
    then have "palloc_get_multiple ?fl n st = Some (st, 0)"
      using palloc_get_multiple_failure [OF assms _ fl(1)] fl(2) by auto
    then show ?thesis using assms(1) by (auto simp: pool_acquire_def)
  qed
qed

lemma pool_release_law:
  assumes "palloc_ok st" "0 < n" "run r n \<subseteq> in_use (select_pool u st)"
  shows "\<exists>st'. pool_release st r n = Some st' \<and> palloc_ok st' \<and>
      in_use (select_pool u st') = in_use (select_pool u st) - run r n"
proof -
  have "unat r \<in> pool_range (select_pool u st)"
    using assms(2,3) in_use_subset by (force simp: run_def word_less_nat_alt)
  then have r: "4096 * unat r < 2 ^ 32" "0 < unat r"
    using palloc_ok_select [OF assms(1), of u] by (auto simp: pool_range_def pool_ok_def first_page_def elim!: dvdE)
  then have page: "unat (r * PGSIZE) = 4096 * unat r" by (subst unat_mult_u32) simp_all
  then have "page_run (r * PGSIZE) n = run r n" "pg_ofs (r * PGSIZE) = 0" "r * PGSIZE \<noteq> 0"
    using r(2) by (auto simp: page_run_def run_def pg_ofs_0)
  then show ?thesis
    using palloc_free_multiple_in_use [OF assms(1,2), of "r * PGSIZE" u] assms(3)
    by (auto simp: pool_release_def)
qed

interpretation page_pool: run_allocator palloc_ok "\<lambda>st. in_use (select_pool u st)"
  "pool_acquire u" pool_release for u
  by unfold_locales (blast intro: pool_acquire_law pool_release_law)+

section \<open>Properties\<close>

text \<open>
  C25: booting the allocator. With at least 258 pages of RAM (two more than the first megabyte),
  less than 1 GB, and a nonzero user limit, \<open>palloc_init\<close> does not panic; both pools start
  empty and their page ranges are disjoint.
\<close>

theorem palloc_init_correct:
  assumes "258 \<le> unat ram" "unat ram < 2 ^ 18" "1 \<le> unat limit"
  shows "\<exists>st. palloc_init m ram limit = Some st \<and> palloc_ok st \<and>
     in_use (kernel_pool st) = {} \<and> in_use (user_pool st) = {} \<and>
     pool_range (kernel_pool st) \<inter> pool_range (user_pool st) = {}"
  using palloc_init_state [OF assms] pools_disjoint by blast

theorem palloc_init_correct_witness:
  "\<exists>st. palloc_init (\<lambda>_. 0) 1024 (- 1) = Some st \<and> palloc_ok st \<and>
     in_use (kernel_pool st) = {} \<and> in_use (user_pool st) = {} \<and>
     pool_range (kernel_pool st) \<inter> pool_range (user_pool st) = {}"
  by (rule palloc_init_correct) simp_all

text \<open>
  C6: pages handed out by \<open>palloc_get_multiple\<close> never overlap. From a state in which the pages
  in use of a pool are those of the ledger, every sequence of allocations (of any positive number
  of pages, without \<open>PAL_ASSERT\<close>) and of frees of a block that is in the ledger is served with no
  failed assertion; afterwards the blocks in the ledger are pairwise disjoint and are exactly the
  pages in use.
\<close>

theorem palloc_no_overlap:
  assumes "palloc_ok st" "in_use (select_pool u st) = runs live" "disjoint_runs live"
    "list_all valid_request qs"
  shows "\<exists>st' live'. serve_all (pool_acquire u) pool_release qs (st, live) = Some (st', live') \<and>
     palloc_ok st' \<and> in_use (select_pool u st') = runs live' \<and> disjoint_runs live'"
  using assms by (rule page_pool.no_overlap)

definition example_palloc :: palloc_state where
  "example_palloc =
     \<lparr>kernel_pool = \<lparr>used_map = \<lparr>bit_cnt = 4, bits = [0]\<rparr>, base = 0xc0100000\<rparr>,
      user_pool = \<lparr>used_map = \<lparr>bit_cnt = 3, bits = [4]\<rparr>, base = 0xc0200000\<rparr>, mem = (\<lambda>_. 7)\<rparr>"

lemma example_palloc_ok: "palloc_ok example_palloc"
  by (simp add: palloc_ok_def pool_ok_def wf_bitmap_def example_palloc_def)

theorem palloc_no_overlap_witness:
  "\<exists>st' live'. serve_all (pool_acquire False) pool_release [Acquire 2, Acquire 1, Release 1, Acquire 3]
       (example_palloc, []) = Some (st', live') \<and>
     palloc_ok st' \<and> in_use (select_pool False st') = runs live' \<and> disjoint_runs live'"
  by (rule palloc_no_overlap [OF example_palloc_ok])
    (simp_all add: in_use_def select_pool_def marked_def bm_def example_palloc_def)

text \<open>
  C24: \<open>palloc_free_multiple\<close> detects bad frees. For an aligned, non-null block whose first page
  lies in a pool, it returns if and only if every page of the block is in use in that pool (so a
  double free or a free running past the pool stops the kernel); when it returns, exactly those
  pages are released, the other pool is untouched, and the block is overwritten with \<open>0xcc\<close>.
\<close>

theorem palloc_free_checks:
  assumes "palloc_ok st" "0 < n" "pg_ofs pages = 0" "pages \<noteq> 0"
    "unat pages div 4096 \<in> pool_range (select_pool u st)"
  shows "case palloc_free_multiple pages n st of
      None \<Rightarrow> \<not> page_run pages n \<subseteq> in_use (select_pool u st)
    | Some st' \<Rightarrow> page_run pages n \<subseteq> in_use (select_pool u st) \<and> palloc_ok st' \<and>
        in_use (select_pool u st') = in_use (select_pool u st) - page_run pages n \<and>
        select_pool (\<not> u) st' = select_pool (\<not> u) st \<and>
        mem st' = memset_words (mem st) pages 0xcccccccc (PGSIZE * n)"
  using palloc_free_multiple_in_use [OF assms(1-4), of u] palloc_free_multiple_not_in_use [OF assms]
  by (cases "page_run pages n \<subseteq> in_use (select_pool u st)") auto

theorem palloc_free_checks_witness:
  "case palloc_free_multiple 0xc0202000 1 example_palloc of
      None \<Rightarrow> \<not> page_run 0xc0202000 1 \<subseteq> in_use (select_pool True example_palloc)
    | Some st' \<Rightarrow> page_run 0xc0202000 1 \<subseteq> in_use (select_pool True example_palloc) \<and> palloc_ok st' \<and>
        in_use (select_pool True st') = in_use (select_pool True example_palloc) - page_run 0xc0202000 1 \<and>
        select_pool (\<not> True) st' = select_pool (\<not> True) example_palloc \<and>
        mem st' = memset_words (mem example_palloc) 0xc0202000 0xcccccccc (PGSIZE * 1)"
  by (rule palloc_free_checks [OF example_palloc_ok])
    (simp_all add: pg_ofs_0 pool_range_def first_page_def select_pool_def example_palloc_def)

end
