(* ===== verification/Pagedir.thy ===== *)
theory Pagedir
  imports Palloc
begin

text \<open>
  \<^verbatim>\<open>userprog/pagedir.c\<close>: two-level page tables kept in kernel pages. The tables are words of the
  memory in the page allocator's state, so that a directory, its page tables and every other page
  share one address space and the proofs have to show that they do not overlap.
\<close>

section \<open>State\<close>

text \<open>
  \<open>cr3\<close> is the page directory base register. Reloading it flushes the translation cache, which
  has no other trace in the model.
\<close>

record pd_state =
  pal :: palloc_state
  init_page_dir :: u32
  init_ram_pages :: u32
  cr3 :: u32

abbreviation rd :: "pd_state \<Rightarrow> u32 \<Rightarrow> u32" where
  "rd st a \<equiv> mem (pal st) a"

definition wr :: "pd_state \<Rightarrow> u32 \<Rightarrow> u32 \<Rightarrow> pd_state" where
  "wr st a v = st\<lparr>pal := (pal st)\<lparr>mem := (mem (pal st))(a := v)\<rparr>\<rparr>"

section \<open>Operations\<close>

text \<open>\<^verbatim>\<open>memcpy\<close> of \<open>n\<close> words.\<close>

definition memcpy_words :: "(u32 \<Rightarrow> u32) \<Rightarrow> u32 \<Rightarrow> u32 \<Rightarrow> u32 \<Rightarrow> u32 \<Rightarrow> u32" where
  "memcpy_words m dst src sz =
     (\<lambda>a. if unat dst \<le> unat a \<and> unat a < unat dst + unat sz then m (src + (a - dst)) else m a)"

definition pagedir_create :: "pd_state \<Rightarrow> (pd_state \<times> u32) option" where
  "pagedir_create st = do {
     (p, pd) \<leftarrow> palloc_get_page 0 (pal st);
     let p = (if pd \<noteq> 0 then p\<lparr>mem := memcpy_words (mem p) pd (init_page_dir st) PGSIZE\<rparr> else p);
     Some (st\<lparr>pal := p\<rparr>, pd) }"

definition pagedir_activate :: "u32 \<Rightarrow> pd_state \<Rightarrow> pd_state option" where
  "pagedir_activate pd st = do {
     let pd = (if pd = 0 then init_page_dir st else pd);
     p \<leftarrow> vtop pd;
     Some (st\<lparr>cr3 := p\<rparr>) }"

definition active_pd :: "pd_state \<Rightarrow> u32 option" where
  "active_pd st = ptov (cr3 st)"

definition invalidate_pagedir :: "u32 \<Rightarrow> pd_state \<Rightarrow> pd_state option" where
  "invalidate_pagedir pd st = do {
     a \<leftarrow> active_pd st;
     if a = pd then pagedir_activate pd st else Some st }"

text \<open>
  The loop over the entries of each page table has an empty body in the source (the call that
  would free the pages is commented out), so only the page tables are freed.
\<close>

primrec pagedir_destroy_loop :: "nat \<Rightarrow> u32 \<Rightarrow> pd_state \<Rightarrow> pd_state option" where
  "pagedir_destroy_loop 0 pde st = Some st"
| "pagedir_destroy_loop (Suc n) pde st = do {
     st \<leftarrow> (if rd st pde AND PTE_P \<noteq> 0 then do {
             pt \<leftarrow> pde_get_pt (rd st pde);
             p \<leftarrow> palloc_free_page pt (pal st);
             Some (st\<lparr>pal := p\<rparr>) }
           else Some st);
     pagedir_destroy_loop n (pde + 4) st }"

definition pagedir_destroy :: "u32 \<Rightarrow> pd_state \<Rightarrow> pd_state option" where
  "pagedir_destroy pd st =
     (if pd = 0 then Some st
      else do {
        c_assert (pd \<noteq> init_page_dir st);
        st \<leftarrow> pagedir_destroy_loop (unat (pd_no PHYS_BASE)) pd st;
        p \<leftarrow> palloc_free_page pd (pal st);
        Some (st\<lparr>pal := p\<rparr>) })"

text \<open>The result is the address of the entry; 0 is a null pointer.\<close>

definition lookup_page :: "u32 \<Rightarrow> u32 \<Rightarrow> bool \<Rightarrow> pd_state \<Rightarrow> (pd_state \<times> u32) option" where
  "lookup_page pd vaddr create st = do {
     c_assert (pd \<noteq> 0);
     c_assert (\<not> create \<or> is_user_vaddr vaddr);
     let pde = pd + 4 * pd_no vaddr;
     (st, ok) \<leftarrow>
       (if rd st pde = 0 then
          (if create then do {
             (p, pt) \<leftarrow> palloc_get_page PAL_ZERO (pal st);
             let st = st\<lparr>pal := p\<rparr>;
             if pt = 0 then Some (st, False)
             else do {
               e \<leftarrow> pde_create pt;
               Some (wr st pde e, True) } }
           else Some (st, False))
        else Some (st, True));
     if ok then do {
       pt \<leftarrow> pde_get_pt (rd st pde);
       Some (st, pt + 4 * pt_no vaddr) }
     else Some (st, 0) }"

definition pagedir_set_page :: "u32 \<Rightarrow> u32 \<Rightarrow> u32 \<Rightarrow> bool \<Rightarrow> pd_state \<Rightarrow> (pd_state \<times> bool) option" where
  "pagedir_set_page pd upage kpage writable st = do {
     c_assert (pg_ofs upage = 0);
     c_assert (pg_ofs kpage = 0);
     c_assert (is_user_vaddr upage);
     p \<leftarrow> vtop kpage;
     c_assert (drop_bit PTSHIFT p < init_ram_pages st);
     c_assert (pd \<noteq> init_page_dir st);
     (st, pte) \<leftarrow> lookup_page pd upage True st;
     if pte \<noteq> 0 then do {
       c_assert (rd st pte AND PTE_P = 0);
       e \<leftarrow> pte_create_user kpage writable;
       Some (wr st pte e, True) }
     else Some (st, False) }"

definition pagedir_get_page :: "u32 \<Rightarrow> u32 \<Rightarrow> pd_state \<Rightarrow> u32 option" where
  "pagedir_get_page pd uaddr st = do {
     c_assert (is_user_vaddr uaddr);
     (st, pte) \<leftarrow> lookup_page pd uaddr False st;
     if pte \<noteq> 0 \<and> rd st pte AND PTE_P \<noteq> 0 then do {
       page \<leftarrow> pte_get_page (rd st pte);
       Some (page + pg_ofs uaddr) }
     else Some 0 }"

definition pagedir_clear_page :: "u32 \<Rightarrow> u32 \<Rightarrow> pd_state \<Rightarrow> pd_state option" where
  "pagedir_clear_page pd upage st = do {
     c_assert (pg_ofs upage = 0);
     c_assert (is_user_vaddr upage);
     (st, pte) \<leftarrow> lookup_page pd upage False st;
     if pte \<noteq> 0 \<and> rd st pte AND PTE_P \<noteq> 0
     then invalidate_pagedir pd (wr st pte (rd st pte AND NOT PTE_P))
     else Some st }"

definition pagedir_is_dirty :: "u32 \<Rightarrow> u32 \<Rightarrow> pd_state \<Rightarrow> bool option" where
  "pagedir_is_dirty pd vpage st = do {
     (st, pte) \<leftarrow> lookup_page pd vpage False st;
     Some (pte \<noteq> 0 \<and> rd st pte AND PTE_D \<noteq> 0) }"

definition pagedir_set_dirty :: "u32 \<Rightarrow> u32 \<Rightarrow> bool \<Rightarrow> pd_state \<Rightarrow> pd_state option" where
  "pagedir_set_dirty pd vpage dirty st = do {
     (st, pte) \<leftarrow> lookup_page pd vpage False st;
     if pte \<noteq> 0 then
       (if dirty then Some (wr st pte (rd st pte OR PTE_D))
        else invalidate_pagedir pd (wr st pte (rd st pte AND NOT PTE_D)))
     else Some st }"

definition pagedir_is_accessed :: "u32 \<Rightarrow> u32 \<Rightarrow> pd_state \<Rightarrow> bool option" where
  "pagedir_is_accessed pd vpage st = do {
     (st, pte) \<leftarrow> lookup_page pd vpage False st;
     Some (pte \<noteq> 0 \<and> rd st pte AND PTE_A \<noteq> 0) }"

definition pagedir_set_accessed :: "u32 \<Rightarrow> u32 \<Rightarrow> bool \<Rightarrow> pd_state \<Rightarrow> pd_state option" where
  "pagedir_set_accessed pd vpage accessed st = do {
     (st, pte) \<leftarrow> lookup_page pd vpage False st;
     if pte \<noteq> 0 then
       (if accessed then Some (wr st pte (rd st pte OR PTE_A))
        else invalidate_pagedir pd (wr st pte (rd st pte AND NOT PTE_A)))
     else Some st }"

section \<open>Well-formed directories\<close>

definition page_of :: "u32 \<Rightarrow> nat" where
  "page_of a = unat a div 4096"

text \<open>The page table that slot \<open>i\<close> of the directory points to.\<close>

definition slot :: "pd_state \<Rightarrow> u32 \<Rightarrow> u32 \<Rightarrow> u32" where
  "slot st pd i = rd st (pd + 4 * i)"

definition table :: "pd_state \<Rightarrow> u32 \<Rightarrow> u32 \<Rightarrow> u32 option" where
  "table st pd i = (if slot st pd i = 0 then None else pde_get_pt (slot st pd i))"

definition kernel_page :: "pd_state \<Rightarrow> u32 \<Rightarrow> bool" where
  "kernel_page st p \<longleftrightarrow> pg_ofs p = 0 \<and> is_kernel_vaddr p \<and> page_of p \<in> in_use (kernel_pool (pal st))"

text \<open>
  The directory and its user page tables are allocated kernel pages, all different, and every
  nonzero user slot is present.
\<close>

definition wf_pd :: "pd_state \<Rightarrow> u32 \<Rightarrow> bool" where
  "wf_pd st pd \<longleftrightarrow> palloc_ok (pal st) \<and> kernel_page st pd \<and> pd \<noteq> init_page_dir st \<and>
     (\<exists>a. ptov (cr3 st) = Some a) \<and>
     (\<forall>i < 768. slot st pd i \<noteq> 0 \<longrightarrow>
        (\<exists>pt. table st pd i = Some pt \<and> kernel_page st pt \<and> pt \<noteq> pd)) \<and>
     (\<forall>i < 768. \<forall>j < 768. \<forall>pt. table st pd i = Some pt \<longrightarrow> table st pd j = Some pt \<longrightarrow> i = j)"

text \<open>The page table entry for a user address, 0 where there is no page table.\<close>

definition entry :: "pd_state \<Rightarrow> u32 \<Rightarrow> u32 \<Rightarrow> u32" where
  "entry st pd va = (case table st pd (pd_no va) of None \<Rightarrow> 0 | Some pt \<Rightarrow> rd st (pt + 4 * pt_no va))"

lemma word_in_page:
  assumes "pg_ofs p = 0" "j < 1024"
  shows "unat (p + 4 * j) = unat p + 4 * unat j" "page_of (p + 4 * j) = page_of p"
proof -
  have p: "4096 dvd unat p" using assms(1) by (simp add: pg_ofs_0)
  have j: "unat j < 1024" using assms(2) by (simp add: word_less_nat_alt)
  then have j4: "unat (4 * j) = 4 * unat j" by (subst unat_mult_u32) simp_all
  have "unat p + 4096 \<le> 2 ^ 32"
  proof -
    obtain k where "unat p = 4096 * k" using p by (elim dvdE)
    then show ?thesis using u32_unat_bound [of p] by simp
  qed
  then show u: "unat (p + 4 * j) = unat p + 4 * unat j"
    using j j4 by (subst unat_plus_u32) simp_all
  obtain k where k: "unat p = 4096 * k" using p by (elim dvdE)
  have "(4096 * k + 4 * unat j) div 4096 = k" using j by (intro div_nat_eqI) auto
  then show "page_of (p + 4 * j) = page_of p" by (simp add: page_of_def u k)
qed

lemma same_page: "pg_ofs p = 0 \<Longrightarrow> page_of a = page_of p \<longleftrightarrow> unat p \<le> unat a \<and> unat a < unat p + 4096"
  unfolding page_of_def pg_ofs_0
proof (elim dvdE)
  fix k assume k: "unat p = 4096 * k"
  have "unat a = 4096 * (unat a div 4096) + unat a mod 4096" "unat a mod 4096 < 4096" by simp_all
  then have "unat a div 4096 = k \<longleftrightarrow> 4096 * k \<le> unat a \<and> unat a < 4096 * k + 4096"
    by (metis add_le_cancel_left div_nat_eqI le_add1 mult.commute mult_Suc add.commute nat_add_left_cancel_less)
  then show "(unat a div 4096 = unat p div 4096) = (unat p \<le> unat a \<and> unat a < unat p + 4096)"
    by (simp add: k)
qed

lemma page_of_eq: "pg_ofs p = 0 \<Longrightarrow> pg_ofs q = 0 \<Longrightarrow> page_of p = page_of q \<longleftrightarrow> p = q"
  unfolding pg_ofs_0 by (auto simp: page_of_def word_unat_eq_iff elim!: dvdE)

lemma same_word:
  assumes "pg_ofs p = 0" "pg_ofs q = 0" "i < 1024" "j < 1024"
  shows "p + 4 * i = q + 4 * j \<longleftrightarrow> p = q \<and> i = j"
proof
  assume eq: "p + 4 * i = q + 4 * j"
  then have "page_of p = page_of q" using word_in_page(2) assms by metis
  then have "p = q" using page_of_eq assms by blast
  then show "p = q \<and> i = j"
    using eq word_in_page(1) [OF assms(1,3)] word_in_page(1) [OF assms(2,4)] by (simp add: word_unat_eq_iff)
qed simp

lemma user_pd_no: "is_user_vaddr va \<Longrightarrow> pd_no va < 768"
  by (simp add: is_user_vaddr_def PHYS_BASE_def word_less_nat_alt unat_pd_no less_mult_imp_div_less)

lemma index_lt [simp]: "pt_no va < 1024"
  by (simp add: word_less_nat_alt unat_pt_no)

lemma slot_lt: "(i :: u32) < 768 \<Longrightarrow> i < 1024"
  by (simp add: word_less_nat_alt)

lemma kernel_word_nonzero: "kernel_page st pt \<Longrightarrow> j < 1024 \<Longrightarrow> pt + 4 * j \<noteq> 0"
  using word_in_page(1) [of pt j] by (auto simp: kernel_page_def is_kernel_vaddr_def PHYS_BASE_def word_le_nat_alt)

lemma rd_wr [simp]: "rd (wr st a v) b = (if b = a then v else rd st b)"
  by (simp add: wr_def)

lemma wr_simps [simp]:
  "kernel_page (wr st a v) = kernel_page st" "init_page_dir (wr st a v) = init_page_dir st"
  "cr3 (wr st a v) = cr3 st" "init_ram_pages (wr st a v) = init_ram_pages st"
  "palloc_ok (pal (wr st a v)) = palloc_ok (pal st)"
  "kernel_pool (pal (wr st a v)) = kernel_pool (pal st)"
  "user_pool (pal (wr st a v)) = user_pool (pal st)"
  by (auto simp: wr_def kernel_page_def fun_eq_iff)

lemma wf_pd_table:
  assumes "wf_pd st pd" "i < 768" "table st pd i = Some pt"
  shows "kernel_page st pt" "pt \<noteq> pd" "page_of pt \<noteq> page_of pd"
proof -
  have "slot st pd i \<noteq> 0" using assms(3) by (auto simp: table_def split: if_splits)
  then show k: "kernel_page st pt" "pt \<noteq> pd" using assms by (auto simp: wf_pd_def)
  then show "page_of pt \<noteq> page_of pd"
    using page_of_eq [of pt pd] assms(1) by (simp add: wf_pd_def kernel_page_def)
qed

lemma wf_pd_slot: "wf_pd st pd \<Longrightarrow> i < 768 \<Longrightarrow> table st pd i = None \<Longrightarrow> slot st pd i = 0"
  by (auto simp: wf_pd_def)

lemma wf_pd_D:
  assumes "wf_pd st pd"
  shows "palloc_ok (pal st)" "kernel_page st pd" "pg_ofs pd = 0" "pd \<noteq> 0" "pd \<noteq> init_page_dir st"
  using assms by (auto simp: wf_pd_def kernel_page_def is_kernel_vaddr_def PHYS_BASE_def)

subsection \<open>Looking up without creating\<close>

definition pte_addr :: "pd_state \<Rightarrow> u32 \<Rightarrow> u32 \<Rightarrow> u32" where
  "pte_addr st pd va = (case table st pd (pd_no va) of None \<Rightarrow> 0 | Some pt \<Rightarrow> pt + 4 * pt_no va)"

lemma lookup_page_plain:
  assumes "wf_pd st pd" "is_user_vaddr va"
  shows "lookup_page pd va False st = Some (st, pte_addr st pd va)"
proof (cases "table st pd (pd_no va)")
  case None
  then show ?thesis
    using wf_pd_slot [OF assms(1) user_pd_no [OF assms(2)]] wf_pd_D(4) [OF assms(1)]
    by (simp add: lookup_page_def pte_addr_def slot_def Let_def)
next
  case (Some pt)
  then show ?thesis
    using wf_pd_D(4) [OF assms(1)]
    by (auto simp: lookup_page_def pte_addr_def slot_def Let_def table_def split: if_splits)
qed

lemma pte_addr_0: "wf_pd st pd \<Longrightarrow> is_user_vaddr va \<Longrightarrow> pte_addr st pd va = 0 \<longleftrightarrow> table st pd (pd_no va) = None"
  using wf_pd_table(1) [of st pd "pd_no va"] kernel_word_nonzero user_pd_no
  by (auto simp: pte_addr_def split: option.split)

lemma rd_pte_addr: "pte_addr st pd va \<noteq> 0 \<Longrightarrow> rd st (pte_addr st pd va) = entry st pd va"
  by (auto simp: pte_addr_def entry_def split: option.splits)

lemma entry_0: "wf_pd st pd \<Longrightarrow> is_user_vaddr va \<Longrightarrow> pte_addr st pd va = 0 \<Longrightarrow> entry st pd va = 0"
  by (simp add: pte_addr_0 entry_def)

subsection \<open>Writing an entry\<close>

definition same_upage :: "u32 \<Rightarrow> u32 \<Rightarrow> bool" where
  "same_upage va vb \<longleftrightarrow> pg_no va = pg_no vb"

lemma same_upage_iff: "same_upage va vb \<longleftrightarrow> pd_no va = pd_no vb \<and> pt_no va = pt_no vb"
proof -
  have A: "m = n" if "m div 1024 = n div 1024" "m mod 1024 = n mod 1024" for m n :: nat
    using that by (metis div_mult_mod_eq)
  have "unat w div 4194304 = unat w div 4096 div 1024" for w :: u32
    by (simp flip: div_mult2_eq)
  then have "unat va div 4096 = unat vb div 4096 \<longleftrightarrow>
      unat va div 4194304 = unat vb div 4194304 \<and> unat va div 4096 mod 1024 = unat vb div 4096 mod 1024"
    using A [of "unat va div 4096" "unat vb div 4096"] by metis
  then show ?thesis
    by (simp add: same_upage_def word_unat_eq_iff unat_pg_no unat_pd_no unat_pt_no)
qed

lemma entry_same: "same_upage vb va \<Longrightarrow> entry st pd vb = entry st pd va"
  by (auto simp: same_upage_iff entry_def split: option.split)

lemma wr_entry:
  assumes wf: "wf_pd st pd" and user: "is_user_vaddr va" and present: "pte_addr st pd va \<noteq> 0"
  shows "wf_pd (wr st (pte_addr st pd va) v) pd"
    and "is_user_vaddr vb \<Longrightarrow> entry (wr st (pte_addr st pd va) v) pd vb =
           (if same_upage vb va then v else entry st pd vb)"
    and "is_user_vaddr vb \<Longrightarrow> pte_addr (wr st (pte_addr st pd va) v) pd vb = pte_addr st pd vb"
proof -
  obtain pt where pt: "table st pd (pd_no va) = Some pt" "pte_addr st pd va = pt + 4 * pt_no va"
    using present by (auto simp: pte_addr_def split: option.splits)
  note i = user_pd_no [OF user]
  note ptk = wf_pd_table [OF wf i pt(1)]
  let ?st = "wr st (pte_addr st pd va) v"
  have pd: "pg_ofs pd = 0" "pg_ofs pt = 0" using wf_pd_D(3) [OF wf] ptk(1) by (auto simp: kernel_page_def)
  have slot: "slot ?st pd k = slot st pd k" if "k < 1024" for k
    using same_word [OF pd that index_lt [of va]] ptk(2) by (auto simp: slot_def pt(2))
  have table: "table ?st pd k = table st pd k" if "k < 768" for k
    using slot [OF slot_lt [OF that]] by (simp add: table_def)
  show "wf_pd ?st pd"
    using wf slot table by (auto simp: wf_pd_def slot_lt)
  show "entry ?st pd vb = (if same_upage vb va then v else entry st pd vb)" if vb: "is_user_vaddr vb"
  proof (cases "table st pd (pd_no vb)")
    case None
    then show ?thesis using table [OF user_pd_no [OF vb]] pt(1) by (auto simp: entry_def same_upage_iff)
  next
    case (Some pt')
    have k: "kernel_page st pt'" using wf_pd_table(1) [OF wf user_pd_no [OF vb] Some] .
    have "pt' = pt \<longleftrightarrow> pd_no vb = pd_no va"
      using wf Some pt(1) user_pd_no [OF vb] i by (auto simp: wf_pd_def)
    then show ?thesis
      using Some table [OF user_pd_no [OF vb]] same_word [of pt' pt "pt_no vb" "pt_no va"] k pd(2)
      by (auto simp: entry_def same_upage_iff pt(2) kernel_page_def)
  qed
  show "pte_addr ?st pd vb = pte_addr st pd vb" if "is_user_vaddr vb"
    using table [OF user_pd_no [OF that]] by (simp add: pte_addr_def)
qed

subsection \<open>Creating a page table\<close>

lemma palloc_get_page_cases:
  assumes "palloc_ok p" "flags AND PAL_USER = 0" "flags AND PAL_ASSERT = 0"
  shows "palloc_get_page flags p = Some (p, 0) \<or>
    (\<exists>p' page. palloc_get_page flags p = Some (p', page) \<and> palloc_ok p' \<and> pg_ofs page = 0 \<and>
       is_kernel_vaddr page \<and> page_of page \<notin> in_use (kernel_pool p) \<and>
       in_use (kernel_pool p') = insert (page_of page) (in_use (kernel_pool p)) \<and>
       user_pool p' = user_pool p \<and>
       mem p' = (\<lambda>a. if flags AND PAL_ZERO \<noteq> 0 \<and> page_of a = page_of page then 0 else mem p a))"
proof (cases "\<exists>i. run_at (bm (used_map (select_pool False p))) False (unat (1 :: u32)) i")
  case True
  then obtain i where i: "run_at (bm (used_map (select_pool False p))) False (unat (1 :: u32)) i" by blast
  have u: "False = (flags AND PAL_USER \<noteq> 0)" using assms(2) by simp
  obtain p' page where g: "palloc_get_multiple flags 1 p = Some (p', page)" "palloc_ok p'" "pg_ofs page = 0"
     "page_run page 1 \<subseteq> pool_range (select_pool False p) - in_use (select_pool False p)"
     "in_use (select_pool False p') = in_use (select_pool False p) \<union> page_run page 1"
     "select_pool (\<not> False) p' = select_pool (\<not> False) p"
     "mem p' = (if flags AND PAL_ZERO \<noteq> 0 then memset_words (mem p) page 0 (PGSIZE * 1) else mem p)"
    using palloc_get_multiple_success [OF assms(1) _ i u] by auto
  have run: "page_run page 1 = {page_of page}" by (simp add: page_run_def page_of_def)
  have "mem p' = (\<lambda>a. if flags AND PAL_ZERO \<noteq> 0 \<and> page_of a = page_of page then 0 else mem p a)"
    using g(7) same_page [OF g(3)] by (auto simp: memset_words_def fun_eq_iff)
  moreover have "is_kernel_vaddr page"
    using g(4) palloc_ok_select [OF assms(1), of False]
    by (auto simp: run pool_range_def pool_ok_def first_page_def page_of_def is_kernel_vaddr_def PHYS_BASE_def
        word_le_nat_alt)
  ultimately show ?thesis
    using g run by (auto simp: palloc_get_page_def select_pool_def)
next
  case False
  then show ?thesis
    using palloc_get_multiple_failure [OF assms(1), of 1 False flags] assms(2,3) by (auto simp: palloc_get_page_def)
qed

lemma new_table:
  assumes wf: "wf_pd st pd" and user: "is_user_vaddr va" and none: "table st pd (pd_no va) = None"
    and p': "palloc_ok p'" "pg_ofs pt = 0" "is_kernel_vaddr pt" "page_of pt \<notin> in_use (kernel_pool (pal st))"
      "in_use (kernel_pool p') = insert (page_of pt) (in_use (kernel_pool (pal st)))"
      "mem p' = (\<lambda>a. if page_of a = page_of pt then 0 else rd st a)"
    and e: "pde_create pt = Some e" "pde_get_pt e = Some pt" "e \<noteq> 0"
  defines "st' \<equiv> wr (st\<lparr>pal := p'\<rparr>) (pd + 4 * pd_no va) e"
  shows "wf_pd st' pd" "table st' pd (pd_no va) = Some pt"
    "is_user_vaddr vb \<Longrightarrow> entry st' pd vb = entry st pd vb"
proof -
  note i = user_pd_no [OF user]
  have pd: "kernel_page st pd" "pg_ofs pd = 0" using wf_pd_D [OF wf] by simp_all
  then have "page_of pt \<noteq> page_of pd" using p'(4) by (auto simp: kernel_page_def)
  then have slot: "slot st' pd k = (if k = pd_no va then e else slot st pd k)" if "k < 1024" for k
    using that same_word [OF pd(2,2) that slot_lt [OF i]] word_in_page(2) [OF pd(2) that]
    by (auto simp: slot_def st'_def p'(6))
  then have table: "table st' pd k = (if k = pd_no va then Some pt else table st pd k)" if "k < 768" for k
    using slot_lt [OF that] e by (auto simp: table_def)
  have kernel: "kernel_page st' q \<longleftrightarrow> kernel_page st q \<or> q = pt" for q
    using p'(2-5) page_of_eq [of q pt] by (auto simp: kernel_page_def st'_def)
  have old: "kernel_page st q \<Longrightarrow> page_of q \<noteq> page_of pt" for q
    using p'(4) by (auto simp: kernel_page_def)
  show "table st' pd (pd_no va) = Some pt" using table [OF i] by simp
  have "pt \<noteq> pd" using \<open>page_of pt \<noteq> page_of pd\<close> by auto
  have tab: "kernel_page st q \<and> q \<noteq> pd \<and> q \<noteq> pt" if "k < 768" "table st pd k = Some q" for k q
    using wf_pd_table [OF wf that] old by auto
  show "wf_pd st' pd"
    unfolding wf_pd_def
  proof (intro conjI allI impI)
    show "palloc_ok (pal st')" "\<exists>a. ptov (cr3 st') = Some a" "pd \<noteq> init_page_dir st'"
      using p'(1) wf by (auto simp: st'_def wf_pd_def)
    show "kernel_page st' pd" using pd(1) by (simp add: kernel)
    show "\<exists>pt. table st' pd k = Some pt \<and> kernel_page st' pt \<and> pt \<noteq> pd"
      if "k < 768" "slot st' pd k \<noteq> 0" for k
      using that slot [OF slot_lt [OF that(1)]] table [OF that(1)] wf \<open>pt \<noteq> pd\<close>
      by (auto simp: kernel wf_pd_def split: if_splits)
    show "k = j" if "k < 768" "j < 768" "table st' pd k = Some q" "table st' pd j = Some q" for k j q
      using that table [OF that(1)] table [OF that(2)] wf tab
      by (auto simp: wf_pd_def split: if_splits)
  qed
  show "entry st' pd vb = entry st pd vb" if vb: "is_user_vaddr vb"
  proof (cases "pd_no vb = pd_no va")
    case True
    have "page_of (pt + 4 * pt_no vb) = page_of pt" using word_in_page(2) [OF p'(2) index_lt] .
    moreover have "pt + 4 * pt_no vb \<noteq> pd + 4 * pd_no va"
      using same_word [OF p'(2) pd(2) index_lt slot_lt [OF i]] \<open>pt \<noteq> pd\<close> by simp
    ultimately show ?thesis
      using True table [OF i] none by (simp add: entry_def st'_def p'(6))
  next
    case False
    show ?thesis
    proof (cases "table st pd (pd_no vb)")
      case (Some q)
      note q = tab [OF user_pd_no [OF vb] Some]
      then have "pg_ofs q = 0" by (simp add: kernel_page_def)
      then show ?thesis
        using False Some table [OF user_pd_no [OF vb]] word_in_page(2) [of q "pt_no vb"] q old [of q]
          same_word [of q pd "pt_no vb" "pd_no va"] pd(2) slot_lt [OF i]
        by (auto simp: entry_def st'_def p'(6))
    qed (use False table [OF user_pd_no [OF vb]] in \<open>simp add: entry_def\<close>)
  qed
qed

lemma lookup_page_create:
  assumes wf: "wf_pd st pd" and user: "is_user_vaddr va"
  shows "lookup_page pd va True st = Some (st, 0) \<and> pte_addr st pd va = 0 \<or>
    (\<exists>st'. lookup_page pd va True st = Some (st', pte_addr st' pd va) \<and> wf_pd st' pd \<and>
       pte_addr st' pd va \<noteq> 0 \<and> init_ram_pages st' = init_ram_pages st \<and> init_page_dir st' = init_page_dir st \<and>
       cr3 st' = cr3 st \<and> user_pool (pal st') = user_pool (pal st) \<and>
       (\<forall>vb. is_user_vaddr vb \<longrightarrow> entry st' pd vb = entry st pd vb))"
proof (cases "table st pd (pd_no va)")
  case (Some pt)
  then have "slot st pd (pd_no va) \<noteq> 0" by (auto simp: table_def split: if_splits)
  then have "lookup_page pd va True st = Some (st, pte_addr st pd va)"
    using Some user wf_pd_D(4) [OF wf] by (simp add: lookup_page_def pte_addr_def slot_def Let_def table_def)
  then show ?thesis using Some pte_addr_0 [OF wf user] wf by auto
next
  case None
  note i = user_pd_no [OF user]
  have free: "slot st pd (pd_no va) = 0" using wf_pd_slot [OF wf i None] .
  have fl: "PAL_ZERO AND PAL_USER = 0" "PAL_ZERO AND PAL_ASSERT = 0" "PAL_ZERO \<noteq> 0"
    by (simp_all add: PAL_ZERO_def PAL_USER_def PAL_ASSERT_def)
  consider "palloc_get_page PAL_ZERO (pal st) = Some (pal st, 0)"
    | p' pt where "palloc_get_page PAL_ZERO (pal st) = Some (p', pt)" "palloc_ok p'" "pg_ofs pt = 0"
      "is_kernel_vaddr pt" "page_of pt \<notin> in_use (kernel_pool (pal st))"
      "in_use (kernel_pool p') = insert (page_of pt) (in_use (kernel_pool (pal st)))"
      "user_pool p' = user_pool (pal st)"
      "mem p' = (\<lambda>a. if page_of a = page_of pt then 0 else rd st a)"
    using palloc_get_page_cases [OF wf_pd_D(1) [OF wf] fl(1,2)] fl(3) by auto
  then show ?thesis
  proof cases
    case 1
    then show ?thesis
      using free None user wf_pd_D(4) [OF wf] by (simp add: lookup_page_def slot_def Let_def pte_addr_def)
  next
    case 2
    obtain e where e: "pde_create pt = Some e" "pde_get_pt e = Some pt" "e \<noteq> 0"
      using pde_roundtrip [OF 2(3,4)] by blast
    define st' where "st' = wr (st\<lparr>pal := p'\<rparr>) (pd + 4 * pd_no va) e"
    note new = new_table [OF wf user None 2(2-6) 2(8) e, folded st'_def]
    have "pt \<noteq> 0" using 2(4) by (auto simp: is_kernel_vaddr_def PHYS_BASE_def)
    then have "lookup_page pd va True st = Some (st', pt + 4 * pt_no va)"
      using free e 2(1) user wf_pd_D(4) [OF wf] by (simp add: lookup_page_def slot_def Let_def st'_def)
    moreover have "pte_addr st' pd va = pt + 4 * pt_no va" using new(2) by (simp add: pte_addr_def)
    moreover have "pte_addr st' pd va \<noteq> 0" using pte_addr_0 [OF new(1) user] new(2) by simp
    moreover have "init_ram_pages st' = init_ram_pages st \<and> init_page_dir st' = init_page_dir st \<and>
       cr3 st' = cr3 st \<and> user_pool (pal st') = user_pool (pal st)"
      using 2(7) by (simp add: st'_def)
    ultimately show ?thesis using new(1,3) by auto
  qed
qed

text \<open>A page table can be allocated exactly when a page of the kernel pool is free.\<close>

definition kernel_full :: "pd_state \<Rightarrow> bool" where
  "kernel_full st \<longleftrightarrow> pool_range (kernel_pool (pal st)) \<subseteq> in_use (kernel_pool (pal st))"

lemma palloc_has_page:
  assumes "palloc_ok p" "q \<in> pool_range (kernel_pool p)" "q \<notin> in_use (kernel_pool p)" "flags AND PAL_USER = 0"
  shows "\<exists>p' page. palloc_get_page flags p = Some (p', page) \<and> page \<noteq> 0"
proof -
  let ?b = "used_map (kernel_pool p)" and ?i = "q - first_page (kernel_pool p)"
  have i: "?i < unat (bit_cnt ?b)" "first_page (kernel_pool p) \<le> q" using assms(2) by (auto simp: pool_range_def)
  then have "\<not> bm ?b ! ?i" using assms(3) by (auto simp: in_use_def marked_def image_iff)
  then have "run_at (bm (used_map (select_pool False p))) False (unat (1 :: u32)) ?i"
    using i(1) by (auto simp: run_at_def select_pool_def less_Suc_eq_le le_antisym)
  from palloc_get_multiple_success [OF assms(1) _ this, of flags] assms(4) show ?thesis by (auto simp: palloc_get_page_def)
qed

lemma palloc_no_page:
  assumes "palloc_ok p" "pool_range (kernel_pool p) \<subseteq> in_use (kernel_pool p)" "flags AND PAL_USER = 0" "flags AND PAL_ASSERT = 0"
  shows "palloc_get_page flags p = Some (p, 0)"
proof -
  let ?k = "kernel_pool p"
  have "\<not> run_at (bm (used_map (select_pool False p))) False (unat (1 :: u32)) i" for i
  proof
    assume "run_at (bm (used_map (select_pool False p))) False (unat (1 :: u32)) i"
    then have i: "i < unat (bit_cnt (used_map ?k))" "\<not> bm (used_map ?k) ! i" by (auto simp: run_at_def select_pool_def)
    have "first_page ?k + i \<in> in_use ?k" using assms(2) i(1) by (auto simp: pool_range_def)
    then show False using i(2) by (auto simp: in_use_def marked_def)
  qed
  then show ?thesis using palloc_get_multiple_failure [OF assms(1), of 1 False flags] assms(3,4) by (simp add: palloc_get_page_def)
qed

lemma lookup_page_full:
  assumes wf: "wf_pd st pd" and va: "is_user_vaddr va"
  shows "lookup_page pd va True st = Some (st, 0) \<and> pte_addr st pd va = 0 \<longleftrightarrow> table st pd (pd_no va) = None \<and> kernel_full st"
proof (cases "table st pd (pd_no va) = None")
  case True
  note free = wf_pd_slot [OF wf user_pd_no [OF va] True] and pal = wf_pd_D(1) [OF wf]
  have fl: "PAL_ZERO AND PAL_USER = 0" "PAL_ZERO AND PAL_ASSERT = 0" by (simp_all add: PAL_ZERO_def PAL_USER_def PAL_ASSERT_def)
  show ?thesis
  proof (cases "kernel_full st")
    case full: True
    then have "palloc_get_page PAL_ZERO (pal st) = Some (pal st, 0)" using palloc_no_page [OF pal _ fl] by (simp add: kernel_full_def)
    then show ?thesis
      using True full free va wf_pd_D(4) [OF wf] pte_addr_0 [OF wf va] by (simp add: lookup_page_def slot_def Let_def)
  next
    case False
    then obtain q where q: "q \<in> pool_range (kernel_pool (pal st))" "q \<notin> in_use (kernel_pool (pal st))" by (auto simp: kernel_full_def)
    obtain p' page where p: "palloc_get_page PAL_ZERO (pal st) = Some (p', page)" "page \<noteq> 0"
      using palloc_has_page [OF pal q fl(1)] by blast
    have "in_use (kernel_pool p') \<noteq> in_use (kernel_pool (pal st))" using palloc_get_page_cases [OF pal fl] p by auto
    then have "st\<lparr>pal := p'\<lparr>mem := m\<rparr>\<rparr> \<noteq> st" for m by (auto dest: arg_cong [where f = "\<lambda>st. kernel_pool (pal st)"])
    then show ?thesis using False free p va by (auto simp: lookup_page_def slot_def Let_def wr_def bind_eq_Some_iff)
  qed
qed (use pte_addr_0 [OF wf va] in auto)

section \<open>The operations on entries\<close>

lemma and_flag_disjoint:
  assumes "f AND m = (0 :: u32)"
  shows "(e AND NOT f) AND m = e AND m" "(e OR f) AND m = e AND m"
proof -
  have b: "\<not> (bit f n \<and> bit m n)" for n using arg_cong [OF assms, of "\<lambda>w. bit w n"] by (simp add: bit_and_iff)
  show "(e AND NOT f) AND m = e AND m" "(e OR f) AND m = e AND m"
    using b by (auto intro!: bit_eqI simp: bit_simps dest: bit_imp_le_length)
qed

lemma and_flag_self:
  fixes e f :: u32
  shows "(e AND NOT f) AND f = 0" "(e OR f) AND f = f"
  by (auto intro!: bit_eqI simp: bit_simps)

lemma invalidate_pagedir_same:
  assumes "wf_pd st pd"
  shows "invalidate_pagedir pd st = Some st"
proof -
  obtain a where a: "ptov (cr3 st) = Some a" using assms by (auto simp: wf_pd_def)
  have "vtop pd = Some (cr3 st)" if "a = pd"
    using a that wf_pd_D(2) [OF assms]
    by (auto simp: ptov_Some vtop_def kernel_page_def PHYS_BASE_def)
  then show ?thesis
    using a wf_pd_D(4) [OF assms] by (simp add: invalidate_pagedir_def active_pd_def pagedir_activate_def)
qed

definition get_by_entry :: "u32 \<Rightarrow> u32 \<Rightarrow> u32 option" where
  "get_by_entry e ua =
     (if e AND PTE_P \<noteq> 0 then map_option (\<lambda>page. page + pg_ofs ua) (pte_get_page e) else Some 0)"

lemma pagedir_get_page_entry:
  assumes "wf_pd st pd" "is_user_vaddr ua"
  shows "pagedir_get_page pd ua st = get_by_entry (entry st pd ua) ua"
  using lookup_page_plain [OF assms] rd_pte_addr [of st pd ua] entry_0 [OF assms] assms(2)
  by (cases "pte_addr st pd ua = 0")
    (auto simp: pagedir_get_page_def get_by_entry_def map_option_case bind_eq_Some_iff split: option.split)

lemma pagedir_is_accessed_entry:
  assumes "wf_pd st pd" "is_user_vaddr ua"
  shows "pagedir_is_accessed pd ua st = Some (entry st pd ua AND PTE_A \<noteq> 0)"
  using lookup_page_plain [OF assms] rd_pte_addr [of st pd ua] entry_0 [OF assms]
  by (cases "pte_addr st pd ua = 0") (simp_all add: pagedir_is_accessed_def)

lemma pagedir_is_dirty_entry:
  assumes "wf_pd st pd" "is_user_vaddr ua"
  shows "pagedir_is_dirty pd ua st = Some (entry st pd ua AND PTE_D \<noteq> 0)"
  using lookup_page_plain [OF assms] rd_pte_addr [of st pd ua] entry_0 [OF assms]
  by (cases "pte_addr st pd ua = 0") (simp_all add: pagedir_is_dirty_def)

text \<open>What an operation that rewrites the entry of one page does to all entries.\<close>

definition updates_entry :: "pd_state \<Rightarrow> u32 \<Rightarrow> u32 \<Rightarrow> (u32 \<Rightarrow> u32) \<Rightarrow> pd_state \<Rightarrow> bool" where
  "updates_entry st pd ua f st' \<longleftrightarrow> wf_pd st' pd \<and>
     (\<forall>vb. is_user_vaddr vb \<longrightarrow> entry st' pd vb =
        (if same_upage vb ua \<and> pte_addr st pd ua \<noteq> 0 then f (entry st pd ua) else entry st pd vb)) \<and>
     init_ram_pages st' = init_ram_pages st \<and> kernel_pool (pal st') = kernel_pool (pal st) \<and>
     user_pool (pal st') = user_pool (pal st)"

lemma updates_entry_wr:
  assumes "wf_pd st pd" "is_user_vaddr ua" "pte_addr st pd ua \<noteq> 0"
  shows "updates_entry st pd ua f (wr st (pte_addr st pd ua) (f (entry st pd ua)))"
  using wr_entry [OF assms] assms(3) by (auto simp: updates_entry_def)

lemma updates_entry_refl: "wf_pd st pd \<Longrightarrow> pte_addr st pd ua = 0 \<Longrightarrow> updates_entry st pd ua f st"
  by (simp add: updates_entry_def)

lemma pagedir_clear_page_entry:
  assumes "wf_pd st pd" "is_user_vaddr ua" "pg_ofs ua = 0"
  shows "\<exists>st'. pagedir_clear_page pd ua st = Some st' \<and>
     updates_entry st pd ua (\<lambda>e. if e AND PTE_P \<noteq> 0 then e AND NOT PTE_P else e) st'"
proof -
  have same: "updates_entry st pd ua (\<lambda>e. if e AND PTE_P \<noteq> 0 then e AND NOT PTE_P else e) st"
    if "\<not> (pte_addr st pd ua \<noteq> 0 \<and> entry st pd ua AND PTE_P \<noteq> 0)"
    using that assms(1) by (auto simp: updates_entry_def entry_same)
  show ?thesis
    using lookup_page_plain [OF assms(1,2)] rd_pte_addr [of st pd ua] assms(2,3) same
      updates_entry_wr [OF assms(1,2), of "\<lambda>e. if e AND PTE_P \<noteq> 0 then e AND NOT PTE_P else e"]
      invalidate_pagedir_same wr_entry(1) [OF assms(1,2)]
    by (cases "pte_addr st pd ua \<noteq> 0 \<and> entry st pd ua AND PTE_P \<noteq> 0")
      (auto simp: pagedir_clear_page_def)
qed

lemma pagedir_set_accessed_entry:
  assumes "wf_pd st pd" "is_user_vaddr ua"
  shows "\<exists>st'. pagedir_set_accessed pd ua b st = Some st' \<and>
     updates_entry st pd ua (\<lambda>e. if b then e OR PTE_A else e AND NOT PTE_A) st'"
  using lookup_page_plain [OF assms] rd_pte_addr [of st pd ua] updates_entry_refl [OF assms(1)]
    updates_entry_wr [OF assms, of "\<lambda>e. if b then e OR PTE_A else e AND NOT PTE_A"]
    invalidate_pagedir_same wr_entry(1) [OF assms]
  by (cases "pte_addr st pd ua = 0") (auto simp: pagedir_set_accessed_def)

lemma pagedir_set_dirty_entry:
  assumes "wf_pd st pd" "is_user_vaddr ua"
  shows "\<exists>st'. pagedir_set_dirty pd ua b st = Some st' \<and>
     updates_entry st pd ua (\<lambda>e. if b then e OR PTE_D else e AND NOT PTE_D) st'"
  using lookup_page_plain [OF assms] rd_pte_addr [of st pd ua] updates_entry_refl [OF assms(1)]
    updates_entry_wr [OF assms, of "\<lambda>e. if b then e OR PTE_D else e AND NOT PTE_D"]
    invalidate_pagedir_same wr_entry(1) [OF assms]
  by (cases "pte_addr st pd ua = 0") (auto simp: pagedir_set_dirty_def)

lemma pagedir_set_page_entry:
  assumes wf: "wf_pd st pd" and ua: "is_user_vaddr ua" "pg_ofs ua = 0"
    and kp: "pg_ofs kpage = 0" "is_kernel_vaddr kpage" "(unat kpage - 0xc0000000) div 4096 < unat (init_ram_pages st)"
    and free: "entry st pd ua AND PTE_P = 0"
  shows "pagedir_set_page pd ua kpage w st = Some (st, False) \<and> table st pd (pd_no ua) = None \<and> kernel_full st \<or>
    (\<exists>st' e. \<not> (table st pd (pd_no ua) = None \<and> kernel_full st) \<and>
       pagedir_set_page pd ua kpage w st = Some (st', True) \<and> wf_pd st' pd \<and>
       pte_create_user kpage w = Some e \<and>
       (\<forall>vb. is_user_vaddr vb \<longrightarrow> entry st' pd vb = (if same_upage vb ua then e else entry st pd vb)))"
proof -
  have "0xc0000000 \<le> unat kpage" using kp(2) by (simp add: is_kernel_vaddr_def PHYS_BASE_def word_le_nat_alt)
  note v = vtop_kernel [OF this]
  then have frame: "drop_bit PTSHIFT (kpage - 0xc0000000) < init_ram_pages st"
    using kp(3) by (simp add: word_less_nat_alt unat_drop_bit PTSHIFT_def PGBITS_def)
  obtain e where e: "pte_create_user kpage w = Some e" using pte_roundtrip [OF kp(1,2)] by blast
  have body: "pagedir_set_page pd ua kpage w st = do {
      (st, pte) \<leftarrow> lookup_page pd ua True st;
      if pte \<noteq> 0 then do { c_assert (rd st pte AND PTE_P = 0); Some (wr st pte e, True) } else Some (st, False) }"
    using ua kp(1) v frame wf_pd_D(5) [OF wf] by (simp add: pagedir_set_page_def e cong: if_cong)
  from lookup_page_create [OF wf ua(1)] show ?thesis
  proof (elim disjE exE conjE)
    fix st1
    assume l: "lookup_page pd ua True st = Some (st1, pte_addr st1 pd ua)" "wf_pd st1 pd" "pte_addr st1 pd ua \<noteq> 0"
      "\<forall>vb. is_user_vaddr vb \<longrightarrow> entry st1 pd vb = entry st pd vb"
    have "rd st1 (pte_addr st1 pd ua) AND PTE_P = 0" using rd_pte_addr [OF l(3)] l(4) ua(1) free by simp
    then have "pagedir_set_page pd ua kpage w st = Some (wr st1 (pte_addr st1 pd ua) e, True)"
      using l(3) by (simp add: body l(1))
    moreover have "\<not> (table st pd (pd_no ua) = None \<and> kernel_full st)"
      using lookup_page_full [OF wf ua(1)] l(1,3) by auto
    ultimately show ?thesis using wr_entry(1) [OF l(2) ua(1) l(3), of e] wr_entry(2) [OF l(2) ua(1) l(3)] l(4) e by auto
  qed (use lookup_page_full [OF wf ua(1)] in \<open>simp add: body\<close>)
qed

section \<open>Properties\<close>

text \<open>A machine whose first kernel page holds an empty page directory.\<close>

definition example_pd_state :: pd_state where
  "example_pd_state =
     \<lparr>pal = \<lparr>kernel_pool = \<lparr>used_map = \<lparr>bit_cnt = 4, bits = [1]\<rparr>, base = 0xc0100000\<rparr>,
             user_pool = \<lparr>used_map = \<lparr>bit_cnt = 3, bits = [4]\<rparr>, base = 0xc0200000\<rparr>, mem = (\<lambda>_. 0)\<rparr>,
      init_page_dir = 0xc0001000, init_ram_pages = 1024, cr3 = 0x1000\<rparr>"

lemma wf_example_pd: "wf_pd example_pd_state 0xc0100000"
proof -
  have "0 \<in> marked \<lparr>bit_cnt = 4, bits = [1]\<rparr>" by (simp add: marked_def bm_def)
  then have "kernel_page example_pd_state 0xc0100000"
    by (auto simp: kernel_page_def pg_ofs_0 is_kernel_vaddr_def PHYS_BASE_def in_use_def first_page_def
        page_of_def example_pd_state_def image_iff)
  then show ?thesis
    by (simp add: wf_pd_def palloc_ok_def pool_ok_def wf_bitmap_def slot_def table_def ptov_def PHYS_BASE_def
        example_pd_state_def)
qed

lemma entry_example_pd: "entry example_pd_state 0xc0100000 va = 0" "init_ram_pages example_pd_state = 1024"
  by (simp_all add: entry_def table_def slot_def example_pd_state_def)

text \<open>
  C7: installing a mapping. On a well-formed directory, for an unmapped user page and a kernel
  page backed by RAM, \<open>pagedir_set_page\<close> passes all its assertions. It fails, and changes nothing,
  exactly when the page needs a new page table and no page of the kernel pool is free. Otherwise it
  succeeds, allocating the table where needed: then \<open>pagedir_get_page\<close> translates every user
  address of that page into the kernel page and every other user address as before, and the page may
  be written exactly when \<open>writable\<close> is set.
\<close>

theorem pagedir_set_page_correct:
  assumes "wf_pd st pd" "is_user_vaddr upage" "pg_ofs upage = 0" "pg_ofs kpage = 0" "is_kernel_vaddr kpage"
    "(unat kpage - 0xc0000000) div 4096 < unat (init_ram_pages st)"
    "entry st pd upage AND PTE_P = 0"
  shows "if table st pd (pd_no upage) = None \<and> kernel_full st then pagedir_set_page pd upage kpage writable st = Some (st, False)
    else \<exists>st'. pagedir_set_page pd upage kpage writable st = Some (st', True) \<and> wf_pd st' pd \<and>
       (entry st' pd upage AND PTE_W \<noteq> 0) = writable \<and>
       (\<forall>ua. is_user_vaddr ua \<longrightarrow> pagedir_get_page pd ua st' =
          (if pg_no ua = pg_no upage then Some (kpage + pg_ofs ua) else pagedir_get_page pd ua st))"
proof -
  obtain e where e: "pte_create_user kpage writable = Some e" "pte_get_page e = Some kpage" "e AND PTE_P \<noteq> 0" "(e AND PTE_W \<noteq> 0) = writable"
    using pte_roundtrip [OF assms(4,5)] by blast
  show ?thesis
    using pagedir_set_page_entry [OF assms, of writable] assms(1,2) e
    by (auto simp: pagedir_get_page_entry same_upage_def get_by_entry_def)
qed

lemma example_pd_room: "\<not> kernel_full example_pd_state"
proof
  assume "kernel_full example_pd_state"
  moreover have "0xc0101 \<in> pool_range (kernel_pool (pal example_pd_state))" by (simp add: pool_range_def first_page_def example_pd_state_def)
  moreover have "0xc0101 \<notin> in_use (kernel_pool (pal example_pd_state))"
    by (auto simp: in_use_def first_page_def example_pd_state_def marked_def bm_def)
  ultimately show False by (auto simp: kernel_full_def)
qed

theorem pagedir_set_page_correct_witness:
  "\<exists>st'. pagedir_set_page 0xc0100000 0x08048000 0xc0202000 True example_pd_state = Some (st', True) \<and>
     pagedir_get_page 0xc0100000 0x08048123 st' = Some 0xc0202123"
proof -
  have "\<exists>st'. pagedir_set_page 0xc0100000 0x08048000 0xc0202000 True example_pd_state = Some (st', True) \<and> wf_pd st' 0xc0100000 \<and>
       (entry st' 0xc0100000 0x08048000 AND PTE_W \<noteq> 0) = True \<and>
       (\<forall>ua. is_user_vaddr ua \<longrightarrow> pagedir_get_page 0xc0100000 ua st' =
          (if pg_no ua = pg_no 0x08048000 then Some (0xc0202000 + pg_ofs ua) else pagedir_get_page 0xc0100000 ua example_pd_state))"
    using pagedir_set_page_correct [OF wf_example_pd, of "0x08048000" "0xc0202000" True] example_pd_room
    by (simp add: entry_example_pd pg_ofs_0 is_kernel_vaddr_def is_user_vaddr_def PHYS_BASE_def)
  moreover have "pg_no 0x08048123 = pg_no 0x08048000" "pg_ofs 0x08048123 = 0x123" by code_simp+
  ultimately show ?thesis by (auto simp: is_user_vaddr_def PHYS_BASE_def dest!: spec [of _ "0x08048123"])
qed

text \<open>
  C23: removing a mapping. \<open>pagedir_clear_page\<close> always succeeds on a well-formed directory;
  afterwards the page is unmapped, every other user page translates as before, and the directory
  is still well formed.
\<close>

theorem pagedir_clear_page_correct:
  assumes "wf_pd st pd" "is_user_vaddr upage" "pg_ofs upage = 0"
  shows "\<exists>st'. pagedir_clear_page pd upage st = Some st' \<and> wf_pd st' pd \<and>
     (\<forall>ua. is_user_vaddr ua \<longrightarrow> pagedir_get_page pd ua st' =
        (if pg_no ua = pg_no upage then Some 0 else pagedir_get_page pd ua st))"
proof -
  obtain st' where st': "pagedir_clear_page pd upage st = Some st'"
    "updates_entry st pd upage (\<lambda>e. if e AND PTE_P \<noteq> 0 then e AND NOT PTE_P else e) st'"
    using pagedir_clear_page_entry [OF assms] by blast
  have "entry st' pd ua AND PTE_P = 0" if "is_user_vaddr ua" "pg_no ua = pg_no upage" for ua
    using st'(2) that entry_0 [OF assms(1,2)] entry_same [of ua upage st pd]
    by (cases "pte_addr st pd upage = 0") (auto simp: updates_entry_def same_upage_def and_flag_self)
  moreover have "entry st' pd ua = entry st pd ua" if "is_user_vaddr ua" "pg_no ua \<noteq> pg_no upage" for ua
    using st'(2) that by (simp add: updates_entry_def same_upage_def)
  moreover have "wf_pd st' pd" using st'(2) by (simp add: updates_entry_def)
  ultimately show ?thesis
    using st'(1) assms(1) by (simp add: pagedir_get_page_entry get_by_entry_def)
qed

theorem pagedir_clear_page_correct_witness:
  "\<exists>st1 st'. pagedir_set_page 0xc0100000 0x08048000 0xc0202000 True example_pd_state = Some (st1, True) \<and>
     pagedir_get_page 0xc0100000 0x08048123 st1 = Some 0xc0202123 \<and> pagedir_clear_page 0xc0100000 0x08048000 st1 = Some st' \<and>
     pagedir_get_page 0xc0100000 0x08048123 st' = Some 0"
proof -
  have v: "is_user_vaddr 0x08048000" "is_user_vaddr 0x08048123" "pg_ofs (0x08048000 :: u32) = 0" "pg_ofs (0xc0202000 :: u32) = 0" "is_kernel_vaddr 0xc0202000"
    by (simp_all add: pg_ofs_0 is_user_vaddr_def is_kernel_vaddr_def PHYS_BASE_def)
  have n: "pg_no 0x08048123 = pg_no 0x08048000" "pg_ofs 0x08048123 = 0x123" by code_simp+
  obtain st1 e where st1: "pagedir_set_page 0xc0100000 0x08048000 0xc0202000 True example_pd_state = Some (st1, True)" "wf_pd st1 0xc0100000"
      "pte_create_user 0xc0202000 True = Some e"
      "\<forall>vb. is_user_vaddr vb \<longrightarrow> entry st1 0xc0100000 vb = (if same_upage vb 0x08048000 then e else entry example_pd_state 0xc0100000 vb)"
    using pagedir_set_page_entry [OF wf_example_pd v(1,3,4,5), of True] example_pd_room by (auto simp: entry_example_pd)
  have e: "pte_get_page e = Some 0xc0202000" "e AND PTE_P \<noteq> 0" using pte_roundtrip [OF v(4,5), of True] st1(3) by auto
  have "entry st1 0xc0100000 0x08048123 = e" using st1(4) v(2) n(1) by (simp add: same_upage_def)
  then have "pagedir_get_page 0xc0100000 0x08048123 st1 = Some 0xc0202123"
    using pagedir_get_page_entry [OF st1(2) v(2)] e n(2) by (simp add: get_by_entry_def)
  then show ?thesis using pagedir_clear_page_correct [OF st1(2) v(1,3)] st1(1) v(2) n(1) by auto
qed

end
