(* ===== verification/Hash.thy ===== *)
theory Hash
  imports Prelude
begin

text \<open>
  \<^verbatim>\<open>lib/kernel/hash.c\<close>: hash tables with chaining. Each bucket is the sequence of elements of its
  list (theory \<^verbatim>\<open>Lists\<close> shows that the list operations used here act on that sequence as
  \<open>Cons\<close> and \<open>remove1\<close>). Elements are pointers, of any type \<open>'e\<close>; a null pointer is \<open>None\<close>
  in the result. Where the code calls \<open>malloc\<close>, an argument says whether it succeeded.
\<close>

section \<open>Data\<close>

record 'e hash =
  elem_cnt :: u32
  bucket_cnt :: u32
  buckets :: "'e list list"
  hash_fn :: "'e \<Rightarrow> u32"
  less_fn :: "'e \<Rightarrow> 'e \<Rightarrow> bool"

definition MIN_BUCKETS :: u32 where "MIN_BUCKETS = 4"
definition BEST_ELEMS_PER_BUCKET :: u32 where "BEST_ELEMS_PER_BUCKET = 2"

section \<open>Operations\<close>

definition bucket_idx :: "'e hash \<Rightarrow> 'e \<Rightarrow> nat" where
  "bucket_idx h e = unat (hash_fn h e AND (bucket_cnt h - 1))"

text \<open>\<open>find_bucket\<close> returns a reference into the array; an index outside it faults.\<close>

definition find_bucket :: "'e hash \<Rightarrow> 'e \<Rightarrow> nat option" where
  "find_bucket h e = (if bucket_idx h e < length (buckets h) then Some (bucket_idx h e) else None)"

definition find_elem :: "'e hash \<Rightarrow> nat \<Rightarrow> 'e \<Rightarrow> 'e option" where
  "find_elem h bucket e = find (\<lambda>hi. \<not> less_fn h hi e \<and> \<not> less_fn h e hi) (buckets h ! bucket)"

definition turn_off_least_1bit :: "u32 \<Rightarrow> u32" where
  "turn_off_least_1bit x = x AND (x - 1)"

definition is_power_of_2 :: "u32 \<Rightarrow> bool" where
  "is_power_of_2 x \<longleftrightarrow> x \<noteq> 0 \<and> turn_off_least_1bit x = 0"

partial_function (option) round_to_power :: "u32 \<Rightarrow> u32 option" where
  "round_to_power n = (if \<not> is_power_of_2 n then round_to_power (turn_off_least_1bit n) else Some n)"

definition move_elem :: "'e \<Rightarrow> 'e hash \<Rightarrow> 'e hash option" where
  "move_elem e h = do {
     b \<leftarrow> find_bucket h e;
     Some (h\<lparr>buckets := (buckets h)[b := e # buckets h ! b]\<rparr>) }"

primrec move_elems :: "'e list \<Rightarrow> 'e hash \<Rightarrow> 'e hash option" where
  "move_elems [] h = Some h"
| "move_elems (e # es) h = do { h \<leftarrow> move_elem e h; move_elems es h }"

primrec move_buckets :: "'e list list \<Rightarrow> 'e hash \<Rightarrow> 'e hash option" where
  "move_buckets [] h = Some h"
| "move_buckets (old # olds) h = do { h \<leftarrow> move_elems old h; move_buckets olds h }"

text \<open>
  The block for \<open>n\<close> buckets has \<open>sizeof (struct list) * n\<close> bytes; should that product wrap, the
  initialisation runs past the block.
\<close>

definition rehash :: "bool \<Rightarrow> 'e hash \<Rightarrow> 'e hash option" where
  "rehash malloc_ok h = do {
     let old_buckets = buckets h;
     let n = elem_cnt h div BEST_ELEMS_PER_BUCKET;
     let n = (if n < MIN_BUCKETS then MIN_BUCKETS else n);
     n \<leftarrow> round_to_power n;
     if n = bucket_cnt h \<or> \<not> malloc_ok then Some h
     else do {
       c_assert (unat (16 * n) = 16 * unat n);
       let h = h\<lparr>buckets := replicate (unat n) [], bucket_cnt := n\<rparr>;
       move_buckets old_buckets h } }"

definition insert_elem :: "nat \<Rightarrow> 'e \<Rightarrow> 'e hash \<Rightarrow> 'e hash" where
  "insert_elem bucket e h =
     h\<lparr>elem_cnt := elem_cnt h + 1, buckets := (buckets h)[bucket := e # buckets h ! bucket]\<rparr>"

definition remove_elem :: "'e \<Rightarrow> 'e hash \<Rightarrow> 'e hash" where
  "remove_elem e h = h\<lparr>elem_cnt := elem_cnt h - 1, buckets := map (remove1 e) (buckets h)\<rparr>"

definition hash_insert :: "bool \<Rightarrow> 'e hash \<Rightarrow> 'e \<Rightarrow> ('e hash \<times> 'e option) option" where
  "hash_insert malloc_ok h new = do {
     bucket \<leftarrow> find_bucket h new;
     let old = find_elem h bucket new;
     let h = (if old = None then insert_elem bucket new h else h);
     h \<leftarrow> rehash malloc_ok h;
     Some (h, old) }"

definition hash_replace :: "bool \<Rightarrow> 'e hash \<Rightarrow> 'e \<Rightarrow> ('e hash \<times> 'e option) option" where
  "hash_replace malloc_ok h new = do {
     bucket \<leftarrow> find_bucket h new;
     let old = find_elem h bucket new;
     let h = (case old of Some x \<Rightarrow> remove_elem x h | None \<Rightarrow> h);
     let h = insert_elem bucket new h;
     h \<leftarrow> rehash malloc_ok h;
     Some (h, old) }"

definition hash_find :: "'e hash \<Rightarrow> 'e \<Rightarrow> 'e option option" where
  "hash_find h e = do {
     bucket \<leftarrow> find_bucket h e;
     Some (find_elem h bucket e) }"

definition hash_delete :: "bool \<Rightarrow> 'e hash \<Rightarrow> 'e \<Rightarrow> ('e hash \<times> 'e option) option" where
  "hash_delete malloc_ok h e = do {
     bucket \<leftarrow> find_bucket h e;
     case find_elem h bucket e of
       Some x \<Rightarrow> do { h \<leftarrow> rehash malloc_ok (remove_elem x h); Some (h, Some x) }
     | None \<Rightarrow> Some (h, None) }"

text \<open>An action takes the element and the world it may change.\<close>

definition hash_clear :: "('e \<Rightarrow> 'w \<Rightarrow> 'w) option \<Rightarrow> 'e hash \<Rightarrow> 'w \<Rightarrow> 'e hash \<times> 'w" where
  "hash_clear destructor h w =
     (h\<lparr>elem_cnt := 0, buckets := map (\<lambda>_. []) (buckets h)\<rparr>,
      case destructor of None \<Rightarrow> w | Some f \<Rightarrow> fold (\<lambda>bucket w. fold f bucket w) (buckets h) w)"

definition hash_destroy :: "('e \<Rightarrow> 'w \<Rightarrow> 'w) option \<Rightarrow> 'e hash \<Rightarrow> 'w \<Rightarrow> 'w" where
  "hash_destroy destructor h w = (if destructor \<noteq> None then snd (hash_clear destructor h w) else w)"

definition hash_init :: "bool \<Rightarrow> ('e \<Rightarrow> u32) \<Rightarrow> ('e \<Rightarrow> 'e \<Rightarrow> bool) \<Rightarrow> 'e hash \<times> bool" where
  "hash_init malloc_ok hf lf =
     (if malloc_ok
      then (fst (hash_clear None \<lparr>elem_cnt = 0, bucket_cnt = 4, buckets = replicate 4 [], hash_fn = hf, less_fn = lf\<rparr> ()), True)
      else (\<lparr>elem_cnt = 0, bucket_cnt = 4, buckets = [], hash_fn = hf, less_fn = lf\<rparr>, False))"

definition hash_apply :: "('e \<Rightarrow> 'w \<Rightarrow> 'w) \<Rightarrow> 'e hash \<Rightarrow> 'w \<Rightarrow> 'w" where
  "hash_apply action h w = fold (\<lambda>bucket w. fold action bucket w) (buckets h) w"

definition hash_size :: "'e hash \<Rightarrow> u32" where
  "hash_size h = elem_cnt h"

definition hash_empty :: "'e hash \<Rightarrow> bool" where
  "hash_empty h \<longleftrightarrow> elem_cnt h = 0"

definition FNV_32_PRIME :: u32 where "FNV_32_PRIME = 16777619"
definition FNV_32_BASIS :: u32 where "FNV_32_BASIS = 2166136261"

definition hash_bytes :: "u8 list \<Rightarrow> u32" where
  "hash_bytes buf = foldl (\<lambda>hash b. (hash * FNV_32_PRIME) XOR ucast b) FNV_32_BASIS buf"

text \<open>The bytes up to the terminator; without one the read runs off the buffer.\<close>

definition hash_string :: "u8 list \<Rightarrow> u32 option" where
  "hash_string s = (if 0 \<in> set s then Some (hash_bytes (takeWhile (\<lambda>b. b \<noteq> 0) s)) else None)"

definition hash_int :: "u32 \<Rightarrow> u32" where
  "hash_int i = hash_bytes [ucast i, ucast (drop_bit 8 i), ucast (drop_bit 16 i), ucast (drop_bit 24 i)]"

subsection \<open>Iteration\<close>

text \<open>The current element of an iterator: the head sentinel of its bucket, an element, or null.\<close>

datatype 'e cursor = AtHead | AtElem 'e | AtNull

record 'e hash_iterator =
  it_bucket :: nat
  it_elem :: "'e cursor"

definition hash_first :: "'e hash_iterator" where
  "hash_first = \<lparr>it_bucket = 0, it_elem = AtHead\<rparr>"

text \<open>\<open>list_next\<close> in the sequence of a bucket; \<open>None\<close> is the tail sentinel.\<close>

fun next_in :: "'e list \<Rightarrow> 'e cursor \<Rightarrow> 'e option" where
  "next_in xs AtHead = (case xs of [] \<Rightarrow> None | x # _ \<Rightarrow> Some x)"
| "next_in xs (AtElem e) = (case dropWhile (\<lambda>x. x \<noteq> e) xs of _ # y # _ \<Rightarrow> Some y | _ \<Rightarrow> None)"
| "next_in xs AtNull = None"

primrec skip_empty :: "nat \<Rightarrow> 'e list list \<Rightarrow> 'e hash_iterator" where
  "skip_empty i [] = \<lparr>it_bucket = i, it_elem = AtNull\<rparr>"
| "skip_empty i (b # bs) =
     (case b of x # _ \<Rightarrow> \<lparr>it_bucket = i, it_elem = AtElem x\<rparr> | [] \<Rightarrow> skip_empty (i + 1) bs)"

definition hash_next :: "'e hash \<Rightarrow> 'e hash_iterator \<Rightarrow> 'e hash_iterator option" where
  "hash_next h i = do {
     c_assert (it_elem i \<noteq> AtNull);
     c_assert (it_bucket i < length (buckets h));
     case next_in (buckets h ! it_bucket i) (it_elem i) of
       Some x \<Rightarrow> Some (i\<lparr>it_elem := AtElem x\<rparr>)
     | None \<Rightarrow> Some (skip_empty (it_bucket i + 1) (drop (it_bucket i + 1) (buckets h))) }"

definition hash_cur :: "'e hash_iterator \<Rightarrow> 'e option" where
  "hash_cur i = (case it_elem i of AtElem x \<Rightarrow> Some x | _ \<Rightarrow> None)"

text \<open>The idiom of the comment above \<open>hash_first\<close>: the elements a full loop visits.\<close>

partial_function (option) hash_walk :: "'e hash \<Rightarrow> 'e hash_iterator \<Rightarrow> 'e list option" where
  "hash_walk h i = do {
     i \<leftarrow> hash_next h i;
     case hash_cur i of
       None \<Rightarrow> Some []
     | Some x \<Rightarrow> do { xs \<leftarrow> hash_walk h i; Some (x # xs) } }"

section \<open>Powers of two\<close>

lemma nat_and_pred_rec:
  fixes n :: nat
  assumes "0 < n"
  shows "n AND (n - 1) = (if odd n then n - 1 else 2 * ((n div 2) AND (n div 2 - 1)))"
proof (cases "odd n")
  case True
  then obtain m where "n = 2 * m + 1" by (elim oddE)
  then have "odd n" "even (n - 1)" "n div 2 = m" "(n - 1) div 2 = m" "n - 1 = 2 * m" by simp_all
  then show ?thesis by (simp add: and_rec [of n "2 * m"])
next
  case False
  then obtain m where m: "n = 2 * m" by blast
  then have "(n - 1) div 2 = m - 1" "odd (n - 1)" using assms by (cases m; simp)+
  moreover have "n AND (n - 1) = of_bool (odd n \<and> odd (n - 1)) + 2 * ((n div 2) AND ((n - 1) div 2))"
    by (rule and_rec)
  ultimately show ?thesis using False m by simp
qed

lemma nat_and_pred_less: "0 < n \<Longrightarrow> n AND (n - 1) < n" for n :: nat
proof (induction n rule: less_induct)
  case (less n)
  show ?case
  proof (cases "odd n")
    case False
    then have *: "n div 2 < n" "0 < n div 2" "n = 2 * (n div 2)" using less.prems by auto
    have "n AND (n - 1) = 2 * ((n div 2) AND (n div 2 - 1))" using nat_and_pred_rec [OF less.prems] False by simp
    then show ?thesis using less.IH [OF *(1,2)] *(3) by linarith
  qed (use less.prems nat_and_pred_rec [OF less.prems] in simp)
qed

lemma nat_and_pred_zero: "0 < n \<Longrightarrow> n AND (n - 1) = 0 \<Longrightarrow> \<exists>k. n = 2 ^ k" for n :: nat
proof (induction n rule: less_induct)
  case (less n)
  show ?case
  proof (cases "odd n")
    case True
    then have "n = 1" using less.prems nat_and_pred_rec [OF less.prems(1)] by simp
    then show ?thesis by (metis power_0)
  next
    case False
    then have *: "n div 2 < n" "0 < n div 2" "n = 2 * (n div 2)" using less.prems by auto
    then obtain k where "n div 2 = 2 ^ k"
      using less.IH [of "n div 2"] nat_and_pred_rec [OF less.prems(1)] less.prems(2) False by auto
    then show ?thesis using *(3) by (metis power_Suc)
  qed
qed

lemma unat_turn_off: "x \<noteq> 0 \<Longrightarrow> unat (turn_off_least_1bit x) = unat x AND (unat x - 1)"
  by (simp add: turn_off_least_1bit_def unsigned_and_eq unat_minus_one)

lemma turn_off_least_1bit_less: "x \<noteq> 0 \<Longrightarrow> unat (turn_off_least_1bit x) < unat x"
  using nat_and_pred_less [of "unat x"] by (simp add: unat_turn_off unat_gt_0)

lemma is_power_of_2_D: "is_power_of_2 x \<Longrightarrow> \<exists>k<32. x = 2 ^ k \<and> unat x = 2 ^ k"
proof -
  assume "is_power_of_2 x"
  then have x: "x \<noteq> 0" "unat x AND (unat x - 1) = 0"
    using unat_turn_off [of x] by (simp_all add: is_power_of_2_def)
  then obtain k where k: "unat x = 2 ^ k" using nat_and_pred_zero [of "unat x"] by (auto simp: unat_gt_0)
  moreover have "k < 32"
  proof (rule ccontr)
    assume "\<not> k < 32"
    then have "(2 :: nat) ^ 32 \<le> 2 ^ k" by (intro power_increasing) auto
    then show False using u32_unat_bound [of x] k by simp
  qed
  moreover have "x = of_nat (2 ^ k)" by (simp flip: k)
  ultimately show ?thesis by auto
qed

lemma round_to_power_correct:
  "x \<noteq> 0 \<Longrightarrow> \<exists>k<32. round_to_power x = Some (2 ^ k) \<and> 2 ^ k \<le> unat x"
proof (induction "unat x" arbitrary: x rule: less_induct)
  case less
  show ?case
  proof (cases "is_power_of_2 x")
    case True
    then obtain k where "k < 32" "x = 2 ^ k" "unat x = 2 ^ k" using is_power_of_2_D by blast
    moreover have "round_to_power x = Some x" using True by (simp add: round_to_power.simps [of x])
    ultimately show ?thesis by auto
  next
    case False
    then have "turn_off_least_1bit x \<noteq> 0" using less.prems by (simp add: is_power_of_2_def)
    then show ?thesis
      using less.hyps [OF turn_off_least_1bit_less [OF less.prems]] turn_off_least_1bit_less [OF less.prems] False
      by (auto simp: round_to_power.simps [of x] intro: less_imp_le order_trans)
  qed
qed

section \<open>The table as a set of elements\<close>

definition elems :: "'e hash \<Rightarrow> 'e set" where
  "elems h = set (concat (buckets h))"

text \<open>
  The comparison groups elements into classes of equal ones, and equal elements have the same
  hash; \<open>hash_less_func\<close> and \<open>hash_hash_func\<close> are documented that way.
\<close>

locale hash_functions =
  fixes hf :: "'e \<Rightarrow> u32" and lf :: "'e \<Rightarrow> 'e \<Rightarrow> bool"
  assumes lf_irrefl: "\<not> lf a a"
    and eq_trans: "\<not> lf a b \<Longrightarrow> \<not> lf b a \<Longrightarrow> \<not> lf b c \<Longrightarrow> \<not> lf c b \<Longrightarrow> \<not> lf a c \<and> \<not> lf c a"
    and hash_eq: "\<not> lf a b \<Longrightarrow> \<not> lf b a \<Longrightarrow> hf a = hf b"
begin

definition eqv :: "'e \<Rightarrow> 'e \<Rightarrow> bool" where
  "eqv a b \<longleftrightarrow> \<not> lf a b \<and> \<not> lf b a"

end

definition wf_buckets :: "'e hash \<Rightarrow> bool" where
  "wf_buckets h \<longleftrightarrow> (\<exists>k<32. bucket_cnt h = 2 ^ k) \<and> length (buckets h) = unat (bucket_cnt h) \<and>
     (\<forall>b < length (buckets h). \<forall>e \<in> set (buckets h ! b). bucket_idx h e = b)"

definition wf_hash :: "('e \<Rightarrow> u32) \<Rightarrow> ('e \<Rightarrow> 'e \<Rightarrow> bool) \<Rightarrow> 'e hash \<Rightarrow> bool" where
  "wf_hash hf lf h \<longleftrightarrow> wf_buckets h \<and> hash_fn h = hf \<and> less_fn h = lf \<and>
     elem_cnt h = of_nat (length (concat (buckets h))) \<and> distinct (concat (buckets h)) \<and>
     (\<forall>a \<in> elems h. \<forall>b \<in> elems h. \<not> lf a b \<and> \<not> lf b a \<longrightarrow> a = b)"

lemma unat_2_power: "k < 32 \<Longrightarrow> unat (2 ^ k :: u32) = 2 ^ k"
proof -
  assume "k < 32"
  then have "(2 :: nat) ^ k < 2 ^ 32" by (intro power_strict_increasing) auto
  then have "unat (push_bit k (1 :: u32)) = 2 ^ k" by (subst unat_push_bit) simp_all
  then show ?thesis by (simp add: push_bit_eq_mult)
qed

lemma bucket_idx_less: "bucket_cnt h = 2 ^ k \<Longrightarrow> k < 32 \<Longrightarrow> bucket_idx h e < unat (bucket_cnt h)"
  by (simp add: bucket_idx_def unat_2_power unat_take_bit flip: mask_eq_exp_minus_1 take_bit_eq_mask)

lemma wf_buckets_idx: "wf_buckets h \<Longrightarrow> bucket_idx h e < length (buckets h)"
  using bucket_idx_less [of h _ e] by (auto simp: wf_buckets_def)

lemma wf_buckets_find: "wf_buckets h \<Longrightarrow> find_bucket h e = Some (bucket_idx h e)"
  by (simp add: find_bucket_def wf_buckets_idx)

lemma elems_bucket: "wf_buckets h \<Longrightarrow> e \<in> elems h \<longleftrightarrow> e \<in> set (buckets h ! bucket_idx h e)"
  using wf_buckets_idx [of h e] by (fastforce simp: elems_def wf_buckets_def in_set_conv_nth [of _ "buckets h"])

lemma mset_concat_update:
  "b < length bs \<Longrightarrow> mset (concat (bs[b := e # bs ! b])) = add_mset e (mset (concat bs))"
  by (induction bs arbitrary: b) (auto split: nat.split simp: nth_Cons)

lemma wf_buckets_push:
  assumes "wf_buckets h"
  shows "wf_buckets (h\<lparr>buckets := (buckets h)[bucket_idx h e := e # buckets h ! bucket_idx h e]\<rparr>)"
proof -
  let ?i = "bucket_idx h e"
  let ?h = "h\<lparr>buckets := (buckets h)[?i := e # buckets h ! ?i]\<rparr>"
  have wfb: "bucket_idx h x = b" if "b < length (buckets h)" "x \<in> set (buckets h ! b)" for b x
    using that assms unfolding wf_buckets_def by blast
  have same: "bucket_idx ?h x = bucket_idx h x" for x by (simp add: bucket_idx_def)
  have "bucket_idx h x = b" if "b < length (buckets h)" "x \<in> set ((buckets h)[?i := e # buckets h ! ?i] ! b)" for b x
  proof (cases "b = ?i")
    case True
    then have "x = e \<or> x \<in> set (buckets h ! b)" using that by auto
    then show ?thesis using True wfb [OF that(1)] by blast
  next
    case False
    then show ?thesis using that wfb [OF that(1), of x] by simp
  qed
  moreover have "wf_buckets ?h \<longleftrightarrow> (\<exists>k<32. bucket_cnt h = 2 ^ k) \<and> length (buckets h) = unat (bucket_cnt h) \<and>
     (\<forall>b < length (buckets h). \<forall>x \<in> set ((buckets h)[?i := e # buckets h ! ?i] ! b). bucket_idx h x = b)"
    unfolding wf_buckets_def same by simp
  ultimately show ?thesis using assms unfolding wf_buckets_def by blast
qed

lemma wf_buckets_elem_cnt:
  "wf_buckets (h\<lparr>elem_cnt := c, buckets := bs\<rparr>) = wf_buckets (h\<lparr>buckets := bs\<rparr>)"
  by (simp add: wf_buckets_def bucket_idx_def)

lemma move_elems_ok:
  "wf_buckets h \<Longrightarrow> \<exists>bs. move_elems es h = Some (h\<lparr>buckets := bs\<rparr>) \<and> wf_buckets (h\<lparr>buckets := bs\<rparr>) \<and>
     mset (concat bs) = mset es + mset (concat (buckets h))"
proof (induction es arbitrary: h)
  case Nil
  then show ?case by (intro exI [of _ "buckets h"]) simp
next
  case (Cons e es)
  let ?h = "h\<lparr>buckets := (buckets h)[bucket_idx h e := e # buckets h ! bucket_idx h e]\<rparr>"
  have "move_elem e h = Some ?h" using Cons.prems by (simp add: move_elem_def wf_buckets_find)
  moreover obtain bs where "move_elems es ?h = Some (?h\<lparr>buckets := bs\<rparr>)" "wf_buckets (?h\<lparr>buckets := bs\<rparr>)"
    "mset (concat bs) = mset es + mset (concat (buckets ?h))"
    using Cons.IH [OF wf_buckets_push [OF Cons.prems]] by blast
  ultimately show ?case
    using mset_concat_update [OF wf_buckets_idx [OF Cons.prems], of e e] by auto
qed

lemma move_buckets_ok:
  "wf_buckets h \<Longrightarrow> \<exists>bs. move_buckets olds h = Some (h\<lparr>buckets := bs\<rparr>) \<and> wf_buckets (h\<lparr>buckets := bs\<rparr>) \<and>
     mset (concat bs) = mset (concat olds) + mset (concat (buckets h))"
proof (induction olds arbitrary: h)
  case Nil
  then show ?case by (intro exI [of _ "buckets h"]) simp
next
  case (Cons old olds)
  obtain bs where bs: "move_elems old h = Some (h\<lparr>buckets := bs\<rparr>)" "wf_buckets (h\<lparr>buckets := bs\<rparr>)"
    "mset (concat bs) = mset old + mset (concat (buckets h))"
    using move_elems_ok [OF Cons.prems] by blast
  with Cons.IH [OF bs(2)] show ?case by (auto simp: ac_simps)
qed

lemma concat_replicate_Nil [simp]: "concat (replicate n []) = []"
  by (induction n) auto

lemma rehash_ok:
  assumes "wf_buckets h" "unat (elem_cnt h) < 2 ^ 29"
  shows "\<exists>bs n. rehash m h = Some (h\<lparr>bucket_cnt := n, buckets := bs\<rparr>) \<and>
     wf_buckets (h\<lparr>bucket_cnt := n, buckets := bs\<rparr>) \<and> mset (concat bs) = mset (concat (buckets h))"
proof -
  define n0 where "n0 = (if elem_cnt h div BEST_ELEMS_PER_BUCKET < MIN_BUCKETS then MIN_BUCKETS
    else elem_cnt h div BEST_ELEMS_PER_BUCKET)"
  have "0 < unat n0" "unat n0 < 2 ^ 28"
    using assms(2) by (auto simp: n0_def MIN_BUCKETS_def BEST_ELEMS_PER_BUCKET_def word_less_nat_alt unat_div)
  then have "n0 \<noteq> 0" by auto
  then obtain k where k: "k < 32" "round_to_power n0 = Some (2 ^ k)" "2 ^ k \<le> unat n0"
    using round_to_power_correct [OF \<open>n0 \<noteq> 0\<close>] by blast
  let ?n = "2 ^ k :: u32"
  have n: "unat ?n = 2 ^ k" using k(1) by (rule unat_2_power)
  then have wrap: "unat (16 * ?n) = 16 * unat ?n"
    using k(3) \<open>unat n0 < 2 ^ 28\<close> by (subst unat_mult_u32) simp_all
  have body: "rehash m h = (if ?n = bucket_cnt h \<or> \<not> m then Some h
      else move_buckets (buckets h) (h\<lparr>buckets := replicate (unat ?n) [], bucket_cnt := ?n\<rparr>))"
    using k(2) wrap by (simp add: rehash_def Let_def flip: n0_def)
  have "wf_buckets (h\<lparr>buckets := replicate (unat ?n) [], bucket_cnt := ?n\<rparr>)"
    using k(1) by (auto simp: wf_buckets_def)
  from move_buckets_ok [OF this, of "buckets h"] obtain bs where
    "move_buckets (buckets h) (h\<lparr>buckets := replicate (unat ?n) [], bucket_cnt := ?n\<rparr>) =
       Some (h\<lparr>bucket_cnt := ?n, buckets := bs\<rparr>)"
    "wf_buckets (h\<lparr>bucket_cnt := ?n, buckets := bs\<rparr>)" "mset (concat bs) = mset (concat (buckets h))"
    by auto
  note moved = this
  show ?thesis
  proof (cases "?n = bucket_cnt h \<or> \<not> m")
    case True
    then show ?thesis
      unfolding body using assms(1) by (auto intro!: exI [of _ "buckets h"] exI [of _ "bucket_cnt h"])
  qed (use moved body in auto)
qed

section \<open>Search and update\<close>

lemma find_SomeD: "find P xs = Some x \<Longrightarrow> x \<in> set xs \<and> P x"
  by (induction xs) (auto split: if_splits)

lemma find_NoneD: "find P xs = None \<Longrightarrow> x \<in> set xs \<Longrightarrow> \<not> P x"
  by (induction xs) (auto split: if_splits)

lemma set_concat_mset: "mset (concat bs) = mset (concat cs) \<Longrightarrow> set (concat bs) = set (concat cs)"
  by (rule mset_eq_setD)

lemma concat_remove1:
  assumes "distinct (concat bs)"
  shows "set (concat (map (remove1 x) bs)) = set (concat bs) - {x}" "distinct (concat (map (remove1 x) bs))"
    "x \<in> set (concat bs) \<Longrightarrow> length (concat (map (remove1 x) bs)) = length (concat bs) - 1"
proof -
  show d: "set (concat (map (remove1 x) bs)) = set (concat bs) - {x}" "distinct (concat (map (remove1 x) bs))"
    using assms by (induction bs) (auto dest!: notin_set_remove1)
  show "length (concat (map (remove1 x) bs)) = length (concat bs) - 1" if "x \<in> set (concat bs)"
    using distinct_card [OF d(2)] distinct_card [OF assms] d(1) that by (simp only: card_Diff_singleton)
qed

context hash_functions
begin

lemma find_elem_eqv:
  assumes "wf_hash hf lf h"
  shows "\<exists>r. hash_find h e = Some r \<and> find_elem h (bucket_idx h e) e = r \<and>
     (case r of Some x \<Rightarrow> x \<in> elems h \<and> eqv x e | None \<Rightarrow> \<forall>x \<in> elems h. \<not> eqv x e)"
proof -
  have wf: "wf_buckets h" "hash_fn h = hf" "less_fn h = lf" using assms by (simp_all add: wf_hash_def)
  have same: "bucket_idx h x = bucket_idx h e" if "eqv x e" for x
    using hash_eq [of x e] that wf(2) by (simp add: bucket_idx_def eqv_def)
  have "x \<in> set (buckets h ! bucket_idx h e)" if "x \<in> elems h" "eqv x e" for x
    using elems_bucket [OF wf(1), of x] same that by simp
  moreover have "x \<in> elems h" if "x \<in> set (buckets h ! bucket_idx h e)" for x
    using that wf_buckets_idx [OF wf(1), of e] by (auto simp: elems_def)
  ultimately show ?thesis
    using wf by (cases "find_elem h (bucket_idx h e) e")
      (auto simp: hash_find_def wf_buckets_find find_elem_def eqv_def dest: find_SomeD find_NoneD)
qed

lemma wf_hash_rehash:
  assumes "wf_hash hf lf h" "length (concat (buckets h)) < 2 ^ 29"
  shows "\<exists>h'. rehash m h = Some h' \<and> wf_hash hf lf h' \<and> elems h' = elems h \<and>
     length (concat (buckets h')) = length (concat (buckets h))"
proof -
  have "unat (elem_cnt h) < 2 ^ 29" using assms by (simp add: wf_hash_def unat_of_nat)
  then obtain bs n where r: "rehash m h = Some (h\<lparr>bucket_cnt := n, buckets := bs\<rparr>)"
     "wf_buckets (h\<lparr>bucket_cnt := n, buckets := bs\<rparr>)" "mset (concat bs) = mset (concat (buckets h))"
    using rehash_ok [of h m] assms(1) by (auto simp: wf_hash_def)
  have "set (concat bs) = set (concat (buckets h))" using r(3) by (rule mset_eq_setD)
  moreover have "length (concat bs) = length (concat (buckets h))" using r(3) by (rule mset_eq_length)
  moreover have "distinct (concat bs)"
    using mset_eq_imp_distinct_iff [OF r(3)] assms(1) by (simp add: wf_hash_def)
  moreover have "elems (h\<lparr>bucket_cnt := n, buckets := bs\<rparr>) = elems h"
    using calculation(1) by (simp only: elems_def) simp
  ultimately show ?thesis
    using r assms(1) by (simp add: wf_hash_def)
qed

lemma wf_hash_insert:
  assumes "wf_hash hf lf h" "\<forall>x \<in> elems h. \<not> eqv x e"
  defines "h' \<equiv> insert_elem (bucket_idx h e) e h"
  shows "wf_hash hf lf h'" "elems h' = insert e (elems h)"
    "length (concat (buckets h')) = Suc (length (concat (buckets h)))"
proof -
  have wf: "wf_buckets h" using assms(1) by (simp add: wf_hash_def)
  have "mset (concat (buckets h')) = add_mset e (mset (concat (buckets h)))"
    using mset_concat_update [OF wf_buckets_idx [OF wf], of e e] by (simp add: h'_def insert_elem_def)
  then have m: "mset (concat (buckets h')) = mset (e # concat (buckets h))" by simp
  show len: "length (concat (buckets h')) = Suc (length (concat (buckets h)))"
    using mset_eq_length [OF m] by simp
  show el: "elems h' = insert e (elems h)" using mset_eq_setD [OF m] by (simp add: elems_def)
  have "e \<notin> elems h" using assms(2) lf_irrefl by (auto simp: eqv_def)
  then have "distinct (concat (buckets h'))"
    using mset_eq_imp_distinct_iff [OF m] assms(1) by (simp add: wf_hash_def elems_def)
  moreover have "wf_buckets h'"
    using wf_buckets_push [OF wf, of e] by (simp add: h'_def insert_elem_def wf_buckets_elem_cnt)
  moreover have "hash_fn h' = hf" "less_fn h' = lf" "elem_cnt h' = elem_cnt h + 1"
    using assms(1) by (simp_all add: wf_hash_def h'_def insert_elem_def)
  ultimately show "wf_hash hf lf h'"
    using assms(1,2) len el by (auto simp: wf_hash_def eqv_def)
qed

lemma wf_hash_remove:
  assumes "wf_hash hf lf h" "x \<in> elems h"
  defines "h' \<equiv> remove_elem x h"
  shows "wf_hash hf lf h'" "elems h' = elems h - {x}"
    "Suc (length (concat (buckets h'))) = length (concat (buckets h))"
proof -
  have d: "distinct (concat (buckets h))" and wf: "wf_buckets h" using assms(1) by (simp_all add: wf_hash_def)
  have b: "buckets h' = map (remove1 x) (buckets h)" by (simp add: h'_def remove_elem_def)
  show el: "elems h' = elems h - {x}" using concat_remove1(1) [OF d] by (simp only: elems_def b)
  have x: "x \<in> set (concat (buckets h))" using assms(2) by (simp only: elems_def)
  then have "concat (buckets h) \<noteq> []" by force
  then show len: "Suc (length (concat (buckets h'))) = length (concat (buckets h))"
    unfolding b concat_remove1(3) [OF d x] by (cases "concat (buckets h)") auto
  have "wf_buckets h'"
    using wf notin_set_remove1 unfolding wf_buckets_def
    by (fastforce simp: h'_def remove_elem_def bucket_idx_def)
  moreover have "hash_fn h' = hf" "less_fn h' = lf" "elem_cnt h' = elem_cnt h - 1"
    using assms(1) by (simp_all add: wf_hash_def h'_def remove_elem_def)
  moreover have "elem_cnt h - 1 = of_nat (length (concat (buckets h')))"
    using assms(1) by (simp add: wf_hash_def flip: len)
  ultimately show "wf_hash hf lf h'"
    using assms(1) el concat_remove1(2) [OF d, of x] by (auto simp: wf_hash_def b)
qed

lemma room_rehash:
  assumes "wf_hash hf lf h" "length (concat (buckets h)) + k < 2 ^ 29"
  shows "\<exists>h'. rehash m h = Some h' \<and> wf_hash hf lf h' \<and> elems h' = elems h \<and>
     length (concat (buckets h')) + k < 2 ^ 29"
  using wf_hash_rehash [OF assms(1), of m] assms(2) by auto

end

section \<open>The table contract\<close>

text \<open>
  What users of a table rely on. A request is answered by an element equal to the given one if
  the table holds one and by a null pointer otherwise, and changes the set of elements as the
  comments in \<^verbatim>\<open>hash.c\<close> say.
\<close>

datatype 'e table_op = Find 'e | Insert 'e | Replace 'e | Delete 'e

fun op_elem :: "'e table_op \<Rightarrow> 'e" where
  "op_elem (Find e) = e"
| "op_elem (Insert e) = e"
| "op_elem (Replace e) = e"
| "op_elem (Delete e) = e"

definition answer :: "('e \<Rightarrow> 'e \<Rightarrow> bool) \<Rightarrow> 'e set \<Rightarrow> 'e \<Rightarrow> 'e option \<Rightarrow> bool" where
  "answer eq S e r \<longleftrightarrow> (case r of Some x \<Rightarrow> x \<in> S \<and> eq x e | None \<Rightarrow> \<forall>x \<in> S. \<not> eq x e)"

fun new_content :: "'e table_op \<Rightarrow> 'e option \<Rightarrow> 'e set \<Rightarrow> 'e set" where
  "new_content (Find e) r S = S"
| "new_content (Insert e) r S = (if r = None then insert e S else S)"
| "new_content (Replace e) r S = insert e (S - set_option r)"
| "new_content (Delete e) r S = S - set_option r"

inductive table_trace ::
  "('e \<Rightarrow> 'e \<Rightarrow> bool) \<Rightarrow> 'e set \<Rightarrow> ('e table_op \<times> 'e option) list \<Rightarrow> 'e set \<Rightarrow> bool" for eq where
  table_nil: "table_trace eq S [] S"
| table_step: "answer eq S (op_elem q) r \<Longrightarrow> table_trace eq (new_content q r S) tr S' \<Longrightarrow>
    table_trace eq S ((q, r) # tr) S'"

inductive_simps table_trace_Nil [simp]: "table_trace eq S [] S'"
inductive_simps table_trace_Cons [simp]: "table_trace eq S ((q, r) # tr) S'"

text \<open>One request to a hash table; the flag is the outcome of a \<open>malloc\<close> in \<open>rehash\<close>.\<close>

fun hash_op :: "bool \<times> 'e table_op \<Rightarrow> 'e hash \<Rightarrow> ('e hash \<times> 'e option) option" where
  "hash_op (m, Find e) h = map_option (\<lambda>r. (h, r)) (hash_find h e)"
| "hash_op (m, Insert e) h = hash_insert m h e"
| "hash_op (m, Replace e) h = hash_replace m h e"
| "hash_op (m, Delete e) h = hash_delete m h e"

primrec run_ops ::
  "('q \<Rightarrow> 't \<Rightarrow> ('t \<times> 'r) option) \<Rightarrow> 'q list \<Rightarrow> 't \<Rightarrow> ('t \<times> 'r list) option" where
  "run_ops f [] t = Some (t, [])"
| "run_ops f (q # qs) t = do {
     (t, r) \<leftarrow> f q t;
     (t, rs) \<leftarrow> run_ops f qs t;
     Some (t, r # rs) }"

locale elem_table =
  fixes ok :: "nat \<Rightarrow> 't \<Rightarrow> bool"
    and content :: "'t \<Rightarrow> 'e set"
    and eq :: "'e \<Rightarrow> 'e \<Rightarrow> bool"
    and request :: "'m \<times> 'e table_op \<Rightarrow> 't \<Rightarrow> ('t \<times> 'e option) option"
  assumes request_law: "ok (Suc k) t \<Longrightarrow> \<exists>t' r. request (m, q) t = Some (t', r) \<and> ok k t' \<and>
      answer eq (content t) (op_elem q) r \<and> content t' = new_content q r (content t)"
begin

lemma refines_trace:
  "ok (length qs) t \<Longrightarrow> \<exists>t' rs. run_ops request qs t = Some (t', rs) \<and> ok 0 t' \<and> length rs = length qs \<and>
     table_trace eq (content t) (zip (map snd qs) rs) (content t')"
proof (induction qs arbitrary: t)
  case (Cons mq qs)
  obtain m q where mq: "mq = (m, q)" by fastforce
  from request_law [of "length qs" t m q] Cons.prems obtain t1 r where
    s: "request (m, q) t = Some (t1, r)" "ok (length qs) t1" "answer eq (content t) (op_elem q) r"
      "content t1 = new_content q r (content t)"
    by auto
  from Cons.IH [OF s(2)] obtain t2 rs where
    "run_ops request qs t1 = Some (t2, rs)" "ok 0 t2" "length rs = length qs"
      "table_trace eq (content t1) (zip (map snd qs) rs) (content t2)" by blast
  then show ?case using s by (simp add: mq)
qed simp

end

definition hash_room :: "('e \<Rightarrow> u32) \<Rightarrow> ('e \<Rightarrow> 'e \<Rightarrow> bool) \<Rightarrow> nat \<Rightarrow> 'e hash \<Rightarrow> bool" where
  "hash_room hf lf k h \<longleftrightarrow> wf_hash hf lf h \<and> length (concat (buckets h)) + k < 2 ^ 29"

context hash_functions
begin

lemma hash_room_D:
  assumes "hash_room hf lf k h"
  shows "wf_hash hf lf h" "length (concat (buckets h)) + k < 2 ^ 29"
  using assms by (simp_all add: hash_room_def)

lemma hash_lookup:
  assumes "hash_room hf lf k h"
  shows "find_bucket h e = Some (bucket_idx h e)"
    "answer eqv (elems h) e (find_elem h (bucket_idx h e) e)"
    "hash_find h e = Some (find_elem h (bucket_idx h e) e)"
  using hash_room_D(1) [OF assms] find_elem_eqv [of h e] wf_buckets_find [of h e]
  by (auto simp: wf_hash_def answer_def)

lemma hash_insert_request:
  assumes room: "hash_room hf lf (Suc k) h"
  shows "\<exists>h' r. hash_insert m h e = Some (h', r) \<and> hash_room hf lf k h' \<and>
      answer eqv (elems h) e r \<and> elems h' = new_content (Insert e) r (elems h)"
proof -
  note l = hash_room_D(1) [OF room] hash_lookup [OF room, of e] hash_room_D(2) [OF room]
  define r where "r = find_elem h (bucket_idx h e) e"
  define h1 where "h1 = (if r = None then insert_elem (bucket_idx h e) e h else h)"
  have "wf_hash hf lf h1 \<and> elems h1 = new_content (Insert e) r (elems h) \<and> length (concat (buckets h1)) + k < 2 ^ 29"
    using wf_hash_insert [OF l(1), of e] l by (auto simp: h1_def answer_def r_def)
  then obtain h2 where "rehash m h1 = Some h2" "hash_room hf lf k h2" "elems h2 = new_content (Insert e) r (elems h)"
    using room_rehash [of h1 k m] by (auto simp: hash_room_def)
  moreover have "hash_insert m h e = do { h \<leftarrow> rehash m h1; Some (h, r) }"
    using l(2) by (simp add: hash_insert_def Let_def h1_def flip: r_def)
  ultimately show ?thesis using l(3) by (simp add: r_def)
qed

lemma hash_delete_request:
  assumes room: "hash_room hf lf (Suc k) h"
  shows "\<exists>h' r. hash_delete m h e = Some (h', r) \<and> hash_room hf lf k h' \<and>
      answer eqv (elems h) e r \<and> elems h' = new_content (Delete e) r (elems h)"
proof (cases "find_elem h (bucket_idx h e) e")
  case None
  then show ?thesis using hash_lookup [OF room, of e] room by (simp add: hash_delete_def hash_room_def)
next
  case (Some x)
  note l = hash_room_D(1) [OF room] hash_lookup [OF room, of e] hash_room_D(2) [OF room]
  have x: "x \<in> elems h" using l(3) Some by (simp add: answer_def)
  obtain h2 where "rehash m (remove_elem x h) = Some h2" "hash_room hf lf k h2" "elems h2 = elems h - {x}"
    using room_rehash [OF wf_hash_remove(1) [OF l(1) x], of k m] wf_hash_remove(2,3) [OF l(1) x] l(5)
    by (auto simp: hash_room_def)
  then show ?thesis using l(2,3) Some by (simp add: hash_delete_def)
qed

lemma hash_replace_request:
  assumes room: "hash_room hf lf (Suc k) h"
  shows "\<exists>h' r. hash_replace m h e = Some (h', r) \<and> hash_room hf lf k h' \<and>
      answer eqv (elems h) e r \<and> elems h' = new_content (Replace e) r (elems h)"
proof -
  note l = hash_room_D(1) [OF room] hash_lookup [OF room, of e] hash_room_D(2) [OF room]
  define r where "r = find_elem h (bucket_idx h e) e"
  define h0 where "h0 = (case r of Some x \<Rightarrow> remove_elem x h | None \<Rightarrow> h)"
  have h0: "wf_hash hf lf h0" "elems h0 = elems h - set_option r"
    "length (concat (buckets h0)) \<le> length (concat (buckets h))" "bucket_idx h0 = bucket_idx h"
    using l(1,3) wf_hash_remove(1,2) [OF l(1)] Suc_leD [OF eq_imp_le [OF wf_hash_remove(3) [OF l(1)]]]
    by (auto simp: h0_def r_def answer_def remove_elem_def bucket_idx_def fun_eq_iff split: option.splits)
  have none: "\<forall>x \<in> elems h0. \<not> eqv x e"
  proof
    fix x assume x: "x \<in> elems h0"
    show "\<not> eqv x e"
    proof (cases r)
      case None
      then show ?thesis using l(3) x h0(2) by (auto simp: r_def answer_def)
    next
      case (Some y)
      then have "y \<in> elems h" "eqv y e" using l(3) by (auto simp: r_def answer_def)
      moreover have "x \<in> elems h" "x \<noteq> y" using x h0(2) Some by auto
      ultimately show ?thesis
        using l(1) eq_trans [of x e y] by (auto simp: wf_hash_def eqv_def)
    qed
  qed
  define h1 where "h1 = insert_elem (bucket_idx h e) e h0"
  have h1: "wf_hash hf lf h1" "elems h1 = insert e (elems h - set_option r)" "length (concat (buckets h1)) + k < 2 ^ 29"
    using wf_hash_insert [OF h0(1) none] h0 l(5) by (simp_all add: h1_def)
  obtain h2 where "rehash m h1 = Some h2" "hash_room hf lf k h2" "elems h2 = elems h1"
    using room_rehash [OF h1(1,3), of m] by (auto simp: hash_room_def)
  moreover have "hash_replace m h e = do { h \<leftarrow> rehash m h1; Some (h, r) }"
    using l(2) by (simp add: hash_replace_def Let_def h1_def h0_def flip: r_def)
  ultimately show ?thesis using l(3) h1(2) by (simp add: r_def)
qed

lemma hash_request:
  assumes "hash_room hf lf (Suc k) h"
  shows "\<exists>h' r. hash_op (m, q) h = Some (h', r) \<and> hash_room hf lf k h' \<and>
      answer eqv (elems h) (op_elem q) r \<and> elems h' = new_content q r (elems h)"
proof (cases q)
  case (Find e)
  then show ?thesis using hash_lookup [OF assms, of e] assms by (simp add: hash_room_def)
qed (use hash_insert_request [OF assms] hash_replace_request [OF assms] hash_delete_request [OF assms] in auto)

end

sublocale hash_functions \<subseteq> hash_contract: elem_table "hash_room hf lf" elems eqv hash_op
  by unfold_locales (rule hash_request)

context hash_functions
begin

lemma hash_refines_table:
  assumes "hash_room hf lf (length qs) h"
  shows "\<exists>h' rs. run_ops hash_op qs h = Some (h', rs) \<and> wf_hash hf lf h' \<and> length rs = length qs \<and>
     table_trace (\<lambda>a b. \<not> lf a b \<and> \<not> lf b a) (elems h) (zip (map snd qs) rs) (elems h')"
proof -
  have "eqv = (\<lambda>a b. \<not> lf a b \<and> \<not> lf b a)" by (simp add: fun_eq_iff eqv_def)
  then show ?thesis using hash_contract.refines_trace [OF assms] by (auto simp: hash_room_def)
qed

end

section \<open>Iteration\<close>

text \<open>What is left to visit from an iterator position.\<close>

fun rest :: "'e list \<Rightarrow> 'e cursor \<Rightarrow> 'e list" where
  "rest xs AtHead = xs"
| "rest xs (AtElem e) = tl (dropWhile (\<lambda>x. x \<noteq> e) xs)"
| "rest xs AtNull = []"

definition to_visit :: "'e hash \<Rightarrow> 'e hash_iterator \<Rightarrow> 'e list" where
  "to_visit h i = rest (buckets h ! it_bucket i) (it_elem i) @ concat (drop (Suc (it_bucket i)) (buckets h))"

definition valid_iter :: "'e hash \<Rightarrow> 'e hash_iterator \<Rightarrow> bool" where
  "valid_iter h i \<longleftrightarrow> it_bucket i < length (buckets h) \<and>
     (case it_elem i of AtHead \<Rightarrow> True | AtElem e \<Rightarrow> e \<in> set (buckets h ! it_bucket i) | AtNull \<Rightarrow> False)"

lemma dropWhile_neq: "e \<in> set xs \<Longrightarrow> dropWhile (\<lambda>x. x \<noteq> e) xs = e # rest xs (AtElem e)"
  by (induction xs) auto

lemma rest_AtElem: "distinct (ys @ e # zs) \<Longrightarrow> rest (ys @ e # zs) (AtElem e) = zs"
  by (induction ys) auto

lemma skip_empty_spec:
  "(case concat bs of [] \<Rightarrow> it_elem (skip_empty i bs) = AtNull
    | x # r \<Rightarrow> \<exists>j zs. j < length bs \<and> bs ! j = x # zs \<and> skip_empty i bs = \<lparr>it_bucket = i + j, it_elem = AtElem x\<rparr> \<and>
        r = zs @ concat (drop (Suc j) bs))"
proof (induction bs arbitrary: i)
  case (Cons b bs)
  show ?case
  proof (cases b)
    case Nil
    show ?thesis
    proof (cases "concat bs")
      case (Cons x r)
      then obtain j zs where "j < length bs" "bs ! j = x # zs"
        "skip_empty (Suc i) bs = \<lparr>it_bucket = Suc i + j, it_elem = AtElem x\<rparr>" "r = zs @ concat (drop (Suc j) bs)"
        using Cons.IH [of "Suc i"] by auto
      then show ?thesis using Nil \<open>concat bs = x # r\<close> by (auto intro!: exI [of _ "Suc j"])
    next
      case emp: Nil
      show ?thesis using Cons.IH [of "Suc i", unfolded emp] Nil by (simp add: emp del: concat_eq_Nil_conv)
    qed
  next
    case b: (Cons x zs)
    then show ?thesis by (auto intro!: exI [of _ 0])
  qed
qed simp

lemma hash_next_visits:
  assumes "valid_iter h i" "\<And>b. b \<in> set (buckets h) \<Longrightarrow> distinct b"
  shows "\<exists>i'. hash_next h i = Some i' \<and> (case to_visit h i of [] \<Rightarrow> hash_cur i' = None
     | x # r \<Rightarrow> hash_cur i' = Some x \<and> valid_iter h i' \<and> to_visit h i' = r)"
proof -
  let ?xs = "buckets h ! it_bucket i" and ?c = "it_elem i"
  have b: "it_bucket i < length (buckets h)" "?c \<noteq> AtNull" using assms(1) by (auto simp: valid_iter_def)
  then have d: "distinct ?xs" using assms(2) by simp
  have nxt: "next_in ?xs ?c = (case rest ?xs ?c of [] \<Rightarrow> None | y # _ \<Rightarrow> Some y)"
    using assms(1) dropWhile_neq [of _ ?xs] by (cases ?c) (auto simp: valid_iter_def split: list.splits)
  show ?thesis
  proof (cases "rest ?xs ?c")
    case Nil
    let ?k = "Suc (it_bucket i)" and ?D = "drop (Suc (it_bucket i)) (buckets h)"
    have step: "hash_next h i = Some (skip_empty ?k ?D)" using Nil b nxt by (simp add: hash_next_def)
    have visit: "to_visit h i = concat ?D" using Nil by (simp add: to_visit_def)
    show ?thesis
    proof (cases "concat ?D")
      case emp: Nil
      show ?thesis using step skip_empty_spec [of ?k ?D, unfolded emp] by (simp add: visit emp hash_cur_def del: concat_eq_Nil_conv)
    next
      case (Cons x r)
      then obtain j zs where j: "j < length ?D" "?D ! j = x # zs"
        "skip_empty ?k ?D = \<lparr>it_bucket = ?k + j, it_elem = AtElem x\<rparr>" "r = zs @ concat (drop (Suc j) ?D)"
        using skip_empty_spec [of ?k ?D] by auto
      define i' where "i' = \<lparr>it_bucket = ?k + j, it_elem = AtElem x\<rparr>"
      have at: "buckets h ! (?k + j) = x # zs" using j(1,2) by (simp add: ac_simps)
      have "valid_iter h i'" using j(1) at by (simp add: valid_iter_def i'_def)
      moreover have "drop (Suc j) ?D = drop (Suc (?k + j)) (buckets h)" by (simp add: ac_simps)
      then have "to_visit h i' = r" using at j(4) by (simp add: to_visit_def i'_def)
      moreover have "hash_cur i' = Some x" by (simp add: hash_cur_def i'_def)
      moreover have "hash_next h i = Some i'" using step j(3) by (simp add: i'_def)
      ultimately show ?thesis using visit Cons by simp
    qed
  next
    case (Cons y zs)
    obtain pre where pre: "?xs = pre @ y # zs"
    proof (cases ?c)
      case (AtElem e)
      then have "dropWhile (\<lambda>x. x \<noteq> e) ?xs = e # y # zs"
        using dropWhile_neq [of e ?xs] assms(1) Cons by (simp add: valid_iter_def)
      then have "?xs = (takeWhile (\<lambda>x. x \<noteq> e) ?xs @ [e]) @ y # zs"
        using takeWhile_dropWhile_id [of "\<lambda>x. x \<noteq> e" ?xs] by simp
      then show ?thesis by (rule that)
    qed (use that [of "[]"] Cons b in auto)
    then have "rest ?xs (AtElem y) = zs" using rest_AtElem d by metis
    moreover have "y \<in> set ?xs" by (simp add: pre)
    ultimately show ?thesis
      using b nxt Cons by (simp add: hash_next_def hash_cur_def to_visit_def valid_iter_def)
  qed
qed

lemma hash_walk_visits:
  assumes "\<And>b. b \<in> set (buckets h) \<Longrightarrow> distinct b"
  shows "valid_iter h i \<Longrightarrow> hash_walk h i = Some (to_visit h i)"
proof (induction "length (to_visit h i)" arbitrary: i)
  case 0
  then show ?case
    using hash_next_visits [OF 0(2) assms] by (auto simp: hash_walk.simps [of h i])
next
  case (Suc n)
  then obtain x r where r: "to_visit h i = x # r" by (cases "to_visit h i") auto
  then obtain i' where "hash_next h i = Some i'" "hash_cur i' = Some x" "valid_iter h i'" "to_visit h i' = r"
    using hash_next_visits [OF Suc.prems assms] by auto
  then show ?case using Suc.hyps(1) [of i'] Suc.hyps(2) r by (simp add: hash_walk.simps [of h i])
qed

section \<open>Properties\<close>

text \<open>A comparison by a numeric key, and a table built from it.\<close>

definition key_hash :: "nat \<Rightarrow> u32" where
  "key_hash n = hash_int (of_nat (n div 10))"

definition key_less :: "nat \<Rightarrow> nat \<Rightarrow> bool" where
  "key_less a b \<longleftrightarrow> a div 10 < b div 10"

definition example_ops :: "(bool \<times> nat table_op) list" where
  "example_ops = [(True, Insert 31), (True, Insert 45), (False, Find 37), (True, Replace 39), (True, Delete 42)]"

lemma key_functions: "hash_functions key_hash key_less"
  by unfold_locales (auto simp: key_hash_def key_less_def not_less intro!: arg_cong [of _ _ "\<lambda>n. hash_int (of_nat n)"])

lemma hash_init_room:
  assumes "k < 2 ^ 29"
  shows "hash_room hf lf k (fst (hash_init True hf lf))" "elems (fst (hash_init True hf lf)) = {}"
proof -
  define h where "h = fst (hash_init True hf lf)"
  have h: "buckets h = replicate 4 []" "bucket_cnt h = 4" "hash_fn h = hf" "less_fn h = lf" "elem_cnt h = 0"
    by (simp_all add: h_def hash_init_def hash_clear_def map_replicate_const)
  have "wf_buckets h" unfolding wf_buckets_def using h by (auto intro!: exI [of _ 2])
  then show "hash_room hf lf k (fst (hash_init True hf lf))" "elems (fst (hash_init True hf lf)) = {}"
    unfolding h_def [symmetric] using h assms by (simp_all add: hash_room_def wf_hash_def elems_def)
qed

text \<open>
  C5: a hash table is a set of elements modulo the comparison. Take any sequence of
  \<open>hash_find\<close>, \<open>hash_insert\<close>, \<open>hash_replace\<close> and \<open>hash_delete\<close> requests, with any outcome of the
  allocations in \<open>rehash\<close>, on a well-formed table that stays below \<open>2 ^ 29\<close> elements. Every request
  returns, and the answers are those of the specification \<open>table_trace\<close>: an equal element if there
  is one and null otherwise, with exactly the documented change to the contents. In particular
  growing and shrinking the bucket array never loses, duplicates or misplaces an element.
\<close>

theorem hash_table_refines_set:
  assumes "hash_functions hf lf" "hash_room hf lf (length qs) h"
  shows "\<exists>h' rs. run_ops hash_op qs h = Some (h', rs) \<and> wf_hash hf lf h' \<and> length rs = length qs \<and>
     table_trace (\<lambda>a b. \<not> lf a b \<and> \<not> lf b a) (elems h) (zip (map snd qs) rs) (elems h')"
  using hash_functions.hash_refines_table [OF assms] .

theorem hash_table_refines_set_witness:
  "\<exists>h' rs. run_ops hash_op example_ops (fst (hash_init True key_hash key_less)) = Some (h', rs) \<and>
     wf_hash key_hash key_less h' \<and> length rs = length example_ops \<and>
     table_trace (\<lambda>a b. \<not> key_less a b \<and> \<not> key_less b a) (elems (fst (hash_init True key_hash key_less)))
       (zip (map snd example_ops) rs) (elems h')"
  by (rule hash_table_refines_set [OF key_functions hash_init_room(1)]) (simp add: example_ops_def)

text \<open>
  C27: the iteration idiom \<open>hash_first\<close>, then \<open>hash_next\<close> until it returns null, terminates and
  visits every element of the table exactly once.
\<close>

theorem hash_iteration_complete:
  assumes "wf_hash hf lf h"
  shows "\<exists>xs. hash_walk h hash_first = Some xs \<and> set xs = elems h \<and> distinct xs"
proof -
  have d: "distinct (concat (buckets h))" using assms by (simp add: wf_hash_def)
  obtain k where k: "bucket_cnt h = 2 ^ k" "k < 32" "length (buckets h) = unat (bucket_cnt h)"
    using assms by (auto simp: wf_hash_def wf_buckets_def)
  then have "buckets h \<noteq> []" using unat_2_power [of k] by auto
  then obtain b bs where "buckets h = b # bs" by (cases "buckets h") auto
  then have first: "valid_iter h hash_first" "to_visit h hash_first = concat (buckets h)"
    by (simp_all add: valid_iter_def to_visit_def hash_first_def)
  then have "hash_walk h hash_first = Some (concat (buckets h))"
    using hash_walk_visits [of h hash_first] d by (simp add: distinct_concat_iff)
  then show ?thesis using d by (simp add: elems_def)
qed

theorem hash_iteration_complete_witness:
  "\<exists>h. hash_insert True (fst (hash_init True key_hash key_less)) 7 = Some (h, None) \<and> hash_walk h hash_first = Some [7]"
proof -
  have r: "hash_room key_hash key_less (Suc 0) (fst (hash_init True key_hash key_less))" "elems (fst (hash_init True key_hash key_less)) = {}"
    using hash_init_room [of "Suc 0" key_hash key_less] by simp_all
  obtain h x where h: "hash_insert True (fst (hash_init True key_hash key_less)) 7 = Some (h, x)" "hash_room key_hash key_less 0 h"
      "answer (\<lambda>a b. \<not> key_less a b \<and> \<not> key_less b a) {} 7 x" "elems h = new_content (Insert 7) x {}"
    using hash_functions.hash_insert_request [OF key_functions r(1), of True 7] unfolding r(2) hash_functions.eqv_def [OF key_functions, abs_def] by blast
  have x: "x = None" using h(3) by (auto simp: answer_def split: option.splits)
  obtain xs where xs: "hash_walk h hash_first = Some xs" "set xs = elems h" "distinct xs"
    using hash_iteration_complete [of key_hash key_less h] h(2) by (auto simp: hash_room_def)
  have "xs = [7]" using xs(2,3) h(4) x by (cases xs; cases "tl xs") auto
  then show ?thesis using h(1) x xs(1) by simp
qed

end
