(* ===== verification/Threads.thy ===== *)
theory Threads
  imports Prelude
begin

text \<open>
  \<^verbatim>\<open>threads/thread.c\<close>: the scheduler. One processor runs the thread \<open>cur\<close>; the code between
  \<open>intr_disable\<close> and \<open>intr_set_level\<close> is atomic, and control changes hands only in \<open>schedule\<close>. Thread
  structures are addressed by their page; \<open>ready_list\<close>, \<open>all_list\<close> and the waiter lists of
  semaphores are the sequences of their elements. A thread that has been switched out goes on,
  when it is scheduled again, with the actions that are left of the call it was in
  (theory \<^verbatim>\<open>Synch\<close>).
\<close>

section \<open>State\<close>

type_synonym tptr = nat

datatype thread_status = THREAD_RUNNING | THREAD_READY | THREAD_BLOCKED | THREAD_DYING

datatype intr_level = INTR_OFF | INTR_ON

definition THREAD_MAGIC :: u32 where "THREAD_MAGIC = 0xcd6abf4b"
definition TIME_SLICE :: u32 where "TIME_SLICE = 4"
definition PRI_MIN :: int where "PRI_MIN = 0"
definition PRI_DEFAULT :: int where "PRI_DEFAULT = 31"
definition PRI_MAX :: int where "PRI_MAX = 63"
definition MAX_FILES :: nat where "MAX_FILES = 128"

text \<open>
  The fields of \<^verbatim>\<open>struct thread\<close> that this file owns; the semaphores embedded in it are in the
  semaphore map of theory \<^verbatim>\<open>Synch\<close>, its child list and file table belong to the process layer.
\<close>

record thread =
  tid :: int
  status :: thread_status
  tname :: string
  stack :: nat
  priority :: int
  pagedir :: nat
  parent :: "tptr option"
  num_open_files :: int
  fd_pointers :: "nat list"
  magic :: u32

record sched =
  threads :: "tptr \<rightharpoonup> thread"
  cur :: tptr
  ready_list :: "tptr list"
  all_list :: "tptr list"
  idle_thread :: "tptr option"
  initial_thread :: tptr
  next_tid :: int
  thread_ticks :: u32
  idle_ticks :: int
  kernel_ticks :: int
  user_ticks :: int
  intr :: intr_level
  in_external_intr :: bool
  yield_on_return :: bool
  unexpected_cnt :: "u32 \<Rightarrow> u32"
  ticks :: int

section \<open>Interrupt level\<close>

definition intr_get_level :: "sched \<Rightarrow> intr_level" where
  "intr_get_level st = intr st"

definition intr_enable :: "sched \<Rightarrow> (sched \<times> intr_level) option" where
  "intr_enable st = do {
     let old_level = intr_get_level st;
     c_assert (\<not> in_external_intr st);
     Some (st\<lparr>intr := INTR_ON\<rparr>, old_level) }"

definition intr_disable :: "sched \<Rightarrow> sched \<times> intr_level" where
  "intr_disable st = (st\<lparr>intr := INTR_OFF\<rparr>, intr_get_level st)"

definition intr_set_level :: "intr_level \<Rightarrow> sched \<Rightarrow> (sched \<times> intr_level) option" where
  "intr_set_level level st = (if level = INTR_ON then intr_enable st else Some (intr_disable st))"

definition intr_context :: "sched \<Rightarrow> bool" where
  "intr_context st = in_external_intr st"

definition intr_yield_on_return :: "sched \<Rightarrow> sched option" where
  "intr_yield_on_return st = do {
     c_assert (intr_context st);
     Some (st\<lparr>yield_on_return := True\<rparr>) }"

section \<open>Operations\<close>

definition running_thread :: "sched \<Rightarrow> tptr" where
  "running_thread st = cur st"

definition is_thread :: "sched \<Rightarrow> tptr \<Rightarrow> bool" where
  "is_thread st t = (case threads st t of None \<Rightarrow> False | Some th \<Rightarrow> magic th = THREAD_MAGIC)"

definition set_status :: "tptr \<Rightarrow> thread_status \<Rightarrow> sched \<Rightarrow> sched option" where
  "set_status t s st = do {
     th \<leftarrow> threads st t;
     Some (st\<lparr>threads := (threads st)(t \<mapsto> th\<lparr>status := s\<rparr>)\<rparr>) }"

definition get_status :: "tptr \<Rightarrow> sched \<Rightarrow> thread_status option" where
  "get_status t st = map_option status (threads st t)"

definition thread_current :: "sched \<Rightarrow> tptr option" where
  "thread_current st = do {
     let t = running_thread st;
     c_assert (is_thread st t);
     s \<leftarrow> get_status t st;
     c_assert (s = THREAD_RUNNING);
     Some t }"

definition next_thread_to_run :: "sched \<Rightarrow> sched \<times> tptr option" where
  "next_thread_to_run st = (case ready_list st of
     [] \<Rightarrow> (st, idle_thread st)
   | t # ts \<Rightarrow> (st\<lparr>ready_list := ts\<rparr>, Some t))"

text \<open>
  The address space switch of \<open>process_activate\<close> touches none of this state. Freeing the page of
  the thread that died takes its structure away.
\<close>

definition thread_schedule_tail :: "tptr option \<Rightarrow> sched \<Rightarrow> sched option" where
  "thread_schedule_tail prev st = do {
     let cur = running_thread st;
     c_assert (intr_get_level st = INTR_OFF);
     st \<leftarrow> set_status cur THREAD_RUNNING st;
     let st = st\<lparr>thread_ticks := 0\<rparr>;
     (case prev of
        None \<Rightarrow> Some st
      | Some p \<Rightarrow> do {
          s \<leftarrow> get_status p st;
          if s = THREAD_DYING \<and> p \<noteq> initial_thread st then do {
            c_assert (p \<noteq> cur);
            Some (st\<lparr>threads := (threads st)(p := None)\<rparr>) }
          else Some st }) }"

text \<open>\<open>switch_threads\<close> makes the next thread the running one.\<close>

definition schedule :: "sched \<Rightarrow> sched option" where
  "schedule st = do {
     let c = running_thread st;
     let (st, nxt) = next_thread_to_run st;
     c_assert (intr_get_level st = INTR_OFF);
     s \<leftarrow> get_status c st;
     c_assert (s \<noteq> THREAD_RUNNING);
     n \<leftarrow> nxt;
     c_assert (is_thread st n);
     (if c \<noteq> n then thread_schedule_tail (Some c) (st\<lparr>cur := n\<rparr>)
      else thread_schedule_tail None st) }"

definition thread_block :: "sched \<Rightarrow> sched option" where
  "thread_block st = do {
     c_assert (\<not> intr_context st);
     c_assert (intr_get_level st = INTR_OFF);
     t \<leftarrow> thread_current st;
     st \<leftarrow> set_status t THREAD_BLOCKED st;
     schedule st }"

definition thread_unblock :: "tptr \<Rightarrow> sched \<Rightarrow> sched option" where
  "thread_unblock t st = do {
     c_assert (is_thread st t);
     let (st, old_level) = intr_disable st;
     s \<leftarrow> get_status t st;
     c_assert (s = THREAD_BLOCKED);
     let st = st\<lparr>ready_list := ready_list st @ [t]\<rparr>;
     st \<leftarrow> set_status t THREAD_READY st;
     (st, _) \<leftarrow> intr_set_level old_level st;
     Some st }"

text \<open>
  \<open>thread_yield\<close> up to the switch. What follows \<open>schedule\<close> in the source, restoring the interrupt
  level, runs when the yielding thread is scheduled again.
\<close>

definition thread_yield :: "sched \<Rightarrow> sched option" where
  "thread_yield st = do {
     c \<leftarrow> thread_current st;
     c_assert (\<not> intr_context st);
     let (st, old_level) = intr_disable st;
     let st = (if Some c \<noteq> idle_thread st then st\<lparr>ready_list := ready_list st @ [c]\<rparr> else st);
     st \<leftarrow> set_status c THREAD_READY st;
     schedule st }"

definition thread_tick :: "sched \<Rightarrow> sched option" where
  "thread_tick st = do {
     t \<leftarrow> thread_current st;
     th \<leftarrow> threads st t;
     let st = (if Some t = idle_thread st then st\<lparr>idle_ticks := idle_ticks st + 1\<rparr>
               else if pagedir th \<noteq> 0 then st\<lparr>user_ticks := user_ticks st + 1\<rparr>
               else st\<lparr>kernel_ticks := kernel_ticks st + 1\<rparr>);
     let st = st\<lparr>thread_ticks := thread_ticks st + 1\<rparr>;
     (if TIME_SLICE \<le> thread_ticks st then intr_yield_on_return st else Some st) }"

definition init_thread :: "tptr \<Rightarrow> string \<Rightarrow> int \<Rightarrow> sched \<Rightarrow> sched option" where
  "init_thread t nm prio st = do {
     c_assert (t \<noteq> 0);
     c_assert (PRI_MIN \<le> prio \<and> prio \<le> PRI_MAX);
     let th = \<lparr>tid = 0, status = THREAD_BLOCKED, tname = take 15 nm, stack = t + 4096, priority = prio,
               pagedir = 0, parent = None, num_open_files = 0, fd_pointers = replicate MAX_FILES 0,
               magic = THREAD_MAGIC\<rparr>;
     let st = st\<lparr>threads := (threads st)(t \<mapsto> th)\<rparr>;
     let (st, old_level) = intr_disable st;
     let st = st\<lparr>all_list := all_list st @ [t]\<rparr>;
     (st, _) \<leftarrow> intr_set_level old_level st;
     Some st }"

definition alloc_frame :: "tptr \<Rightarrow> nat \<Rightarrow> sched \<Rightarrow> sched option" where
  "alloc_frame t sz st = do {
     c_assert (is_thread st t);
     c_assert (sz mod 4 = 0);
     th \<leftarrow> threads st t;
     Some (st\<lparr>threads := (threads st)(t \<mapsto> th\<lparr>stack := stack th - sz\<rparr>)\<rparr>) }"

text \<open>The increment is under \<open>tid_lock\<close>, which nothing else takes.\<close>

definition allocate_tid :: "sched \<Rightarrow> sched \<times> int" where
  "allocate_tid st = (st\<lparr>next_tid := next_tid st + 1\<rparr>, next_tid st)"

definition TID_ERROR :: int where "TID_ERROR = -1"

text \<open>
  \<open>page\<close> is the result of \<open>palloc_get_page\<close>, \<open>None\<close> for a null pointer. The three frames hold the
  entry points through which the new thread will reach its function.
\<close>

definition thread_create :: "tptr option \<Rightarrow> string \<Rightarrow> int \<Rightarrow> sched \<Rightarrow> (sched \<times> int) option" where
  "thread_create page nm prio st = (case page of
     None \<Rightarrow> Some (st, TID_ERROR)
   | Some t \<Rightarrow> do {
       st \<leftarrow> init_thread t nm prio st;
       let (st, i) = allocate_tid st;
       th \<leftarrow> threads st t;
       let st = st\<lparr>threads := (threads st)(t \<mapsto> th\<lparr>tid := i\<rparr>)\<rparr>;
       st \<leftarrow> alloc_frame t 12 st;
       st \<leftarrow> alloc_frame t 4 st;
       st \<leftarrow> alloc_frame t 28 st;
       st \<leftarrow> thread_unblock t st;
       Some (st, i) })"

text \<open>
  Interrupts, \<^verbatim>\<open>threads/interrupt.c\<close>. The handler table maps vectors to what the registered function
  does to this state; the writes that acknowledge an interrupt are given as port and byte.
\<close>

definition pic_end_of_interrupt :: "u32 \<Rightarrow> (nat \<times> nat) list option" where
  "pic_end_of_interrupt irq = do {
     c_assert (0x20 \<le> irq \<and> irq < 0x30);
     Some ((0x20, 0x20) # (if 0x28 \<le> irq then [(0xa0, 0x20)] else [])) }"

definition unexpected_interrupt :: "u32 \<Rightarrow> sched \<Rightarrow> sched" where
  "unexpected_interrupt vec_no st = st\<lparr>unexpected_cnt := (unexpected_cnt st)(vec_no := unexpected_cnt st vec_no + 1)\<rparr>"

definition intr_handler :: "(u32 \<rightharpoonup> (sched \<Rightarrow> sched option)) \<Rightarrow> u32 \<Rightarrow> sched \<Rightarrow> sched option" where
  "intr_handler intr_handlers vec_no st = do {
     let external = (0x20 \<le> vec_no \<and> vec_no < 0x30);
     st \<leftarrow> (if external then do {
         c_assert (intr_get_level st = INTR_OFF);
         c_assert (\<not> intr_context st);
         Some (st\<lparr>in_external_intr := True, yield_on_return := False\<rparr>) }
       else Some st);
     st \<leftarrow> (case intr_handlers vec_no of
         Some handler \<Rightarrow> handler st
       | None \<Rightarrow> if vec_no = 0x27 \<or> vec_no = 0x2f then Some st else Some (unexpected_interrupt vec_no st));
     (if external then do {
         c_assert (intr_get_level st = INTR_OFF);
         c_assert (intr_context st);
         let st = st\<lparr>in_external_intr := False\<rparr>;
         eoi \<leftarrow> pic_end_of_interrupt vec_no;
         if yield_on_return st then thread_yield st else Some st }
       else Some st) }"

text \<open>\<^verbatim>\<open>timer_interrupt\<close> of \<^verbatim>\<open>devices/timer.c\<close>, registered for vector 0x20.\<close>

definition timer_interrupt :: "sched \<Rightarrow> sched option" where
  "timer_interrupt st = thread_tick (st\<lparr>ticks := ticks st + 1\<rparr>)"

text \<open>The end of \<open>thread_exit\<close>: leave the list of all threads and never run again.\<close>

definition thread_die :: "sched \<Rightarrow> sched option" where
  "thread_die st = do {
     let (st, _) = intr_disable st;
     t \<leftarrow> thread_current st;
     let st = st\<lparr>all_list := remove1 t (all_list st)\<rparr>;
     st \<leftarrow> set_status t THREAD_DYING st;
     schedule st }"

text \<open>The start of \<open>idle\<close>, run once.\<close>

definition idle_start :: "sched \<Rightarrow> sched option" where
  "idle_start st = do {
     t \<leftarrow> thread_current st;
     Some (st\<lparr>idle_thread := Some t\<rparr>) }"

text \<open>One round of the loop in \<open>idle\<close>; \<open>sti; hlt\<close> follows when it is scheduled again.\<close>

definition idle_round :: "sched \<Rightarrow> sched option" where
  "idle_round st = thread_block (fst (intr_disable st))"

definition thread_init :: "tptr \<Rightarrow> sched \<Rightarrow> sched option" where
  "thread_init page st = do {
     c_assert (intr_get_level st = INTR_OFF);
     let st = st\<lparr>ready_list := [], all_list := [], cur := page, initial_thread := page\<rparr>;
     st \<leftarrow> init_thread (initial_thread st) ''main'' PRI_DEFAULT st;
     st \<leftarrow> set_status (initial_thread st) THREAD_RUNNING st;
     let (st, i) = allocate_tid st;
     th \<leftarrow> threads st (initial_thread st);
     Some (st\<lparr>threads := (threads st)(initial_thread st \<mapsto> th\<lparr>tid := i\<rparr>)\<rparr>) }"

definition thread_foreach :: "(tptr \<Rightarrow> 'w \<Rightarrow> 'w) \<Rightarrow> sched \<Rightarrow> 'w \<Rightarrow> 'w option" where
  "thread_foreach func st w = do {
     c_assert (intr_get_level st = INTR_OFF);
     Some (fold func (all_list st) w) }"

definition thread_set_priority :: "int \<Rightarrow> sched \<Rightarrow> sched option" where
  "thread_set_priority p st = do {
     t \<leftarrow> thread_current st;
     th \<leftarrow> threads st t;
     Some (st\<lparr>threads := (threads st)(t \<mapsto> th\<lparr>priority := p\<rparr>)\<rparr>) }"

definition thread_get_priority :: "sched \<Rightarrow> int option" where
  "thread_get_priority st = do {
     t \<leftarrow> thread_current st;
     th \<leftarrow> threads st t;
     Some (priority th) }"

definition thread_tid :: "sched \<Rightarrow> int option" where
  "thread_tid st = do { t \<leftarrow> thread_current st; th \<leftarrow> threads st t; Some (tid th) }"

definition thread_name :: "sched \<Rightarrow> string option" where
  "thread_name st = do { t \<leftarrow> thread_current st; th \<leftarrow> threads st t; Some (tname th) }"

section \<open>Well-formed scheduler states\<close>

text \<open>
  \<open>W\<close> is the set of threads that wait for some event outside the scheduler, such as on a
  semaphore. Every thread other than the idle thread is in exactly one place: it runs, it is on
  the ready list, or it waits.
\<close>

definition sched_base :: "sched \<Rightarrow> tptr set \<Rightarrow> bool" where
  "sched_base st W \<longleftrightarrow>
     set (ready_list st) = {t. idle_thread st \<noteq> Some t \<and> get_status t st = Some THREAD_READY} \<and>
     W = {t. idle_thread st \<noteq> Some t \<and> get_status t st = Some THREAD_BLOCKED} \<and>
     (\<exists>i s. idle_thread st = Some i \<and> get_status i st = Some s \<and> s \<noteq> THREAD_DYING) \<and>
     distinct (ready_list st) \<and> (\<forall>t. threads st t \<noteq> None \<longrightarrow> is_thread st t) \<and>
     (\<forall>t. get_status t st = Some THREAD_RUNNING \<longrightarrow> t = cur st) \<and> \<not> in_external_intr st"

lemma sched_baseD:
  assumes "sched_base st W"
  shows "t \<in> set (ready_list st) \<longleftrightarrow> idle_thread st \<noteq> Some t \<and> get_status t st = Some THREAD_READY"
    "t \<in> W \<longleftrightarrow> idle_thread st \<noteq> Some t \<and> get_status t st = Some THREAD_BLOCKED"
    "distinct (ready_list st)" "threads st t \<noteq> None \<Longrightarrow> is_thread st t"
    "get_status t st = Some THREAD_RUNNING \<Longrightarrow> t = cur st" "\<not> in_external_intr st"
  using assms unfolding sched_base_def by auto

lemma sched_base_idle:
  assumes "sched_base st W"
  obtains i s where "idle_thread st = Some i" "get_status i st = Some s" "s \<noteq> THREAD_DYING"
  using assms unfolding sched_base_def by auto

lemma sched_baseI:
  assumes "\<And>t. t \<in> set (ready_list st) \<longleftrightarrow> idle_thread st \<noteq> Some t \<and> get_status t st = Some THREAD_READY"
    "\<And>t. t \<in> W \<longleftrightarrow> idle_thread st \<noteq> Some t \<and> get_status t st = Some THREAD_BLOCKED"
    "idle_thread st = Some i" "get_status i st = Some s" "s \<noteq> THREAD_DYING"
    "distinct (ready_list st)" "\<And>t. threads st t \<noteq> None \<Longrightarrow> is_thread st t"
    "\<And>t. get_status t st = Some THREAD_RUNNING \<Longrightarrow> t = cur st" "\<not> in_external_intr st"
  shows "sched_base st W"
  using assms unfolding sched_base_def by (intro conjI set_eqI exI allI impI) simp_all

definition sched_ok :: "sched \<Rightarrow> tptr set \<Rightarrow> bool" where
  "sched_ok st W \<longleftrightarrow> sched_base st W \<and> get_status (cur st) st = Some THREAD_RUNNING \<and>
     (\<forall>t. get_status t st = Some THREAD_DYING \<longrightarrow> t = initial_thread st)"

definition pre_schedule :: "sched \<Rightarrow> tptr set \<Rightarrow> bool" where
  "pre_schedule st W \<longleftrightarrow> sched_base st W \<and> intr st = INTR_OFF \<and>
     get_status (cur st) st \<noteq> None \<and> get_status (cur st) st \<noteq> Some THREAD_RUNNING \<and>
     (\<forall>t. get_status t st = Some THREAD_DYING \<longrightarrow> t = initial_thread st \<or> t = cur st)"

definition upd_status :: "tptr \<Rightarrow> thread_status \<Rightarrow> sched \<Rightarrow> sched" where
  "upd_status t s st = st\<lparr>threads := (threads st)(t := map_option (\<lambda>th. th\<lparr>status := s\<rparr>) (threads st t))\<rparr>"

lemma set_status_eq: "get_status t st \<noteq> None \<Longrightarrow> set_status t s st = Some (upd_status t s st)"
  by (auto simp: set_status_def upd_status_def get_status_def)

lemma upd_status_simps [simp]:
  "get_status u (upd_status t s st) = (if u = t then map_option (\<lambda>_. s) (get_status t st) else get_status u st)"
  "is_thread (upd_status t s st) = is_thread st"
  "threads (upd_status t s st) u = None \<longleftrightarrow> threads st u = None"
  "cur (upd_status t s st) = cur st" "ready_list (upd_status t s st) = ready_list st"
  "all_list (upd_status t s st) = all_list st" "idle_thread (upd_status t s st) = idle_thread st"
  "initial_thread (upd_status t s st) = initial_thread st" "intr (upd_status t s st) = intr st"
  "in_external_intr (upd_status t s st) = in_external_intr st"
  "yield_on_return (upd_status t s st) = yield_on_return st"
  by (auto simp: upd_status_def get_status_def is_thread_def fun_eq_iff option.map_comp comp_def split: option.split)

lemma get_status_upd [simp]:
  "get_status t (st\<lparr>ready_list := r\<rparr>) = get_status t st" "get_status t (st\<lparr>cur := c\<rparr>) = get_status t st"
  "get_status t (st\<lparr>intr := l\<rparr>) = get_status t st" "get_status t (st\<lparr>thread_ticks := k\<rparr>) = get_status t st"
  "get_status t (st\<lparr>all_list := r\<rparr>) = get_status t st" "get_status t (st\<lparr>in_external_intr := x\<rparr>) = get_status t st"
  "get_status t (st\<lparr>yield_on_return := x\<rparr>) = get_status t st"
  "is_thread (st\<lparr>ready_list := r\<rparr>) = is_thread st" "is_thread (st\<lparr>cur := c\<rparr>) = is_thread st"
  "is_thread (st\<lparr>intr := l\<rparr>) = is_thread st" "is_thread (st\<lparr>thread_ticks := k\<rparr>) = is_thread st"
  "is_thread (st\<lparr>all_list := r\<rparr>) = is_thread st" "is_thread (st\<lparr>in_external_intr := x\<rparr>) = is_thread st"
  "is_thread (st\<lparr>yield_on_return := x\<rparr>) = is_thread st"
  by (simp_all add: get_status_def is_thread_def fun_eq_iff)

lemma get_status_None: "get_status t st = None \<longleftrightarrow> threads st t = None"
  by (simp add: get_status_def)

lemma is_thread_status: "sched_base st W \<Longrightarrow> get_status t st \<noteq> None \<Longrightarrow> is_thread st t"
  by (auto simp: sched_base_def get_status_None)

text \<open>The thread that runs next, and the rest of the ready list.\<close>

definition chosen :: "sched \<Rightarrow> tptr" where
  "chosen st = (case ready_list st of [] \<Rightarrow> the (idle_thread st) | t # _ \<Rightarrow> t)"

lemma chosen_idle:
  assumes "sched_base st W" "idle_thread st \<noteq> Some (chosen st)"
  shows "chosen st \<in> set (ready_list st)"
  using assms by (cases "ready_list st") (auto simp: chosen_def elim!: sched_base_idle)

lemma chosen_ready:
  assumes "sched_base st W"
  obtains s where "get_status (chosen st) st = Some s" "s \<noteq> THREAD_DYING" "is_thread st (chosen st)"
proof (cases "idle_thread st = Some (chosen st)")
  case True
  with sched_base_idle [OF assms] obtain s where "get_status (chosen st) st = Some s" "s \<noteq> THREAD_DYING" by auto
  with that is_thread_status [OF assms] show ?thesis by auto
next
  case False
  with chosen_idle [OF assms] sched_baseD(1) [OF assms] have "get_status (chosen st) st = Some THREAD_READY" by blast
  with that is_thread_status [OF assms] show ?thesis by auto
qed

lemma next_thread_to_run_eq:
  assumes "sched_base st W"
  shows "next_thread_to_run st = (st\<lparr>ready_list := tl (ready_list st)\<rparr>, Some (chosen st))"
  using assms by (cases "ready_list st") (auto simp: next_thread_to_run_def chosen_def elim!: sched_base_idle)

text \<open>The state after a switch.\<close>

definition del_thread :: "tptr \<Rightarrow> sched \<Rightarrow> sched" where
  "del_thread t st = st\<lparr>threads := (threads st)(t := None)\<rparr>"

lemma del_thread_simps [simp]:
  "get_status u (del_thread t st) = (if u = t then None else get_status u st)"
  "is_thread (del_thread t st) u \<longleftrightarrow> u \<noteq> t \<and> is_thread st u"
  "threads (del_thread t st) u = (if u = t then None else threads st u)"
  "cur (del_thread t st) = cur st" "ready_list (del_thread t st) = ready_list st"
  "all_list (del_thread t st) = all_list st" "idle_thread (del_thread t st) = idle_thread st"
  "initial_thread (del_thread t st) = initial_thread st" "intr (del_thread t st) = intr st"
  "in_external_intr (del_thread t st) = in_external_intr st"
  by (auto simp: del_thread_def get_status_def is_thread_def)

definition switched :: "sched \<Rightarrow> sched" where
  "switched st =
     (let n = chosen st;
          st' = (upd_status n THREAD_RUNNING (st\<lparr>ready_list := tl (ready_list st), cur := n\<rparr>))\<lparr>thread_ticks := 0\<rparr>
      in if get_status (cur st) st = Some THREAD_DYING \<and> cur st \<noteq> initial_thread st
         then del_thread (cur st) st' else st')"

lemma schedule_eq:
  assumes "pre_schedule st W"
  shows "schedule st = Some (switched st)"
proof -
  have b: "sched_base st W" using assms by (simp add: pre_schedule_def)
  obtain sc where c: "get_status (chosen st) st = Some sc" "sc \<noteq> THREAD_DYING" "is_thread st (chosen st)"
    using chosen_ready [OF b] .
  have s: "get_status (cur st) st \<noteq> None" "get_status (cur st) st \<noteq> Some THREAD_RUNNING" "intr st = INTR_OFF"
    using assms by (auto simp: pre_schedule_def)
  then obtain s where s': "get_status (cur st) st = Some s" "s \<noteq> THREAD_RUNNING" by auto
  show ?thesis
  proof (cases "cur st = chosen st")
    case True
    have e: "st\<lparr>ready_list := r, cur := chosen st\<rparr> = st\<lparr>ready_list := r\<rparr>" for r
      unfolding True [symmetric] by simp
    from True c s s' show ?thesis
      by (simp add: e schedule_def next_thread_to_run_eq [OF b] running_thread_def intr_get_level_def
          thread_schedule_tail_def set_status_eq switched_def Let_def del_thread_def)
  next
    case False
    with c s s' show ?thesis
      by (auto simp add: schedule_def next_thread_to_run_eq [OF b] running_thread_def intr_get_level_def
          thread_schedule_tail_def set_status_eq switched_def Let_def del_thread_def)
  qed
qed

lemma switched_simps [simp]:
  "cur (switched st) = chosen st" "ready_list (switched st) = tl (ready_list st)"
  "all_list (switched st) = all_list st" "idle_thread (switched st) = idle_thread st"
  "initial_thread (switched st) = initial_thread st" "intr (switched st) = intr st"
  "in_external_intr (switched st) = in_external_intr st"
  by (simp_all add: switched_def Let_def)

lemma get_status_switched:
  "get_status t (switched st) =
     (if t = cur st \<and> get_status t st = Some THREAD_DYING \<and> t \<noteq> initial_thread st then None
      else if t = chosen st then map_option (\<lambda>_. THREAD_RUNNING) (get_status t st) else get_status t st)"
  by (auto simp: switched_def Let_def)

lemma is_thread_switched:
  "is_thread st t \<Longrightarrow> threads (switched st) t \<noteq> None \<Longrightarrow> is_thread (switched st) t"
  by (auto simp: switched_def Let_def split: if_splits)

lemma sched_ok_switched:
  assumes "pre_schedule st W"
  shows "sched_ok (switched st) W"
proof -
  have b: "sched_base st W" and rc: "get_status (cur st) st \<noteq> Some THREAD_RUNNING"
    and dy: "\<And>t. get_status t st = Some THREAD_DYING \<Longrightarrow> t = initial_thread st \<or> t = cur st"
    using assms by (auto simp: pre_schedule_def)
  note D = sched_baseD [OF b]
  have nr: "get_status t st \<noteq> Some THREAD_RUNNING" for t using D(5) [of t] rc by auto
  obtain sc where c: "get_status (chosen st) st = Some sc" "sc \<noteq> THREAD_DYING" "is_thread st (chosen st)"
    using chosen_ready [OF b] .
  obtain i s where i: "idle_thread st = Some i" "get_status i st = Some s" "s \<noteq> THREAD_DYING"
    using sched_base_idle [OF b] .
  have tl: "t \<in> set (tl (ready_list st)) \<longleftrightarrow> t \<in> set (ready_list st) \<and> t \<noteq> chosen st" for t
    using D(3) D(1) [of i] i by (cases "ready_list st") (auto simp: chosen_def)
  have ch: "chosen st \<noteq> i \<Longrightarrow> sc = THREAD_READY"
    using chosen_idle [OF b] D(1) [of "chosen st"] i c by auto
  have base: "sched_base (switched st) W"
  proof (rule sched_baseI)
    show "t \<in> set (ready_list (switched st)) \<longleftrightarrow>
        idle_thread (switched st) \<noteq> Some t \<and> get_status t (switched st) = Some THREAD_READY" for t
      unfolding switched_simps tl D(1) [of t] using c by (auto simp: get_status_switched)
    show "t \<in> W \<longleftrightarrow> idle_thread (switched st) \<noteq> Some t \<and> get_status t (switched st) = Some THREAD_BLOCKED" for t
      unfolding switched_simps D(2) [of t] using c ch i by (auto simp: get_status_switched)
    show "get_status i (switched st) = Some (if i = chosen st then THREAD_RUNNING else s)"
      using i by (auto simp: get_status_switched)
    show "is_thread (switched st) t" if "threads (switched st) t \<noteq> None" for t
    proof (rule is_thread_switched [OF _ that])
      from that have "get_status t (switched st) \<noteq> None" by (simp add: get_status_None)
      then have "get_status t st \<noteq> None" by (auto simp: get_status_switched split: if_splits)
      then show "is_thread st t" using is_thread_status [OF b] by blast
    qed
    show "t = cur (switched st)" if "get_status t (switched st) = Some THREAD_RUNNING" for t
      using that nr [of t] by (simp add: get_status_switched split: if_splits)
  qed (use i D(3,6) in \<open>simp_all add: distinct_tl\<close>)
  moreover have "get_status (chosen st) (switched st) = Some THREAD_RUNNING"
    using c by (simp add: get_status_switched)
  moreover have "get_status t (switched st) = Some THREAD_DYING \<Longrightarrow> t = initial_thread st" for t
    using dy [of t] by (auto simp: get_status_switched split: if_splits)
  ultimately show ?thesis by (simp add: sched_ok_def)
qed

section \<open>The operations keep scheduler states well-formed\<close>

lemma thread_current_ok: "sched_ok st W \<Longrightarrow> thread_current st = Some (cur st)"
  by (auto simp: thread_current_def running_thread_def sched_ok_def sched_base_def get_status_def)

lemma sched_ok_intr [simp]: "sched_ok (st\<lparr>intr := l\<rparr>) W = sched_ok st W"
  by (simp add: sched_ok_def sched_base_def)

lemma sched_okD:
  assumes "sched_ok st W"
  shows "sched_base st W" "get_status (cur st) st = Some THREAD_RUNNING"
    "get_status t st = Some THREAD_DYING \<Longrightarrow> t = initial_thread st" "\<not> in_external_intr st"
    "cur st \<notin> set (ready_list st)" "cur st \<notin> W"
  using assms by (auto simp: sched_ok_def sched_baseD)

text \<open>The running thread leaves the processor with status \<open>s\<close>.\<close>

lemma pre_schedule_upd:
  assumes ok: "sched_ok st W" and s: "s \<noteq> THREAD_RUNNING" "s = THREAD_DYING \<Longrightarrow> idle_thread st \<noteq> Some (cur st)"
    and r: "r = ready_list st @ (if s = THREAD_READY \<and> idle_thread st \<noteq> Some (cur st) then [cur st] else [])"
    and W: "W' = (if s = THREAD_BLOCKED \<and> idle_thread st \<noteq> Some (cur st) then insert (cur st) W else W)"
  shows "pre_schedule (upd_status (cur st) s (st\<lparr>intr := INTR_OFF, ready_list := r\<rparr>)) W'"
proof -
  note b = sched_okD [OF ok] and D = sched_baseD [OF sched_okD(1) [OF ok]]
  obtain i si where i: "idle_thread st = Some i" "get_status i st = Some si" "si \<noteq> THREAD_DYING"
    using sched_base_idle [OF b(1)] .
  define s' where "s' = upd_status (cur st) s (st\<lparr>intr := INTR_OFF, ready_list := r\<rparr>)"
  have fields: "cur s' = cur st" "ready_list s' = r" "idle_thread s' = idle_thread st"
    "initial_thread s' = initial_thread st" "in_external_intr s' = in_external_intr st" "intr s' = INTR_OFF"
    "\<And>u. threads s' u = None \<longleftrightarrow> threads st u = None" "is_thread s' = is_thread st"
    "\<And>u. get_status u s' = (if u = cur st then Some s else get_status u st)"
    using b by (auto simp: s'_def)
  have "sched_base s' W'"
  proof (rule sched_baseI)
    show "t \<in> set (ready_list s') \<longleftrightarrow> idle_thread s' \<noteq> Some t \<and> get_status t s' = Some THREAD_READY" for t
      using D(1) [of t] b(5) by (cases "t = cur st") (auto simp: fields r)
    show "t \<in> W' \<longleftrightarrow> idle_thread s' \<noteq> Some t \<and> get_status t s' = Some THREAD_BLOCKED" for t
      using D(2) [of t] b(6) by (cases "t = cur st") (auto simp: fields W)
    show "get_status i s' = Some (if i = cur st then s else si)" using i by (simp add: fields)
    show "(if i = cur st then s else si) \<noteq> THREAD_DYING" using i s by auto
    show "is_thread s' t" if "threads s' t \<noteq> None" for t using that D(4) [of t] by (simp add: fields)
    show "t = cur s'" if "get_status t s' = Some THREAD_RUNNING" for t
      using that D(5) [of t] s by (auto simp: fields split: if_splits)
    show "distinct (ready_list s')" using D(3) b(5) by (auto simp: fields r)
  qed (simp_all add: i D(6) fields)
  moreover have "get_status t s' = Some THREAD_DYING \<Longrightarrow> t = initial_thread s' \<or> t = cur s'" for t
    using b(3) [of t] by (auto simp: fields split: if_splits)
  ultimately show ?thesis unfolding s'_def [symmetric] using s(1) by (simp add: pre_schedule_def fields)
qed

lemma thread_block_ok:
  assumes "sched_ok st W" "intr st = INTR_OFF"
  shows "\<exists>st'. thread_block st = Some st' \<and>
    sched_ok st' (if idle_thread st = Some (cur st) then W else insert (cur st) W) \<and>
    cur st' = chosen st \<and> ready_list st' = tl (ready_list st) \<and> all_list st' = all_list st \<and>
    idle_thread st' = idle_thread st \<and> initial_thread st' = initial_thread st \<and> intr st' = INTR_OFF \<and>
    (\<forall>t. threads st' t = None \<longleftrightarrow> threads st t = None)"
proof -
  let ?s = "upd_status (cur st) THREAD_BLOCKED st"
  let ?W = "if idle_thread st = Some (cur st) then W else insert (cur st) W"
  have "?s = upd_status (cur st) THREAD_BLOCKED (st\<lparr>intr := INTR_OFF, ready_list := ready_list st @ []\<rparr>)"
    unfolding assms(2) [symmetric] by simp
  then have p: "pre_schedule ?s ?W"
    using pre_schedule_upd [OF assms(1), of THREAD_BLOCKED "ready_list st" ?W] by (auto split: if_splits)
  have c: "chosen ?s = chosen st" by (auto simp: chosen_def split: list.split)
  note b = sched_okD [OF assms(1)]
  have "threads (switched ?s) t = None \<longleftrightarrow> threads st t = None" for t
    unfolding get_status_None [symmetric] using b by (auto simp: get_status_switched)
  moreover have "thread_block st = Some (switched ?s)"
    using assms b by (simp add: thread_block_def intr_context_def intr_get_level_def thread_current_ok
        set_status_eq schedule_eq [OF p])
  ultimately show ?thesis using sched_ok_switched [OF p] c assms by simp
qed

lemma thread_unblock_ok:
  assumes "sched_ok st W" "t \<in> W"
  shows "\<exists>st'. thread_unblock t st = Some st' \<and> sched_ok st' (W - {t}) \<and>
    cur st' = cur st \<and> ready_list st' = ready_list st @ [t] \<and> all_list st' = all_list st \<and>
    idle_thread st' = idle_thread st \<and> initial_thread st' = initial_thread st \<and> intr st' = intr st \<and>
    (\<forall>t. threads st' t = None \<longleftrightarrow> threads st t = None)"
proof -
  note b = sched_okD [OF assms(1)] and D = sched_baseD [OF sched_okD(1) [OF assms(1)]]
  have s: "get_status t st = Some THREAD_BLOCKED" "idle_thread st \<noteq> Some t" using D(2) assms(2) by auto
  have m: "is_thread st t" using is_thread_status [OF b(1)] s by simp
  define s' where "s' = upd_status t THREAD_READY (st\<lparr>intr := INTR_OFF, ready_list := ready_list st @ [t]\<rparr>)"
  have fields: "cur s' = cur st" "ready_list s' = ready_list st @ [t]" "all_list s' = all_list st"
    "idle_thread s' = idle_thread st" "initial_thread s' = initial_thread st"
    "in_external_intr s' = in_external_intr st" "\<And>u. threads s' u = None \<longleftrightarrow> threads st u = None"
    "is_thread s' = is_thread st"
    "\<And>u. get_status u s' = (if u = t then Some THREAD_READY else get_status u st)"
    using s by (auto simp: s'_def)
  have "thread_unblock t st = Some (s'\<lparr>intr := intr st\<rparr>)"
    using s m b(4) by (cases "intr st") (auto simp: thread_unblock_def intr_disable_def intr_get_level_def set_status_eq
        intr_set_level_def intr_enable_def s'_def)
  moreover have "sched_base s' (W - {t})"
  proof (rule sched_base_idle [OF b(1)], rule sched_baseI)
    show "u \<in> set (ready_list s') \<longleftrightarrow> idle_thread s' \<noteq> Some u \<and> get_status u s' = Some THREAD_READY" for u
      using D(1) [of u] s by (auto simp: fields)
    show "u \<in> W - {t} \<longleftrightarrow> idle_thread s' \<noteq> Some u \<and> get_status u s' = Some THREAD_BLOCKED" for u
      using D(2) [of u] s by (auto simp: fields)
    show "u = cur s'" if "get_status u s' = Some THREAD_RUNNING" for u
      using that D(5) [of u] by (auto simp: fields split: if_splits)
    show "distinct (ready_list s')" using D(3) D(1) [of t] s by (simp add: fields)
    show "is_thread s' u" if "threads s' u \<noteq> None" for u using that D(4) [of u] by (simp add: fields)
    fix i si assume i: "idle_thread st = Some i" "get_status i st = Some si" "si \<noteq> THREAD_DYING"
    then show "idle_thread s' = Some i" "get_status i s' = Some si" "si \<noteq> THREAD_DYING"
      using s by (auto simp: fields)
  qed (simp add: fields D(6))
  then have "sched_ok s' (W - {t})"
    using b(2,3) s by (auto simp: sched_ok_def fields split: if_splits)
  ultimately show ?thesis by (simp add: fields)
qed

lemma thread_yield_ok:
  assumes "sched_ok st W"
  shows "\<exists>st'. thread_yield st = Some st' \<and> sched_ok st' W \<and>
    cur st' # ready_list st' = (if idle_thread st = Some (cur st)
       then (if ready_list st = [] then [cur st] else ready_list st) else ready_list st @ [cur st]) \<and>
    all_list st' = all_list st \<and> idle_thread st' = idle_thread st \<and> initial_thread st' = initial_thread st \<and>
    intr st' = INTR_OFF \<and> (\<forall>t. threads st' t = None \<longleftrightarrow> threads st t = None)"
proof -
  let ?r = "ready_list st @ (if idle_thread st \<noteq> Some (cur st) then [cur st] else [])"
  define s' where "s' = upd_status (cur st) THREAD_READY (st\<lparr>intr := INTR_OFF, ready_list := ?r\<rparr>)"
  note b = sched_okD [OF assms]
  have p: "pre_schedule s' W"
    unfolding s'_def using pre_schedule_upd [OF assms, of THREAD_READY ?r W] by simp
  have "thread_yield st = schedule s'"
    using b by (auto simp: thread_yield_def intr_context_def intr_disable_def
        thread_current_ok [OF assms] set_status_eq s'_def)
  then have "thread_yield st = Some (switched s')" by (simp add: schedule_eq [OF p])
  moreover have "threads (switched s') t = None \<longleftrightarrow> threads st t = None" for t
    unfolding get_status_None [symmetric] using b by (auto simp: get_status_switched s'_def)
  moreover have "chosen s' # tl (ready_list s') = (if idle_thread st = Some (cur st)
       then (if ready_list st = [] then [cur st] else ready_list st) else ready_list st @ [cur st])"
    by (auto simp: chosen_def s'_def split: list.splits)
  ultimately show ?thesis using sched_ok_switched [OF p] by (simp add: s'_def)
qed

lemma thread_die_ok:
  assumes "sched_ok st W" "idle_thread st \<noteq> Some (cur st)"
  shows "\<exists>st'. thread_die st = Some st' \<and> sched_ok st' W \<and> cur st' = chosen st \<and>
    ready_list st' = tl (ready_list st) \<and> all_list st' = remove1 (cur st) (all_list st) \<and>
    idle_thread st' = idle_thread st \<and> initial_thread st' = initial_thread st \<and> intr st' = INTR_OFF \<and>
    (\<forall>t. threads st' t = None \<longleftrightarrow> threads st t = None \<or> t = cur st \<and> t \<noteq> initial_thread st)"
proof -
  let ?st = "st\<lparr>all_list := remove1 (cur st) (all_list st)\<rparr>"
  note b = sched_okD [OF assms(1)]
  have ok: "sched_ok ?st W" using assms(1) by (simp add: sched_ok_def sched_base_def)
  define s' where "s' = upd_status (cur st) THREAD_DYING (st\<lparr>intr := INTR_OFF, all_list := remove1 (cur st) (all_list st)\<rparr>)"
  have "s' = upd_status (cur st) THREAD_DYING (?st\<lparr>intr := INTR_OFF, ready_list := ready_list st\<rparr>)"
    unfolding s'_def by (rule arg_cong [where f = "upd_status _ _"]) simp
  then have p: "pre_schedule s' W"
    using pre_schedule_upd [OF ok, of THREAD_DYING "ready_list st" W] assms(2) by simp
  have ok': "sched_ok (st\<lparr>intr := INTR_OFF\<rparr>) W" using assms by simp
  have "thread_die st = schedule s'"
    using b thread_current_ok [OF ok'] by (simp add: thread_die_def intr_disable_def set_status_eq s'_def)
  then have "thread_die st = Some (switched s')" by (simp add: schedule_eq [OF p])
  moreover have "threads (switched s') t = None \<longleftrightarrow> threads st t = None \<or> t = cur st \<and> t \<noteq> initial_thread st" for t
    unfolding get_status_None [symmetric] using b by (auto simp: get_status_switched s'_def)
  moreover have "chosen s' = chosen st" by (auto simp: chosen_def s'_def split: list.split)
  ultimately show ?thesis using sched_ok_switched [OF p] by (simp add: s'_def)
qed

lemma init_thread_ok:
  assumes "sched_ok st W" "threads st t = None" "t \<noteq> 0" "PRI_MIN \<le> prio" "prio \<le> PRI_MAX"
  shows "\<exists>st'. init_thread t nm prio st = Some st' \<and> sched_ok st' (insert t W) \<and>
    cur st' = cur st \<and> ready_list st' = ready_list st \<and> all_list st' = all_list st @ [t] \<and>
    idle_thread st' = idle_thread st \<and> initial_thread st' = initial_thread st \<and> intr st' = intr st \<and>
    next_tid st' = next_tid st \<and> is_thread st' t \<and>
    (\<forall>u. threads st' u = None \<longleftrightarrow> threads st u = None \<and> u \<noteq> t)"
proof -
  note b = sched_okD [OF assms(1)] and D = sched_baseD [OF sched_okD(1) [OF assms(1)]]
  let ?th = "\<lparr>tid = 0, status = THREAD_BLOCKED, tname = take 15 nm, stack = t + 4096, priority = prio,
               pagedir = 0, parent = None, num_open_files = 0, fd_pointers = replicate MAX_FILES 0,
               magic = THREAD_MAGIC\<rparr>"
  define s' where "s' = st\<lparr>threads := (threads st)(t \<mapsto> ?th), intr := INTR_OFF, all_list := all_list st @ [t]\<rparr>"
  have fields: "cur s' = cur st" "ready_list s' = ready_list st" "idle_thread s' = idle_thread st"
    "all_list s' = all_list st @ [t]" "next_tid s' = next_tid st"
    "initial_thread s' = initial_thread st" "in_external_intr s' = in_external_intr st" "intr s' = INTR_OFF"
    "\<And>u. threads s' u = None \<longleftrightarrow> threads st u = None \<and> u \<noteq> t" "\<And>u. is_thread s' u = (u = t \<or> is_thread st u)"
    "\<And>u. get_status u s' = (if u = t then Some THREAD_BLOCKED else get_status u st)"
    using assms by (auto simp: s'_def get_status_def is_thread_def)
  have none: "get_status t st = None" using assms(2) by (simp add: get_status_None)
  have "init_thread t nm prio st = Some (s'\<lparr>intr := intr st\<rparr>)"
    using assms(3,4,5) b(4) by (cases "intr st")
      (simp_all add: init_thread_def intr_disable_def intr_get_level_def intr_set_level_def intr_enable_def s'_def)
  moreover have "sched_base s' (insert t W)"
  proof (rule sched_base_idle [OF b(1)], rule sched_baseI)
    show "u \<in> set (ready_list s') \<longleftrightarrow> idle_thread s' \<noteq> Some u \<and> get_status u s' = Some THREAD_READY" for u
      using D(1) [of u] none by (auto simp: fields)
    show "u = cur s'" if "get_status u s' = Some THREAD_RUNNING" for u
      using that D(5) [of u] by (auto simp: fields split: if_splits)
    show "is_thread s' u" if "threads s' u \<noteq> None" for u using that D(4) [of u] by (auto simp: fields)
    fix i si assume i: "idle_thread st = Some i" "get_status i st = Some si" "si \<noteq> THREAD_DYING"
    then show "idle_thread s' = Some i" "get_status i s' = Some si" "si \<noteq> THREAD_DYING"
      using none by (auto simp: fields)
    show "u \<in> insert t W \<longleftrightarrow> idle_thread s' \<noteq> Some u \<and> get_status u s' = Some THREAD_BLOCKED" for u
      using D(2) [of u] none i by (auto simp: fields)
  qed (simp_all add: fields D(3,6))
  then have "sched_ok s' (insert t W)"
    using b(2,3) none by (auto simp: sched_ok_def fields split: if_splits)
  ultimately show ?thesis using fields by (simp add: get_status_None [symmetric])
qed

lemma sched_ok_thread_update:
  assumes "sched_ok st W" "threads st t = Some th" "status th' = status th" "magic th' = magic th"
  shows "sched_ok (st\<lparr>threads := (threads st)(t \<mapsto> th')\<rparr>) W"
proof -
  have "is_thread st t" using sched_baseD(4) [OF sched_okD(1) [OF assms(1)]] assms(2) by simp
  moreover have "get_status u (st\<lparr>threads := (threads st)(t \<mapsto> th')\<rparr>) = get_status u st" for u
    using assms by (simp add: get_status_def)
  moreover have "is_thread (st\<lparr>threads := (threads st)(t \<mapsto> th')\<rparr>) u = is_thread st u" for u
    using assms by (simp add: is_thread_def)
  ultimately show ?thesis using assms(1) by (simp add: sched_ok_def sched_base_def)
qed

lemma thread_create_ok:
  assumes "sched_ok st W" "threads st t = None" "t \<noteq> 0" "PRI_MIN \<le> prio" "prio \<le> PRI_MAX"
  shows "\<exists>st'. thread_create (Some t) nm prio st = Some (st', next_tid st) \<and> sched_ok st' W \<and>
    cur st' = cur st \<and> ready_list st' = ready_list st @ [t] \<and> all_list st' = all_list st @ [t] \<and>
    idle_thread st' = idle_thread st \<and> initial_thread st' = initial_thread st \<and> intr st' = intr st \<and>
    (\<forall>u. threads st' u = None \<longleftrightarrow> threads st u = None \<and> u \<noteq> t)"
proof -
  have tW: "t \<notin> W" using sched_baseD(2) [OF sched_okD(1) [OF assms(1)], of t] assms(2) by (auto simp: get_status_def)
  obtain s1 where s1: "init_thread t nm prio st = Some s1" "sched_ok s1 (insert t W)"
    "cur s1 = cur st" "ready_list s1 = ready_list st" "all_list s1 = all_list st @ [t]"
    "idle_thread s1 = idle_thread st" "initial_thread s1 = initial_thread st" "intr s1 = intr st"
    "next_tid s1 = next_tid st" "is_thread s1 t" "\<And>u. threads s1 u = None \<longleftrightarrow> threads st u = None \<and> u \<noteq> t"
    using init_thread_ok [OF assms] by blast
  from s1(11) [of t] obtain th where th: "threads s1 t = Some th" "magic th = THREAD_MAGIC"
    using s1(10) by (cases "threads s1 t") (auto simp: is_thread_def)
  define th' where "th' = th\<lparr>tid := next_tid st, stack := stack th - 12 - 4 - 28\<rparr>"
  define s2 where "s2 = s1\<lparr>next_tid := next_tid s1 + 1, threads := (threads s1)(t \<mapsto> th')\<rparr>"
  have "sched_ok (s1\<lparr>next_tid := next_tid s1 + 1\<rparr>) (insert t W)"
    using s1(2) by (simp add: sched_ok_def sched_base_def get_status_def is_thread_def)
  from sched_ok_thread_update [OF this, of t th th'] th have ok2: "sched_ok s2 (insert t W)"
    by (simp add: s2_def th'_def)
  obtain s3 where s3: "thread_unblock t s2 = Some s3" "sched_ok s3 (insert t W - {t})" "cur s3 = cur s2"
    "ready_list s3 = ready_list s2 @ [t]" "all_list s3 = all_list s2" "idle_thread s3 = idle_thread s2"
    "initial_thread s3 = initial_thread s2" "intr s3 = intr s2"
    "\<forall>u. threads s3 u = None \<longleftrightarrow> threads s2 u = None"
    using thread_unblock_ok [OF ok2, of t] by blast
  have "thread_create (Some t) nm prio st = Some (s3, next_tid st)"
    using th s1(9) s3(1)
    by (simp add: thread_create_def s1(1) allocate_tid_def alloc_frame_def is_thread_def s2_def th'_def)
  moreover have "insert t W - {t} = W" using tW by auto
  moreover have "threads s2 u = None \<longleftrightarrow> threads st u = None \<and> u \<noteq> t" for u
    using s1(11) [of u] by (simp add: s2_def)
  ultimately show ?thesis using s3 s1 by (simp add: s2_def)
qed

section \<open>Timer ticks and round robin\<close>

text \<open>
  A timer interrupt: the processor turns interrupts off on entry, and the return from the
  interrupt of the thread that runs then turns them on.
\<close>

definition timer_intr :: "sched \<Rightarrow> sched option" where
  "timer_intr st = do {
     st \<leftarrow> intr_handler [0x20 \<mapsto> timer_interrupt] 0x20 (st\<lparr>intr := INTR_OFF\<rparr>);
     Some (st\<lparr>intr := INTR_ON\<rparr>) }"

fun timer_intrs :: "nat \<Rightarrow> sched \<Rightarrow> sched option" where
  "timer_intrs 0 st = Some st"
| "timer_intrs (Suc n) st = do { st \<leftarrow> timer_intr st; timer_intrs n st }"

definition rotated :: "sched \<Rightarrow> tptr list" where
  "rotated st = (if idle_thread st = Some (cur st)
     then (if ready_list st = [] then [cur st] else ready_list st) else ready_list st @ [cur st])"

lemma switched_ticks: "thread_ticks (switched st) = 0"
  by (simp add: switched_def Let_def del_thread_def)

text \<open>The set of threads, other than the idle thread, that run or are ready.\<close>

definition runnable :: "sched \<Rightarrow> tptr set" where
  "runnable st = {t. idle_thread st \<noteq> Some t \<and> t \<in> set (cur st # ready_list st)}"

lemma finite_runnable [simp]: "finite (runnable st)"
  by (rule finite_subset [of _ "set (cur st # ready_list st)"]) (auto simp: runnable_def)

lemma runnable_status:
  assumes "sched_ok st W"
  shows "runnable st = {t. idle_thread st \<noteq> Some t \<and> (get_status t st = Some THREAD_RUNNING \<or> get_status t st = Some THREAD_READY)}"
proof (rule set_eqI)
  fix t
  note D = sched_baseD(1,5) [OF sched_okD(1) [OF assms], of t]
  show "t \<in> runnable st \<longleftrightarrow> t \<in> {t. idle_thread st \<noteq> Some t \<and>
      (get_status t st = Some THREAD_RUNNING \<or> get_status t st = Some THREAD_READY)}"
    unfolding runnable_def mem_Collect_eq list.set insert_iff D(1)
    using D(2) sched_okD(2) [OF assms] by blast
qed

lemma runnable_waiting:
  assumes "sched_ok st W"
  shows "runnable st \<inter> W = {}"
proof -
  have "t \<notin> W" if "t \<in> runnable st" for t
    using that sched_baseD(2) [OF sched_okD(1) [OF assms], of t] by (auto simp: runnable_status [OF assms])
  then show ?thesis by blast
qed

lemma runnable_chosen:
  assumes "sched_ok st W" "cur st' = chosen st" "ready_list st' = tl (ready_list st)" "idle_thread st' = idle_thread st"
  shows "runnable st' = runnable st - {cur st}"
proof -
  obtain i s where i: "idle_thread st = Some i" using sched_base_idle [OF sched_okD(1) [OF assms(1)]] by blast
  have "cur st \<notin> set (ready_list st)" using sched_okD(5) [OF assms(1)] .
  moreover have "i \<notin> set (ready_list st)" using sched_baseD(1) [OF sched_okD(1) [OF assms(1)]] i by simp
  ultimately show ?thesis using assms i by (cases "ready_list st") (auto simp: runnable_def chosen_def)
qed

lemma runnable_rotated:
  assumes "sched_ok st W" "cur st' # ready_list st' = rotated st" "idle_thread st' = idle_thread st"
  shows "runnable st' = runnable st"
proof -
  have "runnable st' = {t. idle_thread st \<noteq> Some t \<and> t \<in> set (rotated st)}"
    unfolding runnable_def assms(2) assms(3) ..
  also have "\<dots> = runnable st" by (auto simp: runnable_def rotated_def split: if_splits)
  finally show ?thesis .
qed

lemma thread_yield_ticks:
  assumes "sched_ok st W" "thread_yield st = Some st'"
  shows "thread_ticks st' = 0"
proof -
  let ?r = "ready_list st @ (if idle_thread st \<noteq> Some (cur st) then [cur st] else [])"
  have p: "pre_schedule (upd_status (cur st) THREAD_READY (st\<lparr>intr := INTR_OFF, ready_list := ?r\<rparr>)) W"
    using pre_schedule_upd [OF assms(1), of THREAD_READY ?r W] by simp
  have "thread_yield st = schedule (upd_status (cur st) THREAD_READY (st\<lparr>intr := INTR_OFF, ready_list := ?r\<rparr>))"
    using sched_okD [OF assms(1)] by (auto simp: thread_yield_def intr_context_def intr_disable_def
        thread_current_ok [OF assms(1)] set_status_eq)
  then show ?thesis using assms(2) switched_ticks by (auto simp: schedule_eq [OF p])
qed

lemma slice_cases:
  fixes w :: u32
  assumes "w < TIME_SLICE"
  shows "w = 0 \<or> w = 1 \<or> w = 2 \<or> w = 3"
proof -
  have "unat w < 4" using assms by (simp add: TIME_SLICE_def word_less_nat_alt)
  then have "unat w = 0 \<or> unat w = unat (1 :: u32) \<or> unat w = unat (2 :: u32) \<or> unat w = unat (3 :: u32)" by auto
  then show ?thesis by (simp only: word_unat_eq_iff [symmetric]) (auto simp: word_unat_eq_iff)
qed

lemma slice_less: "unat w \<le> 3 \<Longrightarrow> w < TIME_SLICE" for w :: u32
  by (simp add: TIME_SLICE_def word_less_nat_alt)

lemma timer_intr_cases:
  assumes "sched_ok st W"
  obtains s1 where "timer_intr st = do {
     st \<leftarrow> (if TIME_SLICE \<le> thread_ticks st + 1 then thread_yield s1 else Some s1);
     Some (st\<lparr>intr := INTR_ON\<rparr>) }" "sched_ok s1 W" "cur s1 = cur st" "ready_list s1 = ready_list st"
    "idle_thread s1 = idle_thread st" "thread_ticks s1 = thread_ticks st + 1" "threads s1 = threads st"
proof -
  note b = sched_okD [OF assms(1)]
  obtain th where th: "threads st (cur st) = Some th" using b(2) by (auto simp: get_status_def)
  have cc: "thread_current (st\<lparr>intr := INTR_OFF, in_external_intr := True, yield_on_return := False, ticks := ticks st + 1\<rparr>) = Some (cur st)"
    using thread_current_ok [OF assms(1)] by (simp add: thread_current_def running_thread_def get_status_def is_thread_def)
  define s0 where "s0 = st\<lparr>intr := INTR_OFF, in_external_intr := True, yield_on_return := False, ticks := ticks st + 1\<rparr>"
  define s2 where "s2 = (if Some (cur st) = idle_thread st then s0\<lparr>idle_ticks := idle_ticks st + 1\<rparr>
               else if pagedir th \<noteq> 0 then s0\<lparr>user_ticks := user_ticks st + 1\<rparr>
               else s0\<lparr>kernel_ticks := kernel_ticks st + 1\<rparr>)\<lparr>thread_ticks := thread_ticks st + 1\<rparr>"
  define s1 where "s1 = (if TIME_SLICE \<le> thread_ticks st + 1 then s2\<lparr>yield_on_return := True\<rparr> else s2)
      \<lparr>in_external_intr := False\<rparr>"
  have e: "timer_intr st = do {
     st \<leftarrow> (if TIME_SLICE \<le> thread_ticks st + 1 then thread_yield s1 else Some s1);
     Some (st\<lparr>intr := INTR_ON\<rparr>) }"
    using th b(4) cc
    by (simp add: timer_intr_def timer_interrupt_def pic_end_of_interrupt_def intr_handler_def intr_get_level_def intr_context_def thread_tick_def
        intr_yield_on_return_def s0_def s1_def s2_def)
  have ok1: "sched_ok s1 W"
    using assms(1) by (simp add: s0_def s1_def s2_def sched_ok_def sched_base_def get_status_def is_thread_def)
  have f: "cur s1 = cur st" "ready_list s1 = ready_list st" "idle_thread s1 = idle_thread st"
    "thread_ticks s1 = thread_ticks st + 1" "threads s1 = threads st" by (simp_all add: s0_def s1_def s2_def)
  from that [OF e ok1 f] show ?thesis .
qed

lemma timer_intr_total:
  assumes "sched_ok st W"
  shows "\<exists>st'. timer_intr st = Some st' \<and> sched_ok st' W \<and> idle_thread st' = idle_thread st \<and>
    runnable st' = runnable st"
proof -
  obtain s1 where s1: "timer_intr st = do {
     st \<leftarrow> (if TIME_SLICE \<le> thread_ticks st + 1 then thread_yield s1 else Some s1);
     Some (st\<lparr>intr := INTR_ON\<rparr>) }" "sched_ok s1 W" "cur s1 = cur st" "ready_list s1 = ready_list st"
    "idle_thread s1 = idle_thread st"
    using timer_intr_cases [OF assms(1)] by blast
  obtain s2 where s2: "thread_yield s1 = Some s2" "sched_ok s2 W" "cur s2 # ready_list s2 = rotated s1"
      "idle_thread s2 = idle_thread s1"
    using thread_yield_ok [OF s1(2)] unfolding rotated_def by blast
  have "runnable s2 = runnable st" "runnable s1 = runnable st"
    using runnable_rotated [OF s1(2) s2(3,4)] s1(3-5) by (auto simp: runnable_def)
  then have "runnable (s2\<lparr>intr := INTR_ON\<rparr>) = runnable st" "runnable (s1\<lparr>intr := INTR_ON\<rparr>) = runnable st"
    by (simp_all add: runnable_def)
  then show ?thesis using s1(1,2,5) s2(1,2,4) by (cases "TIME_SLICE \<le> thread_ticks st + 1") simp_all
qed

lemma timer_intr_ok:
  assumes "sched_ok st W" "thread_ticks st < TIME_SLICE"
  shows "\<exists>st'. timer_intr st = Some st' \<and> sched_ok st' W \<and> idle_thread st' = idle_thread st \<and>
    (if thread_ticks st = TIME_SLICE - 1 then cur st' # ready_list st' = rotated st \<and> thread_ticks st' = 0
     else cur st' = cur st \<and> ready_list st' = ready_list st \<and> thread_ticks st' = thread_ticks st + 1)"
proof -
  obtain s1 where e: "timer_intr st = do {
     st \<leftarrow> (if TIME_SLICE \<le> thread_ticks st + 1 then thread_yield s1 else Some s1);
     Some (st\<lparr>intr := INTR_ON\<rparr>) }" and ok1: "sched_ok s1 W" and f: "cur s1 = cur st" "ready_list s1 = ready_list st"
    "idle_thread s1 = idle_thread st" "thread_ticks s1 = thread_ticks st + 1"
    using timer_intr_cases [OF assms(1)] by blast
  have le: "TIME_SLICE \<le> thread_ticks st + 1 \<longleftrightarrow> thread_ticks st = TIME_SLICE - 1"
    using slice_cases [OF assms(2)] by (auto simp: TIME_SLICE_def word_le_nat_alt)
  show ?thesis
  proof (cases "thread_ticks st = TIME_SLICE - 1")
    case True
    obtain s2 where s2: "thread_yield s1 = Some s2" "sched_ok s2 W" "cur s2 # ready_list s2 = rotated s1"
      "idle_thread s2 = idle_thread s1"
      using thread_yield_ok [OF ok1] unfolding rotated_def by blast
    moreover have "rotated s1 = rotated st" using f by (simp add: rotated_def)
    ultimately show ?thesis using True e le thread_yield_ticks [OF ok1 s2(1)] f by simp
  next
    case False
    then show ?thesis using e le ok1 f by simp
  qed
qed

lemma timer_intrs_add: "timer_intrs (m + n) st = do { st \<leftarrow> timer_intrs m st; timer_intrs n st }"
  by (induction m arbitrary: st) (auto split: Option.bind_split)

lemma timer_slice:
  assumes "sched_ok st W" "thread_ticks st < TIME_SLICE"
  shows "\<exists>st' n. n \<le> 4 \<and> timer_intrs n st = Some st' \<and> sched_ok st' W \<and> thread_ticks st' = 0 \<and>
     cur st' # ready_list st' = rotated st \<and> idle_thread st' = idle_thread st"
proof -
  have "unat (thread_ticks st) + d = 3 \<Longrightarrow> sched_ok st W \<Longrightarrow>
    \<exists>st'. timer_intrs (Suc d) st = Some st' \<and> sched_ok st' W \<and> thread_ticks st' = 0 \<and>
      cur st' # ready_list st' = rotated st \<and> idle_thread st' = idle_thread st" for d
  proof (induction d arbitrary: st)
    case 0
    then have l: "thread_ticks st < TIME_SLICE" by (simp add: slice_less)
    with slice_cases [OF l] 0(1) have "thread_ticks st = TIME_SLICE - 1" by (auto simp: TIME_SLICE_def)
    with timer_intr_ok [OF 0(2) l] show ?case by auto
  next
    case (Suc d)
    then have l: "thread_ticks st < TIME_SLICE" by (simp add: slice_less)
    with slice_cases [OF l] Suc(2)
    have t: "thread_ticks st \<noteq> TIME_SLICE - 1" "thread_ticks st < TIME_SLICE" "unat (thread_ticks st + 1) + d = 3"
      by (auto simp: TIME_SLICE_def)
    obtain s1 where s1: "timer_intr st = Some s1" "sched_ok s1 W" "idle_thread s1 = idle_thread st" "cur s1 = cur st"
      "ready_list s1 = ready_list st" "thread_ticks s1 = thread_ticks st + 1"
      using timer_intr_ok [OF Suc(3) t(2)] t(1) by auto
    then have "rotated s1 = rotated st" by (simp add: rotated_def)
    with Suc.IH [of s1] s1 t(3) show ?case by simp
  qed
  moreover have "unat (thread_ticks st) \<le> 3" using slice_cases [OF assms(2)] by auto
  ultimately obtain st' where "timer_intrs (Suc (3 - unat (thread_ticks st))) st = Some st'" "sched_ok st' W"
      "thread_ticks st' = 0" "cur st' # ready_list st' = rotated st" "idle_thread st' = idle_thread st"
    using assms(1) le_add_diff_inverse by blast
  moreover have "Suc (3 - unat (thread_ticks st)) \<le> 4" by simp
  ultimately show ?thesis by blast
qed

text \<open>C11: Round robin is fair. A thread that is \<open>k\<close> places behind the head of the ready list runs
  after at most \<open>4 (k + 1)\<close> timer ticks (\<open>TIME_SLICE\<close> ticks for each thread before it), no
  assertion of the scheduler fails on the way, and the state stays well-formed, if the threads that run in
  between neither block nor exit nor wake others.\<close>

theorem round_robin_fair:
  assumes "sched_ok st W" "thread_ticks st < TIME_SLICE" "k < length (ready_list st)"
  shows "\<exists>n st'. n \<le> 4 * Suc k \<and> timer_intrs n st = Some st' \<and> sched_ok st' W \<and> cur st' = ready_list st ! k"
  using assms
proof (induction k arbitrary: st)
  case 0
  obtain st' n where s: "n \<le> 4" "timer_intrs n st = Some st'" "sched_ok st' W" "cur st' # ready_list st' = rotated st"
    using timer_slice [OF 0(1,2)] by blast
  have "hd (rotated st) = ready_list st ! 0" using 0(3) by (cases "ready_list st") (auto simp: rotated_def)
  with s(4) have "cur st' = ready_list st ! 0" by (metis list.sel(1))
  with s show ?case by auto
next
  case (Suc k)
  obtain st' n where s: "n \<le> 4" "timer_intrs n st = Some st'" "sched_ok st' W" "thread_ticks st' = 0"
    "cur st' # ready_list st' = rotated st"
    using timer_slice [OF Suc(2,3)] by blast
  have r: "Suc k < length (rotated st)" "rotated st ! Suc k = ready_list st ! Suc k"
    using Suc(4) by (auto simp: rotated_def nth_append)
  then have k: "k < length (ready_list st')" "ready_list st' ! k = ready_list st ! Suc k"
    unfolding s(5) [symmetric] by auto
  obtain m st'' where "m \<le> 4 * Suc k" "timer_intrs m st' = Some st''" "sched_ok st'' W" "cur st'' = ready_list st' ! k"
    using Suc.IH [OF s(3) _ k(1)] s(4) by (auto simp: TIME_SLICE_def)
  with s k show ?case by (intro exI [of _ "n + m"] exI [of _ st'']) (auto simp: timer_intrs_add)
qed

definition example_thread :: "thread_status \<Rightarrow> thread" where
  "example_thread s = \<lparr>tid = 1, status = s, tname = ''t'', stack = 4096, priority = PRI_DEFAULT, pagedir = 0,
     parent = None, num_open_files = 0, fd_pointers = [], magic = THREAD_MAGIC\<rparr>"

definition example_sched :: sched where
  "example_sched = \<lparr>threads = [1 \<mapsto> example_thread THREAD_RUNNING, 2 \<mapsto> example_thread THREAD_BLOCKED,
      3 \<mapsto> example_thread THREAD_READY, 4 \<mapsto> example_thread THREAD_READY],
     cur = 1, ready_list = [3, 4], all_list = [1, 2, 3, 4], idle_thread = Some 2, initial_thread = 1,
     next_tid = 5, thread_ticks = 0, idle_ticks = 0, kernel_ticks = 0, user_ticks = 0, intr = INTR_ON,
     in_external_intr = False, yield_on_return = False, unexpected_cnt = (\<lambda>_. 0), ticks = 0\<rparr>"

lemma example_sched_ok: "sched_ok example_sched {}"
  by (auto simp: example_sched_def example_thread_def sched_ok_def sched_base_def get_status_def is_thread_def split: if_splits)

theorem round_robin_fair_witness:
  "\<exists>n st'. n \<le> 8 \<and> timer_intrs n example_sched = Some st' \<and> cur st' = 4"
  using round_robin_fair [OF example_sched_ok, of 1]
  by (simp add: TIME_SLICE_def example_sched_def) blast

end
