(* ===== verification/Synch.thy ===== *)
theory Synch
  imports Threads
begin

text \<open>
  \<^verbatim>\<open>threads/synch.c\<close>: semaphores, locks and condition variables on top of the scheduler. An
  operation that may sleep is cut at the points where it can: each definition performs the part
  of the C function up to the next such point and returns the rest of the call as a list of
  actions, which the thread goes on with when it next runs. The step relation interleaves the
  actions of all threads with timer interrupts, thread creation and the idle loop.
\<close>

section \<open>State\<close>

text \<open>
  Semaphores are named by what they are embedded in: a lock, the waiter structure on the stack of
  a thread in \<open>cond_wait\<close> (a thread waits for one condition at a time), or any other object.
\<close>

datatype sem_id = LockSem nat | CondSem tptr | NamedSem nat

record semaphore =
  sval :: u32
  waiters :: "tptr list"

datatype action =
    SemaDown sem_id
  | SemaUp sem_id
  | Acquire nat
  | TryAcquire nat
  | SetHolder nat
  | Release nat
  | Wait nat nat
  | Signal nat nat
  | Broadcast nat nat
  | Yield
  | Exit

text \<open>
  \<open>holder\<close> is the field of \<^verbatim>\<open>struct lock\<close>; \<open>conds\<close> gives the waiters of a condition, each named by the
  thread on whose stack the structure is; \<open>todo\<close> is what is left of the call each thread is in.
\<close>

record kstate =
  sch :: sched
  semas :: "sem_id \<Rightarrow> semaphore"
  holder :: "nat \<Rightarrow> tptr option"
  conds :: "nat \<Rightarrow> tptr list"
  todo :: "tptr \<Rightarrow> action list"

section \<open>Semaphores\<close>

definition sema_init :: "sem_id \<Rightarrow> u32 \<Rightarrow> kstate \<Rightarrow> kstate" where
  "sema_init s v st = st\<lparr>semas := (semas st)(s := \<lparr>sval = v, waiters = []\<rparr>)\<rparr>"

text \<open>
  One pass of the loop: the thread either joins the waiters and blocks, and comes back to the test
  when it is woken, or takes the semaphore. The thread that runs after a block goes on with
  interrupts at the level it had, which is on.
\<close>

definition sema_down :: "sem_id \<Rightarrow> kstate \<Rightarrow> (kstate \<times> action list) option" where
  "sema_down s st = do {
     c_assert (\<not> intr_context (sch st));
     let (sc, old_level) = intr_disable (sch st);
     let sema = semas st s;
     if sval sema = 0 then do {
       t \<leftarrow> thread_current sc;
       let st = st\<lparr>semas := (semas st)(s := sema\<lparr>waiters := waiters sema @ [t]\<rparr>)\<rparr>;
       sc \<leftarrow> thread_block sc;
       Some (st\<lparr>sch := sc\<lparr>intr := INTR_ON\<rparr>\<rparr>, [SemaDown s]) }
     else do {
       let st = st\<lparr>semas := (semas st)(s := sema\<lparr>sval := sval sema - 1\<rparr>)\<rparr>;
       (sc, _) \<leftarrow> intr_set_level old_level sc;
       Some (st\<lparr>sch := sc\<rparr>, []) } }"

definition sema_try_down :: "sem_id \<Rightarrow> kstate \<Rightarrow> (kstate \<times> bool) option" where
  "sema_try_down s st = do {
     let (sc, old_level) = intr_disable (sch st);
     let sema = semas st s;
     let (st, success) =
       (if 0 < sval sema then (st\<lparr>semas := (semas st)(s := sema\<lparr>sval := sval sema - 1\<rparr>)\<rparr>, True)
        else (st, False));
     (sc, _) \<leftarrow> intr_set_level old_level sc;
     Some (st\<lparr>sch := sc\<rparr>, success) }"

definition sema_up :: "sem_id \<Rightarrow> kstate \<Rightarrow> kstate option" where
  "sema_up s st = do {
     let (sc, old_level) = intr_disable (sch st);
     let sema = semas st s;
     (sc, ws) \<leftarrow> (case waiters sema of
        [] \<Rightarrow> Some (sc, [])
      | t # ts \<Rightarrow> do { sc \<leftarrow> thread_unblock t sc; Some (sc, ts) });
     let st = st\<lparr>semas := (semas st)(s := \<lparr>sval = sval sema + 1, waiters = ws\<rparr>)\<rparr>;
     (sc, _) \<leftarrow> intr_set_level old_level sc;
     Some (st\<lparr>sch := sc\<rparr>) }"

section \<open>Locks\<close>

definition lock_init :: "nat \<Rightarrow> kstate \<Rightarrow> kstate" where
  "lock_init l st = sema_init (LockSem l) 1 (st\<lparr>holder := (holder st)(l := None)\<rparr>)"

definition lock_held_by_current_thread :: "nat \<Rightarrow> kstate \<Rightarrow> bool option" where
  "lock_held_by_current_thread l st = do {
     t \<leftarrow> thread_current (sch st);
     Some (holder st l = Some t) }"

definition lock_acquire :: "nat \<Rightarrow> kstate \<Rightarrow> (kstate \<times> action list) option" where
  "lock_acquire l st = do {
     c_assert (\<not> intr_context (sch st));
     held \<leftarrow> lock_held_by_current_thread l st;
     c_assert (\<not> held);
     Some (st, [SemaDown (LockSem l), SetHolder l]) }"

definition set_holder :: "nat \<Rightarrow> kstate \<Rightarrow> kstate option" where
  "set_holder l st = do {
     t \<leftarrow> thread_current (sch st);
     Some (st\<lparr>holder := (holder st)(l := Some t)\<rparr>) }"

definition lock_try_acquire :: "nat \<Rightarrow> kstate \<Rightarrow> (kstate \<times> action list) option" where
  "lock_try_acquire l st = do {
     held \<leftarrow> lock_held_by_current_thread l st;
     c_assert (\<not> held);
     (st, success) \<leftarrow> sema_try_down (LockSem l) st;
     Some (st, if success then [SetHolder l] else []) }"

definition lock_release :: "nat \<Rightarrow> kstate \<Rightarrow> (kstate \<times> action list) option" where
  "lock_release l st = do {
     held \<leftarrow> lock_held_by_current_thread l st;
     c_assert held;
     Some (st\<lparr>holder := (holder st)(l := None)\<rparr>, [SemaUp (LockSem l)]) }"

section \<open>Condition variables\<close>

definition cond_init :: "nat \<Rightarrow> kstate \<Rightarrow> kstate" where
  "cond_init c st = st\<lparr>conds := (conds st)(c := [])\<rparr>"

definition cond_wait :: "nat \<Rightarrow> nat \<Rightarrow> kstate \<Rightarrow> (kstate \<times> action list) option" where
  "cond_wait c l st = do {
     c_assert (\<not> intr_context (sch st));
     held \<leftarrow> lock_held_by_current_thread l st;
     c_assert held;
     let waiter = running_thread (sch st);
     let st = sema_init (CondSem waiter) 0 st;
     let st = st\<lparr>conds := (conds st)(c := conds st c @ [waiter])\<rparr>;
     Some (st, [Release l, SemaDown (CondSem waiter), Acquire l]) }"

definition cond_signal :: "nat \<Rightarrow> nat \<Rightarrow> kstate \<Rightarrow> (kstate \<times> action list) option" where
  "cond_signal c l st = do {
     c_assert (\<not> intr_context (sch st));
     held \<leftarrow> lock_held_by_current_thread l st;
     c_assert held;
     (case conds st c of
        [] \<Rightarrow> Some (st, [])
      | w # ws \<Rightarrow> Some (st\<lparr>conds := (conds st)(c := ws)\<rparr>, [SemaUp (CondSem w)])) }"

definition cond_broadcast :: "nat \<Rightarrow> nat \<Rightarrow> kstate \<Rightarrow> (kstate \<times> action list) option" where
  "cond_broadcast c l st = Some (st, if conds st c = [] then [] else [Signal c l, Broadcast c l])"

section \<open>Interleaving\<close>

text \<open>The thread that runs performs its next action.\<close>

definition no_more :: "kstate option \<Rightarrow> (kstate \<times> action list) option" where
  "no_more r = map_option (\<lambda>st. (st, [])) r"

fun perform :: "action \<Rightarrow> kstate \<Rightarrow> (kstate \<times> action list) option" where
  "perform (SemaDown s) st = sema_down s st"
| "perform (SemaUp s) st = no_more (sema_up s st)"
| "perform (Acquire l) st = lock_acquire l st"
| "perform (TryAcquire l) st = lock_try_acquire l st"
| "perform (SetHolder l) st = no_more (set_holder l st)"
| "perform (Release l) st = lock_release l st"
| "perform (Wait c l) st = cond_wait c l st"
| "perform (Signal c l) st = cond_signal c l st"
| "perform (Broadcast c l) st = cond_broadcast c l st"
| "perform Yield st = do {
     sc \<leftarrow> thread_yield (sch st);
     Some (st\<lparr>sch := sc\<lparr>intr := INTR_ON\<rparr>\<rparr>, []) }"
| "perform Exit st = do {
     sc \<leftarrow> thread_die (sch st);
     Some (st\<lparr>sch := sc\<lparr>intr := INTR_ON\<rparr>\<rparr>, []) }"

definition exec :: "kstate \<Rightarrow> kstate option" where
  "exec st = (let t = cur (sch st) in
     case todo st t of
       [] \<Rightarrow> None
     | a # rest \<Rightarrow> do {
         (st', more) \<leftarrow> perform a st;
         Some (st'\<lparr>todo := (todo st')(t := more @ rest)\<rparr>) })"

text \<open>
  The rules callers follow: a lock is acquired only when not held, released, waited on and
  signalled only when held, and a thread exits without locks. \<open>need H a\<close> is the rule for the
  action \<open>a\<close> of a thread that holds the locks \<open>H\<close>; \<open>effect\<close> is what the action does to \<open>H\<close>.
\<close>

fun need :: "(nat \<Rightarrow> bool) \<Rightarrow> action \<Rightarrow> bool" where
  "need H (SemaDown (LockSem l)) \<longleftrightarrow> \<not> H l"
| "need H (SemaUp (LockSem l)) \<longleftrightarrow> \<not> H l"
| "need H (Acquire l) \<longleftrightarrow> \<not> H l"
| "need H (TryAcquire l) \<longleftrightarrow> \<not> H l"
| "need H (SetHolder l) \<longleftrightarrow> \<not> H l"
| "need H (Release l) \<longleftrightarrow> H l"
| "need H (Wait c l) \<longleftrightarrow> H l"
| "need H (Signal c l) \<longleftrightarrow> H l"
| "need H (Broadcast c l) \<longleftrightarrow> H l"
| "need H Exit \<longleftrightarrow> (\<forall>l. \<not> H l)"
| "need H _ \<longleftrightarrow> True"

text \<open>The actions a caller may start; the others only arise inside these.\<close>

fun callable :: "action \<Rightarrow> bool" where
  "callable (SemaDown s) \<longleftrightarrow> (\<exists>n. s = NamedSem n)"
| "callable (SemaUp s) \<longleftrightarrow> (\<exists>n. s = NamedSem n)"
| "callable (SetHolder l) \<longleftrightarrow> False"
| "callable _ \<longleftrightarrow> True"

inductive kstep :: "kstate \<Rightarrow> kstate \<Rightarrow> bool" where
  call: "t = cur (sch st) \<Longrightarrow> idle_thread (sch st) \<noteq> Some t \<Longrightarrow> todo st t = [] \<Longrightarrow> callable a \<Longrightarrow>
     need (\<lambda>l. holder st l = Some t) a \<Longrightarrow> kstep st (st\<lparr>todo := (todo st)(t := [a])\<rparr>)"
| act: "exec st = Some st' \<Longrightarrow> kstep st st'"
| tick: "timer_intr (sch st) = Some sc \<Longrightarrow> kstep st (st\<lparr>sch := sc\<rparr>)"
| idle: "idle_thread (sch st) = Some (cur (sch st)) \<Longrightarrow> idle_round (sch st) = Some sc \<Longrightarrow>
     kstep st (st\<lparr>sch := sc\<lparr>intr := INTR_ON\<rparr>\<rparr>)"
| create: "todo st (cur (sch st)) = [] \<Longrightarrow> threads (sch st) p = None \<Longrightarrow> p \<noteq> 0 \<Longrightarrow>
     PRI_MIN \<le> prio \<Longrightarrow> prio \<le> PRI_MAX \<Longrightarrow> thread_create (Some p) nm prio (sch st) = Some (sc, i) \<Longrightarrow>
     kstep st (st\<lparr>sch := sc\<rparr>)"

section \<open>The invariant\<close>

text \<open>What can be left of a call of thread \<open>t\<close>.\<close>

fun script_ok :: "tptr \<Rightarrow> action list \<Rightarrow> bool" where
  "script_ok t [] \<longleftrightarrow> True"
| "script_ok t (SemaDown (LockSem l) # r) \<longleftrightarrow> r = [SetHolder l]"
| "script_ok t (SemaDown (CondSem u) # r) \<longleftrightarrow> u = t \<and> (\<exists>l. r = [Acquire l])"
| "script_ok t (SemaUp (LockSem l) # r) \<longleftrightarrow> r = [] \<or> r = [SemaDown (CondSem t), Acquire l]"
| "script_ok t (SemaUp (CondSem w) # r) \<longleftrightarrow> r = [] \<or> (\<exists>c l. r = [Broadcast c l])"
| "script_ok t (Release l # r) \<longleftrightarrow> r = [] \<or> r = [SemaDown (CondSem t), Acquire l]"
| "script_ok t (Signal c l # r) \<longleftrightarrow> r = [] \<or> r = [Broadcast c l]"
| "script_ok t (a # r) \<longleftrightarrow> r = []"

fun lock_effect :: "(nat \<Rightarrow> bool) \<Rightarrow> action \<Rightarrow> nat \<Rightarrow> bool" where
  "lock_effect H (Acquire l) = H(l := True)"
| "lock_effect H (SetHolder l) = H(l := True)"
| "lock_effect H (Release l) = H(l := False)"
| "lock_effect H _ = H"

fun runs_ok :: "(nat \<Rightarrow> bool) \<Rightarrow> action list \<Rightarrow> bool" where
  "runs_ok H [] \<longleftrightarrow> True"
| "runs_ok H (a # r) \<longleftrightarrow> need H a \<and> runs_ok (lock_effect H a) r"

text \<open>
  The invariants are stated over the parts of the state they depend on: the runnable threads \<open>R\<close>,
  the values \<open>V\<close> and waiters \<open>Q\<close> of the semaphores, what is left to do \<open>T\<close>, the holders \<open>H\<close> and the
  condition queues \<open>C\<close>.
\<close>

definition queue_inv :: "tptr set \<Rightarrow> (sem_id \<Rightarrow> tptr list) \<Rightarrow> (tptr \<Rightarrow> action list) \<Rightarrow> bool" where
  "queue_inv R Q T \<longleftrightarrow> (\<forall>s. distinct (Q s) \<and> (\<forall>t \<in> set (Q s). t \<notin> R \<and> (\<exists>r. T t = SemaDown s # r)))"

definition call_inv :: "tptr set \<Rightarrow> (sem_id \<Rightarrow> tptr list) \<Rightarrow> (tptr \<Rightarrow> action list) \<Rightarrow> (nat \<Rightarrow> tptr option) \<Rightarrow> bool" where
  "call_inv R Q T H \<longleftrightarrow> (\<forall>t. script_ok t (T t) \<and> runs_ok (\<lambda>l. H l = Some t) (T t) \<and>
     (T t \<noteq> [] \<or> (\<exists>l. H l = Some t) \<longrightarrow> t \<in> R \<or> (\<exists>s. t \<in> set (Q s))))"

text \<open>A thread owns a lock from taking its semaphore until giving it back.\<close>

definition owners :: "(tptr \<Rightarrow> action list) \<Rightarrow> (nat \<Rightarrow> tptr option) \<Rightarrow> nat \<Rightarrow> tptr set" where
  "owners T H l = {t. H l = Some t \<or> (\<exists>r. T t = SetHolder l # r) \<or> (\<exists>r. T t = SemaUp (LockSem l) # r)}"

definition lock_inv :: "(sem_id \<Rightarrow> u32) \<Rightarrow> (tptr \<Rightarrow> action list) \<Rightarrow> (nat \<Rightarrow> tptr option) \<Rightarrow> bool" where
  "lock_inv V T H \<longleftrightarrow> (\<forall>l. V (LockSem l) = 1 \<and> owners T H l = {} \<or> V (LockSem l) = 0 \<and> (\<exists>t. owners T H l = {t}))"

text \<open>The runnable threads that are about to test a semaphore.\<close>

definition testing :: "tptr set \<Rightarrow> (tptr \<Rightarrow> action list) \<Rightarrow> sem_id \<Rightarrow> tptr set" where
  "testing R T s = {t \<in> R. \<exists>r. T t = SemaDown s # r}"

definition wake_inv :: "tptr set \<Rightarrow> (sem_id \<Rightarrow> u32) \<Rightarrow> (sem_id \<Rightarrow> tptr list) \<Rightarrow> (tptr \<Rightarrow> action list) \<Rightarrow> bool" where
  "wake_inv R V Q T \<longleftrightarrow> (\<forall>s. Q s \<noteq> [] \<longrightarrow> unat (V s) \<le> card (testing R T s))"

text \<open>
  A thread in \<open>cond_wait\<close> whose signal is still to come is in exactly one condition queue; otherwise
  the signal is either on its way, in the hands of exactly one thread, or has arrived.
\<close>

definition in_wait :: "(tptr \<Rightarrow> action list) \<Rightarrow> tptr \<Rightarrow> bool" where
  "in_wait T w \<longleftrightarrow> SemaDown (CondSem w) \<in> set (T w)"

definition signalling :: "(tptr \<Rightarrow> action list) \<Rightarrow> tptr \<Rightarrow> tptr \<Rightarrow> bool" where
  "signalling T u w \<longleftrightarrow> (\<exists>r. T u = SemaUp (CondSem w) # r)"

definition cond_at :: "bool \<Rightarrow> u32 \<Rightarrow> nat set \<Rightarrow> tptr set \<Rightarrow> bool" where
  "cond_at in_w v queues signallers \<longleftrightarrow>
     (if in_w then v = 0 \<and> (\<exists>c. queues = {c}) \<and> signallers = {} \<or>
        v = 0 \<and> queues = {} \<and> (\<exists>u. signallers = {u}) \<or> v = 1 \<and> queues = {} \<and> signallers = {}
      else queues = {} \<and> signallers = {})"

definition cond_inv :: "(sem_id \<Rightarrow> u32) \<Rightarrow> (tptr \<Rightarrow> action list) \<Rightarrow> (nat \<Rightarrow> tptr list) \<Rightarrow> bool" where
  "cond_inv V T C \<longleftrightarrow> (\<forall>c. distinct (C c)) \<and>
     (\<forall>w. cond_at (in_wait T w) (V (CondSem w)) {c. w \<in> set (C c)} {u. signalling T u w})"

definition ginv :: "tptr set \<Rightarrow> (sem_id \<Rightarrow> u32) \<Rightarrow> (sem_id \<Rightarrow> tptr list) \<Rightarrow> (tptr \<Rightarrow> action list) \<Rightarrow>
    (nat \<Rightarrow> tptr option) \<Rightarrow> (nat \<Rightarrow> tptr list) \<Rightarrow> bool" where
  "ginv R V Q T H C \<longleftrightarrow> finite R \<and> queue_inv R Q T \<and> call_inv R Q T H \<and> lock_inv V T H \<and> wake_inv R V Q T \<and> cond_inv V T C"

definition waiting :: "kstate \<Rightarrow> tptr set" where
  "waiting st = (\<Union>s. set (waiters (semas st s)))"

definition kinv :: "kstate \<Rightarrow> bool" where
  "kinv st \<longleftrightarrow> sched_ok (sch st) (waiting st) \<and>
     ginv (runnable (sch st)) (\<lambda>s. sval (semas st s)) (\<lambda>s. waiters (semas st s)) (todo st) (holder st) (conds st)"

section \<open>Preservation\<close>

fun own_head :: "nat \<Rightarrow> action list \<Rightarrow> bool" where
  "own_head l (SetHolder k # r) \<longleftrightarrow> k = l"
| "own_head l (SemaUp (LockSem k) # r) \<longleftrightarrow> k = l"
| "own_head l _ \<longleftrightarrow> False"

fun signal_head :: "tptr \<Rightarrow> action list \<Rightarrow> bool" where
  "signal_head w (SemaUp (CondSem v) # r) \<longleftrightarrow> v = w"
| "signal_head w _ \<longleftrightarrow> False"

fun test_head :: "sem_id \<Rightarrow> action list \<Rightarrow> bool" where
  "test_head s (SemaDown q # r) \<longleftrightarrow> q = s"
| "test_head s _ \<longleftrightarrow> False"

lemma own_head_iff: "own_head l xs \<longleftrightarrow> (\<exists>r. xs = SetHolder l # r) \<or> (\<exists>r. xs = SemaUp (LockSem l) # r)"
  by (induction l xs rule: own_head.induct) auto

lemma signal_head_iff: "signal_head w xs \<longleftrightarrow> (\<exists>r. xs = SemaUp (CondSem w) # r)"
  by (induction w xs rule: signal_head.induct) auto

lemma test_head_iff: "test_head s xs \<longleftrightarrow> (\<exists>r. xs = SemaDown s # r)"
  by (induction s xs rule: test_head.induct) auto

lemma owners_alt: "owners T H l = {t. H l = Some t \<or> own_head l (T t)}"
  by (auto simp: owners_def own_head_iff)

lemma signalling_alt: "signalling T u w \<longleftrightarrow> signal_head w (T u)"
  by (auto simp: signalling_def signal_head_iff)

lemma testing_alt: "testing R T s = {t \<in> R. test_head s (T t)}"
  by (auto simp: testing_def test_head_iff)

lemma queue_inv_upd:
  assumes "queue_inv R Q T" "t \<in> R"
  shows "queue_inv R Q (T(t := x))"
  using assms unfolding queue_inv_def by (metis fun_upd_other)

lemma call_inv_upd:
  assumes "call_inv R Q T H" "t \<in> R" "script_ok t x" "runs_ok (\<lambda>l. H l = Some t) x"
  shows "call_inv R Q (T(t := x)) H"
  using assms unfolding call_inv_def by simp

lemma lock_inv_upd:
  assumes "lock_inv V T H" "\<And>l. own_head l x \<longleftrightarrow> own_head l (T t)"
  shows "lock_inv V (T(t := x)) H"
proof -
  have "owners (T(t := x)) H l = owners T H l" for l using assms(2) by (auto simp: owners_alt)
  with assms(1) show ?thesis by (simp add: lock_inv_def)
qed

lemma wake_inv_upd:
  assumes "wake_inv R V Q T" "finite R" "\<And>s. test_head s (T t) \<Longrightarrow> test_head s x"
  shows "wake_inv R V Q (T(t := x))"
  unfolding wake_inv_def
proof (intro allI impI)
  fix s assume q: "Q s \<noteq> []"
  have "testing R T s \<subseteq> testing R (T(t := x)) s" using assms(3) [of s] by (auto simp: testing_alt)
  then have "card (testing R T s) \<le> card (testing R (T(t := x)) s)"
    by (rule card_mono [rotated]) (simp add: testing_alt assms(2))
  with assms(1) q show "unat (V s) \<le> card (testing R (T(t := x)) s)" by (fastforce simp: wake_inv_def)
qed

lemma cond_inv_upd:
  assumes "cond_inv V T C" "SemaDown (CondSem t) \<in> set x \<longleftrightarrow> SemaDown (CondSem t) \<in> set (T t)"
    "\<And>w. signal_head w x \<longleftrightarrow> signal_head w (T t)"
  shows "cond_inv V (T(t := x)) C"
proof -
  have "in_wait (T(t := x)) w = in_wait T w" for w using assms(2) by (simp add: in_wait_def)
  moreover have "signalling (T(t := x)) u w = signalling T u w" for u w using assms(3) by (simp add: signalling_alt)
  ultimately show ?thesis using assms(1) unfolding cond_inv_def by simp
qed

text \<open>A change of what one runnable thread has left to do that takes and gives no token.\<close>

lemma ginv_local:
  assumes "ginv R V Q T H C" "t \<in> R" "script_ok t x" "runs_ok (\<lambda>l. H l = Some t) x"
    "\<And>l. own_head l x \<longleftrightarrow> own_head l (T t)" "\<And>s. test_head s (T t) \<Longrightarrow> test_head s x"
    "SemaDown (CondSem t) \<in> set x \<longleftrightarrow> SemaDown (CondSem t) \<in> set (T t)"
    "\<And>w. signal_head w x \<longleftrightarrow> signal_head w (T t)"
  shows "ginv R V Q (T(t := x)) H C"
  using assms unfolding ginv_def
  by (auto intro!: queue_inv_upd call_inv_upd lock_inv_upd wake_inv_upd cond_inv_upd)

lemma ginvD:
  assumes "ginv R V Q T H C"
  shows "finite R" "queue_inv R Q T" "call_inv R Q T H" "lock_inv V T H" "wake_inv R V Q T" "cond_inv V T C"
    "script_ok t (T t)" "runs_ok (\<lambda>l. H l = Some t) (T t)"
  using assms by (simp_all add: ginv_def call_inv_def)

lemma queue_empty_cond:
  assumes "ginv R V Q T H C" "t \<in> R"
  shows "Q (CondSem t) = []"
proof (rule ccontr)
  assume "Q (CondSem t) \<noteq> []"
  then obtain u where "u \<in> set (Q (CondSem t))" by (cases "Q (CondSem t)") auto
  then obtain r where "T u = SemaDown (CondSem t) # r" "u \<notin> R"
    using ginvD(2) [OF assms(1)] by (auto simp: queue_inv_def)
  with ginvD(7) [OF assms(1), of u] assms(2) show False by simp
qed

text \<open>\<open>sema_down\<close> on a semaphore that is zero.\<close>

lemma ginv_block:
  assumes "ginv R V Q T H C" "t \<in> R" "T t = SemaDown s # r" "V s = 0"
  shows "ginv (R - {t}) V (Q(s := Q s @ [t])) T H C"
proof -
  note D = ginvD [OF assms(1)]
  have "queue_inv (R - {t}) (Q(s := Q s @ [t])) T"
    using D(2) assms(2,3) by (auto simp: queue_inv_def)
  moreover have "call_inv (R - {t}) (Q(s := Q s @ [t])) T H"
    using D(3) by (force simp: call_inv_def)
  moreover have "wake_inv (R - {t}) V (Q(s := Q s @ [t])) T"
    unfolding wake_inv_def
  proof (intro allI impI)
    fix q assume q: "(Q(s := Q s @ [t])) q \<noteq> []"
    show "unat (V q) \<le> card (testing (R - {t}) T q)"
    proof (cases "q = s")
      case False
      then have "testing (R - {t}) T q = testing R T q" using assms(3) by (auto simp: testing_alt)
      with D(5) q False show ?thesis by (auto simp: wake_inv_def)
    qed (simp add: assms(4))
  qed
  ultimately show ?thesis using D by (simp add: ginv_def)
qed

lemma lock_token:
  assumes "lock_inv V T H" "t \<in> owners T H l"
  shows "owners T H l = {t}" "V (LockSem l) = 0"
  using assms by (auto simp: lock_inv_def)

text \<open>\<open>sema_down\<close> on a semaphore that is not zero.\<close>

lemma ginv_take:
  assumes g: "ginv R V Q T H C" and t: "t \<in> R" "T t = SemaDown s # r" and v: "V s \<noteq> 0"
  shows "ginv R (V(s := V s - 1)) Q (T(t := r)) H C"
proof -
  note D = ginvD [OF g]
  have sc: "script_ok t (SemaDown s # r)" "runs_ok (\<lambda>l. H l = Some t) (SemaDown s # r)"
    using D(7,8) [of t] t(2) by auto
  have q: "queue_inv R Q (T(t := r))" by (rule queue_inv_upd [OF D(2) t(1)])
  have c: "call_inv R Q (T(t := r)) H"
    by (rule call_inv_upd [OF D(3) t(1)]) (use sc in \<open>cases s; auto\<close>)+
  have l: "lock_inv (V(s := V s - 1)) (T(t := r)) H"
  proof (cases s)
    case (LockSem k)
    then have r: "r = [SetHolder k]" "T t = [SemaDown (LockSem k), SetHolder k]" using sc t by auto
    have "V (LockSem k) = 1" "owners T H k = {}" using D(4) v LockSem unfolding lock_inv_def by auto
    moreover have "owners (T(t := r)) H k = insert t (owners T H k)" by (auto simp: owners_alt r)
    moreover have "owners (T(t := r)) H l = owners T H l" if "l \<noteq> k" for l
      using that by (auto simp: owners_alt r)
    ultimately show ?thesis using D(4) LockSem unfolding lock_inv_def by auto
  next
    case (CondSem u)
    have "lock_inv V (T(t := r)) H" by (rule lock_inv_upd [OF D(4)]) (use sc CondSem t in auto)
    then show ?thesis using CondSem by (simp add: lock_inv_def)
  next
    case (NamedSem n)
    have "lock_inv V (T(t := r)) H" by (rule lock_inv_upd [OF D(4)]) (use sc NamedSem t in auto)
    then show ?thesis using NamedSem by (simp add: lock_inv_def)
  qed
  have w: "wake_inv R (V(s := V s - 1)) Q (T(t := r))"
    unfolding wake_inv_def
  proof (intro allI impI)
    fix q assume q: "Q q \<noteq> []"
    have nt: "\<not> test_head q r" using sc by (cases s) auto
    show "unat ((V(s := V s - 1)) q) \<le> card (testing R (T(t := r)) q)"
    proof (cases "q = s")
      case True
      have "testing R T s = insert t (testing R (T(t := r)) s)" "t \<notin> testing R (T(t := r)) s"
        using t nt True by (auto simp: testing_alt)
      moreover have "finite (testing R (T(t := r)) s)" using D(1) by (simp add: testing_alt)
      ultimately have "card (testing R T s) = Suc (card (testing R (T(t := r)) s))" by simp
      moreover have "unat (V s) \<le> card (testing R T s)" using D(5) q True by (auto simp: wake_inv_def)
      moreover have "unat (V s - 1) = unat (V s) - 1" using v by (simp add: unat_minus_one)
      ultimately show ?thesis using True by simp
    next
      case False
      have "testing R (T(t := r)) q = testing R T q" using t nt False by (auto simp: testing_alt)
      with D(5) q False show ?thesis by (simp add: wake_inv_def)
    qed
  qed
  have k: "cond_inv (V(s := V s - 1)) (T(t := r)) C"
  proof (cases "s = CondSem t")
    case True
    then obtain l where r: "r = [Acquire l]" using sc by auto
    have i: "in_wait T t" using t True by (simp add: in_wait_def)
    have u: "\<not> in_wait (T(t := r)) t" "\<And>w. w \<noteq> t \<Longrightarrow> in_wait (T(t := r)) w = in_wait T w"
      "\<And>u w. signalling (T(t := r)) u w = signalling T u w"
      using r t True by (auto simp: in_wait_def signalling_alt)
    have "cond_at True (V (CondSem t)) {c. t \<in> set (C c)} {u. signalling T u t}"
      using D(6) i unfolding cond_inv_def by metis
    then have "{c. t \<in> set (C c)} = {}" "{u. signalling T u t} = {}" using v True by (auto simp: cond_at_def)
    then have "cond_at False x {c. t \<in> set (C c)} {u. signalling T u t}" for x by (simp add: cond_at_def)
    then have "cond_at (in_wait (T(t := r)) w) ((V(s := V s - 1)) (CondSem w)) {c. w \<in> set (C c)}
        {u. signalling (T(t := r)) u w}" for w
      using D(6) u True unfolding cond_inv_def by (cases "w = t") auto
    then show ?thesis using D(6) by (simp add: cond_inv_def)
  next
    case False
    have "cond_inv V (T(t := r)) C" by (rule cond_inv_upd [OF D(6)]) (use sc t False in \<open>cases s; auto\<close>)+
    moreover have "s \<noteq> CondSem w" for w using sc False by auto
    ultimately show ?thesis by (auto simp: cond_inv_def)
  qed
  from D(1) q c l w k show ?thesis by (simp add: ginv_def)
qed

text \<open>\<open>sema_up\<close>: the parts of the invariant that do not depend on whether a thread is woken.\<close>

lemma up_lock:
  assumes g: "ginv R V Q T H C" and t: "T t = SemaUp s # r"
  shows "lock_inv (V(s := V s + 1)) (T(t := r)) H"
proof (cases "\<exists>k. s = LockSem k")
  case True
  then obtain k where k: "s = LockSem k" ..
  note D = ginvD [OF g]
  have r: "\<And>l. \<not> own_head l r" and h: "H k \<noteq> Some t" using D(7,8) [of t] t k by auto
  have "t \<in> owners T H k" using t k by (simp add: owners_alt)
  note o = lock_token [OF D(4) this]
  have "owners (T(t := r)) H k = {}" using o(1) r h by (auto simp: owners_alt)
  moreover have "owners (T(t := r)) H l = owners T H l" if "l \<noteq> k" for l
    using that t k r by (auto simp: owners_alt)
  ultimately show ?thesis using D(4) o k unfolding lock_inv_def by auto
next
  case False
  note D = ginvD [OF g]
  have "lock_inv V (T(t := r)) H"
    by (rule lock_inv_upd [OF D(4)]) (use False t D(7) [of t] in \<open>cases s; auto\<close>)
  with False show ?thesis by (auto simp: lock_inv_def)
qed

lemma cond_at_signaller:
  assumes "cond_at b v A S" "t \<in> S"
  shows b "v = 0" "A = {}" "S = {t}"
  using assms by (auto simp: cond_at_def split: if_splits)

lemma cond_at_queued:
  assumes "cond_at b v A S" "c \<in> A"
  shows b "v = 0" "A = {c}" "S = {}"
  using assms by (auto simp: cond_at_def split: if_splits)

lemma up_cond:
  assumes g: "ginv R V Q T H C" and t: "T t = SemaUp s # r"
  shows "cond_inv (V(s := V s + 1)) (T(t := r)) C"
proof (cases "\<exists>w. s = CondSem w")
  case True
  then obtain w where w: "s = CondSem w" ..
  note D = ginvD [OF g]
  have r: "\<And>l. \<not> signal_head l r" and iw: "in_wait (T(t := r)) v = in_wait T v" for v
    using D(7) [of t] t w by (auto simp: in_wait_def)
  have at: "cond_at (in_wait T v) (V (CondSem v)) {c. v \<in> set (C c)} {u. signalling T u v}" for v
    using D(6) by (simp add: cond_inv_def)
  have "t \<in> {u. signalling T u w}" using t w by (simp add: signalling_alt)
  have o: "in_wait T w" "V (CondSem w) = 0" "{c. w \<in> set (C c)} = {}" "{u. signalling T u w} = {t}"
    by (rule cond_at_signaller [OF at \<open>t \<in> _\<close>])+
  have "{u. signalling (T(t := r)) u w} = {u. signalling T u w} - {t}"
    using r by (auto simp: signalling_alt)
  then have "{u. signalling (T(t := r)) u w} = {}" using o(4) by simp
  moreover have "{u. signalling (T(t := r)) u v} = {u. signalling T u v}" if "v \<noteq> w" for v
    using r that t w by (auto simp: signalling_alt)
  ultimately have "cond_at (in_wait (T(t := r)) v) ((V(s := V s + 1)) (CondSem v)) {c. v \<in> set (C c)}
      {u. signalling (T(t := r)) u v}" for v
    using at [of v] o(1,2,3) w by (cases "v = w") (simp_all add: iw cond_at_def)
  with D(6) show ?thesis by (simp add: cond_inv_def)
next
  case False
  note D = ginvD [OF g]
  have "cond_inv V (T(t := r)) C"
    by (rule cond_inv_upd [OF D(6)]) (use False t D(7) [of t] in \<open>cases s; auto\<close>)+
  with False show ?thesis by (auto simp: cond_inv_def)
qed

lemma up_script:
  assumes g: "ginv R V Q T H C" and t: "T t = SemaUp s # r"
  shows "script_ok t r" "runs_ok (\<lambda>l. H l = Some t) r"
  using ginvD(7,8) [OF g, of t] t by (cases s; auto)+

lemma ginv_up:
  assumes g: "ginv R V Q T H C" and t: "t \<in> R" "T t = SemaUp s # r" and q: "Q s = []"
  shows "ginv R (V(s := V s + 1)) Q (T(t := r)) H C"
proof -
  note D = ginvD [OF g]
  have "wake_inv R V Q (T(t := r))" by (rule wake_inv_upd [OF D(5,1)]) (simp add: t)
  with q have "wake_inv R (V(s := V s + 1)) Q (T(t := r))" by (auto simp: wake_inv_def)
  then show ?thesis
    using D(1) queue_inv_upd [OF D(2) t(1)] call_inv_upd [OF D(3) t(1) up_script [OF g t(2)]]
      up_lock [OF g t(2)] up_cond [OF g t(2)] by (simp add: ginv_def)
qed

lemma ginv_up_wake:
  assumes g: "ginv R V Q T H C" and t: "t \<in> R" "T t = SemaUp s # r" and q: "Q s = w # ws"
  shows "ginv (insert w R) (V(s := V s + 1)) (Q(s := ws)) (T(t := r)) H C"
proof -
  note D = ginvD [OF g]
  obtain r' where w: "w \<notin> R" "T w = SemaDown s # r'" "w \<noteq> t" "distinct (w # ws)"
    using D(2) q t(1) unfolding queue_inv_def by (metis list.set_intros(1))
  have other: "w \<notin> set (Q p)" if "p \<noteq> s" for p
    using D(2) w(2) that unfolding queue_inv_def by (metis action.inject(1) list.inject)
  have qi: "queue_inv R Q (T(t := r))" by (rule queue_inv_upd [OF D(2) t(1)])
  have "queue_inv (insert w R) (Q(s := ws)) (T(t := r))"
  proof -
    define T' where "T' = T(t := r)"
    have qi': "distinct (Q p)" "u \<in> set (Q p) \<Longrightarrow> u \<notin> R \<and> (\<exists>x. T' u = SemaDown p # x)" for p u
      using qi unfolding queue_inv_def T'_def by blast+
    have "u \<in> set (Q p) \<and> u \<noteq> w" if "u \<in> set ((Q(s := ws)) p)" for u p
      using that q w(4) other [of p] by (cases "p = s") auto
    then have "u \<notin> insert w R \<and> (\<exists>x. T' u = SemaDown p # x)" if "u \<in> set ((Q(s := ws)) p)" for u p
      using that qi'(2) [of u p] by blast
    moreover have "distinct ((Q(s := ws)) p)" for p using qi'(1) [of p] w(4) by simp
    ultimately show ?thesis unfolding queue_inv_def T'_def [symmetric] by blast
  qed
  moreover have "call_inv (insert w R) (Q(s := ws)) (T(t := r)) H"
  proof -
    have "u \<in> insert w R \<or> (\<exists>p. u \<in> set ((Q(s := ws)) p))" if "u \<in> R \<or> (\<exists>p. u \<in> set (Q p))" for u
      using that q by (metis fun_upd_apply insert_iff set_ConsD)
    with call_inv_upd [OF D(3) t(1) up_script [OF g t(2)]] show ?thesis unfolding call_inv_def by metis
  qed
  moreover have "wake_inv (insert w R) (V(s := V s + 1)) (Q(s := ws)) (T(t := r))"
    unfolding wake_inv_def
  proof (intro allI impI)
    fix p assume p: "(Q(s := ws)) p \<noteq> []"
    have fin: "finite (testing (insert w R) (T(t := r)) p)" using D(1) by (simp add: testing_alt)
    have sub: "testing R T p \<subseteq> testing (insert w R) (T(t := r)) p"
      using t by (auto simp: testing_alt)
    have c: "unat (V p) \<le> card (testing R T p)" using D(5) p q by (cases "p = s") (auto simp: wake_inv_def)
    show "unat ((V(s := V s + 1)) p) \<le> card (testing (insert w R) (T(t := r)) p)"
    proof (cases "p = s")
      case True
      have "insert w (testing R T s) \<subseteq> testing (insert w R) (T(t := r)) s"
        using sub True w by (auto simp: testing_alt)
      from card_mono [OF _ this] fin True have "card (insert w (testing R T s)) \<le> card (testing (insert w R) (T(t := r)) s)" by simp
      moreover have "w \<notin> testing R T s" "finite (testing R T s)" using w(1) D(1) by (auto simp: testing_alt)
      moreover have "unat (V s + 1) \<le> Suc (unat (V s))" by (metis Suc_eq_plus1 unat_1 unat_plus_if' less_or_eq_imp_le diff_le_self)
      ultimately show ?thesis using c True by simp
    next
      case False
      with card_mono [OF fin sub] c show ?thesis by simp
    qed
  qed
  ultimately show ?thesis using D(1) up_lock [OF g t(2)] up_cond [OF g t(2)] by (simp add: ginv_def)
qed

text \<open>Locks.\<close>

lemma ginv_acquire:
  assumes g: "ginv R V Q T H C" and t: "t \<in> R" "T t = Acquire l # r"
  shows "ginv R V Q (T(t := SemaDown (LockSem l) # SetHolder l # r)) H C"
  by (rule ginv_local [OF g t(1)]) (use ginvD(7,8) [OF g, of t] t(2) in auto)

lemma ginv_drop:
  assumes g: "ginv R V Q T H C" and t: "t \<in> R" "T t = a # r"
    and a: "(\<exists>l. a = TryAcquire l) \<or> a = Yield \<or> (\<exists>c l. a = Signal c l) \<or> (\<exists>c l. a = Broadcast c l)"
  shows "ginv R V Q (T(t := r)) H C"
  by (rule ginv_local [OF g t(1)]) (use ginvD(7,8) [OF g, of t] t(2) a in auto)

lemma ginv_try:
  assumes g: "ginv R V Q T H C" and t: "t \<in> R" "T t = TryAcquire l # r" and v: "V (LockSem l) \<noteq> 0"
  shows "ginv R (V(LockSem l := V (LockSem l) - 1)) Q (T(t := SetHolder l # r)) H C"
proof -
  have "ginv R V Q (T(t := SemaDown (LockSem l) # SetHolder l # r)) H C"
    by (rule ginv_local [OF g t(1)]) (use ginvD(7,8) [OF g, of t] t(2) in auto)
  from ginv_take [OF this t(1) _ v] show ?thesis by simp
qed

lemma ginv_set_holder:
  assumes g: "ginv R V Q T H C" and t: "t \<in> R" "T t = SetHolder l # r"
  shows "ginv R V Q (T(t := r)) (H(l := Some t)) C"
proof -
  note D = ginvD [OF g]
  have r: "r = []" "H l \<noteq> Some t" using D(7,8) [of t] t by auto
  have "t \<in> owners T H l" using t by (simp add: owners_alt)
  note o = lock_token [OF D(4) this]
  have hn: "H l = None" using o(1) r(2) by (cases "H l") (auto simp: owners_alt)
  have "lock_inv V (T(t := r)) (H(l := Some t))"
  proof -
    have "owners (T(t := r)) (H(l := Some t)) l = {t}" using o(1) by (auto simp: owners_alt r)
    moreover have "owners (T(t := r)) (H(l := Some t)) k = owners T H k" if "k \<noteq> l" for k
      using that t r by (auto simp: owners_alt)
    ultimately show ?thesis using D(4) o(2) unfolding lock_inv_def by metis
  qed
  moreover have "call_inv R Q (T(t := r)) (H(l := Some t))"
  proof -
    have "(\<lambda>k. (H(l := Some t)) k = Some u) = (\<lambda>k. H k = Some u)" if "u \<noteq> t" for u
      using that hn by (auto simp: fun_eq_iff)
    with D(3) t(1) r(1) show ?thesis unfolding call_inv_def by (auto simp: fun_upd_def)
  qed
  moreover have "wake_inv R V Q (T(t := r))" by (rule wake_inv_upd [OF D(5,1)]) (simp add: t)
  moreover have "cond_inv V (T(t := r)) C" by (rule cond_inv_upd [OF D(6)]) (use t r in auto)
  ultimately show ?thesis using D(1) queue_inv_upd [OF D(2) t(1)] by (simp add: ginv_def)
qed

lemma ginv_release:
  assumes g: "ginv R V Q T H C" and t: "t \<in> R" "T t = Release l # r"
  shows "ginv R V Q (T(t := SemaUp (LockSem l) # r)) (H(l := None)) C"
proof -
  note D = ginvD [OF g]
  let ?x = "SemaUp (LockSem l) # r"
  have r: "r = [] \<or> r = [SemaDown (CondSem t), Acquire l]" "H l = Some t" using D(7,8) [of t] t by auto
  have "t \<in> owners T H l" using r by (simp add: owners_alt)
  note o = lock_token [OF D(4) this]
  have "lock_inv V (T(t := ?x)) (H(l := None))"
  proof -
    have "owners (T(t := ?x)) (H(l := None)) l = {t}" using o(1) by (auto simp: owners_alt)
    moreover have "owners (T(t := ?x)) (H(l := None)) k = owners T H k" if "k \<noteq> l" for k
      using that t r by (auto simp: owners_alt)
    ultimately show ?thesis using D(4) o(2) unfolding lock_inv_def by metis
  qed
  moreover have "call_inv R Q (T(t := ?x)) (H(l := None))"
  proof -
    have "(\<lambda>k. (H(l := None)) k = Some u) = (\<lambda>k. H k = Some u)" if "u \<noteq> t" for u
      using that r(2) by (auto simp: fun_eq_iff)
    moreover have "runs_ok (\<lambda>k. (H(l := None)) k = Some t) ?x" using r(1) by auto
    ultimately show ?thesis using D(3) t(1) r(1) unfolding call_inv_def by (auto simp: fun_upd_def)
  qed
  moreover have "wake_inv R V Q (T(t := ?x))" by (rule wake_inv_upd [OF D(5,1)]) (simp add: t)
  moreover have "cond_inv V (T(t := ?x)) C" by (rule cond_inv_upd [OF D(6)]) (use t r in auto)
  ultimately show ?thesis using D(1) queue_inv_upd [OF D(2) t(1)] by (simp add: ginv_def)
qed

text \<open>Condition variables.\<close>

lemma ginv_wait:
  assumes g: "ginv R V Q T H C" and t: "t \<in> R" "T t = Wait c l # r"
  shows "ginv R (V(CondSem t := 0)) (Q(CondSem t := [])) (T(t := Release l # SemaDown (CondSem t) # Acquire l # r)) H
    (C(c := C c @ [t]))"
proof -
  note D = ginvD [OF g]
  let ?x = "Release l # SemaDown (CondSem t) # Acquire l # r"
  have r: "r = []" "H l = Some t" using D(7,8) [of t] t by auto
  have Q: "Q(CondSem t := []) = Q" using queue_empty_cond [OF g t(1)] by auto
  have at: "cond_at (in_wait T w) (V (CondSem w)) {d. w \<in> set (C d)} {u. signalling T u w}" for w
    using D(6) by (simp add: cond_inv_def)
  have "\<not> in_wait T t" using t r by (simp add: in_wait_def)
  with at [of t] have e: "{d. t \<in> set (C d)} = {}" "{u. signalling T u t} = {}" by (auto simp: cond_at_def)
  have iw: "in_wait (T(t := ?x)) w \<longleftrightarrow> w = t \<or> in_wait T w" for w by (simp add: in_wait_def)
  have sg: "signalling (T(t := ?x)) u w = signalling T u w" for u w using t by (simp add: signalling_alt)
  have "{d. t \<in> set ((C(c := C c @ [t])) d)} = {c}" using e(1) by auto
  moreover have "{d. w \<in> set ((C(c := C c @ [t])) d)} = {d. w \<in> set (C d)}" if "w \<noteq> t" for w using that by auto
  ultimately have "cond_at (in_wait (T(t := ?x)) w) ((V(CondSem t := 0)) (CondSem w)) {d. w \<in> set ((C(c := C c @ [t])) d)}
      {u. signalling (T(t := ?x)) u w}" for w
    using at [of w] e(2) unfolding iw sg by (cases "w = t") (simp_all add: cond_at_def)
  moreover have "distinct ((C(c := C c @ [t])) d)" for d
    using D(6) e(1) by (auto simp: cond_inv_def)
  ultimately have "cond_inv (V(CondSem t := 0)) (T(t := ?x)) (C(c := C c @ [t]))" by (simp add: cond_inv_def)
  moreover have "lock_inv V (T(t := ?x)) H" by (rule lock_inv_upd [OF D(4)]) (simp add: t)
  then have "lock_inv (V(CondSem t := 0)) (T(t := ?x)) H" by (simp add: lock_inv_def)
  moreover have "wake_inv R V Q (T(t := ?x))" by (rule wake_inv_upd [OF D(5,1)]) (simp add: t)
  then have "wake_inv R (V(CondSem t := 0)) Q (T(t := ?x))" by (simp add: wake_inv_def)
  moreover have "call_inv R Q (T(t := ?x)) H" by (rule call_inv_upd [OF D(3) t(1)]) (use r in auto)
  ultimately show ?thesis unfolding Q using D(1) queue_inv_upd [OF D(2) t(1)] by (simp add: ginv_def)
qed

lemma ginv_signal:
  assumes g: "ginv R V Q T H C" and t: "t \<in> R" "T t = Signal c l # r" and c: "C c = w # ws"
  shows "ginv R V Q (T(t := SemaUp (CondSem w) # r)) H (C(c := ws))"
proof -
  note D = ginvD [OF g]
  let ?x = "SemaUp (CondSem w) # r"
  have r: "r = [] \<or> r = [Broadcast c l]" "runs_ok (\<lambda>l. H l = Some t) r" using D(7,8) [of t] t by auto
  have at: "cond_at (in_wait T v) (V (CondSem v)) {d. v \<in> set (C d)} {u. signalling T u v}" for v
    using D(6) by (simp add: cond_inv_def)
  have "c \<in> {d. w \<in> set (C d)}" using c by simp
  note e = cond_at_queued [OF at this]
  have d: "distinct (w # ws)" using D(6) c by (metis cond_inv_def)
  have iw: "in_wait (T(t := ?x)) v = in_wait T v" for v using t by (simp add: in_wait_def)
  have "{u. signalling (T(t := ?x)) u w} = insert t {u. signalling T u w}" by (auto simp: signalling_alt)
  then have sw: "{u. signalling (T(t := ?x)) u w} = {t}" using e(4) by simp
  have so: "{u. signalling (T(t := ?x)) u v} = {u. signalling T u v}" if "v \<noteq> w" for v
    using that t by (auto simp: signalling_alt)
  have "{d. w \<in> set ((C(c := ws)) d)} = {}" using e(3) d by auto
  moreover have "{d. v \<in> set ((C(c := ws)) d)} = {d. v \<in> set (C d)}" if "v \<noteq> w" for v using that c by auto
  ultimately have "cond_at (in_wait (T(t := ?x)) v) (V (CondSem v)) {d. v \<in> set ((C(c := ws)) d)}
      {u. signalling (T(t := ?x)) u v}" for v
    using at [of v] e(1,2) sw so unfolding iw by (cases "v = w") (simp_all add: cond_at_def)
  moreover have "distinct ((C(c := ws)) d)" for d using D(6) \<open>distinct (w # ws)\<close> by (simp add: cond_inv_def)
  ultimately have "cond_inv V (T(t := ?x)) (C(c := ws))" by (simp add: cond_inv_def)
  moreover have "lock_inv V (T(t := ?x)) H" by (rule lock_inv_upd [OF D(4)]) (simp add: t)
  moreover have "wake_inv R V Q (T(t := ?x))" by (rule wake_inv_upd [OF D(5,1)]) (simp add: t)
  moreover have "call_inv R Q (T(t := ?x)) H" by (rule call_inv_upd [OF D(3) t(1)]) (use r in auto)
  ultimately show ?thesis using D(1) queue_inv_upd [OF D(2) t(1)] by (simp add: ginv_def)
qed

lemma ginv_broadcast:
  assumes g: "ginv R V Q T H C" and t: "t \<in> R" "T t = Broadcast c l # r"
  shows "ginv R V Q (T(t := Signal c l # Broadcast c l # r)) H C"
  by (rule ginv_local [OF g t(1)]) (use ginvD(7,8) [OF g, of t] t(2) in auto)

text \<open>Calls, exits and new threads.\<close>

lemma ginv_call:
  assumes g: "ginv R V Q T H C" and t: "t \<in> R" "T t = []" and a: "callable a" "need (\<lambda>l. H l = Some t) a"
  shows "ginv R V Q (T(t := [a])) H C"
  by (rule ginv_local [OF g t(1)]) (use t(2) a in \<open>cases a; auto\<close>)+

lemma ginv_exit:
  assumes g: "ginv R V Q T H C" and t: "t \<in> R" "T t = Exit # r"
  shows "ginv (R - {t}) V Q (T(t := r)) H C"
proof -
  note D = ginvD [OF g]
  have r: "r = []" "\<And>l. H l \<noteq> Some t" using D(7,8) [of t] t by auto
  have g': "ginv R V Q (T(t := r)) H C" by (rule ginv_local [OF g t(1)]) (use r t in auto)
  note D' = ginvD [OF g']
  have "queue_inv (R - {t}) Q (T(t := r))" using D'(2) unfolding queue_inv_def by blast
  moreover have "call_inv (R - {t}) Q (T(t := r)) H" using D'(3) r unfolding call_inv_def by auto
  moreover have "testing (R - {t}) (T(t := r)) s = testing R (T(t := r)) s" for s using r by (auto simp: testing_alt)
  then have "wake_inv (R - {t}) V Q (T(t := r))" using D'(5) by (simp add: wake_inv_def)
  ultimately show ?thesis using D' by (simp add: ginv_def)
qed

lemma ginv_create:
  assumes g: "ginv R V Q T H C" and p: "\<And>s. p \<notin> set (Q s)"
  shows "ginv (insert p R) V Q T H C"
proof -
  note D = ginvD [OF g]
  have "queue_inv (insert p R) Q T" using D(2) p unfolding queue_inv_def by blast
  moreover have "call_inv (insert p R) Q T H" using D(3) unfolding call_inv_def by blast
  moreover have "wake_inv (insert p R) V Q T"
    unfolding wake_inv_def
  proof (intro allI impI)
    fix s assume "Q s \<noteq> []"
    moreover have "card (testing R T s) \<le> card (testing (insert p R) T s)"
      by (rule card_mono) (use D(1) in \<open>auto simp: testing_alt\<close>)
    ultimately show "unat (V s) \<le> card (testing (insert p R) T s)"
      using D(5) unfolding wake_inv_def by (meson le_trans)
  qed
  ultimately show ?thesis using D by (simp add: ginv_def)
qed

section \<open>The running thread performs an action\<close>

lemma kinvD:
  assumes "kinv st"
  shows "sched_ok (sch st) (waiting st)"
    "ginv (runnable (sch st)) (\<lambda>s. sval (semas st s)) (\<lambda>s. waiters (semas st s)) (todo st) (holder st) (conds st)"
  using assms by (simp_all add: kinv_def)

lemma cur_runnable:
  assumes "kinv st" "todo st (cur (sch st)) \<noteq> []"
  shows "cur (sch st) \<in> runnable (sch st)"
proof -
  note k = kinvD [OF assms(1)]
  have "cur (sch st) \<notin> waiting st" using sched_okD(6) [OF k(1)] .
  moreover have "cur (sch st) \<in> runnable (sch st) \<or> (\<exists>s. cur (sch st) \<in> set (waiters (semas st s)))"
    using ginvD(3) [OF k(2)] assms(2) unfolding call_inv_def by blast
  ultimately show ?thesis by (auto simp: waiting_def)
qed

lemma runnable_intr [simp]: "runnable (sc\<lparr>intr := l\<rparr>) = runnable sc"
  by (simp add: runnable_def)

lemma intr_round_trip:
  assumes "sched_ok sc W"
  shows "intr_set_level (intr sc) (sc\<lparr>intr := INTR_OFF\<rparr>) \<noteq> None"
    "intr_set_level l sc = Some (sc\<lparr>intr := l\<rparr>, intr sc)"
  using sched_okD(4) [OF assms] by (cases "intr sc"; cases l; simp add: intr_set_level_def intr_enable_def intr_disable_def intr_get_level_def)+

lemma waiting_queue:
  "waiting st = (\<Union>s. set (waiters (semas st s)))"
  by (simp add: waiting_def)

lemma waiting_cong: "(\<And>s. waiters (semas st' s) = waiters (semas st s)) \<Longrightarrow> waiting st = waiting st'"
  by (simp add: waiting_def)

text \<open>To establish the invariant from its two parts, with the waiting set and the runnable set given.\<close>

lemma kinvI:
  assumes "sched_ok (sch st) W" "W = waiting st" "runnable (sch st) = R"
    "(\<lambda>s. sval (semas st s)) = V" "(\<lambda>s. waiters (semas st s)) = Q" "ginv R V Q (todo st) (holder st) (conds st)"
  shows "kinv st"
  using assms by (simp add: kinv_def)

lemma UN_upd: "(\<Union>x. set ((Q(s := v)) x)) = set v \<union> (\<Union>x \<in> - {s}. set (Q x))"
  by (auto simp: fun_upd_def split: if_splits)

lemma UN_split: "(\<Union>x. set (Q x)) = set (Q s) \<union> (\<Union>x \<in> - {s}. set (Q x))"
  by auto

lemma perform_sema_down:
  assumes k: "kinv st" and t: "cur (sch st) = t" "todo st t = SemaDown s # r"
  shows "\<exists>st'. exec st = Some st' \<and> kinv st'"
proof -
  note K = kinvD [OF k]
  note b = sched_okD [OF K(1)]
  have R: "t \<in> runnable (sch st)" using cur_runnable [OF k] t by auto
  then have ni: "idle_thread (sch st) \<noteq> Some t" by (simp add: runnable_def)
  let ?sc = "(sch st)\<lparr>intr := INTR_OFF\<rparr>"
  have ok: "sched_ok ?sc (waiting st)" using K(1) by simp
  show ?thesis
  proof (cases "sval (semas st s) = 0")
    case True
    let ?sem = "(semas st)(s := (semas st s)\<lparr>waiters := waiters (semas st s) @ [t]\<rparr>)"
    obtain sc where sc: "thread_block ?sc = Some sc" "sched_ok sc (insert t (waiting st))" "cur sc = chosen ?sc"
      "ready_list sc = tl (ready_list ?sc)" "idle_thread sc = idle_thread ?sc"
      using thread_block_ok [OF ok] t(1) ni by auto
    have Rn: "runnable sc = runnable (sch st) - {t}" using runnable_chosen [OF ok sc(3,4,5)] t(1) by simp
    let ?st' = "st\<lparr>semas := ?sem, sch := sc\<lparr>intr := INTR_ON\<rparr>\<rparr>"
    have "(todo st)(t := SemaDown s # r) = todo st" using t(2) by auto
    then have e: "exec st = Some ?st'"
      using t True b(4) thread_current_ok [OF ok] sc(1)
      by (simp add: exec_def sema_down_def intr_context_def intr_disable_def Let_def)
    have Q: "(\<lambda>x. waiters (?sem x)) = (\<lambda>x. waiters (semas st x))(s := waiters (semas st s) @ [t])" by auto
    have "kinv ?st'"
    proof (rule kinvI)
      show "sched_ok (sch ?st') (insert t (waiting st))" using sc(2) by simp
      have "waiting ?st' = (\<Union>x. set (((\<lambda>x. waiters (semas st x))(s := waiters (semas st s) @ [t])) x))"
        unfolding Q [symmetric] by (simp add: waiting_def)
      then show "insert t (waiting st) = waiting ?st'"
        unfolding UN_upd waiting_queue UN_split [of "\<lambda>x. waiters (semas st x)" s] by simp
      show "runnable (sch ?st') = runnable (sch st) - {t}" using Rn by simp
      show "(\<lambda>s. waiters (semas ?st' s)) = (\<lambda>x. waiters (semas st x))(s := waiters (semas st s) @ [t])" by auto
      show "(\<lambda>s. sval (semas ?st' s)) = (\<lambda>s. sval (semas st s))" by auto
      show "ginv (runnable (sch st) - {t}) (\<lambda>s. sval (semas st s))
          ((\<lambda>x. waiters (semas st x))(s := waiters (semas st s) @ [t])) (todo ?st') (holder ?st') (conds ?st')"
        using ginv_block [OF K(2) R t(2) True] by simp
    qed
    with e show ?thesis by blast
  next
    case False
    let ?sem = "(semas st)(s := (semas st s)\<lparr>sval := sval (semas st s) - 1\<rparr>)"
    let ?st' = "st\<lparr>semas := ?sem, todo := (todo st)(t := r)\<rparr>"
    have e: "exec st = Some ?st'"
      using t False b(4)
      by (simp add: exec_def sema_down_def intr_context_def intr_disable_def intr_round_trip(2) [OF ok] intr_get_level_def Let_def)
    have "kinv ?st'"
    proof (rule kinvI)
      show "sched_ok (sch ?st') (waiting st)" using K(1) by simp
      show "waiting st = waiting ?st'" by (rule waiting_cong) simp
      show "runnable (sch ?st') = runnable (sch st)" by simp
      show "(\<lambda>s. waiters (semas ?st' s)) = (\<lambda>x. waiters (semas st x))" by auto
      show "(\<lambda>s. sval (semas ?st' s)) = (\<lambda>x. sval (semas st x))(s := sval (semas st s) - 1)" by auto
      show "ginv (runnable (sch st)) ((\<lambda>x. sval (semas st x))(s := sval (semas st s) - 1))
          (\<lambda>x. waiters (semas st x)) (todo ?st') (holder ?st') (conds ?st')"
        using ginv_take [OF K(2) R t(2) False] by simp
    qed
    with e show ?thesis by blast
  qed
qed

lemma perform_sema_up:
  assumes k: "kinv st" and t: "cur (sch st) = t" "todo st t = SemaUp s # r"
  shows "\<exists>st'. exec st = Some st' \<and> kinv st'"
proof -
  note K = kinvD [OF k]
  have R: "t \<in> runnable (sch st)" using cur_runnable [OF k] t by auto
  let ?sc = "(sch st)\<lparr>intr := INTR_OFF\<rparr>"
  have ok: "sched_ok ?sc (waiting st)" using K(1) by simp
  show ?thesis
  proof (cases "waiters (semas st s)")
    case Nil
    let ?sem = "(semas st)(s := \<lparr>sval = sval (semas st s) + 1, waiters = []\<rparr>)"
    let ?st' = "st\<lparr>semas := ?sem, todo := (todo st)(t := r)\<rparr>"
    have e: "exec st = Some ?st'"
      using t Nil
      by (simp add: exec_def no_more_def sema_up_def intr_disable_def intr_round_trip(2) [OF ok] intr_get_level_def Let_def)
    have "kinv ?st'"
    proof (rule kinvI)
      show "sched_ok (sch ?st') (waiting st)" using K(1) by simp
      show "waiting st = waiting ?st'" by (rule waiting_cong) (simp add: Nil)
      show "runnable (sch ?st') = runnable (sch st)" by simp
      show "(\<lambda>s. waiters (semas ?st' s)) = (\<lambda>x. waiters (semas st x))" using Nil by auto
      show "(\<lambda>s. sval (semas ?st' s)) = (\<lambda>x. sval (semas st x))(s := sval (semas st s) + 1)" by auto
      show "ginv (runnable (sch st)) ((\<lambda>x. sval (semas st x))(s := sval (semas st s) + 1))
          (\<lambda>x. waiters (semas st x)) (todo ?st') (holder ?st') (conds ?st')"
        using ginv_up [OF K(2) R t(2)] Nil by simp
    qed
    with e show ?thesis by blast
  next
    case (Cons w ws)
    let ?sem = "(semas st)(s := \<lparr>sval = sval (semas st s) + 1, waiters = ws\<rparr>)"
    have w: "w \<in> waiting st" using Cons by (auto simp: waiting_def intro!: exI [of _ s])
    obtain sc where sc: "thread_unblock w ?sc = Some sc" "sched_ok sc (waiting st - {w})" "cur sc = cur ?sc"
      "ready_list sc = ready_list ?sc @ [w]" "idle_thread sc = idle_thread ?sc"
      using thread_unblock_ok [OF ok w] by blast
    have wi: "idle_thread (sch st) \<noteq> Some w" using sched_baseD(2) [OF sched_okD(1) [OF K(1)], of w] w by simp
    let ?st' = "st\<lparr>semas := ?sem, sch := sc\<lparr>intr := intr (sch st)\<rparr>, todo := (todo st)(t := r)\<rparr>"
    have e: "exec st = Some ?st'"
      using t Cons sc(1)
      by (simp add: exec_def no_more_def sema_up_def intr_disable_def intr_round_trip(2) [OF sc(2)] intr_get_level_def Let_def)
    have Q: "(\<lambda>x. waiters (?sem x)) = (\<lambda>x. waiters (semas st x))(s := ws)" by auto
    have dq: "distinct (w # ws)" "\<And>p. p \<noteq> s \<Longrightarrow> w \<notin> set (waiters (semas st p))"
    proof -
      have q: "distinct (waiters (semas st p))" "u \<in> set (waiters (semas st p)) \<Longrightarrow> \<exists>r. todo st u = SemaDown p # r" for p u
        using ginvD(2) [OF K(2)] by (auto simp: queue_inv_def)
      show "distinct (w # ws)" using q(1) [of s] Cons by simp
      show "w \<notin> set (waiters (semas st p))" if "p \<noteq> s" for p
        using q(2) [of w p] q(2) [of w s] Cons that by auto
    qed
    have "kinv ?st'"
    proof (rule kinvI)
      show "sched_ok (sch ?st') (waiting st - {w})" using sc(2) by simp
      have "waiting ?st' = (\<Union>x. set (((\<lambda>x. waiters (semas st x))(s := ws)) x))"
        unfolding Q [symmetric] by (simp add: waiting_def)
      then show "waiting st - {w} = waiting ?st'"
        unfolding UN_upd waiting_queue UN_split [of "\<lambda>x. waiters (semas st x)" s] using dq Cons by auto
      show "runnable (sch ?st') = insert w (runnable (sch st))" using sc wi by (auto simp: runnable_def)
      show "(\<lambda>s. waiters (semas ?st' s)) = (\<lambda>x. waiters (semas st x))(s := ws)" by auto
      show "(\<lambda>s. sval (semas ?st' s)) = (\<lambda>x. sval (semas st x))(s := sval (semas st s) + 1)" by auto
      show "ginv (insert w (runnable (sch st))) ((\<lambda>x. sval (semas st x))(s := sval (semas st s) + 1))
          ((\<lambda>x. waiters (semas st x))(s := ws)) (todo ?st') (holder ?st') (conds ?st')"
        using ginv_up_wake [OF K(2) R t(2)] Cons by simp
    qed
    with e show ?thesis by blast
  qed
qed

text \<open>The actions that leave the scheduler alone.\<close>

lemma held_by: "sched_ok (sch st) W \<Longrightarrow> lock_held_by_current_thread l st = Some (holder st l = Some (cur (sch st)))"
  by (simp add: lock_held_by_current_thread_def thread_current_ok)

lemma kinv_todo:
  assumes "kinv st" "ginv (runnable (sch st)) (\<lambda>s. sval (semas st s)) (\<lambda>s. waiters (semas st s)) T H C"
  shows "kinv (st\<lparr>todo := T\<rparr>\<lparr>holder := H\<rparr>\<lparr>conds := C\<rparr>)"
  using assms by (simp add: kinv_def waiting_def)

lemma perform_quiet:
  assumes k: "kinv st" and t: "cur (sch st) = t" "todo st t = a # r"
    and a: "\<exists>l c. a = Acquire l \<or> a = SetHolder l \<or> a = Release l \<or> a = Signal c l \<or> a = Broadcast c l"
  shows "\<exists>st'. exec st = Some st' \<and> kinv st'"
proof -
  note K = kinvD [OF k]
  note ext = sched_okD(4) [OF K(1)]
  note G = ginvD(8) [OF K(2), of t]
  have R: "t \<in> runnable (sch st)" using cur_runnable [OF k] t by auto
  note kt = kinv_todo [OF k]
  consider (Acq) l where "a = Acquire l" | (Set) l where "a = SetHolder l" | (Rel) l where "a = Release l"
    | (Sig) c l where "a = Signal c l" | (Bro) c l where "a = Broadcast c l" using a by blast
  then show ?thesis
  proof cases
    case Acq
    with t G ext have "exec st = Some (st\<lparr>todo := (todo st)(t := SemaDown (LockSem l) # SetHolder l # r)\<rparr>)"
      by (simp add: exec_def lock_acquire_def intr_context_def held_by [OF K(1)])
    with kt [OF ginv_acquire [OF K(2) R]] t Acq show ?thesis by simp
  next
    case Set
    with t have "exec st = Some (st\<lparr>todo := (todo st)(t := r), holder := (holder st)(l := Some t)\<rparr>)"
      by (simp add: exec_def set_holder_def no_more_def thread_current_ok [OF K(1)])
    with kt [OF ginv_set_holder [OF K(2) R]] t Set show ?thesis by simp
  next
    case Rel
    with t G have "exec st = Some (st\<lparr>todo := (todo st)(t := SemaUp (LockSem l) # r), holder := (holder st)(l := None)\<rparr>)"
      by (simp add: exec_def lock_release_def held_by [OF K(1)])
    with kt [OF ginv_release [OF K(2) R]] t Rel show ?thesis by simp
  next
    case Sig
    show ?thesis
    proof (cases "conds st c")
      case Nil
      with t G ext Sig have "exec st = Some (st\<lparr>todo := (todo st)(t := r)\<rparr>)"
        by (simp add: exec_def cond_signal_def intr_context_def held_by [OF K(1)])
      with kt [OF ginv_drop [OF K(2) R t(2)]] Sig show ?thesis by simp
    next
      case (Cons w ws)
      with t G ext Sig have "exec st = Some (st\<lparr>todo := (todo st)(t := SemaUp (CondSem w) # r), conds := (conds st)(c := ws)\<rparr>)"
        by (simp add: exec_def cond_signal_def intr_context_def held_by [OF K(1)])
      with kt [OF ginv_signal [OF K(2) R _ Cons]] t Sig show ?thesis by simp
    qed
  next
    case Bro
    show ?thesis
    proof (cases "conds st c = []")
      case True
      with t Bro have "exec st = Some (st\<lparr>todo := (todo st)(t := r)\<rparr>)" by (simp add: exec_def cond_broadcast_def)
      with kt [OF ginv_drop [OF K(2) R t(2)]] Bro show ?thesis by simp
    next
      case False
      with t Bro have "exec st = Some (st\<lparr>todo := (todo st)(t := Signal c l # Broadcast c l # r)\<rparr>)"
        by (simp add: exec_def cond_broadcast_def)
      with kt [OF ginv_broadcast [OF K(2) R]] t Bro show ?thesis by simp
    qed
  qed
qed

lemma perform_try:
  assumes k: "kinv st" and t: "cur (sch st) = t" "todo st t = TryAcquire l # r"
  shows "\<exists>st'. exec st = Some st' \<and> kinv st'"
proof -
  note K = kinvD [OF k]
  let ?sc = "(sch st)\<lparr>intr := INTR_OFF\<rparr>"
  have ok: "sched_ok ?sc (waiting st)" using K(1) by simp
  have R: "t \<in> runnable (sch st)" using cur_runnable [OF k] t by auto
  note G = ginvD(8) [OF K(2), of t]
  show ?thesis
  proof (cases "sval (semas st (LockSem l)) = 0")
    case True
    with t G have "exec st = Some (st\<lparr>todo := (todo st)(t := r)\<rparr>)"
      by (simp add: exec_def lock_try_acquire_def held_by [OF K(1)] sema_try_down_def intr_disable_def
          intr_round_trip(2) [OF ok] intr_get_level_def Let_def)
    with kinv_todo [OF k ginv_drop [OF K(2) R t(2)]] show ?thesis by simp
  next
    case False
    let ?sem = "(semas st)(LockSem l := (semas st (LockSem l))\<lparr>sval := sval (semas st (LockSem l)) - 1\<rparr>)"
    let ?st' = "st\<lparr>semas := ?sem, todo := (todo st)(t := SetHolder l # r)\<rparr>"
    have p: "0 < sval (semas st (LockSem l))" using False by (simp add: word_neq_0_conv)
    with t G have e: "exec st = Some ?st'"
      by (simp add: exec_def lock_try_acquire_def held_by [OF K(1)] sema_try_down_def intr_disable_def
          intr_round_trip(2) [OF ok] intr_get_level_def Let_def)
    have "kinv ?st'"
    proof (rule kinvI)
      show "sched_ok (sch ?st') (waiting st)" using K(1) by simp
      show "waiting st = waiting ?st'" by (rule waiting_cong) simp
      show "runnable (sch ?st') = runnable (sch st)" by simp
      show "(\<lambda>s. waiters (semas ?st' s)) = (\<lambda>x. waiters (semas st x))" by auto
      show "(\<lambda>s. sval (semas ?st' s)) = (\<lambda>x. sval (semas st x))(LockSem l := sval (semas st (LockSem l)) - 1)" by auto
      show "ginv (runnable (sch st)) ((\<lambda>x. sval (semas st x))(LockSem l := sval (semas st (LockSem l)) - 1))
          (\<lambda>x. waiters (semas st x)) (todo ?st') (holder ?st') (conds ?st')"
        using ginv_try [OF K(2) R t(2) False] by simp
    qed
    with e show ?thesis by blast
  qed
qed

lemma perform_wait:
  assumes k: "kinv st" and t: "cur (sch st) = t" "todo st t = Wait c l # r"
  shows "\<exists>st'. exec st = Some st' \<and> kinv st'"
proof -
  note K = kinvD [OF k]
  have R: "t \<in> runnable (sch st)" using cur_runnable [OF k] t by auto
  note G = ginvD(8) [OF K(2), of t]
  let ?sem = "(semas st)(CondSem t := \<lparr>sval = 0, waiters = []\<rparr>)"
  let ?st' = "st\<lparr>semas := ?sem, conds := (conds st)(c := conds st c @ [t]),
      todo := (todo st)(t := Release l # SemaDown (CondSem t) # Acquire l # r)\<rparr>"
  have e: "exec st = Some ?st'"
    using t G sched_okD(4) [OF K(1)]
    by (simp add: exec_def cond_wait_def intr_context_def held_by [OF K(1)] running_thread_def sema_init_def Let_def)
  have Qe: "waiters (semas st (CondSem t)) = []" using queue_empty_cond [OF K(2) R] .
  have "kinv ?st'"
  proof (rule kinvI)
    show "sched_ok (sch ?st') (waiting st)" using K(1) by simp
    show "waiting st = waiting ?st'" by (rule waiting_cong) (simp add: Qe)
    show "runnable (sch ?st') = runnable (sch st)" by simp
    show "(\<lambda>s. waiters (semas ?st' s)) = (\<lambda>x. waiters (semas st x))(CondSem t := [])" by auto
    show "(\<lambda>s. sval (semas ?st' s)) = (\<lambda>x. sval (semas st x))(CondSem t := 0)" by auto
    show "ginv (runnable (sch st)) ((\<lambda>x. sval (semas st x))(CondSem t := 0))
        ((\<lambda>x. waiters (semas st x))(CondSem t := [])) (todo ?st') (holder ?st') (conds ?st')"
      using ginv_wait [OF K(2) R t(2)] by simp
  qed
  with e show ?thesis by blast
qed

lemma kinv_sch:
  assumes "ginv R (\<lambda>s. sval (semas st s)) (\<lambda>s. waiters (semas st s)) T (holder st) (conds st)"
    "sched_ok sc (waiting st)" "runnable sc = R"
  shows "kinv (st\<lparr>sch := sc, todo := T\<rparr>)"
  using assms by (simp add: kinv_def waiting_def)

lemma perform_yield_exit:
  assumes k: "kinv st" and t: "cur (sch st) = t" "todo st t = a # r" and a: "a = Yield \<or> a = Exit"
  shows "\<exists>st'. exec st = Some st' \<and> kinv st'"
proof -
  note K = kinvD [OF k]
  have R: "t \<in> runnable (sch st)" using cur_runnable [OF k] t by auto
  from a show ?thesis
  proof
    assume a: "a = Yield"
    obtain sc where sc: "thread_yield (sch st) = Some sc" "sched_ok sc (waiting st)"
        "cur sc # ready_list sc = rotated (sch st)" "idle_thread sc = idle_thread (sch st)"
      using thread_yield_ok [OF K(1)] unfolding rotated_def by blast
    have "ginv (runnable (sch st)) (\<lambda>s. sval (semas st s)) (\<lambda>s. waiters (semas st s)) ((todo st)(t := r)) (holder st) (conds st)"
      using ginv_drop [OF K(2) R t(2)] a by blast
    from kinv_sch [OF this, of "sc\<lparr>intr := INTR_ON\<rparr>"] sc runnable_rotated [OF K(1) sc(3,4)]
    have "kinv (st\<lparr>sch := sc\<lparr>intr := INTR_ON\<rparr>, todo := (todo st)(t := r)\<rparr>)" by simp
    moreover have "exec st = Some (st\<lparr>sch := sc\<lparr>intr := INTR_ON\<rparr>, todo := (todo st)(t := r)\<rparr>)"
      using t a sc(1) by (simp add: exec_def)
    ultimately show ?thesis by blast
  next
    assume a: "a = Exit"
    have ni: "idle_thread (sch st) \<noteq> Some (cur (sch st))" using R t(1) by (simp add: runnable_def)
    obtain sc where sc: "thread_die (sch st) = Some sc" "sched_ok sc (waiting st)"
        "cur sc = chosen (sch st)" "ready_list sc = tl (ready_list (sch st))" "idle_thread sc = idle_thread (sch st)"
      using thread_die_ok [OF K(1) ni] by blast
    have "ginv (runnable (sch st) - {t}) (\<lambda>s. sval (semas st s)) (\<lambda>s. waiters (semas st s)) ((todo st)(t := r)) (holder st) (conds st)"
      using ginv_exit [OF K(2) R] t(2) a by blast
    from kinv_sch [OF this, of "sc\<lparr>intr := INTR_ON\<rparr>"] sc runnable_chosen [OF K(1) sc(3,4,5)] t(1)
    have "kinv (st\<lparr>sch := sc\<lparr>intr := INTR_ON\<rparr>, todo := (todo st)(t := r)\<rparr>)" by simp
    moreover have "exec st = Some (st\<lparr>sch := sc\<lparr>intr := INTR_ON\<rparr>, todo := (todo st)(t := r)\<rparr>)"
      using t a sc(1) by (simp add: exec_def)
    ultimately show ?thesis by blast
  qed
qed

lemma exec_ok:
  assumes k: "kinv st" and t: "todo st (cur (sch st)) \<noteq> []"
  shows "\<exists>st'. exec st = Some st' \<and> kinv st'"
proof -
  obtain a r where ar: "todo st (cur (sch st)) = a # r" using t by (cases "todo st (cur (sch st))") auto
  show ?thesis
  proof (cases a)
    case (SemaDown s) then show ?thesis using perform_sema_down [OF k refl] ar by blast
  next
    case (SemaUp s) then show ?thesis using perform_sema_up [OF k refl] ar by blast
  next
    case (TryAcquire l) then show ?thesis using perform_try [OF k refl] ar by blast
  next
    case (Wait c l) then show ?thesis using perform_wait [OF k refl] ar by blast
  next
    case Yield then show ?thesis using perform_yield_exit [OF k refl ar] by blast
  next
    case Exit then show ?thesis using perform_yield_exit [OF k refl ar] by blast
  qed (use perform_quiet [OF k refl ar] in auto)
qed

lemma idle_round_ok:
  assumes "sched_ok sc W" "idle_thread sc = Some (cur sc)"
  shows "\<exists>sc'. idle_round sc = Some sc' \<and> sched_ok sc' W \<and> idle_thread sc' = idle_thread sc \<and> runnable sc' = runnable sc"
proof -
  let ?s = "sc\<lparr>intr := INTR_OFF\<rparr>"
  have ok: "sched_ok ?s W" using assms by simp
  obtain sc' where s: "thread_block ?s = Some sc'" "sched_ok sc' W" "cur sc' = chosen ?s"
    "ready_list sc' = tl (ready_list ?s)" "idle_thread sc' = idle_thread ?s"
    using thread_block_ok [OF ok] assms(2) by auto
  have "runnable sc' = runnable sc - {cur sc}" using runnable_chosen [OF ok s(3,4,5)] by simp
  moreover have "cur sc \<notin> runnable sc" using assms(2) by (simp add: runnable_def)
  ultimately show ?thesis using s by (simp add: idle_round_def intr_disable_def)
qed

lemma kstep_kinv:
  assumes "kstep st st'" "kinv st"
  shows "kinv st'"
  using assms
proof (cases rule: kstep.cases)
  case (call t a)
  note K = kinvD [OF assms(2)]
  have "t \<in> runnable (sch st)" using call by (simp add: runnable_def)
  from kinv_todo [OF assms(2) ginv_call [OF K(2) this]] call show ?thesis by simp
next
  case act
  then have "todo st (cur (sch st)) \<noteq> []" by (auto simp: exec_def Let_def)
  from exec_ok [OF assms(2) this] act show ?thesis by auto
next
  case (tick sc)
  note K = kinvD [OF assms(2)]
  obtain sc' where "timer_intr (sch st) = Some sc'" "sched_ok sc' (waiting st)" "runnable sc' = runnable (sch st)"
    using timer_intr_total [OF K(1)] by blast
  with tick kinv_sch [OF K(2)] show ?thesis by simp
next
  case (idle sc)
  note K = kinvD [OF assms(2)]
  obtain sc' where "idle_round (sch st) = Some sc'" "sched_ok sc' (waiting st)" "runnable sc' = runnable (sch st)"
    using idle_round_ok [OF K(1)] idle by blast
  with idle kinv_sch [OF K(2), of "sc\<lparr>intr := INTR_ON\<rparr>"] show ?thesis by simp
next
  case (create p prio nm sc i)
  note K = kinvD [OF assms(2)]
  obtain sc' where sc: "thread_create (Some p) nm prio (sch st) = Some (sc', next_tid (sch st))" "sched_ok sc' (waiting st)"
    "cur sc' = cur (sch st)" "ready_list sc' = ready_list (sch st) @ [p]" "idle_thread sc' = idle_thread (sch st)"
    using thread_create_ok [OF K(1)] create by blast
  have none: "get_status p (sch st) = None" using create by (simp add: get_status_def)
  note b = sched_okD(1) [OF K(1)]
  have pi: "idle_thread (sch st) \<noteq> Some p" using sched_base_idle [OF b] none by (metis option.inject option.simps(3))
  have "p \<notin> waiting st" using sched_baseD(2) [OF b, of p] none by simp
  then have pw: "p \<notin> set (waiters (semas st s))" for s by (auto simp: waiting_def)
  have "runnable sc' = insert p (runnable (sch st))" using sc pi by (auto simp: runnable_def)
  from kinv_sch [OF ginv_create [OF K(2) pw] sc(2) this] sc(1) create show ?thesis by simp
qed

section \<open>Reachable states\<close>

text \<open>
  After boot every lock has been initialised by \<open>lock_init\<close>, every condition by \<open>cond_init\<close>, the
  other semaphores by \<open>sema_init\<close> with some value, and no thread is inside a call.
\<close>

definition kinit :: "kstate \<Rightarrow> bool" where
  "kinit st \<longleftrightarrow> sched_ok (sch st) {} \<and> (\<forall>l. lock_init l st = st) \<and> (\<forall>c. cond_init c st = st) \<and>
     (\<forall>s. sema_init s (sval (semas st s)) st = st) \<and> (\<forall>t. todo st t = [])"

inductive kreach :: "kstate \<Rightarrow> bool" where
  init: "kinit st \<Longrightarrow> kreach st"
| step: "kreach st \<Longrightarrow> kstep st st' \<Longrightarrow> kreach st'"

lemma kinit_kinv:
  assumes "kinit st"
  shows "kinv st"
proof -
  have s: "semas st s = \<lparr>sval = sval (semas st s), waiters = []\<rparr>" for s
  proof -
    have "semas (sema_init s (sval (semas st s)) st) s = semas st s" using assms by (simp add: kinit_def)
    then show ?thesis by (simp add: sema_init_def)
  qed
  have w: "waiters (semas st s) = []" for s using s [of s] by (metis semaphore.select_convs(2))
  have l: "semas st (LockSem l) = \<lparr>sval = 1, waiters = []\<rparr>" "holder st l = None" for l
  proof -
    have "lock_init l st = st" using assms by (simp add: kinit_def)
    then have "semas (lock_init l st) (LockSem l) = semas st (LockSem l)" "holder (lock_init l st) l = holder st l" by simp_all
    then show "semas st (LockSem l) = \<lparr>sval = 1, waiters = []\<rparr>" "holder st l = None"
      by (simp_all add: lock_init_def sema_init_def)
  qed
  have c: "conds st c = []" for c
  proof -
    have "cond_init c st = st" using assms by (simp add: kinit_def)
    then have "conds (cond_init c st) c = conds st c" by simp
    then show ?thesis by (simp add: cond_init_def)
  qed
  have t: "todo st t = []" "sched_ok (sch st) {}" for t using assms by (auto simp: kinit_def)
  show ?thesis
    using t by (simp add: kinv_def waiting_def w ginv_def queue_inv_def call_inv_def l lock_inv_def owners_alt wake_inv_def
        cond_inv_def c in_wait_def signalling_alt cond_at_def)
qed

lemma kreach_kinv: "kreach st \<Longrightarrow> kinv st"
  by (induction rule: kreach.induct) (auto intro: kinit_kinv kstep_kinv)

section \<open>Properties\<close>

text \<open>C1: Mutual exclusion. In every interleaving of threads that follow the locking rules, with
  timer interrupts, thread creation and exit anywhere, at most one thread is between taking and
  giving back a lock (which includes every thread recorded as its holder), and while one is, the semaphore
  of the lock is zero; it is one when the lock is free.\<close>

theorem lock_mutual_exclusion:
  assumes "kreach st"
  shows "sval (semas st (LockSem l)) = 1 \<and> owners (todo st) (holder st) l = {} \<or>
    sval (semas st (LockSem l)) = 0 \<and> (\<exists>t. owners (todo st) (holder st) l = {t})"
  using ginvD(4) [OF kinvD(2) [OF kreach_kinv [OF assms]]] by (simp add: lock_inv_def)

text \<open>C3: No assertion of the scheduler, the semaphores, the locks or the condition variables fails,
  in any interleaving of threads that follow the locking rules: a thread that is inside a call can
  always perform its next action, and the timer interrupt and the idle loop always succeed.\<close>

theorem kernel_never_panics:
  assumes "kreach st"
  shows "(todo st (cur (sch st)) \<noteq> [] \<longrightarrow> exec st \<noteq> None) \<and> timer_intr (sch st) \<noteq> None \<and>
    (idle_thread (sch st) = Some (cur (sch st)) \<longrightarrow> idle_round (sch st) \<noteq> None)"
proof -
  have k: "kinv st" using kreach_kinv [OF assms] .
  then show ?thesis
    using exec_ok [OF k] timer_intr_total [OF kinvD(1) [OF k]] idle_round_ok [OF kinvD(1) [OF k]] by auto
qed

text \<open>C9: No wakeup is lost. If threads wait on a semaphore whose value is positive, then at least
  as many runnable threads as the value are about to test it, so the value is on its way to be
  taken; in particular the system is never stuck with a positive semaphore and all its users asleep.\<close>

theorem no_lost_wakeup:
  assumes "kreach st" "waiters (semas st s) \<noteq> []"
  shows "unat (sval (semas st s)) \<le> card (testing (runnable (sch st)) (todo st) s) \<and>
    (0 < sval (semas st s) \<longrightarrow> (\<exists>t r. t \<in> runnable (sch st) \<and> todo st t = SemaDown s # r))"
proof -
  have "unat (sval (semas st s)) \<le> card (testing (runnable (sch st)) (todo st) s)"
    using ginvD(5) [OF kinvD(2) [OF kreach_kinv [OF assms(1)]]] assms(2) by (simp add: wake_inv_def)
  moreover from this have "testing (runnable (sch st)) (todo st) s \<noteq> {}" if "0 < sval (semas st s)"
    using that by (auto simp: word_less_nat_alt)
  ultimately show ?thesis by (auto simp: testing_def)
qed

text \<open>C8: Every thread other than the idle thread is in exactly one place: it is the running
  thread, or it is on the ready list, once, or it is on the list of waiters of one
  semaphore, once, the one its call is waiting for. Only the running thread has status running. The one
  exception is the initial thread after its exit, whose page is not freed: it is dying, and nowhere.\<close>

theorem thread_in_one_place:
  assumes "kreach st" "get_status t (sch st) = Some s" "idle_thread (sch st) \<noteq> Some t"
  shows "distinct (ready_list (sch st)) \<and> (\<forall>q. distinct (waiters (semas st q))) \<and>
    (case s of
       THREAD_RUNNING \<Rightarrow> t = cur (sch st) \<and> t \<notin> set (ready_list (sch st)) \<and> (\<forall>q. t \<notin> set (waiters (semas st q)))
     | THREAD_READY \<Rightarrow> t \<noteq> cur (sch st) \<and> t \<in> set (ready_list (sch st)) \<and> (\<forall>q. t \<notin> set (waiters (semas st q)))
     | THREAD_BLOCKED \<Rightarrow> t \<noteq> cur (sch st) \<and> t \<notin> set (ready_list (sch st)) \<and>
         (\<exists>!q. t \<in> set (waiters (semas st q))) \<and> (\<exists>q r. t \<in> set (waiters (semas st q)) \<and> todo st t = SemaDown q # r)
     | THREAD_DYING \<Rightarrow> t = initial_thread (sch st) \<and> t \<noteq> cur (sch st) \<and> t \<notin> set (ready_list (sch st)) \<and>
         (\<forall>q. t \<notin> set (waiters (semas st q))))"
proof -
  note K = kinvD [OF kreach_kinv [OF assms(1)]]
  note b = sched_okD [OF K(1)] and D = sched_baseD [OF sched_okD(1) [OF K(1)]]
  have W: "t \<in> waiting st \<longleftrightarrow> s = THREAD_BLOCKED" using D(2) [of t] assms(2,3) by simp
  have q: "distinct (waiters (semas st q))" "u \<in> set (waiters (semas st q)) \<Longrightarrow> \<exists>r. todo st u = SemaDown q # r" for q u
    using ginvD(2) [OF K(2)] by (auto simp: queue_inv_def)
  have uniq: "q = q'" if "t \<in> set (waiters (semas st q))" "t \<in> set (waiters (semas st q'))" for q q'
    using q(2) [OF that(1)] q(2) [OF that(2)] by auto
  have cur: "t = cur (sch st) \<longleftrightarrow> s = THREAD_RUNNING" using D(5) [of t] b(2) assms(2) by auto
  have ready: "t \<in> set (ready_list (sch st)) \<longleftrightarrow> s = THREAD_READY" using D(1) [of t] assms(2,3) by simp
  have nw: "t \<notin> set (waiters (semas st q))" if "s \<noteq> THREAD_BLOCKED" for q using W that by (auto simp: waiting_def)
  have dying: "s = THREAD_DYING \<Longrightarrow> t = initial_thread (sch st)" using b(3) [of t] assms(2) by simp
  show ?thesis
  proof (cases s)
    case THREAD_BLOCKED
    then obtain q' where q': "t \<in> set (waiters (semas st q'))" using W by (auto simp: waiting_def)
    then have "\<exists>!q. t \<in> set (waiters (semas st q))" using uniq by blast
    then show ?thesis using THREAD_BLOCKED cur ready q q' D(3) by (auto)
  qed (use cur ready nw dying q(1) D(3) in simp_all)
qed

text \<open>C10: A signal to a condition variable is neither lost nor duplicated. A thread inside
  \<open>cond_wait\<close> that has not consumed its wakeup is either queued on exactly one condition with its
  semaphore at zero and nobody signalling it, or it has been taken off the queue and exactly one
  thread is about to raise its semaphore, or its semaphore is one. A waiter that has left \<open>cond_wait\<close> is on no
  queue and nobody is about to touch its semaphore, which lived on its stack.\<close>

theorem cond_signal_exactly_once:
  assumes "kreach st"
  shows "if in_wait (todo st) w then
      sval (semas st (CondSem w)) = 0 \<and> (\<exists>!c. w \<in> set (conds st c)) \<and> \<not> (\<exists>u. signalling (todo st) u w) \<or>
      sval (semas st (CondSem w)) = 0 \<and> \<not> (\<exists>c. w \<in> set (conds st c)) \<and> (\<exists>!u. signalling (todo st) u w) \<or>
      sval (semas st (CondSem w)) = 1 \<and> \<not> (\<exists>c. w \<in> set (conds st c)) \<and> \<not> (\<exists>u. signalling (todo st) u w)
    else \<not> (\<exists>c. w \<in> set (conds st c)) \<and> \<not> (\<exists>u. signalling (todo st) u w)"
proof -
  have ex1: "(\<exists>x. {y. P y} = {x}) \<longleftrightarrow> (\<exists>!x. P x)" for P :: "nat \<Rightarrow> bool"
    by (metis (mono_tags, lifting) mem_Collect_eq singleton_iff subsetI subset_antisym)
  have em: "{y. P y} = {} \<longleftrightarrow> \<not> (\<exists>x. P x)" for P :: "nat \<Rightarrow> bool" by simp
  have "cond_at (in_wait (todo st) w) (sval (semas st (CondSem w))) {c. w \<in> set (conds st c)} {u. signalling (todo st) u w}"
    using ginvD(6) [OF kinvD(2) [OF kreach_kinv [OF assms]]] by (simp add: cond_inv_def)
  then show ?thesis unfolding cond_at_def ex1 em .
qed

section \<open>Examples\<close>

definition example_kstate :: kstate where
  "example_kstate = \<lparr>sch = example_sched,
     semas = (\<lambda>s. \<lparr>sval = (case s of LockSem _ \<Rightarrow> 1 | _ \<Rightarrow> 0), waiters = []\<rparr>),
     holder = (\<lambda>_. None), conds = (\<lambda>_. []), todo = (\<lambda>_. [])\<rparr>"

lemma example_kreach: "kreach example_kstate"
proof (rule kreach.init)
  have "(\<lambda>s. \<lparr>sval = (case s of LockSem _ \<Rightarrow> 1 | _ \<Rightarrow> 0), waiters = []\<rparr>)
      (q := \<lparr>sval = (case q of LockSem _ \<Rightarrow> 1 | _ \<Rightarrow> 0), waiters = []\<rparr>) =
    (\<lambda>s. \<lparr>sval = (case s of LockSem _ \<Rightarrow> (1 :: u32) | _ \<Rightarrow> 0), waiters = []\<rparr>)" for q by auto
  from this this [of "LockSem _"] show "kinit example_kstate"
    using example_sched_ok
    by (auto simp: kinit_def example_kstate_def lock_init_def cond_init_def sema_init_def fun_upd_idem fun_eq_iff)
qed

text \<open>Thread 1 acquires lock 0.\<close>

definition example_call :: "action \<Rightarrow> kstate" where
  "example_call a = example_kstate\<lparr>todo := (todo example_kstate)(1 := [a])\<rparr>"

lemma example_call_reach:
  assumes "callable a" "need (\<lambda>l. False) a"
  shows "kreach (example_call a)"
proof -
  have "kstep example_kstate (example_call a)"
    unfolding example_call_def
    by (rule kstep.call) (use assms in \<open>simp_all add: example_kstate_def example_sched_def\<close>)
  with example_kreach show ?thesis by (rule kreach.step)
qed

fun execs :: "nat \<Rightarrow> kstate \<Rightarrow> kstate option" where
  "execs 0 st = Some st"
| "execs (Suc n) st = do { st \<leftarrow> exec st; execs n st }"

lemma execs_reach: "kreach st \<Longrightarrow> execs n st = Some st' \<Longrightarrow> kreach st'"
  by (induction n arbitrary: st) (auto simp: bind_eq_Some_iff intro: kreach.step kstep.act)

lemmas example_eval = example_call_def example_kstate_def example_sched_def example_thread_def exec_def lock_acquire_def
  intr_context_def lock_held_by_current_thread_def thread_current_def running_thread_def is_thread_def get_status_def
  sema_down_def intr_disable_def intr_set_level_def intr_enable_def intr_get_level_def set_holder_def no_more_def
  thread_block_def set_status_def schedule_def next_thread_to_run_def thread_schedule_tail_def

lemma example_acquired:
  "\<exists>st. execs 3 (example_call (Acquire 0)) = Some st \<and> holder st 0 = Some 1"
  by (simp add: example_eval numeral_3_eq_3 Let_def)

lemma example_blocked:
  "\<exists>st. execs 1 (example_call (SemaDown (NamedSem 0))) = Some st \<and> waiters (semas st (NamedSem 0)) = [1]"
  by (simp add: example_eval Let_def)

theorem lock_mutual_exclusion_witness:
  "\<exists>st. kreach st \<and> holder st 0 = Some 1 \<and> sval (semas st (LockSem 0)) = 0 \<and> owners (todo st) (holder st) 0 = {1}"
proof -
  obtain st where st: "execs 3 (example_call (Acquire 0)) = Some st" "holder st 0 = Some 1"
    using example_acquired by blast
  have r: "kreach st" by (rule execs_reach [OF example_call_reach st(1)]) simp_all
  have "1 \<in> owners (todo st) (holder st) 0" using st(2) by (simp add: owners_def)
  with lock_mutual_exclusion [OF r, of 0] have "sval (semas st (LockSem 0)) = 0 \<and> owners (todo st) (holder st) 0 = {1}"
    by (metis empty_iff singletonD)
  with r st(2) show ?thesis by blast
qed

theorem kernel_never_panics_witness: "exec (example_call (SemaDown (NamedSem 0))) \<noteq> None"
  using kernel_never_panics [OF example_call_reach [of "SemaDown (NamedSem 0)"]]
  by (simp add: example_call_def example_kstate_def example_sched_def)

theorem no_lost_wakeup_witness:
  "\<exists>st. kreach st \<and> waiters (semas st (NamedSem 0)) = [1] \<and>
     unat (sval (semas st (NamedSem 0))) \<le> card (testing (runnable (sch st)) (todo st) (NamedSem 0))"
proof -
  obtain st where st: "execs 1 (example_call (SemaDown (NamedSem 0))) = Some st" "waiters (semas st (NamedSem 0)) = [1]"
    using example_blocked by blast
  have r: "kreach st" by (rule execs_reach [OF example_call_reach st(1)]) simp_all
  with no_lost_wakeup [OF r, of "NamedSem 0"] st(2) show ?thesis by auto
qed

theorem thread_in_one_place_witness:
  "get_status 3 (sch example_kstate) = Some THREAD_READY \<and> 3 \<in> set (ready_list (sch example_kstate)) \<and>
    (\<forall>q. 3 \<notin> set (waiters (semas example_kstate q)))"
proof -
  have s: "get_status 3 (sch example_kstate) = Some THREAD_READY"
    by (simp add: example_kstate_def example_sched_def example_thread_def get_status_def)
  have i: "idle_thread (sch example_kstate) \<noteq> Some 3" by (simp add: example_kstate_def example_sched_def)
  from thread_in_one_place [OF example_kreach s i] s show ?thesis by simp
qed

theorem cond_signal_exactly_once_witness:
  "kreach example_kstate \<and> \<not> in_wait (todo example_kstate) 1 \<and> \<not> (\<exists>c. 1 \<in> set (conds example_kstate c))"
proof -
  have n: "\<not> in_wait (todo example_kstate) 1" by (simp add: in_wait_def example_kstate_def)
  with cond_signal_exactly_once [OF example_kreach, of 1] example_kreach show ?thesis by simp
qed

end
