(* ===== verification/Descriptors.thy ===== *)
theory Descriptors
  imports Prelude
begin

text \<open>
  The processor tables: gates of the interrupt descriptor table (\<^verbatim>\<open>threads/interrupt.c\<close>) and
  segment descriptors (\<^verbatim>\<open>userprog/gdt.c\<close>), built field by field with shifts and masks. The field
  readers follow the layouts of the processor manual that the comments cite.
\<close>

unbundle bit_operations_syntax

section \<open>Interrupt gates\<close>

definition SEL_KCSEG :: u32 where "SEL_KCSEG = 0x08"
definition SEL_KDSEG :: u32 where "SEL_KDSEG = 0x10"
definition SEL_UCSEG :: u32 where "SEL_UCSEG = 0x1B"
definition SEL_UDSEG :: u32 where "SEL_UDSEG = 0x23"
definition SEL_TSS :: u32 where "SEL_TSS = 0x28"
definition SEL_CNT :: nat where "SEL_CNT = 6"

definition make_gate :: "u32 \<Rightarrow> int \<Rightarrow> int \<Rightarrow> u64 option" where
  "make_gate func dpl type = do {
     c_assert (func \<noteq> 0);
     c_assert (0 \<le> dpl \<and> dpl \<le> 3);
     c_assert (0 \<le> type \<and> type \<le> 15);
     let e0 = (func AND 0xffff) OR push_bit 16 SEL_KCSEG;
     let e1 = (func AND 0xffff0000) OR push_bit 15 1 OR push_bit 13 (word_of_int dpl) OR push_bit 12 0 OR
              push_bit 8 (word_of_int type);
     Some (ucast e0 OR push_bit 32 (ucast e1)) }"

definition make_intr_gate :: "u32 \<Rightarrow> int \<Rightarrow> u64 option" where
  "make_intr_gate func dpl = make_gate func dpl 14"

definition make_trap_gate :: "u32 \<Rightarrow> int \<Rightarrow> u64 option" where
  "make_trap_gate func dpl = make_gate func dpl 15"

definition make_idtr_operand :: "16 word \<Rightarrow> u32 \<Rightarrow> u64" where
  "make_idtr_operand limit base = ucast limit OR push_bit 16 (ucast base)"

text \<open>What the processor reads from a gate.\<close>

definition gate_offset :: "u64 \<Rightarrow> u32" where
  "gate_offset g = ucast (g AND 0xffff) OR push_bit 16 (ucast (drop_bit 48 g))"
definition gate_selector :: "u64 \<Rightarrow> u32" where "gate_selector g = ucast (drop_bit 16 g AND 0xffff)"
definition gate_type :: "u64 \<Rightarrow> int" where "gate_type g = uint (drop_bit 40 g AND 0xf)"
definition gate_dpl :: "u64 \<Rightarrow> int" where "gate_dpl g = uint (drop_bit 45 g AND 3)"
definition gate_present :: "u64 \<Rightarrow> bool" where "gate_present g = bit g 47"

section \<open>The interrupt tables\<close>

datatype intr_kind = Internal | External

record 'h intr_tables =
  idt :: "u64 list"
  intr_handlers :: "'h option list"
  intr_names :: "string list"

definition INTR_CNT :: nat where "INTR_CNT = 256"

definition intr_name :: "'h intr_tables \<Rightarrow> u8 \<Rightarrow> string" where
  "intr_name tab vec = intr_names tab ! unat vec"

text \<open>
  \<open>stubs\<close> are the entry points \<^verbatim>\<open>intr_stubs\<close> of \<^verbatim>\<open>intr-stubs.S\<close>; \<open>trap\<close> tells whether the handler runs
  with interrupts on.
\<close>

definition register_handler ::
    "u32 list \<Rightarrow> u8 \<Rightarrow> int \<Rightarrow> bool \<Rightarrow> 'h \<Rightarrow> string \<Rightarrow> 'h intr_tables \<Rightarrow> 'h intr_tables option" where
  "register_handler stubs vec_no dpl trap handler name tab = do {
     c_assert (intr_handlers tab ! unat vec_no = None);
     g \<leftarrow> (if trap then make_trap_gate (stubs ! unat vec_no) dpl else make_intr_gate (stubs ! unat vec_no) dpl);
     Some (tab\<lparr>idt := (idt tab)[unat vec_no := g],
               intr_handlers := (intr_handlers tab)[unat vec_no := Some handler],
               intr_names := (intr_names tab)[unat vec_no := name]\<rparr>) }"

definition intr_register_ext :: "u32 list \<Rightarrow> u8 \<Rightarrow> 'h \<Rightarrow> string \<Rightarrow> 'h intr_tables \<Rightarrow> 'h intr_tables option" where
  "intr_register_ext stubs vec_no handler name tab = do {
     c_assert (0x20 \<le> vec_no \<and> vec_no \<le> 0x2f);
     register_handler stubs vec_no 0 False handler name tab }"

definition intr_register_int ::
    "u32 list \<Rightarrow> u8 \<Rightarrow> int \<Rightarrow> bool \<Rightarrow> 'h \<Rightarrow> string \<Rightarrow> 'h intr_tables \<Rightarrow> 'h intr_tables option" where
  "intr_register_int stubs vec_no dpl trap handler name tab = do {
     c_assert (vec_no < 0x20 \<or> 0x2f < vec_no);
     register_handler stubs vec_no dpl trap handler name tab }"

fun make_gates :: "u32 list \<Rightarrow> u64 list option" where
  "make_gates [] = Some []"
| "make_gates (s # ss) = do { g \<leftarrow> make_intr_gate s 0; gs \<leftarrow> make_gates ss; Some (g # gs) }"

text \<open>The tables after \<open>intr_init\<close>, from the zero-initialised handler table.\<close>

definition exception_names :: "(nat \<times> string) list" where
  "exception_names = [(0, ''#DE Divide Error''), (1, ''#DB Debug Exception''), (2, ''NMI Interrupt''),
     (3, ''#BP Breakpoint Exception''), (4, ''#OF Overflow Exception''),
     (5, ''#BR BOUND Range Exceeded Exception''), (6, ''#UD Invalid Opcode Exception''),
     (7, ''#NM Device Not Available Exception''), (8, ''#DF Double Fault Exception''),
     (9, ''Coprocessor Segment Overrun''), (10, ''#TS Invalid TSS Exception''),
     (11, ''#NP Segment Not Present''), (12, ''#SS Stack Fault Exception''),
     (13, ''#GP General Protection Exception''), (14, ''#PF Page-Fault Exception''),
     (16, ''#MF x87 FPU Floating-Point Error''), (17, ''#AC Alignment Check Exception''),
     (18, ''#MC Machine-Check Exception''), (19, ''#XF SIMD Floating-Point Exception'')]"

definition intr_init :: "u32 list \<Rightarrow> 'h intr_tables option" where
  "intr_init stubs = do {
     gs \<leftarrow> make_gates stubs;
     Some \<lparr>idt = gs, intr_handlers = replicate INTR_CNT None,
       intr_names = fold (\<lambda>(i, n) ns. ns[i := n]) exception_names (replicate INTR_CNT ''unknown'')\<rparr> }"

section \<open>Segment descriptors\<close>

datatype seg_class = CLS_SYSTEM | CLS_CODE_DATA
datatype seg_granularity = GRAN_BYTE | GRAN_PAGE

fun class_bits :: "seg_class \<Rightarrow> u32" where
  "class_bits CLS_SYSTEM = 0" | "class_bits CLS_CODE_DATA = 1"

fun granularity_bits :: "seg_granularity \<Rightarrow> u32" where
  "granularity_bits GRAN_BYTE = 0" | "granularity_bits GRAN_PAGE = 1"

definition make_seg_desc :: "u32 \<Rightarrow> u32 \<Rightarrow> seg_class \<Rightarrow> int \<Rightarrow> int \<Rightarrow> seg_granularity \<Rightarrow> u64 option" where
  "make_seg_desc base limit cls type dpl granularity = do {
     c_assert (limit \<le> 0xfffff);
     c_assert (0 \<le> type \<and> type \<le> 15);
     c_assert (0 \<le> dpl \<and> dpl \<le> 3);
     let e0 = (limit AND 0xffff) OR push_bit 16 base;
     let e1 = (drop_bit 16 base AND 0xff) OR push_bit 8 (word_of_int type) OR push_bit 12 (class_bits cls) OR
              push_bit 13 (word_of_int dpl) OR push_bit 15 1 OR (limit AND 0xf0000) OR push_bit 22 1 OR
              push_bit 23 (granularity_bits granularity) OR (base AND 0xff000000);
     Some (ucast e0 OR push_bit 32 (ucast e1)) }"

definition make_code_desc :: "int \<Rightarrow> u64 option" where
  "make_code_desc dpl = make_seg_desc 0 0xfffff CLS_CODE_DATA 10 dpl GRAN_PAGE"

definition make_data_desc :: "int \<Rightarrow> u64 option" where
  "make_data_desc dpl = make_seg_desc 0 0xfffff CLS_CODE_DATA 2 dpl GRAN_PAGE"

definition make_tss_desc :: "u32 \<Rightarrow> u64 option" where
  "make_tss_desc laddr = make_seg_desc laddr 0x67 CLS_SYSTEM 9 0 GRAN_BYTE"

definition make_gdtr_operand :: "16 word \<Rightarrow> u32 \<Rightarrow> u64" where
  "make_gdtr_operand limit base = ucast limit OR push_bit 16 (ucast base)"

definition gdt_index :: "u32 \<Rightarrow> nat" where "gdt_index sel = unat sel div 8"

text \<open>The table after \<open>gdt_init\<close>, given the address of the task state segment.\<close>

definition gdt_init :: "u32 \<Rightarrow> u64 list option" where
  "gdt_init tss = do {
     let gdt = replicate SEL_CNT 0;
     kc \<leftarrow> make_code_desc 0;
     kd \<leftarrow> make_data_desc 0;
     uc \<leftarrow> make_code_desc 3;
     ud \<leftarrow> make_data_desc 3;
     ts \<leftarrow> make_tss_desc tss;
     Some (gdt[0 := 0, gdt_index SEL_KCSEG := kc, gdt_index SEL_KDSEG := kd, gdt_index SEL_UCSEG := uc,
       gdt_index SEL_UDSEG := ud, gdt_index SEL_TSS := ts]) }"

definition seg_base :: "u64 \<Rightarrow> u32" where
  "seg_base d = ucast (drop_bit 16 d AND 0xffffff) OR push_bit 24 (ucast (drop_bit 56 d))"
definition seg_limit :: "u64 \<Rightarrow> u32" where
  "seg_limit d = ucast (d AND 0xffff) OR push_bit 16 (ucast (drop_bit 48 d AND 0xf))"
definition seg_type :: "u64 \<Rightarrow> int" where "seg_type d = uint (drop_bit 40 d AND 0xf)"
definition seg_dpl :: "u64 \<Rightarrow> int" where "seg_dpl d = uint (drop_bit 45 d AND 3)"

section \<open>Reading back what was built\<close>

lemma mask_lit: "(0xffff :: 'a :: len word) = mask 16" "(0xffffff :: 'a word) = mask 24" "(0xff :: 'a word) = mask 8"
  "(0xf :: 'a word) = mask 4" "(3 :: 'a word) = mask 2" "(0xffff0000 :: u32) = push_bit 16 (mask 16)"
  "(0xf0000 :: u32) = push_bit 16 (mask 4)" "(0xff000000 :: u32) = push_bit 24 (mask 8)"
  by (simp_all add: mask_eq_exp_minus_1 push_bit_eq_mult)

lemma small_bits:
  fixes i :: int
  assumes "0 \<le> i" "i < 2 ^ k" "k \<le> n"
  shows "\<not> bit i n"
proof -
  have "i = take_bit k i" using assms by (simp add: take_bit_int_eq_self)
  then have "bit i n = bit (take_bit k i) n" by simp
  then show ?thesis using assms(3) by (simp add: bit_take_bit_iff)
qed

lemma uint_bits_eqI:
  fixes w :: "'a :: len word"
  assumes "0 \<le> i" "i < 2 ^ k" "k \<le> LENGTH('a)" "\<And>n. n < k \<Longrightarrow> bit w n \<longleftrightarrow> bit i n" "\<And>n. k \<le> n \<Longrightarrow> \<not> bit w n"
  shows "uint w = i"
proof (rule bit_eqI)
  fix n show "bit (uint w) n = bit i n"
    using assms(3-5) small_bits [OF assms(1,2), of n] by (cases "n < k") (auto simp: bit_uint_iff)
qed

lemmas bits = bit_simps mask_lit

lemma gate_fields:
  assumes "make_gate func dpl type = Some g"
  shows "gate_offset g = func" "gate_selector g = SEL_KCSEG" "gate_type g = type" "gate_dpl g = dpl" "gate_present g"
proof -
  obtain p15 :: u32 where p15: "p15 = push_bit 15 1" by blast
  have b15: "bit p15 n \<longleftrightarrow> n = 15" for n unfolding p15 push_bit_of_1 bit_exp_iff by auto
  have a: "0 \<le> dpl" "dpl < 2 ^ 2" "0 \<le> type" "type < 2 ^ 4" and
    g: "g = ucast ((func AND 0xffff) OR push_bit 16 SEL_KCSEG) OR
      push_bit 32 (ucast ((func AND 0xffff0000) OR p15 OR push_bit 13 (word_of_int dpl) OR push_bit 12 0 OR
              push_bit 8 (word_of_int type)))"
    using assms by (auto simp: p15 make_gate_def bind_eq_Some_iff)
  note nb = small_bits [OF a(1,2)] small_bits [OF a(3,4)]
  have sel: "bit SEL_KCSEG n \<longleftrightarrow> n = 3" for n
    using bit_exp_iff [where 'a = "32 word", of 3 n] by (auto simp: SEL_KCSEG_def)
  show "gate_offset g = func"
  proof (rule bit_word_eqI)
    fix n assume n: "n < LENGTH(32)"
    show "bit (gate_offset g) n = bit func n"
      using n nb by (cases "n < 16") (auto simp: g gate_offset_def sel b15 bits)
  qed
  show "gate_selector g = SEL_KCSEG"
    by (rule bit_word_eqI) (auto simp: g gate_selector_def sel b15 bits)
  show "gate_type g = type"
    unfolding gate_type_def by (rule uint_bits_eqI [OF a(3,4)]) (use nb in \<open>simp_all add: g sel b15 bits\<close>)
  show "gate_dpl g = dpl"
    unfolding gate_dpl_def by (rule uint_bits_eqI [OF a(1,2)]) (use nb in \<open>simp_all add: g sel b15 bits\<close>)
  show "gate_present g" using nb by (simp add: g gate_present_def sel b15 bits)
qed

lemma split3:
  fixes n :: nat
  obtains "n < 16" | m where "n = 16 + m" "m < 4" | "20 \<le> n"
proof -
  assume a: "n < 16 \<Longrightarrow> thesis" "\<And>m. n = 16 + m \<Longrightarrow> m < 4 \<Longrightarrow> thesis" "20 \<le> n \<Longrightarrow> thesis"
  consider "n < 16" | "n = 16 + (n - 16)" "n - 16 < 4" | "20 \<le> n" by linarith
  then show thesis by cases (use a in blast)+
qed

lemma split3':
  fixes n :: nat
  obtains "n < 16" | m where "n = m + 16" "m < 8" | m where "n = m + 24"
  using that(2) [of "n - 16"] that(3) [of "n - 24"] that(1) by force

lemma seg_fields:
  assumes "make_seg_desc base limit cls type dpl gran = Some d"
  shows "seg_base d = base" "seg_limit d = limit" "seg_type d = type" "seg_dpl d = dpl"
    "bit d 44 \<longleftrightarrow> cls = CLS_CODE_DATA" "bit d 47" "bit d 54" "bit d 55 \<longleftrightarrow> gran = GRAN_PAGE"
proof -
  obtain p15 p22 :: u32 where p: "p15 = push_bit 15 1" "p22 = push_bit 22 1" by blast
  have one: "bit p15 n \<longleftrightarrow> n = 15" "bit p22 n \<longleftrightarrow> n = 22" for n
    unfolding p push_bit_of_1 bit_exp_iff by auto
  have a: "0 \<le> dpl" "dpl < 2 ^ 2" "0 \<le> type" "type < 2 ^ 4" "limit \<le> 0xfffff" and
    d: "d = ucast ((limit AND 0xffff) OR push_bit 16 base) OR push_bit 32 (ucast (
              (drop_bit 16 base AND 0xff) OR push_bit 8 (word_of_int type) OR push_bit 12 (class_bits cls) OR
              push_bit 13 (word_of_int dpl) OR p15 OR (limit AND 0xf0000) OR p22 OR
              push_bit 23 (granularity_bits gran) OR (base AND 0xff000000)))"
    using assms by (auto simp: p make_seg_desc_def bind_eq_Some_iff)
  note nb = small_bits [OF a(1,2)] small_bits [OF a(3,4)]
  have cb: "bit (class_bits cls) n \<longleftrightarrow> n = 0 \<and> cls = CLS_CODE_DATA" for n by (cases cls) (auto simp: bit_1_iff)
  have gb: "bit (granularity_bits gran) n \<longleftrightarrow> n = 0 \<and> gran = GRAN_PAGE" for n by (cases gran) (auto simp: bit_1_iff)
  have lb: "\<not> bit limit n" if "20 \<le> n" for n
  proof -
    have "unat limit < 2 ^ 20" using a(5) by (simp add: word_le_nat_alt)
    then have "limit = take_bit 20 limit" by (simp add: word_unat_eq_iff unat_take_bit)
    with that show ?thesis by (metis bit_take_bit_iff leD)
  qed
  note S = d one cb gb bits
  show "seg_base d = base"
  proof (rule bit_word_eqI)
    fix n assume n: "n < LENGTH(32)"
    consider "n < 16" | m where "n = m + 16" "m < 8" | m where "n = m + 24" "m < 8"
      by (rule split3' [of n]) (use n in auto)
    then show "bit (seg_base d) n = bit base n"
      by cases (use nb lb in \<open>simp_all add: seg_base_def S add.commute\<close>)
  qed
  show "seg_limit d = limit"
  proof (rule bit_word_eqI)
    fix n assume n: "n < LENGTH(32)"
    consider "n < 16" | m where "n = 16 + m" "m < 4" | "20 \<le> n" by (rule split3 [of n])
    then show "bit (seg_limit d) n = bit limit n"
      by cases (use n nb lb in \<open>auto simp: seg_limit_def S\<close>)
  qed
  show "seg_type d = type"
    unfolding seg_type_def by (rule uint_bits_eqI [OF a(3,4)]) (use nb in \<open>simp_all add: S\<close>)
  show "seg_dpl d = dpl"
    unfolding seg_dpl_def by (rule uint_bits_eqI [OF a(1,2)]) (use nb in \<open>simp_all add: S\<close>)
  show "bit d 44 \<longleftrightarrow> cls = CLS_CODE_DATA" "bit d 47" "bit d 54" "bit d 55 \<longleftrightarrow> gran = GRAN_PAGE"
    using nb lb by (simp_all add: S)
qed

section \<open>Properties\<close>

lemma make_gate_ok:
  assumes "func \<noteq> 0" "0 \<le> dpl" "dpl \<le> 3" "0 \<le> type" "type \<le> 15"
  shows "make_gate func dpl type \<noteq> None"
  using assms by (simp add: make_gate_def Let_def)

lemma make_seg_desc_ok:
  assumes "limit \<le> 0xfffff" "0 \<le> dpl" "dpl \<le> 3" "0 \<le> type" "type \<le> 15"
  shows "make_seg_desc base limit cls type dpl gran \<noteq> None"
  using assms by (simp add: make_seg_desc_def Let_def)

text \<open>Registering a handler installs a gate from which the processor reads back the entry point of
  that vector, the kernel code segment, the requested privilege level, and the interrupt or trap
  type that the requested level asks for; a vector can be registered only once, and external
  vectors only as interrupt gates of level 0.\<close>

theorem register_handler_gate:
  assumes "length (idt tab) = INTR_CNT" "length (intr_handlers tab) = INTR_CNT" "stubs ! unat vec \<noteq> 0"
    "0 \<le> dpl" "dpl \<le> 3"
  shows "case register_handler stubs vec dpl trap h name tab of
      None \<Rightarrow> intr_handlers tab ! unat vec \<noteq> None
    | Some tab' \<Rightarrow> intr_handlers tab ! unat vec = None \<and>
        (let g = idt tab' ! unat vec in
         gate_offset g = stubs ! unat vec \<and> gate_selector g = SEL_KCSEG \<and> gate_dpl g = dpl \<and> gate_present g \<and>
         gate_type g = (if trap then 15 else 14)) \<and>
        intr_handlers tab' = (intr_handlers tab)[unat vec := Some h] \<and>
        register_handler stubs vec dpl trap h name tab' = None"
proof -
  have v: "unat vec < INTR_CNT" using unsigned_less [of vec] by (simp add: INTR_CNT_def)
  obtain g where g: "make_gate (stubs ! unat vec) dpl (if trap then 15 else 14) = Some g"
    using make_gate_ok [OF assms(3-5)] by fastforce
  have e: "register_handler stubs vec dpl trap h name tab = (if intr_handlers tab ! unat vec = None
     then Some (tab\<lparr>idt := (idt tab)[unat vec := g], intr_handlers := (intr_handlers tab)[unat vec := Some h],
       intr_names := (intr_names tab)[unat vec := name]\<rparr>) else None)"
    using g by (auto simp: register_handler_def make_trap_gate_def make_intr_gate_def)
  show ?thesis
  proof (cases "intr_handlers tab ! unat vec = None")
    case True
    then show ?thesis using e gate_fields [OF g] v assms(1,2)
      by (simp add: Let_def) (simp add: register_handler_def)
  next
    case False
    then have "register_handler stubs vec dpl trap h name tab = None" unfolding e by (rule if_not_P)
    with False show ?thesis by simp
  qed
qed

theorem register_handler_gate_witness:
  "case register_handler (replicate 256 0xc0021000) 0x30 3 True (7 :: nat) ''syscall''
      \<lparr>idt = replicate 256 0, intr_handlers = replicate 256 None, intr_names = replicate 256 []\<rparr> of
     None \<Rightarrow> False | Some tab \<Rightarrow> gate_offset (idt tab ! 0x30) = 0xc0021000 \<and> gate_dpl (idt tab ! 0x30) = 3"
  using register_handler_gate [of "\<lparr>idt = replicate 256 0, intr_handlers = replicate 256 None, intr_names = replicate 256 []\<rparr>"
      "replicate 256 0xc0021000" "0x30" 3 True "7 :: nat" "''syscall''"]
  by (auto simp: INTR_CNT_def Let_def split: option.splits)

text \<open>C29: A segment descriptor reads back as the base, limit, type, privilege level, class and
  granularity it was made from, and is present; the global descriptor table has the code and data segments of
  both privilege levels at the selectors the kernel uses, spanning all of memory, and the task
  state segment with its address.\<close>

theorem gdt_init_segments:
  "\<exists>gdt. gdt_init tss = Some gdt \<and> length gdt = SEL_CNT \<and> gdt ! 0 = 0 \<and>
    (\<forall>sel \<in> {SEL_KCSEG, SEL_KDSEG, SEL_UCSEG, SEL_UDSEG}. let d = gdt ! gdt_index sel in
       seg_base d = 0 \<and> seg_limit d = 0xfffff \<and> bit d 55 \<and> bit d 47 \<and> bit d 44 \<and> seg_dpl d = uint (sel AND 3) \<and>
       seg_type d = (if sel = SEL_KCSEG \<or> sel = SEL_UCSEG then 10 else 2)) \<and>
    (let d = gdt ! gdt_index SEL_TSS in seg_base d = tss \<and> seg_limit d = 0x67 \<and> \<not> bit d 55 \<and> bit d 47 \<and> \<not> bit d 44 \<and>
       seg_type d = 9 \<and> seg_dpl d = 0)"
proof -
  obtain kc kd uc ud ts where d: "make_code_desc 0 = Some kc" "make_data_desc 0 = Some kd" "make_code_desc 3 = Some uc"
      "make_data_desc 3 = Some ud" "make_tss_desc tss = Some ts"
    by (simp add: make_code_desc_def make_data_desc_def make_tss_desc_def make_seg_desc_def Let_def)
  note S = seg_fields [OF d(1) [unfolded make_code_desc_def]] seg_fields [OF d(2) [unfolded make_data_desc_def]]
    seg_fields [OF d(3) [unfolded make_code_desc_def]] seg_fields [OF d(4) [unfolded make_data_desc_def]]
    seg_fields [OF d(5) [unfolded make_tss_desc_def]]
  have i: "gdt_index SEL_KCSEG = Suc 0" "gdt_index SEL_KDSEG = Suc (Suc 0)" "gdt_index SEL_UCSEG = Suc (Suc (Suc 0))"
    "gdt_index SEL_UDSEG = Suc (Suc (Suc (Suc 0)))" "gdt_index SEL_TSS = Suc (Suc (Suc (Suc (Suc 0))))"
    by (simp_all add: gdt_index_def SEL_KCSEG_def SEL_KDSEG_def SEL_UCSEG_def SEL_UDSEG_def SEL_TSS_def)
  have c: "SEL_CNT = Suc (Suc (Suc (Suc (Suc (Suc 0)))))" by (simp add: SEL_CNT_def)
  have "replicate SEL_CNT (0 :: u64) = [0, 0, 0, 0, 0, 0]" unfolding c by simp
  then have "gdt_init tss = Some [0, kc, kd, uc, ud, ts]" "length [0, kc, kd, uc, ud, ts] = SEL_CNT"
    by (simp_all add: gdt_init_def d i c)
  moreover have "uint (SEL_KCSEG AND 3) = 0" "uint (SEL_KDSEG AND 3) = 0" "uint (SEL_UCSEG AND 3) = 3" "uint (SEL_UDSEG AND 3) = 3"
      "SEL_KCSEG \<noteq> SEL_KDSEG" "SEL_KCSEG \<noteq> SEL_UDSEG" "SEL_UCSEG \<noteq> SEL_KDSEG" "SEL_UCSEG \<noteq> SEL_UDSEG"
    by (simp_all add: SEL_KCSEG_def SEL_KDSEG_def SEL_UCSEG_def SEL_UDSEG_def)
  ultimately show ?thesis
    using S by (intro exI [of _ "[0, kc, kd, uc, ud, ts]"]) (auto simp: i Let_def)
qed

theorem gdt_init_segments_witness:
  "\<exists>gdt. gdt_init 0xc0100000 = Some gdt \<and> seg_base (gdt ! gdt_index SEL_TSS) = 0xc0100000 \<and>
     seg_dpl (gdt ! gdt_index SEL_UCSEG) = uint (SEL_UCSEG AND 3)"
  using gdt_init_segments [of "0xc0100000"] by (auto simp: Let_def)

end
