(* ===== verification/Strings.thy ===== *)
theory Strings
  imports Prelude
begin

text \<open>
  \<^verbatim>\<open>lib/string.c\<close>: blocks and strings in byte-addressed memory. A memory is a partial map from
  addresses to bytes; an access outside the map is undefined behaviour and gives \<open>None\<close>, and so does
  a scan that never ends. Pointers are addresses, with the null pointer 0; objects do not reach the
  end of the address space, so pointer arithmetic does not wrap.
\<close>

section \<open>Memory\<close>

type_synonym mem = "nat \<rightharpoonup> u8"

definition store :: "mem \<Rightarrow> nat \<Rightarrow> u8 \<Rightarrow> mem option" where
  "store m p b = (if m p = None then None else Some (m(p \<mapsto> b)))"

section \<open>Blocks\<close>

fun copy_up :: "nat \<Rightarrow> nat \<Rightarrow> nat \<Rightarrow> mem \<Rightarrow> mem option" where
  "copy_up dst src 0 m = Some m"
| "copy_up dst src (Suc sz) m = do {
     b \<leftarrow> m src;
     m \<leftarrow> store m dst b;
     copy_up (dst + 1) (src + 1) sz m }"

definition memcpy :: "nat \<Rightarrow> nat \<Rightarrow> nat \<Rightarrow> mem \<Rightarrow> (mem \<times> nat) option" where
  "memcpy dst src sz m = do {
     c_assert (dst \<noteq> 0 \<or> sz = 0);
     c_assert (src \<noteq> 0 \<or> sz = 0);
     m \<leftarrow> copy_up dst src sz m;
     Some (m, dst) }"

fun copy_down :: "nat \<Rightarrow> nat \<Rightarrow> nat \<Rightarrow> mem \<Rightarrow> mem option" where
  "copy_down dst src 0 m = Some m"
| "copy_down dst src (Suc sz) m = do {
     b \<leftarrow> m (src - 1);
     m \<leftarrow> store m (dst - 1) b;
     copy_down (dst - 1) (src - 1) sz m }"

definition memmove :: "nat \<Rightarrow> nat \<Rightarrow> nat \<Rightarrow> mem \<Rightarrow> (mem \<times> nat) option" where
  "memmove dst src sz m = do {
     c_assert (dst \<noteq> 0 \<or> sz = 0);
     c_assert (src \<noteq> 0 \<or> sz = 0);
     if dst < src then do {
       m \<leftarrow> copy_up dst src sz m;
       Some (m, dst + sz) }
     else do {
       m \<leftarrow> copy_down (dst + sz) (src + sz) sz m;
       Some (m, dst) } }"

fun memcmp_loop :: "nat \<Rightarrow> nat \<Rightarrow> nat \<Rightarrow> mem \<Rightarrow> int option" where
  "memcmp_loop a b 0 m = Some 0"
| "memcmp_loop a b (Suc sz) m = do {
     x \<leftarrow> m a;
     y \<leftarrow> m b;
     if x \<noteq> y then Some (if y < x then 1 else -1) else memcmp_loop (a + 1) (b + 1) sz m }"

definition memcmp :: "nat \<Rightarrow> nat \<Rightarrow> nat \<Rightarrow> mem \<Rightarrow> int option" where
  "memcmp a b sz m = do {
     c_assert (a \<noteq> 0 \<or> sz = 0);
     c_assert (b \<noteq> 0 \<or> sz = 0);
     memcmp_loop a b sz m }"

fun memchr_loop :: "nat \<Rightarrow> u8 \<Rightarrow> nat \<Rightarrow> mem \<Rightarrow> nat option" where
  "memchr_loop block ch 0 m = Some 0"
| "memchr_loop block ch (Suc sz) m = do {
     b \<leftarrow> m block;
     if b = ch then Some block else memchr_loop (block + 1) ch sz m }"

definition memchr :: "nat \<Rightarrow> int \<Rightarrow> nat \<Rightarrow> mem \<Rightarrow> nat option" where
  "memchr block ch sz m = do {
     c_assert (block \<noteq> 0 \<or> sz = 0);
     memchr_loop block (word_of_int ch) sz m }"

fun memset_loop :: "nat \<Rightarrow> u8 \<Rightarrow> nat \<Rightarrow> mem \<Rightarrow> mem option" where
  "memset_loop dst v 0 m = Some m"
| "memset_loop dst v (Suc sz) m = do {
     m \<leftarrow> store m dst v;
     memset_loop (dst + 1) v sz m }"

definition memset :: "nat \<Rightarrow> int \<Rightarrow> nat \<Rightarrow> mem \<Rightarrow> (mem \<times> nat) option" where
  "memset dst v sz m = do {
     c_assert (dst \<noteq> 0 \<or> sz = 0);
     m \<leftarrow> memset_loop dst (word_of_int v) sz m;
     Some (m, dst) }"

section \<open>Strings\<close>

partial_function (option) strlen_loop :: "mem \<Rightarrow> nat \<Rightarrow> nat option" where
  "strlen_loop m p = do {
     c \<leftarrow> m p;
     if c \<noteq> 0 then strlen_loop m (p + 1) else Some p }"

definition strlen :: "nat \<Rightarrow> mem \<Rightarrow> nat option" where
  "strlen string m = do {
     c_assert (string \<noteq> 0);
     p \<leftarrow> strlen_loop m string;
     Some (p - string) }"

partial_function (option) strnlen_loop :: "mem \<Rightarrow> nat \<Rightarrow> nat \<Rightarrow> nat \<Rightarrow> nat option" where
  "strnlen_loop m string maxlen len = do {
     c \<leftarrow> m (string + len);
     if c \<noteq> 0 \<and> len < maxlen then strnlen_loop m string maxlen (len + 1) else Some len }"

definition strnlen :: "nat \<Rightarrow> nat \<Rightarrow> mem \<Rightarrow> nat option" where
  "strnlen string maxlen m = strnlen_loop m string maxlen 0"

partial_function (option) strcmp_loop :: "mem \<Rightarrow> nat \<Rightarrow> nat \<Rightarrow> int option" where
  "strcmp_loop m a b = do {
     x \<leftarrow> m a;
     y \<leftarrow> m b;
     if x \<noteq> 0 \<and> x = y then strcmp_loop m (a + 1) (b + 1)
     else Some (if x < y then -1 else if y < x then 1 else 0) }"

definition strcmp :: "nat \<Rightarrow> nat \<Rightarrow> mem \<Rightarrow> int option" where
  "strcmp a b m = do {
     c_assert (a \<noteq> 0);
     c_assert (b \<noteq> 0);
     strcmp_loop m a b }"

partial_function (option) strchr_loop :: "mem \<Rightarrow> nat \<Rightarrow> u8 \<Rightarrow> nat option" where
  "strchr_loop m string c = do {
     x \<leftarrow> m string;
     if x = c then Some string
     else if x = 0 then Some 0
     else strchr_loop m (string + 1) c }"

definition strchr :: "nat \<Rightarrow> int \<Rightarrow> mem \<Rightarrow> nat option" where
  "strchr string c m = do {
     c_assert (string \<noteq> 0);
     strchr_loop m string (word_of_int c) }"

text \<open>The characters of a string are passed on as \<open>int\<close>, sign-extended.\<close>

partial_function (option) strcspn_loop :: "mem \<Rightarrow> nat \<Rightarrow> nat \<Rightarrow> nat \<Rightarrow> nat option" where
  "strcspn_loop m string stop len = do {
     c \<leftarrow> m (string + len);
     if c \<noteq> 0 then do {
       p \<leftarrow> strchr stop (sint c) m;
       if p \<noteq> 0 then Some len else strcspn_loop m string stop (len + 1) }
     else Some len }"

definition strcspn :: "nat \<Rightarrow> nat \<Rightarrow> mem \<Rightarrow> nat option" where
  "strcspn string stop m = strcspn_loop m string stop 0"

partial_function (option) strspn_loop :: "mem \<Rightarrow> nat \<Rightarrow> nat \<Rightarrow> nat \<Rightarrow> nat option" where
  "strspn_loop m string skip len = do {
     c \<leftarrow> m (string + len);
     if c \<noteq> 0 then do {
       p \<leftarrow> strchr skip (sint c) m;
       if p = 0 then Some len else strspn_loop m string skip (len + 1) }
     else Some len }"

definition strspn :: "nat \<Rightarrow> nat \<Rightarrow> mem \<Rightarrow> nat option" where
  "strspn string skip m = strspn_loop m string skip 0"

partial_function (option) strpbrk :: "nat \<Rightarrow> nat \<Rightarrow> mem \<Rightarrow> nat option" where
  "strpbrk string stop m = do {
     c \<leftarrow> m string;
     if c \<noteq> 0 then do {
       p \<leftarrow> strchr stop (sint c) m;
       if p \<noteq> 0 then Some string else strpbrk (string + 1) stop m }
     else Some 0 }"

partial_function (option) strrchr_loop :: "mem \<Rightarrow> nat \<Rightarrow> u8 \<Rightarrow> nat \<Rightarrow> nat option" where
  "strrchr_loop m string c p = do {
     x \<leftarrow> m string;
     if x \<noteq> 0 then strrchr_loop m (string + 1) c (if x = c then string else p)
     else Some p }"

definition strrchr :: "nat \<Rightarrow> int \<Rightarrow> mem \<Rightarrow> nat option" where
  "strrchr string c m = strrchr_loop m string (word_of_int c) 0"

fun strstr_loop :: "nat \<Rightarrow> nat \<Rightarrow> nat \<Rightarrow> nat \<Rightarrow> nat \<Rightarrow> mem \<Rightarrow> nat option" where
  "strstr_loop haystack needle needle_len i 0 m = Some 0"
| "strstr_loop haystack needle needle_len i (Suc n) m = do {
     c \<leftarrow> memcmp (haystack + i) needle needle_len m;
     if c = 0 then Some (haystack + i) else strstr_loop haystack needle needle_len (i + 1) n m }"

definition strstr :: "nat \<Rightarrow> nat \<Rightarrow> mem \<Rightarrow> nat option" where
  "strstr haystack needle m = do {
     haystack_len \<leftarrow> strlen haystack m;
     needle_len \<leftarrow> strlen needle m;
     if needle_len \<le> haystack_len
     then strstr_loop haystack needle needle_len 0 (haystack_len - needle_len + 1) m
     else Some 0 }"

text \<open>The two scanning loops of \<open>strtok_r\<close>; the first ends with \<open>None\<close> at the end of the string.\<close>

partial_function (option) skip_delims :: "mem \<Rightarrow> nat \<Rightarrow> nat \<Rightarrow> (nat \<times> bool) option" where
  "skip_delims m delimiters s = do {
     c \<leftarrow> m s;
     p \<leftarrow> strchr delimiters (sint c) m;
     if p \<noteq> 0 then
       if c = 0 then Some (s, True)
       else skip_delims m delimiters (s + 1)
     else Some (s, False) }"

partial_function (option) skip_token :: "mem \<Rightarrow> nat \<Rightarrow> nat \<Rightarrow> nat option" where
  "skip_token m delimiters s = do {
     c \<leftarrow> m s;
     p \<leftarrow> strchr delimiters (sint c) m;
     if p = 0 then skip_token m delimiters (s + 1) else Some s }"

text \<open>Returns the memory, the saved pointer and the token.\<close>

definition strtok_r :: "nat \<Rightarrow> nat \<Rightarrow> nat \<Rightarrow> mem \<Rightarrow> (mem \<times> nat \<times> nat) option" where
  "strtok_r s delimiters save_ptr m = do {
     c_assert (delimiters \<noteq> 0);
     let s = (if s = 0 then save_ptr else s);
     c_assert (s \<noteq> 0);
     (s, at_end) \<leftarrow> skip_delims m delimiters s;
     if at_end then Some (m, s, 0)
     else do {
       let token = s;
       s \<leftarrow> skip_token m delimiters s;
       c \<leftarrow> m s;
       if c \<noteq> 0 then do {
         m \<leftarrow> store m s 0;
         Some (m, s + 1, token) }
       else Some (m, s, token) } }"

definition strlcpy :: "nat \<Rightarrow> nat \<Rightarrow> nat \<Rightarrow> mem \<Rightarrow> (mem \<times> nat) option" where
  "strlcpy dst src sz m = do {
     c_assert (dst \<noteq> 0);
     c_assert (src \<noteq> 0);
     src_len \<leftarrow> strlen src m;
     if 0 < sz then do {
       let dst_len = sz - 1;
       let dst_len = (if src_len < dst_len then src_len else dst_len);
       (m, _) \<leftarrow> memcpy dst src dst_len m;
       m \<leftarrow> store m (dst + dst_len) 0;
       Some (m, src_len) }
     else Some (m, src_len) }"

definition strlcat :: "nat \<Rightarrow> nat \<Rightarrow> nat \<Rightarrow> mem \<Rightarrow> (mem \<times> nat) option" where
  "strlcat dst src sz m = do {
     c_assert (dst \<noteq> 0);
     c_assert (src \<noteq> 0);
     src_len \<leftarrow> strlen src m;
     dst_len \<leftarrow> strlen dst m;
     if 0 < sz \<and> dst_len < sz then do {
       let copy_cnt = sz - dst_len - 1;
       let copy_cnt = (if src_len < copy_cnt then src_len else copy_cnt);
       (m, _) \<leftarrow> memcpy (dst + dst_len) src copy_cnt m;
       m \<leftarrow> store m (dst + dst_len + copy_cnt) 0;
       Some (m, src_len + dst_len) }
     else Some (m, src_len + dst_len) }"

section \<open>Blocks and strings in memory\<close>

definition bytes_at :: "mem \<Rightarrow> nat \<Rightarrow> u8 list \<Rightarrow> bool" where
  "bytes_at m p bs \<longleftrightarrow> (\<forall>i < length bs. m (p + i) = Some (bs ! i))"

definition cstr :: "mem \<Rightarrow> nat \<Rightarrow> u8 list \<Rightarrow> bool" where
  "cstr m p s \<longleftrightarrow> bytes_at m p (s @ [0]) \<and> 0 \<notin> set s"

definition writable :: "mem \<Rightarrow> nat \<Rightarrow> nat \<Rightarrow> bool" where
  "writable m p n \<longleftrightarrow> (\<forall>i < n. m (p + i) \<noteq> None)"

definition unchanged :: "mem \<Rightarrow> mem \<Rightarrow> nat \<Rightarrow> nat \<Rightarrow> bool" where
  "unchanged m m' p n \<longleftrightarrow> (\<forall>a. a < p \<or> p + n \<le> a \<longrightarrow> m' a = m a)"

lemma block_Nil [simp]: "bytes_at m p []"
  by (simp add: bytes_at_def)

lemma block_Cons [simp]: "bytes_at m p (b # bs) \<longleftrightarrow> m p = Some b \<and> bytes_at m (Suc p) bs"
proof
  assume "bytes_at m p (b # bs)"
  then have a: "m (p + i) = Some ((b # bs) ! i)" if "i < Suc (length bs)" for i using that by (simp add: bytes_at_def)
  from a [of 0] have "m p = Some b" by simp
  moreover have "bytes_at m (Suc p) bs" unfolding bytes_at_def using a [of "Suc _"] by simp
  ultimately show "m p = Some b \<and> bytes_at m (Suc p) bs" ..
next
  assume a: "m p = Some b \<and> bytes_at m (Suc p) bs"
  show "bytes_at m p (b # bs)" unfolding bytes_at_def
  proof (intro allI impI)
    fix i assume "i < length (b # bs)"
    with a show "m (p + i) = Some ((b # bs) ! i)" by (cases i) (auto simp: bytes_at_def)
  qed
qed

lemma block_append: "bytes_at m p (xs @ ys) \<longleftrightarrow> bytes_at m p xs \<and> bytes_at m (p + length xs) ys"
  by (induction xs arbitrary: p) auto

lemma block_cong: "bytes_at m p bs \<Longrightarrow> (\<And>i. i < length bs \<Longrightarrow> m' (p + i) = m (p + i)) \<Longrightarrow> bytes_at m' p bs"
  by (simp add: bytes_at_def)

lemma block_writable: "bytes_at m p bs \<Longrightarrow> writable m p (length bs)"
  by (simp add: bytes_at_def writable_def)

lemma writable_Suc: "writable m p (Suc n) \<longleftrightarrow> m p \<noteq> None \<and> writable m (Suc p) n"
proof
  assume "writable m p (Suc n)"
  then have a: "m (p + i) \<noteq> None" if "i < Suc n" for i using that by (simp add: writable_def)
  from a [of 0] a [of "Suc _"] show "m p \<noteq> None \<and> writable m (Suc p) n" by (simp add: writable_def)
next
  assume a: "m p \<noteq> None \<and> writable m (Suc p) n"
  show "writable m p (Suc n)" unfolding writable_def
  proof (intro allI impI)
    fix i assume "i < Suc n"
    with a show "m (p + i) \<noteq> None" by (cases i) (auto simp: writable_def)
  qed
qed

lemma cstr_Nil [simp]: "cstr m p [] \<longleftrightarrow> m p = Some 0"
  by (simp add: cstr_def)

lemma cstr_Cons [simp]: "cstr m p (c # s) \<longleftrightarrow> m p = Some c \<and> c \<noteq> 0 \<and> cstr m (Suc p) s"
  by (auto simp: cstr_def)

lemma cstr_drop: "cstr m p (xs @ ys) \<Longrightarrow> cstr m (p + length xs) ys"
  by (auto simp: cstr_def block_append)

lemma cstr_cong: "cstr m p s \<Longrightarrow> (\<And>i. i \<le> length s \<Longrightarrow> m' (p + i) = m (p + i)) \<Longrightarrow> cstr m' p s"
  unfolding cstr_def by (auto intro: block_cong)

section \<open>Copying\<close>

lemma copy_up_ok:
  assumes "bytes_at m src bs" "writable m dst (length bs)" "dst \<le> src \<or> src + length bs \<le> dst"
  shows "\<exists>m'. copy_up dst src (length bs) m = Some m' \<and> bytes_at m' dst bs \<and> unchanged m m' dst (length bs)"
  using assms
proof (induction bs arbitrary: m dst src)
  case Nil
  then show ?case by (simp add: unchanged_def)
next
  case (Cons b bs)
  have w: "m dst \<noteq> None" "writable m (Suc dst) (length bs)" using Cons.prems(2) by (auto simp: writable_Suc)
  let ?m = "m(dst \<mapsto> b)"
  have s: "store m dst b = Some ?m" using w by (simp add: store_def)
  have "bytes_at ?m (Suc src) bs" by (rule block_cong [where m = m]) (use Cons.prems in auto)
  moreover have "writable ?m (Suc dst) (length bs)" using w by (simp add: writable_def)
  moreover have le: "Suc dst \<le> Suc src \<or> Suc src + length bs \<le> Suc dst" using Cons.prems(3) by auto
  ultimately obtain m' where m': "copy_up (Suc dst) (Suc src) (length bs) ?m = Some m'" "bytes_at m' (Suc dst) bs"
      "unchanged ?m m' (Suc dst) (length bs)"
    using Cons.IH [of ?m "Suc src" "Suc dst"] le by blast
  have "m' dst = Some b" using m'(3) by (simp add: unchanged_def)
  moreover have "unchanged m m' dst (length (b # bs))" using m'(3) by (auto simp: unchanged_def)
  ultimately show ?case using m' s Cons.prems(1) by simp
qed

lemma copy_down_ok:
  assumes "bytes_at m src bs" "writable m dst (length bs)" "src \<le> dst"
  shows "\<exists>m'. copy_down (dst + length bs) (src + length bs) (length bs) m = Some m' \<and> bytes_at m' dst bs \<and>
    unchanged m m' dst (length bs)"
  using assms
proof (induction bs arbitrary: m rule: rev_induct)
  case Nil
  then show ?case by (simp add: unchanged_def)
next
  case (snoc b bs)
  let ?n = "length bs"
  let ?m = "m(dst + ?n \<mapsto> b)"
  have b: "m (src + ?n) = Some b" "bytes_at m src bs" using snoc.prems(1) by (auto simp: block_append)
  have w: "m (dst + ?n) \<noteq> None" using snoc.prems(2) by (simp add: writable_def)
  have "bytes_at ?m src bs" by (rule block_cong [OF b(2)]) (use snoc.prems(3) in auto)
  moreover have "writable ?m dst ?n" using snoc.prems(2) by (auto simp: writable_def)
  ultimately obtain m' where m': "copy_down (dst + ?n) (src + ?n) ?n ?m = Some m'" "bytes_at m' dst bs"
      "unchanged ?m m' dst ?n" using snoc.IH [of ?m] snoc.prems(3) by blast
  have "m' (dst + ?n) = Some b" using m'(3) by (simp add: unchanged_def)
  moreover have "unchanged m m' dst (Suc ?n)" using m'(3) by (auto simp: unchanged_def)
  ultimately show ?case using m' b w by (simp add: store_def block_append)
qed

lemma memcpy_ok:
  assumes "bytes_at m src bs" "writable m dst (length bs)" "dst \<le> src \<or> src + length bs \<le> dst" "dst \<noteq> 0" "src \<noteq> 0"
  shows "\<exists>m'. memcpy dst src (length bs) m = Some (m', dst) \<and> bytes_at m' dst bs \<and> unchanged m m' dst (length bs)"
  using copy_up_ok [OF assms(1-3)] assms(4,5) by (auto simp: memcpy_def)

section \<open>Scanning\<close>

lemma strlen_cstr:
  assumes "cstr m p s" "p \<noteq> 0"
  shows "strlen p m = Some (length s)"
proof -
  have "strlen_loop m p = Some (p + length s)" using assms(1)
  proof (induction s arbitrary: p)
    case Nil
    then show ?case by (subst strlen_loop.simps) simp
  next
    case (Cons c s)
    then show ?case by (subst strlen_loop.simps) simp
  qed
  with assms(2) show ?thesis by (simp add: strlen_def)
qed

text \<open>Where a character stands in a string with its terminator.\<close>

fun find_char :: "u8 \<Rightarrow> u8 list \<Rightarrow> nat option" where
  "find_char c [] = (if c = 0 then Some 0 else None)"
| "find_char c (x # xs) = (if x = c then Some 0 else map_option Suc (find_char c xs))"

lemma find_char_None: "find_char c s = None \<longleftrightarrow> c \<notin> set s \<and> c \<noteq> 0"
  by (induction s) auto

lemma strchr_loop_cstr:
  assumes "cstr m p s"
  shows "strchr_loop m p c = Some (case find_char c s of None \<Rightarrow> 0 | Some i \<Rightarrow> p + i)"
  using assms
proof (induction s arbitrary: p)
  case Nil
  then show ?case by (subst strchr_loop.simps) auto
next
  case (Cons x s)
  then show ?case by (subst strchr_loop.simps) (auto split: option.splits)
qed

lemma strchr_found:
  assumes "cstr m p s" "p \<noteq> 0"
  shows "\<exists>q. strchr p (sint c) m = Some q \<and> (q \<noteq> 0 \<longleftrightarrow> c \<in> set s \<or> c = 0)"
proof -
  have "strchr p (sint c) m = Some (case find_char c s of None \<Rightarrow> 0 | Some i \<Rightarrow> p + i)"
    using strchr_loop_cstr [OF assms(1)] assms(2) by (simp add: strchr_def)
  then show ?thesis using assms(2) find_char_None [of c s] by (auto split: option.splits)
qed

lemma skip_delims_cstr:
  assumes d: "cstr m d ds" "d \<noteq> 0" and s: "cstr m p s"
  shows "skip_delims m d p = Some (p + length (takeWhile (\<lambda>c. c \<in> set ds) s), dropWhile (\<lambda>c. c \<in> set ds) s = [])"
  using s
proof (induction s arbitrary: p)
  case Nil
  obtain q where "strchr d (sint (0 :: u8)) m = Some q" "q \<noteq> 0" using strchr_found [OF d, of 0] by auto
  with Nil show ?case by (subst skip_delims.simps) simp
next
  case (Cons c s)
  obtain q where q: "strchr d (sint c) m = Some q" "q \<noteq> 0 \<longleftrightarrow> c \<in> set ds \<or> c = 0" using strchr_found [OF d, of c] by auto
  have c: "m p = Some c" "c \<noteq> 0" "cstr m (Suc p) s" using Cons.prems by auto
  show ?case
  proof (cases "c \<in> set ds")
    case True
    with c q Cons.IH [OF c(3)] show ?thesis by (subst skip_delims.simps) simp
  next
    case False
    with c q show ?thesis by (subst skip_delims.simps) simp
  qed
qed

lemma skip_token_cstr:
  assumes d: "cstr m d ds" "d \<noteq> 0" and s: "cstr m p s"
  shows "skip_token m d p = Some (p + length (takeWhile (\<lambda>c. c \<notin> set ds) s))"
  using s
proof (induction s arbitrary: p)
  case Nil
  obtain q where "strchr d (sint (0 :: u8)) m = Some q" "q \<noteq> 0" using strchr_found [OF d, of 0] by auto
  with Nil show ?case by (subst skip_token.simps) simp
next
  case (Cons c s)
  obtain q where q: "strchr d (sint c) m = Some q" "q \<noteq> 0 \<longleftrightarrow> c \<in> set ds \<or> c = 0" using strchr_found [OF d, of c] by auto
  have c: "m p = Some c" "c \<noteq> 0" "cstr m (Suc p) s" using Cons.prems by auto
  show ?case
  proof (cases "c \<in> set ds")
    case True
    with c q show ?thesis by (subst skip_token.simps) simp
  next
    case False
    with c q Cons.IH [OF c(3)] show ?thesis by (subst skip_token.simps) simp
  qed
qed

section \<open>Tokens\<close>

function tokens :: "u8 set \<Rightarrow> u8 list \<Rightarrow> u8 list list" where
  "tokens D s = (let s' = dropWhile (\<lambda>c. c \<in> D) s in
     if s' = [] then [] else takeWhile (\<lambda>c. c \<notin> D) s' # tokens D (dropWhile (\<lambda>c. c \<notin> D) s'))"
  by pat_completeness auto
termination
proof (relation "measure (\<lambda>(D, s). length s)", goal_cases)
  case (2 D s x)
  then obtain c r where c: "dropWhile (\<lambda>c. c \<in> D) s = c # r" by (cases "dropWhile (\<lambda>c. c \<in> D) s") auto
  then have "c \<notin> D" using hd_dropWhile [of "\<lambda>c. c \<in> D" s] by simp
  then have "length (dropWhile (\<lambda>c. c \<notin> D) x) \<le> length r" using 2 c by (simp add: length_dropWhile_le)
  moreover have "length (c # r) \<le> length s" using c length_dropWhile_le by metis
  ultimately show ?case by simp
qed simp

declare tokens.simps [simp del]

lemma tokens_skip: "c \<in> D \<Longrightarrow> tokens D (c # r) = tokens D r"
  by (subst tokens.simps, subst (2) tokens.simps) simp

lemma tokens_Nil [simp]: "tokens D [] = []"
  by (simp add: tokens.simps)

text \<open>The loop of the example in the comment of \<open>strtok_r\<close>.\<close>

partial_function (option) tokenize :: "nat \<Rightarrow> nat \<Rightarrow> nat \<Rightarrow> mem \<Rightarrow> (mem \<times> nat list) option" where
  "tokenize s delimiters save_ptr m = do {
     (m, save_ptr, token) \<leftarrow> strtok_r s delimiters save_ptr m;
     if token = 0 then Some (m, [])
     else do {
       (m, toks) \<leftarrow> tokenize 0 delimiters save_ptr m;
       Some (m, token # toks) } }"

lemma strtok_r_end:
  assumes "cstr m d ds" "d \<noteq> 0" "cstr m p s" "p \<noteq> 0" "q = p \<or> q = 0 \<and> sp = p" "dropWhile (\<lambda>c. c \<in> set ds) s = []"
  shows "strtok_r q d sp m = Some (m, p + length s, 0)"
proof -
  have "takeWhile (\<lambda>c. c \<in> set ds) s = s" using assms(6) by (metis append_Nil2 takeWhile_dropWhile_id)
  with skip_delims_cstr [OF assms(1-3)] assms show ?thesis by (auto simp: strtok_r_def)
qed

lemma strtok_r_token:
  assumes d: "cstr m d ds" "d \<noteq> 0" and p: "cstr m p s" "p \<noteq> 0" "q = p \<or> q = 0 \<and> sp = p"
    and s': "dropWhile (\<lambda>c. c \<in> set ds) s = s'" "s' \<noteq> []"
  shows "\<exists>m' sp' rest. strtok_r q d sp m = Some (m', sp', p + (length s - length s')) \<and>
    cstr m' (p + (length s - length s')) (takeWhile (\<lambda>c. c \<notin> set ds) s') \<and> cstr m' sp' rest \<and> sp' \<noteq> 0 \<and>
    tokens (set ds) rest = tokens (set ds) (dropWhile (\<lambda>c. c \<notin> set ds) s') \<and>
    p + (length s - length s') + length (takeWhile (\<lambda>c. c \<notin> set ds) s') \<le> sp' \<and>
    sp' + length rest = p + length s \<and> length rest < length s \<and> unchanged m m' p (length s + 1) \<and>
    (rest \<noteq> [] \<longrightarrow> p + (length s - length s') + length (takeWhile (\<lambda>c. c \<notin> set ds) s') < sp')"
proof -
  define k where "k = p + (length s - length s')"
  define t where "t = takeWhile (\<lambda>c. c \<notin> set ds) s'"
  define u where "u = dropWhile (\<lambda>c. c \<notin> set ds) s'"
  have sp: "s = takeWhile (\<lambda>c. c \<in> set ds) s @ s'" unfolding s'(1) [symmetric] by simp
  have len: "length (takeWhile (\<lambda>c. c \<in> set ds) s) = length s - length s'" using arg_cong [OF sp, of length] by simp
  have ls: "length s' \<le> length s" using arg_cong [OF sp, of length] by simp
  have ck: "cstr m k s'" using cstr_drop [of m p "takeWhile (\<lambda>c. c \<in> set ds) s" s'] p(1) sp len by (simp add: k_def)
  have tu: "s' = t @ u" by (simp add: t_def u_def)
  have t1: "t \<noteq> []"
  proof -
    obtain c r where c: "s' = c # r" using s'(2) by (cases s') auto
    then have "c \<notin> set ds" using hd_dropWhile [of "\<lambda>c. c \<in> set ds" s] s' by simp
    then show ?thesis by (simp add: t_def c)
  qed
  have cu: "cstr m (k + length t) u" using cstr_drop [of m k t u] ck tu by simp
  have body: "strtok_r q d sp m = do {
       c \<leftarrow> m (k + length t);
       if c \<noteq> 0 then do {
         m \<leftarrow> store m (k + length t) 0;
         Some (m, k + length t + 1, k) }
       else Some (m, k + length t, k) }"
  proof -
    have "skip_delims m d p = Some (k, False)" using skip_delims_cstr [OF d p(1)] s' len by (simp add: k_def)
    moreover have "skip_token m d k = Some (k + length t)" using skip_token_cstr [OF d ck] by (simp add: t_def)
    moreover have "(if q = 0 then sp else q) = p" using p(2,3) by auto
    ultimately show ?thesis using p(2) d(2) by (simp add: strtok_r_def Let_def)
  qed
  have ltu: "length s' = length t + length u" using tu by simp
  show ?thesis
  proof (cases u)
    case Nil
    then have "strtok_r q d sp m = Some (m, k + length t, k)" using body cu by simp
    moreover have "cstr m k t" "cstr m (k + length t) []" using ck tu Nil cu by auto
    moreover have "k + length t = p + length s" using ltu Nil ls by (simp add: k_def)
    moreover have "0 < length s" "k + length t \<noteq> 0" using t1 ltu ls p(2) by (auto simp: k_def)
    ultimately show ?thesis unfolding t_def [symmetric] u_def [symmetric] k_def [symmetric] Nil
      by (intro exI [of _ m] exI [of _ "k + length t"] exI [of _ "[] :: u8 list"]) (auto simp: unchanged_def)
  next
    case (Cons c r)
    have c: "m (k + length t) = Some c" "c \<noteq> 0" "cstr m (Suc (k + length t)) r" using cu Cons by auto
    have "c \<in> set ds" using hd_dropWhile [of "\<lambda>c. c \<notin> set ds" s'] Cons unfolding u_def by (metis list.discI list.sel(1))
    then have tk: "tokens (set ds) r = tokens (set ds) (c # r)" by (simp add: tokens_skip)
    let ?m = "m(k + length t \<mapsto> 0)"
    have st: "strtok_r q d sp m = Some (?m, Suc (k + length t), k)" using body c by (simp add: store_def)
    have ct: "cstr ?m k t"
    proof -
      have "bytes_at m k (t @ u)" "0 \<notin> set t" using ck tu by (auto simp: cstr_def block_append)
      then have "bytes_at m k t" by (simp add: block_append)
      then have "bytes_at ?m k t" by (rule block_cong) simp
      then show ?thesis using \<open>0 \<notin> set t\<close> by (simp add: cstr_def block_append)
    qed
    have cr: "cstr ?m (Suc (k + length t)) r" by (rule cstr_cong [OF c(3)]) simp
    have "Suc (k + length t) + length r = p + length s" using ltu Cons ls by (simp add: k_def)
    moreover have "length r < length s" using ltu Cons ls by simp
    moreover have "unchanged m ?m p (length s + 1)" using ltu Cons ls by (auto simp: unchanged_def k_def)
    ultimately show ?thesis unfolding t_def [symmetric] u_def [symmetric] k_def [symmetric] Cons
      using st ct cr tk by (intro exI [of _ ?m] exI [of _ "Suc (k + length t)"] exI [of _ r]) auto
  qed
qed

lemma tokenize_ok:
  assumes "cstr m d ds" "d \<noteq> 0" "cstr m p s" "p \<noteq> 0" "q = p \<or> q = 0 \<and> sp = p" "d + length ds < p \<or> p + length s < d"
  shows "\<exists>m' toks. tokenize q d sp m = Some (m', toks) \<and> unchanged m m' p (length s + 1) \<and>
    list_all2 (\<lambda>a t. p \<le> a \<and> cstr m' a t) toks (tokens (set ds) s)"
  using assms
proof (induction "length s" arbitrary: s m p q sp rule: less_induct)
  case less
  define s' where "s' = dropWhile (\<lambda>c. c \<in> set ds) s"
  show ?case
  proof (cases "s' = []")
    case True
    then have "strtok_r q d sp m = Some (m, p + length s, 0)"
      using strtok_r_end [OF less.prems(1-5)] by (simp add: s'_def)
    then have "tokenize q d sp m = Some (m, [])" by (subst tokenize.simps) simp
    moreover have "tokens (set ds) s = []" using True by (subst tokens.simps) (simp add: s'_def)
    ultimately show ?thesis by (simp add: unchanged_def)
  next
    case False
    define k where "k = p + (length s - length s')"
    define t where "t = takeWhile (\<lambda>c. c \<notin> set ds) s'"
    obtain m1 sp1 rest where st: "strtok_r q d sp m = Some (m1, sp1, k)"
      and t: "cstr m1 k t" and r: "cstr m1 sp1 rest" "sp1 \<noteq> 0"
      and tk: "tokens (set ds) rest = tokens (set ds) (dropWhile (\<lambda>c. c \<notin> set ds) s')"
      and b: "k + length t \<le> sp1" "sp1 + length rest = p + length s" "length rest < length s"
        "unchanged m m1 p (length s + 1)" "rest \<noteq> [] \<longrightarrow> k + length t < sp1"
      using strtok_r_token [OF less.prems(1-5) s'_def [symmetric] False] unfolding k_def t_def by blast
    have k: "p \<le> k" "k \<noteq> 0" using less.prems(4) by (auto simp: k_def)
    have d1: "cstr m1 d ds"
      by (rule cstr_cong [OF less.prems(1)]) (use b(4) less.prems(6) in \<open>auto simp: unchanged_def\<close>)
    have dis: "d + length ds < sp1 \<or> sp1 + length rest < d" using less.prems(6) b k by auto
    obtain m2 toks where m2: "tokenize 0 d sp1 m1 = Some (m2, toks)" "unchanged m1 m2 sp1 (length rest + 1)"
        "list_all2 (\<lambda>a t. sp1 \<le> a \<and> cstr m2 a t) toks (tokens (set ds) rest)"
      using less.hyps [OF b(3) d1 less.prems(2) r(1) r(2) _ dis] by blast
    have e: "tokenize q d sp m = Some (m2, k # toks)" using st m2(1) k by (subst tokenize.simps) simp
    have "cstr m2 k t"
    proof (cases "rest = []")
      case True
      then have "tokens (set ds) rest = []" "toks = []" using m2(3) by auto
      have "strtok_r 0 d sp1 m1 = Some (m1, sp1 + length rest, 0)"
        by (rule strtok_r_end [OF d1 less.prems(2) r]) (simp_all add: True)
      then have "tokenize 0 d sp1 m1 = Some (m1, [])" by (subst tokenize.simps) simp
      with m2(1) t show ?thesis by simp
    next
      case False
      show ?thesis by (rule cstr_cong [OF t]) (use m2(2) b(5) False in \<open>auto simp: unchanged_def\<close>)
    qed
    moreover have "tokens (set ds) s = t # tokens (set ds) rest"
      using False by (subst tokens.simps) (simp add: s'_def [symmetric] t_def tk Let_def)
    moreover have "list_all2 (\<lambda>a t. p \<le> a \<and> cstr m2 a t) toks (tokens (set ds) rest)"
      by (rule list_all2_mono [OF m2(3)]) (use b(1) k(1) in auto)
    moreover have "unchanged m m2 p (length s + 1)" using b m2(2) k by (auto simp: unchanged_def)
    ultimately show ?thesis using e k(1) by simp
  qed
qed

section \<open>Comparison\<close>

text \<open>The comparison of strings by their bytes, the terminator being less than every character.\<close>

fun lex_cmp :: "u8 list \<Rightarrow> u8 list \<Rightarrow> int" where
  "lex_cmp [] [] = 0"
| "lex_cmp [] (y # ys) = -1"
| "lex_cmp (x # xs) [] = 1"
| "lex_cmp (x # xs) (y # ys) = (if x < y then -1 else if y < x then 1 else lex_cmp xs ys)"

lemma strcmp_loop_cstr:
  assumes "cstr m a s" "cstr m b t"
  shows "strcmp_loop m a b = Some (lex_cmp s t)"
  using assms
proof (induction s t arbitrary: a b rule: lex_cmp.induct)
  case (4 x xs y ys)
  then show ?case by (subst strcmp_loop.simps) auto
qed (subst strcmp_loop.simps, auto simp: word_gt_0)+

lemma lex_cmp_0: "lex_cmp s t = 0 \<longleftrightarrow> s = t"
  by (induction s t rule: lex_cmp.induct) auto

lemma lex_cmp_sym: "lex_cmp s t = - lex_cmp t s"
  by (induction s t rule: lex_cmp.induct) auto

lemma lex_cmp_trans: "lex_cmp s t < 0 \<Longrightarrow> lex_cmp t u < 0 \<Longrightarrow> lex_cmp s u < 0"
proof (induction s u arbitrary: t rule: lex_cmp.induct)
  case (1 t)
  then show ?case by (cases t) auto
next
  case (3 x xs t)
  then show ?case by (cases t) auto
next
  case (4 x xs y ys t)
  then show ?case by (cases t) (auto split: if_splits)
qed simp

section \<open>Searching\<close>

lemma memcmp_loop_block:
  assumes "bytes_at m a s" "bytes_at m b t" "length s = length t"
  shows "memcmp_loop a b (length s) m = Some (lex_cmp s t)"
  using assms(3,1,2)
  by (induction s t arbitrary: a b rule: list_induct2) auto

lemma strstr_loop_ok:
  assumes h: "cstr m a s" "a \<noteq> 0" and n: "cstr m b t" "b \<noteq> 0" and i: "i + k = length s - length t + 1" "length t \<le> length s"
  shows "strstr_loop a b (length t) i k m =
    Some (case find (\<lambda>j. take (length t) (drop j s) = t) [i ..< i + k] of None \<Rightarrow> 0 | Some j \<Rightarrow> a + j)"
  using i
proof (induction k arbitrary: i)
  case 0
  then show ?case by simp
next
  case (Suc k)
  have li: "i + length t \<le> length s" using Suc.prems by linarith
  have "bytes_at m a s" using h by (simp add: cstr_def block_append)
  then have "bytes_at m a (take i s @ drop i s)" by simp
  then have "bytes_at m (a + i) (drop i s)" using li by (simp add: block_append del: append_take_drop_id)
  then have "bytes_at m (a + i) (take (length t) (drop i s) @ drop (length t) (drop i s))" by (simp only: append_take_drop_id)
  then have blk: "bytes_at m (a + i) (take (length t) (drop i s))" by (simp add: block_append del: append_take_drop_id)
  have len: "length (take (length t) (drop i s)) = length t" using li by simp
  have "bytes_at m b t" using n by (simp add: cstr_def block_append)
  from memcmp_loop_block [OF blk this len] len h(2) n(2)
  have c: "memcmp (a + i) b (length t) m = Some (lex_cmp (take (length t) (drop i s)) t)" by (simp add: memcmp_def)
  have r: "[i ..< i + Suc k] = i # [Suc i ..< Suc i + k]" by (simp add: upt_rec)
  show ?case using Suc.IH [of "Suc i"] Suc.prems c unfolding r by (simp add: lex_cmp_0)
qed

section \<open>Properties\<close>

text \<open>C30: \<open>memmove\<close> is correct on overlapping blocks in both directions: the destination ends up with
  the old contents of the source and nothing else changes. The pointer it returns is the
  destination only when the copy runs downwards; when it runs upwards it is the end of the
  destination, although the comment promises the destination.\<close>

theorem memmove_correct:
  assumes "bytes_at m src bs" "writable m dst (length bs)" "src \<noteq> 0" "dst \<noteq> 0"
  shows "\<exists>m'. memmove dst src (length bs) m = Some (m', if dst < src then dst + length bs else dst) \<and>
    bytes_at m' dst bs \<and> unchanged m m' dst (length bs)"
proof (cases "dst < src")
  case True
  with copy_up_ok [OF assms(1,2)] assms(3,4) show ?thesis by (auto simp: memmove_def)
next
  case False
  with copy_down_ok [OF assms(1,2)] assms(3,4) show ?thesis by (auto simp: memmove_def)
qed

definition example_mem :: mem where
  "example_mem a = (if 10 \<le> a \<and> a < 30 then Some (word_of_nat (a - 9)) else if 30 \<le> a \<and> a < 40 then Some 0 else None)"

theorem memmove_correct_witness:
  "\<exists>m'. memmove 11 10 3 example_mem = Some (m', 11) \<and> bytes_at m' 11 [1, 2, 3]"
  using memmove_correct [of example_mem 10 "[1, 2, 3]" 11]
  by (auto simp: example_mem_def writable_def less_Suc_eq numeral_3_eq_3)

text \<open>C18: Tokenizing. The loop over \<open>strtok_r\<close> ends and yields, in order, pointers to strings
  that are exactly the maximal delimiter-free parts of the original string; it writes only
  inside that string.\<close>

theorem strtok_r_tokens:
  assumes "cstr m s str" "s \<noteq> 0" "cstr m d ds" "d \<noteq> 0" "d + length ds < s \<or> s + length str < d"
  shows "\<exists>m' toks. tokenize s d sp m = Some (m', toks) \<and> list_all2 (cstr m') toks (tokens (set ds) str) \<and>
    unchanged m m' s (length str + 1)"
proof -
  obtain m' toks where "tokenize s d sp m = Some (m', toks)" "unchanged m m' s (length str + 1)"
      "list_all2 (\<lambda>a t. s \<le> a \<and> cstr m' a t) toks (tokens (set ds) str)"
    using tokenize_ok [OF assms(3,4,1,2) _ assms(5), of s sp] by blast
  moreover from this(3) have "list_all2 (cstr m') toks (tokens (set ds) str)" by (rule list_all2_mono) simp
  ultimately show ?thesis by blast
qed

theorem strtok_r_tokens_witness:
  "\<exists>m' toks. tokenize 10 38 0 example_mem = Some (m', toks) \<and> list_all2 (cstr m') toks [map word_of_nat [1 ..< 21]]"
proof -
  have s: "cstr example_mem 10 (map word_of_nat [1 ..< 21])"
    by (auto simp: cstr_def bytes_at_def example_mem_def nth_append less_Suc_eq_le word_of_nat_eq_0_iff
        dest!: dvd_imp_le)
  have t: "tokens (set []) (map word_of_nat [1 ..< 21]) = [map word_of_nat [1 ..< 21]]"
    by (subst tokens.simps) (simp add: upt_rec)
  from strtok_r_tokens [OF s, of 38 "[]" 0] t show ?thesis by (auto simp: example_mem_def)
qed

text \<open>C31: \<open>strlcpy\<close> never writes more than \<open>size\<close> bytes, always leaves a terminated string in a
  non-empty destination, namely the longest prefix of the source that fits, and returns the length of
  the source.\<close>

theorem strlcpy_bounded:
  assumes "cstr m src s" "src \<noteq> 0" "dst \<noteq> 0" "writable m dst (min sz (length s + 1))"
    "dst + sz \<le> src \<or> src + length s < dst"
  shows "\<exists>m'. strlcpy dst src sz m = Some (m', length s) \<and> unchanged m m' dst sz \<and>
    (0 < sz \<longrightarrow> cstr m' dst (take (sz - 1) s))"
proof (cases "0 < sz")
  case True
  define n where "n = min (length s) (sz - 1)"
  have t: "take (sz - 1) s = take n s" "length (take n s) = n" "n < sz" "n \<le> length s" using True by (auto simp: n_def min_def)
  have "bytes_at m src s" "0 \<notin> set s" using assms(1) by (auto simp: cstr_def block_append)
  then have "bytes_at m src (take n s @ drop n s)" by simp
  then have b: "bytes_at m src (take n s)" by (simp add: block_append del: append_take_drop_id)
  have "writable m dst n" using assms(4) t(3,4) by (auto simp: writable_def)
  then obtain m1 where m1: "memcpy dst src n m = Some (m1, dst)" "bytes_at m1 dst (take n s)" "unchanged m m1 dst n"
    using memcpy_ok [OF b, of dst] t(2,3,4) assms(2,3,5) by force
  let ?m = "m1(dst + n \<mapsto> 0)"
  have w: "m1 (dst + n) \<noteq> None"
    using m1(3) assms(4) t(3,4) by (auto simp: unchanged_def writable_def)
  have "strlcpy dst src sz m = Some (?m, length s)"
    using True strlen_cstr [OF assms(1,2)] assms(2,3) m1(1) w
    by (auto simp: strlcpy_def n_def min_def Let_def store_def)
  moreover have "unchanged m ?m dst sz" using m1(3) t(3) by (auto simp: unchanged_def)
  moreover have "bytes_at ?m dst (take n s)" by (rule block_cong [OF m1(2)]) (use t(2) in auto)
  then have "cstr ?m dst (take n s)" using \<open>0 \<notin> set s\<close> t(2) by (auto simp: cstr_def block_append dest: in_set_takeD)
  ultimately show ?thesis using t(1) by auto
next
  case False
  then show ?thesis using strlen_cstr [OF assms(1,2)] assms(2,3) by (auto simp: strlcpy_def unchanged_def)
qed

theorem strlcpy_bounded_witness:
  "\<exists>m'. strlcpy 31 28 8 example_mem = Some (m', 2) \<and> cstr m' 31 [19, 20]"
  using strlcpy_bounded [of example_mem 28 "[19, 20]" 31 8]
  by (auto simp: example_mem_def writable_def)

text \<open>\<open>strcmp\<close> returns and agrees with the lexicographic order on byte strings, a total order: it is
  zero exactly for equal strings and antisymmetric.\<close>

theorem strcmp_lexicographic:
  assumes "cstr m a s" "cstr m b t" "a \<noteq> 0" "b \<noteq> 0"
  shows "strcmp a b m = Some (lex_cmp s t) \<and> strcmp b a m = Some (- lex_cmp s t) \<and> (lex_cmp s t = 0 \<longleftrightarrow> s = t)"
  using assms by (simp add: strcmp_def strcmp_loop_cstr lex_cmp_0 lex_cmp_sym [of t s])

theorem strcmp_lexicographic_witness: "strcmp 28 29 example_mem = Some (-1)"
  using strcmp_lexicographic [of example_mem 28 "[19, 20]" 29 "[20]"] by (simp add: example_mem_def)

text \<open>\<open>strstr\<close> returns the first position at which the needle occurs in the haystack, and the null
  pointer exactly when there is none.\<close>

theorem strstr_first:
  assumes "cstr m a s" "cstr m b t" "a \<noteq> 0" "b \<noteq> 0"
  shows "strstr a b m = Some (if \<exists>j. j + length t \<le> length s \<and> take (length t) (drop j s) = t
      then a + (LEAST j. j + length t \<le> length s \<and> take (length t) (drop j s) = t) else 0)"
proof -
  let ?P = "\<lambda>j. take (length t) (drop j s) = t"
  have e: "strstr a b m = (if length t \<le> length s then strstr_loop a b (length t) 0 (length s - length t + 1) m else Some 0)"
    using strlen_cstr [OF assms(1,3)] strlen_cstr [OF assms(2,4)] by (simp add: strstr_def)
  show ?thesis
  proof (cases "length t \<le> length s")
    case True
    obtain N where N: "N = length s - length t + 1" by blast
    have l: "strstr_loop a b (length t) 0 N m = Some (case find ?P [0 ..< 0 + N] of None \<Rightarrow> 0 | Some j \<Rightarrow> a + j)"
      by (rule strstr_loop_ok [OF assms(1,3,2,4)]) (use True N in simp_all)
    have r: "j < N \<longleftrightarrow> j + length t \<le> length s" for j using True N by linarith
    have e': "strstr a b m = strstr_loop a b (length t) 0 N m" using e True N by simp
    show ?thesis
    proof (cases "find ?P [0 ..< N]")
      case None
      then have "\<not> (\<exists>j. j + length t \<le> length s \<and> ?P j)" using r by (auto simp: find_None_iff)
      moreover have "strstr a b m = Some 0" using e' l None by simp
      ultimately show ?thesis by (simp only: if_False)
    next
      case (Some j)
      then obtain i where i: "i < N" "?P i" "j = i" "\<forall>k < i. \<not> ?P k"
        by (auto simp: find_Some_iff)
      then have "(LEAST j. j + length t \<le> length s \<and> ?P j) = j"
        using r by (intro Least_equality) (auto simp: not_less [symmetric])
      moreover have "\<exists>j. j + length t \<le> length s \<and> ?P j" using i r by blast
      ultimately show ?thesis using e' l Some by simp
    qed
  qed (use e in auto)
qed

theorem strstr_first_witness: "strstr 28 29 example_mem = Some 29"
proof -
  have l: "(LEAST j. j + length [20 :: u8] \<le> length [19, 20 :: u8] \<and> take (length [20 :: u8]) (drop j [19, 20]) = [20 :: u8]) = 1"
    by (rule Least_equality) (auto simp: not_less_eq_eq gr0_conv_Suc split: nat.splits intro: ccontr)
  have "\<exists>j. j + length [20 :: u8] \<le> length [19, 20 :: u8] \<and> take (length [20 :: u8]) (drop j [19, 20]) = [20 :: u8]"
    by (intro exI [of _ 1]) simp
  with strstr_first [of example_mem 28 "[19, 20]" 29 "[20]"] l show ?thesis by (simp add: example_mem_def)
qed

end
