(* ===== verification/Stdlib.thy ===== *)
theory Stdlib
  imports Strings
begin

text \<open>
  \<^verbatim>\<open>lib/stdlib.c\<close> and \<^verbatim>\<open>lib/ctype.h\<close>: number parsing, heap sort and binary search. An array of \<open>cnt\<close> elements
  of \<open>size\<close> bytes is the list of its elements; indices in the heap are 1-based as in the source, and
  an index outside the array gives \<open>None\<close>. The comparison function is a parameter.
\<close>

section \<open>Characters\<close>

definition islower :: "int \<Rightarrow> bool" where "islower c \<longleftrightarrow> 97 \<le> c \<and> c \<le> 122"
definition isupper :: "int \<Rightarrow> bool" where "isupper c \<longleftrightarrow> 65 \<le> c \<and> c \<le> 90"
definition isalpha :: "int \<Rightarrow> bool" where "isalpha c \<longleftrightarrow> islower c \<or> isupper c"
definition isdigit :: "int \<Rightarrow> bool" where "isdigit c \<longleftrightarrow> 48 \<le> c \<and> c \<le> 57"
definition isalnum :: "int \<Rightarrow> bool" where "isalnum c \<longleftrightarrow> isalpha c \<or> isdigit c"
definition isxdigit :: "int \<Rightarrow> bool" where
  "isxdigit c \<longleftrightarrow> isdigit c \<or> 97 \<le> c \<and> c \<le> 102 \<or> 65 \<le> c \<and> c \<le> 70"
definition isspace :: "int \<Rightarrow> bool" where
  "isspace c \<longleftrightarrow> c = 32 \<or> c = 12 \<or> c = 10 \<or> c = 13 \<or> c = 9 \<or> c = 11"
definition isblank :: "int \<Rightarrow> bool" where "isblank c \<longleftrightarrow> c = 32 \<or> c = 9"
definition isgraph :: "int \<Rightarrow> bool" where "isgraph c \<longleftrightarrow> 32 < c \<and> c < 127"
definition isprint :: "int \<Rightarrow> bool" where "isprint c \<longleftrightarrow> 32 \<le> c \<and> c < 127"
definition iscntrl :: "int \<Rightarrow> bool" where "iscntrl c \<longleftrightarrow> 0 \<le> c \<and> c < 32 \<or> c = 127"
definition isascii :: "int \<Rightarrow> bool" where "isascii c \<longleftrightarrow> 0 \<le> c \<and> c < 128"
definition ispunct :: "int \<Rightarrow> bool" where "ispunct c \<longleftrightarrow> isprint c \<and> \<not> isalnum c \<and> \<not> isspace c"
definition tolower :: "int \<Rightarrow> int" where "tolower c = (if isupper c then c - 65 + 97 else c)"
definition toupper :: "int \<Rightarrow> int" where "toupper c = (if islower c then c - 97 + 65 else c)"

section \<open>Parsing integers\<close>

partial_function (option) skip_space :: "mem \<Rightarrow> nat \<Rightarrow> nat option" where
  "skip_space m s = do {
     c \<leftarrow> m s;
     if isspace (uint c) then skip_space m (s + 1) else Some s }"

partial_function (option) parse_digits :: "mem \<Rightarrow> nat \<Rightarrow> int \<Rightarrow> int option" where
  "parse_digits m s v = do {
     c \<leftarrow> m s;
     if isdigit (sint c) then do {
       a \<leftarrow> c_int (v * 10);
       v \<leftarrow> c_int (a - (sint c - 48));
       parse_digits m (s + 1) v }
     else Some v }"

definition atoi :: "nat \<Rightarrow> mem \<Rightarrow> int option" where
  "atoi s m = do {
     c_assert (s \<noteq> 0);
     s \<leftarrow> skip_space m s;
     c \<leftarrow> m s;
     let (s, negative) = (if c = 43 then (s + 1, False) else if c = 45 then (s + 1, True) else (s, False));
     v \<leftarrow> parse_digits m s 0;
     if \<not> negative then c_int (- v) else Some v }"

section \<open>Heap sort\<close>

type_synonym 'a cmp_func = "'a \<Rightarrow> 'a \<Rightarrow> int"

definition in_array :: "'a list \<Rightarrow> nat \<Rightarrow> bool" where
  "in_array array i \<longleftrightarrow> 1 \<le> i \<and> i \<le> length array"

definition do_swap :: "'a list \<Rightarrow> nat \<Rightarrow> nat \<Rightarrow> 'a list option" where
  "do_swap array a_idx b_idx = do {
     c_assert (in_array array a_idx);
     c_assert (in_array array b_idx);
     Some (array[a_idx - 1 := array ! (b_idx - 1), b_idx - 1 := array ! (a_idx - 1)]) }"

definition do_compare :: "'a cmp_func \<Rightarrow> 'a list \<Rightarrow> nat \<Rightarrow> nat \<Rightarrow> int option" where
  "do_compare compare array a_idx b_idx = do {
     c_assert (in_array array a_idx);
     c_assert (in_array array b_idx);
     Some (compare (array ! (a_idx - 1)) (array ! (b_idx - 1))) }"

definition heap_larger :: "'a cmp_func \<Rightarrow> 'a list \<Rightarrow> nat \<Rightarrow> nat \<Rightarrow> nat \<Rightarrow> nat option" where
  "heap_larger compare array child cnt mx =
     (if child \<le> cnt then do {
        c \<leftarrow> do_compare compare array child mx;
        Some (if 0 < c then child else mx) }
      else Some mx)"

text \<open>The indices of the children are computed in \<open>size_t\<close> and wrap around.\<close>

partial_function (option) heapify :: "'a cmp_func \<Rightarrow> 'a list \<Rightarrow> nat \<Rightarrow> nat \<Rightarrow> 'a list option" where
  "heapify compare array i cnt = do {
     mx \<leftarrow> heap_larger compare array ((2 * i) mod 2 ^ 32) cnt i;
     mx \<leftarrow> heap_larger compare array ((2 * i + 1) mod 2 ^ 32) cnt mx;
     if mx = i then Some array
     else do {
       array \<leftarrow> do_swap array i mx;
       heapify compare array mx cnt } }"

fun build_heap :: "'a cmp_func \<Rightarrow> nat \<Rightarrow> nat \<Rightarrow> 'a list \<Rightarrow> 'a list option" where
  "build_heap compare cnt 0 array = Some array"
| "build_heap compare cnt (Suc i) array = do {
     array \<leftarrow> heapify compare array (Suc i) cnt;
     build_heap compare cnt i array }"

fun sort_heap :: "'a cmp_func \<Rightarrow> nat \<Rightarrow> 'a list \<Rightarrow> 'a list option" where
  "sort_heap compare (Suc (Suc i)) array = do {
     array \<leftarrow> do_swap array 1 (Suc (Suc i));
     array \<leftarrow> heapify compare array 1 (Suc i);
     sort_heap compare (Suc i) array }"
| "sort_heap compare _ array = Some array"

definition sort_array :: "'a cmp_func \<Rightarrow> nat \<Rightarrow> 'a list \<Rightarrow> 'a list option" where
  "sort_array compare cnt array = do {
     array \<leftarrow> build_heap compare cnt (cnt div 2) array;
     sort_heap compare cnt array }"

definition qsort :: "'a cmp_func \<Rightarrow> nat \<Rightarrow> 'a list \<Rightarrow> 'a list option" where
  "qsort compare cnt array = sort_array compare cnt array"

section \<open>Binary search\<close>

text \<open>\<open>first\<close> and \<open>last\<close> are element indices; the result is the index of a match.\<close>

function binary_search_loop :: "'a cmp_func \<Rightarrow> 'a \<Rightarrow> 'a list \<Rightarrow> nat \<Rightarrow> nat \<Rightarrow> nat option option" where
  "binary_search_loop compare key array fi la =
     (if fi < la then do {
        let range = la - fi;
        let middle = fi + range div 2;
        c_assert (middle < length array);
        let cmp = compare key (array ! middle);
        if cmp < 0 then binary_search_loop compare key array fi middle
        else if 0 < cmp then binary_search_loop compare key array (middle + 1) la
        else Some (Some middle) }
      else Some None)"
  by pat_completeness auto
termination
  by (relation "measure (\<lambda>(compare, key, array, fi, la). la - fi)") (auto simp: Let_def)

declare binary_search_loop.simps [simp del]

definition binary_search :: "'a cmp_func \<Rightarrow> 'a \<Rightarrow> 'a list \<Rightarrow> nat \<Rightarrow> nat option option" where
  "binary_search compare key array cnt = binary_search_loop compare key array 0 cnt"

definition bsearch :: "'a cmp_func \<Rightarrow> 'a \<Rightarrow> 'a list \<Rightarrow> nat \<Rightarrow> nat option option" where
  "bsearch compare key array cnt = binary_search compare key array cnt"

section \<open>The contract of comparison functions\<close>

definition node_ok :: "'a cmp_func \<Rightarrow> 'a list \<Rightarrow> nat \<Rightarrow> nat \<Rightarrow> bool" where
  "node_ok cmp xs cnt j \<longleftrightarrow> (\<forall>c \<in> {2 * j, 2 * j + 1}. c \<le> cnt \<longrightarrow> cmp (xs ! (c - 1)) (xs ! (j - 1)) \<le> 0)"

definition heap_from :: "'a cmp_func \<Rightarrow> 'a list \<Rightarrow> nat \<Rightarrow> nat \<Rightarrow> bool" where
  "heap_from cmp xs lo cnt \<longleftrightarrow> (\<forall>j. lo \<le> j \<and> 1 \<le> j \<longrightarrow> node_ok cmp xs cnt j)"

locale cmp_order =
  fixes cmp :: "'a cmp_func"
  assumes cmp_sym: "0 < cmp a b \<longleftrightarrow> cmp b a < 0"
    and cmp_trans: "cmp a b \<le> 0 \<Longrightarrow> cmp b c \<le> 0 \<Longrightarrow> cmp a c \<le> 0"
begin

lemma cmp_refl: "cmp a a \<le> 0"
  using cmp_sym [of a a] by force

lemma cmp_total: "\<not> cmp a b \<le> 0 \<Longrightarrow> cmp b a \<le> 0"
  using cmp_sym [of a b] by force

lemma heap_larger_ok:
  assumes "in_array xs mx" "cnt \<le> length xs" "1 \<le> child"
  shows "\<exists>mx'. heap_larger cmp xs child cnt mx = Some mx' \<and> (mx' = mx \<or> mx' = child \<and> child \<le> cnt) \<and>
    cmp (xs ! (mx - 1)) (xs ! (mx' - 1)) \<le> 0 \<and> (child \<le> cnt \<longrightarrow> cmp (xs ! (child - 1)) (xs ! (mx' - 1)) \<le> 0)"
proof (cases "child \<le> cnt \<and> 0 < cmp (xs ! (child - 1)) (xs ! (mx - 1))")
  case True
  then have "in_array xs child" using assms by (simp add: in_array_def)
  with True assms show ?thesis using cmp_sym [of "xs ! (child - 1)" "xs ! (mx - 1)"]
    by (auto simp: heap_larger_def do_compare_def cmp_refl)
next
  case False
  then show ?thesis using assms by (auto simp: heap_larger_def do_compare_def cmp_refl in_array_def)
qed

lemma heapify_ok:
  assumes "1 \<le> lo" "lo \<le> i" "i \<le> cnt" "cnt \<le> length xs" "length xs < 2 ^ 31"
    "\<And>j. lo \<le> j \<Longrightarrow> j \<noteq> i \<Longrightarrow> node_ok cmp xs cnt j"
    "\<And>c. lo \<le> i div 2 \<Longrightarrow> c \<in> {2 * i, 2 * i + 1} \<Longrightarrow> c \<le> cnt \<Longrightarrow> cmp (xs ! (c - 1)) (xs ! (i div 2 - 1)) \<le> 0"
  shows "\<exists>ys. heapify cmp xs i cnt = Some ys \<and> heap_from cmp ys lo cnt \<and> mset ys = mset xs \<and> length ys = length xs \<and>
    (\<forall>k. cnt \<le> k \<longrightarrow> k < length xs \<longrightarrow> ys ! k = xs ! k)"
  using assms
proof (induction "cnt - i" arbitrary: xs i rule: less_induct)
  case less
  note p = less.prems
  have ia: "in_array xs i" using p by (simp add: in_array_def)
  have w: "(2 * i) mod 2 ^ 32 = 2 * i" "(2 * i + 1) mod 2 ^ 32 = 2 * i + 1" using p(3-5) by simp_all
  obtain m1 where m1: "heap_larger cmp xs (2 * i) cnt i = Some m1" "m1 = i \<or> m1 = 2 * i \<and> 2 * i \<le> cnt"
      "cmp (xs ! (i - 1)) (xs ! (m1 - 1)) \<le> 0" "2 * i \<le> cnt \<longrightarrow> cmp (xs ! (2 * i - 1)) (xs ! (m1 - 1)) \<le> 0"
    using heap_larger_ok [OF ia p(4), of "2 * i"] p by auto
  have ma: "in_array xs m1" using m1(2) p ia by (auto simp: in_array_def)
  obtain mx where mx: "heap_larger cmp xs (2 * i + 1) cnt m1 = Some mx" "mx = m1 \<or> mx = 2 * i + 1 \<and> 2 * i + 1 \<le> cnt"
      "cmp (xs ! (m1 - 1)) (xs ! (mx - 1)) \<le> 0" "2 * i + 1 \<le> cnt \<longrightarrow> cmp (xs ! (2 * i + 1 - 1)) (xs ! (mx - 1)) \<le> 0"
    using heap_larger_ok [OF ma p(4), of "2 * i + 1"] p by auto
  have top: "cmp (xs ! (i - 1)) (xs ! (mx - 1)) \<le> 0" using cmp_trans m1(3) mx(3) by blast
  have ch: "cmp (xs ! (c - 1)) (xs ! (mx - 1)) \<le> 0" if "c \<in> {2 * i, 2 * i + 1}" "c \<le> cnt" for c
    using that m1(4) mx(3,4) cmp_trans by blast
  show ?case
  proof (cases "mx = i")
    case True
    then have "heapify cmp xs i cnt = Some xs" using m1(1) mx(1) unfolding heapify.simps [of cmp xs i] w by simp
    moreover have "node_ok cmp xs cnt i" unfolding node_ok_def using ch True by blast
    then have "heap_from cmp xs lo cnt" unfolding heap_from_def using p(6) by blast
    ultimately show ?thesis by simp
  next
    case False
    then have mxc: "mx \<in> {2 * i, 2 * i + 1}" "mx \<le> cnt" "i < mx" using m1(2) mx(2) p(1,2) by auto
    define ys where "ys = xs[i - 1 := xs ! (mx - 1), mx - 1 := xs ! (i - 1)]"
    have li: "i - 1 < length xs" "mx - 1 < length xs" "i - 1 \<noteq> mx - 1" using p mxc by auto
    have ln: "length ys = length xs" by (simp add: ys_def)
    have y: "ys ! (i - 1) = xs ! (mx - 1)" "ys ! (mx - 1) = xs ! (i - 1)"
      "\<And>k. k \<noteq> i - 1 \<Longrightarrow> k \<noteq> mx - 1 \<Longrightarrow> ys ! k = xs ! k"
      using li by (auto simp: ys_def nth_list_update)
    have mm: "mset ys = mset xs" using li unfolding ys_def by (simp add: mset_swap)
    have sw: "do_swap xs i mx = Some ys" using p mxc by (simp add: do_swap_def in_array_def ys_def)
    have e: "heapify cmp xs i cnt = heapify cmp ys mx cnt"
      using m1(1) mx(1) False sw unfolding heapify.simps [of cmp xs i] w by simp
    have up: "cmp (ys ! (i - 1)) (ys ! (i div 2 - 1)) \<le> 0" if "lo \<le> i div 2"
    proof -
      have "i div 2 - 1 \<noteq> i - 1" "i div 2 - 1 \<noteq> mx - 1" using that p mxc by auto
      then show ?thesis using p(7) [OF that mxc(1,2)] y by simp
    qed
    have nodes: "node_ok cmp ys cnt j" if j: "lo \<le> j" "j \<noteq> mx" for j
    proof (cases "j = i")
      case True
      show ?thesis unfolding node_ok_def True
      proof (intro ballI impI)
        fix c assume c: "c \<in> {2 * i, 2 * i + 1}" "c \<le> cnt"
        show "cmp (ys ! (c - 1)) (ys ! (i - 1)) \<le> 0"
        proof (cases "c = mx")
          case True
          then show ?thesis using y top by simp
        next
          case False
          then have "c - 1 \<noteq> mx - 1" "c - 1 \<noteq> i - 1" using c p(1,2) mxc by auto
          then show ?thesis using y ch [OF c] by simp
        qed
      qed
    next
      case False
      have jn: "j - 1 \<noteq> i - 1" "j - 1 \<noteq> mx - 1" using False j p(1) mxc by auto
      have nj: "node_ok cmp xs cnt j" using p(6) [OF j(1) False] .
      show ?thesis unfolding node_ok_def
      proof (intro ballI impI)
        fix c assume c: "c \<in> {2 * j, 2 * j + 1}" "c \<le> cnt"
        have j0: "1 \<le> j" using j(1) p(1) by simp
        show "cmp (ys ! (c - 1)) (ys ! (j - 1)) \<le> 0"
        proof (cases "c = i")
          case True
          then have "j = i div 2" using c by auto
          then show ?thesis using up j(1) True by simp
        next
          case ci: False
          then have "c - 1 \<noteq> i - 1" using c j0 by auto
          moreover have "c \<noteq> mx"
          proof
            assume "c = mx"
            then have "j = i" using c mxc(1) by auto
            with False show False ..
          qed
          then have "c - 1 \<noteq> mx - 1" using c j0 mxc by auto
          moreover have "cmp (xs ! (c - 1)) (xs ! (j - 1)) \<le> 0" using nj c unfolding node_ok_def by blast
          ultimately show ?thesis using y jn by simp
        qed
      qed
    qed
    have par: "cmp (ys ! (c - 1)) (ys ! (mx div 2 - 1)) \<le> 0" if c: "c \<in> {2 * mx, 2 * mx + 1}" "c \<le> cnt" for c
    proof -
      have "mx div 2 = i" using mxc(1) by auto
      moreover have "c - 1 \<noteq> mx - 1" "c - 1 \<noteq> i - 1" using c mxc by auto
      moreover have "node_ok cmp xs cnt mx" using p(6) mxc p(2) by simp
      then have "cmp (xs ! (c - 1)) (xs ! (mx - 1)) \<le> 0" using c unfolding node_ok_def by blast
      ultimately show ?thesis using y by simp
    qed
    obtain zs where zs: "heapify cmp ys mx cnt = Some zs" "heap_from cmp zs lo cnt" "mset zs = mset ys" "length zs = length ys"
        "\<forall>k. cnt \<le> k \<longrightarrow> k < length ys \<longrightarrow> zs ! k = ys ! k"
      using less.hyps [of mx ys] mxc p(1-5) nodes par ln by force
    have "ys ! k = xs ! k" if "cnt \<le> k" for k using y(3) [of k] that mxc p by auto
    with zs e mm ln show ?thesis by simp
  qed
qed

lemma build_heap_ok:
  assumes "heap_from cmp xs (Suc i) cnt" "i \<le> cnt" "cnt \<le> length xs" "length xs < 2 ^ 31"
  shows "\<exists>ys. build_heap cmp cnt i xs = Some ys \<and> heap_from cmp ys 1 cnt \<and> mset ys = mset xs \<and> length ys = length xs \<and>
    (\<forall>k. cnt \<le> k \<longrightarrow> k < length xs \<longrightarrow> ys ! k = xs ! k)"
  using assms
proof (induction i arbitrary: xs)
  case 0
  then show ?case by simp
next
  case (Suc i)
  have n: "node_ok cmp xs cnt j" if "Suc i \<le> j" "j \<noteq> Suc i" for j
    using Suc.prems(1) that unfolding heap_from_def by simp
  have "\<exists>ys. heapify cmp xs (Suc i) cnt = Some ys \<and> heap_from cmp ys (Suc i) cnt \<and> mset ys = mset xs \<and>
      length ys = length xs \<and> (\<forall>k. cnt \<le> k \<longrightarrow> k < length xs \<longrightarrow> ys ! k = xs ! k)"
    by (rule heapify_ok [OF _ _ _ _ _ n]) (use Suc.prems(2-4) in auto)
  then obtain ys where ys: "heapify cmp xs (Suc i) cnt = Some ys" "heap_from cmp ys (Suc i) cnt" "mset ys = mset xs"
      "length ys = length xs" "\<forall>k. cnt \<le> k \<longrightarrow> k < length xs \<longrightarrow> ys ! k = xs ! k" by blast
  with Suc.IH [of ys] Suc.prems show ?case by auto
qed

lemma heap_top:
  assumes "heap_from cmp xs 1 cnt" "1 \<le> j" "j \<le> cnt"
  shows "cmp (xs ! (j - 1)) (xs ! 0) \<le> 0"
  using assms(2,3)
proof (induction j rule: less_induct)
  case (less j)
  show ?case
  proof (cases "j = 1")
    case True
    then show ?thesis by (simp add: cmp_refl)
  next
    case False
    then have d: "1 \<le> j div 2" "j div 2 < j" "j \<in> {2 * (j div 2), 2 * (j div 2) + 1}" using less.prems by auto
    have "node_ok cmp xs cnt (j div 2)" using assms(1) d(1) by (simp add: heap_from_def)
    then have "cmp (xs ! (j - 1)) (xs ! (j div 2 - 1)) \<le> 0" using d(3) less.prems unfolding node_ok_def by blast
    then show ?thesis using less.IH [OF d(2,1)] less.prems d(2) by (meson cmp_trans le_trans less_imp_le)
  qed
qed

text \<open>The state between two rounds of the second loop of \<open>sort\<close>.\<close>

lemma sort_heap_ok:
  assumes "heap_from cmp xs 1 i" "i \<le> length xs" "length xs < 2 ^ 31"
    "\<And>a b. a < b \<Longrightarrow> i \<le> b \<Longrightarrow> b < length xs \<Longrightarrow> cmp (xs ! a) (xs ! b) \<le> 0"
  shows "\<exists>ys. sort_heap cmp i xs = Some ys \<and> mset ys = mset xs \<and> length ys = length xs \<and>
    (\<forall>a b. a < b \<longrightarrow> b < length ys \<longrightarrow> cmp (ys ! a) (ys ! b) \<le> 0)"
  using assms
proof (induction i arbitrary: xs)
  case 0
  then show ?case by simp
next
  case (Suc i)
  note p = Suc.prems
  show ?case
  proof (cases i)
    case 0
    have "cmp (xs ! a) (xs ! b) \<le> 0" if "a < b" "b < length xs" for a b using p(4) [of a b] that 0 by simp
    then show ?thesis by (simp add: 0)
  next
    case (Suc k)
    define ys where "ys = xs[0 := xs ! i, i := xs ! 0]"
    have len: "length ys = length xs" "i < length xs" "0 < i" using p Suc by (auto simp: ys_def)
    have sw: "do_swap xs 1 (Suc i) = Some ys" using p by (simp add: do_swap_def in_array_def ys_def Suc)
    have "0 < length xs" using len by linarith
    then have y: "ys ! 0 = xs ! i" "ys ! i = xs ! 0" "\<And>j. j \<noteq> 0 \<Longrightarrow> j \<noteq> i \<Longrightarrow> ys ! j = xs ! j"
      using len by (simp_all add: ys_def nth_list_update)
    have my: "mset ys = mset xs" unfolding ys_def by (rule mset_swap) (use len in auto)
    have nodes: "node_ok cmp ys i j" if "1 \<le> j" "j \<noteq> 1" for j
    proof -
      have nj: "node_ok cmp xs (Suc i) j" using p(1) that by (simp add: heap_from_def)
      have "cmp (ys ! (c - 1)) (ys ! (j - 1)) \<le> 0" if c: "c \<in> {2 * j, 2 * j + 1}" "c \<le> i" for c
      proof -
        have "c - 1 \<noteq> 0" "c - 1 \<noteq> i" "j - 1 \<noteq> 0" "j - 1 \<noteq> i" using c \<open>1 \<le> j\<close> \<open>j \<noteq> 1\<close> by auto
        moreover have "c \<le> Suc i" using c by simp
        with nj c have "cmp (xs ! (c - 1)) (xs ! (j - 1)) \<le> 0" unfolding node_ok_def by blast
        ultimately show ?thesis using y by simp
      qed
      then show ?thesis unfolding node_ok_def by blast
    qed
    have "\<exists>zs. heapify cmp ys 1 i = Some zs \<and> heap_from cmp zs 1 i \<and> mset zs = mset ys \<and> length zs = length ys \<and>
        (\<forall>k. i \<le> k \<longrightarrow> k < length ys \<longrightarrow> zs ! k = ys ! k)"
      by (rule heapify_ok [OF _ _ _ _ _ nodes]) (use len p(3) in auto)
    then obtain zs where zs: "heapify cmp ys 1 i = Some zs" "heap_from cmp zs 1 i" "mset zs = mset ys" "length zs = length ys"
        "\<forall>k. i \<le> k \<longrightarrow> k < length ys \<longrightarrow> zs ! k = ys ! k" by blast
    have all: "cmp (xs ! a) (xs ! b) \<le> 0" if "a \<le> i" "i < b" "b < length xs" for a b using p(4) [of a b] that by simp
    have top: "cmp (xs ! a) (xs ! 0) \<le> 0" if "a \<le> i" for a using heap_top [OF p(1), of "Suc a"] that by simp
    have low: "\<exists>c \<le> i. zs ! a = xs ! c" if "a < i" for a
    proof -
      have dr: "drop i zs = drop i ys" using zs(4,5) by (intro nth_equalityI) auto
      have "mset (take i zs) + mset (drop i zs) = mset (take i ys) + mset (drop i ys)"
        using zs(3) by (metis append_take_drop_id mset_append)
      then have "mset (take i zs) = mset (take i ys)" using dr by simp
      then have "set (take i zs) = set (take i ys)" by (metis set_mset_mset)
      moreover have "zs ! a \<in> set (take i zs)" using that zs(4) len by (auto simp: in_set_conv_nth intro!: exI [of _ a])
      ultimately obtain c where "c < i" "zs ! a = ys ! c" by (auto simp: in_set_conv_nth)
      then show ?thesis using y len by (metis less_imp_le order_refl)
    qed
    have ord: "cmp (zs ! a) (zs ! b) \<le> 0" if ab: "a < b" "i \<le> b" "b < length zs" for a b
    proof -
      have zb: "zs ! b = ys ! b" using zs(4,5) ab by simp
      show ?thesis
      proof (cases "a < i")
        case True
        then obtain c where c: "c \<le> i" "zs ! a = xs ! c" using low by blast
        show ?thesis
        proof (cases "b = i")
          case True
          then show ?thesis using c top zb y by simp
        next
          case False
          then show ?thesis using c zb y(3) [of b] all [of c b] ab zs(4) len by simp
        qed
      next
        case False
        then have za: "zs ! a = ys ! a" using zs(4,5) ab by simp
        show ?thesis
        proof (cases "a = i")
          case True
          then show ?thesis using za zb y(2) y(3) [of b] all [of 0 b] ab zs(4) len by simp
        next
          case False
          then show ?thesis using za zb y(3) [of a] y(3) [of b] p(4) [of a b] ab \<open>\<not> a < i\<close> zs(4) len by simp
        qed
      qed
    qed
    obtain ws where "sort_heap cmp i zs = Some ws" "mset ws = mset zs" "length ws = length zs"
        "\<forall>a b. a < b \<longrightarrow> b < length ws \<longrightarrow> cmp (ws ! a) (ws ! b) \<le> 0"
      using Suc.IH [OF zs(2) _ _ ord] zs(4) len p(3) by auto
    then show ?thesis using sw zs my len by (simp add: Suc)
  qed
qed

lemma sort_array_ok:
  assumes "length xs < 2 ^ 31"
  shows "\<exists>ys. sort_array cmp (length xs) xs = Some ys \<and> mset ys = mset xs \<and> sorted_wrt (\<lambda>a b. cmp a b \<le> 0) ys"
proof -
  have "heap_from cmp xs (Suc (length xs div 2)) (length xs)" by (auto simp: heap_from_def node_ok_def)
  then obtain ys where ys: "build_heap cmp (length xs) (length xs div 2) xs = Some ys" "heap_from cmp ys 1 (length xs)"
      "mset ys = mset xs" "length ys = length xs"
    using build_heap_ok [OF _ _ _ assms] by force
  obtain zs where "sort_heap cmp (length xs) ys = Some zs" "mset zs = mset ys"
      "\<forall>a b. a < b \<longrightarrow> b < length zs \<longrightarrow> cmp (zs ! a) (zs ! b) \<le> 0"
    using sort_heap_ok [OF ys(2)] ys(4) assms by auto
  with ys show ?thesis by (auto simp: sort_array_def sorted_wrt_iff_nth_less)
qed

lemma binary_search_loop_ok:
  assumes "sorted_wrt (\<lambda>a b. cmp a b \<le> 0) xs" "la \<le> length xs"
    "\<And>j. j < fi \<Longrightarrow> 0 < cmp key (xs ! j)" "\<And>j. la \<le> j \<Longrightarrow> j < length xs \<Longrightarrow> cmp key (xs ! j) < 0"
  shows "\<exists>r. binary_search_loop cmp key xs fi la = Some r \<and>
    (case r of None \<Rightarrow> \<forall>j < length xs. cmp key (xs ! j) \<noteq> 0 | Some j \<Rightarrow> j < length xs \<and> cmp key (xs ! j) = 0)"
  using assms
proof (induction "la - fi" arbitrary: fi la rule: less_induct)
  case less
  note p = less.prems
  show ?case
  proof (cases "fi < la")
    case False
    then have "cmp key (xs ! j) \<noteq> 0" if "j < length xs" for j using p(3) [of j] p(4) [of j] that by (cases "j < fi") auto
    then show ?thesis using False by (auto simp: binary_search_loop.simps)
  next
    case True
    define mid where "mid = fi + (la - fi) div 2"
    have mid: "fi \<le> mid" "mid < la" "mid < length xs" using True p(2) by (auto simp: mid_def)
    have le: "cmp (xs ! a) (xs ! b) \<le> 0" if "a \<le> b" "b < length xs" for a b
      using p(1) that by (cases "a = b") (auto simp: sorted_wrt_iff_nth_less cmp_refl)
    have e: "binary_search_loop cmp key xs fi la =
        (if cmp key (xs ! mid) < 0 then binary_search_loop cmp key xs fi mid
         else if 0 < cmp key (xs ! mid) then binary_search_loop cmp key xs (mid + 1) la else Some (Some mid))"
      using True mid by (subst binary_search_loop.simps) (simp add: mid_def Let_def)
    consider "cmp key (xs ! mid) < 0" | "0 < cmp key (xs ! mid)" | "cmp key (xs ! mid) = 0" by linarith
    then show ?thesis
    proof cases
      case 1
      have "cmp key (xs ! j) < 0" if "mid \<le> j" "j < length xs" for j
      proof (rule ccontr)
        assume "\<not> ?thesis"
        then have "cmp (xs ! j) key \<le> 0" using cmp_sym [of "xs ! j" key] by force
        then have "cmp (xs ! mid) key \<le> 0" using le [OF that] cmp_trans by blast
        with 1 cmp_sym [of "xs ! mid" key] show False by force
      qed
      with less.hyps [of mid fi] p mid 1 e show ?thesis by simp
    next
      case 2
      have "0 < cmp key (xs ! j)" if "j < mid + 1" for j
      proof (rule ccontr)
        assume "\<not> ?thesis"
        moreover have "cmp (xs ! j) (xs ! mid) \<le> 0" using le [of j mid] that mid by simp
        ultimately have "cmp key (xs ! mid) \<le> 0" using cmp_trans [of key "xs ! j" "xs ! mid"] by simp
        with 2 show False by simp
      qed
      moreover have "binary_search_loop cmp key xs fi la = binary_search_loop cmp key xs (mid + 1) la" using e 2 by simp
      ultimately show ?thesis using less.hyps [of la "mid + 1"] p(1,2,4) mid by simp
    next
      case 3
      then show ?thesis using e mid by simp
    qed
  qed
qed

end

interpretation string_cmp: cmp_order lex_cmp
proof
  fix a b c :: "u8 list"
  show "0 < lex_cmp a b \<longleftrightarrow> lex_cmp b a < 0" using lex_cmp_sym [of a b] by simp
  show "lex_cmp a b \<le> 0 \<Longrightarrow> lex_cmp b c \<le> 0 \<Longrightarrow> lex_cmp a c \<le> 0"
    using lex_cmp_trans [of a b c] lex_cmp_0 [of a b] lex_cmp_0 [of b c] by (metis less_le)
qed

section \<open>Decimal numbers\<close>

fun dec :: "nat \<Rightarrow> u8 list" where
  "dec n = (if n < 10 then [] else dec (n div 10)) @ [48 + word_of_nat (n mod 10)]"

declare dec.simps [simp del]

definition int_str :: "int \<Rightarrow> u8 list" where
  "int_str i = (if i < 0 then 45 # dec (nat (- i)) else dec (nat i))"

definition digits_val :: "int \<Rightarrow> u8 list \<Rightarrow> int" where
  "digits_val v ds = foldl (\<lambda>v c. v * 10 - (sint c - 48)) v ds"

lemma sint_digit: "d < 10 \<Longrightarrow> sint (48 + word_of_nat d :: u8) = 48 + int d"
proof -
  assume d: "d < 10"
  have "sint (48 + word_of_nat d :: u8) = sint (word_of_int (48 + int d) :: u8)" by simp
  also have "\<dots> = signed_take_bit 7 (48 + int d)" by (simp only: signed_of_int) simp
  also have "\<dots> = 48 + int d" by (rule signed_take_bit_int_eq_self) (use d in auto)
  finally show ?thesis .
qed

lemma dec_digits: "c \<in> set (dec n) \<Longrightarrow> isdigit (sint c)"
proof (induction n rule: dec.induct)
  case (1 n)
  from 1(2) consider "\<not> n < 10" "c \<in> set (dec (n div 10))" | "c = 48 + word_of_nat (n mod 10)"
    unfolding dec.simps [of n] by (auto split: if_splits)
  then show ?case
  proof cases
    case 1
    then show ?thesis using \<open>\<not> n < 10 \<Longrightarrow> c \<in> set (dec (n div 10)) \<Longrightarrow> isdigit (sint c)\<close> by blast
  next
    case 2
    then show ?thesis by (simp add: sint_digit isdigit_def)
  qed
qed

lemma digits_val_dec: "digits_val 0 (dec n) = - int n"
proof (induction n rule: dec.induct)
  case (1 n)
  have "digits_val 0 (dec n) = (if n < 10 then 0 else digits_val 0 (dec (n div 10))) * 10 - int (n mod 10)"
    by (subst dec.simps) (simp add: digits_val_def sint_digit)
  also have "\<dots> = - int n"
  proof (cases "n < 10")
    case False
    have "digits_val 0 (dec (n div 10)) = - (int n div 10)" using 1 False by (simp add: zdiv_int)
    moreover have "int (n mod 10) = int n mod 10" by (simp add: zmod_int)
    moreover have "int n = int n div 10 * 10 + int n mod 10" by simp
    ultimately have "digits_val 0 (dec (n div 10)) * 10 - int (n mod 10) = - int n" by linarith
    with False show ?thesis by simp
  qed simp
  finally show ?case .
qed

lemma digits_val_le:
  assumes "\<And>c. c \<in> set ds \<Longrightarrow> isdigit (sint c)" "v \<le> 0"
  shows "digits_val v ds \<le> v"
  using assms
proof (induction ds arbitrary: v)
  case Nil
  then show ?case by (simp add: digits_val_def)
next
  case (Cons c ds)
  let ?v = "v * 10 - (sint c - 48)"
  have "?v \<le> v" "?v \<le> 0" using Cons.prems(1) [of c] Cons.prems(2) by (auto simp: isdigit_def)
  moreover have "digits_val ?v ds \<le> ?v" using Cons \<open>?v \<le> 0\<close> by simp
  ultimately show ?case by (simp add: digits_val_def)
qed

lemma parse_digits_ok:
  assumes "bytes_at m p (ds @ [c])" "\<And>c. c \<in> set ds \<Longrightarrow> isdigit (sint c)" "\<not> isdigit (sint c)" "v \<le> 0"
    "- (2 ^ 31) \<le> digits_val v ds"
  shows "parse_digits m p v = Some (digits_val v ds)"
  using assms
proof (induction ds arbitrary: p v)
  case Nil
  then show ?case by (subst parse_digits.simps) (simp add: digits_val_def)
next
  case (Cons d ds)
  let ?v = "v * 10 - (sint d - 48)"
  have dd: "48 \<le> sint d" "sint d \<le> 57" using Cons.prems(2) [of d] by (auto simp: isdigit_def)
  then have v: "?v \<le> 0" "?v \<le> v * 10" using Cons.prems(4) by auto
  have dv: "digits_val v (d # ds) = digits_val ?v ds" by (simp add: digits_val_def)
  have "digits_val ?v ds \<le> ?v" by (rule digits_val_le) (use Cons.prems(2) v in auto)
  then have r: "- (2 ^ 31) \<le> ?v" "- (2 ^ 31) \<le> v * 10" using Cons.prems(5) v(2) unfolding dv by linarith+
  have "c_int (v * 10) = Some (v * 10)" "c_int ?v = Some ?v" using r v Cons.prems(4) by (auto simp: c_int_def)
  moreover have "parse_digits m (Suc p) ?v = Some (digits_val ?v ds)"
    by (rule Cons.IH) (use Cons.prems v dv in auto)
  moreover have "m p = Some d" "isdigit (sint d)" using Cons.prems(1) dd by (auto simp: isdigit_def)
  ultimately show ?case unfolding dv by (subst parse_digits.simps) simp
qed

lemma skip_space_ok:
  assumes "bytes_at m p (sp @ [c])" "\<And>c. c \<in> set sp \<Longrightarrow> isspace (uint c)" "\<not> isspace (uint c)"
  shows "skip_space m p = Some (p + length sp)"
  using assms
proof (induction sp arbitrary: p)
  case Nil
  then show ?case by (subst skip_space.simps) simp
next
  case (Cons d sp)
  then show ?case by (subst skip_space.simps) simp
qed

lemma dec_hd:
  obtains c ds where "dec n = c # ds" "isdigit (sint c)" "\<not> isspace (uint c)" "c \<noteq> 43" "c \<noteq> 45"
proof -
  obtain c ds where c: "dec n = c # ds" by (cases "dec n") (auto simp: dec.simps [of n] split: if_splits)
  then have d: "isdigit (sint c)" using dec_digits [of c n] by simp
  moreover have "uint c = take_bit 8 (sint c)" using uint_sint [of c] by simp
  ultimately have "uint c = sint c" by (simp add: isdigit_def take_bit_int_eq_self)
  with d have u: "48 \<le> uint c" "uint c \<le> 57" by (auto simp: isdigit_def)
  then have "c \<noteq> 43" "c \<noteq> 45" by auto
  with that [OF c d] u show ?thesis by (simp add: isspace_def)
qed

section \<open>Properties\<close>

text \<open>C22: Heap sort. For every comparison function that orders the elements and every array of less than
  2 to the 31 elements, for which no index wraps around, \<open>sort\<close> (and so \<open>qsort\<close>) ends and returns a permutation of the array in which no element compares greater than a later
  one.\<close>

theorem sort_array_correct:
  assumes "cmp_order compare" "length xs < 2 ^ 31"
  shows "\<exists>ys. qsort compare (length xs) xs = Some ys \<and> mset ys = mset xs \<and> sorted_wrt (\<lambda>a b. compare a b \<le> 0) ys"
  using cmp_order.sort_array_ok [OF assms] by (simp add: qsort_def)

theorem sort_array_correct_witness:
  "\<exists>ys. qsort lex_cmp 3 [[3, 1], [2], [3 :: u8]] = Some ys \<and> mset ys = {#[3, 1], [2], [3]#} \<and>
     sorted_wrt (\<lambda>a b. lex_cmp a b \<le> 0) ys"
  using sort_array_correct [OF string_cmp.cmp_order_axioms, of "[[3, 1], [2], [3 :: u8]]"]
  by (simp add: numeral_3_eq_3 add_mset_commute)

text \<open>Binary search in a sorted array ends; it returns the index of an element that compares equal to the
  key, or nothing exactly when no element does.\<close>

theorem binary_search_correct:
  assumes "cmp_order compare" "sorted_wrt (\<lambda>a b. compare a b \<le> 0) xs"
  shows "\<exists>r. bsearch compare key xs (length xs) = Some r \<and>
    (case r of None \<Rightarrow> \<forall>x \<in> set xs. compare key x \<noteq> 0 | Some j \<Rightarrow> j < length xs \<and> compare key (xs ! j) = 0)"
proof -
  obtain r where "binary_search_loop compare key xs 0 (length xs) = Some r"
      "case r of None \<Rightarrow> \<forall>j < length xs. compare key (xs ! j) \<noteq> 0 | Some j \<Rightarrow> j < length xs \<and> compare key (xs ! j) = 0"
    using cmp_order.binary_search_loop_ok [OF assms, of "length xs" 0 key] by auto
  then show ?thesis by (cases r) (auto simp: bsearch_def binary_search_def in_set_conv_nth)
qed

theorem binary_search_correct_witness:
  "\<exists>r. bsearch lex_cmp [3] [[2], [3 :: u8]] 2 = Some r \<and> r \<noteq> None"
proof -
  have "sorted_wrt (\<lambda>a b. lex_cmp a b \<le> 0) [[2], [3 :: u8]]" by simp
  from binary_search_correct [OF string_cmp.cmp_order_axioms this, of "[3]"] show ?thesis
    by (auto simp: numeral_2_eq_2 split: option.splits)
qed

text \<open>C32: Parsing a printed number. For every value of \<open>int\<close>, \<open>atoi\<close> applied to its decimal
  representation, after white space and followed by anything that is not a digit, returns that
  value without overflow on the way, the least \<open>int\<close> included.\<close>

theorem atoi_decimal:
  assumes "bytes_at m p (sp @ int_str i @ [c])" "p \<noteq> 0" "\<forall>c \<in> set sp. isspace (uint c)" "\<not> isdigit (sint c)"
    "- (2 ^ 31) \<le> i" "i < 2 ^ 31"
  shows "atoi p m = Some i"
proof (cases "i < 0")
  case True
  have "bytes_at m p ((sp @ [45]) @ dec (nat (- i)) @ [c])" using assms(1) True by (simp add: int_str_def)
  then have b: "bytes_at m p (sp @ [45])" "bytes_at m (Suc (p + length sp)) (dec (nat (- i)) @ [c])"
    unfolding block_append by auto
  have "skip_space m p = Some (p + length sp)"
    by (rule skip_space_ok [OF b(1)]) (use assms(3) in \<open>auto simp: isspace_def\<close>)
  moreover have "m (p + length sp) = Some 45" using b(1) by (simp add: block_append)
  moreover have "parse_digits m (Suc (p + length sp)) 0 = Some (digits_val 0 (dec (nat (- i))))"
    by (rule parse_digits_ok [OF b(2)]) (use dec_digits assms in \<open>auto simp: digits_val_dec\<close>)
  ultimately show ?thesis using assms(2) True by (simp add: atoi_def digits_val_dec)
next
  case False
  obtain d ds where d: "dec (nat i) = d # ds" "\<not> isspace (uint d)" "d \<noteq> 43" "d \<noteq> 45"
    using dec_hd [of "nat i"] by metis
  have "bytes_at m p (sp @ dec (nat i) @ [c])" using assms(1) False by (simp add: int_str_def)
  then have b: "bytes_at m p (sp @ [d])" "bytes_at m (p + length sp) (dec (nat i) @ [c])"
    unfolding block_append d by auto
  have "skip_space m p = Some (p + length sp)"
    by (rule skip_space_ok [OF b(1)]) (use assms(3) d in auto)
  moreover have "m (p + length sp) = Some d" using b(1) by (simp add: block_append)
  moreover have "parse_digits m (p + length sp) 0 = Some (digits_val 0 (dec (nat i)))"
    by (rule parse_digits_ok [OF b(2)]) (use dec_digits assms in \<open>auto simp: digits_val_dec\<close>)
  then have "parse_digits m (p + length sp) 0 = Some (- i)" using False by (simp add: digits_val_dec)
  ultimately show ?thesis using assms(2,6) False d(2-4) by (simp add: atoi_def c_int_def)
qed

theorem atoi_decimal_witness:
  "atoi 1 [1 \<mapsto> 32, 2 \<mapsto> 45, 3 \<mapsto> 52, 4 \<mapsto> 50, 5 \<mapsto> 0] = Some (- 42)"
proof -
  have "int_str (- 42) = [45, 52, 50]" by (simp add: int_str_def dec.simps)
  then show ?thesis
    using atoi_decimal [of "[1 \<mapsto> 32, 2 \<mapsto> 45, 3 \<mapsto> 52, 4 \<mapsto> 50, 5 \<mapsto> 0]" 1 "[32]" "- 42" 0]
    by (simp add: isspace_def isdigit_def)
qed

end
