(* ===== verification/Bytes.thy ===== *)
theory Bytes
  imports Prelude
begin

text \<open>
  Little-endian bytes: how the structures the kernel stores on disk and in sectors are laid out, and
  writing a run of bytes over part of a block.
\<close>

type_synonym sector = "u8 list"

definition le32_bytes :: "u32 \<Rightarrow> u8 list" where
  "le32_bytes w = [ucast w, ucast (drop_bit 8 w), ucast (drop_bit 16 w), ucast (drop_bit 24 w)]"

definition le32 :: "u8 list \<Rightarrow> u32" where
  "le32 bs = ucast (bs ! 0) OR push_bit 8 (ucast (bs ! 1)) OR push_bit 16 (ucast (bs ! 2)) OR push_bit 24 (ucast (bs ! 3))"

definition bytes_of :: "u32 list \<Rightarrow> u8 list" where
  "bytes_of ws = concat (map le32_bytes ws)"

fun words_of :: "u8 list \<Rightarrow> u32 list" where
  "words_of (a # b # c # d # bs) = le32 [a, b, c, d] # words_of bs"
| "words_of bs = []"

lemma length_le32_bytes [simp]: "length (le32_bytes w) = 4"
  by (simp add: le32_bytes_def)

lemma le32_append [simp]: "length xs = 4 \<Longrightarrow> le32 (xs @ ys) = le32 xs"
  by (simp add: le32_def nth_append)

lemma le32_le32_bytes [simp]: "le32 (le32_bytes w) = w"
proof (rule bit_eqI)
  fix n assume "possible_bit TYPE(u32) n"
  then have "n < 32" by simp
  then consider "n < 8" | "8 \<le> n" "n < 16" | "16 \<le> n" "n < 24" | "24 \<le> n" "n < 32" by fastforce
  then show "bit (le32 (le32_bytes w)) n = bit w n"
    by cases (auto simp: le32_def le32_bytes_def bit_simps)
qed

lemma words_of_append [simp]: "length xs = 4 \<Longrightarrow> words_of (xs @ ys) = le32 xs # words_of ys"
  by (auto simp: length_Suc_conv numeral_eq_Suc)

lemma words_of_bytes_of [simp]: "words_of (bytes_of ws) = ws"
  by (induction ws) (simp_all add: bytes_of_def)

lemma length_bytes_of [simp]: "length (bytes_of ws) = 4 * length ws"
  by (induction ws) (simp_all add: bytes_of_def)

text \<open>\<open>ys\<close> written over \<open>xs\<close> from position \<open>i\<close> on.\<close>

definition splice :: "'a list \<Rightarrow> nat \<Rightarrow> 'a list \<Rightarrow> 'a list" where
  "splice xs i ys = take i xs @ ys @ drop (i + length ys) xs"

lemma splice_Nil [simp]: "splice xs i [] = xs"
  by (simp add: splice_def)

lemma nth_splice:
  "i + length ys \<le> length xs \<Longrightarrow> j < length xs \<Longrightarrow>
   splice xs i ys ! j = (if i \<le> j \<and> j < i + length ys then ys ! (j - i) else xs ! j)"
  by (auto simp: splice_def nth_append min_def)

lemma length_splice [simp]: "i + length ys \<le> length xs \<Longrightarrow> length (splice xs i ys) = length xs"
  by (simp add: splice_def)

lemma splice_splice:
  "i + length ys + length zs \<le> length xs \<Longrightarrow> splice (splice xs i ys) (i + length ys) zs = splice xs i (ys @ zs)"
  by (rule nth_equalityI) (auto simp: nth_splice nth_append)

end
