(* ===== verification/Block.thy ===== *)
theory Block
  imports Prelude
begin

text \<open>
  \<^verbatim>\<open>devices/block.c\<close> and the driver half of \<^verbatim>\<open>devices/partition.c\<close>: block devices, their registration and roles,
  and reading and writing sectors. A device is either a disk, which stores what is written to it,
  or a window on another device. The type of sector contents is a parameter.
\<close>

section \<open>Devices\<close>

datatype block_type = BLOCK_KERNEL | BLOCK_FILESYS | BLOCK_SCRATCH | BLOCK_SWAP | BLOCK_RAW | BLOCK_FOREIGN

definition BLOCK_SECTOR_SIZE :: nat where "BLOCK_SECTOR_SIZE = 512"

text \<open>Types before \<^verbatim>\<open>BLOCK_ROLE_CNT\<close> can be roles.\<close>

fun is_role :: "block_type \<Rightarrow> bool" where
  "is_role BLOCK_RAW = False"
| "is_role BLOCK_FOREIGN = False"
| "is_role _ = True"

fun block_type_name :: "block_type \<Rightarrow> string" where
  "block_type_name BLOCK_KERNEL = ''kernel''"
| "block_type_name BLOCK_FILESYS = ''filesys''"
| "block_type_name BLOCK_SCRATCH = ''scratch''"
| "block_type_name BLOCK_SWAP = ''swap''"
| "block_type_name BLOCK_RAW = ''raw''"
| "block_type_name BLOCK_FOREIGN = ''foreign''"

text \<open>A device is named by its position in \<open>all_blocks\<close>; a disk by a number.\<close>

datatype block_operations = DiskOps nat | PartitionOps nat u32

record block =
  bname :: string
  btype :: block_type
  bsize :: u32
  ops :: block_operations
  read_cnt :: u64
  write_cnt :: u64

record 's devices =
  all_blocks :: "block list"
  block_by_role :: "block_type \<Rightarrow> nat option"
  disks :: "nat \<Rightarrow> u32 \<Rightarrow> 's"

definition device :: "'s devices \<Rightarrow> nat \<Rightarrow> block option" where
  "device st b = (if b < length (all_blocks st) then Some (all_blocks st ! b) else None)"

definition set_device :: "nat \<Rightarrow> block \<Rightarrow> 's devices \<Rightarrow> 's devices" where
  "set_device b blk st = st\<lparr>all_blocks := (all_blocks st)[b := blk]\<rparr>"

definition block_get_role :: "block_type \<Rightarrow> 's devices \<Rightarrow> nat option option" where
  "block_get_role role st = do {
     c_assert (is_role role);
     Some (block_by_role st role) }"

definition block_set_role :: "block_type \<Rightarrow> nat option \<Rightarrow> 's devices \<Rightarrow> 's devices option" where
  "block_set_role role b st = do {
     c_assert (is_role role);
     Some (st\<lparr>block_by_role := (block_by_role st)(role := b)\<rparr>) }"

definition list_elem_to_block :: "nat \<Rightarrow> 's devices \<Rightarrow> nat option" where
  "list_elem_to_block e st = (if e \<noteq> length (all_blocks st) then Some e else None)"

definition block_first :: "'s devices \<Rightarrow> nat option" where
  "block_first st = list_elem_to_block 0 st"

definition block_next :: "nat \<Rightarrow> 's devices \<Rightarrow> nat option" where
  "block_next b st = list_elem_to_block (b + 1) st"

definition block_get_by_name :: "string \<Rightarrow> 's devices \<Rightarrow> nat option" where
  "block_get_by_name name st = find (\<lambda>b. bname (all_blocks st ! b) = name) [0 ..< length (all_blocks st)]"

definition block_size :: "nat \<Rightarrow> 's devices \<Rightarrow> u32 option" where
  "block_size b st = map_option bsize (device st b)"

definition block_name :: "nat \<Rightarrow> 's devices \<Rightarrow> string option" where
  "block_name b st = map_option bname (device st b)"

definition block_get_type :: "nat \<Rightarrow> 's devices \<Rightarrow> block_type option" where
  "block_get_type b st = map_option btype (device st b)"

text \<open>\<open>malloc_ok\<close> is whether the descriptor could be allocated; the name is cut to 15 characters.\<close>

definition block_register ::
    "bool \<Rightarrow> string \<Rightarrow> block_type \<Rightarrow> u32 \<Rightarrow> block_operations \<Rightarrow> 's devices \<Rightarrow> ('s devices \<times> nat) option" where
  "block_register malloc_ok name type sz op st = do {
     c_assert malloc_ok;
     Some (st\<lparr>all_blocks := all_blocks st @
         [\<lparr>bname = take 15 name, btype = type, bsize = sz, ops = op, read_cnt = 0, write_cnt = 0\<rparr>]\<rparr>,
       length (all_blocks st)) }"

section \<open>Sectors\<close>

definition check_sector :: "block \<Rightarrow> u32 \<Rightarrow> unit option" where
  "check_sector blk sector = c_assert (sector < bsize blk)"

definition count_read :: "nat \<Rightarrow> 's devices \<Rightarrow> 's devices" where
  "count_read b st = (let blk = all_blocks st ! b in set_device b (blk\<lparr>read_cnt := read_cnt blk + 1\<rparr>) st)"

definition count_write :: "nat \<Rightarrow> 's devices \<Rightarrow> 's devices" where
  "count_write b st = (let blk = all_blocks st ! b in set_device b (blk\<lparr>write_cnt := write_cnt blk + 1\<rparr>) st)"

text \<open>The branch for a window is \<open>partition_read\<close> and \<open>partition_write\<close>.\<close>

partial_function (option) block_read :: "nat \<Rightarrow> u32 \<Rightarrow> 's devices \<Rightarrow> ('s devices \<times> 's) option" where
  "block_read b sector st = do {
     blk \<leftarrow> device st b;
     check_sector blk sector;
     (st, d) \<leftarrow> (case ops blk of
         DiskOps k \<Rightarrow> Some (st, disks st k sector)
       | PartitionOps p start \<Rightarrow> block_read p (start + sector) st);
     Some (count_read b st, d) }"

partial_function (option) block_write :: "nat \<Rightarrow> u32 \<Rightarrow> 's \<Rightarrow> 's devices \<Rightarrow> 's devices option" where
  "block_write b sector d st = do {
     blk \<leftarrow> device st b;
     check_sector blk sector;
     c_assert (btype blk \<noteq> BLOCK_FOREIGN);
     st \<leftarrow> (case ops blk of
         DiskOps k \<Rightarrow> Some (st\<lparr>disks := (disks st)(k := (disks st k)(sector := d))\<rparr>)
       | PartitionOps p start \<Rightarrow> block_write p (start + sector) d st);
     Some (count_write b st) }"

section \<open>Well-formed device tables\<close>

text \<open>
  Every window lies inside a device registered before it that Pintos may write, which is what
  \<open>found_partition\<close> checks.
\<close>

definition block_ok :: "block list \<Rightarrow> nat \<Rightarrow> bool" where
  "block_ok bs b \<longleftrightarrow> (case ops (bs ! b) of
     DiskOps k \<Rightarrow> True
   | PartitionOps p start \<Rightarrow> p < b \<and> btype (bs ! p) \<noteq> BLOCK_FOREIGN \<and>
       unat start + unat (bsize (bs ! b)) \<le> unat (bsize (bs ! p)))"

definition devices_ok :: "'s devices \<Rightarrow> bool" where
  "devices_ok st \<longleftrightarrow> (\<forall>b < length (all_blocks st). block_ok (all_blocks st) b)"

text \<open>Where a sector of a device really is.\<close>

function place :: "block list \<Rightarrow> nat \<Rightarrow> u32 \<Rightarrow> nat \<times> u32" where
  "place bs b sector = (case ops (bs ! b) of
     DiskOps k \<Rightarrow> (k, sector)
   | PartitionOps p start \<Rightarrow> if p < b then place bs p (start + sector) else (0, 0))"
  by pat_completeness auto
termination by (relation "measure (\<lambda>(bs, b, s). b)") auto

declare place.simps [simp del]

definition sector_of :: "'s devices \<Rightarrow> nat \<Rightarrow> u32 \<Rightarrow> 's" where
  "sector_of st b sector = (let (k, s) = place (all_blocks st) b sector in disks st k s)"

text \<open>Two device lists that differ only in their counters.\<close>

definition same_layout :: "block list \<Rightarrow> block list \<Rightarrow> bool" where
  "same_layout bs bs' \<longleftrightarrow> length bs' = length bs \<and>
     (\<forall>b < length bs. ops (bs' ! b) = ops (bs ! b) \<and> bsize (bs' ! b) = bsize (bs ! b) \<and> btype (bs' ! b) = btype (bs ! b) \<and>
       bname (bs' ! b) = bname (bs ! b))"

lemma same_layout_refl [simp]: "same_layout bs bs"
  by (simp add: same_layout_def)

lemma same_layout_trans: "same_layout a b \<Longrightarrow> same_layout b c \<Longrightarrow> same_layout a c"
  by (simp add: same_layout_def)

lemma same_layout_count:
  "b < length (all_blocks st) \<Longrightarrow> same_layout (all_blocks st) (all_blocks (count_read b st))"
  "b < length (all_blocks st) \<Longrightarrow> same_layout (all_blocks st) (all_blocks (count_write b st))"
  "disks (count_read b st) = disks st" "disks (count_write b st) = disks st"
  "block_by_role (count_read b st) = block_by_role st" "block_by_role (count_write b st) = block_by_role st"
  by (auto simp: same_layout_def count_read_def count_write_def set_device_def nth_list_update Let_def)

lemma place_same_layout:
  assumes "same_layout bs bs'" "b < length bs"
  shows "place bs' b sector = place bs b sector"
  using assms
proof (induction bs b sector rule: place.induct)
  case (1 bs b sector)
  then show ?case
    by (subst (1 2) place.simps) (auto simp: same_layout_def split: block_operations.splits)
qed

lemma devices_ok_same_layout:
  assumes "devices_ok st" "same_layout (all_blocks st) (all_blocks st')"
  shows "devices_ok st'"
  using assms by (auto simp: devices_ok_def block_ok_def same_layout_def split: block_operations.splits)

lemma window_sector:
  assumes "devices_ok st" "b < length (all_blocks st)" "ops (all_blocks st ! b) = PartitionOps p start"
    "sector < bsize (all_blocks st ! b)"
  shows "p < b" "btype (all_blocks st ! p) \<noteq> BLOCK_FOREIGN" "start + sector < bsize (all_blocks st ! p)"
    "unat (start + sector) = unat start + unat sector"
proof -
  have w: "p < b" "btype (all_blocks st ! p) \<noteq> BLOCK_FOREIGN"
      "unat start + unat (bsize (all_blocks st ! b)) \<le> unat (bsize (all_blocks st ! p))"
    using assms(1,2,3) by (auto simp: devices_ok_def block_ok_def)
  have s: "unat sector < unat (bsize (all_blocks st ! b))" using assms(4) by (simp add: word_less_nat_alt)
  then have "unat start + unat sector < 4294967296" using w(3) u32_unat_bound [of "bsize (all_blocks st ! p)"] by linarith
  then show u: "unat (start + sector) = unat start + unat sector" by (simp add: unat_plus_u32)
  show "start + sector < bsize (all_blocks st ! p)" using u s w(3) by (simp add: word_less_nat_alt)
qed (use assms in \<open>auto simp: devices_ok_def block_ok_def\<close>)

lemma block_read_ok:
  assumes "devices_ok st" "b < length (all_blocks st)" "sector < bsize (all_blocks st ! b)"
  shows "\<exists>st'. block_read b sector st = Some (st', sector_of st b sector) \<and> disks st' = disks st \<and>
    same_layout (all_blocks st) (all_blocks st') \<and> block_by_role st' = block_by_role st"
  using assms
proof (induction b arbitrary: sector rule: less_induct)
  case (less b)
  note p = less.prems
  show ?case
  proof (cases "ops (all_blocks st ! b)")
    case (DiskOps k)
    then have "block_read b sector st = Some (count_read b st, disks st k sector)"
      using p by (subst block_read.simps) (simp add: device_def check_sector_def)
    moreover have "sector_of st b sector = disks st k sector" using DiskOps by (simp add: sector_of_def place.simps)
    ultimately show ?thesis using same_layout_count(1) [OF p(2)] same_layout_count(3,5) [of b st] by simp
  next
    case (PartitionOps q start)
    note w = window_sector [OF p(1,2) PartitionOps p(3)]
    have q: "q < length (all_blocks st)" using w(1) p(2) by simp
    obtain st1 where st1: "block_read q (start + sector) st = Some (st1, sector_of st q (start + sector))"
      "disks st1 = disks st" "same_layout (all_blocks st) (all_blocks st1)" "block_by_role st1 = block_by_role st"
      using less.IH [OF w(1) p(1) q w(3)] by blast
    have "block_read b sector st = Some (count_read b st1, sector_of st q (start + sector))"
      using p PartitionOps st1(1) by (subst block_read.simps) (simp add: device_def check_sector_def)
    moreover have "sector_of st b sector = sector_of st q (start + sector)"
      using PartitionOps w(1) by (simp add: sector_of_def place.simps [of _ b])
    moreover have "b < length (all_blocks st1)" using st1(3) p(2) by (simp add: same_layout_def)
    ultimately show ?thesis using st1(2,4) same_layout_count(3,5) [of b st1]
        same_layout_trans [OF st1(3) same_layout_count(1)] by simp
  qed
qed

lemma block_write_ok:
  assumes "devices_ok st" "b < length (all_blocks st)" "sector < bsize (all_blocks st ! b)"
    "btype (all_blocks st ! b) \<noteq> BLOCK_FOREIGN"
  shows "\<exists>st'. block_write b sector d st = Some st' \<and>
    disks st' = (let (k, s) = place (all_blocks st) b sector in (disks st)(k := (disks st k)(s := d))) \<and>
    same_layout (all_blocks st) (all_blocks st') \<and> block_by_role st' = block_by_role st"
  using assms
proof (induction b arbitrary: sector rule: less_induct)
  case (less b)
  note p = less.prems
  show ?case
  proof (cases "ops (all_blocks st ! b)")
    case (DiskOps k)
    let ?st = "st\<lparr>disks := (disks st)(k := (disks st k)(sector := d))\<rparr>"
    have "block_write b sector d st = Some (count_write b ?st)"
      using p DiskOps by (subst block_write.simps) (simp add: device_def check_sector_def)
    moreover have "place (all_blocks st) b sector = (k, sector)" using DiskOps by (simp add: place.simps)
    moreover have "same_layout (all_blocks st) (all_blocks (count_write b ?st))" using same_layout_count(2) [of b ?st] p(2) by simp
    ultimately show ?thesis using same_layout_count(4,6) [of b ?st] by (simp add: fun_upd_def)
  next
    case (PartitionOps q start)
    note w = window_sector [OF p(1,2) PartitionOps p(3)]
    have q: "q < length (all_blocks st)" using w(1) p(2) by simp
    obtain st1 where st1: "block_write q (start + sector) d st = Some st1"
      "disks st1 = (let (k, s) = place (all_blocks st) q (start + sector) in (disks st)(k := (disks st k)(s := d)))"
      "same_layout (all_blocks st) (all_blocks st1)" "block_by_role st1 = block_by_role st"
      using less.IH [OF w(1) p(1) q w(3,2)] by blast
    have "block_write b sector d st = Some (count_write b st1)"
      using p PartitionOps st1(1) by (subst block_write.simps) (simp add: device_def check_sector_def)
    moreover have "place (all_blocks st) b sector = place (all_blocks st) q (start + sector)"
      using PartitionOps w(1) by (simp add: place.simps [of _ b])
    moreover have bl: "b < length (all_blocks st1)" using st1(3) p(2) by (simp add: same_layout_def)
    moreover have "same_layout (all_blocks st) (all_blocks (count_write b st1))"
      using same_layout_trans [OF st1(3) same_layout_count(2) [OF bl]] .
    ultimately show ?thesis using st1(2,4) same_layout_count(4,6) [of b st1] by (simp add: fun_upd_def)
  qed
qed

section \<open>Devices store sectors\<close>

text \<open>
  The contract the clients of a device rely on (swap, the file system): reads and writes of the
  sectors below \<open>n\<close> succeed, a read returns what the sector holds, and a write changes that
  sector only.
\<close>

locale sector_store =
  fixes ok :: "'st \<Rightarrow> bool" and n :: u32 and content :: "'st \<Rightarrow> u32 \<Rightarrow> 's"
    and rd :: "u32 \<Rightarrow> 'st \<Rightarrow> ('st \<times> 's) option" and wr :: "u32 \<Rightarrow> 's \<Rightarrow> 'st \<Rightarrow> 'st option"
  assumes rd_ok: "ok st \<Longrightarrow> s < n \<Longrightarrow> \<exists>st'. rd s st = Some (st', content st s) \<and> ok st' \<and> (\<forall>t < n. content st' t = content st t)"
    and wr_ok: "ok st \<Longrightarrow> s < n \<Longrightarrow> \<exists>st'. wr s d st = Some st' \<and> ok st' \<and>
      (\<forall>t < n. content st' t = (if t = s then d else content st t))"
begin

lemma read_after_write:
  assumes "ok st" "s < n" "t < n" "wr s d st = Some st1"
  shows "\<exists>st2. rd t st1 = Some (st2, if t = s then d else content st t)"
proof -
  from wr_ok [OF assms(1,2), of d] assms(4) have "ok st1" "content st1 t = (if t = s then d else content st t)"
    using assms(3) by auto
  with rd_ok [of st1 t] assms(3) show ?thesis by auto
qed

end

definition device_ready :: "nat \<Rightarrow> u32 \<Rightarrow> 's devices \<Rightarrow> bool" where
  "device_ready b n st \<longleftrightarrow> devices_ok st \<and> b < length (all_blocks st) \<and> bsize (all_blocks st ! b) = n \<and>
     btype (all_blocks st ! b) \<noteq> BLOCK_FOREIGN"

lemma device_ready_same_layout:
  "device_ready b n st \<Longrightarrow> same_layout (all_blocks st) (all_blocks st') \<Longrightarrow> device_ready b n st'"
  using devices_ok_same_layout by (fastforce simp: device_ready_def same_layout_def)

text \<open>Different sectors of a device are in different places.\<close>

lemma place_inj:
  assumes "devices_ok st" "b < length (all_blocks st)" "s < bsize (all_blocks st ! b)" "t < bsize (all_blocks st ! b)"
    "place (all_blocks st) b s = place (all_blocks st) b t"
  shows "s = t"
  using assms
proof (induction b arbitrary: s t rule: less_induct)
  case (less b)
  note p = less.prems
  show ?case
  proof (cases "ops (all_blocks st ! b)")
    case (DiskOps k)
    then show ?thesis using p(5) by (simp add: place.simps)
  next
    case (PartitionOps q start)
    note ws = window_sector [OF p(1,2) PartitionOps p(3)] and wt = window_sector [OF p(1,2) PartitionOps p(4)]
    have "place (all_blocks st) q (start + s) = place (all_blocks st) q (start + t)"
      using p(5) PartitionOps ws(1) by (simp add: place.simps [of _ b])
    then have "start + s = start + t" using less.IH [OF ws(1) p(1) _ ws(3) wt(3)] ws(1) p(2) by simp
    then show ?thesis by simp
  qed
qed

lemma sector_of_write:
  assumes "device_ready b n st" "s < n" "t < n"
    "disks st' = (let (k, p) = place (all_blocks st) b s in (disks st)(k := (disks st k)(p := d)))"
    "same_layout (all_blocks st) (all_blocks st')"
  shows "sector_of st' b t = (if t = s then d else sector_of st b t)"
proof -
  have r: "devices_ok st" "b < length (all_blocks st)" "bsize (all_blocks st ! b) = n" using assms(1) by (auto simp: device_ready_def)
  have "place (all_blocks st') b t = place (all_blocks st) b t" using place_same_layout [OF assms(5) r(2)] .
  moreover have "place (all_blocks st) b s = place (all_blocks st) b t \<Longrightarrow> s = t" using place_inj [OF r(1,2)] assms(2,3) r(3) by simp
  ultimately show ?thesis using assms(4)
    by (cases "place (all_blocks st) b s"; cases "place (all_blocks st) b t") (auto simp: sector_of_def)
qed

interpretation block_store: sector_store "device_ready b n" n "\<lambda>st. sector_of st b" "block_read b" "block_write b" for b n
proof
  fix st :: "'a devices" and s d
  assume a: "device_ready b n st" "s < n"
  then have r: "devices_ok st" "b < length (all_blocks st)" "s < bsize (all_blocks st ! b)" "btype (all_blocks st ! b) \<noteq> BLOCK_FOREIGN"
    by (auto simp: device_ready_def)
  obtain st' where st': "block_read b s st = Some (st', sector_of st b s)" "disks st' = disks st"
      "same_layout (all_blocks st) (all_blocks st')"
    using block_read_ok [OF r(1-3)] by blast
  have "sector_of st' b t = sector_of st b t" for t
    using st'(2) place_same_layout [OF st'(3) r(2)] by (simp add: sector_of_def)
  then show "\<exists>st'. block_read b s st = Some (st', sector_of st b s) \<and> device_ready b n st' \<and>
      (\<forall>t < n. sector_of st' b t = sector_of st b t)"
    using st' device_ready_same_layout [OF a(1) st'(3)] by blast
  obtain st' where st': "block_write b s d st = Some st'"
      "disks st' = (let (k, p) = place (all_blocks st) b s in (disks st)(k := (disks st k)(p := d)))"
      "same_layout (all_blocks st) (all_blocks st')"
    using block_write_ok [OF r] by blast
  then show "\<exists>st'. block_write b s d st = Some st' \<and> device_ready b n st' \<and>
      (\<forall>t < n. sector_of st' b t = (if t = s then d else sector_of st b t))"
    using device_ready_same_layout [OF a(1)] sector_of_write [OF a] by blast
qed

section \<open>Properties\<close>

text \<open>C33: Partitions are isolated. A write to a device changes that sector and no other sector of the
  same device, and no sector of another device whose window on the same disk does not cover the
  place written.\<close>

theorem block_write_isolated:
  assumes "devices_ok st" "b < length (all_blocks st)" "s < bsize (all_blocks st ! b)"
    "btype (all_blocks st ! b) \<noteq> BLOCK_FOREIGN" "c < length (all_blocks st)" "t < bsize (all_blocks st ! c)"
  shows "\<exists>st' st''. block_write b s d st = Some st' \<and> block_read c t st' = Some (st'',
    if place (all_blocks st) c t = place (all_blocks st) b s then d else sector_of st c t)"
proof -
  obtain st' where st': "block_write b s d st = Some st'"
      "disks st' = (let (k, p) = place (all_blocks st) b s in (disks st)(k := (disks st k)(p := d)))"
      "same_layout (all_blocks st) (all_blocks st')"
    using block_write_ok [OF assms(1-4)] by blast
  have c: "c < length (all_blocks st')" "t < bsize (all_blocks st' ! c)" using st'(3) assms(5,6) by (auto simp: same_layout_def)
  have "sector_of st' c t = (if place (all_blocks st) c t = place (all_blocks st) b s then d else sector_of st c t)"
    using st'(2) place_same_layout [OF st'(3) assms(5), of t]
    by (cases "place (all_blocks st) b s"; cases "place (all_blocks st) c t") (auto simp: sector_of_def)
  then show ?thesis using block_read_ok [OF devices_ok_same_layout [OF assms(1) st'(3)] c] st'(1) by auto
qed

definition example_devices :: "nat devices" where
  "example_devices = \<lparr>all_blocks = [\<lparr>bname = ''hda'', btype = BLOCK_RAW, bsize = 100, ops = DiskOps 0, read_cnt = 0, write_cnt = 0\<rparr>,
      \<lparr>bname = ''hda1'', btype = BLOCK_FILESYS, bsize = 40, ops = PartitionOps 0 10, read_cnt = 0, write_cnt = 0\<rparr>,
      \<lparr>bname = ''hda2'', btype = BLOCK_SWAP, bsize = 50, ops = PartitionOps 0 50, read_cnt = 0, write_cnt = 0\<rparr>],
    block_by_role = (\<lambda>_. None), disks = (\<lambda>_ _. 0)\<rparr>"

lemma example_devices_ok: "devices_ok example_devices"
  by (auto simp: devices_ok_def block_ok_def example_devices_def less_Suc_eq numeral_3_eq_3)

theorem block_write_isolated_witness:
  "\<exists>st' st''. block_write 1 39 7 example_devices = Some st' \<and> block_read 2 0 st' = Some (st'', 0)"
proof -
  have "place (all_blocks example_devices) 2 0 \<noteq> place (all_blocks example_devices) 1 39" "sector_of example_devices 2 0 = 0"
    by (simp_all add: example_devices_def place.simps sector_of_def)
  then show ?thesis
    using block_write_isolated [OF example_devices_ok, of 1 39 2 0 7] by (auto simp: example_devices_def)
qed

end
