(* ===== verification/Partition.thy ===== *)
theory Partition
  imports Block Bytes
begin

text \<open>
  \<^verbatim>\<open>devices/partition.c\<close>: finding the partitions of a disk. Sectors are lists of 512 bytes.
  \<open>malloc_ok\<close> is whether \<open>malloc\<close> finds memory; the code panics when it does not.
\<close>

section \<open>Partition tables\<close>



definition get_le16 :: "sector \<Rightarrow> nat \<Rightarrow> u32" where
  "get_le16 d i = ucast (d ! i) OR push_bit 8 (ucast (d ! (i + 1)))"

definition get_le32 :: "sector \<Rightarrow> nat \<Rightarrow> u32" where
  "get_le32 d i = get_le16 d i OR push_bit 16 (get_le16 d (i + 2))"

record partition_table_entry =
  pe_type :: u8
  pe_offset :: u32
  pe_size :: u32

definition get_entry :: "sector \<Rightarrow> nat \<Rightarrow> partition_table_entry" where
  "get_entry d i = (let base = 446 + 16 * i in
     \<lparr>pe_type = d ! (base + 4), pe_offset = get_le32 d (base + 8), pe_size = get_le32 d (base + 12)\<rparr>)"

definition partition_entries :: "sector \<Rightarrow> partition_table_entry list" where
  "partition_entries d = map (get_entry d) [0 ..< 4]"

definition signature :: "sector \<Rightarrow> u32" where
  "signature d = get_le16 d 510"

definition is_extended :: "partition_table_entry \<Rightarrow> bool" where
  "is_extended e \<longleftrightarrow> pe_type e = 0x05 \<or> pe_type e = 0x0f \<or> pe_type e = 0x85 \<or> pe_type e = 0xc5"

definition partition_block_type :: "u8 \<Rightarrow> block_type" where
  "partition_block_type part_type =
     (if part_type = 0x20 then BLOCK_KERNEL
      else if part_type = 0x21 then BLOCK_FILESYS
      else if part_type = 0x22 then BLOCK_SCRATCH
      else if part_type = 0x23 then BLOCK_SWAP
      else BLOCK_FOREIGN)"

text \<open>The names the scan prints for the types of partitions.\<close>

definition type_names :: "(u8 \<times> string) list" where
  "type_names = [
     (0x00, ''Empty''),
     (0x01, ''FAT12''),
     (0x02, ''XENIX root''),
     (0x03, ''XENIX usr''),
     (0x04, ''FAT16 <32M''),
     (0x05, ''Extended''),
     (0x06, ''FAT16''),
     (0x07, ''HPFS/NTFS''),
     (0x08, ''AIX''),
     (0x09, ''AIX bootable''),
     (0x0a, ''OS/2 Boot Manager''),
     (0x0b, ''W95 FAT32''),
     (0x0c, ''W95 FAT32 (LBA)''),
     (0x0e, ''W95 FAT16 (LBA)''),
     (0x0f, ''W95 Ext'd (LBA)''),
     (0x10, ''OPUS''),
     (0x11, ''Hidden FAT12''),
     (0x12, ''Compaq diagnostics''),
     (0x14, ''Hidden FAT16 <32M''),
     (0x16, ''Hidden FAT16''),
     (0x17, ''Hidden HPFS/NTFS''),
     (0x18, ''AST SmartSleep''),
     (0x1b, ''Hidden W95 FAT32''),
     (0x1c, ''Hidden W95 FAT32 (LBA)''),
     (0x1e, ''Hidden W95 FAT16 (LBA)''),
     (0x20, ''Pintos OS kernel''),
     (0x21, ''Pintos file system''),
     (0x22, ''Pintos scratch''),
     (0x23, ''Pintos swap''),
     (0x24, ''NEC DOS''),
     (0x39, ''Plan 9''),
     (0x3c, ''PartitionMagic recovery''),
     (0x40, ''Venix 80286''),
     (0x41, ''PPC PReP Boot''),
     (0x42, ''SFS''),
     (0x4d, ''QNX4.x''),
     (0x4e, ''QNX4.x 2nd part''),
     (0x4f, ''QNX4.x 3rd part''),
     (0x50, ''OnTrack DM''),
     (0x51, ''OnTrack DM6 Aux1''),
     (0x52, ''CP/M''),
     (0x53, ''OnTrack DM6 Aux3''),
     (0x54, ''OnTrackDM6''),
     (0x55, ''EZ-Drive''),
     (0x56, ''Golden Bow''),
     (0x5c, ''Priam Edisk''),
     (0x61, ''SpeedStor''),
     (0x63, ''GNU HURD or SysV''),
     (0x64, ''Novell Netware 286''),
     (0x65, ''Novell Netware 386''),
     (0x70, ''DiskSecure Multi-Boot''),
     (0x75, ''PC/IX''),
     (0x80, ''Old Minix''),
     (0x81, ''Minix / old Linux''),
     (0x82, ''Linux swap / Solaris''),
     (0x83, ''Linux''),
     (0x84, ''OS/2 hidden C: drive''),
     (0x85, ''Linux extended''),
     (0x86, ''NTFS volume set''),
     (0x87, ''NTFS volume set''),
     (0x88, ''Linux plaintext''),
     (0x8e, ''Linux LVM''),
     (0x93, ''Amoeba''),
     (0x94, ''Amoeba BBT''),
     (0x9f, ''BSD/OS''),
     (0xa0, ''IBM Thinkpad hibernation''),
     (0xa5, ''FreeBSD''),
     (0xa6, ''OpenBSD''),
     (0xa7, ''NeXTSTEP''),
     (0xa8, ''Darwin UFS''),
     (0xa9, ''NetBSD''),
     (0xab, ''Darwin boot''),
     (0xb7, ''BSDI fs''),
     (0xb8, ''BSDI swap''),
     (0xbb, ''Boot Wizard hidden''),
     (0xbe, ''Solaris boot''),
     (0xbf, ''Solaris''),
     (0xc1, ''DRDOS/sec (FAT-12)''),
     (0xc4, ''DRDOS/sec (FAT-16 < 32M)''),
     (0xc6, ''DRDOS/sec (FAT-16)''),
     (0xc7, ''Syrinx''),
     (0xda, ''Non-FS data''),
     (0xdb, ''CP/M / CTOS / ...''),
     (0xde, ''Dell Utility''),
     (0xdf, ''BootIt''),
     (0xe1, ''DOS access''),
     (0xe3, ''DOS R/O''),
     (0xe4, ''SpeedStor''),
     (0xeb, ''BeOS fs''),
     (0xee, ''EFI GPT''),
     (0xef, ''EFI (FAT-12/16/32)''),
     (0xf0, ''Linux/PA-RISC boot''),
     (0xf1, ''SpeedStor''),
     (0xf4, ''SpeedStor''),
     (0xf2, ''DOS secondary''),
     (0xfd, ''Linux raid autodetect''),
     (0xfe, ''LANstep''),
     (0xff, ''BBT'')]"

definition partition_type_name :: "u8 \<Rightarrow> string" where
  "partition_type_name type = (case map_of type_names type of Some name \<Rightarrow> name | None \<Rightarrow> ''Unknown'')"

fun dec_string :: "nat \<Rightarrow> string" where
  "dec_string n = (if n < 10 then [] else dec_string (n div 10)) @ [char_of (48 + n mod 10)]"

declare dec_string.simps [simp del]

definition found_partition ::
    "bool \<Rightarrow> nat \<Rightarrow> u8 \<Rightarrow> u32 \<Rightarrow> u32 \<Rightarrow> nat \<Rightarrow> sector devices \<Rightarrow> sector devices option" where
  "found_partition malloc_ok b part_type start sz part_nr st = do {
     n \<leftarrow> block_size b st;
     nm \<leftarrow> block_name b st;
     if n \<le> start then Some st
     else if start + sz < start \<or> n < start + sz then Some st
     else do {
       let type = partition_block_type part_type;
       c_assert malloc_ok;
       (st, _) \<leftarrow> block_register malloc_ok (take 15 (nm @ dec_string part_nr)) type sz (PartitionOps b start) st;
       Some st } }"

text \<open>
  The part of \<open>read_partition_table\<close> before its loop; no entries when the table is past the end of the
  device or has no signature. It reads sector 0 whatever \<open>sector\<close> is.
\<close>

definition load_table :: "bool \<Rightarrow> nat \<Rightarrow> u32 \<Rightarrow> sector devices \<Rightarrow> (sector devices \<times> partition_table_entry list) option" where
  "load_table malloc_ok b sector st = do {
     n \<leftarrow> block_size b st;
     if n \<le> sector then Some (st, [])
     else do {
       c_assert malloc_ok;
       (st, pt) \<leftarrow> block_read b 0 st;
       if signature pt \<noteq> 0xaa55 then Some (st, [])
       else Some (st, partition_entries pt) } }"

text \<open>The loop; the recursive call of \<open>read_partition_table\<close> is its two halves in sequence.\<close>

partial_function (option) scan_entries ::
    "bool \<Rightarrow> nat \<Rightarrow> u32 \<Rightarrow> u32 \<Rightarrow> partition_table_entry list \<Rightarrow> nat \<Rightarrow> sector devices \<Rightarrow> (sector devices \<times> nat) option" where
  "scan_entries malloc_ok b sector primary_extended_sector es part_nr st = (case es of
     [] \<Rightarrow> Some (st, part_nr)
   | e # es \<Rightarrow> do {
       (st, part_nr) \<leftarrow>
         (if pe_size e = 0 \<or> pe_type e = 0 then Some (st, part_nr)
          else if is_extended e then do {
            let (s', p') = (if sector = 0 then (pe_offset e, pe_offset e)
                            else (pe_offset e + primary_extended_sector, primary_extended_sector));
            (st, es') \<leftarrow> load_table malloc_ok b s' st;
            scan_entries malloc_ok b s' p' es' part_nr st }
          else do {
            st \<leftarrow> found_partition malloc_ok b (pe_type e) (pe_offset e + sector) (pe_size e) (part_nr + 1) st;
            Some (st, part_nr + 1) });
       scan_entries malloc_ok b sector primary_extended_sector es part_nr st })"

definition read_partition_table ::
    "bool \<Rightarrow> nat \<Rightarrow> u32 \<Rightarrow> u32 \<Rightarrow> nat \<Rightarrow> sector devices \<Rightarrow> (sector devices \<times> nat) option" where
  "read_partition_table malloc_ok b sector primary_extended_sector part_nr st = do {
     (st, es) \<leftarrow> load_table malloc_ok b sector st;
     scan_entries malloc_ok b sector primary_extended_sector es part_nr st }"

definition partition_scan :: "bool \<Rightarrow> nat \<Rightarrow> sector devices \<Rightarrow> sector devices option" where
  "partition_scan malloc_ok b st = do {
     (st, part_nr) \<leftarrow> read_partition_table malloc_ok b 0 0 0 st;
     Some st }"

section \<open>What the scan does to the device table\<close>

definition scan_ok :: "nat \<Rightarrow> u32 \<Rightarrow> sector \<Rightarrow> sector devices \<Rightarrow> bool" where
  "scan_ok b n d st \<longleftrightarrow> device_ready b n st \<and> 0 < n \<and> sector_of st b 0 = d"

definition extends :: "sector devices \<Rightarrow> sector devices \<Rightarrow> bool" where
  "extends st st' \<longleftrightarrow> disks st' = disks st \<and> length (all_blocks st) \<le> length (all_blocks st') \<and>
     same_layout (all_blocks st) (take (length (all_blocks st)) (all_blocks st'))"

lemma extends_refl [simp]: "extends st st"
  by (simp add: extends_def)

lemma extends_trans:
  assumes "extends a b" "extends b c"
  shows "extends a c"
  using assms by (auto simp: extends_def same_layout_def)

lemma place_extends:
  assumes "extends st st'" "b < length (all_blocks st)"
  shows "place (all_blocks st') b s = place (all_blocks st) b s"
  using assms(2)
proof (induction b arbitrary: s rule: less_induct)
  case (less b)
  have "ops (all_blocks st' ! b) = ops (all_blocks st ! b)" using assms(1) less.prems by (auto simp: extends_def same_layout_def)
  then show ?case using less by (subst (1 2) place.simps) (auto split: block_operations.splits)
qed

lemma load_table_ok:
  assumes "scan_ok b n d st"
  shows "\<exists>st'. load_table True b s st = Some (st', if s < n \<and> signature d = 0xaa55 then partition_entries d else []) \<and>
    scan_ok b n d st' \<and> extends st st'"
proof (cases "s < n")
  case True
  have r: "device_ready b n st" "0 < n" "sector_of st b 0 = d" using assms by (auto simp: scan_ok_def)
  then have o: "devices_ok st" "b < length (all_blocks st)" "0 < bsize (all_blocks st ! b)" "bsize (all_blocks st ! b) = n"
    by (auto simp: device_ready_def)
  obtain st' where st': "block_read b 0 st = Some (st', d)" "disks st' = disks st" "same_layout (all_blocks st) (all_blocks st')"
    using block_read_ok [OF o(1-3)] r(3) by auto
  have "extends st st'" using st' by (simp add: extends_def same_layout_def)
  moreover have "scan_ok b n d st'"
    using r device_ready_same_layout [OF r(1) st'(3)] st'(2) place_same_layout [OF st'(3) o(2)]
    by (simp add: scan_ok_def sector_of_def)
  moreover have "\<not> n \<le> s" using True by simp
  ultimately show ?thesis using True st'(1) o by (simp add: load_table_def block_size_def device_def)
next
  case False
  then show ?thesis using assms
    by (auto simp: load_table_def block_size_def device_def scan_ok_def device_ready_def not_less)
qed

text \<open>The device a partition entry becomes, if it becomes one.\<close>

definition partition_device :: "nat \<Rightarrow> u32 \<Rightarrow> string \<Rightarrow> nat \<Rightarrow> u8 \<Rightarrow> u32 \<Rightarrow> u32 \<Rightarrow> block list" where
  "partition_device b n nm part_nr type start sz =
     (if unat start + unat sz \<le> unat n \<and> start < n
      then [\<lparr>bname = take 15 (nm @ dec_string part_nr), btype = partition_block_type type, bsize = sz,
        ops = PartitionOps b start, read_cnt = 0, write_cnt = 0\<rparr>] else [])"

lemma found_partition_ok:
  assumes "scan_ok b n d st" "bname (all_blocks st ! b) = nm"
  shows "\<exists>st'. found_partition True b type start sz nr st = Some st' \<and>
    all_blocks st' = all_blocks st @ partition_device b n nm nr type start sz \<and> scan_ok b n d st' \<and> extends st st'"
proof -
  have r: "devices_ok st" "b < length (all_blocks st)" "bsize (all_blocks st ! b) = n" "0 < n" "sector_of st b 0 = d"
      "btype (all_blocks st ! b) \<noteq> BLOCK_FOREIGN"
    using assms by (auto simp: scan_ok_def device_ready_def)
  have wrap: "start + sz < start \<or> n < start + sz \<longleftrightarrow> \<not> unat start + unat sz \<le> unat n"
  proof (cases "unat start + unat sz < 2 ^ 32")
    case True
    then show ?thesis by (simp add: word_less_nat_alt unat_plus_u32 not_less) linarith
  next
    case False
    then have "unat (start + sz) = unat start + unat sz - 2 ^ 32"
      using u32_unat_bound [of start] u32_unat_bound [of sz] by (simp add: unat_word_ariths(1) mod_if)
    then have "start + sz < start" using False u32_unat_bound [of sz] by (simp add: word_less_nat_alt)
    then show ?thesis using False u32_unat_bound [of n] by simp
  qed
  show ?thesis
  proof (cases "unat start + unat sz \<le> unat n \<and> start < n")
    case False
    then have "found_partition True b type start sz nr st = Some st"
      using r wrap by (auto simp: found_partition_def block_size_def block_name_def device_def not_less)
    with False assms show ?thesis by (auto simp: partition_device_def)
  next
    case True
    let ?new = "\<lparr>bname = take 15 (nm @ dec_string nr), btype = partition_block_type type, bsize = sz,
        ops = PartitionOps b start, read_cnt = 0, write_cnt = 0\<rparr>"
    let ?st = "st\<lparr>all_blocks := all_blocks st @ [?new]\<rparr>"
    have "found_partition True b type start sz nr st = Some ?st"
      using True r wrap assms(2)
      by (auto simp: found_partition_def block_size_def block_name_def device_def block_register_def not_less
          simp del: take_append)
    moreover have e: "extends st ?st" by (simp add: extends_def)
    have ok: "devices_ok ?st" unfolding devices_ok_def
    proof (intro allI impI)
      fix c assume c: "c < length (all_blocks ?st)"
      show "block_ok (all_blocks ?st) c"
      proof (cases "c < length (all_blocks st)")
        case True
        then have "block_ok (all_blocks st) c" using r(1) by (simp add: devices_ok_def)
        then show ?thesis using True by (auto simp: block_ok_def nth_append split: block_operations.splits)
      next
        case False
        then have "c = length (all_blocks st)" using c by simp
        then show ?thesis using True r by (simp add: block_ok_def nth_append)
      qed
    qed
    have "scan_ok b n d ?st" using r ok place_extends [OF e r(2)]
      by (simp add: scan_ok_def device_ready_def sector_of_def nth_append)
    ultimately show ?thesis using True e by (simp add: partition_device_def)
  qed
qed


section \<open>The whole scan\<close>

fun partitions_of :: "nat \<Rightarrow> u32 \<Rightarrow> string \<Rightarrow> u32 \<Rightarrow> nat \<Rightarrow> partition_table_entry list \<Rightarrow> block list" where
  "partitions_of b n nm sector nr [] = []"
| "partitions_of b n nm sector nr (e # es) =
     (if pe_size e = 0 \<or> pe_type e = 0 then partitions_of b n nm sector nr es
      else partition_device b n nm (nr + 1) (pe_type e) (pe_offset e + sector) (pe_size e) @
        partitions_of b n nm sector (nr + 1) es)"

lemma extends_name:
  "extends st st' \<Longrightarrow> b < length (all_blocks st) \<Longrightarrow> bname (all_blocks st' ! b) = bname (all_blocks st ! b)"
  by (auto simp: extends_def same_layout_def)

lemma scan_ok_bound: "scan_ok b n d st \<Longrightarrow> b < length (all_blocks st)"
  by (simp add: scan_ok_def device_ready_def)

lemma scan_entries_plain:
  assumes "scan_ok b n d st" "bname (all_blocks st ! b) = nm" "\<forall>e \<in> set es. \<not> is_extended e"
  shows "\<exists>st' nr'. scan_entries True b s p es nr st = Some (st', nr') \<and>
    all_blocks st' = all_blocks st @ partitions_of b n nm s nr es \<and> scan_ok b n d st' \<and> extends st st'"
  using assms
proof (induction es arbitrary: nr st)
  case Nil
  then show ?case by (simp add: scan_entries.simps)
next
  case (Cons e es)
  show ?case
  proof (cases "pe_size e = 0 \<or> pe_type e = 0")
    case True
    then show ?thesis using Cons.IH [of st nr] Cons.prems by (auto simp: scan_entries.simps [of _ _ _ _ "e # es"])
  next
    case False
    obtain st1 where st1: "found_partition True b (pe_type e) (pe_offset e + s) (pe_size e) (nr + 1) st = Some st1"
        "all_blocks st1 = all_blocks st @ partition_device b n nm (nr + 1) (pe_type e) (pe_offset e + s) (pe_size e)"
        "scan_ok b n d st1" "extends st st1"
      using found_partition_ok [OF Cons.prems(1,2)] by blast
    have nm: "bname (all_blocks st1 ! b) = nm"
      using Cons.prems(2) extends_name [OF st1(4) scan_ok_bound [OF Cons.prems(1)]] by simp
    obtain st2 nr2 where st2: "scan_entries True b s p es (nr + 1) st1 = Some (st2, nr2)"
        "all_blocks st2 = all_blocks st1 @ partitions_of b n nm s (nr + 1) es" "scan_ok b n d st2" "extends st1 st2"
      using Cons.IH [OF st1(3) nm, of "nr + 1"] Cons.prems(3) by auto
    then show ?thesis using False st1 Cons.prems(3) extends_trans [OF st1(4) st2(4)]
      by (simp add: scan_entries.simps [of _ _ _ _ "e # es"])
  qed
qed

lemma extends_sector_of:
  "extends st st' \<Longrightarrow> c < length (all_blocks st) \<Longrightarrow> sector_of st' c s = sector_of st c s"
  by (simp add: sector_of_def place_extends) (simp add: extends_def)

lemma extends_drop:
  assumes "extends st st1" "length (all_blocks st1) = length (all_blocks st)" "all_blocks st' = all_blocks st1 @ new"
  shows "drop (length (all_blocks st)) (all_blocks st') = new"
  using assms by simp

text \<open>Reading changes counters but not the number of devices.\<close>

lemma load_table_length:
  assumes "scan_ok b n d st" "load_table True b s st = Some (st', es)"
  shows "length (all_blocks st') = length (all_blocks st)"
proof -
  have o: "devices_ok st" "b < length (all_blocks st)" "0 < bsize (all_blocks st ! b)"
    using assms(1) by (auto simp: scan_ok_def device_ready_def)
  obtain st1 x where "block_read b 0 st = Some (st1, x)" "same_layout (all_blocks st) (all_blocks st1)"
    using block_read_ok [OF o] by auto
  then show ?thesis using assms(2)
    by (auto simp: load_table_def bind_eq_Some_iff same_layout_def split: if_splits)
qed

text \<open>
  C34: Scanning a disk whose master boot record has the signature and no extended partition returns,
  and registers exactly the partitions listed there that lie inside the disk, in order and numbered by
  their place among the nonempty entries, each as a window on the disk of the type and the size the
  entry says. The device table stays well formed and no sector of an old device changes.
\<close>

theorem partition_scan_primary:
  assumes "device_ready b n st" "0 < n" "signature (sector_of st b 0) = 0xaa55"
    and "\<forall>e \<in> set (partition_entries (sector_of st b 0)). \<not> is_extended e"
  shows "\<exists>st'. partition_scan True b st = Some st' \<and>
    drop (length (all_blocks st)) (all_blocks st') =
      partitions_of b n (bname (all_blocks st ! b)) 0 0 (partition_entries (sector_of st b 0)) \<and>
    devices_ok st' \<and> (\<forall>c < length (all_blocks st). \<forall>s. sector_of st' c s = sector_of st c s)"
proof -
  let ?d = "sector_of st b 0"
  have ok: "scan_ok b n ?d st" using assms by (simp add: scan_ok_def)
  obtain st1 where st1: "load_table True b 0 st = Some (st1, partition_entries ?d)" "scan_ok b n ?d st1" "extends st st1"
    using load_table_ok [OF ok, of 0] assms(2,3) by auto
  obtain st2 nr where st2: "scan_entries True b 0 0 (partition_entries ?d) 0 st1 = Some (st2, nr)"
      "all_blocks st2 = all_blocks st1 @ partitions_of b n (bname (all_blocks st ! b)) 0 0 (partition_entries ?d)"
      "scan_ok b n ?d st2" "extends st1 st2"
    using scan_entries_plain [OF st1(2) extends_name [OF st1(3) scan_ok_bound [OF ok]] assms(4)] by blast
  have "partition_scan True b st = Some st2" using st1(1) st2(1) by (simp add: partition_scan_def read_partition_table_def)
  moreover note extends_drop [OF st1(3) load_table_length [OF ok st1(1)] st2(2)]
  moreover have "devices_ok st2" using st2(3) by (simp add: scan_ok_def device_ready_def)
  moreover note extends_sector_of [OF extends_trans [OF st1(3) st2(4)]]
  ultimately show ?thesis by blast
qed

text \<open>A disk of 100 sectors with a file system partition and a swap partition that is too long.\<close>

definition entry_bytes :: "u8 \<Rightarrow> u8 \<Rightarrow> u8 \<Rightarrow> u8 list" where
  "entry_bytes type off sz = [0, 0, 0, 0, type, 0, 0, 0, off, 0, 0, 0, sz, 0, 0, 0]"

definition mbr :: "u8 list list \<Rightarrow> sector" where
  "mbr es = replicate 446 0 @ concat es @ [0x55, 0xaa]"

definition example_disk :: "sector \<Rightarrow> sector devices" where
  "example_disk d = \<lparr>all_blocks = [\<lparr>bname = ''hda'', btype = BLOCK_RAW, bsize = 100, ops = DiskOps 0, read_cnt = 0, write_cnt = 0\<rparr>],
     block_by_role = (\<lambda>_. None), disks = (\<lambda>_ _. d)\<rparr>"

definition example_mbr :: sector where
  "example_mbr = mbr [entry_bytes 0x21 2 10, entry_bytes 0x23 20 90, entry_bytes 0 0 0, entry_bytes 0 0 0]"

lemma example_disk_ready: "device_ready 0 100 (example_disk d)" "sector_of (example_disk d) 0 s = d"
  by (simp_all add: device_ready_def devices_ok_def block_ok_def example_disk_def sector_of_def place.simps)

lemma example_mbr_entries:
  "signature example_mbr = 0xaa55"
  "partition_entries example_mbr =
     [\<lparr>pe_type = 0x21, pe_offset = 2, pe_size = 10\<rparr>, \<lparr>pe_type = 0x23, pe_offset = 20, pe_size = 90\<rparr>,
      \<lparr>pe_type = 0, pe_offset = 0, pe_size = 0\<rparr>, \<lparr>pe_type = 0, pe_offset = 0, pe_size = 0\<rparr>]"
  by code_simp+

lemma partition_scan_primary_witness:
  "\<exists>st'. partition_scan True 0 (example_disk example_mbr) = Some st' \<and>
     map bname (drop 1 (all_blocks st')) = [''hda1''] \<and> map btype (drop 1 (all_blocks st')) = [BLOCK_FILESYS]"
proof -
  have n: "\<forall>e \<in> set (partition_entries (sector_of (example_disk example_mbr) 0 0)). \<not> is_extended e"
    by (simp add: example_disk_ready example_mbr_entries is_extended_def)
  have one: "dec_string (Suc 0) = ''1''" by code_simp
  have l: "length (all_blocks (example_disk example_mbr)) = 1" "bname (all_blocks (example_disk example_mbr) ! 0) = ''hda''"
    by (simp_all add: example_disk_def)
  show ?thesis
    using partition_scan_primary [OF example_disk_ready(1) _ _ n]
    by (auto simp: example_disk_ready example_mbr_entries l partition_device_def partition_block_type_def one)
qed

end
