(* ===== verification/Inode.thy ===== *)
theory Inode
  imports Block Bitmap Bytes "HOL-Library.Signed_Division"
begin

text \<open>
  \<^verbatim>\<open>filesys/inode.c\<close>, \<^verbatim>\<open>filesys/file.c\<close>, \<^verbatim>\<open>filesys/free-map.c\<close> and the file operations of
  \<^verbatim>\<open>lib/kernel/bitmap.c\<close>: files as extents of sectors of the file system device. The three modules
  call each other, so they share one state.

  Objects that the code allocates are named by addresses that are never used again; a dangling
  pointer is undefined. A null pointer is \<open>None\<close>. Offsets and sizes (\<open>off_t\<close>) are integers.
\<close>

section \<open>State\<close>

record inode_disk =
  start :: u32
  dlength :: int
  magic :: u32

record inode =
  isector :: u32
  open_cnt :: int
  removed :: bool
  deny_write_cnt :: int
  data :: inode_disk

record file_t =
  finode :: nat
  pos :: int
  deny_write :: bool

text \<open>
  \<open>malloc_ok\<close> says which of the coming allocations succeed.
\<close>

record fs =
  devs :: "sector devices"
  fs_device :: nat
  inodes :: "nat \<rightharpoonup> inode"
  open_inodes :: "nat list"
  files :: "nat \<rightharpoonup> file_t"
  free_map :: bitmap
  free_map_file :: "nat option"
  malloc_ok :: "nat \<Rightarrow> bool"
  next_addr :: nat

definition fs_malloc :: "fs \<Rightarrow> fs \<times> nat option" where
  "fs_malloc st = (st\<lparr>malloc_ok := (\<lambda>n. malloc_ok st (Suc n)), next_addr := Suc (next_addr st)\<rparr>,
     if malloc_ok st 0 then Some (next_addr st) else None)"

definition fs_read :: "u32 \<Rightarrow> fs \<Rightarrow> (fs \<times> sector) option" where
  "fs_read s st = do {
     (d, bs) \<leftarrow> block_read (fs_device st) s (devs st);
     Some (st\<lparr>devs := d\<rparr>, bs) }"

definition fs_write :: "u32 \<Rightarrow> sector \<Rightarrow> fs \<Rightarrow> fs option" where
  "fs_write s bs st = do {
     d \<leftarrow> block_write (fs_device st) s bs (devs st);
     Some (st\<lparr>devs := d\<rparr>) }"

section \<open>Reading and writing inodes\<close>

definition INODE_MAGIC :: u32 where "INODE_MAGIC = 0x494e4f44"
definition FREE_MAP_SECTOR :: u32 where "FREE_MAP_SECTOR = 0"
definition ROOT_DIR_SECTOR :: u32 where "ROOT_DIR_SECTOR = 1"

text \<open>The bytes of a \<open>struct inode_disk\<close> whose unused part is zero.\<close>

definition inode_bytes :: "inode_disk \<Rightarrow> sector" where
  "inode_bytes d = le32_bytes (start d) @ le32_bytes (word_of_int (dlength d)) @ le32_bytes (magic d) @ replicate 500 0"

definition inode_of :: "sector \<Rightarrow> inode_disk" where
  "inode_of bs = \<lparr>start = le32 bs, dlength = sint (le32 (drop 4 bs)), magic = le32 (drop 8 bs)\<rparr>"

definition bytes_to_sectors :: "int \<Rightarrow> u32 option" where
  "bytes_to_sectors sz = do {
     n \<leftarrow> c_int (sz + 512);
     Some (word_of_int ((n - 1) sdiv 512)) }"

definition byte_to_sector :: "inode \<Rightarrow> int \<Rightarrow> u32" where
  "byte_to_sector inode p = (if p < dlength (data inode) then start (data inode) + word_of_int (p div 512) else - 1)"

definition inode_length :: "inode \<Rightarrow> int" where
  "inode_length inode = dlength (data inode)"

definition inode_get_inumber :: "inode \<Rightarrow> u32" where
  "inode_get_inumber inode = isector inode"

text \<open>The bounce buffer is allocated when it is first needed.\<close>

definition get_bounce :: "bool \<Rightarrow> fs \<Rightarrow> fs \<times> bool" where
  "get_bounce bounce st = (if bounce then (st, True) else let (st, p) = fs_malloc st in (st, p \<noteq> None))"

text \<open>The sizes the loops compute at the top of their bodies.\<close>

definition chunk :: "inode \<Rightarrow> int \<Rightarrow> int \<Rightarrow> int" where
  "chunk inode sz offset =
     (let sector_ofs = offset mod 512;
          inode_left = inode_length inode - offset;
          sector_left = 512 - sector_ofs;
          min_left = (if inode_left < sector_left then inode_left else sector_left)
      in if sz < min_left then sz else min_left)"

text \<open>The result is the bytes copied to the buffer.\<close>

function read_loop :: "inode \<Rightarrow> int \<Rightarrow> int \<Rightarrow> bool \<Rightarrow> fs \<Rightarrow> (fs \<times> u8 list) option" where
  "read_loop inode sz offset bounce st =
     (if 0 < sz then
        (let sector_idx = byte_to_sector inode offset;
             sector_ofs = offset mod 512;
             chunk_size = chunk inode sz offset
         in if chunk_size \<le> 0 then Some (st, [])
            else if sector_ofs = 0 \<and> chunk_size = 512 then do {
              (st, bs) \<leftarrow> fs_read sector_idx st;
              (st, rest) \<leftarrow> read_loop inode (sz - chunk_size) (offset + chunk_size) bounce st;
              Some (st, bs @ rest) }
            else case get_bounce bounce st of (st, bounce) \<Rightarrow>
              if \<not> bounce then Some (st, [])
              else do {
                (st, bs) \<leftarrow> fs_read sector_idx st;
                (st, rest) \<leftarrow> read_loop inode (sz - chunk_size) (offset + chunk_size) bounce st;
                Some (st, take (nat chunk_size) (drop (nat sector_ofs) bs) @ rest) })
      else Some (st, []))"
  by pat_completeness auto
termination by (relation "measure (\<lambda>(inode, sz, offset, bounce, st). nat sz)") auto

declare read_loop.simps [simp del]

text \<open>A negative offset would index before the start of a sector; no caller passes one.\<close>

definition inode_read_at :: "nat \<Rightarrow> int \<Rightarrow> int \<Rightarrow> fs \<Rightarrow> (fs \<times> u8 list) option" where
  "inode_read_at p sz offset st = do {
     inode \<leftarrow> inodes st p;
     c_assert (0 \<le> offset);
     read_loop inode sz offset False st }"

text \<open>The result is the number of bytes written; \<open>buffer\<close> is what is left to write.\<close>

function write_loop :: "inode \<Rightarrow> u8 list \<Rightarrow> int \<Rightarrow> int \<Rightarrow> bool \<Rightarrow> fs \<Rightarrow> (fs \<times> int) option" where
  "write_loop inode buffer sz offset bounce st =
     (if 0 < sz then
        (let sector_idx = byte_to_sector inode offset;
             sector_ofs = offset mod 512;
             sector_left = 512 - sector_ofs;
             chunk_size = chunk inode sz offset
         in if chunk_size \<le> 0 then Some (st, 0)
            else if sector_ofs = 0 \<and> chunk_size = 512 then do {
              st \<leftarrow> fs_write sector_idx (take 512 buffer) st;
              (st, n) \<leftarrow> write_loop inode (drop (nat chunk_size) buffer) (sz - chunk_size) (offset + chunk_size) bounce st;
              Some (st, chunk_size + n) }
            else case get_bounce bounce st of (st, bounce) \<Rightarrow>
              if \<not> bounce then Some (st, 0)
              else do {
                (st, bs) \<leftarrow> (if 0 < sector_ofs \<or> chunk_size < sector_left then fs_read sector_idx st
                            else Some (st, replicate 512 0));
                let bs = take (nat sector_ofs) bs @ take (nat chunk_size) buffer @ drop (nat sector_ofs + nat chunk_size) bs;
                st \<leftarrow> fs_write sector_idx bs st;
                (st, n) \<leftarrow> write_loop inode (drop (nat chunk_size) buffer) (sz - chunk_size) (offset + chunk_size) bounce st;
                Some (st, chunk_size + n) })
      else Some (st, 0))"
  by pat_completeness auto
termination by (relation "measure (\<lambda>(inode, buffer, sz, offset, bounce, st). nat sz)") auto

declare write_loop.simps [simp del]

definition inode_write_at :: "nat \<Rightarrow> u8 list \<Rightarrow> int \<Rightarrow> int \<Rightarrow> fs \<Rightarrow> (fs \<times> int) option" where
  "inode_write_at p buffer sz offset st = do {
     inode \<leftarrow> inodes st p;
     c_assert (0 \<le> offset \<and> nat sz \<le> length buffer);
     if deny_write_cnt inode \<noteq> 0 then Some (st, 0)
     else write_loop inode buffer sz offset False st }"

definition set_inode :: "nat \<Rightarrow> inode \<Rightarrow> fs \<Rightarrow> fs" where
  "set_inode p inode st = st\<lparr>inodes := (inodes st)(p \<mapsto> inode)\<rparr>"

definition inode_reopen :: "nat \<Rightarrow> fs \<Rightarrow> fs option" where
  "inode_reopen p st = do {
     inode \<leftarrow> inodes st p;
     Some (set_inode p (inode\<lparr>open_cnt := open_cnt inode + 1\<rparr>) st) }"

definition inode_remove :: "nat \<Rightarrow> fs \<Rightarrow> fs option" where
  "inode_remove p st = do {
     inode \<leftarrow> inodes st p;
     Some (set_inode p (inode\<lparr>removed := True\<rparr>) st) }"

definition inode_deny_write :: "nat \<Rightarrow> fs \<Rightarrow> fs option" where
  "inode_deny_write p st = do {
     inode \<leftarrow> inodes st p;
     let inode = inode\<lparr>deny_write_cnt := deny_write_cnt inode + 1\<rparr>;
     c_assert (deny_write_cnt inode \<le> open_cnt inode);
     Some (set_inode p inode st) }"

definition inode_allow_write :: "nat \<Rightarrow> fs \<Rightarrow> fs option" where
  "inode_allow_write p st = do {
     inode \<leftarrow> inodes st p;
     c_assert (0 < deny_write_cnt inode);
     c_assert (deny_write_cnt inode \<le> open_cnt inode);
     Some (set_inode p (inode\<lparr>deny_write_cnt := deny_write_cnt inode - 1\<rparr>) st) }"

definition inode_init :: "fs \<Rightarrow> fs" where
  "inode_init st = st\<lparr>open_inodes := []\<rparr>"

text \<open>Looking for an inode that is already open; every element of the list is an open inode.\<close>

fun find_open :: "u32 \<Rightarrow> nat list \<Rightarrow> fs \<Rightarrow> nat option option" where
  "find_open s [] st = Some None"
| "find_open s (p # ps) st = do {
     inode \<leftarrow> inodes st p;
     if isector inode = s then Some (Some p) else find_open s ps st }"

definition inode_open :: "u32 \<Rightarrow> fs \<Rightarrow> (fs \<times> nat option) option" where
  "inode_open s st = do {
     found \<leftarrow> find_open s (open_inodes st) st;
     case found of
       Some p \<Rightarrow> do { st \<leftarrow> inode_reopen p st; Some (st, Some p) }
     | None \<Rightarrow> (case fs_malloc st of
         (st, None) \<Rightarrow> Some (st, None)
       | (st, Some p) \<Rightarrow> do {
           let st = st\<lparr>open_inodes := p # open_inodes st\<rparr>;
           (st, bs) \<leftarrow> fs_read s st;
           Some (set_inode p \<lparr>isector = s, open_cnt = 1, removed = False, deny_write_cnt = 0, data = inode_of bs\<rparr> st,
             Some p) }) }"

section \<open>Files\<close>

definition set_file :: "nat \<Rightarrow> file_t \<Rightarrow> fs \<Rightarrow> fs" where
  "set_file f fl st = st\<lparr>files := (files st)(f \<mapsto> fl)\<rparr>"

definition file_read :: "nat \<Rightarrow> int \<Rightarrow> fs \<Rightarrow> (fs \<times> u8 list) option" where
  "file_read f sz st = do {
     fl \<leftarrow> files st f;
     (st, bs) \<leftarrow> inode_read_at (finode fl) sz (pos fl) st;
     Some (set_file f (fl\<lparr>pos := pos fl + int (length bs)\<rparr>) st, bs) }"

definition file_read_at :: "nat \<Rightarrow> int \<Rightarrow> int \<Rightarrow> fs \<Rightarrow> (fs \<times> u8 list) option" where
  "file_read_at f sz file_ofs st = do {
     fl \<leftarrow> files st f;
     inode_read_at (finode fl) sz file_ofs st }"

definition file_write :: "nat \<Rightarrow> u8 list \<Rightarrow> int \<Rightarrow> fs \<Rightarrow> (fs \<times> int) option" where
  "file_write f buffer sz st = do {
     fl \<leftarrow> files st f;
     (st, n) \<leftarrow> inode_write_at (finode fl) buffer sz (pos fl) st;
     Some (set_file f (fl\<lparr>pos := pos fl + n\<rparr>) st, n) }"

definition file_write_at :: "nat \<Rightarrow> u8 list \<Rightarrow> int \<Rightarrow> int \<Rightarrow> fs \<Rightarrow> (fs \<times> int) option" where
  "file_write_at f buffer sz file_ofs st = do {
     fl \<leftarrow> files st f;
     inode_write_at (finode fl) buffer sz file_ofs st }"

definition file_get_inode :: "nat \<Rightarrow> fs \<Rightarrow> nat option" where
  "file_get_inode f st = map_option finode (files st f)"

definition file_length :: "nat \<Rightarrow> fs \<Rightarrow> int option" where
  "file_length f st = do {
     fl \<leftarrow> files st f;
     inode \<leftarrow> inodes st (finode fl);
     Some (inode_length inode) }"

definition file_seek :: "nat \<Rightarrow> int \<Rightarrow> fs \<Rightarrow> fs option" where
  "file_seek f new_pos st = do {
     c_assert (0 \<le> new_pos);
     fl \<leftarrow> files st f;
     Some (set_file f (fl\<lparr>pos := new_pos\<rparr>) st) }"

definition file_tell :: "nat \<Rightarrow> fs \<Rightarrow> int option" where
  "file_tell f st = map_option pos (files st f)"

definition file_deny_write :: "nat \<Rightarrow> fs \<Rightarrow> fs option" where
  "file_deny_write f st = do {
     fl \<leftarrow> files st f;
     if \<not> deny_write fl then inode_deny_write (finode fl) (set_file f (fl\<lparr>deny_write := True\<rparr>) st)
     else Some st }"

definition file_allow_write :: "nat \<Rightarrow> fs \<Rightarrow> fs option" where
  "file_allow_write f st = do {
     fl \<leftarrow> files st f;
     if deny_write fl then inode_allow_write (finode fl) (set_file f (fl\<lparr>deny_write := False\<rparr>) st)
     else Some st }"

section \<open>Bitmaps in files and the free map\<close>

definition bitmap_write :: "bitmap \<Rightarrow> nat \<Rightarrow> fs \<Rightarrow> (fs \<times> bool) option" where
  "bitmap_write b f st = do {
     let sz = sint (byte_cnt (bit_cnt b));
     (st, n) \<leftarrow> file_write_at f (bytes_of (bits b)) sz 0 st;
     Some (st, n = sz) }"

definition bitmap_read :: "bitmap \<Rightarrow> nat \<Rightarrow> fs \<Rightarrow> (fs \<times> bitmap \<times> bool) option" where
  "bitmap_read b f st =
     (if 0 < bit_cnt b then do {
        let sz = sint (byte_cnt (bit_cnt b));
        (st, bs) \<leftarrow> file_read_at f sz 0 st;
        let b = b\<lparr>bits := words_of (bs @ drop (length bs) (bytes_of (bits b)))\<rparr>;
        b \<leftarrow> update_elem b (elem_cnt (bit_cnt b) - 1) (\<lambda>w. w AND last_mask b);
        Some (st, b, int (length bs) = sz) }
      else Some (st, b, True))"

definition free_map_allocate :: "u32 \<Rightarrow> fs \<Rightarrow> (fs \<times> u32 option) option" where
  "free_map_allocate cnt st = do {
     (b, s) \<leftarrow> bitmap_scan_and_flip (free_map st) 0 cnt False;
     let st = st\<lparr>free_map := b\<rparr>;
     if s = BITMAP_ERROR then Some (st, None)
     else (case free_map_file st of
         None \<Rightarrow> Some (st, Some s)
       | Some f \<Rightarrow> do {
           (st, ok) \<leftarrow> bitmap_write (free_map st) f st;
           if ok then Some (st, Some s)
           else do {
             b \<leftarrow> bitmap_set_multiple (free_map st) s cnt False;
             Some (st\<lparr>free_map := b\<rparr>, None) } }) }"

definition free_map_release :: "u32 \<Rightarrow> u32 \<Rightarrow> fs \<Rightarrow> fs option" where
  "free_map_release s cnt st = do {
     all \<leftarrow> bitmap_all (free_map st) s cnt;
     c_assert all;
     b \<leftarrow> bitmap_set_multiple (free_map st) s cnt False;
     let st = st\<lparr>free_map := b\<rparr>;
     f \<leftarrow> free_map_file st;
     (st, _) \<leftarrow> bitmap_write (free_map st) f st;
     Some st }"

section \<open>Creating and closing\<close>

primrec zero_sectors :: "nat \<Rightarrow> u32 \<Rightarrow> fs \<Rightarrow> fs option" where
  "zero_sectors 0 s st = Some st"
| "zero_sectors (Suc n) s st = do {
     st \<leftarrow> fs_write s (replicate 512 0) st;
     zero_sectors n (s + 1) st }"

definition inode_create :: "u32 \<Rightarrow> int \<Rightarrow> fs \<Rightarrow> (fs \<times> bool) option" where
  "inode_create s len st = do {
     c_assert (0 \<le> len);
     case fs_malloc st of
       (st, None) \<Rightarrow> Some (st, False)
     | (st, Some _) \<Rightarrow> do {
         sectors \<leftarrow> bytes_to_sectors len;
         (st, first) \<leftarrow> free_map_allocate sectors st;
         case first of
           None \<Rightarrow> Some (st, False)
         | Some s0 \<Rightarrow> do {
             st \<leftarrow> fs_write s (inode_bytes \<lparr>start = s0, dlength = len, magic = INODE_MAGIC\<rparr>) st;
             st \<leftarrow> (if 0 < sectors then zero_sectors (unat sectors) s0 st else Some st);
             Some (st, True) } } }"

definition inode_close :: "nat option \<Rightarrow> fs \<Rightarrow> fs option" where
  "inode_close q st = (case q of
     None \<Rightarrow> Some st
   | Some p \<Rightarrow> do {
       inode \<leftarrow> inodes st p;
       let inode = inode\<lparr>open_cnt := open_cnt inode - 1\<rparr>;
       let st = set_inode p inode st;
       if open_cnt inode = 0 then do {
         let st = st\<lparr>open_inodes := remove1 p (open_inodes st)\<rparr>;
         st \<leftarrow> (if removed inode then do {
                 st \<leftarrow> free_map_release (isector inode) 1 st;
                 sectors \<leftarrow> bytes_to_sectors (dlength (data inode));
                 free_map_release (start (data inode)) sectors st }
               else Some st);
         Some (st\<lparr>inodes := (inodes st)(p := None)\<rparr>) }
       else Some st })"

definition file_open :: "nat option \<Rightarrow> fs \<Rightarrow> (fs \<times> nat option) option" where
  "file_open q st = (case (q, fs_malloc st) of
     (Some p, (st, Some f)) \<Rightarrow> Some (set_file f \<lparr>finode = p, pos = 0, deny_write = False\<rparr> st, Some f)
   | (q, (st, _)) \<Rightarrow> do {
       st \<leftarrow> inode_close q st;
       Some (st, None) })"

definition file_reopen :: "nat \<Rightarrow> fs \<Rightarrow> (fs \<times> nat option) option" where
  "file_reopen f st = do {
     fl \<leftarrow> files st f;
     st \<leftarrow> inode_reopen (finode fl) st;
     file_open (Some (finode fl)) st }"

definition file_close :: "nat option \<Rightarrow> fs \<Rightarrow> fs option" where
  "file_close q st = (case q of
     None \<Rightarrow> Some st
   | Some f \<Rightarrow> do {
       fl \<leftarrow> files st f;
       st \<leftarrow> file_allow_write f st;
       st \<leftarrow> inode_close (Some (finode fl)) st;
       Some (st\<lparr>files := (files st)(f := None)\<rparr>) })"

text \<open>\<open>buf\<close> is the stale contents of the memory the bitmap is allocated in.\<close>

definition free_map_init :: "u32 list \<Rightarrow> fs \<Rightarrow> fs option" where
  "free_map_init buf st = do {
     n \<leftarrow> block_size (fs_device st) (devs st);
     let (st, hdr) = fs_malloc st;
     let (st, elems) = (if hdr = None then (st, None) else fs_malloc st);
     b \<leftarrow> bitmap_create (hdr \<noteq> None) (if elems = None then None else Some buf) n;
     b \<leftarrow> b;
     b \<leftarrow> bitmap_mark b FREE_MAP_SECTOR;
     b \<leftarrow> bitmap_mark b ROOT_DIR_SECTOR;
     Some (st\<lparr>free_map := b\<rparr>) }"

definition free_map_open :: "fs \<Rightarrow> fs option" where
  "free_map_open st = do {
     (st, p) \<leftarrow> inode_open FREE_MAP_SECTOR st;
     (st, f) \<leftarrow> file_open p st;
     f \<leftarrow> f;
     let st = st\<lparr>free_map_file := Some f\<rparr>;
     (st, b, ok) \<leftarrow> bitmap_read (free_map st) f st;
     c_assert ok;
     Some (st\<lparr>free_map := b\<rparr>) }"

definition free_map_close :: "fs \<Rightarrow> fs option" where
  "free_map_close st = file_close (free_map_file st) st"

definition free_map_create :: "fs \<Rightarrow> fs option" where
  "free_map_create st = do {
     (st, ok) \<leftarrow> inode_create FREE_MAP_SECTOR (sint (bitmap_file_size (free_map st))) st;
     c_assert ok;
     (st, p) \<leftarrow> inode_open FREE_MAP_SECTOR st;
     (st, f) \<leftarrow> file_open p st;
     f \<leftarrow> f;
     let st = st\<lparr>free_map_file := Some f\<rparr>;
     (st, ok) \<leftarrow> bitmap_write (free_map st) f st;
     c_assert ok;
     Some st }"

section \<open>The disk\<close>

definition fs_size :: "fs \<Rightarrow> u32" where
  "fs_size st = bsize (all_blocks (devs st) ! fs_device st)"

definition sect :: "fs \<Rightarrow> u32 \<Rightarrow> sector" where
  "sect st s = (if s < fs_size st then sector_of (devs st) (fs_device st) s else [])"

definition disk_ok :: "fs \<Rightarrow> bool" where
  "disk_ok st \<longleftrightarrow> device_ready (fs_device st) (fs_size st) (devs st) \<and> (\<forall>s < fs_size st. length (sect st s) = 512)"

definition memory :: "fs \<Rightarrow> bool" where
  "memory st \<longleftrightarrow> (\<forall>n. malloc_ok st n)"

lemma upd_disk [simp]:
  "fs_size (st\<lparr>inodes := x1\<rparr>) = fs_size st" "sect (st\<lparr>inodes := x1\<rparr>) = sect st" "disk_ok (st\<lparr>inodes := x1\<rparr>) = disk_ok st" "memory (st\<lparr>inodes := x1\<rparr>) = memory st"
  "fs_size (st\<lparr>open_inodes := x2\<rparr>) = fs_size st" "sect (st\<lparr>open_inodes := x2\<rparr>) = sect st" "disk_ok (st\<lparr>open_inodes := x2\<rparr>) = disk_ok st" "memory (st\<lparr>open_inodes := x2\<rparr>) = memory st"
  "fs_size (st\<lparr>files := x3\<rparr>) = fs_size st" "sect (st\<lparr>files := x3\<rparr>) = sect st" "disk_ok (st\<lparr>files := x3\<rparr>) = disk_ok st" "memory (st\<lparr>files := x3\<rparr>) = memory st"
  "fs_size (st\<lparr>free_map := x4\<rparr>) = fs_size st" "sect (st\<lparr>free_map := x4\<rparr>) = sect st" "disk_ok (st\<lparr>free_map := x4\<rparr>) = disk_ok st" "memory (st\<lparr>free_map := x4\<rparr>) = memory st"
  "fs_size (st\<lparr>free_map_file := x5\<rparr>) = fs_size st" "sect (st\<lparr>free_map_file := x5\<rparr>) = sect st" "disk_ok (st\<lparr>free_map_file := x5\<rparr>) = disk_ok st" "memory (st\<lparr>free_map_file := x5\<rparr>) = memory st"
  by (simp_all add: fs_size_def sect_def disk_ok_def memory_def fun_eq_iff)

text \<open>Only the device, the answers of the allocator and the next address differ.\<close>

definition io :: "fs \<Rightarrow> fs \<Rightarrow> bool" where
  "io st st' \<longleftrightarrow> disk_ok st' \<and> fs_size st' = fs_size st \<and> next_addr st \<le> next_addr st' \<and> (memory st \<longrightarrow> memory st') \<and>
     inodes st' = inodes st \<and> open_inodes st' = open_inodes st \<and> files st' = files st \<and> fs_device st' = fs_device st \<and>
     free_map st' = free_map st \<and> free_map_file st' = free_map_file st"

lemma io_refl: "disk_ok st \<Longrightarrow> io st st"
  by (simp add: io_def)

lemma io_trans: "io a b \<Longrightarrow> io b c \<Longrightarrow> io a c"
  by (simp add: io_def)

lemma io_disk_ok: "io a b \<Longrightarrow> disk_ok b"
  by (simp add: io_def)

lemma io_simps:
  assumes "io st st'"
  shows "inodes st' = inodes st" "open_inodes st' = open_inodes st" "files st' = files st" "fs_device st' = fs_device st"
    "free_map st' = free_map st" "free_map_file st' = free_map_file st" "fs_size st' = fs_size st"
  using assms by (simp_all add: io_def)

lemma io_memory: "io a b \<Longrightarrow> memory a \<Longrightarrow> memory b"
  by (simp add: io_def)

lemma fs_read_ok:
  assumes "disk_ok st" "s < fs_size st"
  shows "\<exists>st'. fs_read s st = Some (st', sect st s) \<and> io st st' \<and> sect st' = sect st"
proof -
  have r: "device_ready (fs_device st) (fs_size st) (devs st)" using assms by (simp add: disk_ok_def)
  obtain d where d: "block_read (fs_device st) s (devs st) = Some (d, sector_of (devs st) (fs_device st) s)"
      "device_ready (fs_device st) (fs_size st) d" "\<forall>t < fs_size st. sector_of d (fs_device st) t = sector_of (devs st) (fs_device st) t"
    using block_store.rd_ok [OF r assms(2)] by blast
  let ?st = "st\<lparr>devs := d\<rparr>"
  have sz: "fs_size ?st = fs_size st" using d(2) by (simp add: fs_size_def device_ready_def)
  have se: "sect ?st = sect st" using d(3) by (auto simp: sect_def sz fun_eq_iff)
  have "io st ?st" using assms(1) d(2) by (simp add: io_def sz disk_ok_def se memory_def)
  moreover have "fs_read s st = Some (?st, sect st s)" using d(1) assms(2) by (simp add: fs_read_def sect_def)
  ultimately show ?thesis using se by blast
qed

lemma fs_write_ok:
  assumes "disk_ok st" "s < fs_size st" "length bs = 512"
  shows "\<exists>st'. fs_write s bs st = Some st' \<and> io st st' \<and> sect st' = (sect st)(s := bs)"
proof -
  have r: "device_ready (fs_device st) (fs_size st) (devs st)" using assms by (simp add: disk_ok_def)
  obtain d where d: "block_write (fs_device st) s bs (devs st) = Some d"
      "device_ready (fs_device st) (fs_size st) d"
      "\<forall>t < fs_size st. sector_of d (fs_device st) t = (if t = s then bs else sector_of (devs st) (fs_device st) t)"
    using block_store.wr_ok [OF r assms(2), of bs] by blast
  let ?st = "st\<lparr>devs := d\<rparr>"
  have sz: "fs_size ?st = fs_size st" using d(2) by (simp add: fs_size_def device_ready_def)
  have se: "sect ?st = (sect st)(s := bs)" using d(3) assms(2) by (auto simp: sect_def sz fun_eq_iff)
  have "io st ?st" using assms(1,3) d(2) by (simp add: io_def sz disk_ok_def se memory_def)
  moreover have "fs_write s bs st = Some ?st" using d(1) by (simp add: fs_write_def)
  ultimately show ?thesis using se by blast
qed

lemma get_bounce_ok:
  assumes "disk_ok st"
  shows "\<exists>st' b. get_bounce bounce st = (st', b) \<and> io st st' \<and> sect st' = sect st \<and> (bounce \<or> memory st \<longrightarrow> b)"
proof -
  have "sect (fst (fs_malloc st)) = sect st" "fs_size (fst (fs_malloc st)) = fs_size st"
    by (auto simp: fs_malloc_def sect_def fs_size_def fun_eq_iff)
  then have "io st (fst (fs_malloc st))" using assms by (simp add: io_def disk_ok_def) (simp add: fs_malloc_def memory_def)
  moreover have "memory st \<longrightarrow> snd (fs_malloc st) \<noteq> None" by (simp add: fs_malloc_def memory_def)
  ultimately show ?thesis using assms \<open>sect (fst (fs_malloc st)) = sect st\<close>
    by (auto simp: get_bounce_def io_refl split: prod.splits)
qed

section \<open>The contents of a file\<close>

definition nsect :: "inode_disk \<Rightarrow> nat" where
  "nsect d = (nat (dlength d) + 511) div 512"

definition extent :: "inode_disk \<Rightarrow> nat set" where
  "extent d = {unat (start d) ..< unat (start d) + nsect d}"

text \<open>An inode whose data sectors are sectors of the device.\<close>

definition data_ok :: "fs \<Rightarrow> inode_disk \<Rightarrow> bool" where
  "data_ok st d \<longleftrightarrow> 0 \<le> dlength d \<and> dlength d + 512 < 2 ^ 31 \<and> unat (start d) + nsect d \<le> unat (fs_size st)"

definition data_byte :: "fs \<Rightarrow> inode_disk \<Rightarrow> nat \<Rightarrow> u8" where
  "data_byte st d i = sect st (start d + of_nat (i div 512)) ! (i mod 512)"

definition content :: "fs \<Rightarrow> inode_disk \<Rightarrow> u8 list" where
  "content st d = map (data_byte st d) [0 ..< nat (dlength d)]"

lemma length_content [simp]: "length (content st d) = nat (dlength d)"
  by (simp add: content_def)

lemma data_sector:
  assumes "data_ok st d" "i < nat (dlength d)"
  shows "unat (start d + of_nat (i div 512)) = unat (start d) + i div 512" "start d + of_nat (i div 512) < fs_size st"
    "unat (start d + of_nat (i div 512)) \<in> extent d"
proof -
  have k: "i div 512 < nsect d" using assms(2) by (simp add: nsect_def)
  have b: "unat (start d) + nsect d \<le> unat (fs_size st)" using assms(1) by (simp add: data_ok_def)
  have u: "unat (of_nat (i div 512) :: u32) = i div 512"
    using k b u32_unat_bound [of "fs_size st"] by (simp add: unat_of_nat)
  show v: "unat (start d + of_nat (i div 512)) = unat (start d) + i div 512"
    using k b u u32_unat_bound [of "fs_size st"] by (subst unat_plus_u32) auto
  show "start d + of_nat (i div 512) < fs_size st" using k b by (simp add: word_less_nat_alt v)
  show "unat (start d + of_nat (i div 512)) \<in> extent d" using k by (simp add: extent_def v)
qed

text \<open>One pass of a loop covers \<open>n\<close> bytes, all in the sector of the first.\<close>

lemma chunk_nat:
  assumes "0 < chunk inode (int sz) (int i)" "n = nat (chunk inode (int sz) (int i))"
  shows "0 < n" "n \<le> sz" "i + n \<le> nat (dlength (data inode))" "i mod 512 + n \<le> 512" "chunk inode (int sz) (int i) = int n"
    "i < nat (dlength (data inode))"
proof -
  have m: "int i mod 512 = int (i mod 512)" by (simp add: zmod_int)
  have l: "chunk inode (int sz) (int i) \<le> int sz" "chunk inode (int sz) (int i) \<le> dlength (data inode) - int i"
      "chunk inode (int sz) (int i) \<le> 512 - int (i mod 512)"
    by (auto simp: chunk_def Let_def inode_length_def m)
  with assms show "0 < n" "n \<le> sz" "i + n \<le> nat (dlength (data inode))" "i mod 512 + n \<le> 512"
      "chunk inode (int sz) (int i) = int n" "i < nat (dlength (data inode))" by auto
qed

lemma chunk_stop:
  assumes "chunk inode (int sz) (int i) \<le> 0" "0 < sz"
  shows "nat (dlength (data inode)) \<le> i"
proof -
  have m: "int i mod 512 = int (i mod 512)" by (simp add: zmod_int)
  have "512 - int (i mod 512) > 0" by simp
  then show ?thesis using assms by (auto simp: chunk_def Let_def inode_length_def m split: if_splits)
qed

lemma in_chunk:
  fixes i j n :: nat
  assumes "i mod 512 + n \<le> 512" "i \<le> j" "j < i + n"
  shows "j div 512 = i div 512" "j mod 512 = i mod 512 + (j - i)"
proof -
  define q r where "q = i div 512" and "r = i mod 512"
  have i: "i = 512 * q + r" by (simp add: q_def r_def)
  have j: "j = 512 * q + (r + (j - i))" "r + (j - i) < 512"
    using assms(2,3) i assms(1) [folded r_def] by linarith+
  then have "j div 512 = q" by (intro div_nat_eqI) auto
  then show "j div 512 = i div 512" by (simp add: q_def)
  have "j mod 512 = j - 512 * (j div 512)" by (simp add: minus_mult_div_eq_mod)
  then show "j mod 512 = i mod 512 + (j - i)" using j \<open>j div 512 = q\<close> by (simp flip: r_def)
qed

lemma content_chunk:
  assumes "i + n \<le> nat (dlength d)" "i mod 512 + n \<le> 512" "length (sect st (start d + of_nat (i div 512))) = 512"
  shows "take n (drop i (content st d)) = take n (drop (i mod 512) (sect st (start d + of_nat (i div 512))))"
proof (rule nth_equalityI)
  fix k assume "k < length (take n (drop i (content st d)))"
  then have k: "k < n" by simp
  then have "(i + k) div 512 = i div 512" "(i + k) mod 512 = i mod 512 + k" using in_chunk [OF assms(2), of "i + k"] by simp_all
  then show "take n (drop i (content st d)) ! k = take n (drop (i mod 512) (sect st (start d + of_nat (i div 512)))) ! k"
    using k assms(1,3) by (simp add: content_def data_byte_def)
qed (use assms in simp)

lemma byte_to_sector_nat:
  "i < nat (dlength (data inode)) \<Longrightarrow> byte_to_sector inode (int i) = start (data inode) + of_nat (i div 512)"
proof -
  assume "i < nat (dlength (data inode))"
  then have "int i < dlength (data inode)" by linarith
  moreover have "int i div 512 = int (i div 512)" by (simp add: zdiv_int)
  ultimately show ?thesis by (simp add: byte_to_sector_def)
qed

text \<open>Reading.\<close>

lemma read_loop_ok:
  assumes "disk_ok st" "data_ok st (data inode)"
  shows "\<exists>st' bs. read_loop inode (int sz) (int i) bounce st = Some (st', bs) \<and> io st st' \<and> sect st' = sect st \<and>
    (\<exists>n. bs = take n (drop i (content st (data inode))) \<and> n \<le> sz \<and> (bounce \<or> memory st \<longrightarrow> n = sz))"
  using assms
proof (induction sz arbitrary: i bounce st rule: less_induct)
  case (less sz)
  define d where "d = data inode"
  show ?case
  proof (cases "0 < sz \<and> 0 < chunk inode (int sz) (int i)")
    case False
    then have "read_loop inode (int sz) (int i) bounce st = Some (st, [])" by (auto simp: read_loop.simps Let_def)
    moreover have "take sz (drop i (content st d)) = []" using False chunk_stop [of inode sz i] by (cases "sz = 0") (auto simp: d_def)
    ultimately show ?thesis using less.prems(1) by (auto simp: io_refl d_def)
  next
    case True
    define n where "n = nat (chunk inode (int sz) (int i))"
    note c = chunk_nat [OF conjunct2 [OF True] n_def, folded d_def]
    define s where "s = start d + of_nat (i div 512)"
    have s: "s < fs_size st" "byte_to_sector inode (int i) = s"
      using data_sector(2) [OF less.prems(2) c(6) [unfolded d_def]] byte_to_sector_nat [OF c(6) [unfolded d_def]]
      by (simp_all add: s_def d_def)
    have m: "int i mod 512 = int (i mod 512)" by (simp add: zmod_int)
    have len: "length (sect st s) = 512" using less.prems(1) s(1) by (simp add: disk_ok_def)
    have piece: "take n (drop i (content st d)) = take n (drop (i mod 512) (sect st s))"
      using content_chunk [OF c(3,4)] len by (simp add: s_def)
    have join: "take n (drop i (content st d)) @ take k (drop (i + n) (content st d)) = take (n + k) (drop i (content st d))" for k
      by (subst take_add) (simp add: add.commute)
    have step: "\<exists>st' bs. read_loop inode (int sz - int n) (int i + int n) b st1 = Some (st', bs) \<and> io st st' \<and> sect st' = sect st \<and>
        (\<exists>k. bs = take k (drop (i + n) (content st d)) \<and> k \<le> sz - n \<and> (b \<or> memory st \<longrightarrow> k = sz - n))"
      if st1: "io st st1" "sect st1 = sect st" for st1 b
    proof -
      have "content st1 d = content st d" by (simp add: content_def data_byte_def st1(2))
      moreover have "data_ok st1 d" using less.prems(2) io_simps(7) [OF st1(1)] by (simp add: data_ok_def d_def)
      moreover have "sz - n < sz" using c(1,2) by simp
      moreover have "int sz - int n = int (sz - n)" "int i + int n = int (i + n)" using c(2) by simp_all
      ultimately obtain st' bs k where "read_loop inode (int sz - int n) (int i + int n) b st1 = Some (st', bs)"
          "io st1 st'" "sect st' = sect st1" "bs = take k (drop (i + n) (content st d))" "k \<le> sz - n" "b \<or> memory st1 \<longrightarrow> k = sz - n"
        using less.IH [of "sz - n" st1 "i + n" b] io_disk_ok [OF st1(1)] unfolding d_def by metis
      then show ?thesis using io_trans [OF st1(1)] io_memory [OF st1(1)] st1(2) by metis
    qed
    show ?thesis
    proof (cases "i mod 512 = 0 \<and> n = 512")
      case full: True
      obtain st1 where st1: "fs_read s st = Some (st1, sect st s)" "io st st1" "sect st1 = sect st"
        using fs_read_ok [OF less.prems(1) s(1)] by blast
      obtain st' bs k where st': "read_loop inode (int sz - int n) (int i + int n) bounce st1 = Some (st', bs)" "io st st'"
          "sect st' = sect st" "bs = take k (drop (i + n) (content st d))" "k \<le> sz - n" "bounce \<or> memory st \<longrightarrow> k = sz - n"
        using step [OF st1(2,3)] by blast
      have "read_loop inode (int sz) (int i) bounce st = Some (st', sect st s @ bs)"
        using True full s(2) st1(1) st'(1) c(5) by (simp add: read_loop.simps [of inode "int sz"] Let_def m)
      moreover have "sect st s @ bs = take (n + k) (drop i (content st d))"
        using join [of k] piece full len st'(4) by simp
      ultimately show ?thesis using st'(2,3,5,6) c(2) by (auto simp: d_def)
    next
      case part: False
      obtain st1 b where st1: "get_bounce bounce st = (st1, b)" "io st st1" "sect st1 = sect st" "bounce \<or> memory st \<longrightarrow> b"
        using get_bounce_ok [OF less.prems(1)] by blast
      show ?thesis
      proof (cases b)
        case False
        then have "read_loop inode (int sz) (int i) bounce st = Some (st1, [])"
          using True part c(5) st1(1) by (auto simp: read_loop.simps [of inode "int sz"] Let_def m)
        then show ?thesis using st1 False by (intro exI [of _ st1] exI [of _ "[]"]) (auto intro!: exI [of _ 0])
      next
        case b: True
        have "s < fs_size st1" using s(1) io_simps(7) [OF st1(2)] by simp
        then obtain st2 where st2: "fs_read s st1 = Some (st2, sect st s)" "io st st2" "sect st2 = sect st"
          using fs_read_ok [OF io_disk_ok [OF st1(2)]] st1(3) io_trans [OF st1(2)] by fastforce
        obtain st' bs k where st': "read_loop inode (int sz - int n) (int i + int n) True st2 = Some (st', bs)" "io st st'"
            "sect st' = sect st" "bs = take k (drop (i + n) (content st d))" "k \<le> sz - n" "k = sz - n"
          using step [OF st2(2,3)] by blast
        have "read_loop inode (int sz) (int i) bounce st = Some (st', take n (drop (i mod 512) (sect st s)) @ bs)"
          using True part b s(2) st1(1) st2(1) st'(1) c(5) by (auto simp: read_loop.simps [of inode "int sz"] Let_def m)
        moreover have "take n (drop (i mod 512) (sect st s)) @ bs = take (n + k) (drop i (content st d))"
          using join [of k] piece st'(4) by simp
        ultimately show ?thesis using st'(2,3,5,6) c(2) by (auto simp: d_def)
      qed
    qed
  qed
qed

text \<open>Writing.\<close>

lemma content_write:
  assumes d: "data_ok st d" and n: "i < nat (dlength d)" "i + length w \<le> nat (dlength d)" "i mod 512 + length w \<le> 512"
    and s: "s = start d + of_nat (i div 512)" "length (sect st s) = 512"
    and st': "sect st' = (sect st)(s := splice (sect st s) (i mod 512) w)"
  shows "content st' d = splice (content st d) i w"
proof (rule nth_equalityI)
  show "length (content st' d) = length (splice (content st d) i w)" using n by simp
  fix j assume "j < length (content st' d)"
  then have j: "j < nat (dlength d)" by simp
  have same: "start d + of_nat (j div 512) = s \<longleftrightarrow> j div 512 = i div 512"
    using data_sector(1) [OF d j] data_sector(1) [OF d n(1)] by (auto simp: s(1) word_unat_eq_iff)
  have ij: "i = 512 * (i div 512) + i mod 512" "j = 512 * (j div 512) + j mod 512" by simp_all
  show "content st' d ! j = splice (content st d) i w ! j"
  proof (cases "j div 512 = i div 512")
    case True
    have "i mod 512 \<le> j mod 512 \<longleftrightarrow> i \<le> j" "j mod 512 < i mod 512 + length w \<longleftrightarrow> j < i + length w" "j mod 512 - i mod 512 = j - i"
      using ij True by linarith+
    moreover have "content st' d ! j = splice (sect st s) (i mod 512) w ! (j mod 512)" "content st d ! j = sect st s ! (j mod 512)"
      using True j same by (simp_all add: content_def data_byte_def st')
    ultimately show ?thesis
      using j n s(2) nth_splice [of "i mod 512" w "sect st s" "j mod 512"] nth_splice [of i w "content st d" j] by simp
  next
    case False
    then have "\<not> (i \<le> j \<and> j < i + length w)" using in_chunk(1) [OF n(3)] by blast
    then show ?thesis using False j n same by (auto simp: content_def data_byte_def st' nth_splice)
  qed
qed

lemma write_loop_ok:
  assumes "disk_ok st" "data_ok st (data inode)" "sz \<le> length buffer"
  shows "\<exists>st' n. write_loop inode buffer (int sz) (int i) bounce st = Some (st', int n) \<and> io st st' \<and>
    content st' (data inode) = splice (content st (data inode)) i (take n buffer) \<and>
    (\<forall>t. unat t \<notin> extent (data inode) \<longrightarrow> sect st' t = sect st t) \<and>
    n \<le> sz \<and> i + n \<le> max i (nat (dlength (data inode))) \<and>
    (bounce \<or> memory st \<longrightarrow> n = min sz (nat (dlength (data inode)) - i))"
  using assms
proof (induction sz arbitrary: i buffer bounce st rule: less_induct)
  case (less sz)
  define d where "d = data inode"
  show ?case
  proof (cases "0 < sz \<and> 0 < chunk inode (int sz) (int i)")
    case False
    then have "write_loop inode buffer (int sz) (int i) bounce st = Some (st, int 0)" by (auto simp: write_loop.simps Let_def)
    moreover have "min sz (nat (dlength d) - i) = 0" using False chunk_stop [of inode sz i] by (cases "sz = 0") (auto simp: d_def)
    ultimately show ?thesis using less.prems(1) by (intro exI [of _ st] exI [of _ 0]) (simp add: io_refl d_def)
  next
    case True
    define n where "n = nat (chunk inode (int sz) (int i))"
    note c = chunk_nat [OF conjunct2 [OF True] n_def, folded d_def]
    define s where "s = start d + of_nat (i div 512)"
    have d: "data_ok st d" using less.prems(2) by (simp add: d_def)
    have s: "s < fs_size st" "byte_to_sector inode (int i) = s" "unat s \<in> extent d"
      using data_sector(2,3) [OF d c(6)] byte_to_sector_nat [OF c(6) [unfolded d_def]] by (simp_all add: s_def d_def)
    have m: "int i mod 512 = int (i mod 512)" by (simp add: zmod_int)
    have len: "length (sect st s) = 512" using less.prems(1) s(1) by (simp add: disk_ok_def)
    have w: "length (take n buffer) = n" using c(2) less.prems(3) by simp
    have step: "\<exists>st' k. write_loop inode (drop n buffer) (int sz - int n) (int i + int n) b st1 = Some (st', int k) \<and> io st st' \<and>
        content st' d = splice (content st d) i (take (n + k) buffer) \<and> (\<forall>t. unat t \<notin> extent d \<longrightarrow> sect st' t = sect st t) \<and>
        n + k \<le> sz \<and> i + (n + k) \<le> nat (dlength d) \<and> (b \<or> memory st \<longrightarrow> n + k = min sz (nat (dlength d) - i))"
      if st1: "io st st1" "sect st1 = (sect st)(s := splice (sect st s) (i mod 512) (take n buffer))" for st1 b
    proof -
      have "data_ok st1 d" using d io_simps(7) [OF st1(1)] by (simp add: data_ok_def)
      moreover have "sz - n < sz" "sz - n \<le> length (drop n buffer)" using c(1,2) less.prems(3) by simp_all
      moreover have e: "int sz - int n = int (sz - n)" "int i + int n = int (i + n)" using c(2) by simp_all
      ultimately obtain st' k where k: "write_loop inode (drop n buffer) (int sz - int n) (int i + int n) b st1 = Some (st', int k)"
          "io st1 st'" "content st' d = splice (content st1 d) (i + n) (take k (drop n buffer))"
          "\<forall>t. unat t \<notin> extent d \<longrightarrow> sect st' t = sect st1 t" "k \<le> sz - n" "i + n + k \<le> max (i + n) (nat (dlength d))"
          "b \<or> memory st1 \<longrightarrow> k = min (sz - n) (nat (dlength d) - (i + n))"
        using less.IH [of "sz - n" st1 "drop n buffer" "i + n" b] io_disk_ok [OF st1(1)] unfolding d_def e by blast
      have c1: "content st1 d = splice (content st d) i (take n buffer)"
        using content_write [OF d c(6) _ _ s_def len st1(2)] c(3,4) w by simp
      have lk: "length (take k (drop n buffer)) = k" using k(5) less.prems(3) by simp
      have "content st' d = splice (content st d) i (take n buffer @ take k (drop n buffer))"
        using splice_splice [of i "take n buffer" "take k (drop n buffer)" "content st d"] k(3,6) c(3) lk w by (simp add: c1)
      then have "content st' d = splice (content st d) i (take (n + k) buffer)" by (simp add: take_add)
      moreover have "sect st' t = sect st t" if "unat t \<notin> extent d" for t using that k(4) st1(2) s(3) by auto
      moreover have "i + (n + k) \<le> nat (dlength d)" "n + k \<le> sz" using k(5,6) c(2,3) by auto
      moreover have "b \<or> memory st \<longrightarrow> n + k = min sz (nat (dlength d) - i)"
      proof
        assume "b \<or> memory st"
        then have "k = min (sz - n) (nat (dlength d) - (i + n))" using k(7) io_memory [OF st1(1)] by blast
        then show "n + k = min sz (nat (dlength d) - i)" using c(2,3) by linarith
      qed
      ultimately show ?thesis using k(1) io_trans [OF st1(1) k(2)] by blast
    qed
    show ?thesis
    proof (cases "i mod 512 = 0 \<and> n = 512")
      case full: True
      have "splice (sect st s) (i mod 512) (take n buffer) = take 512 buffer" using full len w by (simp add: splice_def)
      then obtain st1 where st1: "fs_write s (take 512 buffer) st = Some st1" "io st st1"
          "sect st1 = (sect st)(s := splice (sect st s) (i mod 512) (take n buffer))"
        using fs_write_ok [OF less.prems(1) s(1), of "take 512 buffer"] w full by auto
      obtain st' k where st': "write_loop inode (drop n buffer) (int sz - int n) (int i + int n) bounce st1 = Some (st', int k)" "io st st'"
          "content st' d = splice (content st d) i (take (n + k) buffer)" "\<forall>t. unat t \<notin> extent d \<longrightarrow> sect st' t = sect st t"
          "n + k \<le> sz" "i + (n + k) \<le> nat (dlength d)" "bounce \<or> memory st \<longrightarrow> n + k = min sz (nat (dlength d) - i)"
        using step [OF st1(2,3)] by blast
      have "write_loop inode buffer (int sz) (int i) bounce st = Some (st', int (n + k))"
        using True full s(2) st1(1) st'(1) c(5) by (simp add: write_loop.simps [of inode buffer "int sz"] Let_def m)
      then show ?thesis using st'(2-7) unfolding d_def by (intro exI [of _ st'] exI [of _ "n + k"]) auto
    next
      case part: False
      obtain st1 b where st1: "get_bounce bounce st = (st1, b)" "io st st1" "sect st1 = sect st" "bounce \<or> memory st \<longrightarrow> b"
        using get_bounce_ok [OF less.prems(1)] by blast
      show ?thesis
      proof (cases b)
        case False
        then have "write_loop inode buffer (int sz) (int i) bounce st = Some (st1, int 0)"
          using True part c(5) st1(1) by (auto simp: write_loop.simps [of inode buffer "int sz"] Let_def m)
        moreover have "content st1 d = content st d" by (simp add: content_def data_byte_def st1(3))
        ultimately show ?thesis using st1 False by (intro exI [of _ st1] exI [of _ 0]) (simp add: d_def)
      next
        case b: True
        have s1: "s < fs_size st1" using s(1) io_simps(7) [OF st1(2)] by simp
        then obtain st2 where st2: "fs_read s st1 = Some (st2, sect st s)" "io st st2" "sect st2 = sect st"
          using fs_read_ok [OF io_disk_ok [OF st1(2)]] st1(3) io_trans [OF st1(2)] by fastforce
        have part': "0 < int (i mod 512) \<or> int n < 512 - int (i mod 512)" using part c(4) by linarith
        have s2: "s < fs_size st2" using s(1) io_simps(7) [OF st2(2)] by simp
        have l: "length (splice (sect st s) (i mod 512) (take n buffer)) = 512" using len c(4) w by simp
        obtain st3 where st3: "fs_write s (splice (sect st s) (i mod 512) (take n buffer)) st2 = Some st3" "io st st3"
            "sect st3 = (sect st)(s := splice (sect st s) (i mod 512) (take n buffer))"
          using fs_write_ok [OF io_disk_ok [OF st2(2)] s2 l] io_trans [OF st2(2)] st2(3) by auto
        obtain st' k where st': "write_loop inode (drop n buffer) (int sz - int n) (int i + int n) True st3 = Some (st', int k)" "io st st'"
            "content st' d = splice (content st d) i (take (n + k) buffer)" "\<forall>t. unat t \<notin> extent d \<longrightarrow> sect st' t = sect st t"
            "n + k \<le> sz" "i + (n + k) \<le> nat (dlength d)" "n + k = min sz (nat (dlength d) - i)"
          using step [OF st3(2,3), of True] by blast
        have "write_loop inode buffer (int sz) (int i) bounce st = Some (st', int (n + k))"
          using True part part' b s(2) st1(1) st2(1) st3(1) st'(1) c(5) w
          by (auto simp: write_loop.simps [of inode buffer "int sz"] Let_def m splice_def)
        then show ?thesis using st'(2-7) unfolding d_def by (intro exI [of _ st'] exI [of _ "n + k"]) auto
      qed
    qed
  qed
qed

end
