(* ===== verification/Fs_Inv.thy ===== *)
theory Fs_Inv
  imports Inode
begin

text \<open>
  The invariant of the file system and what the operations of \<^verbatim>\<open>filesys/inode.c\<close>, \<^verbatim>\<open>filesys/file.c\<close> and
  \<^verbatim>\<open>filesys/free-map.c\<close> do to it: inodes in use and their data never overlap, the free map marks them,
  the free map file holds the free map, and the counters of an open inode agree with its handles.
\<close>

section \<open>Invariant\<close>

definition dinode :: "fs \<Rightarrow> u32 \<Rightarrow> inode_disk" where
  "dinode st s = inode_of (sect st s)"

lemma upd_content [simp]:
  "content (st\<lparr>inodes := x1\<rparr>) = content st" "dinode (st\<lparr>inodes := x1\<rparr>) = dinode st"
  "content (st\<lparr>open_inodes := x2\<rparr>) = content st" "dinode (st\<lparr>open_inodes := x2\<rparr>) = dinode st"
  "content (st\<lparr>files := x3\<rparr>) = content st" "dinode (st\<lparr>files := x3\<rparr>) = dinode st"
  "content (st\<lparr>free_map := x4\<rparr>) = content st" "dinode (st\<lparr>free_map := x4\<rparr>) = dinode st"
  "content (st\<lparr>free_map_file := x5\<rparr>) = content st" "dinode (st\<lparr>free_map_file := x5\<rparr>) = dinode st"
  by (simp_all add: content_def data_byte_def dinode_def fun_eq_iff)

text \<open>The sectors of an inode and its data.\<close>

definition own :: "fs \<Rightarrow> u32 \<Rightarrow> nat set" where
  "own st s = insert (unat s) (extent (dinode st s))"

text \<open>
  \<open>L\<close> is the set of the sectors of the inodes in use: they and their data are marked in the free
  map and do not overlap.
\<close>

definition space :: "u32 set \<Rightarrow> fs \<Rightarrow> bool" where
  "space L st \<longleftrightarrow> wf_bitmap (free_map st) \<and> bit_cnt (free_map st) = fs_size st \<and> unat (fs_size st) + 32 \<le> 2 ^ 32 \<and> 0 \<in> L \<and>
     (\<forall>s \<in> L. s < fs_size st \<and> data_ok st (dinode st s) \<and> own st s \<subseteq> marked (free_map st) \<and> unat s \<notin> extent (dinode st s)) \<and>
     (\<forall>s \<in> L. \<forall>t \<in> L. s \<noteq> t \<longrightarrow> own st s \<inter> own st t = {})"

definition file_refs :: "fs \<Rightarrow> nat \<Rightarrow> nat set" where
  "file_refs st p = {f. \<exists>fl. files st f = Some fl \<and> finode fl = p}"

definition deny_refs :: "fs \<Rightarrow> nat \<Rightarrow> nat set" where
  "deny_refs st p = {f. \<exists>fl. files st f = Some fl \<and> finode fl = p \<and> deny_write fl}"

definition inode_ok :: "u32 set \<Rightarrow> fs \<Rightarrow> nat \<Rightarrow> inode \<Rightarrow> bool" where
  "inode_ok L st p i \<longleftrightarrow> p < next_addr st \<and> isector i \<in> L \<and> data i = dinode st (isector i) \<and> 0 < open_cnt i \<and>
     int (card (file_refs st p)) \<le> open_cnt i \<and> deny_write_cnt i = int (card (deny_refs st p))"

definition handles :: "u32 set \<Rightarrow> fs \<Rightarrow> bool" where
  "handles L st \<longleftrightarrow> distinct (open_inodes st) \<and> set (open_inodes st) = dom (inodes st) \<and> finite (dom (files st)) \<and>
     (\<forall>p i. inodes st p = Some i \<longrightarrow> inode_ok L st p i) \<and>
     (\<forall>p q i j. inodes st p = Some i \<longrightarrow> inodes st q = Some j \<longrightarrow> isector i = isector j \<longrightarrow> p = q) \<and>
     (\<forall>f fl. files st f = Some fl \<longrightarrow> f < next_addr st \<and> finode fl \<in> dom (inodes st) \<and> 0 \<le> pos fl)"

lemma refs_cong:
  assumes "files st' = files st"
  shows "file_refs st' = file_refs st" "deny_refs st' = deny_refs st"
  by (simp_all add: file_refs_def deny_refs_def fun_eq_iff assms)

text \<open>The bytes hold the bitmap; the bits after the last one do not count.\<close>

definition stores :: "u8 list \<Rightarrow> bitmap \<Rightarrow> bool" where
  "stores cs b \<longleftrightarrow> bm (b\<lparr>bits := words_of cs\<rparr>) = bm b"

lemma stores_bytes [simp]: "stores (bytes_of (bits b)) b"
  by (simp add: stores_def)

text \<open>The free map file is open once, and its file holds the free map.\<close>

definition fm_ok :: "fs \<Rightarrow> bool" where
  "fm_ok st \<longleftrightarrow> (\<exists>f fl i. free_map_file st = Some f \<and> files st f = Some fl \<and> \<not> deny_write fl \<and> inodes st (finode fl) = Some i \<and>
     isector i = FREE_MAP_SECTOR \<and> \<not> removed i \<and> file_refs st (finode fl) = {f} \<and>
     dlength (data i) = int (4 * length (bits (free_map st))) \<and> stores (content st (data i)) (free_map st))"

definition fs_core :: "u32 set \<Rightarrow> fs \<Rightarrow> bool" where
  "fs_core L st \<longleftrightarrow> disk_ok st \<and> memory st \<and> space L st \<and> handles L st \<and> fm_ok st"

lemma spaceD:
  assumes "space L st" "s \<in> L"
  shows "s < fs_size st" "data_ok st (dinode st s)" "own st s \<subseteq> marked (free_map st)" "unat s \<notin> extent (dinode st s)"
  using assms by (auto simp: space_def)

lemma space_mono:
  assumes "space L st" "L' \<subseteq> L" "0 \<in> L'"
  shows "space L' st"
proof -
  have "own st s \<inter> own st t = {}" if "s \<in> L'" "t \<in> L'" "s \<noteq> t" for s t
    using assms(1) subsetD [OF assms(2) that(1)] subsetD [OF assms(2) that(2)] that(3) by (simp add: space_def)
  moreover note spaceD [OF assms(1) subsetD [OF assms(2)]]
  ultimately show ?thesis using assms(1,3) unfolding space_def by simp
qed

lemma space_disjoint:
  assumes "space L st" "s \<in> L" "t \<in> L" "s \<noteq> t"
  shows "extent (dinode st s) \<inter> extent (dinode st t) = {}" "unat s \<notin> extent (dinode st t)"
proof -
  have "own st s \<inter> own st t = {}" using assms by (simp add: space_def)
  then show "extent (dinode st s) \<inter> extent (dinode st t) = {}" "unat s \<notin> extent (dinode st t)" by (auto simp: own_def)
qed

lemma handlesD:
  assumes "handles L st" "inodes st p = Some i"
  shows "p < next_addr st" "isector i \<in> L" "data i = dinode st (isector i)" "0 < open_cnt i" "deny_write_cnt i = int (card (deny_refs st p))"
    "int (card (file_refs st p)) \<le> open_cnt i"
  using assms by (auto simp: handles_def inode_ok_def)

lemma handlesF:
  assumes "handles L st" "files st f = Some fl"
  shows "f < next_addr st" "\<exists>i. inodes st (finode fl) = Some i" "0 \<le> pos fl"
  using assms by (auto simp: handles_def)

lemma no_refs:
  assumes "handles L st" "inodes st p = None"
  shows "file_refs st p = {}" "deny_refs st p = {}"
  using handlesF(2) [OF assms(1)] assms(2) by (fastforce simp: file_refs_def deny_refs_def)+

text \<open>Sectors of one data area change; no inode changes then.\<close>

lemma same_dinode:
  assumes "space L st" "s \<in> L" "\<forall>t. unat t \<notin> extent (dinode st s) \<longrightarrow> sect st' t = sect st t" "t \<in> L"
  shows "dinode st' t = dinode st t"
  using assms space_disjoint(2) [OF assms(1,4,2)] spaceD(4) [OF assms(1,2)] by (cases "s = t") (auto simp: dinode_def)

lemma content_cong:
  assumes "data_ok st d" "\<forall>t. unat t \<in> extent d \<longrightarrow> sect st' t = sect st t"
  shows "content st' d = content st d"
  using assms data_sector(3) [OF assms(1)] by (auto simp: content_def data_byte_def)

lemma same_content:
  assumes "space L st" "s \<in> L" "\<forall>t. unat t \<notin> extent (dinode st s) \<longrightarrow> sect st' t = sect st t" "t \<in> L" "t \<noteq> s"
  shows "content st' (dinode st t) = content st (dinode st t)"
  using space_disjoint(1) [OF assms(1,4,2,5)] assms(3) by (intro content_cong spaceD(2) [OF assms(1,4)]) auto

lemma space_cong:
  assumes "space L st" "\<forall>t \<in> L. dinode st' t = dinode st t" "fs_size st' = fs_size st" "free_map st' = free_map st"
  shows "space L st'"
  using assms by (simp add: space_def own_def data_ok_def)

lemma handles_cong:
  assumes "handles L st" "\<forall>t \<in> L. dinode st' t = dinode st t" "inodes st' = inodes st" "open_inodes st' = open_inodes st"
    "files st' = files st" "next_addr st \<le> next_addr st'"
  shows "handles L st'"
proof -
  have "file_refs st' = file_refs st" "deny_refs st' = deny_refs st" by (simp_all add: file_refs_def deny_refs_def fun_eq_iff assms(5))
  then have "inode_ok L st' p i" if "inode_ok L st p i" for p i using that assms(2,6) by (simp add: inode_ok_def)
  moreover have "f < next_addr st'" if "f < next_addr st" for f using that assms(6) by simp
  ultimately show ?thesis using assms(1) unfolding handles_def assms(3-5) by blast
qed

text \<open>Where the free map file is, if its file is open.\<close>

lemma fm_okD:
  assumes "fm_ok st" "handles L st"
  obtains f fl i where "free_map_file st = Some f" "files st f = Some fl" "inodes st (finode fl) = Some i" "isector i = 0"
    "data i = dinode st 0" "deny_write_cnt i = 0" "dlength (dinode st 0) = int (4 * length (bits (free_map st)))"
    "stores (content st (dinode st 0)) (free_map st)" "\<not> deny_write fl" "file_refs st (finode fl) = {f}" "\<not> removed i"
proof -
  obtain f fl i where *: "free_map_file st = Some f" "files st f = Some fl" "\<not> deny_write fl" "inodes st (finode fl) = Some i"
     "isector i = FREE_MAP_SECTOR" "\<not> removed i" "file_refs st (finode fl) = {f}"
     "dlength (data i) = int (4 * length (bits (free_map st)))" "stores (content st (data i)) (free_map st)"
    using assms(1) by (auto simp: fm_ok_def)
  have "deny_refs st (finode fl) \<subseteq> file_refs st (finode fl)" "f \<notin> deny_refs st (finode fl)"
    using *(2,3) by (auto simp: deny_refs_def file_refs_def)
  then have "deny_refs st (finode fl) = {}" using *(7) by auto
  then have "deny_write_cnt i = 0" using handlesD(5) [OF assms(2) *(4)] by simp
  then show ?thesis using that [OF *(1,2,4)] * handlesD(3) [OF assms(2) *(4)] by (simp add: FREE_MAP_SECTOR_def)
qed

lemma inode_read_at_core:
  assumes "fs_core L st" "inodes st p = Some i" "0 \<le> offset" "0 \<le> sz"
  shows "\<exists>st'. inode_read_at p sz offset st = Some (st', take (nat sz) (drop (nat offset) (content st (data i)))) \<and>
    io st st' \<and> sect st' = sect st"
proof -
  have c: "disk_ok st" "memory st" "space L st" "handles L st" using assms(1) by (auto simp: fs_core_def)
  have d: "data_ok st (data i)" using spaceD(2) [OF c(3)] handlesD(2,3) [OF c(4) assms(2)] by simp
  show ?thesis
    using read_loop_ok [OF c(1) d, of "nat sz" "nat offset" False] c(2) assms(2-4) by (auto simp: inode_read_at_def)
qed

lemma fs_core_io:
  assumes "fs_core L st" "io st st'" "sect st' = sect st"
  shows "fs_core L st'"
proof -
  note i = io_simps [OF assms(2)]
  have "dinode st' t = dinode st t" "content st' t' = content st t'" for t t'
    by (simp_all add: dinode_def content_def data_byte_def assms(3))
  then have "space L st'" "handles L st'"
    using assms space_cong [of L st st'] handles_cong [of L st st'] by (auto simp: fs_core_def i) (simp add: io_def)
  moreover have "fm_ok st'" using assms(1) \<open>\<And>t'. content st' t' = content st t'\<close>
    by (simp add: fs_core_def fm_ok_def file_refs_def i)
  ultimately show ?thesis using assms(1) io_disk_ok [OF assms(2)] io_memory [OF assms(2)] by (simp add: fs_core_def)
qed

lemma inode_write_at_io:
  assumes "fs_core L st" "inodes st p = Some i" "deny_write_cnt i = 0" "0 \<le> offset" "0 \<le> sz" "nat sz \<le> length buffer"
  defines "n \<equiv> min (nat sz) (nat (dlength (data i)) - nat offset)"
  shows "\<exists>st'. inode_write_at p buffer sz offset st = Some (st', int n) \<and> io st st' \<and>
    content st' (data i) = splice (content st (data i)) (nat offset) (take n buffer) \<and>
    (\<forall>t. unat t \<notin> extent (data i) \<longrightarrow> sect st' t = sect st t)"
proof -
  have c: "disk_ok st" "memory st" "space L st" "handles L st" using assms(1) by (auto simp: fs_core_def)
  have d: "data_ok st (data i)" using spaceD(2) [OF c(3)] handlesD(2,3) [OF c(4) assms(2)] by simp
  show ?thesis
    using write_loop_ok [OF c(1) d, of "nat sz" buffer "nat offset" False] c(2) assms(2-6)
    by (auto simp: inode_write_at_def n_def)
qed

text \<open>A write to an inode other than the free map changes the contents of that inode only.\<close>

lemma inode_write_at_core:
  assumes "fs_core L st" "inodes st p = Some i" "isector i \<noteq> 0" "deny_write_cnt i = 0" "0 \<le> offset" "0 \<le> sz" "nat sz \<le> length buffer"
  defines "n \<equiv> min (nat sz) (nat (dlength (data i)) - nat offset)"
  shows "\<exists>st'. inode_write_at p buffer sz offset st = Some (st', int n) \<and> io st st' \<and> fs_core L st' \<and>
    (\<forall>t \<in> L. dinode st' t = dinode st t \<and> content st' (dinode st t) =
      (if t = isector i then splice (content st (dinode st t)) (nat offset) (take n buffer) else content st (dinode st t)))"
proof -
  have c: "memory st" "space L st" "handles L st" "fm_ok st" using assms(1) by (auto simp: fs_core_def)
  note h = handlesD(2,3) [OF c(3) assms(2)]
  obtain st' where st': "inode_write_at p buffer sz offset st = Some (st', int n)" "io st st'"
      "content st' (data i) = splice (content st (data i)) (nat offset) (take n buffer)"
      "\<forall>t. unat t \<notin> extent (dinode st (isector i)) \<longrightarrow> sect st' t = sect st t"
    using inode_write_at_io [OF assms(1,2,4-7)] h(2) by (auto simp: n_def)
  note io = io_simps [OF st'(2)]
  have sd: "\<forall>t \<in> L. dinode st' t = dinode st t" using same_dinode [OF c(2) h(1) st'(4)] by blast
  have sc: "content st' (dinode st t) = content st (dinode st t)" if "t \<in> L" "t \<noteq> isector i" for t
    using same_content [OF c(2) h(1) st'(4) that] .
  have "space L st'" using space_cong [OF c(2) sd] io by simp
  moreover have "handles L st'" using handles_cong [OF c(3) sd] io st'(2) by (simp add: io_def)
  moreover have "fm_ok st'"
  proof -
    obtain f fl j where "free_map_file st = Some f" "files st f = Some fl" "inodes st (finode fl) = Some j" "isector j = 0"
      "data j = dinode st 0" "dlength (dinode st 0) = int (4 * length (bits (free_map st)))"
      "stores (content st (dinode st 0)) (free_map st)" "\<not> deny_write fl" "file_refs st (finode fl) = {f}" "\<not> removed j"
      using fm_okD [OF c(4,3)] by metis
    moreover have "content st' (dinode st 0) = content st (dinode st 0)" using sc [of 0] assms(3) c(2) by (simp add: space_def)
    ultimately show ?thesis by (simp add: fm_ok_def io file_refs_def FREE_MAP_SECTOR_def)
  qed
  ultimately have "fs_core L st'" using io_disk_ok [OF st'(2)] io_memory [OF st'(2) c(1)] by (simp add: fs_core_def)
  then show ?thesis using st'(1-3) h(2) sd sc by auto
qed

text \<open>The free map.\<close>

lemma sint_byte_cnt:
  assumes "wf_bitmap b" "unat (bit_cnt b) + 32 \<le> 2 ^ 32"
  shows "sint (byte_cnt (bit_cnt b)) = int (4 * length (bits b))"
proof -
  have e: "unat (elem_cnt (bit_cnt b)) = length (bits b)"
  proof -
    have "unat (bit_cnt b + 32 - 1) = unat (bit_cnt b) + 31"
    proof -
      have "bit_cnt b + 32 - 1 = bit_cnt b + 31" by simp
      then show ?thesis using assms(2) by (simp add: unat_plus_u32)
    qed
    then show ?thesis using assms(1) by (simp add: elem_cnt_def DIV_ROUND_UP_def ELEM_BITS_def unat_div wf_bitmap_def)
  qed
  have l: "length (bits b) \<le> 2 ^ 27" using assms by (simp add: wf_bitmap_def)
  have "unat (byte_cnt (bit_cnt b)) = 4 * length (bits b)"
    using e l by (simp add: byte_cnt_def) (subst unat_mult_u32; simp)
  then show ?thesis using l by (subst sint_u32_small) auto
qed

lemma wf_bits_length: "wf_bitmap a \<Longrightarrow> wf_bitmap b \<Longrightarrow> bit_cnt a = bit_cnt b \<Longrightarrow> length (bits a) = length (bits b)"
  by (simp add: wf_bitmap_def)

text \<open>Writing a new free map to its file.\<close>

lemma free_map_write:
  assumes "fs_core L st" "wf_bitmap b" "bit_cnt b = bit_cnt (free_map st)" "free_map_file st = Some f"
  shows "\<exists>st'. bitmap_write b f (st\<lparr>free_map := b\<rparr>) = Some (st', True) \<and> io (st\<lparr>free_map := b\<rparr>) st' \<and> fm_ok st' \<and> handles L st' \<and>
    (\<forall>t. unat t \<notin> extent (dinode st 0) \<longrightarrow> sect st' t = sect st t) \<and> (\<forall>t \<in> L. dinode st' t = dinode st t)"
proof -
  have c: "disk_ok st" "memory st" "space L st" "handles L st" "fm_ok st" using assms(1) by (auto simp: fs_core_def)
  obtain f' fl i where g: "free_map_file st = Some f'" "files st f' = Some fl" "inodes st (finode fl) = Some i" "isector i = 0"
    "data i = dinode st 0" "deny_write_cnt i = 0" "dlength (dinode st 0) = int (4 * length (bits (free_map st)))"
    "stores (content st (dinode st 0)) (free_map st)" "\<not> deny_write fl" "file_refs st (finode fl) = {f'}" "\<not> removed i"
    by (rule fm_okD [OF c(5,4)])
  have "f' = f" using g(1) assms(4) by simp
  note f = g(2,3,4,6,5,7,9,10,11) [unfolded this]
  have "wf_bitmap (free_map st)" "unat (fs_size st) + 32 \<le> 2 ^ 32" "bit_cnt (free_map st) = fs_size st" "0 \<in> L"
    using c(3) by (simp_all add: space_def)
  note sp = this
  have l: "length (bits b) = length (bits (free_map st))" using wf_bits_length [OF assms(2) sp(1) assms(3)] .
  let ?st = "st\<lparr>free_map := b\<rparr>"
  have core: "disk_ok ?st" using c(1) by simp
  have d: "data_ok ?st (dinode st 0)" using spaceD(2) [OF c(3) sp(4)] by (simp add: data_ok_def)
  have sz: "sint (byte_cnt (bit_cnt b)) = int (length (bytes_of (bits b)))"
    using sint_byte_cnt [OF assms(2)] sp assms(3) by simp
  let ?w = "bytes_of (bits b)"
  obtain st' n where st0: "write_loop i ?w (int (length ?w)) (int 0) False ?st = Some (st', int n)"
      "io ?st st'" "content st' (data i) = splice (content ?st (data i)) 0 (take n ?w)"
      "\<forall>t. unat t \<notin> extent (data i) \<longrightarrow> sect st' t = sect ?st t"
      "False \<or> memory ?st \<longrightarrow> n = min (length ?w) (nat (dlength (data i)) - 0)"
    using write_loop_ok [OF core d [folded f(5)] order_refl, of ?w 0 False] by blast
  have "n = length ?w" using st0(5) c(2) f(5,6) l by (simp add: memory_def)
  then have st': "write_loop i ?w (int (length ?w)) 0 False ?st = Some (st', int (length ?w))"
      "io ?st st'" "content st' (dinode st 0) = splice (content ?st (dinode st 0)) 0 ?w"
      "\<forall>t. unat t \<notin> extent (dinode st 0) \<longrightarrow> sect st' t = sect ?st t"
    using st0(1-4) f(5) by simp_all
  have se: "sect ?st = sect st" by simp
  have sd: "\<forall>t \<in> L. dinode st' t = dinode st t" using same_dinode [OF c(3) sp(4), of st'] st'(4) se by simp
  have w: "bitmap_write b f ?st = Some (st', True)"
    using st'(1) f(1,2,4) sz by (simp add: bitmap_write_def file_write_at_def inode_write_at_def)
  note io = io_simps [OF st'(2), simplified]
  have h: "handles L st'" using handles_cong [OF c(4) sd] io st'(2) by (simp add: io_def)
  have "content st' (data i) = bytes_of (bits b)" using st'(3) f(5,6) l by (simp add: splice_def)
  moreover have "file_refs st' = file_refs st" by (simp add: file_refs_def io fun_eq_iff)
  ultimately have "fm_ok st'" using f assms(4) l by (simp add: fm_ok_def io FREE_MAP_SECTOR_def)
  then show ?thesis using w st'(2,4) h sd se by auto
qed

lemma space_change:
  assumes "space L st" "\<forall>t \<in> L. dinode st' t = dinode st t" "fs_size st' = fs_size st" "wf_bitmap (free_map st')"
    "bit_cnt (free_map st') = bit_cnt (free_map st)" "\<forall>t \<in> L. own st t \<subseteq> marked (free_map st')"
  shows "space L st'"
  using assms by (simp add: space_def own_def data_ok_def)

lemma own_marked: "space L st \<Longrightarrow> t \<in> L \<Longrightarrow> own st t \<subseteq> marked (free_map st)"
  by (simp add: space_def)

lemma scan_flip_any:
  assumes "wf_bitmap b"
  shows "\<exists>b' r. bitmap_scan_and_flip b 0 cnt False = Some (b', r) \<and> wf_bitmap b' \<and> bit_cnt b' = bit_cnt b \<and>
      (if r = BITMAP_ERROR then b' = b \<and> 0 < cnt \<and> (\<forall>i. \<not> run_at (bm b) False (unat cnt) i)
       else run r cnt \<inter> marked b = {} \<and> marked b' = marked b \<union> run r cnt \<and> unat r + unat cnt \<le> unat (bit_cnt b))"
proof (cases "cnt = 0")
  case True
  have "bitmap_scan_and_flip b 0 0 False = Some (b, 0)"
    by (simp add: bitmap_scan_and_flip_def bitmap_scan_zero bitmap_set_multiple_def bitmap_set_multiple_loop.simps BITMAP_ERROR_def)
  then show ?thesis using assms True by (simp add: BITMAP_ERROR_def run_def)
next
  case False
  then have "0 < cnt" by (simp add: word_neq_0_conv)
  moreover have "unat r + unat cnt - 1 \<in> run r cnt" for r using \<open>0 < cnt\<close> by (auto simp: run_def word_less_nat_alt)
  then have "unat r + unat cnt \<le> unat (bit_cnt b)" if "run r cnt \<subseteq> {..<unat (bit_cnt b)}" for r using that by fastforce
  ultimately show ?thesis using bitmap_acquire_marked [OF assms, of cnt] by (auto split: if_splits)
qed

lemma free_map_allocate_core:
  assumes "fs_core L st"
  shows "free_map_allocate cnt st = Some (st, None) \<and> 0 < cnt \<and> (\<forall>i. \<not> run_at (bm (free_map st)) False (unat cnt) i) \<or>
    (\<exists>st' s. free_map_allocate cnt st = Some (st', Some s) \<and> fs_core L st' \<and> io (st\<lparr>free_map := free_map st'\<rparr>) st' \<and>
       run s cnt \<inter> marked (free_map st) = {} \<and> marked (free_map st') = marked (free_map st) \<union> run s cnt \<and>
       unat s + unat cnt \<le> unat (fs_size st) \<and>
       (\<forall>t. unat t \<notin> extent (dinode st 0) \<longrightarrow> sect st' t = sect st t) \<and> (\<forall>t \<in> L. dinode st' t = dinode st t))"
proof -
  have c: "memory st" "space L st" "handles L st" "fm_ok st" using assms(1) by (auto simp: fs_core_def)
  have wf: "wf_bitmap (free_map st)" "bit_cnt (free_map st) = fs_size st" using c(2) by (simp_all add: space_def)
  obtain b r where b: "bitmap_scan_and_flip (free_map st) 0 cnt False = Some (b, r)" "wf_bitmap b" "bit_cnt b = bit_cnt (free_map st)"
      "if r = BITMAP_ERROR then b = free_map st \<and> 0 < cnt \<and> (\<forall>i. \<not> run_at (bm (free_map st)) False (unat cnt) i)
       else run r cnt \<inter> marked (free_map st) = {} \<and> marked b = marked (free_map st) \<union> run r cnt \<and>
         unat r + unat cnt \<le> unat (bit_cnt (free_map st))"
    using scan_flip_any [OF wf(1)] by blast
  show ?thesis
  proof (cases "r = BITMAP_ERROR")
    case True
    then show ?thesis using b by (simp add: free_map_allocate_def)
  next
    case False
    obtain f where f: "free_map_file st = Some f" using fm_okD [OF c(4,3)] by blast
    obtain st' where st': "bitmap_write b f (st\<lparr>free_map := b\<rparr>) = Some (st', True)" "io (st\<lparr>free_map := b\<rparr>) st'" "fm_ok st'" "handles L st'"
        "\<forall>t. unat t \<notin> extent (dinode st 0) \<longrightarrow> sect st' t = sect st t" "\<forall>t \<in> L. dinode st' t = dinode st t"
      using free_map_write [OF assms b(2,3) f] by blast
    note io = io_simps [OF st'(2), simplified]
    have r: "run r cnt \<inter> marked (free_map st) = {}" "marked b = marked (free_map st) \<union> run r cnt"
        "unat r + unat cnt \<le> unat (fs_size st)" using b(4) False wf(2) by simp_all
    have "\<forall>t \<in> L. own st t \<subseteq> marked (free_map st')" using own_marked [OF c(2)] r(2) io by auto
    then have "space L st'" using space_change [OF c(2) st'(6)] b(2,3) io by simp
    then have "fs_core L st'" using io_disk_ok [OF st'(2)] io_memory [OF st'(2)] c(1) st'(3,4) by (simp add: fs_core_def memory_def)
    moreover have "free_map_allocate cnt st = Some (st', Some r)" using b(1) False f st'(1) by (simp add: free_map_allocate_def)
    ultimately show ?thesis using st'(2,5,6) r io by auto
  qed
qed

lemma free_map_release_core:
  assumes "fs_core L st" "run s cnt \<subseteq> marked (free_map st)" "\<forall>t \<in> L. own st t \<inter> run s cnt = {}" "unat s + unat cnt \<le> unat (fs_size st)"
  shows "\<exists>st'. free_map_release s cnt st = Some st' \<and> fs_core L st' \<and> io (st\<lparr>free_map := free_map st'\<rparr>) st' \<and>
       marked (free_map st') = marked (free_map st) - run s cnt \<and>
       (\<forall>t. unat t \<notin> extent (dinode st 0) \<longrightarrow> sect st' t = sect st t) \<and> (\<forall>t \<in> L. dinode st' t = dinode st t)"
proof -
  have c: "memory st" "space L st" "handles L st" "fm_ok st" using assms(1) by (auto simp: fs_core_def)
  have wf: "wf_bitmap (free_map st)" "bit_cnt (free_map st) = fs_size st" using c(2) by (simp_all add: space_def)
  have "bm (free_map st) ! j" if "unat s \<le> j" "j < unat s + unat cnt" for j
    using assms(2) that by (auto simp: run_def marked_def)
  then have all: "bitmap_all (free_map st) s cnt = Some True"
    using bitmap_contains_bm [OF wf(1), of s cnt False] assms(4) wf(2) by (auto simp: bitmap_all_def)
  obtain b where b: "bitmap_set_multiple (free_map st) s cnt False = Some b" "wf_bitmap b" "bit_cnt b = bit_cnt (free_map st)"
      "bm b = fill (unat s) (unat cnt) False (bm (free_map st))"
    using bitmap_set_multiple_bm [OF wf(1), of s cnt False] assms(4) wf(2) by auto
  have m: "marked b = marked (free_map st) - run s cnt" using marked_fill [OF b(3,4)] by simp
  obtain f where f: "free_map_file st = Some f" using fm_okD [OF c(4,3)] by blast
  obtain st' where st': "bitmap_write b f (st\<lparr>free_map := b\<rparr>) = Some (st', True)" "io (st\<lparr>free_map := b\<rparr>) st'" "fm_ok st'" "handles L st'"
      "\<forall>t. unat t \<notin> extent (dinode st 0) \<longrightarrow> sect st' t = sect st t" "\<forall>t \<in> L. dinode st' t = dinode st t"
    using free_map_write [OF assms(1) b(2,3) f] by blast
  note io = io_simps [OF st'(2), simplified]
  have "\<forall>t \<in> L. own st t \<subseteq> marked (free_map st')" using own_marked [OF c(2)] assms(3) m io by blast
  then have "space L st'" using space_change [OF c(2) st'(6)] b(2,3) io by simp
  then have "fs_core L st'" using io_disk_ok [OF st'(2)] io_memory [OF st'(2)] c(1) st'(3,4) by (simp add: fs_core_def memory_def)
  moreover have "free_map_release s cnt st = Some st'" using all b(1) f st'(1) by (simp add: free_map_release_def)
  ultimately show ?thesis using st'(2,5,6) m io by auto
qed

lemma fs_core_frame:
  assumes "fs_core L st" "io st st'" "\<forall>t. unat t \<notin> X \<longrightarrow> sect st' t = sect st t" "\<forall>t \<in> L. own st t \<inter> X = {}"
  shows "fs_core L st'" "\<forall>t \<in> L. dinode st' t = dinode st t" "\<forall>t \<in> L. content st' (dinode st t) = content st (dinode st t)"
proof -
  have c: "memory st" "space L st" "handles L st" "fm_ok st" using assms(1) by (auto simp: fs_core_def)
  note io = io_simps [OF assms(2)]
  show sd: "\<forall>t \<in> L. dinode st' t = dinode st t" using assms(3,4) by (auto simp: dinode_def own_def)
  show sc: "\<forall>t \<in> L. content st' (dinode st t) = content st (dinode st t)"
    using assms(3,4) by (intro ballI content_cong spaceD(2) [OF c(2)]) (auto simp: own_def)
  have "0 \<in> L" using c(2) by (simp add: space_def)
  obtain f fl i where g: "free_map_file st = Some f" "files st f = Some fl" "inodes st (finode fl) = Some i" "isector i = 0"
    "data i = dinode st 0" "deny_write_cnt i = 0" "dlength (dinode st 0) = int (4 * length (bits (free_map st)))"
    "stores (content st (dinode st 0)) (free_map st)" "\<not> deny_write fl" "file_refs st (finode fl) = {f}" "\<not> removed i"
    by (rule fm_okD [OF c(4,3)])
  have "content st' (dinode st 0) = content st (dinode st 0)" using sc \<open>0 \<in> L\<close> by blast
  then have "fm_ok st'" using g by (simp add: fm_ok_def io file_refs_def FREE_MAP_SECTOR_def)
  moreover have "space L st'" using space_cong [OF c(2) sd] io by simp
  moreover have "handles L st'" using handles_cong [OF c(3) sd] io assms(2) by (simp add: io_def)
  ultimately show "fs_core L st'" using io_disk_ok [OF assms(2)] io_memory [OF assms(2) c(1)] by (simp add: fs_core_def)
qed

lemma fs_core_insert:
  assumes "fs_core L st" "s < fs_size st" "data_ok st (dinode st s)" "own st s \<subseteq> marked (free_map st)" "unat s \<notin> extent (dinode st s)"
    "\<forall>t \<in> L. own st s \<inter> own st t = {}"
  shows "fs_core (insert s L) st"
proof -
  have "space (insert s L) st" using assms unfolding fs_core_def space_def by blast
  moreover have "handles (insert s L) st" using assms(1) by (auto simp: fs_core_def handles_def inode_ok_def)
  ultimately show ?thesis using assms(1) by (simp add: fs_core_def)
qed

lemma zero_sectors_ok:
  assumes "disk_ok st" "unat s + n \<le> unat (fs_size st)"
  shows "\<exists>st'. zero_sectors n s st = Some st' \<and> io st st' \<and>
    (\<forall>t. sect st' t = (if unat t \<in> {unat s ..< unat s + n} then replicate 512 0 else sect st t))"
  using assms
proof (induction n arbitrary: s st)
  case 0
  then show ?case by (simp add: io_refl)
next
  case (Suc n)
  have l: "s < fs_size st" using Suc.prems(2) by (simp add: word_less_nat_alt)
  then have s1: "unat (s + 1) = Suc (unat s)" by (rule unat_Suc_less)
  obtain st1 where st1: "fs_write s (replicate 512 0) st = Some st1" "io st st1" "sect st1 = (sect st)(s := replicate 512 0)"
    using fs_write_ok [OF Suc.prems(1) l, of "replicate 512 0"] by auto
  have "unat (s + 1) + n \<le> unat (fs_size st1)" using Suc.prems(2) s1 io_simps(7) [OF st1(2)] by simp
  then obtain st' where st': "zero_sectors n (s + 1) st1 = Some st'" "io st1 st'"
      "\<forall>t. sect st' t = (if unat t \<in> {unat (s + 1) ..< unat (s + 1) + n} then replicate 512 0 else sect st1 t)"
    using Suc.IH [OF io_disk_ok [OF st1(2)]] by blast
  have "sect st' t = (if unat t \<in> {unat s ..< unat s + Suc n} then replicate 512 0 else sect st t)" for t
  proof (cases "t = s")
    case True
    then show ?thesis using st'(3) st1(3) s1 by simp
  next
    case False
    then have "unat t \<noteq> unat s" by (simp add: word_unat_eq_iff)
    then show ?thesis using False st'(3) st1(3) s1 by auto
  qed
  then show ?case using st1(1) st'(1) io_trans [OF st1(2) st'(2)] by simp
qed

lemma bytes_to_sectors_ok:
  assumes "0 \<le> len" "len + 512 < 2 ^ 31"
  shows "\<exists>w. bytes_to_sectors len = Some w \<and> unat w = (nat len + 511) div 512"
proof -
  have "(len + 512 - 1) sdiv 512 = (len + 511) div 512" using assms(1) by (simp add: signed_divide_int_def sgn_if)
  moreover have "(len + 511) div 512 = int ((nat len + 511) div 512)" using assms(1) by (simp add: zdiv_int)
  moreover have "(nat len + 511) div 512 < 2 ^ 32"
    by (rule le_less_trans [OF div_le_dividend]) (use assms in simp)
  ultimately show ?thesis using assms by (simp add: bytes_to_sectors_def c_int_def unat_of_nat)
qed

lemma sint_word_of_int: "- (2 ^ 31) \<le> i \<Longrightarrow> i < 2 ^ 31 \<Longrightarrow> sint (word_of_int i :: u32) = i"
  by (simp add: signed_of_int signed_take_bit_int_eq_self)

lemma inode_of_bytes: "0 \<le> dlength d \<Longrightarrow> dlength d < 2 ^ 31 \<Longrightarrow> inode_of (inode_bytes d) = d"
  by (simp add: inode_of_def inode_bytes_def sint_word_of_int)

lemma length_inode_bytes [simp]: "length (inode_bytes d) = 512"
  by (simp add: inode_bytes_def)

lemma fs_malloc_io:
  assumes "disk_ok st" "memory st"
  shows "\<exists>st'. fs_malloc st = (st', Some (next_addr st)) \<and> io st st' \<and> sect st' = sect st \<and> next_addr st' = Suc (next_addr st)"
proof -
  have "sect (fst (fs_malloc st)) = sect st" "fs_size (fst (fs_malloc st)) = fs_size st"
    by (auto simp: fs_malloc_def sect_def fs_size_def fun_eq_iff)
  then have "io st (fst (fs_malloc st))" using assms by (simp add: io_def disk_ok_def) (simp add: fs_malloc_def memory_def)
  then show ?thesis using assms(2) \<open>sect (fst (fs_malloc st)) = sect st\<close> by (simp add: fs_malloc_def memory_def)
qed

text \<open>Creating an inode in a sector that is marked and that nothing uses.\<close>

lemma inode_create_core:
  assumes "fs_core L st" "s < fs_size st" "unat s \<in> marked (free_map st)" "\<forall>t \<in> L. unat s \<notin> own st t" "0 \<le> len" "len + 512 < 2 ^ 31"
  shows "(\<exists>st'. inode_create s len st = Some (st', False) \<and> io st st' \<and> sect st' = sect st \<and>
       (\<forall>i. \<not> run_at (bm (free_map st)) False ((nat len + 511) div 512) i)) \<or>
    (\<exists>st'. inode_create s len st = Some (st', True) \<and> fs_core (insert s L) st' \<and> io (st\<lparr>free_map := free_map st'\<rparr>) st' \<and>
       dlength (dinode st' s) = len \<and> content st' (dinode st' s) = replicate (nat len) 0 \<and>
       (\<forall>t \<in> L. dinode st' t = dinode st t \<and> (t \<noteq> 0 \<longrightarrow> content st' (dinode st t) = content st (dinode st t))) \<and>
       marked (free_map st') = marked (free_map st) \<union> extent (dinode st' s) \<and> extent (dinode st' s) \<inter> marked (free_map st) = {})"
proof -
  obtain w where w: "bytes_to_sectors len = Some w" "unat w = (nat len + 511) div 512" using bytes_to_sectors_ok [OF assms(5,6)] by blast
  have c0: "disk_ok st" "memory st" using assms(1) by (auto simp: fs_core_def)
  obtain st1 where st1: "fs_malloc st = (st1, Some (next_addr st))" "io st st1" "sect st1 = sect st" using fs_malloc_io [OF c0] by blast
  have core1: "fs_core L st1" using fs_core_io [OF assms(1) st1(2,3)] .
  note io1 = io_simps [OF st1(2)]
  have d1: "dinode st1 = dinode st" "own st1 = own st" "content st1 = content st"
    by (simp_all add: dinode_def own_def fun_eq_iff st1(3) content_def data_byte_def)
  from free_map_allocate_core [OF core1, of w] show ?thesis
  proof (elim disjE exE conjE)
    assume a: "free_map_allocate w st1 = Some (st1, None)" "\<forall>i. \<not> run_at (bm (free_map st1)) False (unat w) i"
    then have "inode_create s len st = Some (st1, False)" using assms(5) st1(1) w(1) by (simp add: inode_create_def)
    then show ?thesis using st1(2,3) a(2) w(2) io1 by auto
  next
    fix st2 s0
    assume a: "free_map_allocate w st1 = Some (st2, Some s0)" "fs_core L st2" "io (st1\<lparr>free_map := free_map st2\<rparr>) st2"
      "run s0 w \<inter> marked (free_map st1) = {}" "marked (free_map st2) = marked (free_map st1) \<union> run s0 w"
      "unat s0 + unat w \<le> unat (fs_size st1)" "\<forall>t. unat t \<notin> extent (dinode st1 0) \<longrightarrow> sect st2 t = sect st1 t"
      "\<forall>t \<in> L. dinode st2 t = dinode st1 t"
    note io2 = io_simps [OF a(3), simplified]
    have sz2: "fs_size st2 = fs_size st" using io2 io1 by simp
    have sp: "space L st" "0 \<in> L" using assms(1) by (auto simp: fs_core_def space_def)
    define d where "d = \<lparr>start = s0, dlength = len, magic = INODE_MAGIC\<rparr>"
    have dd: "inode_of (inode_bytes d) = d" using assms(5,6) by (intro inode_of_bytes) (simp_all add: d_def)
    have ext: "extent d = run s0 w" by (simp add: extent_def run_def nsect_def d_def w(2))
    have s: "unat s \<notin> extent d" using a(4) assms(3) io1 ext by auto
    have own2: "own st2 t = own st t" if "t \<in> L" for t using a(8) that d1 by (simp add: own_def)
    have free: "own st t \<inter> insert (unat s) (extent d) = {}" if "t \<in> L" for t
      using own_marked [OF sp(1) that] a(4) assms(4) that io1 ext by auto
    obtain st3 where st3: "fs_write s (inode_bytes d) st2 = Some st3" "io st2 st3" "sect st3 = (sect st2)(s := inode_bytes d)"
      using fs_write_ok [of st2 s "inode_bytes d"] a(2) assms(2) sz2 by (auto simp: fs_core_def)
    obtain st4 where st4: "(if 0 < w then zero_sectors (unat w) s0 st3 else Some st3) = Some st4" "io st3 st4"
        "\<forall>t. sect st4 t = (if unat t \<in> extent d then replicate 512 0 else sect st3 t)"
    proof (cases "0 < w")
      case True
      have "unat s0 + unat w \<le> unat (fs_size st3)" using a(6) io_simps(7) [OF st3(2)] sz2 io1 by simp
      then obtain z where "zero_sectors (unat w) s0 st3 = Some z" "io st3 z"
          "\<forall>t. sect z t = (if unat t \<in> {unat s0 ..< unat s0 + unat w} then replicate 512 0 else sect st3 t)"
        using zero_sectors_ok [OF io_disk_ok [OF st3(2)], of s0 "unat w"] by blast
      then show ?thesis using that [of z] True unfolding ext run_def by simp
    next
      case False
      then have "w = 0" using word_gt_0 by blast
      then have "extent d = {}" using ext by (simp add: run_def)
      then show ?thesis using that [of st3] False io_refl [OF io_disk_ok [OF st3(2)]] by simp
    qed
    have io24: "io st2 st4" using io_trans [OF st3(2) st4(2)] .
    have ch: "\<forall>t. unat t \<notin> insert (unat s) (extent d) \<longrightarrow> sect st4 t = sect st2 t" using st3(3) st4(3) by auto
    have fr: "\<forall>t \<in> L. own st2 t \<inter> insert (unat s) (extent d) = {}" using free own2 by blast
    note core4 = fs_core_frame [OF a(2) io24 ch fr]
    have ds: "dinode st4 s = d" using st4(3) st3(3) s dd by (simp add: dinode_def)
    have sz4: "fs_size st4 = fs_size st" "free_map st4 = free_map st2" using io_simps(5,7) [OF io24] sz2 by simp_all
    have dok: "data_ok st4 d" using assms(5,6) a(6) sz4 io1 by (simp add: data_ok_def d_def nsect_def w(2))
    have "own st4 s \<subseteq> marked (free_map st4)" using assms(3) a(5) io1 sz4 ds ext by (auto simp: own_def)
    moreover have "\<forall>t \<in> L. own st4 s \<inter> own st4 t = {}"
      using free own2 core4(2) ds by (auto simp: own_def)
    ultimately have core5: "fs_core (insert s L) st4"
      using fs_core_insert [OF core4(1)] assms(2) dok s ds sz4 by simp
    have zero: "data_byte st4 d i = 0" if "i < nat len" for i
      using data_sector(3) [OF dok, of i] that st4(3) by (simp add: data_byte_def d_def)
    then have "content st4 d = replicate (nat len) 0" by (intro nth_equalityI) (simp_all add: content_def d_def)
    moreover have "content st4 (dinode st t) = content st (dinode st t)" if "t \<in> L" "t \<noteq> 0" for t
    proof -
      have "content st2 (dinode st1 t) = content st1 (dinode st1 t)"
        using core1 same_content [of L st1 0 st2 t] a(7) that sp(2) by (simp add: fs_core_def)
      then show ?thesis using core4(3) a(8) that d1 by simp
    qed
    moreover have "inode_create s len st = Some (st4, True)"
      using assms(5) st1(1) w(1) a(1) st3(1) st4(1) by (simp add: inode_create_def d_def)
    moreover have "io (st\<lparr>free_map := free_map st4\<rparr>) st4"
      using io24 a(3) st1(2) by (simp add: io_def)
    moreover have "marked (free_map st4) = marked (free_map st) \<union> extent (dinode st4 s)" using a(5) io1 sz4 ds ext by simp
    moreover have "extent (dinode st4 s) \<inter> marked (free_map st) = {}" using a(4) io1 ds ext by simp
    moreover have "dlength (dinode st4 s) = len" using ds by (simp add: d_def)
    ultimately show ?thesis using core5 ds core4(2) a(8) d1 by auto
  qed
qed

section \<open>Opening and closing\<close>

lemma handles_set_inode:
  assumes "handles L st" "inodes st p = Some i" "inode_ok L st p i'" "isector i' = isector i"
  shows "handles L (set_inode p i' st)"
proof -
  let ?st = "set_inode p i' st"
  have f: "inodes ?st = (inodes st)(p \<mapsto> i')" "open_inodes ?st = open_inodes st" "files ?st = files st" "next_addr ?st = next_addr st"
      "dinode ?st = dinode st" by (auto simp: set_inode_def dinode_def sect_def fs_size_def fun_eq_iff)
  have r: "file_refs ?st = file_refs st" "deny_refs ?st = deny_refs st" by (auto simp: file_refs_def deny_refs_def f fun_eq_iff)
  have ok: "inode_ok L ?st q j \<longleftrightarrow> inode_ok L st q j" for q j by (simp add: inode_ok_def f r)
  have dom: "dom (inodes ?st) = dom (inodes st)" using assms(2) by (auto simp: f)
  have inj: "inodes ?st a = Some x \<Longrightarrow> inodes ?st b = Some y \<Longrightarrow> isector x = isector y \<Longrightarrow> a = b" for a b x y
    using assms(1,2,4) by (simp add: handles_def f split: if_splits)
  have each: "inode_ok L st q j" if "inodes ?st q = Some j" for q j
    using that assms(1,3) by (auto simp: handles_def f(1) split: if_splits)
  show ?thesis
    unfolding handles_def dom ok f(2-4) using assms(1) inj each unfolding handles_def by blast
qed

lemma fm_ok_set_inode:
  assumes "fm_ok st" "inodes st p = Some i" "data i' = data i" "isector i' = isector i" "removed i' \<longrightarrow> removed i \<or> isector i \<noteq> 0"
  shows "fm_ok (set_inode p i' st)"
proof -
  let ?st = "set_inode p i' st"
  have f: "inodes ?st = (inodes st)(p \<mapsto> i')" "files ?st = files st" "free_map_file ?st = free_map_file st" "free_map ?st = free_map st"
      "content ?st = content st"
    by (auto simp: set_inode_def content_def data_byte_def sect_def fs_size_def fun_eq_iff)
  have r: "file_refs ?st = file_refs st" by (auto simp: file_refs_def f fun_eq_iff)
  obtain g fl j where *: "free_map_file st = Some g" "files st g = Some fl" "\<not> deny_write fl" "inodes st (finode fl) = Some j"
     "isector j = FREE_MAP_SECTOR" "\<not> removed j" "file_refs st (finode fl) = {g}"
     "dlength (data j) = int (4 * length (bits (free_map st)))" "stores (content st (data j)) (free_map st)"
    using assms(1) by (auto simp: fm_ok_def)
  show ?thesis
  proof (cases "finode fl = p")
    case True
    then have "j = i" using * assms(2) by simp
    then show ?thesis using * assms(3-5) True
      by (intro fm_ok_def [THEN iffD2] exI [of _ g] exI [of _ fl] exI [of _ i']) (simp add: f r FREE_MAP_SECTOR_def)
  next
    case False
    then show ?thesis using *
      by (intro fm_ok_def [THEN iffD2] exI [of _ g] exI [of _ fl] exI [of _ j]) (simp add: f r FREE_MAP_SECTOR_def)
  qed
qed

lemma set_inode_simps [simp]:
  "disk_ok (set_inode p i st) = disk_ok st" "memory (set_inode p i st) = memory st" "sect (set_inode p i st) = sect st"
  "fs_size (set_inode p i st) = fs_size st" "dinode (set_inode p i st) = dinode st" "content (set_inode p i st) = content st"
  "files (set_inode p i st) = files st" "free_map (set_inode p i st) = free_map st" "next_addr (set_inode p i st) = next_addr st"
  "free_map_file (set_inode p i st) = free_map_file st" "open_inodes (set_inode p i st) = open_inodes st"
  "inodes (set_inode p i st) = (inodes st)(p \<mapsto> i)" "fs_device (set_inode p i st) = fs_device st"
  by (simp_all add: set_inode_def disk_ok_def memory_def sect_def fs_size_def dinode_def content_def data_byte_def fun_eq_iff)

lemma space_set_inode [simp]: "space L (set_inode p i st) = space L st"
  by (simp add: space_def own_def data_ok_def)

lemma fs_core_set_inode:
  assumes "fs_core L st" "inodes st p = Some i" "isector i' = isector i" "data i' = data i" "deny_write_cnt i' = deny_write_cnt i"
    "0 < open_cnt i'" "int (card (file_refs st p)) \<le> open_cnt i'" "removed i' \<longrightarrow> removed i \<or> isector i \<noteq> 0"
  shows "fs_core L (set_inode p i' st)"
proof -
  have h: "handles L st" "fm_ok st" using assms(1) by (auto simp: fs_core_def)
  have "inode_ok L st p i'" using assms(3-7) handlesD [OF h(1) assms(2)] by (simp add: inode_ok_def)
  then show ?thesis
    using handles_set_inode [OF h(1) assms(2) _ assms(3)] fm_ok_set_inode [OF h(2) assms(2,4,3,8)] assms(1) by (simp add: fs_core_def)
qed

lemma find_open_ok:
  assumes "set ps \<subseteq> dom (inodes st)"
  shows "\<exists>r. find_open s ps st = Some r \<and> (case r of None \<Rightarrow> \<forall>p \<in> set ps. \<forall>i. inodes st p = Some i \<longrightarrow> isector i \<noteq> s
    | Some p \<Rightarrow> \<exists>i. inodes st p = Some i \<and> isector i = s)"
  using assms
proof (induction ps)
  case (Cons p ps)
  then obtain i r where *: "inodes st p = Some i" "find_open s ps st = Some r"
      "case r of None \<Rightarrow> \<forall>p \<in> set ps. \<forall>i. inodes st p = Some i \<longrightarrow> isector i \<noteq> s | Some p \<Rightarrow> \<exists>i. inodes st p = Some i \<and> isector i = s"
    by auto
  then show ?case by (cases "isector i = s"; cases r) auto
qed simp

text \<open>Opening an inode gives a handle with one reference more than its files have.\<close>

lemma inode_open_core:
  assumes "fs_core L st" "s \<in> L"
  shows "\<exists>st' p i. inode_open s st = Some (st', Some p) \<and> fs_core L st' \<and> inodes st' p = Some i \<and> isector i = s \<and>
    int (card (file_refs st' p)) < open_cnt i \<and> sect st' = sect st \<and> files st' = files st \<and> free_map st' = free_map st \<and>
    fs_size st' = fs_size st \<and> free_map_file st' = free_map_file st \<and>
    (\<forall>q. q \<noteq> p \<longrightarrow> inodes st' q = inodes st q) \<and>
    (case inodes st p of Some j \<Rightarrow> i = j\<lparr>open_cnt := open_cnt j + 1\<rparr> |
      None \<Rightarrow> \<not> removed i \<and> open_cnt i = 1 \<and> (\<forall>q j. inodes st q = Some j \<longrightarrow> isector j \<noteq> s) \<and> p = next_addr st)"
proof -
  have h: "disk_ok st" "memory st" "space L st" "handles L st" "fm_ok st" using assms(1) by (auto simp: fs_core_def)
  have se: "set (open_inodes st) = dom (inodes st)" using h(4) by (simp add: handles_def)
  obtain r where r: "find_open s (open_inodes st) st = Some r" "case r of None \<Rightarrow> \<forall>p \<in> dom (inodes st). \<forall>i. inodes st p = Some i \<longrightarrow> isector i \<noteq> s
      | Some p \<Rightarrow> \<exists>i. inodes st p = Some i \<and> isector i = s"
    using find_open_ok [of "open_inodes st" st s] unfolding se by blast
  show ?thesis
  proof (cases r)
    case (Some p)
    then obtain i where i: "inodes st p = Some i" "isector i = s" using r(2) by auto
    let ?i = "i\<lparr>open_cnt := open_cnt i + 1\<rparr>"
    have "fs_core L (set_inode p ?i st)" using handlesD [OF h(4) i(1)] by (intro fs_core_set_inode [OF assms(1) i(1)]) auto
    moreover have "inode_open s st = Some (set_inode p ?i st, Some p)" using r(1) Some i(1) by (simp add: inode_open_def inode_reopen_def)
    moreover have "file_refs (set_inode p ?i st) = file_refs st" by (simp add: file_refs_def fun_eq_iff)
    ultimately show ?thesis using i handlesD(6) [OF h(4) i(1)] by (intro exI [of _ "set_inode p ?i st"] exI [of _ p] exI [of _ ?i]) simp
  next
    case None
    obtain st1 where st1: "fs_malloc st = (st1, Some (next_addr st))" "io st st1" "sect st1 = sect st" "next_addr st1 = Suc (next_addr st)"
      using fs_malloc_io [OF h(1,2)] by blast
    let ?p = "next_addr st" and ?st1 = "st1\<lparr>open_inodes := next_addr st # open_inodes st1\<rparr>"
    have d1: "disk_ok ?st1" using io_disk_ok [OF st1(2)] by simp
    have s1: "sect ?st1 = sect st" using st1(3) by simp
    have "s < fs_size st1" using spaceD(1) [OF h(3) assms(2)] io_simps(7) [OF st1(2)] by simp
    then obtain st2 where st2: "fs_read s ?st1 = Some (st2, sect st s)" "io ?st1 st2" "sect st2 = sect st"
      using fs_read_ok [OF d1, of s] s1 by auto
    note io1 = io_simps [OF st1(2)] and io2 = io_simps [OF st2(2), simplified]
    define i where "i = \<lparr>isector = s, open_cnt = 1, removed = False, deny_write_cnt = 0, data = inode_of (sect st s)\<rparr>"
    let ?st = "set_inode ?p i st2"
    have new: "inodes st ?p = None" using handlesD(1) [OF h(4), of ?p] by (cases "inodes st ?p") auto
    have op: "inode_open s st = Some (?st, Some ?p)" using r(1) None st1(1) st2(1) by (simp add: inode_open_def i_def)
    have f: "files ?st = files st" "inodes ?st = (inodes st)(?p \<mapsto> i)" "dinode ?st = dinode st" "open_inodes ?st = ?p # open_inodes st"
        "content ?st = content st" "free_map ?st = free_map st" "free_map_file ?st = free_map_file st" "fs_size ?st = fs_size st"
      using io1 io2 st2(3) by (simp_all add: fun_eq_iff dinode_def content_def data_byte_def)
    have na: "Suc ?p \<le> next_addr ?st" using st1(4) st2(2) by (simp add: io_def)
    note fr = refs_cong [OF f(1)]
    note none = no_refs [OF h(4) new]
    have ok: "inode_ok L ?st ?p i" unfolding inode_ok_def fr f(3) using assms(2) na none by (simp add: dinode_def i_def)
    have old: "inode_ok L ?st q j" if "inodes st q = Some j" for q j
      unfolding inode_ok_def fr f(3) using handlesD [OF h(4) that] na by auto
    have ns: "\<forall>q j. inodes st q = Some j \<longrightarrow> isector j \<noteq> s" using r(2) None by auto
    have "handles L ?st"
      unfolding handles_def f
    proof (intro conjI allI impI)
      show "distinct (?p # open_inodes st)" "set (?p # open_inodes st) = dom ((inodes st)(?p \<mapsto> i))" "finite (dom (files st))"
        using h(4) new by (auto simp: handles_def)
      show "inode_ok L ?st q j" if "((inodes st)(?p \<mapsto> i)) q = Some j" for q j using that ok old by (auto split: if_splits)
      show "a = b" if "((inodes st)(?p \<mapsto> i)) a = Some x" "((inodes st)(?p \<mapsto> i)) b = Some y" "isector x = isector y" for a b x y
      proof -
        have "isector i = s" by (simp add: i_def)
        moreover have "inodes st a = Some x \<Longrightarrow> inodes st b = Some y \<Longrightarrow> a = b" using that(3) h(4) unfolding handles_def by blast
        moreover have "inodes st a = Some x \<Longrightarrow> isector x \<noteq> s" "inodes st b = Some y \<Longrightarrow> isector y \<noteq> s" using ns by blast+
        ultimately show ?thesis using that by (auto split: if_splits)
      qed
      show "g < next_addr ?st" "finode fl \<in> dom ((inodes st)(?p \<mapsto> i))" "0 \<le> pos fl" if "files st g = Some fl" for g fl
        using handlesF [OF h(4) that] na by auto
    qed
    moreover have "fm_ok ?st"
    proof -
      have "inodes ?st q = inodes st q" if "inodes st q \<noteq> None" for q unfolding f(2) using that new by auto
      then show ?thesis using h(5) unfolding fm_ok_def f fr by (metis option.distinct(1))
    qed
    moreover have "space L ?st" using space_cong [OF h(3)] f by simp
    moreover have "memory st2" using io_memory [OF st2(2)] io_memory [OF st1(2) h(2)] by simp
    ultimately have "fs_core L ?st" using io_disk_ok [OF st2(2)] by (simp add: fs_core_def)
    then show ?thesis using op f new none fr ns st2(3)
      by (intro exI [of _ ?st] exI [of _ ?p] exI [of _ i]) (simp add: i_def)
  qed
qed

text \<open>Closing: removing a handle, and giving back the sectors of a removed inode.\<close>

lemma handles_drop_inode:
  assumes "handles L st" "inodes st p = Some i" "file_refs st p = {}" "L' = L \<or> L' = L - {isector i}"
  shows "handles L' (st\<lparr>open_inodes := remove1 p (open_inodes st), inodes := (inodes st)(p := None)\<rparr>)"
proof -
  let ?st = "st\<lparr>open_inodes := remove1 p (open_inodes st), inodes := (inodes st)(p := None)\<rparr>"
  have r: "file_refs ?st = file_refs st" "deny_refs ?st = deny_refs st" by (rule refs_cong, simp)+
  have inj: "inodes st a = Some x \<Longrightarrow> inodes st b = Some y \<Longrightarrow> isector x = isector y \<Longrightarrow> a = b" for a b x y
    using assms(1) unfolding handles_def by blast
  have ok: "inode_ok L' ?st q j" if "inodes st q = Some j" "q \<noteq> p" for q j
  proof -
    have "isector j \<in> L'" using handlesD(2) [OF assms(1) that(1)] inj [OF that(1) assms(2)] that(2) assms(4) by blast
    then show ?thesis using handlesD [OF assms(1) that(1)] unfolding inode_ok_def r by simp
  qed
  have files: "g < next_addr st" "finode fl \<in> dom (inodes ?st)" "0 \<le> pos fl" if "files st g = Some fl" for g fl
    using handlesF [OF assms(1) that] assms(3) that by (auto simp: file_refs_def)
  have l: "distinct (remove1 p (open_inodes st))" "set (remove1 p (open_inodes st)) = dom (inodes ?st)" "finite (dom (files st))"
    using assms(1) by (auto simp: handles_def)
  show ?thesis
    unfolding handles_def
  proof (intro conjI allI impI)
    show "inode_ok L' ?st q j" if "inodes ?st q = Some j" for q j using that ok by (simp split: if_splits)
    show "a = b" if "inodes ?st a = Some x" "inodes ?st b = Some y" "isector x = isector y" for a b x y
      using that inj by (simp split: if_splits)
  qed (use files l in simp_all)
qed

lemma fs_core_drop_inode:
  assumes "fs_core L st" "inodes st p = Some i" "file_refs st p = {}" "L' = L \<or> isector i \<noteq> 0 \<and> L' = L - {isector i}"
  shows "fs_core L' (st\<lparr>open_inodes := remove1 p (open_inodes st), inodes := (inodes st)(p := None)\<rparr>)"
proof -
  let ?st = "st\<lparr>open_inodes := remove1 p (open_inodes st), inodes := (inodes st)(p := None)\<rparr>"
  have h: "space L st" "handles L st" "fm_ok st" using assms(1) by (auto simp: fs_core_def)
  have "handles L' ?st" using handles_drop_inode [OF h(2) assms(2,3)] assms(4) by blast
  moreover have "0 \<in> L" using h(1) by (simp add: space_def)
  then have "L' \<subseteq> L" "0 \<in> L'" using assms(4) by auto
  from space_mono [OF h(1) this] have "space L' st" .
  then have "space L' ?st" by (rule space_cong) simp_all
  moreover have "fm_ok ?st"
  proof -
    obtain f fl j where *: "free_map_file st = Some f" "files st f = Some fl" "\<not> deny_write fl" "inodes st (finode fl) = Some j"
       "isector j = FREE_MAP_SECTOR" "\<not> removed j" "file_refs st (finode fl) = {f}"
       "dlength (data j) = int (4 * length (bits (free_map st)))" "stores (content st (data j)) (free_map st)"
      using h(3) by (auto simp: fm_ok_def)
    then have "finode fl \<noteq> p" using assms(3) by auto
    moreover have "file_refs ?st = file_refs st" by (rule refs_cong) simp
    ultimately show ?thesis using * by (simp add: fm_ok_def)
  qed
  ultimately show ?thesis using assms(1) by (simp add: fs_core_def)
qed

text \<open>Nothing in the free map depends on the handles that are not files.\<close>

definition same_handles :: "fs \<Rightarrow> fs \<Rightarrow> bool" where
  "same_handles st st' \<longleftrightarrow> inodes st' = inodes st \<and> open_inodes st' = open_inodes st \<and> files st' = files st \<and>
     free_map_file st' = free_map_file st \<and> fs_size st' = fs_size st \<and> fs_device st' = fs_device st \<and> next_addr st \<le> next_addr st'"

lemma same_handles_io: "io (st\<lparr>free_map := b\<rparr>) st' \<Longrightarrow> same_handles st st'"
  by (simp add: io_def same_handles_def)

lemma same_handles_trans: "same_handles a b \<Longrightarrow> same_handles b c \<Longrightarrow> same_handles a c"
  by (simp add: same_handles_def)

text \<open>Releasing an inode and its data: \<open>s\<close> leaves the set of inodes in use.\<close>

lemma fs_core_forget:
  assumes "space L st" "s \<in> L" "s \<noteq> 0"
  shows "space (L - {s}) st"
  using assms by (auto simp: space_def)

lemma release_inode:
  assumes "fs_core L st" "s \<notin> L" "space (insert s L) st"
  shows "\<exists>st' st1 w. free_map_release s 1 st = Some st1 \<and> bytes_to_sectors (dlength (dinode st s)) = Some w \<and>
    free_map_release (start (dinode st s)) w st1 = Some st' \<and>
    fs_core L st' \<and> same_handles st st' \<and> marked (free_map st') = marked (free_map st) - own st s \<and>
    (\<forall>t \<in> L. dinode st' t = dinode st t \<and> (t \<noteq> 0 \<longrightarrow> content st' (dinode st t) = content st (dinode st t))) \<and>
    same_handles st st1"
proof -
  let ?d = "dinode st s"
  have sp: "s < fs_size st" "data_ok st ?d" "own st s \<subseteq> marked (free_map st)" "unat s \<notin> extent ?d" using spaceD [OF assms(3)] by auto
  have dis: "own st t \<inter> own st s = {}" if "t \<in> L" for t using assms(2,3) that by (auto simp: space_def)
  obtain w where w: "bytes_to_sectors (dlength ?d) = Some w" "unat w = nsect ?d"
    using bytes_to_sectors_ok [of "dlength ?d"] sp(2) by (auto simp: data_ok_def nsect_def)
  have ext: "extent ?d = run (start ?d) w" by (simp add: extent_def run_def w(2))
  have r1: "run s 1 = {unat s}" by (auto simp: run_def)
  have one: "run s 1 \<subseteq> marked (free_map st)" "\<forall>t \<in> L. own st t \<inter> run s 1 = {}" "unat s + unat (1 :: u32) \<le> unat (fs_size st)"
    using sp(1,3) dis r1 by (auto simp: own_def word_less_nat_alt)
  obtain st1 where st1: "free_map_release s 1 st = Some st1" "fs_core L st1" "io (st\<lparr>free_map := free_map st1\<rparr>) st1"
      "marked (free_map st1) = marked (free_map st) - run s 1" "\<forall>t. unat t \<notin> extent (dinode st 0) \<longrightarrow> sect st1 t = sect st t"
      "\<forall>t \<in> L. dinode st1 t = dinode st t"
    using free_map_release_core [OF assms(1) one] by blast
  note io1 = io_simps [OF st1(3), simplified]
  have two: "run (start ?d) w \<subseteq> marked (free_map st1)" "\<forall>t \<in> L. own st1 t \<inter> run (start ?d) w = {}"
      "unat (start ?d) + unat w \<le> unat (fs_size st1)"
  proof -
    show "run (start ?d) w \<subseteq> marked (free_map st1)" using sp(3,4) st1(4) r1 ext by (auto simp: own_def)
    show "\<forall>t \<in> L. own st1 t \<inter> run (start ?d) w = {}" using dis st1(6) unfolding own_def ext by fastforce
    show "unat (start ?d) + unat w \<le> unat (fs_size st1)" using sp(2) w(2) io1 by (simp add: data_ok_def)
  qed
  obtain st2 where st2: "free_map_release (start ?d) w st1 = Some st2" "fs_core L st2" "io (st1\<lparr>free_map := free_map st2\<rparr>) st2"
      "marked (free_map st2) = marked (free_map st1) - run (start ?d) w" "\<forall>t. unat t \<notin> extent (dinode st1 0) \<longrightarrow> sect st2 t = sect st1 t"
      "\<forall>t \<in> L. dinode st2 t = dinode st1 t"
    using free_map_release_core [OF st1(2) two] by blast
  have z: "0 \<in> L" "space L st" "space L st1" using assms(1) st1(2) by (auto simp: fs_core_def space_def)
  have c: "content st2 (dinode st t) = content st (dinode st t)" if "t \<in> L" "t \<noteq> 0" for t
    using same_content [OF z(2,1) st1(5) that] same_content [OF z(3,1) st2(5) that] st1(6) that by simp
  have "same_handles st st2" using same_handles_trans [OF same_handles_io [OF st1(3)] same_handles_io [OF st2(3)]] .
  moreover have "marked (free_map st2) = marked (free_map st) - own st s" using st1(4) st2(4) r1 ext by (auto simp: own_def)
  ultimately show ?thesis using st1(1,6) st2(1,2,6) w(1) c same_handles_io [OF st1(3)] by auto
qed

text \<open>The free map operations do not look at handles other than that of the free map file.\<close>

definition with_handles :: "(nat \<rightharpoonup> inode) \<Rightarrow> nat list \<Rightarrow> (nat \<rightharpoonup> file_t) \<Rightarrow> fs \<Rightarrow> fs" where
  "with_handles I Q F st = st\<lparr>inodes := I, open_inodes := Q, files := F\<rparr>"

lemma with_handles_simps [simp]:
  "inodes (with_handles I Q F st) = I" "open_inodes (with_handles I Q F st) = Q" "files (with_handles I Q F st) = F"
  "devs (with_handles I Q F st) = devs st" "fs_device (with_handles I Q F st) = fs_device st"
  "free_map (with_handles I Q F st) = free_map st" "free_map_file (with_handles I Q F st) = free_map_file st"
  "malloc_ok (with_handles I Q F st) = malloc_ok st" "next_addr (with_handles I Q F st) = next_addr st"
  "with_handles I Q F (with_handles I' Q' F' st) = with_handles I Q F st"
  "(with_handles I Q F st)\<lparr>free_map := b\<rparr> = with_handles I Q F (st\<lparr>free_map := b\<rparr>)"
  "(with_handles I Q F st)\<lparr>devs := dv\<rparr> = with_handles I Q F (st\<lparr>devs := dv\<rparr>)"
  by (simp_all add: with_handles_def)

lemma fs_read_handles: "fs_read s (with_handles I Q F st) = map_option (apfst (with_handles I Q F)) (fs_read s st)"
  by (cases "block_read (fs_device st) s (devs st)") (auto simp: fs_read_def)

lemma fs_write_handles: "fs_write s bs (with_handles I Q F st) = map_option (with_handles I Q F) (fs_write s bs st)"
  by (cases "block_write (fs_device st) s bs (devs st)") (auto simp: fs_write_def)

lemma get_bounce_handles: "get_bounce b (with_handles I Q F st) = apfst (with_handles I Q F) (get_bounce b st)"
  by (simp add: get_bounce_def fs_malloc_def with_handles_def)

lemma bind_apfst_add:
  "Option.bind (map_option (apfst g) m) (\<lambda>(st, n). Some (st, k + n)) = map_option (apfst g) (Option.bind m (\<lambda>(st, n). Some (st, k + n)))"
  by (cases m) auto

definition old_sector :: "int \<Rightarrow> int \<Rightarrow> u32 \<Rightarrow> fs \<Rightarrow> (fs \<times> sector) option" where
  "old_sector ofs c s st = (if 0 < ofs \<or> c < 512 - ofs then fs_read s st else Some (st, replicate 512 0))"

lemma old_sector_handles: "old_sector ofs c s (with_handles I Q F st) = map_option (apfst (with_handles I Q F)) (old_sector ofs c s st)"
  by (simp add: old_sector_def fs_read_handles)

lemma write_loop_full:
  assumes "0 < sz" "c = chunk inode sz offset" "0 < c" "offset mod 512 = 0 \<and> c = 512"
  shows "write_loop inode buffer sz offset bounce st = do {
     st \<leftarrow> fs_write (byte_to_sector inode offset) (take 512 buffer) st;
     (st, n) \<leftarrow> write_loop inode (drop (nat c) buffer) (sz - c) (offset + c) bounce st;
     Some (st, c + n) }"
  using assms by (simp add: write_loop.simps [of inode buffer sz] Let_def)

lemma write_loop_part:
  assumes "0 < sz" "c = chunk inode sz offset" "0 < c" "\<not> (offset mod 512 = 0 \<and> c = 512)" "get_bounce bounce st = (st1, b)"
  shows "write_loop inode buffer sz offset bounce st = (if \<not> b then Some (st1, 0) else do {
     (st, bs) \<leftarrow> old_sector (offset mod 512) c (byte_to_sector inode offset) st1;
     st \<leftarrow> fs_write (byte_to_sector inode offset)
       (take (nat (offset mod 512)) bs @ take (nat c) buffer @ drop (nat (offset mod 512) + nat c) bs) st;
     (st, n) \<leftarrow> write_loop inode (drop (nat c) buffer) (sz - c) (offset + c) b st;
     Some (st, c + n) })"
proof -
  have c: "\<not> c \<le> 0" using assms(3) by simp
  show ?thesis
    unfolding write_loop.simps [of inode buffer sz] Let_def assms(2) [symmetric] assms(5) old_sector_def if_not_P [OF assms(4)] if_not_P [OF c]
    using assms(1) by simp
qed

lemma write_loop_handles:
  "write_loop inode buffer sz offset bounce (with_handles I Q F st) =
     map_option (apfst (with_handles I Q F)) (write_loop inode buffer sz offset bounce st)"
proof (induction "nat sz" arbitrary: buffer sz offset bounce st rule: less_induct)
  case less
  define c where "c = chunk inode sz offset"
  let ?o = "offset mod 512" and ?s = "byte_to_sector inode offset"
  show ?case
  proof (cases "0 < sz \<and> 0 < c")
    case True
    then have p: "0 < sz" "0 < c" by simp_all
    then have IH: "write_loop inode b' (sz - c) o' bo (with_handles I Q F z) =
        map_option (apfst (with_handles I Q F)) (write_loop inode b' (sz - c) o' bo z)" for b' o' bo z
      using less.hyps [of "sz - c"] by simp
    show ?thesis
    proof (cases "?o = 0 \<and> c = 512")
      case full: True
      note u = write_loop_full [OF p(1) c_def p(2) full]
      show ?thesis
        by (simp only: u IH fs_write_handles; cases "fs_write ?s (take 512 buffer) st")
          (simp_all add: u IH bind_apfst_add)
    next
      case part: False
      obtain st1 b where gb: "get_bounce bounce st = (st1, b)" by fastforce
      then have gb': "get_bounce bounce (with_handles I Q F st) = (with_handles I Q F st1, b)" by (simp add: get_bounce_handles)
      note u = write_loop_part [OF p(1) c_def p(2) part gb] write_loop_part [OF p(1) c_def p(2) part gb']
      show ?thesis
      proof (cases "b \<and> old_sector ?o c ?s st1 \<noteq> None")
        case True
        then obtain st2 bs where bs: "old_sector ?o c ?s st1 = Some (st2, bs)" by fastforce
        let ?bs = "take (nat ?o) bs @ take (nat c) buffer @ drop (nat ?o + nat c) bs"
        show ?thesis using True
          by (simp add: u old_sector_handles bs fs_write_handles; cases "fs_write ?s ?bs st2")
            (simp_all add: IH bind_apfst_add)
      next
        case False
        then show ?thesis by (cases b; cases "old_sector ?o c ?s st1") (simp_all add: u old_sector_handles)
      qed
    qed
  qed (auto simp: write_loop.simps [of inode buffer sz] Let_def c_def)
qed

text \<open>Changing the handles under a release of sectors.\<close>

lemma bitmap_write_handles:
  assumes "files st f = Some fl" "inodes st (finode fl) = Some i" "F f = Some fl" "I (finode fl) = Some i"
  shows "bitmap_write b f (with_handles I Q F st) = map_option (apfst (with_handles I Q F)) (bitmap_write b f st)"
proof -
  let ?sz = "sint (byte_cnt (bit_cnt b))"
  have "file_write_at f (bytes_of (bits b)) ?sz 0 (with_handles I Q F st) =
      map_option (apfst (with_handles I Q F)) (file_write_at f (bytes_of (bits b)) ?sz 0 st)"
    using assms by (cases "nat ?sz \<le> length (bytes_of (bits b))") (auto simp: file_write_at_def inode_write_at_def write_loop_handles)
  then show ?thesis by (cases "file_write_at f (bytes_of (bits b)) ?sz 0 st") (auto simp: bitmap_write_def)
qed

lemma free_map_release_handles:
  assumes "free_map_file st = Some f" "files st f = Some fl" "inodes st (finode fl) = Some i" "F f = Some fl" "I (finode fl) = Some i"
  shows "free_map_release s cnt (with_handles I Q F st) = map_option (with_handles I Q F) (free_map_release s cnt st)"
proof -
  have w: "bitmap_write b f (with_handles I Q F (st\<lparr>free_map := b\<rparr>)) =
      map_option (apfst (with_handles I Q F)) (bitmap_write b f (st\<lparr>free_map := b\<rparr>))" for b
    using assms by (intro bitmap_write_handles [of _ f fl i]) simp_all
  show ?thesis
  proof (cases "bitmap_all (free_map st) s cnt")
    case (Some all)
    show ?thesis
    proof (cases "bitmap_set_multiple (free_map st) s cnt False")
      case (Some b)
      then show ?thesis using \<open>bitmap_all (free_map st) s cnt = Some all\<close> assms(1)
        by (cases all; cases "bitmap_write b f (st\<lparr>free_map := b\<rparr>)") (auto simp: free_map_release_def w)
    qed (auto simp: free_map_release_def \<open>bitmap_all (free_map st) s cnt = Some all\<close>)
  qed (simp add: free_map_release_def)
qed

lemma same_handles_with: "same_handles st st' \<Longrightarrow> with_handles (inodes st) (open_inodes st) (files st) st' = st'"
  by (simp add: same_handles_def with_handles_def)

text \<open>
  Closing an inode: \<open>L'\<close> is what remains in use. There must be a reference that no file accounts for.
\<close>

definition after_close :: "u32 set \<Rightarrow> inode \<Rightarrow> u32 set" where
  "after_close L i = (if open_cnt i = 1 \<and> removed i then L - {isector i} else L)"

lemma inode_close_core:
  assumes "fs_core L st" "inodes st p = Some i" "int (card (file_refs st p)) < open_cnt i" "removed i \<longrightarrow> isector i \<noteq> 0"
  shows "\<exists>st'. (\<forall>F. (\<forall>g. free_map_file st = Some g \<longrightarrow> F g = files st g) \<longrightarrow>
      inode_close (Some p) (st\<lparr>files := F\<rparr>) = Some (st'\<lparr>files := F\<rparr>)) \<and> fs_core (after_close L i) st' \<and>
    files st' = files st \<and> free_map_file st' = free_map_file st \<and> fs_size st' = fs_size st \<and> next_addr st \<le> next_addr st' \<and>
    inodes st' = (if open_cnt i = 1 then (inodes st)(p := None) else (inodes st)(p \<mapsto> i\<lparr>open_cnt := open_cnt i - 1\<rparr>)) \<and>
    (\<forall>t \<in> after_close L i. dinode st' t = dinode st t \<and> (t \<noteq> 0 \<longrightarrow> content st' (dinode st t) = content st (dinode st t))) \<and>
    marked (free_map st') = (if open_cnt i = 1 \<and> removed i then marked (free_map st) - own st (isector i) else marked (free_map st))"
proof -
  have h: "space L st" "handles L st" "fm_ok st" using assms(1) by (auto simp: fs_core_def)
  let ?i = "i\<lparr>open_cnt := open_cnt i - 1\<rparr>"
  show ?thesis
  proof (cases "open_cnt i = 1")
    case False
    then have "0 < open_cnt ?i" using handlesD(4) [OF h(2) assms(2)] by simp
    then have "fs_core L (set_inode p ?i st)" using assms(3) by (intro fs_core_set_inode [OF assms(1,2)]) auto
    moreover have "inode_close (Some p) (st\<lparr>files := F\<rparr>) = Some ((set_inode p ?i st)\<lparr>files := F\<rparr>)" for F
      using False assms(2) by (simp add: inode_close_def set_inode_def)
    ultimately show ?thesis using False by (intro exI [of _ "set_inode p ?i st"]) (simp add: after_close_def)
  next
    case True
    have fin: "finite (file_refs st p)"
    proof (rule finite_subset)
      show "file_refs st p \<subseteq> dom (files st)" by (auto simp: file_refs_def)
      show "finite (dom (files st))" using h(2) by (simp add: handles_def)
    qed
    then have none: "file_refs st p = {}" using assms(3) True by (simp add: card_eq_0_iff)
    define z where "z = st\<lparr>open_inodes := remove1 p (open_inodes st), inodes := (inodes st)(p := None)\<rparr>"
    have core: "fs_core (after_close L i) z"
      unfolding z_def using assms(4) by (intro fs_core_drop_inode [OF assms(1,2) none]) (auto simp: after_close_def True)
    have zs: "dinode z = dinode st" "content z = content st" "free_map z = free_map st" "fs_size z = fs_size st" "next_addr z = next_addr st"
      "own z = own st" "files z = files st" "free_map_file z = free_map_file st" "inodes z = (inodes st)(p := None)"
      by (simp_all add: z_def own_def fun_eq_iff)
    show ?thesis
    proof (cases "removed i")
      case False
      have "inode_close (Some p) (st\<lparr>files := F\<rparr>) = Some (z\<lparr>files := F\<rparr>)" for F using True False assms(2)
        by (simp add: inode_close_def z_def set_inode_def)
      then show ?thesis using core True False zs by (intro exI [of _ z]) (simp add: after_close_def)
    next
      case rem: True
      let ?s = "isector i" and ?L = "L - {isector i}"
      have L': "after_close L i = ?L" by (simp add: after_close_def True rem)
      have s: "?s \<in> L" "data i = dinode st ?s" using handlesD(2,3) [OF h(2) assms(2)] by simp_all
      have "space (insert ?s ?L) z" using h(1) s(1) zs by (simp add: insert_absorb space_def data_ok_def)
      then obtain st' st1 w where r: "free_map_release ?s 1 z = Some st1" "bytes_to_sectors (dlength (dinode z ?s)) = Some w"
          "free_map_release (start (dinode z ?s)) w st1 = Some st'" "fs_core ?L st'" "same_handles z st'"
          "marked (free_map st') = marked (free_map z) - own z ?s"
          "\<forall>t \<in> ?L. dinode st' t = dinode z t \<and> (t \<noteq> 0 \<longrightarrow> content st' (dinode z t) = content z (dinode z t))"
          "same_handles z st1"
        using release_inode [OF core [unfolded L'], of ?s] by blast
      let ?I = "(inodes st)(p \<mapsto> ?i)" and ?Q = "remove1 p (open_inodes st)"
      obtain f fl j where g: "free_map_file st = Some f" "files st f = Some fl" "inodes st (finode fl) = Some j" "isector j = 0"
        "data j = dinode st 0" "deny_write_cnt j = 0" "dlength (dinode st 0) = int (4 * length (bits (free_map st)))"
        "stores (content st (dinode st 0)) (free_map st)" "\<not> deny_write fl" "file_refs st (finode fl) = {f}" "\<not> removed j"
        by (rule fm_okD [OF h(3,2)])
      have ne: "finode fl \<noteq> p" using g(3,11) rem assms(2) by auto
      have "inode_close (Some p) (st\<lparr>files := F\<rparr>) = Some (st'\<lparr>files := F\<rparr>)" if "\<forall>g. free_map_file st = Some g \<longrightarrow> F g = files st g" for F
      proof -
        let ?wh = "with_handles ?I ?Q F"
        have F: "F f = Some fl" using that g(1,2) by simp
        have start: "(set_inode p ?i (st\<lparr>files := F\<rparr>))\<lparr>open_inodes := ?Q\<rparr> = ?wh z"
          by (simp add: z_def with_handles_def set_inode_def)
        have "free_map_release ?s 1 (?wh z) = Some (?wh st1)"
          using free_map_release_handles [of z f fl j F ?I ?s 1 ?Q] r(1) g ne zs F by simp
        moreover have "free_map_release (start (dinode st ?s)) w (?wh st1) = Some (?wh st')"
          using free_map_release_handles [of st1 f fl j F ?I "start (dinode st ?s)" w ?Q] r(3,8) g ne zs F
          by (simp add: same_handles_def)
        moreover have "(?wh st')\<lparr>inodes := ?I(p := None)\<rparr> = st'\<lparr>files := F\<rparr>"
          using r(5) zs by (simp add: same_handles_def with_handles_def z_def)
        ultimately show ?thesis
          using True rem assms(2) r(2) s(2) zs start by (simp add: inode_close_def Let_def)
      qed
      then show ?thesis using r(4-7) True rem zs L' by (intro exI [of _ st']) (simp add: same_handles_def)
    qed
  qed
qed

section \<open>File handles\<close>

lemma with_handles_disk [simp]:
  "fs_size (with_handles I Q F st) = fs_size st" "sect (with_handles I Q F st) = sect st" "disk_ok (with_handles I Q F st) = disk_ok st"
  "memory (with_handles I Q F st) = memory st" "dinode (with_handles I Q F st) = dinode st" "content (with_handles I Q F st) = content st"
  by (simp_all add: with_handles_def)

lemma with_handles_self: "with_handles (inodes st) (open_inodes st) (files st) st = st"
  by (simp add: with_handles_def)

lemma space_with_handles [simp]: "space L (with_handles I Q F st) = space L st"
  by (simp add: space_def own_def data_ok_def)

definition frefs :: "(nat \<rightharpoonup> file_t) \<Rightarrow> nat \<Rightarrow> nat set" where
  "frefs F p = {f. \<exists>fl. F f = Some fl \<and> finode fl = p}"

definition drefs :: "(nat \<rightharpoonup> file_t) \<Rightarrow> nat \<Rightarrow> nat set" where
  "drefs F p = {f. \<exists>fl. F f = Some fl \<and> finode fl = p \<and> deny_write fl}"

lemma refs_eq: "file_refs st = frefs (files st)" "deny_refs st = drefs (files st)"
  by (simp_all add: file_refs_def deny_refs_def frefs_def drefs_def fun_eq_iff)

lemma finite_refs:
  assumes "handles L st"
  shows "finite (file_refs st p)" "finite (deny_refs st p)"
proof -
  have f: "finite (dom (files st))" using assms by (simp add: handles_def)
  have "file_refs st p \<subseteq> dom (files st)" "deny_refs st p \<subseteq> dom (files st)" by (auto simp: file_refs_def deny_refs_def)
  then show "finite (file_refs st p)" "finite (deny_refs st p)" using finite_subset [OF _ f] by blast+
qed

lemma handles_with:
  assumes "handles L st" "finite (dom F)"
    "\<And>p i'. I p = Some i' \<Longrightarrow> \<exists>i. inodes st p = Some i \<and> isector i' = isector i \<and> data i' = data i \<and> 0 < open_cnt i' \<and>
       int (card (frefs F p)) \<le> open_cnt i' \<and> deny_write_cnt i' = int (card (drefs F p))"
    "dom I = dom (inodes st)"
    "\<And>f fl. F f = Some fl \<Longrightarrow> f < next_addr st \<and> finode fl \<in> dom (inodes st) \<and> 0 \<le> pos fl"
  shows "handles L (with_handles I (open_inodes st) F st)"
proof -
  let ?st = "with_handles I (open_inodes st) F st"
  have ok: "inode_ok L ?st p i'" if I: "I p = Some i'" for p i'
  proof -
    obtain i where i: "inodes st p = Some i" "isector i' = isector i" "data i' = data i" "0 < open_cnt i'"
       "int (card (frefs F p)) \<le> open_cnt i'" "deny_write_cnt i' = int (card (drefs F p))"
      using assms(3) [OF I] by blast
    then show ?thesis using handlesD [OF assms(1) i(1)] by (simp add: inode_ok_def refs_eq)
  qed
  have inj: "a = b" if "I a = Some x" "I b = Some y" "isector x = isector y" for a b x y
    using assms(1) assms(3) [OF that(1)] assms(3) [OF that(2)] that(3) unfolding handles_def by metis
  have "distinct (open_inodes st)" "set (open_inodes st) = dom (inodes st)" using assms(1) by (auto simp: handles_def)
  then show ?thesis using assms(2,4,5) ok inj unfolding handles_def with_handles_simps by blast
qed

lemma fm_ok_with:
  assumes "fm_ok st" "\<And>f fl. free_map_file st = Some f \<Longrightarrow> files st f = Some fl \<Longrightarrow> F f = Some fl \<and> frefs F (finode fl) = {f} \<and> I (finode fl) = inodes st (finode fl)"
  shows "fm_ok (with_handles I Q F st)"
proof -
  obtain f fl i where *: "free_map_file st = Some f" "files st f = Some fl" "\<not> deny_write fl" "inodes st (finode fl) = Some i"
     "isector i = FREE_MAP_SECTOR" "\<not> removed i" "file_refs st (finode fl) = {f}"
     "dlength (data i) = int (4 * length (bits (free_map st)))" "stores (content st (data i)) (free_map st)"
    using assms(1) by (auto simp: fm_ok_def)
  then show ?thesis using assms(2) [OF *(1,2)] unfolding fm_ok_def refs_eq with_handles_simps with_handles_disk by auto
qed

text \<open>A new file on an inode other than that of the free map.\<close>

lemma fm_inode:
  assumes "fs_core L st" "free_map_file st = Some f" "files st f = Some fl"
  shows "\<exists>i. inodes st (finode fl) = Some i \<and> isector i = 0 \<and> frefs (files st) (finode fl) = {f} \<and> \<not> removed i"
  using assms by (auto simp: fs_core_def fm_ok_def FREE_MAP_SECTOR_def refs_eq)

lemma not_fm_inode:
  assumes "fs_core L st" "inodes st p = Some i" "isector i \<noteq> 0" "free_map_file st = Some g" "files st g = Some fl"
  shows "finode fl \<noteq> p"
  using fm_inode [OF assms(1,4,5)] assms(2,3) by auto

lemma fs_core_with:
  assumes "fs_core L st" "handles L (with_handles I (open_inodes st) F st)"
    "\<And>f fl. free_map_file st = Some f \<Longrightarrow> files st f = Some fl \<Longrightarrow> F f = Some fl \<and> frefs F (finode fl) = {f} \<and> I (finode fl) = inodes st (finode fl)"
  shows "fs_core L (with_handles I (open_inodes st) F st)"
  using assms fm_ok_with [of st F I "open_inodes st"] by (simp add: fs_core_def)

lemma file_open_core:
  assumes "fs_core L st" "inodes st p = Some i" "int (card (file_refs st p)) < open_cnt i" "isector i \<noteq> 0"
  shows "\<exists>st'. file_open (Some p) st = Some (st', Some (next_addr st)) \<and> fs_core L st' \<and> inodes st' = inodes st \<and>
    files st' = (files st)(next_addr st \<mapsto> \<lparr>finode = p, pos = 0, deny_write = False\<rparr>) \<and> sect st' = sect st \<and>
    free_map st' = free_map st \<and> free_map_file st' = free_map_file st \<and> fs_size st' = fs_size st"
proof -
  have h: "disk_ok st" "memory st" "handles L st" using assms(1) by (auto simp: fs_core_def)
  let ?f = "next_addr st" and ?fl = "\<lparr>finode = p, pos = 0, deny_write = False\<rparr>"
  obtain st1 where st1: "fs_malloc st = (st1, Some ?f)" "io st st1" "sect st1 = sect st" "next_addr st1 = Suc ?f"
    using fs_malloc_io [OF h(1,2)] by blast
  have core: "fs_core L st1" using fs_core_io [OF assms(1) st1(2,3)] .
  then have h1: "handles L st1" by (simp add: fs_core_def)
  note io = io_simps [OF st1(2)]
  let ?F = "(files st)(?f \<mapsto> ?fl)"
  have new: "files st ?f = None" using handlesF(1) [OF h(3), of ?f] by (cases "files st ?f") auto
  have fr: "frefs ?F q = (if q = p then insert ?f (frefs (files st) q) else frefs (files st) q)" for q using new by (auto simp: frefs_def)
  have dr: "drefs ?F q = drefs (files st) q" for q using new by (auto simp: drefs_def)
  have fin: "finite (frefs (files st) p)" "?f \<notin> frefs (files st) p" using finite_refs(1) [OF h(3)] new by (auto simp: refs_eq frefs_def)
  have st': "with_handles (inodes st1) (open_inodes st1) ?F st1 = set_file ?f ?fl st1" by (simp add: with_handles_def set_file_def io)
  have "handles L (with_handles (inodes st1) (open_inodes st1) ?F st1)"
  proof (rule handles_with [OF h1])
    show "finite (dom ?F)" using h(3) by (simp add: handles_def)
    show "\<exists>i. inodes st1 q = Some i \<and> isector i' = isector i \<and> data i' = data i \<and> 0 < open_cnt i' \<and>
       int (card (frefs ?F q)) \<le> open_cnt i' \<and> deny_write_cnt i' = int (card (drefs ?F q))" if "inodes st1 q = Some i'" for q i'
      using handlesD [OF h1 that] that assms(2,3) fin fr dr io by (auto simp: refs_eq)
    show "g < next_addr st1 \<and> finode fl \<in> dom (inodes st1) \<and> 0 \<le> pos fl" if "?F g = Some fl" for g fl
      using that handlesF [OF h(3), of g fl] assms(2) st1(4) io by (auto split: if_splits)
  qed simp
  moreover have "?F g = Some fl \<and> frefs ?F (finode fl) = {g} \<and> inodes st1 (finode fl) = inodes st1 (finode fl)"
    if "free_map_file st1 = Some g" "files st1 g = Some fl" for g fl
    using that fm_inode [OF core that] not_fm_inode [OF assms(1,2,4)] new fr io by auto
  ultimately have "fs_core L (set_file ?f ?fl st1)" using fs_core_with [OF core] st' by metis
  moreover have "file_open (Some p) st = Some (set_file ?f ?fl st1, Some ?f)" using st1(1) by (simp add: file_open_def)
  ultimately show ?thesis using st1(3) io by (intro exI [of _ "set_file ?f ?fl st1"]) (simp add: set_file_def)
qed

text \<open>Replacing one file; \<open>f\<close> is not the free map file.\<close>

lemma frefs_same:
  "F f = Some fl \<Longrightarrow> finode fl' = finode fl \<Longrightarrow> frefs (F(f \<mapsto> fl')) p = frefs F p"
  by (auto simp: frefs_def)

lemma drefs_upd:
  "F f = Some fl \<Longrightarrow> finode fl' = finode fl \<Longrightarrow>
   drefs (F(f \<mapsto> fl')) p = (if p = finode fl then (if deny_write fl' then insert f (drefs F p) else drefs F p - {f}) else drefs F p)"
  by (auto simp: drefs_def)

lemma drefs_iff: "F f = Some fl \<Longrightarrow> f \<in> drefs F (finode fl) \<longleftrightarrow> deny_write fl"
  by (auto simp: drefs_def)

lemma not_fm_file:
  assumes "fs_core L st" "files st f = Some fl" "free_map_file st \<noteq> Some f" "inodes st (finode fl) = Some i"
  shows "isector i \<noteq> 0" "free_map_file st = Some g \<Longrightarrow> files st g = Some gl \<Longrightarrow> finode gl \<noteq> finode fl"
proof -
  have h: "handles L st" "fm_ok st" using assms(1) by (auto simp: fs_core_def)
  show ne: "finode gl \<noteq> finode fl" if "free_map_file st = Some g" "files st g = Some gl" for g gl
    using fm_inode [OF assms(1) that] that assms(2,3) by (auto simp: frefs_def)
  obtain g gl j where g: "free_map_file st = Some g" "files st g = Some gl" "inodes st (finode gl) = Some j" "isector j = 0"
    by (rule fm_okD [OF h(2,1)]) blast
  show "isector i \<noteq> 0"
    using ne [OF g(1,2)] g(3,4) assms(4) h(1) unfolding handles_def by metis
qed

text \<open>
  Replacing a file and its inode together, so that the inode counts the files that deny writes.
\<close>

lemma set_file_inode_core:
  assumes core: "fs_core L st" and f: "files st f = Some fl" "free_map_file st \<noteq> Some f" "inodes st (finode fl) = Some i"
    and fl': "finode fl' = finode fl" "0 \<le> pos fl'"
    and i': "isector i' = isector i" "data i' = data i" "open_cnt i' = open_cnt i"
      "deny_write_cnt i' = deny_write_cnt i + (if deny_write fl' then 1 else 0) - (if deny_write fl then 1 else 0)"
  shows "fs_core L (set_inode (finode fl) i' (set_file f fl' st))"
proof -
  let ?p = "finode fl" and ?F = "(files st)(f \<mapsto> fl')" and ?I = "(inodes st)(finode fl \<mapsto> i')"
  have h: "handles L st" using core by (simp add: fs_core_def)
  have st': "with_handles ?I (open_inodes st) ?F st = set_inode ?p i' (set_file f fl' st)"
    by (simp add: with_handles_def set_inode_def set_file_def)
  note hp = handlesD [OF h f(3)]
  have fin: "finite (drefs (files st) ?p)" using finite_refs(2) [OF h] by (simp add: refs_eq)
  have dr: "int (card (drefs ?F ?p)) = deny_write_cnt i'"
  proof -
    have c: "int (card (drefs (files st) ?p)) = deny_write_cnt i" using hp(5) by (simp add: refs_eq)
    show ?thesis
    proof (cases "deny_write fl")
      case True
      then have m: "f \<in> drefs (files st) ?p" using drefs_iff [of "files st", OF f(1)] by simp
      then have "0 < card (drefs (files st) ?p)" using fin card_gt_0_iff by blast
      then show ?thesis using True m c i'(4) fin drefs_upd [of "files st", OF f(1) fl'(1)]
        by (auto simp: insert_absorb card_Diff_singleton)
    next
      case False
      then have "f \<notin> drefs (files st) ?p" using drefs_iff [of "files st", OF f(1)] by simp
      then show ?thesis using False c i'(4) fin drefs_upd [of "files st", OF f(1) fl'(1)] by simp
    qed
  qed
  have "handles L (with_handles ?I (open_inodes st) ?F st)"
  proof (rule handles_with [OF h])
    show "finite (dom ?F)" using h by (simp add: handles_def)
    show "dom ?I = dom (inodes st)" using f(3) by auto
    show "\<exists>j. inodes st q = Some j \<and> isector j' = isector j \<and> data j' = data j \<and> 0 < open_cnt j' \<and>
       int (card (frefs ?F q)) \<le> open_cnt j' \<and> deny_write_cnt j' = int (card (drefs ?F q))" if j': "?I q = Some j'" for q j'
    proof (cases "q = ?p")
      case True
      then show ?thesis using j' f(3) i' hp dr frefs_same [of "files st", OF f(1) fl'(1)] by (simp add: refs_eq)
    next
      case False
      then have "inodes st q = Some j'" using j' by simp
      then show ?thesis
        using False handlesD [OF h, of q j'] frefs_same [of "files st", OF f(1) fl'(1)] drefs_upd [of "files st", OF f(1) fl'(1)]
        by (simp add: refs_eq)
    qed
    show "g < next_addr st \<and> finode gl \<in> dom (inodes st) \<and> 0 \<le> pos gl" if "?F g = Some gl" for g gl
      using that handlesF [OF h, of g gl] handlesF [OF h f(1)] fl' by (auto split: if_splits)
  qed
  moreover have "?F g = Some gl \<and> frefs ?F (finode gl) = {g} \<and> ?I (finode gl) = inodes st (finode gl)"
    if g: "free_map_file st = Some g" "files st g = Some gl" for g gl
    using fm_inode [OF core g] not_fm_file(2) [OF core f g] g f(2) frefs_same [of "files st", OF f(1) fl'(1)] by auto
  ultimately show ?thesis using fs_core_with [OF core] st' by metis
qed

lemma set_file_core:
  assumes "fs_core L st" "files st f = Some fl" "free_map_file st \<noteq> Some f" "finode fl' = finode fl" "0 \<le> pos fl'" "deny_write fl' = deny_write fl"
  shows "fs_core L (set_file f fl' st)"
proof -
  have "handles L st" using assms(1) by (simp add: fs_core_def)
  then obtain i where i: "inodes st (finode fl) = Some i" using handlesF(2) assms(2) by blast
  have "set_inode (finode fl) i (set_file f fl' st) = set_file f fl' st" using i by (simp add: set_inode_def set_file_def fun_upd_idem)
  then show ?thesis using set_file_inode_core [OF assms(1-3) i assms(4,5), of i] assms(6) by simp
qed

lemma set_file_simps [simp]:
  "sect (set_file f fl st) = sect st" "content (set_file f fl st) = content st" "dinode (set_file f fl st) = dinode st"
  "inodes (set_file f fl st) = inodes st" "files (set_file f fl st) = (files st)(f \<mapsto> fl)" "free_map (set_file f fl st) = free_map st"
  "free_map_file (set_file f fl st) = free_map_file st" "fs_size (set_file f fl st) = fs_size st" "next_addr (set_file f fl st) = next_addr st"
  "open_inodes (set_file f fl st) = open_inodes st"
  by (simp_all add: set_file_def)

lemma file_deny_write_core:
  assumes "fs_core L st" "files st f = Some fl" "free_map_file st \<noteq> Some f"
  shows "\<exists>st' i i'. file_deny_write f st = Some st' \<and> fs_core L st' \<and> files st' = (files st)(f \<mapsto> fl\<lparr>deny_write := True\<rparr>) \<and>
    inodes st (finode fl) = Some i \<and> inodes st' = (inodes st)(finode fl \<mapsto> i') \<and> 0 < deny_write_cnt i' \<and> open_cnt i' = open_cnt i \<and>
    removed i' = removed i \<and> isector i' = isector i \<and> data i' = data i \<and> sect st' = sect st \<and> free_map_file st' = free_map_file st"
proof -
  have h: "handles L st" using assms(1) by (simp add: fs_core_def)
  then obtain i where i: "inodes st (finode fl) = Some i" using handlesF(2) assms(2) by blast
  note hi = handlesD [OF h i]
  show ?thesis
  proof (cases "deny_write fl")
    case True
    have "f \<in> deny_refs st (finode fl)" using True assms(2) by (simp add: refs_eq drefs_iff)
    then have "0 < card (deny_refs st (finode fl))" using finite_refs(2) [OF h] card_gt_0_iff by blast
    moreover have "fl\<lparr>deny_write := True\<rparr> = fl" using True by simp
    ultimately show ?thesis using True assms i hi by (intro exI [of _ st] exI [of _ i]) (simp add: file_deny_write_def fun_upd_idem)
  next
    case False
    let ?i = "i\<lparr>deny_write_cnt := deny_write_cnt i + 1\<rparr>" and ?fl = "fl\<lparr>deny_write := True\<rparr>"
    have core: "fs_core L (set_inode (finode fl) ?i (set_file f ?fl st))"
      using set_file_inode_core [OF assms i, of ?fl ?i] False handlesF(3) [OF h assms(2)] by simp
    have "deny_refs st (finode fl) \<subseteq> file_refs st (finode fl)" "f \<in> file_refs st (finode fl)" "f \<notin> deny_refs st (finode fl)"
      using False assms(2) by (auto simp: deny_refs_def file_refs_def)
    then have "deny_refs st (finode fl) \<subset> file_refs st (finode fl)" by blast
    then have "card (deny_refs st (finode fl)) < card (file_refs st (finode fl))" using finite_refs(1) [OF h] by (rule psubset_card_mono [rotated])
    then have "deny_write_cnt ?i \<le> open_cnt ?i" "0 < deny_write_cnt ?i" using hi by auto
    then have "file_deny_write f st = Some (set_inode (finode fl) ?i (set_file f ?fl st))"
      using False assms(2) i by (simp add: file_deny_write_def inode_deny_write_def Let_def)
    then show ?thesis using core i \<open>0 < deny_write_cnt ?i\<close>
      by (intro exI [of _ "set_inode (finode fl) ?i (set_file f ?fl st)"] exI [of _ i] exI [of _ ?i]) simp
  qed
qed

lemma file_allow_write_core:
  assumes "fs_core L st" "files st f = Some fl" "free_map_file st \<noteq> Some f"
  shows "\<exists>st' i i'. file_allow_write f st = Some st' \<and> fs_core L st' \<and> files st' = (files st)(f \<mapsto> fl\<lparr>deny_write := False\<rparr>) \<and>
    inodes st (finode fl) = Some i \<and> inodes st' = (inodes st)(finode fl \<mapsto> i') \<and> open_cnt i' = open_cnt i \<and> removed i' = removed i \<and>
    isector i' = isector i \<and> data i' = data i \<and> sect st' = sect st \<and> free_map_file st' = free_map_file st \<and>
    free_map st' = free_map st \<and> fs_size st' = fs_size st \<and> next_addr st' = next_addr st"
proof -
  have h: "handles L st" using assms(1) by (simp add: fs_core_def)
  then obtain i where i: "inodes st (finode fl) = Some i" using handlesF(2) assms(2) by blast
  note hi = handlesD [OF h i]
  show ?thesis
  proof (cases "deny_write fl")
    case False
    then have "fl\<lparr>deny_write := False\<rparr> = fl" by simp
    then show ?thesis using False assms i hi by (intro exI [of _ st] exI [of _ i]) (simp add: file_allow_write_def fun_upd_idem)
  next
    case True
    let ?i = "i\<lparr>deny_write_cnt := deny_write_cnt i - 1\<rparr>" and ?fl = "fl\<lparr>deny_write := False\<rparr>"
    have core: "fs_core L (set_inode (finode fl) ?i (set_file f ?fl st))"
      using set_file_inode_core [OF assms i, of ?fl ?i] True handlesF(3) [OF h assms(2)] by simp
    have "f \<in> deny_refs st (finode fl)" using True assms(2) by (simp add: refs_eq drefs_iff)
    then have "0 < card (deny_refs st (finode fl))" using finite_refs(2) [OF h] card_gt_0_iff by blast
    moreover have "deny_refs st (finode fl) \<subseteq> file_refs st (finode fl)" by (auto simp: deny_refs_def file_refs_def)
    then have "card (deny_refs st (finode fl)) \<le> card (file_refs st (finode fl))" using finite_refs(1) [OF h] by (rule card_mono [rotated])
    ultimately have "0 < deny_write_cnt i" "deny_write_cnt i \<le> open_cnt i" using hi by auto
    then have "file_allow_write f st = Some (set_inode (finode fl) ?i (set_file f ?fl st))"
      using True assms(2) i by (simp add: file_allow_write_def inode_allow_write_def)
    then show ?thesis using core i
      by (intro exI [of _ "set_inode (finode fl) ?i (set_file f ?fl st)"] exI [of _ i] exI [of _ ?i]) simp
  qed
qed

lemma inode_close_ok:
  assumes "fs_core L st" "inodes st p = Some i" "int (card (file_refs st p)) < open_cnt i" "removed i \<longrightarrow> isector i \<noteq> 0"
  shows "\<exists>st'. inode_close (Some p) st = Some st' \<and> fs_core (after_close L i) st' \<and>
    files st' = files st \<and> free_map_file st' = free_map_file st \<and> fs_size st' = fs_size st \<and> next_addr st \<le> next_addr st' \<and>
    inodes st' = (if open_cnt i = 1 then (inodes st)(p := None) else (inodes st)(p \<mapsto> i\<lparr>open_cnt := open_cnt i - 1\<rparr>)) \<and>
    (\<forall>t \<in> after_close L i. dinode st' t = dinode st t \<and> (t \<noteq> 0 \<longrightarrow> content st' (dinode st t) = content st (dinode st t))) \<and>
    marked (free_map st') = (if open_cnt i = 1 \<and> removed i then marked (free_map st) - own st (isector i) else marked (free_map st))"
proof -
  obtain st' where st': "\<forall>F. (\<forall>g. free_map_file st = Some g \<longrightarrow> F g = files st g) \<longrightarrow>
      inode_close (Some p) (st\<lparr>files := F\<rparr>) = Some (st'\<lparr>files := F\<rparr>)" "files st' = files st"
    "fs_core (after_close L i) st' \<and>
    files st' = files st \<and> free_map_file st' = free_map_file st \<and> fs_size st' = fs_size st \<and> next_addr st \<le> next_addr st' \<and>
    inodes st' = (if open_cnt i = 1 then (inodes st)(p := None) else (inodes st)(p \<mapsto> i\<lparr>open_cnt := open_cnt i - 1\<rparr>)) \<and>
    (\<forall>t \<in> after_close L i. dinode st' t = dinode st t \<and> (t \<noteq> 0 \<longrightarrow> content st' (dinode st t) = content st (dinode st t))) \<and>
    marked (free_map st') = (if open_cnt i = 1 \<and> removed i then marked (free_map st) - own st (isector i) else marked (free_map st))"
    using inode_close_core [OF assms] by blast
  have "inode_close (Some p) (st\<lparr>files := files st\<rparr>) = Some (st'\<lparr>files := files st\<rparr>)" using st'(1) by blast
  moreover have "st\<lparr>files := files st\<rparr> = st" "st'\<lparr>files := files st\<rparr> = st'" using st'(2) by simp_all
  ultimately have "inode_close (Some p) st = Some st'" by simp
  then show ?thesis using st'(3) by blast
qed

text \<open>Dropping a file that does not deny writes.\<close>

lemma drop_file_core:
  assumes "fs_core L st" "files st f = Some fl" "free_map_file st \<noteq> Some f" "\<not> deny_write fl"
  shows "fs_core L (st\<lparr>files := (files st)(f := None)\<rparr>)"
    "card (file_refs (st\<lparr>files := (files st)(f := None)\<rparr>) (finode fl)) < card (file_refs st (finode fl))"
proof -
  let ?F = "(files st)(f := None)"
  have h: "handles L st" using assms(1) by (simp add: fs_core_def)
  have st': "st\<lparr>files := ?F\<rparr> = with_handles (inodes st) (open_inodes st) ?F st" by (simp add: with_handles_def)
  have fr: "frefs ?F q = frefs (files st) q - {f}" for q by (auto simp: frefs_def)
  have dr: "drefs ?F q = drefs (files st) q" for q using assms(2,4) by (auto simp: drefs_def)
  have fin: "finite (frefs (files st) q)" for q using finite_refs(1) [OF h] by (simp add: refs_eq)
  have le: "card (frefs ?F q) \<le> card (frefs (files st) q)" for q unfolding fr by (rule card_Diff1_le)
  show "card (file_refs (st\<lparr>files := ?F\<rparr>) (finode fl)) < card (file_refs st (finode fl))"
    using card_Diff1_less [OF fin [of "finode fl"], of f] assms(2) by (simp add: refs_eq fr) (simp add: frefs_def)
  have "handles L (with_handles (inodes st) (open_inodes st) ?F st)"
  proof (rule handles_with [OF h])
    show "finite (dom ?F)" using h by (simp add: handles_def)
    show "\<exists>i. inodes st q = Some i \<and> isector i' = isector i \<and> data i' = data i \<and> 0 < open_cnt i' \<and>
       int (card (frefs ?F q)) \<le> open_cnt i' \<and> deny_write_cnt i' = int (card (drefs ?F q))" if "inodes st q = Some i'" for q i'
      using handlesD [OF h that] that le [of q] dr by (auto simp: refs_eq)
    show "g < next_addr st \<and> finode gl \<in> dom (inodes st) \<and> 0 \<le> pos gl" if "?F g = Some gl" for g gl
      using that handlesF [OF h, of g gl] by (auto split: if_splits)
  qed simp
  moreover have "?F g = Some gl \<and> frefs ?F (finode gl) = {g} \<and> inodes st (finode gl) = inodes st (finode gl)"
    if g: "free_map_file st = Some g" "files st g = Some gl" for g gl
    using fm_inode [OF assms(1) g] g assms(3) fr by auto
  ultimately show "fs_core L (st\<lparr>files := ?F\<rparr>)" unfolding st' by (rule fs_core_with [OF assms(1)])
qed

lemma file_close_core:
  assumes "fs_core L st" "files st f = Some fl" "free_map_file st \<noteq> Some f" "inodes st (finode fl) = Some i"
  shows "\<exists>st'. file_close (Some f) st = Some st' \<and> fs_core (after_close L i) st' \<and> files st' = (files st)(f := None) \<and>
    free_map_file st' = free_map_file st \<and> fs_size st' = fs_size st \<and>
    (if open_cnt i = 1 then inodes st' = (inodes st)(finode fl := None)
     else \<exists>i'. inodes st' = (inodes st)(finode fl \<mapsto> i') \<and> isector i' = isector i \<and> removed i' = removed i \<and> open_cnt i' = open_cnt i - 1) \<and>
    (\<forall>t \<in> after_close L i. dinode st' t = dinode st t \<and> (t \<noteq> 0 \<longrightarrow> content st' (dinode st t) = content st (dinode st t))) \<and>
    marked (free_map st') = (if open_cnt i = 1 \<and> removed i then marked (free_map st) - own st (isector i) else marked (free_map st))"
proof -
  obtain st1 i1 where st1: "file_allow_write f st = Some st1" "fs_core L st1" "files st1 = (files st)(f \<mapsto> fl\<lparr>deny_write := False\<rparr>)"
      "inodes st1 = (inodes st)(finode fl \<mapsto> i1)" "open_cnt i1 = open_cnt i" "removed i1 = removed i"
      "isector i1 = isector i" "data i1 = data i" "sect st1 = sect st" "free_map_file st1 = free_map_file st"
      "free_map st1 = free_map st" "fs_size st1 = fs_size st"
    using file_allow_write_core [OF assms(1-3)] assms(4) by auto
  have f1: "files st1 f = Some (fl\<lparr>deny_write := False\<rparr>)" "free_map_file st1 \<noteq> Some f" using st1(3,10) assms(3) by simp_all
  define x where "x = st1\<lparr>files := (files st1)(f := None)\<rparr>"
  have core: "fs_core L x" "card (file_refs x (finode fl)) < card (file_refs st1 (finode fl))"
    using drop_file_core [OF st1(2) f1] by (simp_all add: x_def)
  have xs: "files x = (files st)(f := None)" "inodes x = (inodes st)(finode fl \<mapsto> i1)" "free_map_file x = free_map_file st"
      "dinode x = dinode st" "content x = content st" "fs_size x = fs_size st" "free_map x = free_map st" "own x = own st"
    by (simp_all add: x_def st1 dinode_def content_def data_byte_def own_def fun_eq_iff)
  have i1: "inodes x (finode fl) = Some i1" by (simp add: xs)
  have "handles L st1" using st1(2) by (simp add: fs_core_def)
  then have "int (card (file_refs st1 (finode fl))) \<le> open_cnt i1" using handlesD(6) [of L st1 "finode fl" i1] st1(4) by simp
  then have c: "int (card (file_refs x (finode fl))) < open_cnt i1" using core(2) by simp
  have z: "removed i1 \<longrightarrow> isector i1 \<noteq> 0" using not_fm_file(1) [OF assms] st1(7) by simp
  have ac: "after_close L i1 = after_close L i" using st1(5-7) by (simp add: after_close_def)
  obtain x' where x': "\<forall>F. (\<forall>g. free_map_file x = Some g \<longrightarrow> F g = files x g) \<longrightarrow> inode_close (Some (finode fl)) (x\<lparr>files := F\<rparr>) = Some (x'\<lparr>files := F\<rparr>)"
      "fs_core (after_close L i) x'" "files x' = files x" "free_map_file x' = free_map_file x" "fs_size x' = fs_size x"
      "inodes x' = (if open_cnt i1 = 1 then (inodes x)(finode fl := None) else (inodes x)(finode fl \<mapsto> i1\<lparr>open_cnt := open_cnt i1 - 1\<rparr>))"
      "\<forall>t \<in> after_close L i. dinode x' t = dinode x t \<and> (t \<noteq> 0 \<longrightarrow> content x' (dinode x t) = content x (dinode x t))"
      "marked (free_map x') = (if open_cnt i1 = 1 \<and> removed i1 then marked (free_map x) - own x (isector i1) else marked (free_map x))"
    using inode_close_core [OF core(1) i1 c z] unfolding ac by blast
  have "\<forall>g. free_map_file x = Some g \<longrightarrow> files st1 g = files x g" using f1(2) by (auto simp: x_def)
  then have "inode_close (Some (finode fl)) (x\<lparr>files := files st1\<rparr>) = Some (x'\<lparr>files := files st1\<rparr>)" using x'(1) by blast
  moreover have "x\<lparr>files := files st1\<rparr> = st1" by (simp add: x_def)
  moreover have "(x'\<lparr>files := files st1\<rparr>)\<lparr>files := (files st1)(f := None)\<rparr> = x'" using x'(3) by (simp add: x_def)
  ultimately have "file_close (Some f) st = Some x'" using assms(2) st1(1) by (simp add: file_close_def)
  moreover have "if open_cnt i = 1 then inodes x' = (inodes st)(finode fl := None)
     else \<exists>i'. inodes x' = (inodes st)(finode fl \<mapsto> i') \<and> isector i' = isector i \<and> removed i' = removed i \<and> open_cnt i' = open_cnt i - 1"
    using x'(6) st1(5-7) xs(2) by auto
  moreover have "marked (free_map x') = (if open_cnt i = 1 \<and> removed i then marked (free_map st) - own st (isector i) else marked (free_map st))"
    using x'(8) st1(5-7) xs by simp
  ultimately show ?thesis using x'(2-5,7) xs by (intro exI [of _ x']) simp
qed

section \<open>Reading and writing files\<close>

lemma file_read_core:
  assumes "fs_core L st" "files st f = Some fl" "free_map_file st \<noteq> Some f" "inodes st (finode fl) = Some i" "0 \<le> sz"
  defines "bs \<equiv> take (nat sz) (drop (nat (pos fl)) (content st (dinode st (isector i))))"
  shows "\<exists>st'. file_read f sz st = Some (st', bs) \<and> fs_core L st' \<and> sect st' = sect st \<and> fs_size st' = fs_size st \<and>
    inodes st' = inodes st \<and> files st' = (files st)(f \<mapsto> fl\<lparr>pos := pos fl + int (length bs)\<rparr>) \<and> free_map st' = free_map st \<and>
    free_map_file st' = free_map_file st"
proof -
  have h: "handles L st" using assms(1) by (simp add: fs_core_def)
  note po = handlesF(3) [OF h assms(2)]
  obtain st1 where st1: "inode_read_at (finode fl) sz (pos fl) st = Some (st1, bs)" "io st st1" "sect st1 = sect st"
    using inode_read_at_core [OF assms(1,4) po assms(5)] handlesD(3) [OF h assms(4)] by (auto simp: bs_def)
  note io = io_simps [OF st1(2)]
  let ?fl = "fl\<lparr>pos := pos fl + int (length bs)\<rparr>"
  have "fs_core L (set_file f ?fl st1)"
    using fs_core_io [OF assms(1) st1(2,3)] assms(2,3) po io by (intro set_file_core [of L st1 f fl]) simp_all
  then show ?thesis using st1(1,3) assms(2) io by (intro exI [of _ "set_file f ?fl st1"]) (simp add: file_read_def)
qed

lemma file_write_core:
  assumes "fs_core L st" "files st f = Some fl" "free_map_file st \<noteq> Some f" "inodes st (finode fl) = Some i" "deny_refs st (finode fl) = {}"
    "0 \<le> sz" "nat sz \<le> length buffer"
  defines "n \<equiv> min (nat sz) (nat (dlength (dinode st (isector i))) - nat (pos fl))"
  shows "\<exists>st'. file_write f buffer sz st = Some (st', int n) \<and> fs_core L st' \<and> fs_size st' = fs_size st \<and> inodes st' = inodes st \<and>
    files st' = (files st)(f \<mapsto> fl\<lparr>pos := pos fl + int n\<rparr>) \<and> free_map st' = free_map st \<and> free_map_file st' = free_map_file st \<and>
    (\<forall>t \<in> L. dinode st' t = dinode st t \<and> content st' (dinode st t) =
      (if t = isector i then splice (content st (dinode st t)) (nat (pos fl)) (take n buffer) else content st (dinode st t)))"
proof -
  have h: "handles L st" using assms(1) by (simp add: fs_core_def)
  note po = handlesF(3) [OF h assms(2)] and hi = handlesD [OF h assms(4)]
  have "deny_write_cnt i = 0" using hi(5) assms(5) by simp
  then obtain st1 where st1: "inode_write_at (finode fl) buffer sz (pos fl) st = Some (st1, int n)" "io st st1" "fs_core L st1"
      "\<forall>t \<in> L. dinode st1 t = dinode st t \<and> content st1 (dinode st t) =
      (if t = isector i then splice (content st (dinode st t)) (nat (pos fl)) (take n buffer) else content st (dinode st t))"
    using inode_write_at_core [OF assms(1,4) not_fm_file(1) [OF assms(1-4)] _ po assms(6,7)] hi(3) by (auto simp: n_def)
  note io = io_simps [OF st1(2)]
  let ?fl = "fl\<lparr>pos := pos fl + int n\<rparr>"
  have "fs_core L (set_file f ?fl st1)" using st1(3) assms(2,3) po io by (intro set_file_core [of L st1 f fl]) simp_all
  then show ?thesis using st1(1,4) assms(2) io by (intro exI [of _ "set_file f ?fl st1"]) (simp add: file_write_def)
qed

section \<open>Properties\<close>

text \<open>
  C38: Writing to an open file. On a consistent file system with memory available, \<open>file_write\<close>
  overwrites the contents from the current position, up to the end of the file and no further, returns
  the number of bytes written and advances the position by it; the contents of every other file in
  use stay the same, the file system stays consistent, and reading back from the old position yields
  the bytes written. While some handle denies writes to the file, nothing is written.
\<close>

theorem file_write_correct:
  assumes "fs_core L st" "files st f = Some fl" "free_map_file st \<noteq> Some f" "inodes st (finode fl) = Some i"
    "0 \<le> sz" "nat sz \<le> length buffer"
  defines "n \<equiv> min (nat sz) (nat (dlength (dinode st (isector i))) - nat (pos fl))"
  shows "if deny_refs st (finode fl) = {} then
      \<exists>st' st'' st3. file_write f buffer sz st = Some (st', int n) \<and> fs_core L st' \<and>
        files st' = (files st)(f \<mapsto> fl\<lparr>pos := pos fl + int n\<rparr>) \<and>
        (\<forall>t \<in> L. dinode st' t = dinode st t \<and> content st' (dinode st t) =
          (if t = isector i then splice (content st (dinode st t)) (nat (pos fl)) (take n buffer) else content st (dinode st t))) \<and>
        file_seek f (pos fl) st' = Some st'' \<and> file_read f (int n) st'' = Some (st3, take n buffer)
    else file_write f buffer sz st = Some (st, 0)"
proof (cases "deny_refs st (finode fl) = {}")
  case True
  have h: "handles L st" using assms(1) by (simp add: fs_core_def)
  note po = handlesF(3) [OF h assms(2)] and hi = handlesD [OF h assms(4)]
  obtain st' where st': "file_write f buffer sz st = Some (st', int n)" "fs_core L st'" "inodes st' = inodes st"
      "files st' = (files st)(f \<mapsto> fl\<lparr>pos := pos fl + int n\<rparr>)" "free_map_file st' = free_map_file st"
      "\<forall>t \<in> L. dinode st' t = dinode st t \<and> content st' (dinode st t) =
      (if t = isector i then splice (content st (dinode st t)) (nat (pos fl)) (take n buffer) else content st (dinode st t))"
    using file_write_core [OF assms(1-4) True assms(5,6)] by (auto simp: n_def)
  let ?st = "set_file f fl st'"
  have core: "fs_core L ?st" using st'(2,4,5) assms(3) po by (intro set_file_core [of L st' f "fl\<lparr>pos := pos fl + int n\<rparr>"]) simp_all
  have seek: "file_seek f (pos fl) st' = Some ?st" using po st'(4) by (simp add: file_seek_def)
  obtain st3 where "file_read f (int n) ?st = Some (st3, take n (drop (nat (pos fl)) (content ?st (dinode ?st (isector i)))))"
    using file_read_core [OF core, of f fl i "int n"] st'(3,5) assms(3,4) by auto
  moreover have "take n (drop (nat (pos fl)) (content ?st (dinode ?st (isector i)))) = take n buffer"
  proof -
    have "content st' (dinode st' (isector i)) = splice (content st (dinode st (isector i))) (nat (pos fl)) (take n buffer)"
      using st'(6) hi(2) by simp
    moreover have "length (take n buffer) = n" using assms(6) by (simp add: n_def)
    moreover have "n = 0 \<or> nat (pos fl) \<le> length (content st (dinode st (isector i)))" by (auto simp: n_def)
    ultimately show ?thesis by (auto simp: splice_def)
  qed
  ultimately show ?thesis using True st'(1,2,4,6) seek by auto
next
  case False
  have h: "handles L st" using assms(1) by (simp add: fs_core_def)
  have "0 < card (deny_refs st (finode fl))" using False finite_refs(2) [OF h] by (simp add: card_gt_0_iff)
  then have "deny_write_cnt i \<noteq> 0" using handlesD(5) [OF h assms(4)] by simp
  then have "file_write f buffer sz st = Some (set_file f fl st, 0)"
    using assms(2,4,6) handlesF(3) [OF h assms(2)] by (simp add: file_write_def inode_write_at_def)
  moreover have "set_file f fl st = st" using assms(2) by (simp add: set_file_def fun_upd_idem)
  ultimately show ?thesis using False by simp
qed

text \<open>The free map survives a restart: reading its file gives the map in memory.\<close>

lemma last_mask_bit:
  assumes "wf_bitmap b" "0 < bit_cnt b" "j < unat (bit_cnt b)" "j div 32 = length (bits b) - 1"
  shows "bit (last_mask b) (j mod 32)"
proof -
  define n where "n = unat (bit_cnt b)"
  have m: "unat (bit_cnt b mod 32) = n mod 32" by (simp add: unat_mod n_def)
  show ?thesis
  proof (cases "n mod 32 = 0")
    case True
    then have "bit_cnt b mod 32 = 0" using m by (simp add: unat_eq_zero)
    then show ?thesis by (simp add: last_mask_def ELEM_BITS_def Let_def)
  next
    case False
    then have nz: "bit_cnt b mod 32 \<noteq> 0" using m by (metis unat_0)
    define q r where "q = n div 32" and "r = n mod 32"
    then have qr: "n = 32 * q + r" "0 < r" "r < 32" using False by simp_all
    then have "(n + 31) div 32 = q + 1" by (intro div_nat_eqI) simp_all
    then have "length (bits b) - 1 = n div 32" using assms(1) by (simp add: wf_bitmap_def n_def q_def)
    moreover have "j = 32 * (j div 32) + j mod 32" "n = 32 * (n div 32) + n mod 32" by simp_all
    ultimately have "j mod 32 < n mod 32" using assms(3,4) unfolding n_def [symmetric] by linarith
    moreover have "push_bit (n mod 32) (1 :: u32) - 1 = mask (n mod 32)" by (simp add: mask_eq_exp_minus_1 push_bit_of_1)
    ultimately show ?thesis using nz by (simp add: last_mask_def ELEM_BITS_def Let_def m bit_mask_iff)
  qed
qed

lemma elem_cnt_length:
  assumes "wf_bitmap b" "unat (bit_cnt b) + 32 \<le> 2 ^ 32"
  shows "unat (elem_cnt (bit_cnt b)) = length (bits b)"
proof -
  have "bit_cnt b + 32 - 1 = bit_cnt b + 31" by simp
  then have "unat (bit_cnt b + 32 - 1) = unat (bit_cnt b) + 31" using assms(2) by (simp add: unat_plus_u32)
  then show ?thesis using assms(1) by (simp add: elem_cnt_def DIV_ROUND_UP_def ELEM_BITS_def unat_div wf_bitmap_def)
qed

lemma length_words_of: "length (words_of bs) = length bs div 4"
  by (induction bs rule: words_of.induct) auto

text \<open>Reading a bitmap from a file that stores it, into any bitmap of the same size.\<close>

lemma bitmap_read_ok:
  assumes "disk_ok st" "memory st" "files st f = Some fl" "inodes st (finode fl) = Some i" "data_ok st (data i)"
    "dlength (data i) = int (4 * length (bits b))" "wf_bitmap b" "unat (bit_cnt b) + 32 \<le> 2 ^ 32"
  shows "\<exists>st' b'. bitmap_read b f st = Some (st', b', True) \<and> bm b' = bm (b\<lparr>bits := words_of (content st (data i))\<rparr>) \<and>
    bit_cnt b' = bit_cnt b \<and> wf_bitmap b' \<and> io st st' \<and> sect st' = sect st"
proof -
  let ?ws = "words_of (content st (data i))"
  have lc: "length (content st (data i)) = 4 * length (bits b)" using assms(6) by simp
  have l: "length ?ws = length (bits b)" using assms(6) by (simp add: length_words_of nat_mult_distrib)
  show ?thesis
  proof (cases "0 < bit_cnt b")
    case False
    then have "bit_cnt b = 0" by (simp add: word_gt_0)
    then have "bm b = []" "bm (b\<lparr>bits := ?ws\<rparr>) = []" by (auto simp: bm_def)
    then show ?thesis using False assms(1,7) io_refl [OF assms(1)] by (simp add: bitmap_read_def)
  next
    case True
    have sz: "sint (byte_cnt (bit_cnt b)) = int (4 * length (bits b))" using sint_byte_cnt [OF assms(7,8)] .
    obtain st' where st': "inode_read_at (finode fl) (int (4 * length (bits b))) 0 st = Some (st', content st (data i))"
        "io st st'" "sect st' = sect st"
      using read_loop_ok [OF assms(1,5), of "4 * length (bits b)" 0 False] assms(2,4,6) lc by (auto simp: inode_read_at_def)
    let ?b = "b\<lparr>bits := ?ws\<rparr>" and ?k = "elem_cnt (bit_cnt b) - 1"
    have pos: "0 < length (bits b)" using True assms(7) by (simp add: wf_bitmap_def word_less_nat_alt)
    have "unat (elem_cnt (bit_cnt b)) = length (bits b)" using elem_cnt_length [OF assms(7,8)] .
    then have k: "unat ?k = length (bits b) - 1" using pos by (subst unat_sub) (simp_all add: word_le_nat_alt Suc_le_eq)
    let ?b' = "?b\<lparr>bits := (bits ?b)[unat ?k := bits ?b ! unat ?k AND last_mask ?b]\<rparr>"
    have u: "update_elem ?b ?k (\<lambda>w. w AND last_mask ?b) = Some ?b'" using k l pos by (simp add: update_elem_def)
    have "bm ?b' = bm ?b"
    proof (rule nth_equalityI)
      fix j assume "j < length (bm ?b')"
      then have j: "j < unat (bit_cnt b)" by simp
      have m: "bit (last_mask ?b) (j mod 32)" if "j div 32 = length ?ws - 1"
        using last_mask_bit [of ?b j] True j that l assms(7) by (simp add: wf_bitmap_def)
      have "j div 32 < length ?ws" using wf_bitmap_idx [OF assms(7) j] l by simp
      then show "bm ?b' ! j = bm ?b ! j" using j m k l by (auto simp: bm_def nth_list_update bit_and_iff)
    qed simp
    moreover have "bitmap_read b f st = Some (st', ?b', True)"
      using True sz assms(3) st'(1) u lc by (simp add: bitmap_read_def file_read_at_def)
    moreover have "wf_bitmap ?b'" using l assms(7) by (simp add: wf_bitmap_def)
    ultimately show ?thesis using st'(2,3) by auto
  qed
qed

text \<open>
  The free map survives a restart. On a consistent file system, reading the free map file into any
  bitmap of the right size succeeds and yields the bits of the free map in memory, however the bitmap
  was filled before.
\<close>

theorem free_map_roundtrip:
  assumes "fs_core L st" "free_map_file st = Some f" "wf_bitmap b" "bit_cnt b = bit_cnt (free_map st)"
  shows "\<exists>st' b'. bitmap_read b f st = Some (st', b', True) \<and> bm b' = bm (free_map st) \<and> fs_core L st'"
proof -
  have h: "disk_ok st" "memory st" "space L st" "handles L st" "fm_ok st" using assms(1) by (auto simp: fs_core_def)
  have sp: "wf_bitmap (free_map st)" "unat (bit_cnt (free_map st)) + 32 \<le> 2 ^ 32" "0 \<in> L" using h(3) by (simp_all add: space_def)
  obtain f' fl i where g: "free_map_file st = Some f'" "files st f' = Some fl" "inodes st (finode fl) = Some i" "isector i = 0"
    "data i = dinode st 0" "deny_write_cnt i = 0" "dlength (dinode st 0) = int (4 * length (bits (free_map st)))"
    "stores (content st (dinode st 0)) (free_map st)" "\<not> deny_write fl" "file_refs st (finode fl) = {f'}" "\<not> removed i"
    by (rule fm_okD [OF h(5,4)])
  have ff: "f' = f" using g(1) assms(2) by simp
  have l: "length (bits b) = length (bits (free_map st))" using wf_bits_length [OF assms(3) sp(1) assms(4)] .
  have d: "data_ok st (data i)" using spaceD(2) [OF h(3) sp(3)] g(5) by simp
  have e: "dlength (data i) = int (4 * length (bits b))" "unat (bit_cnt b) + 32 \<le> 2 ^ 32" using g(5,7) l sp(2) assms(4) by simp_all
  obtain st' b' where r: "bitmap_read b f st = Some (st', b', True)" "bm b' = bm (b\<lparr>bits := words_of (content st (data i))\<rparr>)"
    "io st st'" "sect st' = sect st"
    using bitmap_read_ok [OF h(1,2) g(2) [unfolded ff] g(3) d e(1) assms(3) e(2)] by blast
  have "bm (b\<lparr>bits := words_of (content st (data i))\<rparr>) = bm (free_map st)"
    using g(5,8) assms(4) by (simp add: stores_def bm_def)
  then show ?thesis using r fs_core_io [OF assms(1) r(3,4)] by auto
qed

section \<open>An example\<close>

text \<open>
  A file system of 64 sectors with a file \<open>a\<close> of 600 bytes, which is open.
\<close>

definition example_sector :: "u32 \<Rightarrow> sector" where
  "example_sector s =
     (if s = 0 then inode_bytes \<lparr>start = 2, dlength = 8, magic = INODE_MAGIC\<rparr>
      else if s = 1 then inode_bytes \<lparr>start = 3, dlength = 320, magic = INODE_MAGIC\<rparr>
      else if s = 2 then [0x7f] @ replicate 511 0
      else if s = 3 then [4, 0, 0, 0, 97] @ replicate 14 0 @ [1] @ replicate 492 0
      else if s = 4 then inode_bytes \<lparr>start = 5, dlength = 600, magic = INODE_MAGIC\<rparr>
      else replicate 512 0)"

definition example_fs :: fs where
  "example_fs = \<lparr>devs = \<lparr>all_blocks = [\<lparr>bname = ''hdb'', btype = BLOCK_FILESYS, bsize = 64, ops = DiskOps 0, read_cnt = 0, write_cnt = 0\<rparr>],
       block_by_role = (\<lambda>r. if r = BLOCK_FILESYS then Some 0 else None), disks = (\<lambda>_. example_sector)\<rparr>,
     fs_device = 0,
     inodes = [0 \<mapsto> \<lparr>isector = 0, open_cnt = 1, removed = False, deny_write_cnt = 0, data = \<lparr>start = 2, dlength = 8, magic = INODE_MAGIC\<rparr>\<rparr>,
       2 \<mapsto> \<lparr>isector = 4, open_cnt = 1, removed = False, deny_write_cnt = 0, data = \<lparr>start = 5, dlength = 600, magic = INODE_MAGIC\<rparr>\<rparr>],
     open_inodes = [2, 0],
     files = [1 \<mapsto> \<lparr>finode = 0, pos = 0, deny_write = False\<rparr>, 3 \<mapsto> \<lparr>finode = 2, pos = 510, deny_write = False\<rparr>],
     free_map = \<lparr>bit_cnt = 64, bits = [0x7f, 0]\<rparr>, free_map_file = Some 1, malloc_ok = (\<lambda>_. True), next_addr = 4\<rparr>"

lemma example_fs_size: "fs_size example_fs = 64"
  by (simp add: fs_size_def example_fs_def)

lemma example_sect: "s < 64 \<Longrightarrow> sect example_fs s = example_sector s"
  by (simp add: sect_def example_fs_size) (simp add: example_fs_def sector_of_def place.simps)

lemma example_dinode:
  "dinode example_fs 0 = \<lparr>start = 2, dlength = 8, magic = INODE_MAGIC\<rparr>"
  "dinode example_fs 1 = \<lparr>start = 3, dlength = 320, magic = INODE_MAGIC\<rparr>"
  "dinode example_fs 4 = \<lparr>start = 5, dlength = 600, magic = INODE_MAGIC\<rparr>"
  by (simp_all add: dinode_def example_sect example_sector_def inode_of_bytes)

lemma example_marked: "marked (free_map example_fs) = {0, 1, 2, 3, 4, 5, 6}"
proof -
  have "bm (free_map example_fs) = replicate 7 True @ replicate 57 False" by code_simp
  moreover have "bit_cnt (free_map example_fs) = 64" by (simp add: example_fs_def)
  ultimately have "marked (free_map example_fs) = {j. j < 64 \<and> j < 7}" by (auto simp: marked_def nth_append)
  also have "\<dots> = {0, 1, 2, 3, 4, 5, 6}" by auto
  finally show ?thesis .
qed

lemma example_own:
  "own example_fs 0 = {0, 2}" "own example_fs 1 = {1, 3}" "own example_fs 4 = {4, 5, 6}"
  by (auto simp: own_def extent_def nsect_def example_dinode)

lemma example_data_ok: "s \<in> {0, 1, 4} \<Longrightarrow> data_ok example_fs (dinode example_fs s)"
  by (auto simp: data_ok_def nsect_def example_dinode example_fs_size)

lemma example_refs:
  "file_refs example_fs 0 = {1}" "file_refs example_fs 2 = {3}" "deny_refs example_fs p = {}"
  by (auto simp: file_refs_def deny_refs_def example_fs_def)

lemma example_content_0: "content example_fs (dinode example_fs 0) = bytes_of (bits (free_map example_fs))"
proof -
  have "content example_fs (dinode example_fs 0) = map (\<lambda>i. ([0x7f] @ replicate 511 0) ! i) [0 ..< 8]"
    by (simp add: content_def data_byte_def example_dinode example_sect example_sector_def)
  also have "\<dots> = bytes_of (bits (free_map example_fs))" by code_simp
  finally show ?thesis .
qed

lemma example_disk_ok: "disk_ok example_fs"
proof -
  have "length (example_sector s) = 512" for s
    by (simp add: example_sector_def)
  then show ?thesis
    by (auto simp: disk_ok_def example_fs_size example_sect) (simp add: device_ready_def devices_ok_def block_ok_def example_fs_def)
qed

lemma example_core: "fs_core {0, 1, 4} example_fs"
proof -
  have "space {0, 1, 4} example_fs"
  proof -
    have "wf_bitmap (free_map example_fs)" "bit_cnt (free_map example_fs) = 64"
      by (simp_all add: wf_bitmap_def example_fs_def)
    then show ?thesis
      unfolding space_def using example_data_ok
      by (simp add: example_fs_size example_own example_marked) (simp add: extent_def nsect_def example_dinode)
  qed
  moreover have "handles {0, 1, 4} example_fs"
    unfolding handles_def inode_ok_def using example_refs example_dinode
    by (auto simp: example_fs_def split: if_splits)
  moreover have "fm_ok example_fs"
  proof -
    have "stores (content example_fs \<lparr>start = 2, dlength = 8, magic = INODE_MAGIC\<rparr>) (free_map example_fs)"
      using example_content_0 by (simp add: example_dinode)
    then show ?thesis
      unfolding fm_ok_def using example_refs(1)
      by (intro exI [of _ 1] exI [of _ "\<lparr>finode = 0, pos = 0, deny_write = False\<rparr>"]) (simp add: example_fs_def FREE_MAP_SECTOR_def)
  qed
  ultimately show ?thesis
    using example_disk_ok by (simp add: fs_core_def memory_def) (simp add: example_fs_def)
qed

theorem free_map_roundtrip_witness:
  "\<exists>st' b'. bitmap_read \<lparr>bit_cnt = 64, bits = [3, 5]\<rparr> 1 example_fs = Some (st', b', True) \<and>
     bm b' = replicate 7 True @ replicate 57 False \<and> fs_core {0, 1, 4} st'"
proof -
  have "bm (free_map example_fs) = replicate 7 True @ replicate 57 False" by code_simp
  then show ?thesis
    using free_map_roundtrip [OF example_core, of 1 "\<lparr>bit_cnt = 64, bits = [3, 5]\<rparr>"]
    by (simp add: example_fs_def wf_bitmap_def)
qed

theorem file_write_correct_witness:
  "\<exists>st' st'' st3. file_write 3 [1, 2, 3, 4] 4 example_fs = Some (st', 4) \<and>
     file_seek 3 510 st' = Some st'' \<and> file_read 3 4 st'' = Some (st3, [1, 2, 3, 4])"
proof -
  have "files example_fs 3 = Some \<lparr>finode = 2, pos = 510, deny_write = False\<rparr>" "free_map_file example_fs \<noteq> Some 3"
    "inodes example_fs 2 = Some \<lparr>isector = 4, open_cnt = 1, removed = False, deny_write_cnt = 0, data = \<lparr>start = 5, dlength = 600, magic = INODE_MAGIC\<rparr>\<rparr>"
    by (simp_all add: example_fs_def)
  from file_write_correct [OF example_core this(1,2), unfolded file_t.select_convs, OF this(3), of 4 "[1, 2, 3, 4]"]
  show ?thesis by (simp add: example_refs example_dinode) blast
qed

end
