(* ===== verification/Directory.thy ===== *)
theory Directory
  imports Fs_Inv
begin

text \<open>
  Directories (filesys/directory.c): a directory is a file of 20-byte entries. A file name is the list
  of the bytes of a C string without its terminator. A \<open>struct dir\<close> belongs to one caller, so it is a
  value; its inode and the file system are the state of the inode layer.
\<close>

type_synonym name = "u8 list"

record dir =
  dir_inode :: nat
  dir_pos :: int

definition NAME_MAX :: nat where "NAME_MAX = 14"

text \<open>
  \<open>struct dir_entry\<close> as its 20 bytes: \<open>inode_sector\<close> in bytes 0 to 3, \<open>name\<close> in bytes 4 to 18,
  \<open>in_use\<close> in byte 19.
\<close>

definition e_inode_sector :: "u8 list \<Rightarrow> u32" where
  "e_inode_sector e = le32 (take 4 e)"

definition e_name :: "u8 list \<Rightarrow> u8 list" where
  "e_name e = take (NAME_MAX + 1) (drop 4 e)"

definition e_in_use :: "u8 list \<Rightarrow> bool" where
  "e_in_use e \<longleftrightarrow> e ! 19 \<noteq> 0"

definition set_in_use :: "bool \<Rightarrow> u8 list \<Rightarrow> u8 list" where
  "set_in_use v e = e[19 := (if v then 1 else 0)]"

definition set_inode_sector :: "u32 \<Rightarrow> u8 list \<Rightarrow> u8 list" where
  "set_inode_sector s e = splice e 0 (le32_bytes s)"

text \<open>\<open>strlcpy (e.name, name, sizeof e.name)\<close> keeps the bytes after the terminator.\<close>

definition set_name :: "name \<Rightarrow> u8 list \<Rightarrow> u8 list" where
  "set_name nm e = splice e 4 (take NAME_MAX nm @ [0])"

text \<open>
  \<open>!strcmp (name, e.name)\<close> and the string held in an array: no value when the array has no terminator
  and the code would read past it.
\<close>

fun str_eq :: "name \<Rightarrow> u8 list \<Rightarrow> bool option" where
  "str_eq nm [] = None"
| "str_eq [] (b # bs) = Some (b = 0)"
| "str_eq (c # cs) (b # bs) = (if c = b then str_eq cs bs else Some False)"

fun c_string :: "u8 list \<Rightarrow> name option" where
  "c_string [] = None"
| "c_string (b # bs) = (if b = 0 then Some [] else do { nm \<leftarrow> c_string bs; Some (b # nm) })"

section \<open>Opening and closing\<close>

definition dir_create :: "u32 \<Rightarrow> u32 \<Rightarrow> fs \<Rightarrow> (fs \<times> bool) option" where
  "dir_create s entry_cnt st = inode_create s (sint (entry_cnt * 20)) st"

definition dir_open :: "nat option \<Rightarrow> fs \<Rightarrow> (fs \<times> dir option) option" where
  "dir_open q st = (case (q, fs_malloc st) of
     (Some p, (st, Some _)) \<Rightarrow> Some (st, Some \<lparr>dir_inode = p, dir_pos = 0\<rparr>)
   | (q, (st, _)) \<Rightarrow> do {
       st \<leftarrow> inode_close q st;
       Some (st, None) })"

definition dir_open_root :: "fs \<Rightarrow> (fs \<times> dir option) option" where
  "dir_open_root st = do {
     (st, p) \<leftarrow> inode_open ROOT_DIR_SECTOR st;
     dir_open p st }"

definition dir_reopen :: "dir \<Rightarrow> fs \<Rightarrow> (fs \<times> dir option) option" where
  "dir_reopen d st = do {
     st \<leftarrow> inode_reopen (dir_inode d) st;
     dir_open (Some (dir_inode d)) st }"

definition dir_close :: "dir option \<Rightarrow> fs \<Rightarrow> fs option" where
  "dir_close q st = (case q of
     None \<Rightarrow> Some st
   | Some d \<Rightarrow> inode_close (Some (dir_inode d)) st)"

definition dir_get_inode :: "dir \<Rightarrow> nat" where
  "dir_get_inode d = dir_inode d"

section \<open>Reading and writing\<close>

partial_function (option) lookup_loop :: "nat \<Rightarrow> name \<Rightarrow> u32 \<Rightarrow> fs \<Rightarrow> (fs \<times> (u8 list \<times> u32) option) option" where
  "lookup_loop p nm ofs st = do {
     (st, e) \<leftarrow> inode_read_at p 20 (sint ofs) st;
     if length e = 20 then do {
       found \<leftarrow> (if e_in_use e then str_eq nm (e_name e) else Some False);
       if found then Some (st, Some (e, ofs)) else lookup_loop p nm (ofs + 20) st }
     else Some (st, None) }"

definition lookup :: "dir \<Rightarrow> name \<Rightarrow> fs \<Rightarrow> (fs \<times> (u8 list \<times> u32) option) option" where
  "lookup d nm st = lookup_loop (dir_inode d) nm 0 st"

definition dir_lookup :: "dir \<Rightarrow> name \<Rightarrow> fs \<Rightarrow> (fs \<times> nat option) option" where
  "dir_lookup d nm st = do {
     (st, r) \<leftarrow> lookup d nm st;
     case r of
       Some (e, _) \<Rightarrow> inode_open (e_inode_sector e) st
     | None \<Rightarrow> Some (st, None) }"

text \<open>
  The loop of \<open>dir_add\<close> that looks for a free slot. \<open>e\<close> is the local entry: a short read replaces only
  its first bytes, and the rest is what the previous read left.
\<close>

definition next_slot :: "int \<Rightarrow> int" where
  "next_slot ofs = sint (word_of_int ofs + 20 :: u32)"

partial_function (option) free_slot :: "nat \<Rightarrow> u8 list \<Rightarrow> int \<Rightarrow> fs \<Rightarrow> (fs \<times> u8 list \<times> int) option" where
  "free_slot p e ofs st = do {
     (st, bs) \<leftarrow> inode_read_at p 20 ofs st;
     let e = bs @ drop (length bs) e;
     if length bs = 20 \<and> e_in_use e then free_slot p e (next_slot ofs) st
     else Some (st, e, ofs) }"

text \<open>\<open>e0\<close> is the contents of the uninitialised local entry.\<close>

definition dir_add :: "u8 list \<Rightarrow> dir \<Rightarrow> name \<Rightarrow> u32 \<Rightarrow> fs \<Rightarrow> (fs \<times> bool) option" where
  "dir_add e0 d nm inode_sector st = (
     if nm = [] \<or> NAME_MAX < length nm then Some (st, False)
     else do {
       (st, r) \<leftarrow> lookup d nm st;
       if r \<noteq> None then Some (st, False)
       else do {
         (st, e, ofs) \<leftarrow> free_slot (dir_inode d) e0 0 st;
         let e = set_in_use True e;
         let e = set_name nm e;
         let e = set_inode_sector inode_sector e;
         (st, n) \<leftarrow> inode_write_at (dir_inode d) e 20 ofs st;
         Some (st, n = 20) } })"

definition dir_remove :: "dir \<Rightarrow> name \<Rightarrow> fs \<Rightarrow> (fs \<times> bool) option" where
  "dir_remove d nm st = do {
     (st, r) \<leftarrow> lookup d nm st;
     case r of
       None \<Rightarrow> Some (st, False)
     | Some (e, ofs) \<Rightarrow> do {
         (st, q) \<leftarrow> inode_open (e_inode_sector e) st;
         case q of
           None \<Rightarrow> Some (st, False)
         | Some p \<Rightarrow> do {
             (st, n) \<leftarrow> inode_write_at (dir_inode d) (set_in_use False e) 20 (sint ofs) st;
             if n \<noteq> 20 then do {
               st \<leftarrow> inode_close q st;
               Some (st, False) }
             else do {
               st \<leftarrow> inode_remove p st;
               st \<leftarrow> inode_close q st;
               Some (st, True) } } } }"

partial_function (option) dir_readdir :: "dir \<Rightarrow> fs \<Rightarrow> (fs \<times> dir \<times> name option) option" where
  "dir_readdir d st = do {
     (st, e) \<leftarrow> inode_read_at (dir_inode d) 20 (dir_pos d) st;
     if length e = 20 then do {
       let d = d\<lparr>dir_pos := next_slot (dir_pos d)\<rparr>;
       if e_in_use e then do {
         nm \<leftarrow> c_string (e_name e);
         Some (st, d, Some (take NAME_MAX nm)) }
       else dir_readdir d st }
     else Some (st, d, None) }"

section \<open>Entries\<close>

definition slot :: "u8 list \<Rightarrow> nat \<Rightarrow> u8 list" where
  "slot c k = take 20 (drop (20 * k) c)"

definition slots :: "u8 list \<Rightarrow> nat" where
  "slots c = length c div 20"

definition cname :: "u8 list \<Rightarrow> name" where
  "cname e = takeWhile (\<lambda>b. b \<noteq> 0) (e_name e)"

definition names :: "name \<Rightarrow> u8 list \<Rightarrow> bool" where
  "names nm e \<longleftrightarrow> e_in_use e \<and> cname e = nm"

text \<open>Every name in use is terminated, and no two entries in use have the same name.\<close>

definition dir_wf :: "u8 list \<Rightarrow> bool" where
  "dir_wf c \<longleftrightarrow> (\<forall>k < slots c. e_in_use (slot c k) \<longrightarrow> 0 \<in> set (e_name (slot c k)) \<and>
     (\<forall>j < slots c. e_in_use (slot c j) \<longrightarrow> cname (slot c j) = cname (slot c k) \<longrightarrow> j = k))"

text \<open>The map from names to inode sectors a directory stands for.\<close>

definition dir_map :: "u8 list \<Rightarrow> name \<Rightarrow> u32 option" where
  "dir_map c nm = map_option (\<lambda>k. e_inode_sector (slot c k)) (find (\<lambda>k. names nm (slot c k)) [0 ..< slots c])"

lemma str_eq_ok: "0 \<in> set bs \<Longrightarrow> 0 \<notin> set nm \<Longrightarrow> str_eq nm bs = Some (takeWhile (\<lambda>b. b \<noteq> 0) bs = nm)"
  by (induction nm bs rule: str_eq.induct) auto

lemma c_string_ok: "0 \<in> set bs \<Longrightarrow> c_string bs = Some (takeWhile (\<lambda>b. b \<noteq> 0) bs)"
  by (induction bs) auto

lemma length_slot: "k < slots c \<Longrightarrow> length (slot c k) = 20"
  by (simp add: slot_def slots_def)

lemma length_slot_iff: "length (slot c k) = 20 \<longleftrightarrow> k < slots c"
  by (simp add: slot_def slots_def) linarith

lemma find_upt_step:
  "k < n \<Longrightarrow> find P [k ..< n] = (if P k then Some k else find P [Suc k ..< n])"
  by (simp add: upt_conv_Cons)

lemma names_unique:
  assumes "dir_wf c" "j < slots c" "k < slots c" "names nm (slot c j)" "names nm (slot c k)"
  shows "j = k"
  using assms by (simp add: dir_wf_def names_def)

lemma find_names:
  assumes "dir_wf c" "k < slots c" "names nm (slot c k)"
  shows "find (\<lambda>k. names nm (slot c k)) [0 ..< slots c] = Some k"
proof -
  have "find (\<lambda>k. names nm (slot c k)) [0 ..< slots c] \<noteq> None" using assms(2,3) by (auto simp: find_None_iff)
  then obtain j where j: "find (\<lambda>k. names nm (slot c k)) [0 ..< slots c] = Some j" by blast
  then have "j < slots c" "names nm (slot c j)" by (auto simp: find_Some_iff)
  then show ?thesis using names_unique [OF assms(1) _ assms(2) _ assms(3)] j by simp
qed

lemma dir_map_Some_iff:
  assumes "dir_wf c"
  shows "dir_map c nm = Some s \<longleftrightarrow> (\<exists>k < slots c. names nm (slot c k) \<and> e_inode_sector (slot c k) = s)"
proof
  assume "dir_map c nm = Some s"
  then obtain k where "find (\<lambda>k. names nm (slot c k)) [0 ..< slots c] = Some k" "e_inode_sector (slot c k) = s"
    by (auto simp: dir_map_def)
  then show "\<exists>k < slots c. names nm (slot c k) \<and> e_inode_sector (slot c k) = s" by (auto simp: find_Some_iff)
next
  assume "\<exists>k < slots c. names nm (slot c k) \<and> e_inode_sector (slot c k) = s"
  then show "dir_map c nm = Some s" using find_names [OF assms] by (auto simp: dir_map_def)
qed

lemma dir_map_None_iff: "dir_map c nm = None \<longleftrightarrow> (\<forall>k < slots c. \<not> names nm (slot c k))"
  by (auto simp: dir_map_def find_None_iff)

text \<open>Replacing one entry.\<close>

lemma slots_splice:
  "k < slots c \<Longrightarrow> length e = 20 \<Longrightarrow> slots (splice c (20 * k) e) = slots c"
  by (simp add: slots_def length_splice)

lemma slot_splice:
  assumes "k < slots c" "length e = 20" "j < slots c"
  shows "slot (splice c (20 * k) e) j = (if j = k then e else slot c j)"
proof (rule nth_equalityI)
  have l: "20 * k + 20 \<le> length c" "20 * j + 20 \<le> length c" using assms(1,3) by (simp_all add: slots_def)
  then show "length (slot (splice c (20 * k) e) j) = length (if j = k then e else slot c j)"
    using assms by (simp add: slot_def length_splice)
  fix x assume "x < length (slot (splice c (20 * k) e) j)"
  then have x: "x < 20" by (simp add: slot_def)
  then show "slot (splice c (20 * k) e) j ! x = (if j = k then e else slot c j) ! x"
    using l assms by (auto simp: slot_def nth_splice length_splice)
qed

section \<open>The loops over the entries\<close>

lemma content_bound:
  assumes "fs_core L st" "inodes st p = Some i"
  shows "length (content st (data i)) + 512 < 2 ^ 31"
proof -
  have c: "space L st" "handles L st" using assms(1) by (auto simp: fs_core_def)
  have "data_ok st (data i)" using spaceD(2) [OF c(1)] handlesD(2,3) [OF c(2) assms(2)] by simp
  then show ?thesis by (simp add: data_ok_def nat_less_iff)
qed

lemma slots_bound: "length c + 512 < 2 ^ 31 \<Longrightarrow> k \<le> slots c \<Longrightarrow> 20 * k + 20 < 2 ^ 31"
  by (simp add: slots_def)

lemma content_same: "sect st' = sect st \<Longrightarrow> content st' d = content st d"
  by (simp add: content_def data_byte_def)

lemma read_slot:
  assumes "fs_core L st" "inodes st p = Some i" "content st (data i) = c"
  shows "\<exists>st'. inode_read_at p 20 (int (20 * k)) st = Some (st', slot c k) \<and> io st st' \<and> sect st' = sect st"
  using inode_read_at_core [OF assms(1,2), of "int (20 * k)" 20] assms(3) by (simp add: slot_def nat_mult_distrib)

text \<open>The state reached by reading, from which the loop goes on.\<close>

lemma read_slot_next:
  assumes "fs_core L st" "inodes st p = Some i" "content st (data i) = c" "io st st'" "sect st' = sect st"
  shows "fs_core L st'" "inodes st' p = Some i" "content st' (data i) = c"
  using fs_core_io [OF assms(1,4,5)] assms(2,3,4) content_same [OF assms(5)] by (simp_all add: io_def)

lemma sint_ofs: "20 * k < 2 ^ 31 \<Longrightarrow> sint (of_nat (20 * k) :: u32) = int (20 * k)"
  using sint_word_of_int [of "int (20 * k)"] by simp

lemma next_slot_ofs: "20 * k + 20 < 2 ^ 31 \<Longrightarrow> next_slot (int (20 * k)) = int (20 * Suc k)"
  using sint_word_of_int [of "int (20 * k + 20)"] by (simp add: next_slot_def)

lemma lookup_loop_ok:
  assumes "fs_core L st" "inodes st p = Some i" "content st (data i) = c" "dir_wf c" "0 \<notin> set nm" "k \<le> slots c"
  shows "\<exists>st'. lookup_loop p nm (of_nat (20 * k)) st =
      Some (st', map_option (\<lambda>k. (slot c k, of_nat (20 * k))) (find (\<lambda>k. names nm (slot c k)) [k ..< slots c])) \<and>
    io st st' \<and> sect st' = sect st"
  using assms
proof (induction "slots c - k" arbitrary: k st)
  case 0
  then have k: "k = slots c" by simp
  have b: "20 * k + 20 < 2 ^ 31" using content_bound [OF 0(2,3)] 0(4,7) slots_bound [of c k] by simp
  obtain st' where r: "inode_read_at p 20 (int (20 * k)) st = Some (st', slot c k)" "io st st'" "sect st' = sect st"
    using read_slot [OF 0(2-4)] by blast
  have "length (slot c k) \<noteq> 20" using k by (simp add: length_slot_iff)
  then show ?case using r b k by (subst lookup_loop.simps) (simp add: sint_ofs del: of_nat_mult)
next
  case (Suc x)
  then have k: "k < slots c" "x = slots c - Suc k" "Suc k \<le> slots c" by simp_all
  have b: "20 * k + 20 < 2 ^ 31" using content_bound [OF Suc(3,4)] Suc(5,8) slots_bound [of c k] by simp
  obtain st' where r: "inode_read_at p 20 (int (20 * k)) st = Some (st', slot c k)" "io st st'" "sect st' = sect st"
    using read_slot [OF Suc(3-5)] by blast
  have l: "length (slot c k) = 20" using k(1) by (simp add: length_slot)
  have m: "(if e_in_use (slot c k) then str_eq nm (e_name (slot c k)) else Some False) = Some (names nm (slot c k))"
    using Suc(6,7) k(1) by (auto simp: names_def cname_def str_eq_ok dir_wf_def)
  have n: "(of_nat (20 * k) :: u32) + 20 = of_nat (20 * Suc k)" by simp
  have step: "lookup_loop p nm (of_nat (20 * k)) st =
      (if names nm (slot c k) then Some (st', Some (slot c k, of_nat (20 * k))) else lookup_loop p nm (of_nat (20 * Suc k)) st')"
    using r(1) b l m unfolding n [symmetric] by (subst lookup_loop.simps) (simp add: sint_ofs del: of_nat_mult)
  show ?case
  proof (cases "names nm (slot c k)")
    case True
    then show ?thesis using step r(2,3) k(1) by (simp add: find_upt_step)
  next
    case False
    obtain st2 where "lookup_loop p nm (of_nat (20 * Suc k)) st' =
        Some (st2, map_option (\<lambda>k. (slot c k, of_nat (20 * k))) (find (\<lambda>k. names nm (slot c k)) [Suc k ..< slots c]))"
      "io st' st2" "sect st2 = sect st'"
      using Suc(1) [OF k(2) read_slot_next [OF Suc(3-5) r(2,3)] Suc(6,7) k(3)] by blast
    then show ?thesis using step False r(2,3) k(1) io_trans [of st st' st2] by (auto simp add: find_upt_step)
  qed
qed

lemma lookup_ok:
  assumes "fs_core L st" "inodes st (dir_inode d) = Some i" "content st (data i) = c" "dir_wf c" "0 \<notin> set nm"
  shows "\<exists>st'. lookup d nm st =
      Some (st', map_option (\<lambda>k. (slot c k, of_nat (20 * k))) (find (\<lambda>k. names nm (slot c k)) [0 ..< slots c])) \<and>
    io st st' \<and> sect st' = sect st"
  using lookup_loop_ok [OF assms, of 0] by (simp add: lookup_def)

text \<open>The search for a free slot ends at the first one, or at the end of the directory.\<close>

definition first_free :: "u8 list \<Rightarrow> nat \<Rightarrow> nat" where
  "first_free c k = (case find (\<lambda>j. \<not> e_in_use (slot c j)) [k ..< slots c] of Some j \<Rightarrow> j | None \<Rightarrow> slots c)"

lemma free_slot_ok:
  assumes "fs_core L st" "inodes st p = Some i" "content st (data i) = c" "length e = 20" "k \<le> slots c"
  shows "\<exists>st' e'. free_slot p e (int (20 * k)) st = Some (st', e', int (20 * first_free c k)) \<and> length e' = 20 \<and>
    io st st' \<and> sect st' = sect st"
  using assms
proof (induction "slots c - k" arbitrary: k st e)
  case 0
  then have k: "k = slots c" by simp
  obtain st' where r: "inode_read_at p 20 (int (20 * k)) st = Some (st', slot c k)" "io st st'" "sect st' = sect st"
    using read_slot [OF 0(2-4)] by blast
  have "length (slot c k) \<noteq> 20" using k by (simp add: length_slot_iff)
  moreover have "length (slot c k) \<le> 20" by (simp add: slot_def)
  ultimately show ?case using r k 0(5) by (subst free_slot.simps) (simp add: first_free_def)
next
  case (Suc x)
  then have k: "k < slots c" "x = slots c - Suc k" "Suc k \<le> slots c" by simp_all
  have b: "20 * k + 20 < 2 ^ 31" using content_bound [OF Suc(3,4)] Suc(5,7) slots_bound [of c k] by simp
  obtain st' where r: "inode_read_at p 20 (int (20 * k)) st = Some (st', slot c k)" "io st st'" "sect st' = sect st"
    using read_slot [OF Suc(3-5)] by blast
  have l: "length (slot c k) = 20" using k(1) by (simp add: length_slot)
  have step: "free_slot p e (int (20 * k)) st =
      (if e_in_use (slot c k) then free_slot p (slot c k) (int (20 * Suc k)) st' else Some (st', slot c k, int (20 * k)))"
    using r(1) l Suc(6) next_slot_ofs [OF b] by (subst free_slot.simps) simp
  show ?case
  proof (cases "e_in_use (slot c k)")
    case True
    obtain st2 e' where "free_slot p (slot c k) (int (20 * Suc k)) st' = Some (st2, e', int (20 * first_free c (Suc k)))"
      and o: "length e' = 20" "io st' st2" "sect st2 = sect st'"
      using Suc(1) [OF k(2) read_slot_next [OF Suc(3-5) r(2,3)] l k(3)] by blast
    moreover have "first_free c k = first_free c (Suc k)" using True k(1) by (simp add: first_free_def find_upt_step)
    ultimately show ?thesis using step True r(3) o(1,3) io_trans [OF r(2) o(2)] by (intro exI [of _ st2] exI [of _ e']) simp
  next
    case False
    then have "first_free c k = k" using k(1) by (simp add: first_free_def find_upt_step)
    then show ?thesis using step False r(2,3) l by auto
  qed
qed

section \<open>Adding and erasing an entry\<close>

lemma new_entry:
  assumes "length e = 20" "nm \<noteq> []" "length nm \<le> NAME_MAX" "0 \<notin> set nm"
    and e'_def: "e' = set_inode_sector s (set_name nm (set_in_use True e))"
  shows "length e' = 20" "e_in_use e'" "e_inode_sector e' = s" "cname e' = nm" "0 \<in> set (e_name e')"
proof -
  have n: "length nm \<le> 14" using assms(3) by (simp add: NAME_MAX_def)
  have e': "e' = le32_bytes s @ nm @ [0] @ drop (5 + length nm) (e[19 := 1])"
    using assms(1) n by (simp add: e'_def set_inode_sector_def set_name_def set_in_use_def splice_def NAME_MAX_def)
  show "length e' = 20" "e_inode_sector e' = s" using n assms(1) by (simp_all add: e' e_inode_sector_def)
  show "e_in_use e'" using n assms(1) by (simp add: e' e_in_use_def nth_append nth_Cons')
  have "e_name e' = nm @ [0] @ take (14 - length nm) (drop (5 + length nm) (e[19 := 1]))"
    using n Suc_diff_le [OF n] by (simp add: e' e_name_def NAME_MAX_def)
  then show "cname e' = nm" "0 \<in> set (e_name e')" using assms(4) by (auto simp: cname_def takeWhile_append)
qed

lemma option_eqI: "(\<And>x. f = Some x \<longleftrightarrow> g = Some x) \<Longrightarrow> f = g"
  by (cases f; cases g) auto

lemma slot_insert:
  assumes "dir_wf c" "k < slots c" "\<not> e_in_use (slot c k)" "dir_map c nm = None"
    "length e = 20" "names nm e" "0 \<in> set (e_name e)"
  defines "c' \<equiv> splice c (20 * k) e"
  shows "dir_wf c'" "dir_map c' = (dir_map c)(nm \<mapsto> e_inode_sector e)"
proof -
  have n: "slots c' = slots c" using assms(2,5) by (simp add: c'_def slots_splice)
  have sl: "slot c' j = (if j = k then e else slot c j)" if "j < slots c" for j
    using slot_splice [OF assms(2,5) that] by (simp add: c'_def)
  have new: "\<forall>j < slots c. e_in_use (slot c j) \<longrightarrow> cname (slot c j) \<noteq> nm"
    using assms(4) by (simp add: dir_map_None_iff names_def)
  show wf: "dir_wf c'" unfolding dir_wf_def n
    using assms(1,6,7) new by (auto simp: sl dir_wf_def names_def)
  show "dir_map c' = (dir_map c)(nm \<mapsto> e_inode_sector e)"
  proof (rule ext, rule option_eqI)
    fix x s
    have "dir_map c' x = Some s \<longleftrightarrow> (\<exists>j < slots c. names x (slot c' j) \<and> e_inode_sector (slot c' j) = s)"
      using dir_map_Some_iff [OF wf] n by simp
    also have "\<dots> \<longleftrightarrow> x = nm \<and> e_inode_sector e = s \<or> x \<noteq> nm \<and> dir_map c x = Some s"
      unfolding dir_map_Some_iff [OF assms(1)] using assms(2,3,6) new by (auto simp: sl names_def split: if_splits)
    finally show "dir_map c' x = Some s \<longleftrightarrow> ((dir_map c)(nm \<mapsto> e_inode_sector e)) x = Some s" by auto
  qed
qed

lemma slot_erase:
  assumes "dir_wf c" "k < slots c" "names nm (slot c k)" "length e = 20" "\<not> e_in_use e"
  defines "c' \<equiv> splice c (20 * k) e"
  shows "dir_wf c'" "dir_map c' = (dir_map c)(nm := None)"
proof -
  have n: "slots c' = slots c" using assms(2,4) by (simp add: c'_def slots_splice)
  have sl: "slot c' j = (if j = k then e else slot c j)" if "j < slots c" for j
    using slot_splice [OF assms(2,4) that] by (simp add: c'_def)
  show wf: "dir_wf c'" unfolding dir_wf_def n using assms(1,5) by (auto simp: sl dir_wf_def)
  show "dir_map c' = (dir_map c)(nm := None)"
  proof (rule ext, rule option_eqI)
    fix x s
    have "dir_map c' x = Some s \<longleftrightarrow> (\<exists>j < slots c. names x (slot c' j) \<and> e_inode_sector (slot c' j) = s)"
      using dir_map_Some_iff [OF wf] n by simp
    also have "\<dots> \<longleftrightarrow> x \<noteq> nm \<and> dir_map c x = Some s"
    proof -
      have u: "names nm (slot c j) \<longleftrightarrow> j = k" if "j < slots c" for j
        using names_unique [OF assms(1) that assms(2) _ assms(3)] assms(3) by blast
      have "names x (slot c' j) \<and> e_inode_sector (slot c' j) = s \<longleftrightarrow> x \<noteq> nm \<and> names x (slot c j) \<and> e_inode_sector (slot c j) = s"
        if "j < slots c" for j using sl [OF that] u [OF that] assms(3,5) by (auto simp: names_def)
      then show ?thesis unfolding dir_map_Some_iff [OF assms(1)] by blast
    qed
    finally show "dir_map c' x = Some s \<longleftrightarrow> ((dir_map c)(nm := None)) x = Some s" by auto
  qed
qed

text \<open>A write past the last whole entry changes none.\<close>

lemma slot_tail:
  assumes "20 * slots c + length ys \<le> length c"
  defines "c' \<equiv> splice c (20 * slots c) ys"
  shows "dir_wf c' = dir_wf c" "dir_map c' = dir_map c"
proof -
  have n: "slots c' = slots c" using assms(1) by (simp add: c'_def slots_def)
  have "slot c' j = slot c j" if "j < slots c" for j
  proof (rule nth_equalityI)
    show "length (slot c' j) = length (slot c j)" using that n by (simp add: length_slot)
    fix x assume "x < length (slot c' j)"
    then have "x < 20" by (simp add: slot_def)
    then show "slot c' j ! x = slot c j ! x"
      using that assms(1) by (auto simp: c'_def slot_def nth_splice slots_def)
  qed
  then have sl: "\<forall>j < slots c. slot c' j = slot c j" by blast
  then show "dir_wf c' = dir_wf c" by (simp add: dir_wf_def n)
  have "find (\<lambda>k. names nm (slot c' k)) [0 ..< slots c] = find (\<lambda>k. names nm (slot c k)) [0 ..< slots c]" for nm
    using sl by (intro find_cong) simp_all
  moreover have "k < slots c" if "find (\<lambda>k. names nm (slot c k)) [0 ..< slots c] = Some k" for nm k
    using that by (auto simp: find_Some_iff)
  ultimately show "dir_map c' = dir_map c"
    using sl by (auto simp: dir_map_def n fun_eq_iff intro!: map_option_cong)
qed

lemma first_free_full:
  "first_free c 0 < slots c \<longleftrightarrow> (\<exists>k < slots c. \<not> e_in_use (slot c k))"
  "first_free c 0 < slots c \<Longrightarrow> \<not> e_in_use (slot c (first_free c 0))"
  "first_free c 0 \<le> slots c"
  by (auto simp: first_free_def find_Some_iff find_None_iff split: option.splits)

lemma data_in_L:
  assumes "fs_core L st" "inodes st p = Some i"
  shows "isector i \<in> L" "data i = dinode st (isector i)"
proof -
  have "handles L st" using assms(1) by (simp add: fs_core_def)
  from handlesD(2,3) [OF this assms(2)] show "isector i \<in> L" "data i = dinode st (isector i)" by simp_all
qed

text \<open>What changes when a directory is written: only its own contents.\<close>

definition only_dir :: "u32 set \<Rightarrow> u32 \<Rightarrow> fs \<Rightarrow> fs \<Rightarrow> bool" where
  "only_dir L s st st' \<longleftrightarrow> (\<forall>t \<in> L. dinode st' t = dinode st t \<and> (t \<noteq> s \<longrightarrow> content st' (dinode st t) = content st (dinode st t)))"

lemma only_dir_same: "sect st' = sect st \<Longrightarrow> only_dir L s st st'"
  by (simp add: only_dir_def dinode_def content_def data_byte_def)

lemma write_dir:
  assumes "fs_core L st" "inodes st p = Some i" "isector i \<noteq> 0" "deny_write_cnt i = 0" "length e = 20" "k \<le> slots (content st (data i))"
  defines "c \<equiv> content st (data i)"
  defines "n \<equiv> min 20 (length c - 20 * k)"
  shows "\<exists>st'. inode_write_at p e 20 (int (20 * k)) st = Some (st', int n) \<and> io st st' \<and> fs_core L st' \<and>
    only_dir L (isector i) st st' \<and> content st' (data i) = splice c (20 * k) (take n e)"
proof -
  note d = data_in_L [OF assms(1,2)]
  define a where "a = 20 * k"
  have n: "n = min (nat 20) (nat (dlength (data i)) - nat (int a))" unfolding nat_int by (simp add: n_def c_def a_def)
  have "\<exists>st'. inode_write_at p e 20 (int a) st = Some (st', int n) \<and> io st st' \<and> fs_core L st' \<and>
    (\<forall>t \<in> L. dinode st' t = dinode st t \<and> content st' (dinode st t) =
      (if t = isector i then splice (content st (dinode st t)) a (take n e) else content st (dinode st t)))"
    by (rule inode_write_at_core [OF assms(1-4), of "int a" 20 e, folded n, unfolded nat_int]) (simp_all add: assms(5))
  then obtain st' where st': "inode_write_at p e 20 (int a) st = Some (st', int n)" "io st st'" "fs_core L st'"
    "\<forall>t \<in> L. dinode st' t = dinode st t \<and> content st' (dinode st t) =
      (if t = isector i then splice (content st (dinode st t)) a (take n e) else content st (dinode st t))" by blast
  have "only_dir L (isector i) st st'" using st'(4) by (simp add: only_dir_def)
  moreover have "content st' (data i) = splice c a (take n e)" using st'(4) d by (simp add: c_def)
  ultimately show ?thesis using st'(1-3) unfolding a_def by blast
qed

lemma dir_add_core:
  assumes "fs_core L st" "inodes st (dir_inode d) = Some i" "isector i \<noteq> 0" "deny_write_cnt i = 0" "content st (data i) = c"
    "dir_wf c" "0 \<notin> set nm" "length e0 = 20"
  defines "ok \<equiv> nm \<noteq> [] \<and> length nm \<le> NAME_MAX \<and> dir_map c nm = None \<and> (\<exists>k < slots c. \<not> e_in_use (slot c k))"
  shows "\<exists>st'. dir_add e0 d nm s st = Some (st', ok) \<and> io st st' \<and> fs_core L st' \<and> only_dir L (isector i) st st' \<and>
    dir_wf (content st' (data i)) \<and> dir_map (content st' (data i)) = (if ok then (dir_map c)(nm \<mapsto> s) else dir_map c)"
proof -
  have core: "disk_ok st" using assms(1) by (simp add: fs_core_def)
  consider (invalid) "nm = [] \<or> NAME_MAX < length nm" | (valid) "nm \<noteq> []" "length nm \<le> NAME_MAX" by force
  then show ?thesis
  proof cases
    case invalid
    then show ?thesis using assms(1,5,6) io_refl [OF core] by (auto simp: dir_add_def ok_def only_dir_def)
  next
    case valid
    obtain st1 where l: "lookup d nm st =
        Some (st1, map_option (\<lambda>k. (slot c k, of_nat (20 * k))) (find (\<lambda>k. names nm (slot c k)) [0 ..< slots c]))"
      "io st st1" "sect st1 = sect st" using lookup_ok [OF assms(1,2,5,6,7)] by blast
    note n1 = read_slot_next [OF assms(1,2,5) l(2,3)]
    show ?thesis
    proof (cases "dir_map c nm")
      case (Some t)
      then have "lookup d nm st \<noteq> None \<and> (\<exists>r. lookup d nm st = Some (st1, Some r))" using l(1) by (auto simp: dir_map_def)
      then have "dir_add e0 d nm s st = Some (st1, ok)" using valid Some by (auto simp: dir_add_def ok_def)
      then show ?thesis using Some n1 l(2,3) assms(6) by (simp add: ok_def only_dir_same)
    next
      case None
      then have none: "lookup d nm st = Some (st1, None)" using l(1) by (simp add: dir_map_def)
      let ?k = "first_free c 0"
      obtain st2 e where f: "free_slot (dir_inode d) e0 0 st1 = Some (st2, e, int (20 * ?k))" "length e = 20"
        "io st1 st2" "sect st2 = sect st1"
        using free_slot_ok [OF n1 assms(8), of 0] by auto
      note n2 = read_slot_next [OF n1 f(3,4)]
      define e' where "e' = set_inode_sector s (set_name nm (set_in_use True e))"
      note e' = new_entry [OF f(2) valid assms(7) e'_def]
      let ?n = "min 20 (length c - 20 * ?k)"
      have k: "?k \<le> slots (content st2 (data i))" using n2(3) first_free_full(3) by simp
      obtain st3 where w: "inode_write_at (dir_inode d) e' 20 (int (20 * ?k)) st2 = Some (st3, int ?n)" "io st2 st3" "fs_core L st3"
        "only_dir L (isector i) st2 st3" "content st3 (data i) = splice c (20 * ?k) (take ?n e')"
        using write_dir [OF n2(1,2) assms(3,4) e'(1) k] unfolding n2(3) by blast
      have io3: "io st st3" using io_trans [OF io_trans [OF l(2) f(3)] w(2)] .
      have sect2: "sect st2 = sect st" using f(4) l(3) by simp
      then have od: "only_dir L (isector i) st st3" using w(4) by (simp add: only_dir_def dinode_def content_same [OF sect2])
      have run: "dir_add e0 d nm s st = Some (st3, ?n = 20)"
        using valid none f(1) w(1) by (simp add: dir_add_def e'_def Let_def)
      show ?thesis
      proof (cases "?k < slots c")
        case True
        then have n20: "?n = 20" by (simp add: slots_def)
        have nk: "names nm e'" using e'(2,4) by (simp add: names_def)
        have "ok" using valid None True by (simp add: ok_def first_free_full)
        moreover have "take ?n e' = e'" using n20 e'(1) by simp
        ultimately show ?thesis
          using run n20 io3 w(3,5) od e'(3) slot_insert [OF assms(6) True first_free_full(2) [OF True] None e'(1) nk e'(5)]
          by (intro exI [of _ st3]) simp
      next
        case False
        then have k: "?k = slots c" using first_free_full(3) [of c] by simp
        then have n20: "?n < 20" "20 * slots c + length (take ?n e') \<le> length c" using e'(1) by (auto simp: slots_def)
        have "\<not> ok" using False by (simp add: ok_def first_free_full)
        then show ?thesis
          using run n20(1) io3 w(3,5) od slot_tail [OF n20(2)] assms(6) k by (intro exI [of _ st3]) simp
      qed
    qed
  qed
qed

section \<open>Listing\<close>

text \<open>The names from entry \<open>k\<close> on, in order, and where each call of \<open>dir_readdir\<close> stops.\<close>

definition listing :: "u8 list \<Rightarrow> nat \<Rightarrow> name list" where
  "listing c k = map (\<lambda>j. cname (slot c j)) (filter (\<lambda>j. e_in_use (slot c j)) [k ..< slots c])"

lemma listing_step:
  "k < slots c \<Longrightarrow> listing c k = (if e_in_use (slot c k) then cname (slot c k) # listing c (Suc k) else listing c (Suc k))"
  by (simp add: listing_def upt_conv_Cons)

lemma cname_length: "length (cname e) \<le> 15"
  using length_takeWhile_le [of "\<lambda>b. b \<noteq> 0" "e_name e"] by (simp add: cname_def e_name_def NAME_MAX_def)

lemma cname_short: "0 \<in> set (e_name e) \<Longrightarrow> length (cname e) \<le> NAME_MAX"
proof -
  assume "0 \<in> set (e_name e)"
  then have "takeWhile (\<lambda>b. b \<noteq> 0) (e_name e) \<noteq> e_name e" by (auto simp: takeWhile_eq_all_conv)
  then have "length (takeWhile (\<lambda>b. b \<noteq> 0) (e_name e)) \<noteq> length (e_name e)"
    by (metis length_takeWhile_le takeWhile_eq_take take_all order_refl)
  then have "length (cname e) < length (e_name e)" using length_takeWhile_le [of "\<lambda>b. b \<noteq> 0" "e_name e"] by (simp add: cname_def)
  then show ?thesis by (simp add: e_name_def NAME_MAX_def split: if_splits)
qed

lemma readdir_ok:
  assumes "fs_core L st" "inodes st (dir_inode d) = Some i" "content st (data i) = c" "dir_wf c" "dir_pos d = int (20 * k)" "k \<le> slots c"
  shows "\<exists>st' k'. dir_readdir d st = Some (st', d\<lparr>dir_pos := int (20 * k')\<rparr>, case listing c k of [] \<Rightarrow> None | nm # _ \<Rightarrow> Some nm) \<and>
    listing c k' = tl (listing c k) \<and> k' \<le> slots c \<and> io st st' \<and> sect st' = sect st"
  using assms
proof (induction "slots c - k" arbitrary: k st d)
  case 0
  then have k: "k = slots c" by simp
  obtain st' where r: "inode_read_at (dir_inode d) 20 (int (20 * k)) st = Some (st', slot c k)" "io st st'" "sect st' = sect st"
    using read_slot [OF 0(2-4)] by blast
  have n: "length (slot c k) \<noteq> 20" using k by (simp add: length_slot_iff)
  have "d\<lparr>dir_pos := int (20 * k)\<rparr> = d" using 0(6) by simp
  then have "dir_readdir d st = Some (st', d\<lparr>dir_pos := int (20 * k)\<rparr>, None)" using r(1) n 0(6) by (subst dir_readdir.simps) simp
  moreover have "listing c k = []" using k by (simp add: listing_def)
  ultimately show ?case using r(2,3) k by (intro exI [of _ st'] exI [of _ k]) simp
next
  case (Suc x)
  then have k: "k < slots c" "x = slots c - Suc k" "Suc k \<le> slots c" by simp_all
  have b: "20 * k + 20 < 2 ^ 31" using content_bound [OF Suc(3,4)] Suc(5,8) slots_bound [of c k] by simp
  obtain st' where r: "inode_read_at (dir_inode d) 20 (int (20 * k)) st = Some (st', slot c k)" "io st st'" "sect st' = sect st"
    using read_slot [OF Suc(3-5)] by blast
  have l: "length (slot c k) = 20" using k(1) by (simp add: length_slot)
  let ?d = "d\<lparr>dir_pos := int (20 * Suc k)\<rparr>"
  show ?case
  proof (cases "e_in_use (slot c k)")
    case True
    then have z: "0 \<in> set (e_name (slot c k))" using Suc(6) k(1) by (simp add: dir_wf_def)
    have "c_string (e_name (slot c k)) = Some (cname (slot c k))" using c_string_ok [OF z] by (simp add: cname_def)
    then have "dir_readdir d st = Some (st', ?d, Some (cname (slot c k)))"
      using r(1) l True Suc(7) next_slot_ofs [OF b] cname_short [OF z] by (subst dir_readdir.simps) (simp add: Let_def)
    then show ?thesis using True listing_step [OF k(1)] r(2,3) k(3) by (intro exI [of _ st'] exI [of _ "Suc k"]) simp
  next
    case False
    note nx = read_slot_next [OF Suc(3-5) r(2,3)]
    have d: "inodes st' (dir_inode ?d) = Some i" "dir_pos ?d = int (20 * Suc k)" using nx(2) by simp_all
    obtain st2 k' where h: "dir_readdir ?d st' = Some (st2, ?d\<lparr>dir_pos := int (20 * k')\<rparr>, case listing c (Suc k) of [] \<Rightarrow> None | nm # _ \<Rightarrow> Some nm)"
      "listing c k' = tl (listing c (Suc k))" "k' \<le> slots c" "io st' st2" "sect st2 = sect st'"
      using Suc(1) [OF k(2) nx(1) d(1) nx(3) Suc(6) d(2) k(3)] by blast
    have "dir_readdir d st = dir_readdir ?d st'"
      using r(1) l False Suc(7) next_slot_ofs [OF b] by (subst dir_readdir.simps) (simp add: Let_def)
    then show ?thesis
      using h False listing_step [OF k(1)] r(3) io_trans [OF r(2) h(4)] by (intro exI [of _ st2] exI [of _ k']) simp
  qed
qed

text \<open>Calling \<open>dir_readdir\<close> \<open>n\<close> times.\<close>

fun readdir_times :: "nat \<Rightarrow> dir \<Rightarrow> fs \<Rightarrow> (fs \<times> dir \<times> name option list) option" where
  "readdir_times 0 d st = Some (st, d, [])"
| "readdir_times (Suc n) d st = do {
     (st, d, r) \<leftarrow> dir_readdir d st;
     (st, d, rs) \<leftarrow> readdir_times n d st;
     Some (st, d, r # rs) }"

lemma readdir_times_ok:
  assumes "fs_core L st" "inodes st (dir_inode d) = Some i" "content st (data i) = c" "dir_wf c" "dir_pos d = int (20 * k)" "k \<le> slots c"
  shows "\<exists>st' d'. readdir_times n d st =
    Some (st', d', map Some (take n (listing c k)) @ replicate (n - length (listing c k)) None) \<and> sect st' = sect st"
  using assms
proof (induction n arbitrary: d st k)
  case (Suc n)
  obtain st1 k' where r: "dir_readdir d st = Some (st1, d\<lparr>dir_pos := int (20 * k')\<rparr>, case listing c k of [] \<Rightarrow> None | nm # _ \<Rightarrow> Some nm)"
    "listing c k' = tl (listing c k)" "k' \<le> slots c" "io st st1" "sect st1 = sect st"
    using readdir_ok [OF Suc(2-7)] by blast
  let ?d = "d\<lparr>dir_pos := int (20 * k')\<rparr>"
  note nx = read_slot_next [OF Suc(2-4) r(4,5)]
  have d: "inodes st1 (dir_inode ?d) = Some i" "dir_pos ?d = int (20 * k')" using nx(2) by simp_all
  obtain st2 d2 where h: "readdir_times n ?d st1 =
      Some (st2, d2, map Some (take n (listing c k')) @ replicate (n - length (listing c k')) None)" "sect st2 = sect st1"
    using Suc(1) [OF nx(1) d(1) nx(3) Suc(5) d(2) r(3)] by blast
  show ?case
  proof (cases "listing c k")
    case Nil
    then show ?thesis using r(1,2,5) h by simp
  next
    case (Cons nm nms)
    then show ?thesis using r(1,2,5) h by simp
  qed
qed simp

lemma listing_names:
  assumes "dir_wf c"
  shows "distinct (listing c 0)" "set (listing c 0) = dom (dir_map c)"
proof -
  have "inj_on (\<lambda>j. cname (slot c j)) {j. j < slots c \<and> e_in_use (slot c j)}"
    using assms by (auto simp: inj_on_def dir_wf_def)
  then show "distinct (listing c 0)" by (auto simp: listing_def distinct_map intro: inj_on_subset)
  have "nm \<in> set (listing c 0) \<longleftrightarrow> (\<exists>s. dir_map c nm = Some s)" for nm
    unfolding dir_map_Some_iff [OF assms] by (auto simp: listing_def names_def)
  then show "set (listing c 0) = dom (dir_map c)" by blast
qed

text \<open>
  Listing a directory. From the start of a well-formed directory, \<open>n\<close> calls of \<open>dir_readdir\<close> return
  the names of the directory one after another, each exactly once, and then report the end for good;
  nothing on disk changes.
\<close>

theorem dir_readdir_lists:
  assumes "fs_core L st" "inodes st (dir_inode d) = Some i" "dir_wf (content st (data i))" "dir_pos d = 0"
  shows "\<exists>nms st' d'. distinct nms \<and> set nms = dom (dir_map (content st (data i))) \<and> sect st' = sect st \<and>
    readdir_times n d st = Some (st', d', map Some (take n nms) @ replicate (n - length nms) None)"
  using readdir_times_ok [OF assms(1,2) refl assms(3), of 0 n] assms(4) listing_names [OF assms(3)] by auto

end
