(* ===== verification/Filesys.thy ===== *)
theory Filesys
  imports Directory
begin

text \<open>
  The file system (filesys/filesys.c): creating, opening and removing files by name, and starting,
  formatting and stopping the file system. The invariant ties the root directory, the free map, the
  open inodes and the open files together.
\<close>

text \<open>\<open>e0\<close> is the uninitialised entry on the stack of \<open>dir_add\<close>.\<close>

definition filesys_create :: "u8 list \<Rightarrow> name \<Rightarrow> int \<Rightarrow> fs \<Rightarrow> (fs \<times> bool) option" where
  "filesys_create e0 nm initial_size st = do {
     (st, dir) \<leftarrow> dir_open_root st;
     (st, inode_sector, success) \<leftarrow> (case dir of
         None \<Rightarrow> Some (st, 0, False)
       | Some d \<Rightarrow> do {
           (st, a) \<leftarrow> free_map_allocate 1 st;
           case a of
             None \<Rightarrow> Some (st, 0, False)
           | Some s \<Rightarrow> do {
               (st, ok) \<leftarrow> inode_create s initial_size st;
               if \<not> ok then Some (st, s, False)
               else do {
                 (st, ok) \<leftarrow> dir_add e0 d nm s st;
                 Some (st, s, ok) } } });
     st \<leftarrow> (if \<not> success \<and> inode_sector \<noteq> 0 then free_map_release inode_sector 1 st else Some st);
     st \<leftarrow> dir_close dir st;
     Some (st, success) }"

definition filesys_open :: "name \<Rightarrow> fs \<Rightarrow> (fs \<times> nat option) option" where
  "filesys_open nm st = do {
     (st, dir) \<leftarrow> dir_open_root st;
     (st, inode) \<leftarrow> (case dir of None \<Rightarrow> Some (st, None) | Some d \<Rightarrow> dir_lookup d nm st);
     st \<leftarrow> dir_close dir st;
     file_open inode st }"

definition filesys_remove :: "name \<Rightarrow> fs \<Rightarrow> (fs \<times> bool) option" where
  "filesys_remove nm st = do {
     (st, dir) \<leftarrow> dir_open_root st;
     (st, success) \<leftarrow> (case dir of None \<Rightarrow> Some (st, False) | Some d \<Rightarrow> dir_remove d nm st);
     st \<leftarrow> dir_close dir st;
     Some (st, success) }"

definition do_format :: "fs \<Rightarrow> fs option" where
  "do_format st = do {
     st \<leftarrow> free_map_create st;
     (st, ok) \<leftarrow> dir_create ROOT_DIR_SECTOR 16 st;
     c_assert ok;
     free_map_close st }"

text \<open>\<open>buf\<close> is the stale contents of the memory the free map is allocated in.\<close>

definition filesys_init :: "u32 list \<Rightarrow> bool \<Rightarrow> fs \<Rightarrow> fs option" where
  "filesys_init buf format st = do {
     dev \<leftarrow> block_get_role BLOCK_FILESYS (devs st);
     b \<leftarrow> dev;
     let st = st\<lparr>fs_device := b\<rparr>;
     let st = inode_init st;
     st \<leftarrow> free_map_init buf st;
     st \<leftarrow> (if format then do_format st else Some st);
     free_map_open st }"

definition filesys_done :: "fs \<Rightarrow> fs option" where
  "filesys_done st = free_map_close st"

section \<open>The invariant\<close>

definition root :: "fs \<Rightarrow> u8 list" where
  "root st = content st (dinode st 1)"

definition entries :: "fs \<Rightarrow> name \<Rightarrow> u32 option" where
  "entries st = dir_map (root st)"

text \<open>The inodes in use: the two system files, the named files, and removed files still open.\<close>

definition live :: "fs \<Rightarrow> u32 set" where
  "live st = {0, 1} \<union> ran (entries st) \<union> {s. \<exists>p i. inodes st p = Some i \<and> removed i \<and> isector i = s}"

definition fs_ok :: "fs \<Rightarrow> bool" where
  "fs_ok st \<longleftrightarrow> fs_core (live st) st \<and> dir_wf (root st) \<and> ran (entries st) \<inter> {0, 1} = {} \<and>
     inj_on (entries st) (dom (entries st)) \<and>
     (\<forall>p i. inodes st p = Some i \<longrightarrow> removed i \<longrightarrow> isector i \<notin> {0, 1} \<union> ran (entries st)) \<and>
     (\<forall>f fl i. files st f = Some fl \<longrightarrow> inodes st (finode fl) = Some i \<longrightarrow> isector i \<noteq> 1)"

text \<open>What a user of the file system sees: the contents of the file each name stands for.\<close>

definition view :: "fs \<Rightarrow> name \<Rightarrow> u8 list option" where
  "view st nm = map_option (\<lambda>s. content st (dinode st s)) (entries st nm)"

text \<open>The contents behind an open file.\<close>

definition view_file :: "fs \<Rightarrow> nat \<Rightarrow> u8 list option" where
  "view_file st f = (case files st f of None \<Rightarrow> None | Some fl \<Rightarrow>
     (case inodes st (finode fl) of None \<Rightarrow> None | Some i \<Rightarrow> Some (content st (dinode st (isector i)))))"

section \<open>The root directory\<close>

text \<open>The states in which the root directory is open once more than in \<open>st\<close>.\<close>

definition rooted :: "fs \<Rightarrow> nat \<Rightarrow> inode \<Rightarrow> fs \<Rightarrow> bool" where
  "rooted st p i st' \<longleftrightarrow> inodes st' = (inodes st)(p \<mapsto> i) \<and> isector i = 1 \<and> deny_write_cnt i = 0 \<and> \<not> removed i \<and>
     files st' = files st \<and> free_map_file st' = free_map_file st \<and> fs_size st' = fs_size st \<and> file_refs st p = {} \<and>
     (case inodes st p of Some j \<Rightarrow> 0 < open_cnt j \<and> i = j\<lparr>open_cnt := open_cnt j + 1\<rparr> | None \<Rightarrow> open_cnt i = 1)"

lemma rooted_cong:
  "rooted st p i st1 \<Longrightarrow> inodes st2 = inodes st1 \<Longrightarrow> files st2 = files st1 \<Longrightarrow> free_map_file st2 = free_map_file st1 \<Longrightarrow>
    fs_size st2 = fs_size st1 \<Longrightarrow> rooted st p i st2"
  by (simp add: rooted_def)

lemma rooted_io: "rooted st p i st1 \<Longrightarrow> io st1 st2 \<Longrightarrow> rooted st p i st2"
  by (rule rooted_cong) (simp_all add: io_def)

lemma rooted_io_map: "rooted st p i st1 \<Longrightarrow> io (st1\<lparr>free_map := b\<rparr>) st2 \<Longrightarrow> rooted st p i st2"
  by (rule rooted_cong) (simp_all add: io_def)

lemma root_open:
  assumes "fs_core L st" "1 \<in> L" "\<forall>p i. inodes st p = Some i \<longrightarrow> removed i \<longrightarrow> isector i \<noteq> 1"
    "\<forall>f fl i. files st f = Some fl \<longrightarrow> inodes st (finode fl) = Some i \<longrightarrow> isector i \<noteq> 1"
  shows "\<exists>st' p i. dir_open_root st = Some (st', Some \<lparr>dir_inode = p, dir_pos = 0\<rparr>) \<and> fs_core L st' \<and> rooted st p i st' \<and>
    sect st' = sect st \<and> free_map st' = free_map st"
proof -
  obtain st1 p i where o: "inode_open 1 st = Some (st1, Some p)" "fs_core L st1" "inodes st1 p = Some i" "isector i = 1"
    "sect st1 = sect st" "files st1 = files st" "free_map st1 = free_map st" "fs_size st1 = fs_size st"
    "free_map_file st1 = free_map_file st" "\<forall>q. q \<noteq> p \<longrightarrow> inodes st1 q = inodes st q"
    "case inodes st p of Some j \<Rightarrow> i = j\<lparr>open_cnt := open_cnt j + 1\<rparr> |
      None \<Rightarrow> \<not> removed i \<and> open_cnt i = 1 \<and> (\<forall>q j. inodes st q = Some j \<longrightarrow> isector j \<noteq> 1) \<and> p = next_addr st"
    using inode_open_core [OF assms(1,2)] by blast
  have h: "handles L st" "handles L st1" using assms(1) o(2) by (auto simp: fs_core_def)
  have none: "file_refs st p = {}"
  proof (cases "inodes st p")
    case None
    then show ?thesis using no_refs [OF h(1)] by simp
  next
    case (Some j)
    then have "isector j = 1" using o(4,11) by simp
    then show ?thesis using assms(4) Some by (auto simp: file_refs_def)
  qed
  then have "deny_refs st1 p = {}" using o(6) by (auto simp: file_refs_def deny_refs_def)
  then have dw: "deny_write_cnt i = 0" using handlesD [OF h(2) o(3)] by simp
  have nr: "\<not> removed i" using o(4,11) assms(3) by (auto split: option.splits)
  have oc: "0 < open_cnt j" if "inodes st p = Some j" for j using handlesD [OF h(1) that] by simp
  have i1: "inodes st1 = (inodes st)(p \<mapsto> i)" using o(3,10) by auto
  have c1: "disk_ok st1" "memory st1" using o(2) by (auto simp: fs_core_def)
  obtain st2 where m: "fs_malloc st1 = (st2, Some (next_addr st1))" "io st1 st2" "sect st2 = sect st1"
    using fs_malloc_io [OF c1] by blast
  have "rooted st p i st1" using i1 o(4,6,8,9,11) dw nr none oc by (auto simp: rooted_def split: option.splits)
  then have "rooted st p i st2" using m(2) by (rule rooted_io)
  moreover have "fs_core L st2" using fs_core_io [OF o(2) m(2,3)] .
  moreover have "dir_open_root st = Some (st2, Some \<lparr>dir_inode = p, dir_pos = 0\<rparr>)"
    using o(1) m(1) by (simp add: dir_open_root_def dir_open_def ROOT_DIR_SECTOR_def)
  ultimately show ?thesis using m o(5,7) by (auto simp: io_def)
qed

lemma root_close:
  assumes "fs_core L st'" "rooted st p i st'"
  shows "\<exists>st2. dir_close (Some \<lparr>dir_inode = p, dir_pos = x\<rparr>) st' = Some st2 \<and> fs_core L st2 \<and> inodes st2 = inodes st \<and>
    files st2 = files st \<and> free_map_file st2 = free_map_file st \<and> fs_size st2 = fs_size st \<and> next_addr st' \<le> next_addr st2 \<and>
    only_dir L 0 st' st2 \<and> marked (free_map st2) = marked (free_map st')"
proof -
  have r: "inodes st' p = Some i" "\<not> removed i" "file_refs st' p = {}" "0 < open_cnt i"
    using assms(2) by (auto simp: rooted_def file_refs_def split: option.splits)
  have a: "after_close L i = L" using r(2) by (simp add: after_close_def)
  obtain st2 where c: "inode_close (Some p) st' = Some st2" "fs_core L st2" "files st2 = files st'" "free_map_file st2 = free_map_file st'"
    "fs_size st2 = fs_size st'" "next_addr st' \<le> next_addr st2"
    "inodes st2 = (if open_cnt i = 1 then (inodes st')(p := None) else (inodes st')(p \<mapsto> i\<lparr>open_cnt := open_cnt i - 1\<rparr>))"
    "\<forall>t \<in> L. dinode st2 t = dinode st' t \<and> (t \<noteq> 0 \<longrightarrow> content st2 (dinode st' t) = content st' (dinode st' t))"
    "marked (free_map st2) = marked (free_map st')"
    using inode_close_ok [OF assms(1) r(1)] r unfolding a by auto
  have "inodes st2 = inodes st" using c(7) assms(2) by (auto simp: rooted_def fun_eq_iff split: option.splits if_splits)
  then show ?thesis using c assms(2) by (auto simp: dir_close_def rooted_def only_dir_def)
qed

section \<open>Framing\<close>

text \<open>The inodes of \<open>L\<close> stay, and the contents of those not in \<open>X\<close>.\<close>

definition keeps :: "u32 set \<Rightarrow> u32 set \<Rightarrow> fs \<Rightarrow> fs \<Rightarrow> bool" where
  "keeps L X st st' \<longleftrightarrow> (\<forall>t \<in> L. dinode st' t = dinode st t \<and> (t \<notin> X \<longrightarrow> content st' (dinode st t) = content st (dinode st t)))"

lemma keeps_sect: "sect st' = sect st \<Longrightarrow> keeps L X st st'"
  by (simp add: keeps_def dinode_def content_def data_byte_def)

lemma keeps_trans: "keeps L X a b \<Longrightarrow> keeps L' Y b c \<Longrightarrow> L \<subseteq> L' \<Longrightarrow> X \<subseteq> Z \<Longrightarrow> Y \<subseteq> Z \<Longrightarrow> keeps L Z a c"
  by (simp add: keeps_def subset_iff) metis

lemma keeps_then: "keeps L X a b \<Longrightarrow> keeps L X b c \<Longrightarrow> keeps L X a c"
  using keeps_trans [of L X a b L X c X] by blast

lemma only_dir_keeps: "only_dir L s st st' \<longleftrightarrow> keeps L {s} st st'"
  by (simp add: only_dir_def keeps_def)

lemma keeps_root: "keeps L {0} st st' \<Longrightarrow> 1 \<in> L \<Longrightarrow> root st' = root st"
  by (simp add: keeps_def root_def)

lemma fs_core_less:
  assumes "fs_core (insert s L) st" "s \<noteq> 0" "s \<notin> L" "\<forall>p i. inodes st p = Some i \<longrightarrow> isector i \<noteq> s"
  shows "fs_core L st"
proof -
  have c: "disk_ok st" "memory st" "space (insert s L) st" "handles (insert s L) st" "fm_ok st" using assms(1) by (auto simp: fs_core_def)
  have "space L st" using fs_core_forget [OF c(3) _ assms(2)] assms(3) by simp
  moreover have "inode_ok L st p i" if "inodes st p = Some i" for p i
    using c(4) that assms(4) by (auto simp: handles_def inode_ok_def)
  then have "handles L st" using c(4) by (simp add: handles_def)
  ultimately show ?thesis using c by (simp add: fs_core_def)
qed

lemma fs_okD:
  assumes "fs_ok st"
  shows "fs_core (live st) st" "0 \<in> live st" "1 \<in> live st" "ran (entries st) \<subseteq> live st"
    "\<forall>p i. inodes st p = Some i \<longrightarrow> removed i \<longrightarrow> isector i \<noteq> 1"
    "\<forall>f fl i. files st f = Some fl \<longrightarrow> inodes st (finode fl) = Some i \<longrightarrow> isector i \<noteq> 1"
    "dir_wf (root st)" "handles (live st) st" "space (live st) st"
  using assms by (auto simp: fs_ok_def live_def fs_core_def)

lemma fs_ok_removed:
  assumes "fs_ok st" "inodes st p = Some i" "removed i"
  shows "isector i \<noteq> 0" "isector i \<noteq> 1" "entries st nm \<noteq> Some (isector i)"
proof -
  have "isector i \<notin> {0, 1} \<union> ran (entries st)" using assms by (simp add: fs_ok_def)
  then show "isector i \<noteq> 0" "isector i \<noteq> 1" "entries st nm \<noteq> Some (isector i)" by (auto simp: ran_def)
qed

lemma entries_live:
  assumes "fs_ok st" "entries st nm = Some s"
  shows "s \<in> live st" "s \<noteq> 0" "s \<noteq> 1"
proof -
  have "s \<in> ran (entries st)" using assms(2) by (auto simp: ran_def)
  then show "s \<in> live st" "s \<noteq> 0" "s \<noteq> 1" using fs_okD(4) [OF assms(1)] assms(1) by (auto simp: fs_ok_def)
qed

lemma view_keep:
  assumes "fs_ok st" "keeps (live st) {0, 1} st st'" "entries st nm = Some s"
  shows "content st' (dinode st' s) = content st (dinode st s)"
  using entries_live [OF assms(1,3)] assms(2) by (simp add: keeps_def)

text \<open>Nothing that the user sees changes.\<close>

lemma fs_ok_same:
  assumes "fs_ok st" "fs_core (live st) st'" "keeps (live st) {0, 1} st st'" "inodes st' = inodes st" "files st' = files st"
    "dir_wf (root st')" "entries st' = entries st"
  shows "fs_ok st'" "view st' = view st" "live st' = live st"
proof -
  show l: "live st' = live st" by (simp add: live_def assms(4,7))
  show "fs_ok st'" using assms(1,2,6) by (simp add: fs_ok_def l assms(4,5,7))
  show "view st' = view st"
    using view_keep [OF assms(1,3)] by (auto simp: view_def assms(7) fun_eq_iff intro!: map_option_cong)
qed

lemma fs_ok_keep:
  assumes "fs_ok st" "fs_core (live st) st'" "keeps (live st) {0} st st'" "inodes st' = inodes st" "files st' = files st"
  shows "fs_ok st'" "view st' = view st" "entries st' = entries st" "live st' = live st"
proof -
  note d = fs_okD [OF assms(1)]
  have r: "root st' = root st" using keeps_root [OF assms(3) d(3)] .
  then show e: "entries st' = entries st" by (simp add: entries_def)
  have k: "keeps (live st) {0, 1} st st'" using assms(3) by (auto simp: keeps_def)
  show "fs_ok st'" "view st' = view st" "live st' = live st"
    using fs_ok_same [OF assms(1,2) k assms(4,5) _ e] d(7) r by simp_all
qed

text \<open>A name is added.\<close>

lemma fs_ok_add:
  assumes "fs_ok st" "fs_core (insert s (live st)) st'" "keeps (live st) {0, 1} st st'" "inodes st' = inodes st" "files st' = files st"
    "dir_wf (root st')" "entries st' = (entries st)(nm \<mapsto> s)" "s \<notin> live st" "entries st nm = None"
  shows "fs_ok st'" "view st' = (view st)(nm \<mapsto> content st' (dinode st' s))" "live st' = insert s (live st)"
proof -
  note d = fs_okD [OF assms(1)]
  have ra: "ran (entries st') = insert s (ran (entries st))" using assms(7,9) by (simp add: ran_map_upd)
  show l: "live st' = insert s (live st)" unfolding live_def ra assms(4) by blast
  have "isector i \<noteq> s" if "inodes st p = Some i" for p i using data_in_L [OF d(1) that] assms(8) by auto
  moreover have "s \<noteq> 0" "s \<noteq> 1" using d(2,3) assms(8) by auto
  moreover have "s \<notin> ran (entries st)" using d(4) assms(8) by auto
  then have "inj_on (entries st') (dom (entries st'))"
    using assms(1,9) unfolding assms(7) by (auto simp: fs_ok_def inj_on_def ran_def dom_def)
  ultimately show "fs_ok st'"
    using assms(1,2,6) by (auto simp: fs_ok_def l ra assms(4,5))
  show "view st' = (view st)(nm \<mapsto> content st' (dinode st' s))"
    using view_keep [OF assms(1,3)] by (auto simp: view_def assms(7) fun_eq_iff intro!: map_option_cong)
qed

lemma view_file_keep:
  assumes "fs_ok st" "keeps (live st) {0, 1} st st'" "inodes st' = inodes st" "files st' = files st" "free_map_file st \<noteq> Some f"
  shows "view_file st' f = view_file st f"
proof -
  note d = fs_okD [OF assms(1)]
  have "content st' (dinode st' (isector i)) = content st (dinode st (isector i))"
    if "files st f = Some fl" "inodes st (finode fl) = Some i" for fl i
  proof -
    have "isector i \<noteq> 1" using d(6) that by blast
    moreover have "isector i \<noteq> 0" using not_fm_file [OF d(1) that(1) assms(5) that(2)] by simp
    moreover have "isector i \<in> live st" using data_in_L [OF d(1) that(2)] by simp
    ultimately show ?thesis using assms(2) by (simp add: keeps_def)
  qed
  then show ?thesis by (auto simp: view_file_def assms(3,4) split: option.splits)
qed

section \<open>Creating a file\<close>

text \<open>\<open>n\<close> sectors in a row that are free and not in \<open>X\<close>.\<close>

definition free_run :: "fs \<Rightarrow> nat set \<Rightarrow> nat \<Rightarrow> nat \<Rightarrow> bool" where
  "free_run st X n k \<longleftrightarrow> k + n \<le> unat (fs_size st) \<and> {k ..< k + n} \<inter> (marked (free_map st) \<union> X) = {}"

definition dir_full :: "fs \<Rightarrow> bool" where
  "dir_full st \<longleftrightarrow> (\<forall>k < slots (root st). e_in_use (slot (root st) k))"

definition valid_name :: "name \<Rightarrow> bool" where
  "valid_name nm \<longleftrightarrow> nm \<noteq> [] \<and> length nm \<le> NAME_MAX"

lemma run_at_free:
  "run_at (bm b) False n k \<longleftrightarrow> k + n \<le> unat (bit_cnt b) \<and> {k ..< k + n} \<inter> marked b = {}"
  by (auto simp: run_at_def marked_def disjoint_iff)

lemma run_one: "run s 1 = {unat s}"
  by (auto simp: run_def)

text \<open>Taking a sector, and giving it back.\<close>

lemma take_sector:
  assumes "fs_core L st"
  shows "free_map_allocate 1 st = Some (st, None) \<and> (\<forall>k. \<not> free_run st {} 1 k) \<or>
    (\<exists>st' s. free_map_allocate 1 st = Some (st', Some s) \<and> fs_core L st' \<and> io (st\<lparr>free_map := free_map st'\<rparr>) st' \<and>
       unat s \<notin> marked (free_map st) \<and> marked (free_map st') = insert (unat s) (marked (free_map st)) \<and>
       s < fs_size st \<and> keeps L {0} st st' \<and> s \<notin> L \<and> s \<noteq> 0 \<and> (\<forall>t \<in> L. unat s \<notin> own st' t))"
proof -
  have sp: "space L st" "0 \<in> L" "bit_cnt (free_map st) = fs_size st" using assms by (auto simp: fs_core_def space_def)
  from free_map_allocate_core [OF assms, of 1] show ?thesis
  proof (elim disjE exE conjE)
    assume "free_map_allocate 1 st = Some (st, None)" "\<forall>i. \<not> run_at (bm (free_map st)) False (unat (1 :: u32)) i"
    then show ?thesis by (simp add: run_at_free free_run_def sp(3))
  next
    fix st' s
    assume a: "free_map_allocate 1 st = Some (st', Some s)" "fs_core L st'" "io (st\<lparr>free_map := free_map st'\<rparr>) st'"
      "run s 1 \<inter> marked (free_map st) = {}" "marked (free_map st') = marked (free_map st) \<union> run s 1"
      "unat s + unat (1 :: u32) \<le> unat (fs_size st)" "\<forall>t. unat t \<notin> extent (dinode st 0) \<longrightarrow> sect st' t = sect st t"
      "\<forall>t \<in> L. dinode st' t = dinode st t"
    have n: "unat s \<notin> own st t" if "t \<in> L" for t using own_marked [OF sp(1) that] a(4) by (auto simp: run_one)
    then have nL: "s \<notin> L" by (auto simp: own_def)
    have "keeps L {0} st st'" using a(8) same_content [OF sp(1,2) a(7)] by (simp add: keeps_def)
    moreover have "s \<noteq> 0" using nL sp(2) by auto
    moreover have "\<forall>t \<in> L. unat s \<notin> own st' t" using n a(8) by (simp add: own_def)
    ultimately show ?thesis using a nL by (auto simp: run_one word_less_nat_alt)
  qed
qed

lemma give_sector:
  assumes "fs_core L st" "unat s \<in> marked (free_map st)" "\<forall>t \<in> L. unat s \<notin> own st t" "s < fs_size st"
  shows "\<exists>st'. free_map_release s 1 st = Some st' \<and> fs_core L st' \<and> io (st\<lparr>free_map := free_map st'\<rparr>) st' \<and>
       marked (free_map st') = marked (free_map st) - {unat s} \<and> keeps L {0} st st'"
proof -
  have sp: "space L st" "0 \<in> L" using assms by (auto simp: fs_core_def space_def)
  have p: "run s 1 \<subseteq> marked (free_map st)" "\<forall>t \<in> L. own st t \<inter> run s 1 = {}" "unat s + unat (1 :: u32) \<le> unat (fs_size st)"
    using assms(2,3,4) by (auto simp: run_one word_less_nat_alt)
  obtain st' where a: "free_map_release s 1 st = Some st'" "fs_core L st'" "io (st\<lparr>free_map := free_map st'\<rparr>) st'"
    "marked (free_map st') = marked (free_map st) - run s 1"
    "\<forall>t. unat t \<notin> extent (dinode st 0) \<longrightarrow> sect st' t = sect st t" "\<forall>t \<in> L. dinode st' t = dinode st t"
    using free_map_release_core [OF assms(1) p] by blast
  have "keeps L {0} st st'" using a(6) same_content [OF sp a(5)] by (simp add: keeps_def)
  then show ?thesis using a by (auto simp: run_one)
qed

text \<open>What holds of the state in which the operation ends, whether it succeeded or not.\<close>

definition created :: "name \<Rightarrow> nat \<Rightarrow> fs \<Rightarrow> fs \<Rightarrow> bool \<Rightarrow> bool" where
  "created nm n st st' ok \<longleftrightarrow> fs_ok st' \<and> inodes st' = inodes st \<and> files st' = files st \<and> free_map_file st' = free_map_file st \<and>
     fs_size st' = fs_size st \<and> view st' = (if ok then (view st)(nm \<mapsto> replicate n 0) else view st) \<and>
     (\<forall>f. free_map_file st \<noteq> Some f \<longrightarrow> view_file st' f = view_file st f)"

text \<open>Closing the root directory after an attempt that added no name.\<close>

lemma create_fails:
  assumes "fs_ok st" "fs_core (live st) st'" "rooted st p i st'" "keeps (live st) {0, 1} st st'" "dir_wf (root st')" "entries st' = entries st"
  shows "\<exists>st2. dir_close (Some \<lparr>dir_inode = p, dir_pos = x\<rparr>) st' = Some st2 \<and> created nm n st st2 False \<and>
    marked (free_map st2) = marked (free_map st')"
proof -
  obtain st2 where c: "dir_close (Some \<lparr>dir_inode = p, dir_pos = x\<rparr>) st' = Some st2" "fs_core (live st) st2" "inodes st2 = inodes st"
    "files st2 = files st" "free_map_file st2 = free_map_file st" "fs_size st2 = fs_size st"
    "keeps (live st) {0} st' st2" "marked (free_map st2) = marked (free_map st')"
    using root_close [OF assms(2,3)] unfolding only_dir_keeps by blast
  have k: "keeps (live st) {0, 1} st st2" using keeps_trans [OF assms(4) c(7)] by blast
  have r: "root st2 = root st'" using keeps_root [OF c(7) fs_okD(3) [OF assms(1)]] .
  have "entries st2 = entries st" using r assms(6) by (simp add: entries_def)
  note f = fs_ok_same [OF assms(1) c(2) k c(3,4) _ this, unfolded r, OF assms(5)]
  show ?thesis using c f view_file_keep [OF assms(1) k c(3,4)] by (auto simp: created_def)
qed

lemma create_succeeds:
  assumes "fs_ok st" "fs_core (insert s (live st)) st'" "rooted st p i st'" "keeps (live st) {0, 1} st st'" "dir_wf (root st')"
    "entries st' = (entries st)(nm \<mapsto> s)" "s \<notin> live st" "entries st nm = None" "content st' (dinode st' s) = replicate n 0"
  shows "\<exists>st2. dir_close (Some \<lparr>dir_inode = p, dir_pos = x\<rparr>) st' = Some st2 \<and> created nm n st st2 True \<and>
    marked (free_map st2) = marked (free_map st')"
proof -
  obtain st2 where c: "dir_close (Some \<lparr>dir_inode = p, dir_pos = x\<rparr>) st' = Some st2" "fs_core (insert s (live st)) st2" "inodes st2 = inodes st"
    "files st2 = files st" "free_map_file st2 = free_map_file st" "fs_size st2 = fs_size st"
    "keeps (insert s (live st)) {0} st' st2" "marked (free_map st2) = marked (free_map st')"
    using root_close [OF assms(2,3)] unfolding only_dir_keeps by blast
  note d = fs_okD [OF assms(1)]
  have k: "keeps (live st) {0, 1} st st2" using keeps_trans [OF assms(4) c(7)] by blast
  have r: "root st2 = root st'" using keeps_root [OF c(7)] d(3) by blast
  have e: "entries st2 = (entries st)(nm \<mapsto> s)" using r assms(6) by (simp add: entries_def)
  have "s \<noteq> 0" using d(2) assms(7) by auto
  then have "content st2 (dinode st2 s) = replicate n 0" using c(7) assms(9) by (simp add: keeps_def)
  then show ?thesis
    using c fs_ok_add [OF assms(1) c(2) k c(3,4) _ e assms(7,8), unfolded r, OF assms(5)] view_file_keep [OF assms(1) k c(3,4)]
    by (auto simp: created_def)
qed

definition acceptable :: "name \<Rightarrow> fs \<Rightarrow> bool" where
  "acceptable nm st \<longleftrightarrow> valid_name nm \<and> view st nm = None \<and> \<not> dir_full st"

definition sectors_for :: "int \<Rightarrow> nat" where
  "sectors_for len = (nat len + 511) div 512"

text \<open>The four ways in which creating a file can go.\<close>

definition create_outcome :: "name \<Rightarrow> int \<Rightarrow> fs \<Rightarrow> fs \<Rightarrow> bool \<Rightarrow> bool" where
  "create_outcome nm len st st' ok \<longleftrightarrow> created nm (nat len) st st' ok \<and>
     (ok \<and> acceptable nm st \<or>
      \<not> ok \<and> (\<forall>k. \<not> free_run st {} 1 k) \<or>
      \<not> ok \<and> (\<exists>s. \<forall>k. \<not> free_run st {s} (sectors_for len) k) \<or>
      \<not> ok \<and> \<not> acceptable nm st \<and> (\<exists>E. marked (free_map st') = marked (free_map st) \<union> E \<and> E \<inter> marked (free_map st) = {} \<and>
        card E = sectors_for len))"

lemma create_add:
  assumes "fs_ok st" "0 \<notin> set nm" "length e0 = 20" "0 \<le> len"
    and s: "fs_core (insert s (live st)) st3" "rooted st p i st3" "keeps (live st) {0, 1} st st3" "root st3 = root st" "s \<notin> live st" "s \<noteq> 0"
      "content st3 (dinode st3 s) = replicate (nat len) 0" "marked (free_map st3) = insert (unat s) (marked (free_map st) \<union> extent (dinode st3 s))"
      "unat s \<notin> marked (free_map st)" "extent (dinode st3 s) \<inter> marked (free_map st) = {}" "dlength (dinode st3 s) = len"
  shows "\<exists>st4 ok st5 st6. dir_add e0 \<lparr>dir_inode = p, dir_pos = 0\<rparr> nm s st3 = Some (st4, ok) \<and>
    (if ok then Some st4 else free_map_release s 1 st4) = Some st5 \<and>
    dir_close (Some \<lparr>dir_inode = p, dir_pos = 0\<rparr>) st5 = Some st6 \<and> create_outcome nm len st st6 ok"
proof -
  note d = fs_okD [OF assms(1)]
  let ?L = "live st" and ?d = "\<lparr>dir_inode = p, dir_pos = 0\<rparr> :: dir"
  have i: "inodes st3 (dir_inode ?d) = Some i" "isector i = 1" "isector i \<noteq> 0" "deny_write_cnt i = 0" using s(2) by (simp_all add: rooted_def)
  have di: "data i = dinode st3 1" using data_in_L [OF s(1) i(1)] i(2) by simp
  have c: "content st3 (data i) = root st" using di s(4) by (simp add: root_def)
  define ok where "ok \<longleftrightarrow> nm \<noteq> [] \<and> length nm \<le> NAME_MAX \<and> dir_map (root st) nm = None \<and> (\<exists>k < slots (root st). \<not> e_in_use (slot (root st) k))"
  have acc: "ok \<longleftrightarrow> acceptable nm st"
    by (auto simp: ok_def acceptable_def valid_name_def view_def entries_def dir_full_def)
  obtain st4 where a: "dir_add e0 ?d nm s st3 = Some (st4, ok)" "io st3 st4" "fs_core (insert s ?L) st4" "keeps (insert s ?L) {1} st3 st4"
    "dir_wf (content st4 (data i))" "dir_map (content st4 (data i)) = (if ok then (dir_map (root st))(nm \<mapsto> s) else dir_map (root st))"
    using dir_add_core [OF s(1) i(1,3,4) c d(7) assms(2,3), of s, folded ok_def] unfolding only_dir_keeps i(2) by blast
  have d4: "dinode st4 1 = dinode st3 1" using a(4) d(3) by (simp add: keeps_def)
  have R4: "content st4 (data i) = root st4" using di d4 by (simp add: root_def)
  have k4: "keeps ?L {0, 1} st st4" using keeps_trans [OF s(3) a(4)] by blast
  have r4: "rooted st p i st4" using rooted_io [OF s(2) a(2)] .
  have fm: "free_map st4 = free_map st3" "fs_size st4 = fs_size st3" using a(2) by (simp_all add: io_def)
  have s1: "s \<noteq> 1" using s(5) d(3) by auto
  have dS: "dinode st4 s = dinode st3 s" "content st4 (dinode st3 s) = content st3 (dinode st3 s)" using a(4) s1 by (simp_all add: keeps_def)
  show ?thesis
  proof (cases ok)
    case True
    have e: "entries st4 = (entries st)(nm \<mapsto> s)" using a(6) R4 True by (simp add: entries_def)
    have n: "entries st nm = None" using True by (simp add: ok_def entries_def)
    obtain st6 where "dir_close (Some ?d) st4 = Some st6" "created nm (nat len) st st6 True"
      using create_succeeds [OF assms(1) a(3) r4 k4 a(5) [unfolded R4] e s(5) n, of "nat len" 0] dS s(7) by auto
    then show ?thesis using True a(1) acc by (auto simp: create_outcome_def)
  next
    case False
    have e: "entries st4 = entries st" using a(6) R4 False by (simp add: entries_def)
    have no: "\<forall>p i. inodes st4 p = Some i \<longrightarrow> isector i \<noteq> s"
      using r4 data_in_L [OF d(1)] s(5) s1 by (auto simp: rooted_def split: if_splits)
    have core4: "fs_core ?L st4" using fs_core_less [OF a(3) s(6,5) no] .
    have sp: "space (insert s ?L) st4" using a(3) by (simp add: fs_core_def)
    have nown: "\<forall>t \<in> ?L. unat s \<notin> own st4 t"
    proof
      fix t assume t: "t \<in> ?L"
      then have "own st4 s \<inter> own st4 t = {}" using sp s(5) by (auto simp: space_def)
      then show "unat s \<notin> own st4 t" by (auto simp: own_def)
    qed
    have sf: "s < fs_size st4" using spaceD(1) [OF sp] by simp
    have m: "unat s \<in> marked (free_map st4)" using s(8) fm by simp
    obtain st5 where g: "free_map_release s 1 st4 = Some st5" "fs_core ?L st5" "io (st4\<lparr>free_map := free_map st5\<rparr>) st5"
      "marked (free_map st5) = marked (free_map st4) - {unat s}" "keeps ?L {0} st4 st5"
      using give_sector [OF core4 m nown sf] by blast
    have R5: "root st5 = root st4" using keeps_root [OF g(5) d(3)] .
    have k5: "keeps ?L {0, 1} st st5" using keeps_trans [OF k4 g(5)] by blast
    have e5: "dir_wf (root st5)" "entries st5 = entries st" using a(5) R4 R5 e by (simp_all add: entries_def)
    obtain st6 where c6: "dir_close (Some ?d) st5 = Some st6" "created nm (nat len) st st6 False" "marked (free_map st6) = marked (free_map st5)"
      using create_fails [OF assms(1) g(2) rooted_io_map [OF r4 g(3)] k5 e5] by blast
    have sx: "unat s \<notin> extent (dinode st3 s)" using spaceD(4) [OF sp, of s] dS by simp
    have E: "marked (free_map st6) = marked (free_map st) \<union> extent (dinode st3 s)"
      using c6(3) g(4) fm s(8,9) sx by auto
    have cE: "card (extent (dinode st3 s)) = sectors_for len" by (simp add: extent_def nsect_def sectors_for_def s(11))
    have "create_outcome nm len st st6 False" unfolding create_outcome_def using c6(2) E cE s(10) False acc by blast
    then show ?thesis using a(1) g(1) c6(1) False by auto
  qed
qed

lemma create_core:
  assumes "fs_ok st" "0 \<notin> set nm" "0 \<le> len" "len + 512 < 2 ^ 31" "length e0 = 20"
  shows "\<exists>st' ok. filesys_create e0 nm len st = Some (st', ok) \<and> create_outcome nm len st st' ok"
proof -
  note d = fs_okD [OF assms(1)]
  let ?L = "live st"
  obtain st1 p i where o: "dir_open_root st = Some (st1, Some \<lparr>dir_inode = p, dir_pos = 0\<rparr>)" "fs_core ?L st1" "rooted st p i st1"
    "sect st1 = sect st" "free_map st1 = free_map st" using root_open [OF d(1,3,5,6)] by blast
  have k1: "keeps ?L {0, 1} st st1" "root st1 = root st" using keeps_sect [OF o(4)] keeps_root [OF keeps_sect [OF o(4)] d(3)] by blast+
  have sz1: "fs_size st1 = fs_size st" using o(3) by (simp add: rooted_def)
  have bc: "bit_cnt (free_map st1) = fs_size st1" using o(2) by (simp add: fs_core_def space_def)
  from take_sector [OF o(2)] show ?thesis
  proof (elim disjE exE conjE)
    assume a: "free_map_allocate 1 st1 = Some (st1, None)" "\<forall>k. \<not> free_run st1 {} 1 k"
    obtain st2 where c: "dir_close (Some \<lparr>dir_inode = p, dir_pos = 0\<rparr>) st1 = Some st2" "created nm (nat len) st st2 False"
      using create_fails [OF assms(1) o(2,3) k1(1)] k1(2) d(7) by (metis entries_def)
    have "filesys_create e0 nm len st = Some (st2, False)" using o(1) a(1) c(1) by (simp add: filesys_create_def)
    moreover have "\<forall>k. \<not> free_run st {} 1 k" using a(2) o(5) sz1 by (simp add: free_run_def)
    ultimately show ?thesis using c(2) unfolding create_outcome_def by blast
  next
    fix st2 s
    assume a: "free_map_allocate 1 st1 = Some (st2, Some s)" "fs_core ?L st2" "io (st1\<lparr>free_map := free_map st2\<rparr>) st2"
      "unat s \<notin> marked (free_map st1)" "marked (free_map st2) = insert (unat s) (marked (free_map st1))" "s < fs_size st1"
      "keeps ?L {0} st1 st2" "s \<notin> ?L" "s \<noteq> 0" "\<forall>t \<in> ?L. unat s \<notin> own st2 t"
    have r2: "rooted st p i st2" using rooted_io_map [OF o(3) a(3)] .
    have sz2: "fs_size st2 = fs_size st" using r2 by (simp add: rooted_def)
    have k2: "keeps ?L {0, 1} st st2" using keeps_trans [OF k1(1) a(7)] by blast
    have R2: "root st2 = root st" using keeps_root [OF a(7) d(3)] k1(2) by simp
    have pre: "s < fs_size st2" "unat s \<in> marked (free_map st2)" using a(5,6) sz1 sz2 by simp_all
    from inode_create_core [OF a(2) pre a(10) assms(3,4)] show ?thesis
    proof (elim disjE exE conjE)
      fix st3
      assume b: "inode_create s len st2 = Some (st3, False)" "io st2 st3" "sect st3 = sect st2"
        "\<forall>i. \<not> run_at (bm (free_map st2)) False ((nat len + 511) div 512) i"
      note b' = fs_core_io [OF a(2) b(2,3)] rooted_io [OF r2 b(2)]
      have fm3: "free_map st3 = free_map st2" "fs_size st3 = fs_size st2" using b(2) by (simp_all add: io_def)
      have own3: "own st3 t = own st2 t" for t by (simp add: own_def dinode_def b(3))
      obtain st4 where g: "free_map_release s 1 st3 = Some st4" "fs_core ?L st4" "io (st3\<lparr>free_map := free_map st4\<rparr>) st4" "keeps ?L {0} st3 st4"
        using give_sector [OF b'(1), of s] pre a(10) own3 fm3 by auto
      have k4: "keeps ?L {0, 1} st st4" using keeps_trans [OF keeps_trans [OF k2 keeps_sect [OF b(3)]] g(4)] by blast
      have R4: "root st4 = root st" using keeps_root [OF g(4) d(3)] keeps_root [OF keeps_sect [OF b(3)] d(3)] R2 by simp
      obtain st5 where c: "dir_close (Some \<lparr>dir_inode = p, dir_pos = 0\<rparr>) st4 = Some st5" "created nm (nat len) st st5 False"
        using create_fails [OF assms(1) g(2) rooted_io_map [OF b'(2) g(3)] k4] R4 d(7) by (metis entries_def)
      have "filesys_create e0 nm len st = Some (st5, False)"
        using o(1) a(1,9) b(1) g(1) c(1) by (simp add: filesys_create_def)
      moreover have "\<forall>k. \<not> free_run st {unat s} (sectors_for len) k"
      proof -
        have "bit_cnt (free_map st2) = fs_size st2" using a(2) by (simp add: fs_core_def space_def)
        then show ?thesis using b(4) a(5) o(5) sz2 unfolding run_at_free free_run_def sectors_for_def by auto
      qed
      ultimately show ?thesis using c(2) unfolding create_outcome_def by blast
    next
      fix st3
      assume b: "inode_create s len st2 = Some (st3, True)" "fs_core (insert s ?L) st3" "io (st2\<lparr>free_map := free_map st3\<rparr>) st3"
        "dlength (dinode st3 s) = len" "content st3 (dinode st3 s) = replicate (nat len) 0"
        "\<forall>t \<in> ?L. dinode st3 t = dinode st2 t \<and> (t \<noteq> 0 \<longrightarrow> content st3 (dinode st2 t) = content st2 (dinode st2 t))"
        "marked (free_map st3) = marked (free_map st2) \<union> extent (dinode st3 s)" "extent (dinode st3 s) \<inter> marked (free_map st2) = {}"
      have kk: "keeps ?L {0} st2 st3" using b(6) by (simp add: keeps_def)
      have k3: "keeps ?L {0, 1} st st3" using keeps_trans [OF k2 kk] by blast
      have R3: "root st3 = root st" using keeps_root [OF kk d(3)] R2 by simp
      have m3: "marked (free_map st3) = insert (unat s) (marked (free_map st) \<union> extent (dinode st3 s))" "unat s \<notin> marked (free_map st)"
        "extent (dinode st3 s) \<inter> marked (free_map st) = {}" using b(7,8) a(4,5) o(5) by auto
      obtain st4 ok st5 st6 where c: "dir_add e0 \<lparr>dir_inode = p, dir_pos = 0\<rparr> nm s st3 = Some (st4, ok)"
        "(if ok then Some st4 else free_map_release s 1 st4) = Some st5"
        "dir_close (Some \<lparr>dir_inode = p, dir_pos = 0\<rparr>) st5 = Some st6" "create_outcome nm len st st6 ok"
        using create_add [OF assms(1,2,5,3) b(2) rooted_io_map [OF r2 b(3)] k3 R3 a(8,9) b(5) m3 b(4)] by blast
      have "filesys_create e0 nm len st = Some (st6, ok)"
        using o(1) a(1,9) b(1) c(1-3) by (cases ok) (simp_all add: filesys_create_def)
      then show ?thesis using c(4) by blast
    qed
  qed
qed

text \<open>
  C39: Creating by name. On a consistent file system with memory available, \<open>filesys_create\<close> returns
  for every name and every size from 0 to \<open>2\<^sup>3\<^sup>1 - 513\<close>. If it reports success, the name was valid and
  new, and now stands for a file of that many zero bytes; otherwise no name changes. It fails only for
  a name that is empty, too long or in use, a full directory, or when the free sectors do not suffice.
  No other contents and no open file change, and the file system stays consistent.
\<close>

theorem filesys_create_correct:
  assumes "fs_ok st" "0 \<notin> set nm" "0 \<le> len" "len + 512 < 2 ^ 31" "length e0 = 20"
  shows "\<exists>st' ok. filesys_create e0 nm len st = Some (st', ok) \<and> fs_ok st' \<and>
    view st' = (if ok then (view st)(nm \<mapsto> replicate (nat len) 0) else view st) \<and>
    files st' = files st \<and> (\<forall>f. free_map_file st \<noteq> Some f \<longrightarrow> view_file st' f = view_file st f) \<and>
    (if ok then valid_name nm \<and> view st nm = None \<and> \<not> dir_full st
     else \<not> valid_name nm \<or> view st nm \<noteq> None \<or> dir_full st \<or> (\<forall>k. \<not> free_run st {} 1 k) \<or>
       (\<exists>s. \<forall>k. \<not> free_run st {s} (sectors_for len) k))"
proof -
  obtain st' ok where c: "filesys_create e0 nm len st = Some (st', ok)" "create_outcome nm len st st' ok"
    using create_core [OF assms] by blast
  have "if ok then acceptable nm st else \<not> acceptable nm st \<or> (\<forall>k. \<not> free_run st {} 1 k) \<or> (\<exists>s. \<forall>k. \<not> free_run st {s} (sectors_for len) k)"
    using c(2) unfolding create_outcome_def by auto
  then show ?thesis
    using c unfolding create_outcome_def created_def acceptable_def by (intro exI [of _ st'] exI [of _ ok]) (cases ok; simp)
qed

text \<open>
  A failed creation leaks the data sectors. When the sectors suffice but the name is not acceptable
  (empty, too long, in use, or no free entry), \<open>filesys_create\<close> returns false after it has allocated
  the data sectors of the new inode, and gives back only the sector of the inode: as many sectors as
  the file would have had stay marked in the free map, and no name or open file uses them.
\<close>

theorem filesys_create_leak:
  assumes "fs_ok st" "0 \<notin> set nm" "0 \<le> len" "len + 512 < 2 ^ 31" "length e0 = 20"
    "\<not> (valid_name nm \<and> view st nm = None \<and> \<not> dir_full st)"
    "free_run st {} 1 k" "\<forall>s. \<exists>k. free_run st {s} (sectors_for len) k"
  shows "\<exists>st' E. filesys_create e0 nm len st = Some (st', False) \<and> fs_ok st' \<and> view st' = view st \<and>
    marked (free_map st') = marked (free_map st) \<union> E \<and> E \<inter> marked (free_map st) = {} \<and> card E = sectors_for len"
proof -
  obtain st' ok where c: "filesys_create e0 nm len st = Some (st', ok)" "create_outcome nm len st st' ok"
    using create_core [OF assms(1-5)] by blast
  have "\<not> acceptable nm st" using assms(6) by (simp add: acceptable_def)
  then have "\<not> ok" "\<exists>E. marked (free_map st') = marked (free_map st) \<union> E \<and> E \<inter> marked (free_map st) = {} \<and> card E = sectors_for len"
    using c(2) assms(7,8) unfolding create_outcome_def by blast+
  moreover from this have "fs_ok st'" "view st' = view st" using c(2) by (simp_all add: create_outcome_def created_def)
  ultimately show ?thesis using c(1) by auto
qed

section \<open>Opening a file\<close>

text \<open>Some other inode changes while the root directory is open.\<close>

lemma rooted_other:
  assumes "rooted st p i st1" "q \<noteq> p" "inodes st2 = (inodes st1)(q := j)" "files st2 = files st1" "free_map_file st2 = free_map_file st1"
    "fs_size st2 = fs_size st1"
  shows "rooted (st\<lparr>inodes := (inodes st)(q := j)\<rparr>) p i st2"
proof -
  have "file_refs (st\<lparr>inodes := (inodes st)(q := j)\<rparr>) p = file_refs st p" by (rule fun_cong [OF refs_cong(1)]) simp
  then show ?thesis using assms by (auto simp: rooted_def split: option.splits)
qed

lemma rooted_isector:
  assumes "rooted st p i st1" "inodes st q = Some x"
  shows "\<exists>y. inodes st1 q = Some y \<and> isector y = isector x"
  using assms by (cases "q = p") (auto simp: rooted_def)

lemma live_cong:
  assumes "entries st' = entries st" "inodes st' = (inodes st)(q \<mapsto> j)" "\<not> removed j" "\<forall>j0. inodes st q = Some j0 \<longrightarrow> \<not> removed j0"
  shows "live st' = live st"
  using assms by (auto simp: live_def split: if_splits)

lemma root_lookup:
  assumes "fs_ok st" "0 \<notin> set nm"
  obtains st1 p i st2 where "dir_open_root st = Some (st1, Some \<lparr>dir_inode = p, dir_pos = 0\<rparr>)"
    "lookup \<lparr>dir_inode = p, dir_pos = 0\<rparr> nm st1 = Some (st2, map_option (\<lambda>k. (slot (root st) k, of_nat (20 * k)))
      (find (\<lambda>k. names nm (slot (root st) k)) [0 ..< slots (root st)]))"
    "fs_core (live st) st2" "rooted st p i st2" "sect st2 = sect st" "free_map st2 = free_map st" "isector i = 1"
proof -
  note d = fs_okD [OF assms(1)]
  obtain st1 p i where o: "dir_open_root st = Some (st1, Some \<lparr>dir_inode = p, dir_pos = 0\<rparr>)" "fs_core (live st) st1" "rooted st p i st1"
    "sect st1 = sect st" "free_map st1 = free_map st" using root_open [OF d(1,3,5,6)] by blast
  let ?d = "\<lparr>dir_inode = p, dir_pos = 0\<rparr> :: dir"
  have i: "inodes st1 (dir_inode ?d) = Some i" "isector i = 1" using o(3) by (simp_all add: rooted_def)
  have c: "content st1 (data i) = root st"
    using data_in_L [OF o(2) i(1)] i(2) content_same [OF o(4)] by (simp add: root_def dinode_def o(4))
  obtain st2 where l: "lookup ?d nm st1 = Some (st2, map_option (\<lambda>k. (slot (root st) k, of_nat (20 * k)))
      (find (\<lambda>k. names nm (slot (root st) k)) [0 ..< slots (root st)]))" "io st1 st2" "sect st2 = sect st1"
    using lookup_ok [OF o(2) i(1) c d(7) assms(2)] by blast
  have "free_map st2 = free_map st" using l(2) o(5) by (simp add: io_def)
  then show ?thesis using that [OF o(1) l(1) fs_core_io [OF o(2) l(2,3)] rooted_io [OF o(3) l(2)] _ _ i(2)] l(3) o(4) by simp
qed

lemma open_core:
  assumes "fs_ok st" "0 \<notin> set nm" "entries st nm = Some s"
  shows "\<exists>st' f q j. filesys_open nm st = Some (st', Some f) \<and> fs_core (live st) st' \<and> keeps (live st) {0} st st' \<and>
    inodes st' = (inodes st)(q \<mapsto> j) \<and> isector j = s \<and> (\<forall>j0. inodes st q = Some j0 \<longrightarrow> removed j0 = removed j) \<and> (inodes st q = None \<longrightarrow> \<not> removed j) \<and>
    files st' = (files st)(f \<mapsto> \<lparr>finode = q, pos = 0, deny_write = False\<rparr>) \<and> files st f = None \<and>
    free_map_file st' = free_map_file st \<and> (\<forall>j0. inodes st q = Some j0 \<longrightarrow> isector j0 = s)"
proof -
  note d = fs_okD [OF assms(1)] and en = entries_live [OF assms(1,3)]
  let ?L = "live st"
  obtain k where k: "find (\<lambda>k. names nm (slot (root st) k)) [0 ..< slots (root st)] = Some k" "e_inode_sector (slot (root st) k) = s"
    using assms(3) by (auto simp: entries_def dir_map_def)
  obtain st1 p i st2 where o: "dir_open_root st = Some (st1, Some \<lparr>dir_inode = p, dir_pos = 0\<rparr>)"
      "lookup \<lparr>dir_inode = p, dir_pos = 0\<rparr> nm st1 = Some (st2, Some (slot (root st) k, of_nat (20 * k)))"
    and core2: "fs_core ?L st2" and r2: "rooted st p i st2" and s2: "sect st2 = sect st" and i: "isector i = 1"
    by (rule root_lookup [OF assms(1,2)]) (simp add: k(1))
  let ?d = "\<lparr>dir_inode = p, dir_pos = 0\<rparr> :: dir"
  obtain st3 q j where n: "inode_open s st2 = Some (st3, Some q)" "fs_core ?L st3" "inodes st3 q = Some j" "isector j = s"
    "int (card (file_refs st3 q)) < open_cnt j" "sect st3 = sect st2" "files st3 = files st2" "fs_size st3 = fs_size st2"
    "free_map_file st3 = free_map_file st2" "\<forall>x. x \<noteq> q \<longrightarrow> inodes st3 x = inodes st2 x"
    "case inodes st2 q of Some j0 \<Rightarrow> j = j0\<lparr>open_cnt := open_cnt j0 + 1\<rparr> |
      None \<Rightarrow> \<not> removed j \<and> open_cnt j = 1 \<and> (\<forall>q j. inodes st2 q = Some j \<longrightarrow> isector j \<noteq> s) \<and> q = next_addr st2"
    using inode_open_core [OF core2 en(1)] by blast
  have i3: "inodes st3 = (inodes st2)(q \<mapsto> j)" using n(3,10) by auto
  have "inodes st2 p = Some i" using r2 by (simp add: rooted_def)
  then have qp: "q \<noteq> p" using n(4,11) i en(3) by (auto split: option.splits)
  let ?X = "st\<lparr>inodes := (inodes st)(q \<mapsto> j)\<rparr>"
  have iq: "inodes st2 q = inodes st q" using r2 qp by (simp add: rooted_def)
  have r3: "rooted ?X p i st3" using rooted_other [OF r2 qp i3 n(7,9,8)] .
  obtain st4 where g: "dir_close (Some ?d) st3 = Some st4" "fs_core ?L st4" "inodes st4 = (inodes st)(q \<mapsto> j)" "files st4 = files st"
    "free_map_file st4 = free_map_file st" "keeps ?L {0} st3 st4"
    using root_close [OF n(2) r3, of 0] by (auto simp: only_dir_keeps)
  have q4: "inodes st4 q = Some j" using g(3) by simp
  have "files st3 = files st4" using n(7) r2 g(4) by (simp add: rooted_def)
  then have rc: "int (card (file_refs st4 q)) < open_cnt j" using n(5) refs_cong(1) [of st3 st4] by simp
  obtain st5 where f: "file_open (Some q) st4 = Some (st5, Some (next_addr st4))" "fs_core ?L st5" "inodes st5 = inodes st4"
    "files st5 = (files st4)(next_addr st4 \<mapsto> \<lparr>finode = q, pos = 0, deny_write = False\<rparr>)" "sect st5 = sect st4"
    "free_map_file st5 = free_map_file st4"
    using file_open_core [OF g(2) q4 rc] n(4) en(2) by blast
  have s3: "sect st3 = sect st" using n(6) s2 by simp
  have k5: "keeps ?L {0} st st5" using keeps_then [OF keeps_then [OF keeps_sect [OF s3] g(6)] keeps_sect [OF f(5)]] .
  have fresh: "files st (next_addr st4) = None"
  proof (rule ccontr)
    assume "files st (next_addr st4) \<noteq> None"
    then obtain fl where "files st4 (next_addr st4) = Some fl" using g(4) by auto
    moreover have "handles ?L st4" using g(2) by (simp add: fs_core_def)
    ultimately show False using handlesF(1) by fastforce
  qed
  have old: "isector j0 = s" "removed j0 = removed j" if "inodes st q = Some j0" for j0
    using n(4,11) iq that by auto
  have new: "inodes st q = None \<longrightarrow> \<not> removed j" using n(11) iq by auto
  have run: "filesys_open nm st = Some (st5, Some (next_addr st4))"
    using o n(1) k(2) g(1) f(1) by (simp add: filesys_open_def dir_lookup_def)
  show ?thesis
    using run f(2,3,4,6) k5 g(3,4,5) n(4) fresh old new
    by (intro exI [of _ st5] exI [of _ "next_addr st4"] exI [of _ q] exI [of _ j]) auto
qed

lemma open_missing:
  assumes "fs_ok st" "0 \<notin> set nm" "entries st nm = None"
  shows "\<exists>st'. filesys_open nm st = Some (st', None) \<and> fs_core (live st) st' \<and> keeps (live st) {0} st st' \<and>
    inodes st' = inodes st \<and> files st' = files st \<and> free_map_file st' = free_map_file st"
proof -
  note d = fs_okD [OF assms(1)]
  let ?L = "live st"
  have k: "find (\<lambda>k. names nm (slot (root st) k)) [0 ..< slots (root st)] = None"
    using assms(3) by (simp add: entries_def dir_map_def)
  obtain st1 p i st2 where o: "dir_open_root st = Some (st1, Some \<lparr>dir_inode = p, dir_pos = 0\<rparr>)"
      "lookup \<lparr>dir_inode = p, dir_pos = 0\<rparr> nm st1 = Some (st2, None)"
    and core2: "fs_core ?L st2" and r2: "rooted st p i st2" and s2: "sect st2 = sect st"
    by (rule root_lookup [OF assms(1,2)]) (simp add: k)
  let ?d = "\<lparr>dir_inode = p, dir_pos = 0\<rparr> :: dir"
  obtain st3 where g: "dir_close (Some ?d) st2 = Some st3" "fs_core ?L st3" "inodes st3 = inodes st" "files st3 = files st"
    "free_map_file st3 = free_map_file st" "keeps ?L {0} st2 st3"
    using root_close [OF core2 r2, of 0] by (auto simp: only_dir_keeps)
  have c3: "disk_ok st3" "memory st3" using g(2) by (auto simp: fs_core_def)
  obtain st4 where m: "fs_malloc st3 = (st4, Some (next_addr st3))" "io st3 st4" "sect st4 = sect st3"
    using fs_malloc_io [OF c3] by blast
  have "keeps ?L {0} st st4" using keeps_then [OF keeps_then [OF keeps_sect [OF s2] g(6)] keeps_sect [OF m(3)]] .
  moreover have "filesys_open nm st = Some (st4, None)"
    using o g(1) m(1) by (simp add: filesys_open_def dir_lookup_def file_open_def inode_close_def)
  ultimately show ?thesis using fs_core_io [OF g(2) m(2,3)] m(2) g by (auto simp: io_def)
qed

text \<open>Adding a handle on a named file.\<close>

lemma fs_ok_handle:
  assumes "fs_ok st" "fs_core (live st) st'" "keeps (live st) {0} st st'" "inodes st' = (inodes st)(q \<mapsto> j)" "\<not> removed j"
    "\<forall>j0. inodes st q = Some j0 \<longrightarrow> \<not> removed j0 \<and> isector j0 = isector j" "isector j \<noteq> 1"
    "files st' = (files st)(f \<mapsto> fl)" "finode fl = q"
  shows "fs_ok st'" "view st' = view st" "entries st' = entries st"
proof -
  note d = fs_okD [OF assms(1)]
  have r: "root st' = root st" using keeps_root [OF assms(3) d(3)] .
  then show e: "entries st' = entries st" by (simp add: entries_def)
  have l: "live st' = live st" using live_cong [OF e assms(4,5)] assms(6) by blast
  have rem: "isector x \<notin> {0, 1} \<union> ran (entries st)" if "inodes st' p = Some x" "removed x" for p x
    using that assms(1,4,5) by (auto simp: fs_ok_def split: if_splits)
  have one: "isector x \<noteq> 1" if "files st' g = Some gl" "inodes st' (finode gl) = Some x" for g gl x
  proof (cases "finode gl = q")
    case True
    then show ?thesis using that assms(4,7) by simp
  next
    case False
    then have "g \<noteq> f" using that(1) assms(8,9) by auto
    then show ?thesis using that assms(4,8) False d(6) by auto
  qed
  have "dir_wf (root st')" "ran (entries st') \<inter> {0, 1} = {}" "inj_on (entries st') (dom (entries st'))"
    using assms(1) r e by (simp_all add: fs_ok_def)
  then show "fs_ok st'" unfolding fs_ok_def l using assms(2) rem one e by auto
  have k: "keeps (live st) {0, 1} st st'" using assms(3) by (auto simp: keeps_def)
  show "view st' = view st" using view_keep [OF assms(1) k] by (auto simp: view_def e fun_eq_iff intro!: map_option_cong)
qed

lemma open_ok:
  assumes "fs_ok st" "0 \<notin> set nm"
  shows "\<exists>st' r. filesys_open nm st = Some (st', r) \<and> fs_ok st' \<and> view st' = view st \<and>
    (case view st nm of
       None \<Rightarrow> r = None \<and> files st' = files st
     | Some c \<Rightarrow> \<exists>f q. r = Some f \<and> files st f = None \<and> files st' = (files st)(f \<mapsto> \<lparr>finode = q, pos = 0, deny_write = False\<rparr>) \<and>
         view_file st' f = Some c) \<and>
    (\<forall>g \<in> dom (files st). free_map_file st \<noteq> Some g \<longrightarrow> view_file st' g = view_file st g)"
proof (cases "entries st nm")
  case None
  obtain st' where o: "filesys_open nm st = Some (st', None)" "fs_core (live st) st'" "keeps (live st) {0} st st'"
    "inodes st' = inodes st" "files st' = files st"
    using open_missing [OF assms None] by blast
  have k: "keeps (live st) {0, 1} st st'" using o(3) by (auto simp: keeps_def)
  show ?thesis
    using o(1,5) None fs_ok_keep(1,2) [OF assms(1) o(2-5)] view_file_keep [OF assms(1) k o(4,5)]
    by (intro exI [of _ st'] exI [of _ None]) (auto simp: view_def)
next
  case (Some s)
  note en = entries_live [OF assms(1) Some] and d = fs_okD [OF assms(1)]
  obtain st' f q j where o: "filesys_open nm st = Some (st', Some f)" "fs_core (live st) st'" "keeps (live st) {0} st st'"
    "inodes st' = (inodes st)(q \<mapsto> j)" "isector j = s" "\<forall>j0. inodes st q = Some j0 \<longrightarrow> removed j0 = removed j" "inodes st q = None \<longrightarrow> \<not> removed j"
    "files st' = (files st)(f \<mapsto> \<lparr>finode = q, pos = 0, deny_write = False\<rparr>)" "files st f = None"
    "\<forall>j0. inodes st q = Some j0 \<longrightarrow> isector j0 = s"
    using open_core [OF assms Some] by (elim exE conjE)
  have old: "\<not> removed j0" if "inodes st q = Some j0" for j0
    using fs_ok_removed(3) [OF assms(1) that, of nm] that o(10) Some by auto
  have nr: "\<not> removed j"
  proof (cases "inodes st q = None")
    case False
    then obtain j0 where "inodes st q = Some j0" by blast
    then show ?thesis using old [of j0] o(6) by simp
  qed (use o(7) in simp)
  have q0: "\<forall>j0. inodes st q = Some j0 \<longrightarrow> \<not> removed j0 \<and> isector j0 = isector j" using old o(5,10) by auto
  have j1: "isector j \<noteq> 1" using o(5) en(3) by simp
  have k: "keeps (live st) {0, 1} st st'" using o(3) by (auto simp: keeps_def)
  note ok = fs_ok_handle [OF assms(1) o(2,3,4) nr q0 j1 o(8) file_t.select_convs(1)]
  have vf: "view_file st' f = Some (content st (dinode st s))"
    using o(4,5,8) view_keep [OF assms(1) k Some] by (simp add: view_file_def)
  have other: "view_file st' g = view_file st g" if g: "g \<in> dom (files st)" "free_map_file st \<noteq> Some g" for g
  proof -
    obtain gl where gl: "files st g = Some gl" using g(1) by blast
    obtain x where x: "inodes st (finode gl) = Some x" using handlesF(2) [OF d(8) gl] by blast
    have "g \<noteq> f" using gl o(9) by auto
    then have gl': "files st' g = Some gl" using gl o(8) by simp
    have "isector x \<in> live st" "isector x \<noteq> 0" "isector x \<noteq> 1"
      using data_in_L(1) [OF d(1) x] not_fm_file(1) [OF d(1) gl g(2) x] d(6) gl x by simp_all
    then have c: "content st' (dinode st' (isector x)) = content st (dinode st (isector x))" using k by (simp add: keeps_def)
    obtain y where "inodes st' (finode gl) = Some y" "isector y = isector x"
      using x o(4,5,10) by (cases "finode gl = q") simp_all
    then show ?thesis using gl gl' x c by (simp add: view_file_def)
  qed
  show ?thesis
    using o(1,8,9) Some ok(1,2) vf other
    by (intro exI [of _ st'] exI [of _ "Some f"]) (auto simp: view_def)
qed

text \<open>
  Opening by name. On a consistent file system with memory available, \<open>filesys_open\<close> returns no
  file exactly when the name does not exist; otherwise it returns a new open file, positioned at 0 and
  allowing writes, behind which are the contents the name stands for. No contents and no other handle
  change, and the file system stays consistent.
\<close>

theorem filesys_open_correct:
  assumes "fs_ok st" "0 \<notin> set nm"
  shows "\<exists>st' r. filesys_open nm st = Some (st', r) \<and> fs_ok st' \<and> view st' = view st \<and>
    (case view st nm of
       None \<Rightarrow> r = None \<and> files st' = files st
     | Some c \<Rightarrow> \<exists>f q. r = Some f \<and> files st f = None \<and> files st' = (files st)(f \<mapsto> \<lparr>finode = q, pos = 0, deny_write = False\<rparr>) \<and>
         view_file st' f = Some c) \<and>
    (\<forall>g \<in> dom (files st). free_map_file st \<noteq> Some g \<longrightarrow> view_file st' g = view_file st g)"
  by (rule open_ok [OF assms])

section \<open>Removing a file\<close>

lemma ran_erase:
  assumes "inj_on m (dom m)" "m nm = Some s"
  shows "ran (m(nm := None)) = ran m - {s}"
proof -
  have u: "m k \<noteq> Some s" if "k \<noteq> nm" for k using inj_onD [OF assms(1), of k nm] that assms(2) by auto
  have a: "x \<in> ran (m(nm := None)) \<longleftrightarrow> (\<exists>k. k \<noteq> nm \<and> m k = Some x)" for x by (auto simp: ran_def)
  have b: "(\<exists>k. k \<noteq> nm \<and> m k = Some x) \<longleftrightarrow> (\<exists>k. m k = Some x) \<and> x \<noteq> s" for x
    using u assms(2) by (metis option.inject)
  show ?thesis by (rule set_eqI, unfold a b) (simp add: ran_def)
qed

text \<open>The name goes; an inode that is open stays until it is closed.\<close>

lemma fs_ok_remove:
  assumes "fs_ok st" "entries st nm = Some s" "inodes st' = (inodes st)(q := map_option (removed_update (\<lambda>_. True)) (inodes st q))"
    "\<forall>j. inodes st q = Some j \<longrightarrow> isector j = s" "fs_core (if inodes st q = None then live st - {s} else live st) st'"
    "keeps (if inodes st q = None then live st - {s} else live st) {0, 1} st st'" "files st' = files st"
    "dir_wf (root st')" "entries st' = (entries st)(nm := None)"
  shows "fs_ok st'" "view st' = (view st)(nm := None)"
proof -
  note d = fs_okD [OF assms(1)] and en = entries_live [OF assms(1,2)]
  have inj: "inj_on (entries st) (dom (entries st))" using assms(1) by (simp add: fs_ok_def)
  have ra: "ran (entries st') = ran (entries st) - {s}" using ran_erase [OF inj assms(2)] assms(9) by simp
  have inj': "inj_on (entries st') (dom (entries st'))" using inj assms(9) by (auto simp: inj_on_def)
  have orig: "\<exists>x0. inodes st p = Some x0 \<and> isector x = isector x0 \<and> (removed x \<longrightarrow> removed x0 \<or> isector x = s)"
    if "inodes st' p = Some x" for p x
    using that assms(3,4) by (cases "p = q") auto
  have keep: "\<exists>x. inodes st' p = Some x \<and> isector x = isector x0 \<and> removed x" if "inodes st p = Some x0" "removed x0" for p x0
    using that assms(3) by (cases "p = q") auto
  have s: "s \<in> ran (entries st)" using assms(2) by (auto simp: ran_def)
  have removed: "{t. \<exists>p x. inodes st' p = Some x \<and> removed x \<and> isector x = t} =
      {t. \<exists>p x. inodes st p = Some x \<and> removed x \<and> isector x = t} \<union> (if inodes st q = None then {} else {s})"
  proof (intro equalityI subsetI)
    fix t assume "t \<in> {t. \<exists>p x. inodes st' p = Some x \<and> removed x \<and> isector x = t}"
    then obtain p x where x: "inodes st' p = Some x" "removed x" "isector x = t" by blast
    show "t \<in> {t. \<exists>p x. inodes st p = Some x \<and> removed x \<and> isector x = t} \<union> (if inodes st q = None then {} else {s})"
    proof (cases "p = q")
      case True
      then show ?thesis using x assms(3,4) by (cases "inodes st q") auto
    next
      case False
      then show ?thesis using x assms(3) by auto
    qed
  next
    fix t assume t: "t \<in> {t. \<exists>p x. inodes st p = Some x \<and> removed x \<and> isector x = t} \<union> (if inodes st q = None then {} else {s})"
    show "t \<in> {t. \<exists>p x. inodes st' p = Some x \<and> removed x \<and> isector x = t}"
    proof (cases "inodes st q")
      case None
      then show ?thesis using t keep by fastforce
    next
      case (Some j)
      then have "inodes st' q = Some (j\<lparr>removed := True\<rparr>)" "isector j = s" using assms(3,4) by simp_all
      then show ?thesis using t keep Some by fastforce
    qed
  qed
  have notrem: "s \<notin> {t. \<exists>p x. inodes st p = Some x \<and> removed x \<and> isector x = t}"
    using fs_ok_removed(3) [OF assms(1), of _ _ nm] assms(2) by blast
  have l: "live st' = (if inodes st q = None then live st - {s} else live st)"
    unfolding live_def ra removed using s notrem en(2,3) by auto
  have rem: "isector x \<notin> {0, 1} \<union> ran (entries st')" if "inodes st' p = Some x" "removed x" for p x
    using orig [OF that(1)] fs_ok_removed [OF assms(1)] that(2) en(2,3) ra by (auto simp: ran_def)
  have one: "isector x \<noteq> 1" if "files st' f = Some fl" "inodes st' (finode fl) = Some x" for f fl x
    using orig [OF that(2)] d(6) that(1) assms(7) by auto
  have "ran (entries st') \<inter> {0, 1} = {}" using ra assms(1) by (auto simp: fs_ok_def)
  then show "fs_ok st'" unfolding fs_ok_def l using assms(5,8) inj' rem one by blast
  have "content st' (dinode st' t) = content st (dinode st t)" if "entries st x = Some t" "x \<noteq> nm" for x t
  proof -
    have "t \<noteq> s" using inj that assms(2) by (auto simp: inj_on_def dom_def)
    then show ?thesis using entries_live [OF assms(1) that(1)] assms(6) by (simp add: keeps_def split: if_splits)
  qed
  then show "view st' = (view st)(nm := None)"
    by (auto simp: view_def assms(9) fun_eq_iff intro!: map_option_cong)
qed

lemma remove_core:
  assumes "fs_ok st" "0 \<notin> set nm" "entries st nm = Some s"
  defines "free \<equiv> \<forall>p i. inodes st p = Some i \<longrightarrow> isector i \<noteq> s"
  defines "L' \<equiv> if free then live st - {s} else live st"
  shows "\<exists>st' q. filesys_remove nm st = Some (st', True) \<and> inodes st' = (inodes st)(q := map_option (removed_update (\<lambda>_. True)) (inodes st q)) \<and>
    (\<forall>j. inodes st q = Some j \<longrightarrow> isector j = s) \<and> (inodes st q = None \<longleftrightarrow> free) \<and> fs_core L' st' \<and> keeps L' {0, 1} st st' \<and> files st' = files st \<and>
    free_map_file st' = free_map_file st \<and> dir_wf (root st') \<and> entries st' = (entries st)(nm := None) \<and>
    marked (free_map st') = (if free then marked (free_map st) - own st s else marked (free_map st))"
proof -
  note d = fs_okD [OF assms(1)] and en = entries_live [OF assms(1,3)]
  let ?L = "live st"
  obtain k where k: "find (\<lambda>k. names nm (slot (root st) k)) [0 ..< slots (root st)] = Some k" "e_inode_sector (slot (root st) k) = s"
    using assms(3) by (auto simp: entries_def dir_map_def)
  then have ks: "k < slots (root st)" "names nm (slot (root st) k)" by (auto simp: find_Some_iff)
  obtain st1 p i st2 where o: "dir_open_root st = Some (st1, Some \<lparr>dir_inode = p, dir_pos = 0\<rparr>)"
      "lookup \<lparr>dir_inode = p, dir_pos = 0\<rparr> nm st1 = Some (st2, Some (slot (root st) k, of_nat (20 * k)))"
    and core2: "fs_core ?L st2" and r2: "rooted st p i st2" and s2: "sect st2 = sect st" and fm2: "free_map st2 = free_map st"
    by (rule root_lookup [OF assms(1,2)]) (simp add: k(1))
  let ?d = "\<lparr>dir_inode = p, dir_pos = 0\<rparr> :: dir"
  have i: "isector i = 1" "deny_write_cnt i = 0" "isector i \<noteq> 0" using r2 by (simp_all add: rooted_def)
  obtain st3 q j where n: "inode_open s st2 = Some (st3, Some q)" "fs_core ?L st3" "inodes st3 q = Some j" "isector j = s"
    "int (card (file_refs st3 q)) < open_cnt j" "sect st3 = sect st2" "files st3 = files st2" "free_map st3 = free_map st2" "fs_size st3 = fs_size st2"
    "free_map_file st3 = free_map_file st2" "\<forall>x. x \<noteq> q \<longrightarrow> inodes st3 x = inodes st2 x"
    "case inodes st2 q of Some j0 \<Rightarrow> j = j0\<lparr>open_cnt := open_cnt j0 + 1\<rparr> |
      None \<Rightarrow> \<not> removed j \<and> open_cnt j = 1 \<and> (\<forall>q j. inodes st2 q = Some j \<longrightarrow> isector j \<noteq> s) \<and> q = next_addr st2"
    using inode_open_core [OF core2 en(1)] by blast
  have i3: "inodes st3 = (inodes st2)(q \<mapsto> j)" using n(3,11) by auto
  have pp: "inodes st2 p = Some i" using r2 by (simp add: rooted_def)
  then have qp: "q \<noteq> p" using n(4,12) i(1) en(3) by (auto split: option.splits)
  have iq: "inodes st2 q = inodes st q" using r2 qp by (simp add: rooted_def)
  have p3: "inodes st3 p = Some i" using i3 pp qp by simp
  have s3: "sect st3 = sect st" using n(6) s2 by simp
  have d3: "data i = dinode st3 1" using data_in_L(2) [OF n(2) p3] i(1) by simp
  have c3: "content st3 (data i) = root st" using d3 content_same [OF s3] by (simp add: root_def dinode_def s3)
  define e where "e = set_in_use False (slot (root st) k)"
  have e: "length e = 20" "\<not> e_in_use e" using length_slot [OF ks(1)] by (simp_all add: e_def set_in_use_def e_in_use_def)
  have n20: "min 20 (length (root st) - 20 * k) = 20" using ks(1) by (simp add: slots_def)
  obtain st4 where w: "inode_write_at p e 20 (int (20 * k)) st3 = Some (st4, 20)" "io st3 st4" "fs_core ?L st4"
    "keeps ?L {1} st3 st4" "content st4 (data i) = splice (root st) (20 * k) e"
    using write_dir [OF n(2) p3 i(3,2) e(1), of k] ks(1) n20 e(1) unfolding c3 i(1) only_dir_keeps by auto
  have io4: "inodes st4 = inodes st3" "files st4 = files st3" "free_map st4 = free_map st3" "fs_size st4 = fs_size st3" "free_map_file st4 = free_map_file st3"
    using w(2) by (simp_all add: io_def)
  have R4: "root st4 = splice (root st) (20 * k) e" using w(4,5) d3 d(3) by (simp add: root_def keeps_def)
  note er = slot_erase [OF d(7) ks e, folded R4]
  let ?j = "j\<lparr>removed := True\<rparr>"
  let ?st5 = "set_inode q ?j st4"
  have q4: "inodes st4 q = Some j" using io4 n(3) by simp
  have refs4: "file_refs st4 q = file_refs st3 q" by (rule fun_cong [OF refs_cong(1)]) (simp add: io4)
  have core5: "fs_core ?L ?st5" using fs_core_set_inode [OF w(3) q4, of ?j] n(4,5) en(2) refs4 by simp
  have rm: "inode_remove q st4 = Some ?st5" using q4 by (simp add: inode_remove_def)
  have q5: "inodes ?st5 q = Some ?j" by (simp add: set_inode_def)
  have refs5: "file_refs ?st5 q = file_refs st3 q" by (rule fun_cong [OF refs_cong(1)]) (simp add: io4)
  have pc: "int (card (file_refs ?st5 q)) < open_cnt ?j" "removed ?j \<longrightarrow> isector ?j \<noteq> 0" using n(4,5) en(2) refs5 by simp_all
  have fr: "free = (inodes st q = None) \<and> free = (open_cnt j = 1)"
  proof (cases "inodes st q")
    case None
    then have x: "open_cnt j = 1" "\<forall>q j. inodes st2 q = Some j \<longrightarrow> isector j \<noteq> s" using n(12) iq by simp_all
    have "free" unfolding free_def using rooted_isector [OF r2] x(2) by metis
    then show ?thesis using None x(1) by simp
  next
    case (Some j0)
    then have "0 < open_cnt j0" "j = j0\<lparr>open_cnt := open_cnt j0 + 1\<rparr>" using handlesD(4) [OF d(8) Some] n(12) iq by simp_all
    moreover have "\<not> free" unfolding free_def using Some n(4) \<open>j = _\<close> by auto
    ultimately show ?thesis using Some by simp
  qed
  have ac: "after_close ?L ?j = L'" using conjunct2 [OF fr] n(4) by (simp add: after_close_def L'_def)
  obtain st6 where cl: "inode_close (Some q) ?st5 = Some st6" "fs_core L' st6" "files st6 = files ?st5" "free_map_file st6 = free_map_file ?st5"
    "fs_size st6 = fs_size ?st5"
    "inodes st6 = (if open_cnt ?j = 1 then (inodes ?st5)(q := None) else (inodes ?st5)(q \<mapsto> ?j\<lparr>open_cnt := open_cnt ?j - 1\<rparr>))"
    "\<forall>t \<in> L'. dinode st6 t = dinode ?st5 t \<and> (t \<noteq> 0 \<longrightarrow> content st6 (dinode ?st5 t) = content ?st5 (dinode ?st5 t))"
    "marked (free_map st6) = (if open_cnt ?j = 1 \<and> removed ?j then marked (free_map ?st5) - own ?st5 (isector ?j) else marked (free_map ?st5))"
    using inode_close_ok [OF core5 q5 pc] unfolding ac by blast
  define v where "v = map_option (removed_update (\<lambda>_. True)) (inodes st q)"
  have v6: "inodes st6 = (inodes st4)(q := v)"
    using cl(6) fr n(12) iq by (auto simp: v_def fun_eq_iff set_inode_def split: option.splits)
  then have i6: "inodes st6 = (inodes st2)(q := v)" using io4 i3 by simp
  have r6: "rooted (st\<lparr>inodes := (inodes st)(q := v)\<rparr>) p i st6"
    using rooted_other [OF r2 qp i6] cl(3,4,5) io4 n(7,9,10) by simp
  obtain st7 where g: "dir_close (Some ?d) st6 = Some st7" "fs_core L' st7" "inodes st7 = (inodes st)(q := v)" "files st7 = files st"
    "free_map_file st7 = free_map_file st" "keeps L' {0} st6 st7" "marked (free_map st7) = marked (free_map st6)"
    using root_close [OF cl(2) r6, of 0] by (auto simp: only_dir_keeps)
  have L': "L' \<subseteq> ?L" "1 \<in> L'" using d(3) en(3) by (auto simp: L'_def)
  have k4: "keeps ?L {0, 1} st st4" using keeps_trans [OF keeps_sect [OF s3, of ?L "{}"] w(4), of "{0, 1}"] by blast
  have k6: "keeps L' {0} st4 st6" using cl(7) by (simp add: keeps_def)
  have k47: "keeps L' {0} st4 st7" using keeps_then [OF k6 g(6)] .
  have k7: "keeps L' {0, 1} st st7"
  proof -
    have "keeps L' {0, 1} st st4" using k4 L'(1) by (auto simp: keeps_def)
    then show ?thesis using keeps_trans [OF _ k47] by blast
  qed
  have R7: "root st7 = root st4" using keeps_root [OF k47 L'(2)] .
  have ex: "entries st7 = (entries st)(nm := None)" "dir_wf (root st7)" using er R7 by (simp_all add: entries_def)
  have own4: "own ?st5 s = own st s"
    using k4 en(1) by (simp add: own_def keeps_def)
  have m: "marked (free_map st7) = (if free then marked (free_map st) - own st s else marked (free_map st))"
    using g(7) cl(8) conjunct2 [OF fr] n(4,8) own4 io4 fm2 by simp
  have "sint (of_nat (20 * k) :: u32) = int (20 * k)"
    using content_bound [OF n(2) p3] slots_bound [of "root st" k] ks(1) by (intro sint_ofs) (simp add: c3)
  then have "filesys_remove nm st = Some (st7, True)"
    using o n(1) k(2) w(1) rm cl(1) g(1) by (simp add: filesys_remove_def dir_remove_def e_def del: of_nat_mult)
  moreover have "\<forall>j. inodes st q = Some j \<longrightarrow> isector j = s" using n(4,12) iq by auto
  ultimately show ?thesis using g(2-5) k7 ex m fr unfolding v_def by blast
qed

lemma remove_missing:
  assumes "fs_ok st" "0 \<notin> set nm" "entries st nm = None"
  shows "\<exists>st'. filesys_remove nm st = Some (st', False) \<and> fs_core (live st) st' \<and> keeps (live st) {0} st st' \<and>
    inodes st' = inodes st \<and> files st' = files st \<and> free_map_file st' = free_map_file st"
proof -
  let ?L = "live st"
  have k: "find (\<lambda>k. names nm (slot (root st) k)) [0 ..< slots (root st)] = None"
    using assms(3) by (simp add: entries_def dir_map_def)
  obtain st1 p i st2 where o: "dir_open_root st = Some (st1, Some \<lparr>dir_inode = p, dir_pos = 0\<rparr>)"
      "lookup \<lparr>dir_inode = p, dir_pos = 0\<rparr> nm st1 = Some (st2, None)"
    and core2: "fs_core ?L st2" and r2: "rooted st p i st2" and s2: "sect st2 = sect st"
    by (rule root_lookup [OF assms(1,2)]) (simp add: k)
  obtain st3 where g: "dir_close (Some \<lparr>dir_inode = p, dir_pos = 0\<rparr>) st2 = Some st3" "fs_core ?L st3" "inodes st3 = inodes st" "files st3 = files st"
    "keeps ?L {0} st2 st3" "free_map_file st3 = free_map_file st"
    using root_close [OF core2 r2, of 0] by (auto simp: only_dir_keeps)
  have "filesys_remove nm st = Some (st3, False)" using o g(1) by (simp add: filesys_remove_def dir_remove_def)
  then show ?thesis using g keeps_then [OF keeps_sect [OF s2] g(5)] by blast
qed

lemma remove_ok:
  assumes "fs_ok st" "0 \<notin> set nm"
  shows "\<exists>st'. filesys_remove nm st = Some (st', view st nm \<noteq> None) \<and> fs_ok st' \<and> view st' = (view st)(nm := None) \<and>
    files st' = files st \<and> (\<forall>f. free_map_file st \<noteq> Some f \<longrightarrow> view_file st' f = view_file st f) \<and>
    (\<forall>s. entries st nm = Some s \<longrightarrow> marked (free_map st') =
      (if \<exists>p i. inodes st p = Some i \<and> isector i = s then marked (free_map st) else marked (free_map st) - own st s))"
proof (cases "entries st nm")
  case None
  obtain st' where o: "filesys_remove nm st = Some (st', False)" "fs_core (live st) st'" "keeps (live st) {0} st st'"
    "inodes st' = inodes st" "files st' = files st" using remove_missing [OF assms None] by blast
  have k: "keeps (live st) {0, 1} st st'" using o(3) by (auto simp: keeps_def)
  have v: "view st nm = None" using None by (simp add: view_def)
  then have "(view st)(nm := None) = view st" by auto
  then show ?thesis
    using o(1,5) v None fs_ok_keep(1,2) [OF assms(1) o(2-5)] view_file_keep [OF assms(1) k o(4,5)]
    by (intro exI [of _ st']) simp
next
  case (Some s)
  note d = fs_okD [OF assms(1)]
  define free where "free \<longleftrightarrow> (\<forall>p i. inodes st p = Some i \<longrightarrow> isector i \<noteq> s)"
  obtain st' q where o: "filesys_remove nm st = Some (st', True)"
    "inodes st' = (inodes st)(q := map_option (removed_update (\<lambda>_. True)) (inodes st q))"
    "\<forall>j. inodes st q = Some j \<longrightarrow> isector j = s" "inodes st q = None \<longleftrightarrow> free" "fs_core (if free then live st - {s} else live st) st'"
    "keeps (if free then live st - {s} else live st) {0, 1} st st'" "files st' = files st" "dir_wf (root st')" "entries st' = (entries st)(nm := None)"
    "marked (free_map st') = (if free then marked (free_map st) - own st s else marked (free_map st))"
    using remove_core [OF assms Some, folded free_def] by (elim exE conjE)
  note ok = fs_ok_remove [OF assms(1) Some o(2,3), unfolded o(4), OF o(5-9)]
  have vf: "view_file st' f = view_file st f" if f: "free_map_file st \<noteq> Some f" for f
  proof (cases "files st f")
    case (Some fl)
    obtain x where x: "inodes st (finode fl) = Some x" using handlesF(2) [OF d(8) Some] by blast
    have "isector x \<in> live st" "isector x \<noteq> 0" "isector x \<noteq> 1" "free \<longrightarrow> isector x \<noteq> s"
      using data_in_L(1) [OF d(1) x] not_fm_file(1) [OF d(1) Some f x] d(6) Some x by (simp_all add: free_def)
    then have c: "content st' (dinode st' (isector x)) = content st (dinode st (isector x))"
      using o(6) by (simp add: keeps_def split: if_splits)
    obtain y where "inodes st' (finode fl) = Some y" "isector y = isector x"
      using x o(2) by (cases "finode fl = q") simp_all
    then show ?thesis using Some o(7) x c by (simp add: view_file_def)
  qed (simp add: view_file_def o(7))
  have "marked (free_map st') = (if \<exists>p i. inodes st p = Some i \<and> isector i = s then marked (free_map st) else marked (free_map st) - own st s)"
    unfolding o(10) by (auto simp: free_def)
  then show ?thesis using o(1,7) Some ok vf by (intro exI [of _ st']) (simp add: view_def)
qed

text \<open>
  C40: Removing by name. On a consistent file system with memory available, \<open>filesys_remove\<close> succeeds
  exactly when the name exists; then the name is gone and every other name keeps its contents. Files
  that are open keep their contents, even when their name was removed. The sectors of the file are
  released at once when it is not open, and otherwise stay in use.
\<close>

theorem filesys_remove_correct:
  assumes "fs_ok st" "0 \<notin> set nm"
  shows "\<exists>st'. filesys_remove nm st = Some (st', view st nm \<noteq> None) \<and> fs_ok st' \<and> view st' = (view st)(nm := None) \<and>
    files st' = files st \<and> (\<forall>f. free_map_file st \<noteq> Some f \<longrightarrow> view_file st' f = view_file st f) \<and>
    (\<forall>s. entries st nm = Some s \<longrightarrow> marked (free_map st') =
      (if \<exists>p i. inodes st p = Some i \<and> isector i = s then marked (free_map st) else marked (free_map st) - own st s))"
  by (rule remove_ok [OF assms])

section \<open>Closing a file\<close>

text \<open>What the invariant says of the inodes depends only on their sectors and on which are removed.\<close>

definition tags :: "fs \<Rightarrow> nat \<Rightarrow> (u32 \<times> bool) option" where
  "tags st p = map_option (\<lambda>i. (isector i, removed i)) (inodes st p)"

lemma tags_Some: "tags st p = Some (s, r) \<longleftrightarrow> (\<exists>i. inodes st p = Some i \<and> isector i = s \<and> removed i = r)"
  by (auto simp: tags_def)

lemma live_tags: "live st = {0, 1} \<union> ran (entries st) \<union> {s. \<exists>p. tags st p = Some (s, True)}"
  unfolding live_def tags_Some by blast

lemma fs_ok_tags:
  "fs_ok st \<longleftrightarrow> fs_core (live st) st \<and> dir_wf (root st) \<and> ran (entries st) \<inter> {0, 1} = {} \<and>
     inj_on (entries st) (dom (entries st)) \<and> (\<forall>p s. tags st p = Some (s, True) \<longrightarrow> s \<notin> {0, 1} \<union> ran (entries st)) \<and>
     (\<forall>f fl s r. files st f = Some fl \<longrightarrow> tags st (finode fl) = Some (s, r) \<longrightarrow> s \<noteq> 1)"
proof -
  have "(\<forall>p i. inodes st p = Some i \<longrightarrow> removed i \<longrightarrow> isector i \<notin> {0, 1} \<union> ran (entries st)) \<longleftrightarrow>
      (\<forall>p s. tags st p = Some (s, True) \<longrightarrow> s \<notin> {0, 1} \<union> ran (entries st))"
    unfolding tags_Some by blast
  moreover have "(\<forall>f fl i. files st f = Some fl \<longrightarrow> inodes st (finode fl) = Some i \<longrightarrow> isector i \<noteq> 1) \<longleftrightarrow>
      (\<forall>f fl s r. files st f = Some fl \<longrightarrow> tags st (finode fl) = Some (s, r) \<longrightarrow> s \<noteq> 1)"
    unfolding tags_Some by blast
  ultimately show ?thesis by (simp add: fs_ok_def)
qed

lemma fs_ok_update:
  assumes "fs_ok st" "fs_core (live st) st'" "root st' = root st" "tags st' = tags st"
    "\<forall>f fl. files st' f = Some fl \<longrightarrow> (\<exists>g gl. files st g = Some gl \<and> finode gl = finode fl)"
  shows "fs_ok st'" "live st' = live st" "entries st' = entries st"
proof -
  show e: "entries st' = entries st" by (simp add: entries_def assms(3))
  show l: "live st' = live st" by (simp add: live_tags e assms(4))
  have "s \<noteq> 1" if a: "files st' f = Some fl" "tags st' (finode fl) = Some (s, r)" for f fl s r
  proof -
    obtain g gl where "files st g = Some gl" "finode gl = finode fl" using assms(5) a(1) by blast
    then show ?thesis using assms(1) a(2) by (auto simp: fs_ok_tags assms(4))
  qed
  moreover have "dir_wf (root st')" "ran (entries st') \<inter> {0, 1} = {}" "inj_on (entries st') (dom (entries st'))"
    "\<forall>p s. tags st' p = Some (s, True) \<longrightarrow> s \<notin> {0, 1} \<union> ran (entries st')"
    using assms(1) unfolding fs_ok_tags e assms(3,4) by blast+
  ultimately show "fs_ok st'" using assms(2) unfolding fs_ok_tags l by blast
qed

lemma tags_unique:
  assumes "handles L st" "tags st p = Some (s, r)" "tags st q = Some (s, r')"
  shows "p = q"
  using assms by (auto simp: handles_def tags_def)

lemma live_close:
  assumes "fs_ok st" "tags st p = Some (s, r)" "entries st' = entries st" "tags st' = (tags st)(p := None)"
  shows "live st' = (if r then live st - {s} else live st)"
proof (cases r)
  case True
  have s: "s \<notin> {0, 1} \<union> ran (entries st)" using assms(1,2) True by (simp add: fs_ok_tags)
  have n: "t \<noteq> s" if "q \<noteq> p" "tags st q = Some (t, True)" for q t
    using tags_unique [OF fs_okD(8) [OF assms(1)] assms(2), of q True] that by auto
  have "(\<exists>q. q \<noteq> p \<and> tags st q = Some (t, True)) \<longleftrightarrow> (\<exists>q. tags st q = Some (t, True)) \<and> t \<noteq> s" for t
    using n assms(2) by (metis option.inject prod.inject)
  moreover have "(\<exists>q. tags st' q = Some (t, True)) \<longleftrightarrow> (\<exists>q. q \<noteq> p \<and> tags st q = Some (t, True))" for t by (auto simp: assms(4))
  ultimately have "{t. \<exists>q. tags st' q = Some (t, True)} = {t. \<exists>q. tags st q = Some (t, True)} - {s}"
    by (simp add: set_diff_eq)
  then show ?thesis using s True unfolding live_tags assms(3) by auto
next
  case False
  have "(\<exists>q. tags st' q = Some (t, True)) \<longleftrightarrow> (\<exists>q. tags st q = Some (t, True))" for t
    using assms(2) False by (auto simp: assms(4)) (metis option.inject prod.inject)
  then have "{t. \<exists>q. tags st' q = Some (t, True)} = {t. \<exists>q. tags st q = Some (t, True)}" by simp
  then show ?thesis using False unfolding live_tags assms(3) by simp
qed

lemma close_ok:
  assumes "fs_ok st" "files st f = Some fl" "free_map_file st \<noteq> Some f" "inodes st (finode fl) = Some i"
  shows "\<exists>st'. file_close (Some f) st = Some st' \<and> fs_ok st' \<and> view st' = view st \<and> files st' = (files st)(f := None) \<and>
    (\<forall>g. g \<noteq> f \<longrightarrow> free_map_file st \<noteq> Some g \<longrightarrow> view_file st' g = view_file st g) \<and>
    marked (free_map st') = (if open_cnt i = 1 \<and> removed i then marked (free_map st) - own st (isector i) else marked (free_map st))"
proof -
  note d = fs_okD [OF assms(1)]
  let ?L = "after_close (live st) i"
  obtain st' where c: "file_close (Some f) st = Some st'" "fs_core ?L st'" "files st' = (files st)(f := None)"
    "if open_cnt i = 1 then inodes st' = (inodes st)(finode fl := None)
     else \<exists>i'. inodes st' = (inodes st)(finode fl \<mapsto> i') \<and> isector i' = isector i \<and> removed i' = removed i \<and> open_cnt i' = open_cnt i - 1"
    "keeps ?L {0} st st'"
    "marked (free_map st') = (if open_cnt i = 1 \<and> removed i then marked (free_map st) - own st (isector i) else marked (free_map st))"
    using file_close_core [OF d(1) assms(2-4)] unfolding keeps_def by auto
  have ti: "tags st (finode fl) = Some (isector i, removed i)" using assms(4) by (simp add: tags_def)
  have tg: "tags st' = (if open_cnt i = 1 then (tags st)(finode fl := None) else tags st)"
  proof (cases "open_cnt i = 1")
    case False
    then obtain i' where "inodes st' = (inodes st)(finode fl \<mapsto> i')" "isector i' = isector i" "removed i' = removed i" using c(4) by auto
    then show ?thesis using False assms(4) by (simp add: tags_def fun_eq_iff)
  qed (use c(4) in \<open>simp add: tags_def fun_eq_iff\<close>)
  have "1 \<in> ?L" using d(3,5) assms(4) by (auto simp: after_close_def)
  then have R: "root st' = root st" using keeps_root [OF c(5)] by blast
  then have e: "entries st' = entries st" by (simp add: entries_def)
  have l: "live st' = ?L"
    using live_close [OF assms(1) ti e] tg by (cases "open_cnt i = 1") (simp_all add: after_close_def live_tags e)
  have "s \<notin> {0, 1} \<union> ran (entries st)" if "tags st' p = Some (s, True)" for p s
    using that assms(1) tg by (auto simp: fs_ok_tags split: if_splits)
  moreover have "s \<noteq> 1" if "files st' g = Some gl" "tags st' (finode gl) = Some (s, r)" for g gl s r
    using that assms(1) tg c(3) by (auto simp: fs_ok_tags split: if_splits)
  ultimately have ok: "fs_ok st'" using assms(1) c(2) unfolding fs_ok_tags l e R by blast
  have nr: "removed i \<Longrightarrow> entries st nm \<noteq> Some (isector i)" for nm using fs_ok_removed(3) [OF assms(1,4)] .
  have "content st' (dinode st' s) = content st (dinode st s)" if "entries st nm = Some s" for nm s
    using entries_live [OF assms(1) that] nr [of nm] that c(5) by (auto simp: keeps_def after_close_def split: if_splits)
  then have v: "view st' = view st" by (auto simp: view_def e fun_eq_iff intro!: map_option_cong)
  have vf: "view_file st' g = view_file st g" if g: "g \<noteq> f" "free_map_file st \<noteq> Some g" for g
  proof (cases "files st g")
    case (Some gl)
    obtain x where x: "inodes st (finode gl) = Some x" using handlesF(2) [OF d(8) Some] by blast
    have x0: "isector x \<noteq> 0" "isector x \<in> live st" using not_fm_file(1) [OF d(1) Some g(2) x] data_in_L(1) [OF d(1) x] by simp_all
    have ne: "finode gl \<noteq> finode fl" if one: "open_cnt i = 1"
    proof
      assume same: "finode gl = finode fl"
      have "{f, g} \<subseteq> file_refs st (finode fl)" using assms(2) Some same by (auto simp: file_refs_def)
      then have "card {f, g} \<le> card (file_refs st (finode fl))" using finite_refs(1) [OF d(8)] by (intro card_mono)
      then show False using handlesD(6) [OF d(8) assms(4)] one g(1) by simp
    qed
    have xi: "isector x \<noteq> isector i" if one: "open_cnt i = 1"
    proof
      assume "isector x = isector i"
      then have "tags st (finode gl) = Some (isector i, removed x)" using x by (simp add: tags_def)
      then show False using tags_unique [OF d(8) _ ti] ne [OF one] by blast
    qed
    then have "isector x \<in> ?L" using x0 by (simp add: after_close_def)
    then have cc: "content st' (dinode st' (isector x)) = content st (dinode st (isector x))" using x0 c(5) by (simp add: keeps_def)
    have "tags st' (finode gl) = tags st (finode gl)" using tg ne by simp
    then obtain y where "inodes st' (finode gl) = Some y" "isector y = isector x" using x by (auto simp: tags_def)
    then show ?thesis using Some x cc g(1) c(3) by (simp add: view_file_def)
  qed (use g(1) c(3) in \<open>simp add: view_file_def\<close>)
  show ?thesis using c(1,3,6) ok v vf by blast
qed

text \<open>
  Closing an open file. On a consistent file system, \<open>file_close\<close> drops the handle and keeps
  the contents of every name and of every other open file. The last close of a file that was removed
  releases its inode sector and its data sectors, and no close releases anything else.
\<close>

theorem file_close_correct:
  assumes "fs_ok st" "files st f = Some fl" "free_map_file st \<noteq> Some f" "inodes st (finode fl) = Some i"
  shows "\<exists>st'. file_close (Some f) st = Some st' \<and> fs_ok st' \<and> view st' = view st \<and> files st' = (files st)(f := None) \<and>
    (\<forall>g. g \<noteq> f \<longrightarrow> free_map_file st \<noteq> Some g \<longrightarrow> view_file st' g = view_file st g) \<and>
    marked (free_map st') = (if open_cnt i = 1 \<and> removed i then marked (free_map st) - own st (isector i) else marked (free_map st))"
  by (rule close_ok [OF assms])

section \<open>Any sequence of operations\<close>

datatype fs_op = Create name int | Open name | Remove name | Close nat | Read nat int | Write nat "u8 list" int
  | Seek nat int | DenyWrite nat | AllowWrite nat

fun fs_exec :: "u8 list \<Rightarrow> fs_op \<Rightarrow> fs \<Rightarrow> fs option" where
  "fs_exec e0 (Create nm len) st = map_option fst (filesys_create e0 nm len st)"
| "fs_exec e0 (Open nm) st = map_option fst (filesys_open nm st)"
| "fs_exec e0 (Remove nm) st = map_option fst (filesys_remove nm st)"
| "fs_exec e0 (Close f) st = file_close (Some f) st"
| "fs_exec e0 (Read f sz) st = map_option fst (file_read f sz st)"
| "fs_exec e0 (Write f bs sz) st = map_option fst (file_write f bs sz st)"
| "fs_exec e0 (Seek f n) st = file_seek f n st"
| "fs_exec e0 (DenyWrite f) st = file_deny_write f st"
| "fs_exec e0 (AllowWrite f) st = file_allow_write f st"

definition user_file :: "fs \<Rightarrow> nat \<Rightarrow> bool" where
  "user_file st f \<longleftrightarrow> files st f \<noteq> None \<and> free_map_file st \<noteq> Some f"

text \<open>
  What a caller owes: C strings, open files, positions that are not negative, and sizes that are not
  negative and, for a new file, at least 513 below 2 to the 31. (\<open>inode_create\<close> asserts that a size is not
  negative, and \<open>file_seek\<close> that a position is not; rounding a larger size to sectors overflows.)
\<close>

fun permitted :: "fs_op \<Rightarrow> fs \<Rightarrow> bool" where
  "permitted (Create nm len) st \<longleftrightarrow> 0 \<notin> set nm \<and> 0 \<le> len \<and> len + 512 < 2 ^ 31"
| "permitted (Open nm) st \<longleftrightarrow> 0 \<notin> set nm"
| "permitted (Remove nm) st \<longleftrightarrow> 0 \<notin> set nm"
| "permitted (Close f) st \<longleftrightarrow> user_file st f"
| "permitted (Read f sz) st \<longleftrightarrow> user_file st f \<and> 0 \<le> sz"
| "permitted (Write f bs sz) st \<longleftrightarrow> user_file st f \<and> 0 \<le> sz \<and> nat sz \<le> length bs"
| "permitted (Seek f n) st \<longleftrightarrow> user_file st f \<and> 0 \<le> n"
| "permitted (DenyWrite f) st \<longleftrightarrow> user_file st f"
| "permitted (AllowWrite f) st \<longleftrightarrow> user_file st f"

text \<open>Every operation of the sequence, up to the first that is not permitted, returns in a consistent state.\<close>

fun serves :: "u8 list \<Rightarrow> fs_op list \<Rightarrow> fs \<Rightarrow> bool" where
  "serves e0 [] st \<longleftrightarrow> True"
| "serves e0 (c # cs) st \<longleftrightarrow> (permitted c st \<longrightarrow> (case fs_exec e0 c st of None \<Rightarrow> False | Some st' \<Rightarrow> fs_ok st' \<and> serves e0 cs st'))"

lemma fs_ok_file:
  assumes "fs_ok st" "fs_core (live st) st'" "root st' = root st" "tags st' = tags st"
    "files st' = (files st)(f \<mapsto> fl')" "files st f = Some fl" "finode fl' = finode fl"
  shows "fs_ok st'"
  using fs_ok_update(1) [OF assms(1-4)] assms(5-7) by (metis fun_upd_apply option.inject)

lemma tags_upd: "inodes st p = Some i \<Longrightarrow> inodes st' = (inodes st)(p \<mapsto> i') \<Longrightarrow> isector i' = isector i \<Longrightarrow> removed i' = removed i \<Longrightarrow>
    tags st' = tags st"
  by (auto simp: tags_def)

lemma root_same: "sect st' = sect st \<Longrightarrow> root st' = root st"
  by (simp add: root_def dinode_def content_def data_byte_def)

lemma exec_file:
  assumes "fs_ok st" "user_file st f"
  obtains fl i where "files st f = Some fl" "free_map_file st \<noteq> Some f" "inodes st (finode fl) = Some i" "isector i \<noteq> 1"
proof -
  obtain fl where fl: "files st f = Some fl" "free_map_file st \<noteq> Some f" using assms(2) by (auto simp: user_file_def)
  obtain i where i: "inodes st (finode fl) = Some i" using handlesF(2) [OF fs_okD(8) [OF assms(1)] fl(1)] by blast
  then have "isector i \<noteq> 1" using fs_okD(6) [OF assms(1)] fl(1) by blast
  then show ?thesis using that fl i by blast
qed

lemma exec_read:
  assumes "fs_ok st" "user_file st f" "0 \<le> sz"
  shows "\<exists>st' bs. file_read f sz st = Some (st', bs) \<and> fs_ok st'"
proof -
  obtain fl i where fl: "files st f = Some fl" "free_map_file st \<noteq> Some f" "inodes st (finode fl) = Some i"
    by (rule exec_file [OF assms(1,2)])
  obtain st' bs where "file_read f sz st = Some (st', bs)" "fs_core (live st) st'" "sect st' = sect st" "inodes st' = inodes st"
    "files st' = (files st)(f \<mapsto> fl\<lparr>pos := pos fl + int (length bs)\<rparr>)"
    using file_read_core [OF fs_okD(1) [OF assms(1)] fl assms(3)] by blast
  moreover from this have "tags st' = tags st" by (simp add: tags_def fun_eq_iff)
  ultimately show ?thesis using fs_ok_file [OF assms(1), of st' f "fl\<lparr>pos := pos fl + int (length bs)\<rparr>" fl] fl(1) root_same [of st' st] by auto
qed

lemma exec_write:
  assumes "fs_ok st" "user_file st f" "0 \<le> sz" "nat sz \<le> length buffer"
  shows "\<exists>st' n. file_write f buffer sz st = Some (st', n) \<and> fs_ok st'"
proof -
  obtain fl i where fl: "files st f = Some fl" "free_map_file st \<noteq> Some f" "inodes st (finode fl) = Some i" "isector i \<noteq> 1"
    by (rule exec_file [OF assms(1,2)])
  note d = fs_okD [OF assms(1)]
  show ?thesis
  proof (cases "deny_refs st (finode fl) = {}")
    case True
    define n where "n = min (nat sz) (nat (dlength (dinode st (isector i))) - nat (pos fl))"
    obtain st' where w: "file_write f buffer sz st = Some (st', int n)" "fs_core (live st) st'" "inodes st' = inodes st"
      "files st' = (files st)(f \<mapsto> fl\<lparr>pos := pos fl + int n\<rparr>)"
      "\<forall>t \<in> live st. dinode st' t = dinode st t \<and> content st' (dinode st t) =
        (if t = isector i then splice (content st (dinode st t)) (nat (pos fl)) (take n buffer) else content st (dinode st t))"
      using file_write_core [OF d(1) fl(1-3) True assms(3,4), folded n_def] by blast
    have "root st' = root st" using w(5) d(3) fl(4) by (simp add: root_def)
    moreover have "tags st' = tags st" using w(3) by (simp add: tags_def fun_eq_iff)
    ultimately have "fs_ok st'" using fs_ok_file [OF assms(1) w(2) _ _ w(4) fl(1)] by simp
    then show ?thesis using w(1) by blast
  next
    case False
    have "0 < deny_write_cnt i" using False finite_refs(2) [OF d(8)] handlesD(5) [OF d(8) fl(3)] card_gt_0_iff by (metis of_nat_0_less_iff)
    then have "file_write f buffer sz st = Some (st\<lparr>files := (files st)(f \<mapsto> fl)\<rparr>, 0)"
      using fl(1,3) assms(4) handlesF(3) [OF d(8) fl(1)] by (simp add: file_write_def inode_write_at_def set_file_def)
    moreover have "st\<lparr>files := (files st)(f \<mapsto> fl)\<rparr> = st" using fl(1) by (simp add: fun_upd_idem)
    ultimately show ?thesis using assms(1) by auto
  qed
qed

lemma fs_exec_ok:
  assumes "fs_ok st" "permitted c st" "length e0 = 20"
  shows "\<exists>st'. fs_exec e0 c st = Some st' \<and> fs_ok st'"
proof (cases c)
  case (Create nm len)
  then show ?thesis using create_core [of st nm len e0] assms by (auto simp: create_outcome_def created_def)
next
  case (Open nm)
  then show ?thesis using open_ok [of st nm] assms by auto
next
  case (Remove nm)
  then show ?thesis using remove_ok [of st nm] assms by auto
next
  case (Close f)
  then have u: "user_file st f" using assms(2) by simp
  obtain fl i where fl: "files st f = Some fl" "free_map_file st \<noteq> Some f" "inodes st (finode fl) = Some i" by (rule exec_file [OF assms(1) u])
  then show ?thesis using Close close_ok [OF assms(1) fl] by auto
next
  case (Read f sz)
  then show ?thesis using exec_read [of st f sz] assms by auto
next
  case (Write f bs sz)
  then show ?thesis using exec_write [of st f sz bs] assms by auto
next
  case (Seek f n)
  then have u: "user_file st f" "0 \<le> n" using assms(2) by simp_all
  obtain fl i where fl: "files st f = Some fl" "free_map_file st \<noteq> Some f" "inodes st (finode fl) = Some i" by (rule exec_file [OF assms(1) u(1)])
  let ?st = "set_file f (fl\<lparr>pos := n\<rparr>) st"
  have "fs_core (live st) ?st" using set_file_core [OF fs_okD(1) [OF assms(1)] fl(1,2), of "fl\<lparr>pos := n\<rparr>"] u(2) by simp
  then have "fs_ok ?st" using fs_ok_file [OF assms(1), of ?st f "fl\<lparr>pos := n\<rparr>" fl] fl(1) by (simp add: root_def set_file_def tags_def fun_eq_iff)
  then show ?thesis using Seek u(2) fl(1) by (simp add: file_seek_def)
next
  case (DenyWrite f)
  then have u: "user_file st f" using assms(2) by simp
  obtain fl i where fl: "files st f = Some fl" "free_map_file st \<noteq> Some f" "inodes st (finode fl) = Some i" by (rule exec_file [OF assms(1) u])
  obtain st' i' where w: "file_deny_write f st = Some st'" "fs_core (live st) st'" "files st' = (files st)(f \<mapsto> fl\<lparr>deny_write := True\<rparr>)"
    "inodes st' = (inodes st)(finode fl \<mapsto> i')" "isector i' = isector i" "removed i' = removed i" "sect st' = sect st"
    using file_deny_write_core [OF fs_okD(1) [OF assms(1)] fl(1,2)] fl(3) by auto
  have "fs_ok st'" using fs_ok_file [OF assms(1) w(2) root_same [OF w(7)] tags_upd [OF fl(3) w(4-6)] w(3) fl(1)] by simp
  then show ?thesis using DenyWrite w(1) by simp
next
  case (AllowWrite f)
  then have u: "user_file st f" using assms(2) by simp
  obtain fl i where fl: "files st f = Some fl" "free_map_file st \<noteq> Some f" "inodes st (finode fl) = Some i" by (rule exec_file [OF assms(1) u])
  obtain st' i' where w: "file_allow_write f st = Some st'" "fs_core (live st) st'" "files st' = (files st)(f \<mapsto> fl\<lparr>deny_write := False\<rparr>)"
    "inodes st' = (inodes st)(finode fl \<mapsto> i')" "isector i' = isector i" "removed i' = removed i" "sect st' = sect st"
    using file_allow_write_core [OF fs_okD(1) [OF assms(1)] fl(1,2)] fl(3) by auto
  have "fs_ok st'" using fs_ok_file [OF assms(1) w(2) root_same [OF w(7)] tags_upd [OF fl(3) w(4-6)] w(3) fl(1)] by simp
  then show ?thesis using AllowWrite w(1) by simp
qed

text \<open>
  C36: The file system never panics and stays consistent. On a consistent file system with memory
  available, every operation of a sequence of creations, openings, removals, closings, reads, writes,
  seeks and changes of write permission returns without an assertion failing and leaves the file
  system consistent, as long as the operations are permitted: C strings as names, files that are open,
  positions and sizes that are not negative, and new files of at most 2 to the 31 minus 513 bytes.
\<close>

theorem fs_never_panics:
  assumes "fs_ok st" "length e0 = 20"
  shows "serves e0 cs st"
  using assms(1)
proof (induction cs arbitrary: st)
  case (Cons c cs)
  show ?case
  proof (cases "permitted c st")
    case True
    then obtain st' where "fs_exec e0 c st = Some st'" "fs_ok st'" using fs_exec_ok [OF Cons(2) _ assms(2)] by blast
    then show ?thesis using Cons(1) by simp
  qed simp
qed simp

section \<open>The example\<close>

lemma map_nth_take: "n \<le> length xs \<Longrightarrow> map (\<lambda>i. xs ! i) [0 ..< n] = take n xs"
  by (rule nth_equalityI) simp_all

lemma example_root: "root example_fs = splice (replicate 320 0) 0 ([4, 0, 0, 0, 97] @ replicate 14 0 @ [1])"
proof -
  have "root example_fs = map (\<lambda>i. ([4, 0, 0, 0, 97] @ replicate 14 0 @ [1] @ replicate 492 0) ! i) [0 ..< 320]"
    by (simp add: root_def content_def data_byte_def example_dinode example_sect example_sector_def del: upt_rec_numeral)
  also have "\<dots> = take 320 ([4, 0, 0, 0, 97] @ replicate 14 0 @ [1] @ replicate 492 0)"
    by (rule map_nth_take) simp
  also have "\<dots> = splice (replicate 320 0) 0 ([4, 0, 0, 0, 97] @ replicate 14 0 @ [1])"
    by (simp add: splice_def)
  finally show ?thesis .
qed

lemma zero_dir: "k < slots (replicate n 0) \<Longrightarrow> \<not> e_in_use (slot (replicate n 0) k)"
  using length_slot [of k "replicate n 0"] by (auto simp: e_in_use_def slot_def)

lemma zero_dir_map: "dir_wf (replicate n 0)" "dir_map (replicate n 0) = Map.empty"
  using zero_dir by (auto simp: dir_wf_def dir_map_None_iff names_def fun_eq_iff)

lemma example_entries: "dir_wf (root example_fs)" "entries example_fs = [[97] \<mapsto> 4]"
proof -
  let ?e = "[4, 0, 0, 0, 97] @ replicate 14 0 @ [1] :: u8 list"
  have k: "0 < slots (replicate 320 (0 :: u8))" by (simp add: slots_def)
  have e: "length ?e = 20" "names [97] ?e" "0 \<in> set (e_name ?e)" "e_inode_sector ?e = 4"
    by (simp_all add: names_def e_in_use_def nth_append cname_def e_name_def NAME_MAX_def e_inode_sector_def le32_def)
  have none: "dir_map (replicate 320 0) [97] = None" by (simp add: zero_dir_map)
  show "dir_wf (root example_fs)" "entries example_fs = [[97] \<mapsto> 4]"
    using slot_insert [OF zero_dir_map(1) k zero_dir [OF k] none e(1-3)] e(4)
    by (simp_all add: entries_def example_root zero_dir_map)
qed

lemma example_ok: "fs_ok example_fs"
proof -
  have "live example_fs = {0, 1, 4}" by (auto simp: live_def example_entries) (auto simp: example_fs_def split: if_splits)
  then show ?thesis
    using example_core example_entries by (auto simp: fs_ok_def) (auto simp: example_fs_def split: if_splits)
qed

lemma example_free_run: "free_run example_fs X n k \<longleftrightarrow> k + n \<le> 64 \<and> {k ..< k + n} \<inter> ({0, 1, 2, 3, 4, 5, 6} \<union> X) = {}"
  by (simp add: free_run_def example_fs_size example_marked)

lemma example_room: "free_run example_fs {} 1 7" "\<forall>s. \<exists>k. free_run example_fs {s} (sectors_for 1000) k"
proof -
  show "free_run example_fs {} 1 7" by (simp add: example_free_run)
  have n: "sectors_for 1000 = 2" by (simp add: sectors_for_def)
  show "\<forall>s. \<exists>k. free_run example_fs {s} (sectors_for 1000) k"
  proof
    fix s :: nat
    show "\<exists>k. free_run example_fs {s} (sectors_for 1000) k"
      unfolding n example_free_run by (rule exI [of _ "if s < 10 then 10 else 7"]) auto
  qed
qed

theorem filesys_create_correct_witness:
  "\<exists>st'. filesys_create (replicate 20 7) [98, 99] 1000 example_fs = Some (st', True) \<and> fs_ok st' \<and>
     view st' = (view example_fs)([98, 99] \<mapsto> replicate 1000 0)"
proof -
  have l: "1 < slots (root example_fs)" by (simp add: example_root slots_def splice_def)
  have "\<not> e_in_use (slot (root example_fs) 1)" by (simp add: example_root slot_def splice_def e_in_use_def nth_append)
  then have "\<not> dir_full example_fs" using l by (auto simp: dir_full_def)
  moreover have "valid_name [98, 99]" "view example_fs [98, 99] = None"
    by (simp_all add: valid_name_def NAME_MAX_def view_def example_entries)
  moreover obtain st' ok where c: "filesys_create (replicate 20 7) [98, 99] 1000 example_fs = Some (st', ok)" "fs_ok st'"
    "view st' = (if ok then (view example_fs)([98, 99] \<mapsto> replicate (nat 1000) 0) else view example_fs)"
    "if ok then valid_name [98, 99] \<and> view example_fs [98, 99] = None \<and> \<not> dir_full example_fs
     else \<not> valid_name [98, 99] \<or> view example_fs [98, 99] \<noteq> None \<or> dir_full example_fs \<or> (\<forall>k. \<not> free_run example_fs {} 1 k) \<or>
       (\<exists>s. \<forall>k. \<not> free_run example_fs {s} (sectors_for 1000) k)"
    using filesys_create_correct [OF example_ok, of "[98, 99]" 1000 "replicate 20 7"] by auto
  ultimately have "ok" using example_room by (cases ok) auto
  then show ?thesis using c(1-3) by auto
qed

theorem filesys_create_leak_witness:
  "\<exists>st' E. filesys_create (replicate 20 7) [97] 1000 example_fs = Some (st', False) \<and> fs_ok st' \<and>
     marked (free_map st') = {0, 1, 2, 3, 4, 5, 6} \<union> E \<and> E \<inter> {0, 1, 2, 3, 4, 5, 6} = {} \<and> card E = 2"
proof -
  have n: "sectors_for 1000 = 2" by (simp add: sectors_for_def)
  have v: "view example_fs [97] \<noteq> None" by (simp add: view_def example_entries)
  show ?thesis
    using filesys_create_leak [OF example_ok _ _ _ _ _ example_room, of "[97]" "replicate 20 7"] v n example_marked by auto
qed

theorem filesys_open_correct_witness:
  "\<exists>st' f. filesys_open [97] example_fs = Some (st', Some f) \<and> fs_ok st' \<and>
     view_file st' f = Some (content example_fs (dinode example_fs 4))"
proof -
  have v: "view example_fs [97] = Some (content example_fs (dinode example_fs 4))" by (simp add: view_def example_entries)
  have n: "0 \<notin> set [97 :: u8]" by simp
  show ?thesis using filesys_open_correct [OF example_ok n] unfolding v by auto
qed

theorem filesys_remove_correct_witness:
  "\<exists>st'. filesys_remove [97] example_fs = Some (st', True) \<and> fs_ok st' \<and> view st' = Map.empty \<and>
     view_file st' 3 = view_file example_fs 3 \<and> marked (free_map st') = {0, 1, 2, 3, 4, 5, 6}"
proof -
  have o: "\<exists>p i. inodes example_fs p = Some i \<and> isector i = 4" by (rule exI [of _ 2]) (simp add: example_fs_def)
  have f: "free_map_file example_fs \<noteq> Some 3" by (simp add: example_fs_def)
  have v: "view example_fs [97] \<noteq> None" "entries example_fs [97] = Some 4" "(view example_fs)([97] := None) = Map.empty"
    by (simp_all add: view_def example_entries fun_eq_iff)
  have n: "0 \<notin> set [97 :: u8]" by simp
  obtain st' where "filesys_remove [97] example_fs = Some (st', view example_fs [97] \<noteq> None)" "fs_ok st'"
    "view st' = (view example_fs)([97] := None)" "\<forall>f. free_map_file example_fs \<noteq> Some f \<longrightarrow> view_file st' f = view_file example_fs f"
    "\<forall>s. entries example_fs [97] = Some s \<longrightarrow> marked (free_map st') =
      (if \<exists>p i. inodes example_fs p = Some i \<and> isector i = s then marked (free_map example_fs) else marked (free_map example_fs) - own example_fs s)"
    using filesys_remove_correct [OF example_ok n] by blast
  then show ?thesis using o f v example_marked by (intro exI [of _ st']) simp
qed

theorem file_close_correct_witness:
  "\<exists>st'. file_close (Some 3) example_fs = Some st' \<and> fs_ok st' \<and> view st' = view example_fs \<and> files st' 3 = None"
proof -
  let ?i = "\<lparr>isector = 4, open_cnt = 1, removed = False, deny_write_cnt = 0, data = \<lparr>start = 5, dlength = 600, magic = INODE_MAGIC\<rparr>\<rparr>"
  have f: "files example_fs 3 = Some \<lparr>finode = 2, pos = 510, deny_write = False\<rparr>" "free_map_file example_fs \<noteq> Some 3"
    "inodes example_fs (finode \<lparr>finode = 2, pos = 510, deny_write = False\<rparr>) = Some ?i"
    by (simp_all add: example_fs_def)
  from file_close_correct [OF example_ok f] show ?thesis by auto
qed

theorem fs_never_panics_witness:
  "serves (replicate 20 7) [Remove [97], Write 3 [1, 2, 3] 3, Create [98] 70, Open [98], Close 3] example_fs"
  by (rule fs_never_panics [OF example_ok]) simp

theorem dir_readdir_lists_witness:
  "\<exists>st1 d st' d'. dir_open_root example_fs = Some (st1, Some d) \<and> readdir_times 2 d st1 = Some (st', d', [Some [97], None])"
proof -
  note d = fs_okD [OF example_ok]
  obtain st1 p i where o: "dir_open_root example_fs = Some (st1, Some \<lparr>dir_inode = p, dir_pos = 0\<rparr>)" "fs_core (live example_fs) st1"
    "rooted example_fs p i st1" "sect st1 = sect example_fs" using root_open [OF d(1,3,5,6)] by blast
  let ?d = "\<lparr>dir_inode = p, dir_pos = 0\<rparr> :: dir"
  have i: "inodes st1 (dir_inode ?d) = Some i" "isector i = 1" using o(3) by (simp_all add: rooted_def)
  have c: "content st1 (data i) = root example_fs"
    using data_in_L [OF o(2) i(1)] i(2) content_same [OF o(4)] by (simp add: root_def dinode_def o(4))
  obtain nms st' d' where r: "distinct nms" "set nms = dom (entries example_fs)"
    "readdir_times 2 ?d st1 = Some (st', d', map Some (take 2 nms) @ replicate (2 - length nms) None)"
    using dir_readdir_lists [OF o(2) i(1), of 2] example_entries(1) unfolding c entries_def by auto
  then have "set nms = {[97]}" "length nms = 1" using distinct_card [OF r(1)] by (simp_all add: example_entries)
  then have "nms = [[97]]" by (cases nms) auto
  then show ?thesis using o(1) r(3) by auto
qed

end
