(* ===== verification/Mount.thy ===== *)
theory Mount
  imports Filesys
begin

text \<open>
  Starting the file system: what is on disk is all that survives, and mounting it again gives the same
  files. A formatted disk is a consistent, empty file system.
\<close>

section \<open>The disk image\<close>

text \<open>\<open>B\<close> is the free map the disk holds, \<open>L\<close> the inodes in use.\<close>

definition disk_image :: "u32 set \<Rightarrow> bitmap \<Rightarrow> fs \<Rightarrow> bool" where
  "disk_image L B st \<longleftrightarrow> disk_ok st \<and> space L (st\<lparr>free_map := B\<rparr>) \<and> dlength (dinode st 0) = int (4 * length (bits B)) \<and>
     stores (content st (dinode st 0)) B"

definition idle_fs :: "fs \<Rightarrow> bool" where
  "idle_fs st \<longleftrightarrow> memory st \<and> open_inodes st = [] \<and> inodes st = Map.empty \<and> files st = Map.empty"

text \<open>The state in which only the free map file is open, as \<open>free_map_open\<close> leaves it.\<close>

definition mounted :: "nat \<Rightarrow> nat \<Rightarrow> inode_disk \<Rightarrow> fs \<Rightarrow> bool" where
  "mounted p f d st \<longleftrightarrow> open_inodes st = [p] \<and> p < next_addr st \<and> f < next_addr st \<and> free_map_file st = Some f \<and>
     inodes st = [p \<mapsto> \<lparr>isector = 0, open_cnt = 1, removed = False, deny_write_cnt = 0, data = d\<rparr>] \<and>
     files st = [f \<mapsto> \<lparr>finode = p, pos = 0, deny_write = False\<rparr>]"

lemma mounted_io: "mounted p f d st \<Longrightarrow> io st st' \<Longrightarrow> mounted p f d st'"
  by (simp add: mounted_def io_def)

lemma mounted_refs:
  assumes "mounted p f d st"
  shows "file_refs st q = (if q = p then {f} else {})" "deny_refs st q = {}"
  using assms by (auto simp: mounted_def file_refs_def deny_refs_def split: if_splits)

lemma mounted_core:
  assumes "disk_ok st" "memory st" "space L st" "mounted p f (dinode st 0) st"
    "dlength (dinode st 0) = int (4 * length (bits (free_map st)))" "stores (content st (dinode st 0)) (free_map st)"
  shows "fs_core L st"
proof -
  have z: "0 \<in> L" using assms(3) by (simp add: space_def)
  note r = mounted_refs [OF assms(4)]
  have "handles L st" unfolding handles_def inode_ok_def using assms(4) z r by (auto simp: mounted_def split: if_splits)
  moreover have "fm_ok st" unfolding fm_ok_def using assms(4-6) r by (auto simp: mounted_def FREE_MAP_SECTOR_def)
  ultimately show ?thesis using assms(1-3) by (simp add: fs_core_def)
qed

text \<open>Opening the free map file when nothing is open.\<close>

lemma open_free_map_file:
  assumes "disk_ok st" "idle_fs st" "0 < fs_size st"
  shows "\<exists>st1 p st2 f. inode_open 0 st = Some (st1, Some p) \<and> file_open (Some p) st1 = Some (st2, Some f) \<and>
    mounted p f (dinode st 0) (st2\<lparr>free_map_file := Some f\<rparr>) \<and> sect st2 = sect st \<and> disk_ok st2 \<and> memory st2 \<and> fs_size st2 = fs_size st \<and>
    free_map st2 = free_map st \<and> fs_device st2 = fs_device st"
proof -
  have i: "memory st" "open_inodes st = []" "inodes st = Map.empty" "files st = Map.empty" using assms(2) by (auto simp: idle_fs_def)
  let ?p = "next_addr st"
  obtain st1 where m: "fs_malloc st = (st1, Some ?p)" "io st st1" "sect st1 = sect st" "next_addr st1 = Suc ?p"
    using fs_malloc_io [OF assms(1) i(1)] by blast
  let ?st = "st1\<lparr>open_inodes := ?p # open_inodes st1\<rparr>"
  have d1: "disk_ok ?st" "0 < fs_size ?st" using m(2) assms(3) by (simp_all add: io_def)
  obtain st2 where r: "fs_read 0 ?st = Some (st2, sect ?st 0)" "io ?st st2" "sect st2 = sect ?st" using fs_read_ok [OF d1] by blast
  let ?i = "\<lparr>isector = 0, open_cnt = 1, removed = False, deny_write_cnt = 0, data = dinode st 0\<rparr>"
  let ?st3 = "set_inode ?p ?i st2"
  have o: "inode_open 0 st = Some (?st3, Some ?p)"
    using i(2) m(1,3) r(1) by (simp add: inode_open_def dinode_def)
  have d3: "disk_ok ?st3" "memory ?st3" "sect ?st3 = sect st" "fs_size ?st3 = fs_size st"
    using r(2,3) m(2,3) i(1) by (simp_all add: io_def set_inode_def)
  let ?f = "next_addr ?st3"
  obtain st4 where n: "fs_malloc ?st3 = (st4, Some ?f)" "io ?st3 st4" "sect st4 = sect ?st3" "next_addr st4 = Suc ?f"
    using fs_malloc_io [OF d3(1,2)] by blast
  let ?fl = "\<lparr>finode = ?p, pos = 0, deny_write = False\<rparr>"
  let ?st5 = "set_file ?f ?fl st4"
  have "file_open (Some ?p) ?st3 = Some (?st5, Some ?f)" using n(1) by (simp add: file_open_def)
  moreover have "mounted ?p ?f (dinode st 0) (?st5\<lparr>free_map_file := Some ?f\<rparr>)"
    using n(2,4) r(2) m(2,4) i by (simp add: mounted_def io_def set_inode_def set_file_def)
  moreover have "sect ?st5 = sect st" "disk_ok ?st5" "memory ?st5" "fs_size ?st5 = fs_size st" "free_map ?st5 = free_map st" "fs_device ?st5 = fs_device st"
    using n(2,3) d3 r(2) m(2) by (simp_all add: io_def set_file_def set_inode_def)
  ultimately show ?thesis using o by blast
qed

lemma space_free_map:
  assumes "space L (st\<lparr>free_map := B\<rparr>)" "bm b = bm B" "bit_cnt b = bit_cnt B" "wf_bitmap b" "sect st' = sect st" "fs_size st' = fs_size st"
  shows "space L (st'\<lparr>free_map := b\<rparr>)"
proof -
  have "marked b = marked B" using assms(2,3) by (simp add: marked_def)
  moreover have "dinode st' = dinode st" by (simp add: dinode_def assms(5) fun_eq_iff)
  ultimately show ?thesis using assms(1,3,4,6) by (simp add: space_def own_def data_ok_def)
qed

lemma mount_core:
  assumes "disk_image L B st" "idle_fs st" "wf_bitmap (free_map st)" "bit_cnt (free_map st) = bit_cnt B"
  shows "\<exists>st' p f. free_map_open st = Some st' \<and> fs_core L st' \<and> mounted p f (dinode st 0) st' \<and> sect st' = sect st \<and>
    fs_size st' = fs_size st \<and> bm (free_map st') = bm B \<and> bit_cnt (free_map st') = bit_cnt B"
proof -
  have im: "disk_ok st" "space L (st\<lparr>free_map := B\<rparr>)" "dlength (dinode st 0) = int (4 * length (bits B))" "stores (content st (dinode st 0)) B"
    using assms(1) by (auto simp: disk_image_def)
  have z: "0 \<in> L" "wf_bitmap B" "unat (bit_cnt B) + 32 \<le> 2 ^ 32" "bit_cnt B = fs_size st"
    using im(2) by (simp_all add: space_def)
  have sz: "0 < fs_size st" using spaceD(1) [OF im(2) z(1)] by simp
  have dk: "data_ok st (dinode st 0)" using spaceD(2) [OF im(2) z(1)] by (simp add: data_ok_def)
  obtain st1 p st2 f where o: "inode_open 0 st = Some (st1, Some p)" "file_open (Some p) st1 = Some (st2, Some f)"
    "mounted p f (dinode st 0) (st2\<lparr>free_map_file := Some f\<rparr>)" "sect st2 = sect st" "disk_ok st2" "memory st2" "fs_size st2 = fs_size st"
    "free_map st2 = free_map st" using open_free_map_file [OF im(1) assms(2) sz] by blast
  let ?st = "st2\<lparr>free_map_file := Some f\<rparr>"
  let ?fl = "\<lparr>finode = p, pos = 0, deny_write = False\<rparr>"
  let ?i = "\<lparr>isector = 0, open_cnt = 1, removed = False, deny_write_cnt = 0, data = dinode st 0\<rparr>"
  have fi: "files ?st f = Some ?fl" "inodes ?st (finode ?fl) = Some ?i" using o(3) by (simp_all add: mounted_def)
  have l: "length (bits (free_map st)) = length (bits B)" using wf_bits_length [OF assms(3) z(2) assms(4)] .
  have c2: "content ?st d = content st d" for d by (simp add: content_def data_byte_def o(4))
  have pre: "disk_ok ?st" "memory ?st" "data_ok ?st (data ?i)" "dlength (data ?i) = int (4 * length (bits (free_map st)))"
      "unat (bit_cnt (free_map st)) + 32 \<le> 2 ^ 32"
    using o(5,6,7) dk im(3) l z(3) assms(4) by (simp_all add: data_ok_def)
  obtain st3 b where r: "bitmap_read (free_map st) f ?st = Some (st3, b, True)"
      "bm b = bm ((free_map st)\<lparr>bits := words_of (content ?st (data ?i))\<rparr>)"
      "bit_cnt b = bit_cnt (free_map st)" "wf_bitmap b" "io ?st st3" "sect st3 = sect ?st"
    using bitmap_read_ok [OF pre(1,2) fi pre(3,4) assms(3) pre(5)] by blast
  have bB: "bm b = bm B" using r(2) im(4) assms(4) c2 by (simp add: stores_def bm_def)
  let ?st' = "st3\<lparr>free_map := b\<rparr>"
  have s3: "sect st3 = sect st" "fs_size st3 = fs_size st" using r(5,6) o(4,7) by (simp_all add: io_def)
  have d0: "dinode ?st' 0 = dinode st 0" "content ?st' (dinode st 0) = content st (dinode st 0)"
    by (simp_all add: dinode_def content_def data_byte_def s3)
  have mt: "mounted p f (dinode ?st' 0) ?st'" using mounted_io [OF o(3) r(5)] d0 by (simp add: mounted_def)
  have sp: "space L ?st'" using space_free_map [OF im(2) bB _ r(4) s3] r(3) assms(4) by simp
  have lb: "length (bits b) = length (bits B)" using wf_bits_length [OF r(4) z(2)] r(3) assms(4) by simp
  have st: "stores (content ?st' (dinode ?st' 0)) b" using im(4) bB d0 r(3) assms(4) by (simp add: stores_def bm_def)
  have dm: "disk_ok ?st'" "memory ?st'" using r(5) o(6) by (simp_all add: io_def)
  have "fs_core L ?st'" using mounted_core [OF dm sp mt] im(3) lb st d0 by simp
  moreover have "free_map_open st = Some ?st'"
    using o(1,2,8) r(1) by (simp add: free_map_open_def FREE_MAP_SECTOR_def)
  ultimately show ?thesis using mt d0 s3 bB r(3) assms(4) by (intro exI [of _ ?st'] exI [of _ p] exI [of _ f]) simp
qed

section \<open>Mounting\<close>

lemma bitmap_mark_ok:
  assumes "wf_bitmap b" "unat idx < unat (bit_cnt b)"
  shows "\<exists>b'. bitmap_mark b idx = Some b' \<and> wf_bitmap b' \<and> bit_cnt b' = bit_cnt b \<and> marked b' = insert (unat idx) (marked b)"
proof -
  obtain b' where b: "bitmap_set b idx True = Some b'" "wf_bitmap b'" "bit_cnt b' = bit_cnt b" "bm b' = (bm b)[unat idx := True]"
    using bitmap_set_bm [OF assms] by blast
  have "bitmap_mark b idx = Some b'" using b(1) assms(2) by (simp add: bitmap_set_def word_less_nat_alt)
  moreover have "marked b' = insert (unat idx) (marked b)" using assms(2) by (auto simp: marked_def b(3,4) nth_list_update)
  ultimately show ?thesis using b by blast
qed

lemma disk_device:
  assumes "disk_ok st"
  shows "block_size (fs_device st) (devs st) = Some (fs_size st)"
  using assms by (simp add: disk_ok_def device_ready_def block_size_def device_def fs_size_def)

text \<open>A new free map has the two system sectors marked.\<close>

lemma free_map_init_ok:
  assumes "disk_ok st" "memory st" "2 \<le> unat (fs_size st)" "length buf = (unat (fs_size st) + 31) div 32"
  shows "\<exists>st'. free_map_init buf st = Some st' \<and> io (st\<lparr>free_map := free_map st'\<rparr>) st' \<and> sect st' = sect st \<and>
    wf_bitmap (free_map st') \<and> bit_cnt (free_map st') = fs_size st \<and> marked (free_map st') = {0, 1}"
proof -
  obtain st1 where m: "fs_malloc st = (st1, Some (next_addr st))" "io st st1" "sect st1 = sect st" using fs_malloc_io [OF assms(1,2)] by blast
  have d1: "disk_ok st1" "memory st1" using m(2) assms(2) by (simp_all add: io_def)
  obtain st2 where n: "fs_malloc st1 = (st2, Some (next_addr st1))" "io st1 st2" "sect st2 = sect st1" using fs_malloc_io [OF d1] by blast
  let ?b = "\<lparr>bit_cnt = fs_size st, bits = buf\<rparr>"
  have wf: "wf_bitmap ?b" using assms(4) by (simp add: wf_bitmap_def)
  obtain b0 where b0: "bitmap_set_multiple ?b 0 (fs_size st) False = Some b0" "wf_bitmap b0" "bit_cnt b0 = fs_size st"
      "bm b0 = fill 0 (unat (fs_size st)) False (bm ?b)"
    using bitmap_set_multiple_bm [OF wf, of 0 "fs_size st" False] by auto
  have e: "marked b0 = {}" by (auto simp: marked_def b0(3,4) fill_def)
  obtain b1 where b1: "bitmap_mark b0 0 = Some b1" "wf_bitmap b1" "bit_cnt b1 = fs_size st" "marked b1 = {0}"
    using bitmap_mark_ok [OF b0(2), of 0] b0(3) assms(3) e by auto
  obtain b2 where b2: "bitmap_mark b1 1 = Some b2" "wf_bitmap b2" "bit_cnt b2 = fs_size st" "marked b2 = {0, 1}"
    using bitmap_mark_ok [OF b1(2), of 1] b1(3,4) assms(3) by auto
  have "free_map_init buf st = Some (st2\<lparr>free_map := b2\<rparr>)"
    using disk_device [OF assms(1)] m(1) n(1) b0(1) b1(1) b2(1)
    by (simp add: free_map_init_def bitmap_create_def bitmap_set_all_def bitmap_size_def FREE_MAP_SECTOR_def ROOT_DIR_SECTOR_def)
  moreover have "io (st\<lparr>free_map := b2\<rparr>) (st2\<lparr>free_map := b2\<rparr>)" using io_trans [OF m(2) n(2)] by (simp add: io_def)
  ultimately show ?thesis using b2 m(3) n(3) by auto
qed

lemma fs_ok_mounted:
  assumes "fs_core ({0, 1} \<union> ran (entries st)) st" "mounted p f d st" "dir_wf (root st)" "ran (entries st) \<inter> {0, 1} = {}"
    "inj_on (entries st) (dom (entries st))"
  shows "fs_ok st"
proof -
  have "live st = {0, 1} \<union> ran (entries st)" using assms(2) by (auto simp: live_def mounted_def split: if_splits)
  then show ?thesis using assms by (auto simp: fs_ok_def mounted_def split: if_splits)
qed

text \<open>
  C37: Files survive a restart. Take any moment at which the file system is consistent, and lose
  everything but the disk. Mounting that disk succeeds whatever memory the free map is allocated in;
  every name then stands for the same contents as before, the free map is the same, and the file system
  is consistent again.
\<close>

theorem filesys_remount:
  assumes "fs_ok st" "devs st0 = devs st" "block_by_role (devs st) BLOCK_FILESYS = Some (fs_device st)"
    "inodes st0 = Map.empty" "files st0 = Map.empty" "\<forall>n. malloc_ok st0 n" "length buf = length (bits (free_map st))"
  shows "\<exists>st'. filesys_init buf False st0 = Some st' \<and> fs_ok st' \<and> view st' = view st \<and> bm (free_map st') = bm (free_map st)"
proof -
  note d = fs_okD [OF assms(1)]
  have dk: "disk_ok st" "fm_ok st" using d(1) by (auto simp: fs_core_def)
  have sp: "wf_bitmap (free_map st)" "bit_cnt (free_map st) = fs_size st" using d(9) by (simp_all add: space_def)
  let ?a = "inode_init (st0\<lparr>fs_device := fs_device st\<rparr>)"
  have a: "sect ?a = sect st" "fs_size ?a = fs_size st" "disk_ok ?a" "memory ?a" "inodes ?a = Map.empty" "files ?a = Map.empty" "open_inodes ?a = []"
    using dk(1) assms(2,4-6) by (simp_all add: inode_init_def disk_ok_def sect_def fs_size_def memory_def fun_eq_iff)
  have sz: "2 \<le> unat (fs_size ?a)" using spaceD(1) [OF d(9,3)] a(2) by (simp add: word_less_nat_alt)
  have lb: "length buf = (unat (fs_size ?a) + 31) div 32" using assms(7) sp a(2) by (simp add: wf_bitmap_def)
  obtain st1 where i: "free_map_init buf ?a = Some st1" "io (?a\<lparr>free_map := free_map st1\<rparr>) st1" "sect st1 = sect ?a"
      "wf_bitmap (free_map st1)" "bit_cnt (free_map st1) = fs_size ?a"
    using free_map_init_ok [OF a(3,4) sz lb] by blast
  have s1: "sect st1 = sect st" "fs_size st1 = fs_size st" using i(2,3) a(1,2) by (simp_all add: io_def)
  have dc: "dinode st1 = dinode st" "content st1 = content st"
    by (simp_all add: dinode_def content_def data_byte_def s1 fun_eq_iff)
  have idle: "idle_fs st1" using i(2) a(4-7) by (simp add: idle_fs_def io_def)
  let ?L = "{0, 1} \<union> ran (entries st)"
  have spL: "space ?L st" by (rule space_mono [OF d(9)]) (auto simp: live_def)
  have g: "dlength (dinode st 0) = int (4 * length (bits (free_map st)))" by (rule fm_okD [OF dk(2) d(8)])
  have g': "stores (content st (dinode st 0)) (free_map st)" by (rule fm_okD [OF dk(2) d(8)])
  have "st\<lparr>free_map := free_map st\<rparr> = st" by simp
  then have "space ?L (st1\<lparr>free_map := free_map st\<rparr>)" using space_free_map [where st = st and st' = st1 and B = "free_map st" and b = "free_map st"] spL sp(1) s1 by simp
  then have im: "disk_image ?L (free_map st) st1" using i(2) g g' dc by (simp add: disk_image_def io_def)
  obtain st2 p f' where m: "free_map_open st1 = Some st2" "fs_core ?L st2" "mounted p f' (dinode st1 0) st2" "sect st2 = sect st1"
      "bm (free_map st2) = bm (free_map st)"
    using mount_core [OF im idle i(4)] i(5) a(2) sp(2) by auto
  have dc2: "dinode st2 = dinode st" "content st2 = content st"
    by (simp_all add: dinode_def content_def data_byte_def m(4) s1 fun_eq_iff)
  have r2: "root st2 = root st" "entries st2 = entries st" by (simp_all add: root_def entries_def dc2)
  have "fs_ok st2" using fs_ok_mounted [OF _ m(3)] m(2) r2(1,2) assms(1) by (simp add: fs_ok_def)
  moreover have "view st2 = view st" by (simp add: view_def r2 dc2 fun_eq_iff)
  moreover have "filesys_init buf False st0 = Some st2"
    using assms(2,3) i(1) m(1) by (simp add: filesys_init_def block_get_role_def)
  ultimately show ?thesis using m(5) by blast
qed

section \<open>Formatting\<close>

text \<open>Creating the inode of the free map, before its file is open.\<close>

lemma create_free_map_inode:
  assumes "disk_ok st" "idle_fs st" "free_map_file st = None" "wf_bitmap (free_map st)" "bit_cnt (free_map st) = fs_size st"
    "marked (free_map st) = {0, 1}" "unat (fs_size st) + 32 \<le> 2 ^ 32" "3 + (4 * length (bits (free_map st)) + 511) div 512 \<le> unat (fs_size st)"
  defines "n \<equiv> (4 * length (bits (free_map st)) + 511) div 512"
  shows "\<exists>st' d. inode_create 0 (int (4 * length (bits (free_map st)))) st = Some (st', True) \<and> io (st\<lparr>free_map := free_map st'\<rparr>) st' \<and>
    wf_bitmap (free_map st') \<and> bit_cnt (free_map st') = fs_size st \<and> dinode st' 0 = d \<and> dlength d = int (4 * length (bits (free_map st))) \<and>
    extent d \<inter> {0, 1} = {} \<and> marked (free_map st') = {0, 1} \<union> extent d \<and> card (extent d) = n \<and> data_ok st' d"
proof -
  let ?len = "int (4 * length (bits (free_map st)))"
  have m0: "memory st" using assms(2) by (simp add: idle_fs_def)
  have lb: "4 * length (bits (free_map st)) \<le> 2 ^ 29"
    using assms(4,5,7) by (simp add: wf_bitmap_def)
  have len: "0 \<le> ?len" "?len + 512 < 2 ^ 31" using lb by simp_all
  obtain w where w: "bytes_to_sectors ?len = Some w" "unat w = n"
    using bytes_to_sectors_ok [OF len] by (auto simp: n_def nat_mult_distrib)
  obtain st1 where st1: "fs_malloc st = (st1, Some (next_addr st))" "io st st1" "sect st1 = sect st" using fs_malloc_io [OF assms(1) m0] by blast
  note io1 = io_simps [OF st1(2)]
  have wf1: "wf_bitmap (free_map st1)" using assms(4) io1 by simp
  obtain b s0 where b: "bitmap_scan_and_flip (free_map st1) 0 w False = Some (b, s0)" "wf_bitmap b" "bit_cnt b = bit_cnt (free_map st1)"
      "if s0 = BITMAP_ERROR then b = free_map st1 \<and> 0 < w \<and> (\<forall>i. \<not> run_at (bm (free_map st1)) False (unat w) i)
       else run s0 w \<inter> marked (free_map st1) = {} \<and> marked b = marked (free_map st1) \<union> run s0 w \<and>
         unat s0 + unat w \<le> unat (bit_cnt (free_map st1))"
    using scan_flip_any [OF wf1] by blast
  have "run_at (bm (free_map st1)) False (unat w) 2"
    using assms(5,6,8) io1 w(2) by (auto simp: run_at_free n_def)
  then have ne: "s0 \<noteq> BITMAP_ERROR" using b(4) by auto
  then have b': "run s0 w \<inter> {0, 1} = {}" "marked b = {0, 1} \<union> run s0 w" "unat s0 + unat w \<le> unat (fs_size st)"
    using b(4) assms(5,6) io1 by simp_all
  let ?st2 = "st1\<lparr>free_map := b\<rparr>"
  have al: "free_map_allocate w st1 = Some (?st2, Some s0)" using b(1) ne assms(3) io1 by (simp add: free_map_allocate_def)
  define d where "d = \<lparr>start = s0, dlength = ?len, magic = INODE_MAGIC\<rparr>"
  have dd: "inode_of (inode_bytes d) = d" using len by (intro inode_of_bytes) (simp_all add: d_def)
  have ext: "extent d = run s0 w" using w(2) by (simp add: extent_def run_def nsect_def d_def n_def nat_mult_distrib)
  have d2: "disk_ok ?st2" "0 < fs_size ?st2" using st1(2) assms(8) io1 by (simp_all add: io_def word_less_nat_alt)
  obtain st3 where st3: "fs_write 0 (inode_bytes d) ?st2 = Some st3" "io ?st2 st3" "sect st3 = (sect ?st2)(0 := inode_bytes d)"
    using fs_write_ok [OF d2, of "inode_bytes d"] by auto
  have sz3: "unat s0 + unat w \<le> unat (fs_size st3)" using b'(3) st3(2) io1 by (simp add: io_def)
  obtain st4 where st4: "zero_sectors (unat w) s0 st3 = Some st4" "io st3 st4"
      "\<forall>t. sect st4 t = (if unat t \<in> {unat s0 ..< unat s0 + unat w} then replicate 512 0 else sect st3 t)"
    using zero_sectors_ok [OF io_disk_ok [OF st3(2)] sz3] by blast
  have io4: "io (st\<lparr>free_map := b\<rparr>) st4" using io_trans [OF st3(2) st4(2)] st1(2) by (simp add: io_def)
  have zs: "(if 0 < w then zero_sectors (unat w) s0 st3 else Some st3) = Some st4"
    using st4(1) by (cases "w = 0") (auto simp: word_gt_0)
  have "inode_create 0 ?len st = Some (st4, True)"
    using len(1) st1(1) w(1) al st3(1) zs by (simp add: inode_create_def d_def)
  moreover have "dinode st4 0 = d"
  proof -
    have "unat (0 :: u32) \<notin> {unat s0 ..< unat s0 + unat w}" using b'(1) by (auto simp: run_def)
    then show ?thesis using st4(3) st3(3) dd by (auto simp: dinode_def)
  qed
  moreover have "free_map st4 = b" "fs_size st4 = fs_size st" using io4 by (simp_all add: io_def)
  moreover have "card (extent d) = n" using ext w(2) by (simp add: run_def)
  moreover have "data_ok st4 d"
    using len b'(3) w(2) \<open>fs_size st4 = fs_size st\<close> by (simp add: data_ok_def d_def nsect_def n_def nat_mult_distrib)
  ultimately show ?thesis using io4 b(2,3) b' ext io1 assms(5) by (intro exI [of _ st4] exI [of _ d]) (auto simp: d_def)
qed

lemma bitmap_write_ok:
  assumes "disk_ok st" "memory st" "files st f = Some fl" "inodes st (finode fl) = Some i" "deny_write_cnt i = 0" "data_ok st (data i)"
    "dlength (data i) = int (4 * length (bits b))" "wf_bitmap b" "unat (bit_cnt b) + 32 \<le> 2 ^ 32"
  shows "\<exists>st'. bitmap_write b f st = Some (st', True) \<and> io st st' \<and> content st' (data i) = bytes_of (bits b) \<and>
    (\<forall>t. unat t \<notin> extent (data i) \<longrightarrow> sect st' t = sect st t)"
proof -
  let ?w = "bytes_of (bits b)"
  have sz: "sint (byte_cnt (bit_cnt b)) = int (length ?w)" using sint_byte_cnt [OF assms(8,9)] by simp
  obtain st' n where w: "write_loop i ?w (int (length ?w)) (int 0) False st = Some (st', int n)"
      "io st st'" "content st' (data i) = splice (content st (data i)) 0 (take n ?w)"
      "\<forall>t. unat t \<notin> extent (data i) \<longrightarrow> sect st' t = sect st t"
      "False \<or> memory st \<longrightarrow> n = min (length ?w) (nat (dlength (data i)) - 0)"
    using write_loop_ok [OF assms(1,6) order_refl, of ?w 0 False] by blast
  have n: "n = length ?w" using w(5) assms(2,7) by simp
  have "bitmap_write b f st = Some (st', True)"
    using w(1) n assms(3,4,5) sz by (simp add: bitmap_write_def file_write_at_def inode_write_at_def)
  moreover have "content st' (data i) = ?w" using w(3) n assms(7) by (simp add: splice_def)
  ultimately show ?thesis using w(2,4) by blast
qed

lemma free_map_create_ok:
  assumes "disk_ok st" "idle_fs st" "free_map_file st = None" "wf_bitmap (free_map st)" "bit_cnt (free_map st) = fs_size st"
    "marked (free_map st) = {0, 1}" "unat (fs_size st) + 32 \<le> 2 ^ 32" "3 + (4 * length (bits (free_map st)) + 511) div 512 \<le> unat (fs_size st)"
  shows "\<exists>st' p f. free_map_create st = Some st' \<and> fs_core {0} st' \<and> mounted p f (dinode st' 0) st' \<and> fs_size st' = fs_size st \<and>
    fs_device st' = fs_device st \<and> {0, 1} \<subseteq> marked (free_map st') \<and> card (marked (free_map st')) < unat (fs_size st) \<and> 1 \<notin> own st' 0"
proof -
  let ?n = "4 * length (bits (free_map st))"
  obtain st1 d where c: "inode_create 0 (int ?n) st = Some (st1, True)" "io (st\<lparr>free_map := free_map st1\<rparr>) st1" "wf_bitmap (free_map st1)"
      "bit_cnt (free_map st1) = fs_size st" "dinode st1 0 = d" "dlength d = int ?n" "extent d \<inter> {0, 1} = {}"
      "marked (free_map st1) = {0, 1} \<union> extent d" "card (extent d) = (?n + 511) div 512" "data_ok st1 d"
    using create_free_map_inode [OF assms] by blast
  have i1: "disk_ok st1" "idle_fs st1" "fs_size st1 = fs_size st" "fs_device st1 = fs_device st"
    using c(2) assms(2) by (simp_all add: io_def idle_fs_def)
  have z: "0 < fs_size st1" using assms(8) i1 by (simp add: word_less_nat_alt)
  obtain st2 p st3 f where o: "inode_open 0 st1 = Some (st2, Some p)" "file_open (Some p) st2 = Some (st3, Some f)"
      "mounted p f (dinode st1 0) (st3\<lparr>free_map_file := Some f\<rparr>)" "sect st3 = sect st1" "disk_ok st3" "memory st3" "fs_size st3 = fs_size st1"
      "free_map st3 = free_map st1" "fs_device st3 = fs_device st1"
    using open_free_map_file [OF i1(1,2) z] by blast
  let ?st = "st3\<lparr>free_map_file := Some f\<rparr>"
  let ?fl = "\<lparr>finode = p, pos = 0, deny_write = False\<rparr>"
  let ?i = "\<lparr>isector = 0, open_cnt = 1, removed = False, deny_write_cnt = 0, data = d\<rparr>"
  have l: "length (bits (free_map st1)) = length (bits (free_map st))" using wf_bits_length [OF c(3) assms(4)] c(4) assms(5) by simp
  have pre: "disk_ok ?st" "memory ?st" "files ?st f = Some ?fl" "inodes ?st (finode ?fl) = Some ?i" "deny_write_cnt ?i = 0" "data_ok ?st (data ?i)"
      "dlength (data ?i) = int (4 * length (bits (free_map st1)))" "unat (bit_cnt (free_map st1)) + 32 \<le> 2 ^ 32"
    using o(3,5-7) c(4,5,6,10) l assms(7) by (simp_all add: mounted_def data_ok_def)
  obtain st4 where w: "bitmap_write (free_map st1) f ?st = Some (st4, True)" "io ?st st4" "content st4 d = bytes_of (bits (free_map st1))"
      "\<forall>t. unat t \<notin> extent d \<longrightarrow> sect st4 t = sect ?st t"
    using bitmap_write_ok [OF pre(1-7) c(3) pre(8)] by auto
  have f4: "free_map st4 = free_map st1" "fs_size st4 = fs_size st" "fs_device st4 = fs_device st" "disk_ok st4" "memory st4"
    using w(2) o(6-9) i1 by (simp_all add: io_def)
  have "unat (0 :: u32) \<notin> extent d" using c(7) by auto
  then have d4: "dinode st4 0 = d" using w(4) [rule_format, of 0] o(4) c(5) by (simp add: dinode_def)
  have mt: "mounted p f (dinode st4 0) st4" using mounted_io [OF o(3) w(2)] c(5) d4 by simp
  have own4: "own st4 0 = insert 0 (extent d)" by (simp add: own_def d4)
  have sp: "space {0} st4"
    using c(3,4,7,8,10) f4 assms(7) z i1(3) own4 d4 by (auto simp: space_def data_ok_def)
  have core: "fs_core {0} st4" using mounted_core [OF f4(4,5) sp mt] d4 c(6) l f4(1) w(3) by simp
  have "sint (bitmap_file_size (free_map st)) = int ?n"
    using sint_byte_cnt [OF assms(4)] assms(5,7) by (simp add: bitmap_file_size_def)
  then have "free_map_create st = Some st4"
    using c(1) o(1,2,8) w(1) by (simp add: free_map_create_def FREE_MAP_SECTOR_def)
  moreover have "card (marked (free_map st4)) < unat (fs_size st)"
  proof -
    have "card ({0, 1} \<union> extent d) \<le> card {0 :: nat, 1} + card (extent d)" by (rule card_Un_le)
    then show ?thesis using c(8,9) f4(1) assms(8) by simp
  qed
  moreover have "1 \<notin> own st4 0" using own4 c(7) by auto
  ultimately show ?thesis using core mt f4 c(8) by (intro exI [of _ st4] exI [of _ p] exI [of _ f]) simp
qed

lemma mounted_close:
  assumes "mounted p f d st"
  shows "\<exists>st'. free_map_close st = Some st' \<and> inodes st' = Map.empty \<and> files st' = Map.empty \<and> open_inodes st' = [] \<and>
    sect st' = sect st \<and> fs_size st' = fs_size st \<and> disk_ok st' = disk_ok st \<and> memory st' = memory st \<and> free_map st' = free_map st"
  using assms
  by (simp add: free_map_close_def mounted_def file_close_def file_allow_write_def inode_close_def set_inode_def Let_def)

lemma do_format_ok:
  assumes "disk_ok st" "idle_fs st" "free_map_file st = None" "wf_bitmap (free_map st)" "bit_cnt (free_map st) = fs_size st"
    "marked (free_map st) = {0, 1}" "unat (fs_size st) + 32 \<le> 2 ^ 32" "3 + (4 * length (bits (free_map st)) + 511) div 512 \<le> unat (fs_size st)"
  shows "\<exists>st'. do_format st = Some st' \<and> idle_fs st' \<and> disk_image {0, 1} (free_map st') st' \<and> root st' = replicate 320 0 \<and> fs_size st' = fs_size st"
proof -
  obtain st1 p f where c: "free_map_create st = Some st1" "fs_core {0} st1" "mounted p f (dinode st1 0) st1" "fs_size st1 = fs_size st"
      "{0, 1} \<subseteq> marked (free_map st1)" "card (marked (free_map st1)) < unat (fs_size st)" "1 \<notin> own st1 0"
    using free_map_create_ok [OF assms] by blast
  have sz: "(1 :: u32) < fs_size st1" using assms(8) c(4) by (simp add: word_less_nat_alt)
  have pre: "unat (1 :: u32) \<in> marked (free_map st1)" "\<forall>t \<in> {0}. unat (1 :: u32) \<notin> own st1 t" using c(5,7) by auto
  have bc: "bit_cnt (free_map st1) = fs_size st1" using c(2) by (simp add: fs_core_def space_def)
  have "\<exists>k. run_at (bm (free_map st1)) False ((nat 320 + 511) div 512) k"
  proof (rule ccontr)
    assume "\<not> ?thesis"
    then have "{..<unat (fs_size st)} \<subseteq> marked (free_map st1)" using bc c(4) by (auto simp: run_at_free)
    then have "card {..<unat (fs_size st)} \<le> card (marked (free_map st1))" by (rule card_mono [rotated]) (simp add: marked_def)
    then show False using c(6) by simp
  qed
  moreover have "(0 :: int) \<le> 320" "(320 :: int) + 512 < 2 ^ 31" by simp_all
  ultimately obtain st2 where r: "inode_create 1 320 st1 = Some (st2, True)" "fs_core {1, 0} st2" "io (st1\<lparr>free_map := free_map st2\<rparr>) st2"
      "content st2 (dinode st2 1) = replicate (nat 320) 0" "dinode st2 0 = dinode st1 0"
    using inode_create_core [OF c(2) sz pre, of 320] by auto
  have mt: "mounted p f (dinode st2 0) st2" using c(3) r(3,5) by (simp add: mounted_def io_def)
  obtain st3 where q: "free_map_close st2 = Some st3" "inodes st3 = Map.empty" "files st3 = Map.empty" "open_inodes st3 = []"
      "sect st3 = sect st2" "fs_size st3 = fs_size st2" "disk_ok st3 = disk_ok st2" "memory st3 = memory st2" "free_map st3 = free_map st2"
    using mounted_close [OF mt] by blast
  have core: "disk_ok st2" "memory st2" "space {1, 0} st2" "handles {1, 0} st2" "fm_ok st2" using r(2) by (auto simp: fs_core_def)
  have g: "dlength (dinode st2 0) = int (4 * length (bits (free_map st2)))" by (rule fm_okD [OF core(5,4)])
  have g': "stores (content st2 (dinode st2 0)) (free_map st2)" by (rule fm_okD [OF core(5,4)])
  have dc: "dinode st3 = dinode st2" "content st3 = content st2"
    by (simp_all add: dinode_def content_def data_byte_def q(5) fun_eq_iff)
  have wf: "wf_bitmap (free_map st2)" using core(3) by (simp add: space_def)
  have "st2\<lparr>free_map := free_map st2\<rparr> = st2" by simp
  then have "space {1, 0} (st3\<lparr>free_map := free_map st2\<rparr>)"
    using space_free_map [where st = st2 and st' = st3 and B = "free_map st2" and b = "free_map st2"] core(3) wf q(5,6) by simp
  then have "disk_image {0, 1} (free_map st3) st3"
    using core(1) q(7,9) g g' dc by (simp add: disk_image_def insert_commute)
  moreover have "idle_fs st3" using q core(2) by (simp add: idle_fs_def)
  moreover have "root st3 = replicate 320 0" using r(4) dc by (simp add: root_def)
  moreover have "fs_size st3 = fs_size st" using q(6) r(3) c(4) by (simp add: io_def)
  moreover have "do_format st = Some st3" using c(1) r(1) q(1) by (simp add: do_format_def dir_create_def ROOT_DIR_SECTOR_def)
  ultimately show ?thesis by blast
qed

text \<open>
  Formatting. On a device with room for the free map file, one data sector and the two system
  inodes, whatever it holds, \<open>filesys_init\<close> with \<open>format\<close> succeeds, and leaves a consistent file
  system with no files and a root directory in which every entry is free.
\<close>

theorem filesys_format:
  assumes "block_by_role (devs st) BLOCK_FILESYS = Some d" "device_ready d n (devs st)" "\<forall>s < n. length (sector_of (devs st) d s) = 512"
    "inodes st = Map.empty" "files st = Map.empty" "\<forall>k. malloc_ok st k" "free_map_file st = None"
    "length buf = (unat n + 31) div 32" "unat n + 32 \<le> 2 ^ 32" "3 + (4 * length buf + 511) div 512 \<le> unat n"
  shows "\<exists>st'. filesys_init buf True st = Some st' \<and> fs_ok st' \<and> view st' = Map.empty \<and>
    slots (root st') = 16 \<and> (\<forall>k < 16. \<not> e_in_use (slot (root st') k))"
proof -
  let ?a = "inode_init (st\<lparr>fs_device := d\<rparr>)"
  have n: "fs_size ?a = n" using assms(2) by (simp add: fs_size_def inode_init_def device_ready_def)
  have sa: "sect ?a s = sector_of (devs st) d s" if "s < n" for s using that n by (simp add: sect_def) (simp add: inode_init_def)
  have a: "disk_ok ?a" "memory ?a" "idle_fs ?a"
    using assms(2-6) sa n by (simp_all add: disk_ok_def memory_def idle_fs_def) (simp_all add: inode_init_def)
  have pre: "2 \<le> unat (fs_size ?a)" "length buf = (unat (fs_size ?a) + 31) div 32" using assms(8,10) n by simp_all
  obtain st1 where i: "free_map_init buf ?a = Some st1" "io (?a\<lparr>free_map := free_map st1\<rparr>) st1"
      "wf_bitmap (free_map st1)" "bit_cnt (free_map st1) = fs_size ?a" "marked (free_map st1) = {0, 1}"
    using free_map_init_ok [OF a(1,2) pre] by blast
  have i1: "disk_ok st1" "idle_fs st1" "free_map_file st1 = None" "fs_size st1 = n"
    using i(2) a(3) n assms(7) by (simp_all add: io_def idle_fs_def) (simp add: inode_init_def)
  have l: "length (bits (free_map st1)) = length buf" using i(3,4) n assms(8) by (simp add: wf_bitmap_def)
  obtain st2 where f: "do_format st1 = Some st2" "idle_fs st2" "disk_image {0, 1} (free_map st2) st2" "root st2 = replicate 320 0"
    using do_format_ok [OF i1(1-3) i(3) _ i(5)] i1(4) i(4) n assms(9,10) l by auto
  have wf: "wf_bitmap (free_map st2)" using f(3) by (simp add: disk_image_def space_def)
  obtain st3 p x where m: "free_map_open st2 = Some st3" "fs_core {0, 1} st3" "mounted p x (dinode st2 0) st3" "sect st3 = sect st2"
    using mount_core [OF f(3,2) wf refl] by blast
  have r3: "root st3 = replicate 320 0" using f(4) root_same [OF m(4)] by simp
  have none: "\<not> e_in_use (slot (root st3) k)" if "k < slots (root st3)" for k using zero_dir [of k 320] that r3 by auto
  have sl: "slots (root st3) = 16" by (simp add: r3 slots_def)
  have e: "entries st3 = Map.empty"
    using none by (auto simp: entries_def dir_map_None_iff names_def fun_eq_iff)
  have "fs_ok st3" using fs_ok_mounted [OF _ m(3)] m(2) e none by (simp add: dir_wf_def)
  moreover have "view st3 = Map.empty" by (simp add: view_def e fun_eq_iff)
  moreover have "filesys_init buf True st = Some st3"
    using assms(1) i(1) f(1) m(1) by (simp add: filesys_init_def block_get_role_def)
  ultimately show ?thesis using none sl by auto
qed

section \<open>Examples\<close>

definition example_reboot :: fs where
  "example_reboot = example_fs\<lparr>inodes := Map.empty, open_inodes := [], files := Map.empty, free_map := \<lparr>bit_cnt = 0, bits = []\<rparr>,
     free_map_file := None\<rparr>"

theorem filesys_remount_witness:
  "\<exists>st'. filesys_init [5, 6] False example_reboot = Some st' \<and> fs_ok st' \<and> view st' = view example_fs"
proof -
  have "devs example_reboot = devs example_fs" "block_by_role (devs example_fs) BLOCK_FILESYS = Some (fs_device example_fs)"
    "inodes example_reboot = Map.empty" "files example_reboot = Map.empty" "\<forall>n. malloc_ok example_reboot n"
    "length [5, 6] = length (bits (free_map example_fs))"
    by (simp_all add: example_reboot_def example_fs_def)
  from filesys_remount [OF example_ok this] show ?thesis by blast
qed

theorem filesys_format_witness:
  "\<exists>st'. filesys_init [5, 6] True example_reboot = Some st' \<and> fs_ok st' \<and> view st' = Map.empty"
proof -
  have dv: "devs example_reboot = devs example_fs" by (simp add: example_reboot_def)
  have fd: "fs_device example_fs = 0" by (simp add: example_fs_def)
  have d: "device_ready 0 64 (devs example_reboot)" "\<forall>s < 64. length (sector_of (devs example_reboot) 0 s) = 512"
    using example_disk_ok example_fs_size fd dv by (auto simp: disk_ok_def sect_def)
  have "block_by_role (devs example_reboot) BLOCK_FILESYS = Some 0" "inodes example_reboot = Map.empty" "files example_reboot = Map.empty"
    "\<forall>n. malloc_ok example_reboot n" "free_map_file example_reboot = None" "length [5, 6] = (unat (64 :: u32) + 31) div 32"
    "unat (64 :: u32) + 32 \<le> 2 ^ 32" "3 + (4 * length [5, 6 :: u32] + 511) div 512 \<le> unat (64 :: u32)"
    by (simp_all add: example_reboot_def example_fs_def)
  note * = this
  from filesys_format [OF *(1) d *(2-5), of "[5, 6]"] *(6-8) show ?thesis by auto
qed

end
