(* ===== verification/Ram.thy ===== *)
theory Ram
  imports Pagedir Bytes
begin

text \<open>
  The kernel's memory as bytes. Page tables are words of the memory of the page allocator; the
  contents of user pages are bytes of the same memory, in little-endian order.
\<close>

definition byte_at :: "(u32 \<Rightarrow> u32) \<Rightarrow> u32 \<Rightarrow> u8" where
  "byte_at m a = ucast (drop_bit (8 * unat (a AND 3)) (m (a AND NOT 3)))"

definition load_bytes :: "(u32 \<Rightarrow> u32) \<Rightarrow> u32 \<Rightarrow> nat \<Rightarrow> u8 list" where
  "load_bytes m a n = map (\<lambda>i. byte_at m (a + of_nat i)) [0 ..< n]"

definition store_bytes :: "(u32 \<Rightarrow> u32) \<Rightarrow> u32 \<Rightarrow> u8 list \<Rightarrow> u32 \<Rightarrow> u32" where
  "store_bytes m a bs = (\<lambda>w. if w AND 3 = 0 then
     le32 (map (\<lambda>k. if unat (w + k - a) < length bs then bs ! unat (w + k - a) else byte_at m (w + k)) [0, 1, 2, 3])
     else m w)"

lemma length_load_bytes [simp]: "length (load_bytes m a n) = n"
  by (simp add: load_bytes_def)

lemma byte_cases: "(a AND 3 :: u32) \<in> {0, 1, 2, 3}"
proof -
  have "unat (a AND 3) < 4" using unat_take_bit [of 2 a] by (simp add: take_bit_eq_mask mask_eq_exp_minus_1)
  then have "unat (a AND 3) = 0 \<or> unat (a AND 3) = 1 \<or> unat (a AND 3) = 2 \<or> unat (a AND 3) = 3" by linarith
  then show ?thesis by (auto simp: word_unat_eq_iff)
qed

lemma and_split: "(a AND NOT 3) + (a AND 3) = (a :: u32)"
proof -
  have "(a AND NOT 3) AND (a AND 3) = 0" by (rule bit_eqI) (auto simp: bit_simps)
  then have "(a AND NOT 3) + (a AND 3) = (a AND NOT 3) OR (a AND 3)" by (rule disjunctive_add_eq_or)
  also have "\<dots> = a" by (rule bit_eqI) (auto simp: bit_simps)
  finally show ?thesis .
qed

lemma byte_of_le32:
  assumes "length bs = 4" "k < 4"
  shows "ucast (drop_bit (8 * k) (le32 bs)) = bs ! k"
proof (rule bit_eqI)
  fix n assume "possible_bit TYPE(u8) n"
  then have n: "n < 8" by simp
  from assms(2) consider "k = 0" | "k = 1" | "k = 2" | "k = 3" by linarith
  then show "bit (ucast (drop_bit (8 * k) (le32 bs)) :: u8) n = bit (bs ! k) n"
    using n by cases (auto simp: le32_def bit_simps dest: bit_imp_le_length)
qed

lemma aligned_byte:
  assumes "w AND 3 = (0 :: u32)" "k \<in> {0, 1, 2, 3}"
  shows "(w + k) AND 3 = k" "(w + k) AND NOT 3 = w"
proof -
  have d: "w AND k = 0"
  proof (rule bit_eqI)
    fix n
    have "bit (mask 2 :: u32) n \<longleftrightarrow> n < 2" by (auto simp: bit_mask_iff)
    then have "bit (3 :: u32) n \<longleftrightarrow> n < 2" by (simp add: mask_eq_exp_minus_1)
    moreover have "\<not> bit w n" if "n < 2" using arg_cong [OF assms(1), of "\<lambda>x. bit x n"] that calculation by (simp add: bit_and_iff)
    moreover have "k AND 3 = k" using assms(2) by auto
    then have "bit k n \<longrightarrow> bit (3 :: u32) n" by (metis bit_and_iff)
    ultimately show "bit (w AND k) n = bit (0 :: u32) n" by (auto simp: bit_and_iff)
  qed
  then have "w + k = w OR k" by (rule disjunctive_add_eq_or)
  moreover have "(w OR k) AND 3 = (w AND 3) OR (k AND 3)" by (rule bit_eqI) (auto simp: bit_simps)
  moreover have "(w OR k) AND NOT 3 = (w AND NOT 3) OR (k AND NOT 3)" by (rule bit_eqI) (auto simp: bit_simps)
  moreover have "k AND 3 = k" "k AND NOT 3 = 0" using assms(2) by auto
  moreover have "w AND NOT 3 = w" using and_split [of w] assms(1) by simp
  ultimately show "(w + k) AND 3 = k" "(w + k) AND NOT 3 = w" using assms(1) by simp_all
qed

lemma le32_bytes_at:
  assumes "w AND 3 = (0 :: u32)"
  shows "le32 [byte_at m (w + 0), byte_at m (w + 1), byte_at m (w + 2), byte_at m (w + 3)] = m w"
proof -
  note k = aligned_byte [OF assms]
  have "[byte_at m (w + 0), byte_at m (w + 1), byte_at m (w + 2), byte_at m (w + 3)] = le32_bytes (m w)"
    using k [of 0] k [of 1] k [of 2] k [of 3] by (simp add: byte_at_def le32_bytes_def)
  then show ?thesis by (metis le32_le32_bytes)
qed

lemma byte_at_store:
  "byte_at (store_bytes m a bs) b = (if unat (b - a) < length bs then bs ! unat (b - a) else byte_at m b)"
proof -
  let ?w = "b AND NOT 3" and ?k = "b AND 3"
  let ?f = "\<lambda>k. if unat (?w + k - a) < length bs then bs ! unat (?w + k - a) else byte_at m (?w + k)"
  have w: "?w AND 3 = 0" by (rule bit_eqI) (auto simp: bit_simps)
  have k: "unat ?k < 4" "map ?f [0, 1, 2, 3] ! unat ?k = ?f ?k" using byte_cases [of b] by auto
  have "byte_at (store_bytes m a bs) b = map ?f [0, 1, 2, 3] ! unat ?k"
    using byte_of_le32 [OF _ k(1), of "map ?f [0, 1, 2, 3]"] w by (simp add: byte_at_def store_bytes_def)
  then show ?thesis using k(2) and_split [of b] by simp
qed

section \<open>Pages\<close>

definition agree :: "nat set \<Rightarrow> (u32 \<Rightarrow> u32) \<Rightarrow> (u32 \<Rightarrow> u32) \<Rightarrow> bool" where
  "agree P m m' \<longleftrightarrow> (\<forall>w. page_of w \<in> P \<longrightarrow> m' w = m w)"

lemma agree_refl [simp]: "agree P m m"
  by (simp add: agree_def)

lemma agree_trans: "agree P a b \<Longrightarrow> agree P b c \<Longrightarrow> agree P a c"
  by (simp add: agree_def)

lemma agree_subset: "agree P m m' \<Longrightarrow> Q \<subseteq> P \<Longrightarrow> agree Q m m'"
  by (auto simp: agree_def)

text \<open>The 4096 bytes of a page.\<close>

abbreviation page_bytes :: "(u32 \<Rightarrow> u32) \<Rightarrow> u32 \<Rightarrow> u8 list" where
  "page_bytes m p \<equiv> load_bytes m p 4096"

lemma unat_in_page:
  assumes "pg_ofs p = 0" "i < 4096"
  shows "unat (p + of_nat i) = unat p + i" "page_of (p + of_nat i) = page_of p"
proof -
  obtain k where k: "unat p = 4096 * k" using assms(1) by (auto simp: pg_ofs_0)
  have b: "unat p + 4096 \<le> 2 ^ 32" using k u32_unat_bound [of p] by simp
  have i: "unat (of_nat i :: u32) = i" using assms(2) by (simp add: unat_of_nat)
  then show u: "unat (p + of_nat i) = unat p + i" using b assms(2) by (subst unat_plus_u32) simp_all
  have "(4096 * k + i) div 4096 = k" using assms(2) by (intro div_nat_eqI) simp_all
  then show "page_of (p + of_nat i) = page_of p" by (simp add: page_of_def u k)
qed

lemma drop_bit_and_not: "k \<le> n \<Longrightarrow> drop_bit n (b AND NOT (mask k)) = drop_bit n (b :: u32)"
  by (rule bit_eqI) (auto simp: bit_simps dest: bit_imp_le_length)

lemma page_of_word: "page_of (b AND NOT 3) = page_of b"
proof -
  have "drop_bit 12 (b AND NOT 3) = drop_bit 12 b" using drop_bit_and_not [of 2 12 b] by (simp add: mask_eq_exp_minus_1)
  then have "unat (drop_bit 12 (b AND NOT 3)) = unat (drop_bit 12 b)" by (rule arg_cong)
  then show ?thesis unfolding page_of_def unat_drop_bit by simp
qed

lemma byte_at_agree: "agree P m m' \<Longrightarrow> page_of b \<in> P \<Longrightarrow> byte_at m' b = byte_at m b"
  unfolding byte_at_def agree_def using page_of_word [of b] by metis

lemma page_bytes_agree:
  assumes "agree P m m'" "pg_ofs p = 0" "page_of p \<in> P"
  shows "page_bytes m' p = page_bytes m p"
  using byte_at_agree [OF assms(1)] unat_in_page(2) [OF assms(2)] assms(3) by (simp add: load_bytes_def)

text \<open>A store inside one page.\<close>

lemma store_range:
  assumes "pg_ofs p = 0" "off + n \<le> 4096" "unat (b - (p + of_nat off)) < n"
  shows "page_of b = page_of p" "unat b = unat p + off + unat (b - (p + of_nat off))"
proof -
  let ?j = "unat (b - (p + of_nat off))"
  have "b = p + of_nat (off + ?j)" by simp
  then show "page_of b = page_of p" "unat b = unat p + off + ?j"
    using unat_in_page [OF assms(1), of "off + ?j"] assms(2,3) by simp_all
qed

lemma word_bytes_page:
  assumes "w AND 3 = (0 :: u32)" "k \<in> {0, 1, 2, 3}"
  shows "page_of (w + k) = page_of w"
  using page_of_word [of "w + k"] aligned_byte(2) [OF assms] by simp

lemma store_agree:
  assumes "pg_ofs p = 0" "off + length bs \<le> 4096" "page_of p \<notin> P"
  shows "agree P m (store_bytes m (p + of_nat off) bs)"
  unfolding agree_def
proof (intro allI impI)
  fix w assume w: "page_of w \<in> P"
  show "store_bytes m (p + of_nat off) bs w = m w"
  proof (cases "w AND 3 = 0")
    case True
    have "\<not> unat (w + k - (p + of_nat off)) < length bs" if "k \<in> {0, 1, 2, 3}" for k
      using store_range(1) [OF assms(1,2), of "w + k"] word_bytes_page [OF True that] w assms(3) by auto
    from this [of 0] this [of 1] this [of 2] this [of 3] show ?thesis
      using le32_bytes_at [OF True, of m] True by (simp add: store_bytes_def)
  qed (simp add: store_bytes_def)
qed

lemma page_bytes_store:
  assumes "pg_ofs p = 0" "off + length bs \<le> 4096"
  shows "page_bytes (store_bytes m (p + of_nat off) bs) p = splice (page_bytes m p) off bs"
proof (rule nth_equalityI)
  show "length (page_bytes (store_bytes m (p + of_nat off) bs) p) = length (splice (page_bytes m p) off bs)" using assms(2) by simp
  fix i assume "i < length (page_bytes (store_bytes m (p + of_nat off) bs) p)"
  then have i: "i < 4096" by simp
  have d: "unat (p + of_nat i - (p + of_nat off)) = i - off" if "off \<le> i"
  proof -
    have "p + of_nat i - (p + of_nat off) = (of_nat (i - off) :: u32)" using that by (simp add: of_nat_diff)
    then show ?thesis using i by (simp only: unat_of_nat) simp
  qed
  have "unat (p + of_nat i - (p + of_nat off)) < length bs \<longleftrightarrow> off \<le> i \<and> i < off + length bs"
  proof
    assume "unat (p + of_nat i - (p + of_nat off)) < length bs"
    from store_range(2) [OF assms(1,2) this] this unat_in_page(1) [OF assms(1) i] show "off \<le> i \<and> i < off + length bs" by simp
  next
    assume a: "off \<le> i \<and> i < off + length bs"
    then show "unat (p + of_nat i - (p + of_nat off)) < length bs" using d a by (simp add: less_diff_conv2 add.commute)
  qed
  then show "page_bytes (store_bytes m (p + of_nat off) bs) p ! i = splice (page_bytes m p) off bs ! i"
    using i d assms(2) by (auto simp: load_bytes_def byte_at_store nth_splice)
qed

lemma page_bytes_nth: "i < 4096 \<Longrightarrow> page_bytes m p ! i = byte_at m (p + of_nat i)"
  by (simp add: load_bytes_def)

lemma load_in_page: "off + n \<le> 4096 \<Longrightarrow> load_bytes m (p + of_nat off) n = take n (drop off (page_bytes m p))"
  by (rule nth_equalityI) (simp_all add: load_bytes_def add.assoc)

end
