(* ===== verification/Spaces.thy ===== *)
theory Spaces
  imports Ram
begin

text \<open>
  Several page directories in one memory: an operation on one directory writes only the pages of
  that directory, so it leaves the other directories and all user pages alone.
\<close>

definition pd_pages :: "pd_state \<Rightarrow> u32 \<Rightarrow> nat set" where
  "pd_pages st pd = insert (page_of pd) {page_of pt | i pt. i < 768 \<and> table st pd i = Some pt}"

lemma pd_pagesI: "page_of pd \<in> pd_pages st pd" "i < 768 \<Longrightarrow> table st pd i = Some pt \<Longrightarrow> page_of pt \<in> pd_pages st pd"
  by (auto simp: pd_pages_def)

lemma pd_pages_cong: "(\<And>i. i < 768 \<Longrightarrow> table st' pd i = table st pd i) \<Longrightarrow> pd_pages st' pd = pd_pages st pd"
  by (simp add: pd_pages_def cong: conj_cong)

lemma pd_pages_in_use: "wf_pd st pd \<Longrightarrow> pd_pages st pd \<subseteq> in_use (kernel_pool (pal st))"
  using wf_pd_table(1) [of st pd] wf_pd_D(2) [of st pd] by (auto simp: pd_pages_def kernel_page_def)

lemma user_pages_apart:
  assumes "palloc_ok (pal st)" "q \<in> in_use (user_pool (pal st))"
  shows "q \<notin> in_use (kernel_pool (pal st))"
  using pools_disjoint [OF assms(1)] in_use_subset assms(2) by blast

lemma pd_kept:
  assumes wf: "wf_pd st pd" and ag: "agree (pd_pages st pd) (mem (pal st)) (mem (pal st'))"
    and st': "palloc_ok (pal st')" "pd_pages st pd \<subseteq> in_use (kernel_pool (pal st'))"
      "init_page_dir st' = init_page_dir st" "\<exists>a. ptov (cr3 st') = Some a"
  shows "wf_pd st' pd" "pd_pages st' pd = pd_pages st pd" "is_user_vaddr va \<Longrightarrow> entry st' pd va = entry st pd va"
proof -
  have pd: "pg_ofs pd = 0" using wf_pd_D(3) [OF wf] .
  have slot: "slot st' pd i = slot st pd i" if "i < 768" for i
    using ag word_in_page(2) [OF pd slot_lt [OF that]] pd_pagesI(1) [of pd st] by (simp add: slot_def agree_def)
  then have table: "table st' pd i = table st pd i" if "i < 768" for i using that by (simp add: table_def)
  have kernel: "kernel_page st q \<Longrightarrow> page_of q \<in> pd_pages st pd \<Longrightarrow> kernel_page st' q" for q using st'(2) by (auto simp: kernel_page_def)
  show "wf_pd st' pd"
    unfolding wf_pd_def
  proof (intro conjI allI impI)
    show "palloc_ok (pal st')" by (rule st'(1))
    show "kernel_page st' pd" using kernel wf_pd_D(2) [OF wf] pd_pagesI(1) by blast
    show "pd \<noteq> init_page_dir st'" "\<exists>a. ptov (cr3 st') = Some a" using wf st'(3,4) by (simp_all add: wf_pd_def)
    show "\<exists>pt. table st' pd i = Some pt \<and> kernel_page st' pt \<and> pt \<noteq> pd" if a: "i < 768" "slot st' pd i \<noteq> 0" for i
    proof -
      obtain pt where pt: "table st pd i = Some pt" "kernel_page st pt" "pt \<noteq> pd" using wf a slot unfolding wf_pd_def by metis
      then show ?thesis using table [OF a(1)] kernel pd_pagesI(2) [OF a(1)] by auto
    qed
    show "i = j" if "i < 768" "j < 768" "table st' pd i = Some pt" "table st' pd j = Some pt" for i j pt
      using wf that table by (auto simp: wf_pd_def)
  qed
  show "pd_pages st' pd = pd_pages st pd" using table by (rule pd_pages_cong)
  show "entry st' pd va = entry st pd va" if va: "is_user_vaddr va"
  proof (cases "table st pd (pd_no va)")
    case None
    then show ?thesis using table [OF user_pd_no [OF va]] by (simp add: entry_def)
  next
    case (Some pt)
    note i = user_pd_no [OF va]
    have "pg_ofs pt = 0" using wf_pd_table(1) [OF wf i Some] by (simp add: kernel_page_def)
    then have "page_of (pt + 4 * pt_no va) \<in> pd_pages st pd" using word_in_page(2) [of pt "pt_no va"] pd_pagesI(2) [OF i Some] by simp
    then show ?thesis using ag Some table [OF i] by (simp add: entry_def agree_def)
  qed
qed

lemma pd_agree:
  assumes wf: "wf_pd st pd" and ag: "agree (pd_pages st pd) (mem (pal st)) (mem (pal st'))"
    and st': "palloc_ok (pal st')" "in_use (kernel_pool (pal st)) \<subseteq> in_use (kernel_pool (pal st'))"
      "init_page_dir st' = init_page_dir st" "cr3 st' = cr3 st"
  shows "wf_pd st' pd" "pd_pages st' pd = pd_pages st pd" "is_user_vaddr va \<Longrightarrow> entry st' pd va = entry st pd va"
proof -
  have "pd_pages st pd \<subseteq> in_use (kernel_pool (pal st'))" "\<exists>a. ptov (cr3 st') = Some a"
    using pd_pages_in_use [OF wf] st'(2,4) wf by (auto simp: wf_pd_def)
  note k = pd_kept [OF wf ag st'(1) this(1) st'(3) this(2)]
  show "wf_pd st' pd" "pd_pages st' pd = pd_pages st pd" "is_user_vaddr va \<Longrightarrow> entry st' pd va = entry st pd va" using k by blast+
qed

text \<open>A step that changes the machine only in the pages of one directory, which may take new ones.\<close>

definition touches :: "pd_state \<Rightarrow> u32 \<Rightarrow> pd_state \<Rightarrow> bool" where
  "touches st pd st' \<longleftrightarrow> wf_pd st' pd \<and> agree (- pd_pages st' pd) (mem (pal st)) (mem (pal st')) \<and>
     pd_pages st pd \<subseteq> pd_pages st' pd \<and> pd_pages st' pd \<inter> in_use (kernel_pool (pal st)) \<subseteq> pd_pages st pd \<and>
     in_use (kernel_pool (pal st)) \<subseteq> in_use (kernel_pool (pal st')) \<and> user_pool (pal st') = user_pool (pal st) \<and>
     init_ram_pages st' = init_ram_pages st \<and> init_page_dir st' = init_page_dir st \<and> cr3 st' = cr3 st"

lemma touchesD:
  assumes "touches st pd st'"
  shows "wf_pd st' pd" "agree (- pd_pages st' pd) (mem (pal st)) (mem (pal st'))" "pd_pages st pd \<subseteq> pd_pages st' pd"
    "pd_pages st' pd \<inter> in_use (kernel_pool (pal st)) \<subseteq> pd_pages st pd"
    "in_use (kernel_pool (pal st)) \<subseteq> in_use (kernel_pool (pal st'))" "user_pool (pal st') = user_pool (pal st)"
    "init_ram_pages st' = init_ram_pages st" "init_page_dir st' = init_page_dir st" "cr3 st' = cr3 st"
  using assms by (simp_all add: touches_def)

lemma touches_refl: "wf_pd st pd \<Longrightarrow> touches st pd st"
  by (simp add: touches_def)

lemma touches_trans:
  assumes "touches a pd b" "touches b pd c"
  shows "touches a pd c"
  unfolding touches_def
proof (intro conjI)
  note a = touchesD [OF assms(1)] and b = touchesD [OF assms(2)]
  have "agree (- pd_pages c pd) (mem (pal a)) (mem (pal b))" using agree_subset [OF a(2)] b(3) by blast
  then show "agree (- pd_pages c pd) (mem (pal a)) (mem (pal c))" using b(2) by (rule agree_trans)
  show "wf_pd c pd" by (rule b(1))
  show "pd_pages a pd \<subseteq> pd_pages c pd" "in_use (kernel_pool (pal a)) \<subseteq> in_use (kernel_pool (pal c))" using a b by blast+
  show "pd_pages c pd \<inter> in_use (kernel_pool (pal a)) \<subseteq> pd_pages a pd" using a(4,5) b(4) by blast
qed (use assms in \<open>simp_all add: touchesD\<close>)

lemma touches_user_page:
  assumes "touches st pd st'" "palloc_ok (pal st)" "page_of p \<in> in_use (user_pool (pal st))" "pg_ofs p = 0"
  shows "page_bytes (mem (pal st')) p = page_bytes (mem (pal st)) p"
proof -
  have "palloc_ok (pal st')" "page_of p \<in> in_use (user_pool (pal st'))" "wf_pd st' pd"
    using touchesD(1,6) [OF assms(1)] assms(3) wf_pd_D(1) by simp_all
  then have "page_of p \<in> - pd_pages st' pd" using pd_pages_in_use user_pages_apart by blast
  then show ?thesis by (rule page_bytes_agree [OF touchesD(2) [OF assms(1)] assms(4)])
qed

lemma touches_other:
  assumes t: "touches st pd st'" and wf: "wf_pd st pd'" and apart: "pd_pages st pd \<inter> pd_pages st pd' = {}"
  shows "wf_pd st' pd'" "pd_pages st' pd' = pd_pages st pd'" "is_user_vaddr va \<Longrightarrow> entry st' pd' va = entry st pd' va"
    "pd_pages st' pd \<inter> pd_pages st' pd' = {}"
proof -
  have d: "pd_pages st' pd \<inter> pd_pages st pd' = {}"
    using touchesD(4) [OF t] apart pd_pages_in_use [OF wf] by blast
  then have "pd_pages st pd' \<subseteq> - pd_pages st' pd" by blast
  with touchesD(2) [OF t] have "agree (pd_pages st pd') (mem (pal st)) (mem (pal st'))" by (rule agree_subset)
  note a = pd_agree [OF wf this]
  show "wf_pd st' pd'" "pd_pages st' pd' = pd_pages st pd'" "is_user_vaddr va \<Longrightarrow> entry st' pd' va = entry st pd' va"
    using a touchesD(5,8,9) [OF t] wf_pd_D(1) [OF touchesD(1) [OF t]] by blast+
  then show "pd_pages st' pd \<inter> pd_pages st' pd' = {}" using d by simp
qed

section \<open>The operations\<close>

lemma touches_wr:
  assumes wf: "wf_pd st pd" and va: "is_user_vaddr va" and pte: "pte_addr st pd va \<noteq> 0"
  shows "touches st pd (wr st (pte_addr st pd va) v)"
proof -
  let ?st = "wr st (pte_addr st pd va) v"
  obtain pt where pt: "table st pd (pd_no va) = Some pt" "pte_addr st pd va = pt + 4 * pt_no va"
    using pte by (auto simp: pte_addr_def split: option.splits)
  note i = user_pd_no [OF va]
  have k: "kernel_page st pt" "pt \<noteq> pd" "pg_ofs pt = 0"
    using wf_pd_table(1,2) [OF wf i pt(1)] by (simp_all add: kernel_page_def)
  have pd: "pg_ofs pd = 0" using wf_pd_D(3) [OF wf] .
  have "slot ?st pd j = slot st pd j" if "j < 768" for j
    using same_word [OF pd k(3) slot_lt [OF that] index_lt] k(2) by (auto simp: slot_def pt(2))
  then have "table ?st pd j = table st pd j" if "j < 768" for j using that by (simp add: table_def)
  then have pages: "pd_pages ?st pd = pd_pages st pd" by (rule pd_pages_cong)
  have "page_of (pte_addr st pd va) \<in> pd_pages st pd"
    using word_in_page(2) [OF k(3) index_lt] pd_pagesI(2) [OF i pt(1)] by (simp add: pt(2))
  then have "agree (- pd_pages st pd) (mem (pal st)) (mem (pal ?st))" by (auto simp: agree_def)
  then show ?thesis using wr_entry(1) [OF wf va pte, of v] pages by (simp add: touches_def)
qed

lemma lookup_page_touches:
  assumes wf: "wf_pd st pd" and va: "is_user_vaddr va" and l: "lookup_page pd va True st = Some (st', a)"
  shows "touches st pd st'"
proof (cases "slot st pd (pd_no va) = 0")
  case False
  then have "st' = st" using l by (auto simp: lookup_page_def slot_def Let_def bind_eq_Some_iff)
  then show ?thesis using touches_refl [OF wf] by simp
next
  case True
  note i = user_pd_no [OF va]
  have none: "table st pd (pd_no va) = None" using True by (simp add: table_def)
  have fl: "PAL_ZERO AND PAL_USER = 0" "PAL_ZERO AND PAL_ASSERT = 0" "PAL_ZERO \<noteq> 0"
    by (simp_all add: PAL_ZERO_def PAL_USER_def PAL_ASSERT_def)
  consider "palloc_get_page PAL_ZERO (pal st) = Some (pal st, 0)"
    | p' pt where "palloc_get_page PAL_ZERO (pal st) = Some (p', pt)" "palloc_ok p'" "pg_ofs pt = 0"
      "is_kernel_vaddr pt" "page_of pt \<notin> in_use (kernel_pool (pal st))"
      "in_use (kernel_pool p') = insert (page_of pt) (in_use (kernel_pool (pal st)))"
      "user_pool p' = user_pool (pal st)"
      "mem p' = (\<lambda>a. if page_of a = page_of pt then 0 else rd st a)"
    using palloc_get_page_cases [OF wf_pd_D(1) [OF wf] fl(1,2)] fl(3) by auto
  then show ?thesis
  proof cases
    case 1
    then have "st' = st" using True l va by (auto simp: lookup_page_def slot_def Let_def bind_eq_Some_iff)
    then show ?thesis using touches_refl [OF wf] by simp
  next
    case 2
    obtain e where e: "pde_create pt = Some e" "pde_get_pt e = Some pt" "e \<noteq> 0"
      using pde_roundtrip [OF 2(3,4)] by blast
    have nz: "pt \<noteq> 0" using 2(4) by (auto simp: is_kernel_vaddr_def PHYS_BASE_def)
    have st': "st' = wr (st\<lparr>pal := p'\<rparr>) (pd + 4 * pd_no va) e"
      using True l va nz e 2(1) by (auto simp: lookup_page_def slot_def Let_def bind_eq_Some_iff)
    note new = new_table [OF wf va none 2(2-6) 2(8) e, folded st']
    have pd: "pg_ofs pd = 0" "page_of pd \<noteq> page_of pt"
      using wf_pd_D(2,3) [OF wf] 2(5) by (auto simp: kernel_page_def)
    have slot: "slot st' pd j = (if j = pd_no va then e else slot st pd j)" if "j < 768" for j
      using same_word [OF pd(1,1) slot_lt [OF that] slot_lt [OF i]] word_in_page(2) [OF pd(1) slot_lt [OF that]] pd(2)
      by (auto simp: slot_def st' 2(8))
    have table: "table st' pd j = (if j = pd_no va then Some pt else table st pd j)" if "j < 768" for j
      using slot [OF that] slot [OF i] e by (simp add: table_def)
    have pages: "pd_pages st' pd = insert (page_of pt) (pd_pages st pd)"
    proof -
      have "q \<in> {page_of pt | j pt. j < 768 \<and> table st' pd j = Some pt} \<longleftrightarrow>
          q = page_of pt \<or> q \<in> {page_of pt | j pt. j < 768 \<and> table st pd j = Some pt}" for q
        using table i none by (auto split: if_splits) (metis option.distinct(1))+
      then show ?thesis by (auto simp: pd_pages_def)
    qed
    have "mem (pal st') w = mem (pal st) w" if "page_of w \<noteq> page_of pt" "page_of w \<noteq> page_of pd" for w
      using that word_in_page(2) [OF pd(1) slot_lt [OF i]] by (auto simp: st' 2(8))
    then have "agree (- pd_pages st' pd) (mem (pal st)) (mem (pal st'))"
      unfolding agree_def pages by (metis ComplD insertCI pd_pagesI(1))
    moreover have "kernel_pool (pal st') = kernel_pool p'" "user_pool (pal st') = user_pool (pal st)"
        "init_ram_pages st' = init_ram_pages st" "init_page_dir st' = init_page_dir st" "cr3 st' = cr3 st"
      using 2(7) by (simp_all add: st')
    ultimately show ?thesis
      using new(1) 2(5,6) unfolding touches_def by (simp add: pages subset_insertI)
  qed
qed

lemma pagedir_clear_page_touches:
  assumes wf: "wf_pd st pd" and va: "is_user_vaddr va" and c: "pagedir_clear_page pd va st = Some st'"
  shows "touches st pd st'"
  using c lookup_page_plain [OF wf va] touches_wr [OF wf va] touches_refl [OF wf]
    invalidate_pagedir_same [OF wr_entry(1) [OF wf va]]
  by (auto simp: pagedir_clear_page_def bind_eq_Some_iff split: if_splits)

lemma pagedir_set_accessed_touches:
  assumes wf: "wf_pd st pd" and va: "is_user_vaddr va" and c: "pagedir_set_accessed pd va b st = Some st'"
  shows "touches st pd st'"
  using c lookup_page_plain [OF wf va] touches_wr [OF wf va] touches_refl [OF wf]
    invalidate_pagedir_same [OF wr_entry(1) [OF wf va]]
  by (auto simp: pagedir_set_accessed_def bind_eq_Some_iff split: if_splits)

lemma pagedir_set_page_touches:
  assumes wf: "wf_pd st pd" and c: "pagedir_set_page pd va kpage w st = Some (st', b)"
  shows "touches st pd st'"
proof -
  have va: "is_user_vaddr va" using c by (auto simp: pagedir_set_page_def bind_eq_Some_iff)
  obtain st1 pte where l: "lookup_page pd va True st = Some (st1, pte)"
      and r: "(if pte \<noteq> 0 then do { c_assert (rd st1 pte AND PTE_P = 0); e \<leftarrow> pte_create_user kpage w; Some (wr st1 pte e, True) }
        else Some (st1, False)) = Some (st', b)"
    using c by (auto simp: pagedir_set_page_def bind_eq_Some_iff)
  note t = lookup_page_touches [OF wf va l]
  then have wf1: "wf_pd st1 pd" by (simp add: touches_def)
  show ?thesis
  proof (cases "pte = 0")
    case True
    then show ?thesis using r t by simp
  next
    case False
    have "pte = pte_addr st1 pd va"
      using lookup_page_create [OF wf va] l False by auto
    then show ?thesis using r touches_trans [OF t touches_wr [OF wf1 va]] False by (auto simp: bind_eq_Some_iff)
  qed
qed


section \<open>Destroying a directory\<close>

lemma free_kernel_page:
  assumes ok: "palloc_ok p" and q: "pg_ofs q = 0" "is_kernel_vaddr q" "page_of q \<in> in_use (kernel_pool p)"
  shows "\<exists>p'. palloc_free_page q p = Some p' \<and> palloc_ok p' \<and> in_use (kernel_pool p') = in_use (kernel_pool p) - {page_of q} \<and>
    user_pool p' = user_pool p \<and> agree (- {page_of q}) (mem p) (mem p')"
proof -
  have "q \<noteq> 0" using q(2) by (auto simp: is_kernel_vaddr_def PHYS_BASE_def)
  moreover have run: "page_run q 1 = {page_of q}" by (auto simp: page_run_def page_of_def)
  ultimately obtain p' where p': "palloc_free_multiple q 1 p = Some p'" "palloc_ok p'"
      "in_use (select_pool False p') = in_use (select_pool False p) - {page_of q}" "select_pool (\<not> False) p' = select_pool (\<not> False) p"
      "mem p' = memset_words (mem p) q 0xcccccccc (PGSIZE * 1)"
    using palloc_free_multiple_in_use [OF ok _ q(1), of 1 False] q(3) by (auto simp: select_pool_def)
  have "agree (- {page_of q}) (mem p) (mem p')"
    using same_page [OF q(1)] by (auto simp: agree_def p'(5) memset_words_def PGSIZE_def PGBITS_def)
  then show ?thesis using p' by (auto simp: palloc_free_page_def select_pool_def)
qed

text \<open>The page tables of the first \<open>i\<close> slots.\<close>

definition tables :: "pd_state \<Rightarrow> u32 \<Rightarrow> nat \<Rightarrow> nat set" where
  "tables st pd i = {page_of pt | j pt. j < i \<and> table st pd (of_nat j) = Some pt}"

lemma tables_Suc: "tables st pd (Suc i) = tables st pd i \<union> (case table st pd (of_nat i) of None \<Rightarrow> {} | Some pt \<Rightarrow> {page_of pt})"
  by (auto simp: tables_def less_Suc_eq split: option.splits)

lemma tables_all: "pd_pages st pd = insert (page_of pd) (tables st pd 768)"
proof -
  have "(\<exists>i < 768. table st pd i = Some pt) \<longleftrightarrow> (\<exists>j < 768. table st pd (of_nat j) = Some pt)" for pt
  proof
    assume "\<exists>i < 768. table st pd i = Some pt"
    then obtain i where "unat i < 768" "table st pd i = Some pt" by (auto simp: word_less_nat_alt)
    then show "\<exists>j < 768. table st pd (of_nat j) = Some pt" by (intro exI [of _ "unat i"]) simp
  next
    assume "\<exists>j < 768. table st pd (of_nat j) = Some pt"
    then obtain j :: nat where "j < 768" "table st pd (of_nat j) = Some pt" by blast
    then show "\<exists>i < 768. table st pd i = Some pt" by (intro exI [of _ "of_nat j"]) (simp add: word_less_nat_alt unat_of_nat)
  qed
  then show ?thesis unfolding pd_pages_def tables_def by blast
qed

definition partly_freed :: "pd_state \<Rightarrow> u32 \<Rightarrow> nat \<Rightarrow> pd_state \<Rightarrow> bool" where
  "partly_freed st0 pd i st \<longleftrightarrow> palloc_ok (pal st) \<and> in_use (kernel_pool (pal st)) = in_use (kernel_pool (pal st0)) - tables st0 pd i \<and>
     user_pool (pal st) = user_pool (pal st0) \<and> agree (- tables st0 pd i) (mem (pal st0)) (mem (pal st)) \<and>
     init_page_dir st = init_page_dir st0 \<and> init_ram_pages st = init_ram_pages st0 \<and> cr3 st = cr3 st0"

lemma destroy_step:
  assumes wf: "wf_pd st0 pd" and st: "partly_freed st0 pd i st" and i: "i < 768"
  shows "\<exists>st'. (if rd st (pd + 4 * of_nat i) AND PTE_P \<noteq> 0 then do {
      pt \<leftarrow> pde_get_pt (rd st (pd + 4 * of_nat i));
      p \<leftarrow> palloc_free_page pt (pal st);
      Some (st\<lparr>pal := p\<rparr>) } else Some st) = Some st' \<and> partly_freed st0 pd (Suc i) st'"
proof -
  define j :: u32 where "j = of_nat i"
  have j: "j < 768" "unat j = i" using i by (simp_all add: j_def word_less_nat_alt unat_of_nat)
  note p = st [unfolded partly_freed_def]
  have pd: "pg_ofs pd = 0" "page_of (pd + 4 * j) = page_of pd" using wf_pd_D(3) [OF wf] word_in_page(2) [OF _ slot_lt [OF j(1)]] by simp_all
  have inj: "j' = j" if "table st0 pd j' = Some pt" "table st0 pd j = Some pt" "j' < 768" for j' pt
    using wf that j(1) by (auto simp: wf_pd_def)
  have "page_of pd \<notin> tables st0 pd i"
  proof
    assume "page_of pd \<in> tables st0 pd i"
    then obtain k pt where k: "k < i" "table st0 pd (of_nat k) = Some pt" "page_of pd = page_of pt" by (auto simp: tables_def)
    have "(of_nat k :: u32) < 768" using k(1) i by (simp add: word_less_nat_alt unat_of_nat)
    then show False using wf_pd_table(3) [OF wf _ k(2)] k(3) by simp
  qed
  then have r: "rd st (pd + 4 * j) = slot st0 pd j" using p pd(2) by (simp add: agree_def slot_def)
  show ?thesis
  proof (cases "table st0 pd j")
    case None
    then have "slot st0 pd j = 0" using wf_pd_slot [OF wf j(1)] by blast
    then show ?thesis using st None r by (simp add: partly_freed_def tables_Suc j_def)
  next
    case (Some pt)
    note k = wf_pd_table [OF wf j(1) Some]
    have e: "slot st0 pd j \<noteq> 0" "pde_get_pt (slot st0 pd j) = Some pt" using Some by (auto simp: table_def split: if_splits)
    have "page_of pt \<notin> tables st0 pd i"
    proof
      assume "page_of pt \<in> tables st0 pd i"
      then obtain k' pt' where k': "k' < i" "table st0 pd (of_nat k') = Some pt'" "page_of pt = page_of pt'" by (auto simp: tables_def)
      have l: "(of_nat k' :: u32) < 768" "unat (of_nat k' :: u32) = k'" using k'(1) i by (simp_all add: word_less_nat_alt unat_of_nat)
      have "pt' = pt" using page_of_eq [of pt pt'] k'(3) k(1) wf_pd_table(1) [OF wf l(1) k'(2)] by (simp add: kernel_page_def)
      then have "(of_nat k' :: u32) = j" using inj [OF k'(2) _ l(1)] Some by simp
      then show False using l(2) j(2) k'(1) by simp
    qed
    then have u: "page_of pt \<in> in_use (kernel_pool (pal st))" using k(1) p by (simp add: kernel_page_def)
    obtain p' where p': "palloc_free_page pt (pal st) = Some p'" "palloc_ok p'" "in_use (kernel_pool p') = in_use (kernel_pool (pal st)) - {page_of pt}"
        "user_pool p' = user_pool (pal st)" "agree (- {page_of pt}) (mem (pal st)) (mem p')"
      using free_kernel_page [OF _ _ _ u] p k(1) by (auto simp: kernel_page_def)
    have t: "tables st0 pd (Suc i) = tables st0 pd i \<union> {page_of pt}" using Some by (simp add: tables_Suc j_def)
    have "agree (- tables st0 pd (Suc i)) (mem (pal st0)) (mem p')"
      unfolding t using agree_trans agree_subset [of _ "mem (pal st0)" "mem (pal st)"] agree_subset [OF p'(5)] p
      by (metis Compl_Un inf_le1 inf_le2)
    moreover have "in_use (kernel_pool p') = in_use (kernel_pool (pal st0)) - tables st0 pd (Suc i)" using p'(3) p by (auto simp: t)
    moreover have "slot st0 pd j AND PTE_P \<noteq> 0" using e(2) by (auto simp: pde_get_pt_def)
    ultimately show ?thesis using p p' e r by (intro exI [of _ "st\<lparr>pal := p'\<rparr>"]) (simp add: partly_freed_def j_def)
  qed
qed

lemma destroy_loop:
  "wf_pd st0 pd \<Longrightarrow> partly_freed st0 pd i st \<Longrightarrow> i + n = 768 \<Longrightarrow>
   \<exists>st'. pagedir_destroy_loop n (pd + 4 * of_nat i) st = Some st' \<and> partly_freed st0 pd 768 st'"
proof (induction n arbitrary: i st)
  case (Suc n)
  obtain st1 where st1: "(if rd st (pd + 4 * of_nat i) AND PTE_P \<noteq> 0 then do {
      pt \<leftarrow> pde_get_pt (rd st (pd + 4 * of_nat i));
      p \<leftarrow> palloc_free_page pt (pal st);
      Some (st\<lparr>pal := p\<rparr>) } else Some st) = Some st1" "partly_freed st0 pd (Suc i) st1"
    using destroy_step [OF Suc.prems(1,2)] Suc.prems(3) by auto
  have a: "pd + 4 * of_nat i + 4 = pd + 4 * of_nat (Suc i)" by (simp add: algebra_simps)
  show ?case using Suc.IH [OF Suc.prems(1) st1(2)] Suc.prems(3) st1(1) unfolding a [symmetric] by simp
qed auto

lemma pagedir_destroy_ok:
  assumes wf: "wf_pd st pd"
  shows "\<exists>st'. pagedir_destroy pd st = Some st' \<and> palloc_ok (pal st') \<and>
    in_use (kernel_pool (pal st')) = in_use (kernel_pool (pal st)) - pd_pages st pd \<and> user_pool (pal st') = user_pool (pal st) \<and>
    agree (- pd_pages st pd) (mem (pal st)) (mem (pal st')) \<and>
    init_page_dir st' = init_page_dir st \<and> init_ram_pages st' = init_ram_pages st \<and> cr3 st' = cr3 st"
proof -
  have "partly_freed st pd 0 st" using wf_pd_D(1) [OF wf] by (simp add: partly_freed_def tables_def)
  then obtain st1 where st1: "pagedir_destroy_loop 768 pd st = Some st1" "partly_freed st pd 768 st1"
    using destroy_loop [OF wf, of 0 st 768] by auto
  note p = st1(2) [unfolded partly_freed_def]
  have "page_of pd \<notin> tables st pd 768"
  proof
    assume "page_of pd \<in> tables st pd 768"
    then obtain k pt where k: "k < 768" "table st pd (of_nat k) = Some pt" "page_of pd = page_of pt" by (auto simp: tables_def)
    have "(of_nat k :: u32) < 768" using k(1) by (simp add: word_less_nat_alt unat_of_nat)
    then show False using wf_pd_table(3) [OF wf _ k(2)] k(3) by simp
  qed
  then have u: "page_of pd \<in> in_use (kernel_pool (pal st1))" using wf_pd_D(2) [OF wf] p by (simp add: kernel_page_def)
  obtain p' where p': "palloc_free_page pd (pal st1) = Some p'" "palloc_ok p'" "in_use (kernel_pool p') = in_use (kernel_pool (pal st1)) - {page_of pd}"
      "user_pool p' = user_pool (pal st1)" "agree (- {page_of pd}) (mem (pal st1)) (mem p')"
    using free_kernel_page [OF _ _ _ u] p wf_pd_D(2) [OF wf] by (auto simp: kernel_page_def)
  have n: "unat (pd_no PHYS_BASE) = 768" by (simp add: unat_pd_no PHYS_BASE_def)
  have "agree (- pd_pages st pd) (mem (pal st)) (mem p')"
    unfolding tables_all using agree_trans agree_subset [of _ "mem (pal st)" "mem (pal st1)"] agree_subset [OF p'(5)] p
    by (metis (no_types, lifting) Compl_Un inf_le1 inf_le2 insert_is_Un)
  moreover have "in_use (kernel_pool p') = in_use (kernel_pool (pal st)) - pd_pages st pd" using p'(3) p by (auto simp: tables_all)
  ultimately show ?thesis
    using st1(1) p p' wf_pd_D(4,5) [OF wf] by (intro exI [of _ "st1\<lparr>pal := p'\<rparr>"]) (simp add: pagedir_destroy_def n)
qed

end
