(* ===== verification/Swap.thy ===== *)
theory Swap
  imports Spaces Inode Hash
begin

text \<open>
  \<^verbatim>\<open>vm/swap.c\<close> and the state of the virtual memory system that it shares with \<^verbatim>\<open>vm/frames.c\<close> and
  \<^verbatim>\<open>vm/page.c\<close>.
\<close>

section \<open>State\<close>

definition IN_FRAME :: int where "IN_FRAME = 1"
definition IN_SWAP :: int where "IN_SWAP = 2"
definition IN_FILESYS :: int where "IN_FILESYS = 3"

text \<open>\<open>struct page_t\<close>; its hash element is the pointer to the structure itself.\<close>

record vpage =
  pg_upage :: u32
  pg_kpage :: u32
  pg_file :: "nat option"
  pg_writable :: bool
  page_read_bytes :: u32
  page_zero_bytes :: u32
  location :: int
  swap_location :: u32
  pg_offset :: u32
  pg_pagedir :: u32

record frame_table_elem =
  fr_kpage :: u32
  fr_upage :: u32
  fr_pagedir :: u32
  fr_page :: "nat option"

text \<open>
  What the virtual memory system uses of \<open>struct thread\<close>. An element of the supplemental page
  table is a pointer to a \<open>struct page_t\<close> together with the page's user address, which is set once
  by \<open>page_build\<close>; the functions of the hash table then need no access to memory.
\<close>

type_synonym page_ref = "nat \<times> u32"

record process =
  spt :: "page_ref hash option"
  pagedir :: u32
  esp :: u32

text \<open>
  \<open>mach\<close> has memory, the page allocator and the page directory register; \<open>vfs\<close> the file system, the
  block devices and the answers of \<open>malloc\<close>. The frame lock is either free or held by the thread
  that is running.
\<close>

record vm =
  mach :: pd_state
  vfs :: fs
  swap_block :: nat
  free_bitmap :: "bitmap option"
  vpages :: "nat \<rightharpoonup> vpage"
  frame_table :: "frame_table_elem list"
  occupancy :: int
  clock_pointer :: nat
  frame_lock :: bool
  procs :: "nat \<rightharpoonup> process"
  current :: nat

abbreviation ram :: "vm \<Rightarrow> u32 \<Rightarrow> u32" where
  "ram s \<equiv> mem (pal (mach s))"

abbreviation vdevs :: "vm \<Rightarrow> sector devices" where
  "vdevs s \<equiv> devs (vfs s)"

definition set_ram :: "(u32 \<Rightarrow> u32) \<Rightarrow> vm \<Rightarrow> vm" where
  "set_ram m s = s\<lparr>mach := (mach s)\<lparr>pal := (pal (mach s))\<lparr>mem := m\<rparr>\<rparr>\<rparr>"

definition set_devs :: "sector devices \<Rightarrow> vm \<Rightarrow> vm" where
  "set_devs d s = s\<lparr>vfs := (vfs s)\<lparr>devs := d\<rparr>\<rparr>"

definition set_page :: "nat \<Rightarrow> vpage \<Rightarrow> vm \<Rightarrow> vm" where
  "set_page p pg s = s\<lparr>vpages := (vpages s)(p \<mapsto> pg)\<rparr>"

definition vm_malloc :: "vm \<Rightarrow> vm \<times> nat option" where
  "vm_malloc s = (case fs_malloc (vfs s) of (f, p) \<Rightarrow> (s\<lparr>vfs := f\<rparr>, p))"

section \<open>Operations\<close>

text \<open>\<open>buf\<close> is the stale contents of the memory that the bitmap is allocated in.\<close>

definition swap_init :: "u32 list \<Rightarrow> vm \<Rightarrow> vm option" where
  "swap_init buf s = do {
     r \<leftarrow> block_get_role BLOCK_SWAP (vdevs s);
     b \<leftarrow> r;
     let s = s\<lparr>swap_block := b\<rparr>;
     n \<leftarrow> block_size b (vdevs s);
     let (s, hdr) = vm_malloc s;
     let (s, elems) = (if hdr = None then (s, None) else vm_malloc s);
     m \<leftarrow> bitmap_create (hdr \<noteq> None) (if elems = None then None else Some buf) (n * 512 div PGSIZE);
     Some (s\<lparr>free_bitmap := m\<rparr>) }"

text \<open>Converting the result of \<open>bitmap_scan\<close> to \<open>int\<close> and back does not change it.\<close>

definition swap_get_free :: "vm \<Rightarrow> (vm \<times> u32) option" where
  "swap_get_free s = do {
     b \<leftarrow> free_bitmap s;
     i \<leftarrow> bitmap_scan b 0 1 False;
     b \<leftarrow> bitmap_set b i True;
     Some (s\<lparr>free_bitmap := Some b\<rparr>, i * 8) }"

text \<open>A buffer below the kernel's addresses is a wild pointer.\<close>

primrec swap_read_loop :: "nat \<Rightarrow> u32 \<Rightarrow> u32 \<Rightarrow> vm \<Rightarrow> vm option" where
  "swap_read_loop 0 sector buffer s = Some s"
| "swap_read_loop (Suc n) sector buffer s = do {
     (d, bs) \<leftarrow> block_read (swap_block s) sector (vdevs s);
     let s = set_devs d s;
     c_assert (is_kernel_vaddr buffer);
     let s = set_ram (store_bytes (ram s) buffer bs) s;
     swap_read_loop n (sector + 1) (buffer + 512) s }"

definition swap_read :: "u32 \<Rightarrow> nat \<Rightarrow> vm \<Rightarrow> vm option" where
  "swap_read buffer p s = do {
     pg \<leftarrow> vpages s p;
     s \<leftarrow> swap_read_loop 8 (swap_location pg) buffer s;
     b \<leftarrow> free_bitmap s;
     b \<leftarrow> bitmap_set b (swap_location pg div 8) False;
     Some (set_page p (pg\<lparr>swap_location := - 1\<rparr>) (s\<lparr>free_bitmap := Some b\<rparr>)) }"

primrec swap_write_loop :: "nat \<Rightarrow> u32 \<Rightarrow> u32 \<Rightarrow> vm \<Rightarrow> vm option" where
  "swap_write_loop 0 sector buffer s = Some s"
| "swap_write_loop (Suc n) sector buffer s = do {
     c_assert (is_kernel_vaddr buffer);
     d \<leftarrow> block_write (swap_block s) sector (load_bytes (ram s) buffer 512) (vdevs s);
     swap_write_loop n (sector + 1) (buffer + 512) (set_devs d s) }"

definition swap_write :: "u32 \<Rightarrow> nat \<Rightarrow> vm \<Rightarrow> vm option" where
  "swap_write buffer p s = do {
     (s, sector) \<leftarrow> swap_get_free s;
     pg \<leftarrow> vpages s p;
     let s = set_page p (pg\<lparr>swap_location := sector\<rparr>) s;
     swap_write_loop 8 sector buffer s }"

section \<open>Devices\<close>

text \<open>The disks differ only where the sectors of device \<open>b\<close> are.\<close>

definition only_dev :: "nat \<Rightarrow> 's devices \<Rightarrow> 's devices \<Rightarrow> bool" where
  "only_dev b d d' \<longleftrightarrow> same_layout (all_blocks d) (all_blocks d') \<and> block_by_role d' = block_by_role d \<and>
     (\<forall>k q. (\<forall>t < bsize (all_blocks d ! b). place (all_blocks d) b t \<noteq> (k, q)) \<longrightarrow> disks d' k q = disks d k q)"

lemma only_dev_refl [simp]: "only_dev b d d"
  by (simp add: only_dev_def)

lemma only_dev_same_disks:
  "same_layout (all_blocks d) (all_blocks d') \<Longrightarrow> block_by_role d' = block_by_role d \<Longrightarrow> disks d' = disks d \<Longrightarrow> only_dev b d d'"
  by (simp add: only_dev_def)

lemma only_dev_trans:
  assumes "only_dev b d d'" "only_dev b d' d''" "b < length (all_blocks d)"
  shows "only_dev b d d''"
proof -
  have l: "same_layout (all_blocks d) (all_blocks d')" using assms(1) by (simp add: only_dev_def)
  then have "bsize (all_blocks d' ! b) = bsize (all_blocks d ! b)" "\<And>t. place (all_blocks d') b t = place (all_blocks d) b t"
    using assms(3) place_same_layout [OF l assms(3)] by (simp_all add: same_layout_def)
  then show ?thesis using assms(1,2) same_layout_trans [OF l] by (simp add: only_dev_def)
qed

lemma only_dev_ready: "only_dev b d d' \<Longrightarrow> device_ready c n d \<Longrightarrow> device_ready c n d'"
  by (simp add: only_dev_def device_ready_same_layout)

text \<open>Two devices that share no sector.\<close>

definition apart :: "'s devices \<Rightarrow> nat \<Rightarrow> nat \<Rightarrow> bool" where
  "apart d b c \<longleftrightarrow> (\<forall>s < bsize (all_blocks d ! b). \<forall>t < bsize (all_blocks d ! c).
     place (all_blocks d) b s \<noteq> place (all_blocks d) c t)"

lemma only_dev_apart:
  assumes "only_dev b d d'" "apart d b c" "c < length (all_blocks d)" "t < bsize (all_blocks d ! c)"
  shows "sector_of d' c t = sector_of d c t"
proof -
  obtain k q where p: "place (all_blocks d) c t = (k, q)" by fastforce
  then have "place (all_blocks d') c t = (k, q)"
    using place_same_layout [of "all_blocks d" "all_blocks d'" c t] assms(1,3) by (simp add: only_dev_def)
  moreover have "disks d' k q = disks d k q" using assms(1,2,4) p unfolding only_dev_def apart_def by metis
  ultimately show ?thesis by (simp add: sector_of_def p)
qed

lemma apart_only_dev:
  assumes "only_dev e d d'" "apart d b c" "b < length (all_blocks d)" "c < length (all_blocks d)"
  shows "apart d' b c"
proof -
  have l: "same_layout (all_blocks d) (all_blocks d')" using assms(1) by (simp add: only_dev_def)
  show ?thesis using assms(2-4) place_same_layout [OF l] l by (simp add: apart_def same_layout_def)
qed

lemma block_read_quiet:
  assumes "device_ready b n d" "s < n"
  shows "\<exists>d'. block_read b s d = Some (d', sector_of d b s) \<and> disks d' = disks d \<and>
    same_layout (all_blocks d) (all_blocks d') \<and> block_by_role d' = block_by_role d \<and> device_ready b n d'"
  using block_read_ok [of d b s] assms device_ready_same_layout [OF assms(1)] by (auto simp: device_ready_def)

lemma block_write_only:
  assumes "device_ready b n d" "s < n"
  shows "\<exists>d'. block_write b s x d = Some d' \<and> only_dev b d d' \<and> device_ready b n d' \<and>
    (\<forall>t < n. sector_of d' b t = (if t = s then x else sector_of d b t))"
proof -
  have r: "devices_ok d" "b < length (all_blocks d)" "s < bsize (all_blocks d ! b)" "btype (all_blocks d ! b) \<noteq> BLOCK_FOREIGN"
    using assms by (auto simp: device_ready_def)
  obtain d' where d': "block_write b s x d = Some d'"
      "disks d' = (let (k, p) = place (all_blocks d) b s in (disks d)(k := (disks d k)(p := x)))"
      "same_layout (all_blocks d) (all_blocks d')" "block_by_role d' = block_by_role d"
    using block_write_ok [OF r] by blast
  have "disks d' k q = disks d k q" if "\<forall>t < bsize (all_blocks d ! b). place (all_blocks d) b t \<noteq> (k, q)" for k q
    using that r(3) by (cases "place (all_blocks d) b s") (auto simp: d'(2))
  then have "only_dev b d d'" using d'(3,4) by (simp add: only_dev_def)
  then show ?thesis using d'(1) only_dev_ready [OF _ assms(1)] sector_of_write [OF assms _ d'(2,3)] by blast
qed

section \<open>The swap area\<close>

text \<open>The 4096 bytes of slot \<open>j\<close>.\<close>

definition slot_bytes :: "vm \<Rightarrow> nat \<Rightarrow> u8 list" where
  "slot_bytes s j = concat (map (\<lambda>i. sector_of (vdevs s) (swap_block s) (of_nat (8 * j + i))) [0 ..< 8])"

definition slots :: "vm \<Rightarrow> nat" where
  "slots s = (case free_bitmap s of None \<Rightarrow> 0 | Some b \<Rightarrow> unat (bit_cnt b))"

definition slots_used :: "vm \<Rightarrow> nat set" where
  "slots_used s = (case free_bitmap s of None \<Rightarrow> {} | Some b \<Rightarrow> marked b)"

definition swap_ok :: "vm \<Rightarrow> bool" where
  "swap_ok s \<longleftrightarrow> (\<exists>b n. free_bitmap s = Some b \<and> wf_bitmap b \<and> device_ready (swap_block s) n (vdevs s) \<and>
     8 * unat (bit_cnt b) \<le> unat n \<and> (\<forall>t < n. length (sector_of (vdevs s) (swap_block s) t) = 512))"

lemma set_simps [simp]:
  "mach (set_devs d s) = mach s" "vfs (set_devs d s) = (vfs s)\<lparr>devs := d\<rparr>" "swap_block (set_devs d s) = swap_block s"
  "free_bitmap (set_devs d s) = free_bitmap s" "vpages (set_devs d s) = vpages s" "frame_table (set_devs d s) = frame_table s"
  "occupancy (set_devs d s) = occupancy s" "clock_pointer (set_devs d s) = clock_pointer s"
  "frame_lock (set_devs d s) = frame_lock s" "procs (set_devs d s) = procs s" "current (set_devs d s) = current s"
  "mach (set_ram m s) = (mach s)\<lparr>pal := (pal (mach s))\<lparr>mem := m\<rparr>\<rparr>" "vfs (set_ram m s) = vfs s" "swap_block (set_ram m s) = swap_block s"
  "free_bitmap (set_ram m s) = free_bitmap s" "vpages (set_ram m s) = vpages s" "frame_table (set_ram m s) = frame_table s"
  "occupancy (set_ram m s) = occupancy s" "clock_pointer (set_ram m s) = clock_pointer s"
  "frame_lock (set_ram m s) = frame_lock s" "procs (set_ram m s) = procs s" "current (set_ram m s) = current s"
  "mach (set_page p pg s) = mach s" "vfs (set_page p pg s) = vfs s" "swap_block (set_page p pg s) = swap_block s"
  "free_bitmap (set_page p pg s) = free_bitmap s" "vpages (set_page p pg s) = (vpages s)(p \<mapsto> pg)"
  "frame_table (set_page p pg s) = frame_table s" "occupancy (set_page p pg s) = occupancy s"
  "clock_pointer (set_page p pg s) = clock_pointer s" "frame_lock (set_page p pg s) = frame_lock s"
  "procs (set_page p pg s) = procs s" "current (set_page p pg s) = current s"
  by (simp_all add: set_devs_def set_ram_def set_page_def)

lemma set_devs_simps [simp]: "set_devs d (set_devs d' s) = set_devs d s" "set_devs (vdevs s) s = s"
  by (simp_all add: set_devs_def)

lemma slot_bytes_cong: "vdevs s' = vdevs s \<Longrightarrow> swap_block s' = swap_block s \<Longrightarrow> slot_bytes s' j = slot_bytes s j"
  by (simp add: slot_bytes_def)

lemma marked_set:
  "bit_cnt b' = bit_cnt b \<Longrightarrow> bm b' = (bm b)[i := v] \<Longrightarrow> i < unat (bit_cnt b) \<Longrightarrow>
    marked b' = (if v then insert i (marked b) else marked b - {i})"
  by (auto simp: marked_def nth_list_update)

subsection \<open>Writing\<close>

lemma swap_get_free_ok:
  assumes "free_bitmap s = Some b" "wf_bitmap b" "j < unat (bit_cnt b)" "j \<notin> marked b"
  shows "\<exists>b' i. swap_get_free s = Some (s\<lparr>free_bitmap := Some b'\<rparr>, of_nat i * 8) \<and> wf_bitmap b' \<and> bit_cnt b' = bit_cnt b \<and>
    i < unat (bit_cnt b) \<and> i \<notin> marked b \<and> marked b' = insert i (marked b)"
proof -
  obtain r where r: "bitmap_scan b 0 1 False = Some r" "scan_result (bm b) False 1 0 r"
    using bitmap_scan_bm [OF assms(2), of 0 1 False] by auto
  have "run_at (bm b) False 1 j" using assms(3,4) by (auto simp: run_at_def marked_def less_Suc_eq_le le_antisym)
  then have i: "run_at (bm b) False 1 (unat r)" using r(2) by (auto simp: scan_result_def split: if_splits)
  then have lt: "unat r < unat (bit_cnt b)" "unat r \<notin> marked b" by (auto simp: run_at_def marked_def)
  obtain b' where b': "bitmap_set b r True = Some b'" "wf_bitmap b'" "bit_cnt b' = bit_cnt b" "bm b' = (bm b)[unat r := True]"
    using bitmap_set_bm [OF assms(2) lt(1)] by blast
  have "swap_get_free s = Some (s\<lparr>free_bitmap := Some b'\<rparr>, of_nat (unat r) * 8)"
    using assms(1) r(1) b'(1) by (simp add: swap_get_free_def)
  then show ?thesis using b'(2,3) lt marked_set [OF b'(3,4) lt(1)] by (intro exI [of _ b'] exI [of _ "unat r"]) simp
qed

lemma swap_get_free_full:
  assumes "free_bitmap s = Some b" "wf_bitmap b" "{..<unat (bit_cnt b)} \<subseteq> marked b"
  shows "swap_get_free s = None"
proof -
  obtain r where r: "bitmap_scan b 0 1 False = Some r" "scan_result (bm b) False 1 0 r"
    using bitmap_scan_bm [OF assms(2), of 0 1 False] by auto
  have "\<not> run_at (bm b) False 1 i" for i using assms(3) by (auto simp: run_at_def marked_def subset_eq)
  then have "r = BITMAP_ERROR" using r(2) by (auto simp: scan_result_def split: if_splits)
  moreover have "\<not> BITMAP_ERROR < bit_cnt b" by (simp add: BITMAP_ERROR_def)
  ultimately show ?thesis using assms(1) r(1) bitmap_set_out_of_range by (simp add: swap_get_free_def)
qed

lemma slot_sectors:
  assumes "8 * c \<le> unat (n :: u32)" "j < c" "i < 8"
  shows "unat (of_nat (8 * j + i) :: u32) = 8 * j + i" "of_nat (8 * j + i) < n"
proof -
  have "8 * j + i < unat n" using assms by simp
  then show "unat (of_nat (8 * j + i) :: u32) = 8 * j + i" "of_nat (8 * j + i) < n"
    using u32_unat_bound [of n] by (simp_all only: unat_of_nat word_less_nat_alt) simp_all
qed

lemma swap_write_loop_ok:
  assumes "device_ready (swap_block s) n (vdevs s)" "unat sector + m \<le> unat n"
    "pg_ofs p = 0" "is_kernel_vaddr p" "512 * k + 512 * m \<le> 4096"
  shows "\<exists>d. swap_write_loop m sector (p + of_nat (512 * k)) s = Some (set_devs d s) \<and> only_dev (swap_block s) (vdevs s) d \<and>
    device_ready (swap_block s) n d \<and>
    (\<forall>t < n. sector_of d (swap_block s) t = (if sector \<le> t \<and> unat t < unat sector + m
       then load_bytes (ram s) (p + of_nat (512 * (k + (unat t - unat sector)))) 512 else sector_of (vdevs s) (swap_block s) t))"
  using assms
proof (induction m arbitrary: sector k s)
  case 0
  then show ?case using only_dev_refl by (intro exI [of _ "vdevs s"]) (auto simp: word_le_nat_alt)
next
  case (Suc m)
  have lt: "sector < n" using Suc.prems(2) by (simp add: word_less_nat_alt)
  have su: "unat (sector + 1) = unat sector + 1" using Suc.prems(2) u32_unat_bound [of n] by (subst unat_plus_u32) simp_all
  have kv: "is_kernel_vaddr (p + of_nat (512 * k))"
    using Suc.prems(3-5) unat_in_page(1) [OF Suc.prems(3), of "512 * k"] by (simp add: is_kernel_vaddr_def word_le_nat_alt)
  obtain d where d: "block_write (swap_block s) sector (load_bytes (ram s) (p + of_nat (512 * k)) 512) (vdevs s) = Some d"
      "only_dev (swap_block s) (vdevs s) d" "device_ready (swap_block s) n d"
      "\<forall>t < n. sector_of d (swap_block s) t = (if t = sector then load_bytes (ram s) (p + of_nat (512 * k)) 512
         else sector_of (vdevs s) (swap_block s) t)"
    using block_write_only [OF Suc.prems(1) lt] by blast
  have nx: "p + of_nat (512 * k) + 512 = p + of_nat (512 * Suc k)" by (simp add: algebra_simps)
  obtain d' where d': "swap_write_loop m (sector + 1) (p + of_nat (512 * Suc k)) (set_devs d s) = Some (set_devs d' (set_devs d s))"
      "only_dev (swap_block s) d d'" "device_ready (swap_block s) n d'"
      "\<forall>t < n. sector_of d' (swap_block s) t = (if sector + 1 \<le> t \<and> unat t < unat (sector + 1) + m
       then load_bytes (ram s) (p + of_nat (512 * (Suc k + (unat t - unat (sector + 1))))) 512 else sector_of d (swap_block s) t)"
    using Suc.IH [of "set_devs d s" "sector + 1" "Suc k"] Suc.prems(2-5) d(3) su by auto
  have "swap_write_loop (Suc m) sector (p + of_nat (512 * k)) s = Some (set_devs d' s)"
    using kv d(1) d'(1) by (simp only: swap_write_loop.simps nx [symmetric]) simp
  moreover have "only_dev (swap_block s) (vdevs s) d'"
    using only_dev_trans [OF d(2) d'(2)] Suc.prems(1) by (simp add: device_ready_def)
  moreover have "sector_of d' (swap_block s) t = (if sector \<le> t \<and> unat t < unat sector + Suc m
       then load_bytes (ram s) (p + of_nat (512 * (k + (unat t - unat sector)))) 512 else sector_of (vdevs s) (swap_block s) t)"
    if "t < n" for t
  proof -
    consider "t = sector" | "unat sector < unat t" | "unat t < unat sector"
      by (metis linorder_neqE_nat word_unat_eq_iff)
    then show ?thesis
    proof cases
      case 1
      then show ?thesis using d'(4) d(4) that su by (auto simp: word_le_nat_alt)
    next
      case 2
      then have "Suc k + (unat t - unat (sector + 1)) = k + (unat t - unat sector)" using su by simp
      moreover have "t \<noteq> sector" using 2 by auto
      ultimately show ?thesis using d'(4) d(4) that su 2 by (simp add: word_le_nat_alt)
    next
      case 3
      moreover have "t \<noteq> sector" using 3 by auto
      ultimately show ?thesis using d'(4) d(4) that su by (auto simp: word_le_nat_alt)
    qed
  qed
  ultimately show ?case using d'(3) by blast
qed

lemma load_bytes_add: "load_bytes m p (a + b) = load_bytes m p a @ load_bytes m (p + of_nat a) b"
  by (rule nth_equalityI) (auto simp: load_bytes_def nth_append add.assoc simp flip: of_nat_add)

lemma page_in_chunks:
  assumes "\<And>i. i < 8 \<Longrightarrow> f i = load_bytes m (p + of_nat (512 * i)) 512"
  shows "concat (map f [0 ..< 8]) = page_bytes m p"
proof -
  have "concat (map (\<lambda>i. load_bytes m (p + of_nat (512 * i)) 512) [0 ..< k]) = load_bytes m p (512 * k)" for k
  proof (induction k)
    case (Suc k)
    have "load_bytes m p (512 * k + 512) = load_bytes m p (512 * k) @ load_bytes m (p + of_nat (512 * k)) 512"
      by (rule load_bytes_add)
    then show ?case using Suc by (simp add: add.commute)
  qed (simp add: load_bytes_def)
  moreover have "map f [0 ..< 8] = map (\<lambda>i. load_bytes m (p + of_nat (512 * i)) 512) [0 ..< 8]"
    using assms by (intro map_cong) auto
  moreover have "512 * 8 = (4096 :: nat)" by simp
  ultimately show ?thesis by metis
qed

lemma swap_okD:
  assumes "swap_ok s"
  obtains b n where "free_bitmap s = Some b" "wf_bitmap b" "device_ready (swap_block s) n (vdevs s)"
    "8 * unat (bit_cnt b) \<le> unat n" "\<forall>t < n. length (sector_of (vdevs s) (swap_block s) t) = 512"
    "slots s = unat (bit_cnt b)" "slots_used s = marked b"
  using assms by (auto simp: swap_ok_def slots_def slots_used_def)

lemma slots_used_bound: "swap_ok s \<Longrightarrow> j \<in> slots_used s \<Longrightarrow> j < slots s"
  by (elim swap_okD) (auto simp: marked_def)

lemma swap_write_ok:
  assumes ok: "swap_ok s" and pg: "vpages s p = Some pg" and k: "pg_ofs k = 0" "is_kernel_vaddr k"
    and free: "j0 < slots s" "j0 \<notin> slots_used s"
  shows "\<exists>j d b. swap_write k p s = Some (set_page p (pg\<lparr>swap_location := of_nat (8 * j)\<rparr>) (set_devs d (s\<lparr>free_bitmap := Some b\<rparr>))) \<and>
    only_dev (swap_block s) (vdevs s) d \<and> swap_ok (set_devs d (s\<lparr>free_bitmap := Some b\<rparr>)) \<and>
    j < slots s \<and> j \<notin> slots_used s \<and> marked b = insert j (slots_used s) \<and> unat (bit_cnt b) = slots s \<and>
    (\<forall>i < slots s. slot_bytes (set_devs d s) i = (if i = j then page_bytes (ram s) k else slot_bytes s i))"
proof -
  obtain b n where b: "free_bitmap s = Some b" "wf_bitmap b" "device_ready (swap_block s) n (vdevs s)"
      "8 * unat (bit_cnt b) \<le> unat n" "\<forall>t < n. length (sector_of (vdevs s) (swap_block s) t) = 512"
      "slots s = unat (bit_cnt b)" "slots_used s = marked b"
    using ok by (elim swap_okD)
  obtain b' j where g: "swap_get_free s = Some (s\<lparr>free_bitmap := Some b'\<rparr>, of_nat j * 8)" "wf_bitmap b'" "bit_cnt b' = bit_cnt b"
      "j < unat (bit_cnt b)" "j \<notin> marked b" "marked b' = insert j (marked b)"
    using swap_get_free_ok [OF b(1,2), of j0] free b(6,7) by metis
  define sec where "sec = (of_nat (8 * j) :: u32)"
  have sec: "unat sec = 8 * j" using slot_sectors(1) [OF b(4) g(4), of 0] by (simp add: sec_def)
  let ?pg = "pg\<lparr>swap_location := sec\<rparr>" and ?s1 = "s\<lparr>free_bitmap := Some b'\<rparr>"
  let ?s = "set_page p ?pg ?s1"
  have fit: "unat sec + 8 \<le> unat n" using sec b(4) g(4) by simp
  obtain d where d: "swap_write_loop 8 sec (k + of_nat (512 * 0)) ?s = Some (set_devs d ?s)"
      "only_dev (swap_block s) (vdevs s) d" "device_ready (swap_block s) n d"
      "\<forall>t < n. sector_of d (swap_block s) t = (if sec \<le> t \<and> unat t < unat sec + 8
         then load_bytes (ram s) (k + of_nat (512 * (0 + (unat t - unat sec)))) 512 else sector_of (vdevs s) (swap_block s) t)"
    using swap_write_loop_ok [of ?s n sec 8 k 0] b(3) fit k by auto
  have "swap_write k p s = Some (set_devs d ?s)"
    using g(1) pg d(1) by (simp add: swap_write_def sec_def mult.commute)
  moreover have "set_devs d ?s = set_page p ?pg (set_devs d ?s1)" by (simp add: set_devs_def set_page_def)
  moreover have "swap_ok (set_devs d ?s1)"
    using g(2,3) b(4,5) d(3,4) by (auto simp: swap_ok_def load_bytes_def)
  moreover have "slot_bytes (set_devs d s) i = (if i = j then page_bytes (ram s) k else slot_bytes s i)" if "i < slots s" for i
  proof -
    have t: "unat (of_nat (8 * i + h) :: u32) = 8 * i + h" "of_nat (8 * i + h) < n" if "h < 8" for h
      using slot_sectors [OF b(4) _ that] \<open>i < slots s\<close> b(6) by simp_all
    have sect: "sector_of d (swap_block s) (of_nat (8 * i + h)) =
        (if i = j then load_bytes (ram s) (k + of_nat (512 * h)) 512 else sector_of (vdevs s) (swap_block s) (of_nat (8 * i + h)))"
      if "h < 8" for h
    proof -
      have "(8 * j \<le> 8 * i + h \<and> 8 * i + h < 8 * j + 8) \<longleftrightarrow> i = j" using that by auto
      then have "sector_of d (swap_block s) (of_nat (8 * i + h)) =
          (if i = j then load_bytes (ram s) (k + of_nat (512 * (8 * i + h - 8 * j))) 512 else sector_of (vdevs s) (swap_block s) (of_nat (8 * i + h)))"
        using d(4) [rule_format, OF t(2) [OF that]] unfolding word_le_nat_alt t(1) [OF that] sec by simp
      then show ?thesis by (cases "i = j") auto
    qed
    show ?thesis
    proof (cases "i = j")
      case True
      have "slot_bytes (set_devs d s) i = page_bytes (ram s) k"
        unfolding slot_bytes_def by (rule page_in_chunks) (use sect True in simp)
      then show ?thesis using True by simp
    next
      case False
      have "map (\<lambda>h. sector_of (vdevs (set_devs d s)) (swap_block (set_devs d s)) (of_nat (8 * i + h))) [0..<8] = map (\<lambda>h. sector_of (vdevs s) (swap_block s) (of_nat (8 * i + h))) [0..<8]"
        using sect False by (intro map_cong) auto
      then show ?thesis using False by (simp only: slot_bytes_def if_False)
    qed
  qed
  ultimately show ?thesis
    using d(2) g(3-6) b(6,7) unfolding sec_def
    by (intro exI [of _ j] exI [of _ d] exI [of _ b']) simp
qed

lemma swap_write_full:
  assumes "swap_ok s" "{..<slots s} \<subseteq> slots_used s"
  shows "swap_write k p s = None"
  using assms(1)
  by (elim swap_okD) (use assms(2) swap_get_free_full in \<open>simp add: swap_write_def\<close>)

subsection \<open>Reading\<close>

lemma length_concat_const: "(\<And>i. i < m \<Longrightarrow> length (f i) = c) \<Longrightarrow> length (concat (map f [0 ..< m])) = c * m"
  by (induction m) (simp_all add: algebra_simps)

lemma swap_read_loop_ok:
  assumes "device_ready (swap_block s) n (vdevs s)" "unat sector + m \<le> unat n"
    "\<forall>t < n. length (sector_of (vdevs s) (swap_block s) t) = 512"
    "pg_ofs p = 0" "is_kernel_vaddr p" "512 * k + 512 * m \<le> 4096"
  shows "\<exists>d r. swap_read_loop m sector (p + of_nat (512 * k)) s = Some (set_ram r (set_devs d s)) \<and>
    disks d = disks (vdevs s) \<and> same_layout (all_blocks (vdevs s)) (all_blocks d) \<and> block_by_role d = block_by_role (vdevs s) \<and>
    device_ready (swap_block s) n d \<and> agree (- {page_of p}) (ram s) r \<and>
    page_bytes r p = splice (page_bytes (ram s) p) (512 * k)
      (concat (map (\<lambda>i. sector_of (vdevs s) (swap_block s) (sector + of_nat i)) [0 ..< m]))"
  using assms
proof (induction m arbitrary: sector k s)
  case 0
  have "set_ram (ram s) (set_devs (vdevs s) s) = s" by (simp add: set_ram_def)
  then show ?case using 0 by (intro exI [of _ "vdevs s"] exI [of _ "ram s"]) simp
next
  case (Suc m)
  have lt: "sector < n" using Suc.prems(2) by (simp add: word_less_nat_alt)
  have su: "unat (sector + 1) = unat sector + 1" using Suc.prems(2) u32_unat_bound [of n] by (subst unat_plus_u32) simp_all
  define a where "a = p + of_nat (512 * k)"
  have kv: "is_kernel_vaddr a"
    using Suc.prems(4-6) unat_in_page(1) [OF Suc.prems(4), of "512 * k"] by (simp add: is_kernel_vaddr_def word_le_nat_alt a_def)
  define bs where "bs = sector_of (vdevs s) (swap_block s) sector"
  have bs: "length bs = 512" using Suc.prems(3) lt by (simp add: bs_def)
  obtain d where d: "block_read (swap_block s) sector (vdevs s) = Some (d, bs)" "disks d = disks (vdevs s)"
      "same_layout (all_blocks (vdevs s)) (all_blocks d)" "block_by_role d = block_by_role (vdevs s)" "device_ready (swap_block s) n d"
    using block_read_quiet [OF Suc.prems(1) lt] by (auto simp: bs_def)
  have sect: "sector_of d (swap_block s) t = sector_of (vdevs s) (swap_block s) t" for t
    using d(2) place_same_layout [OF d(3)] Suc.prems(1) by (simp add: sector_of_def device_ready_def)
  define m1 where "m1 = store_bytes (ram s) a bs"
  define s1 where "s1 = set_ram m1 (set_devs d s)"
  have off: "512 * k + length bs \<le> 4096" using Suc.prems(6) bs by simp
  have m1: "agree (- {page_of p}) (ram s) m1" "page_bytes m1 p = splice (page_bytes (ram s) p) (512 * k) bs"
    using store_agree [OF Suc.prems(4) off, of "- {page_of p}" "ram s"] page_bytes_store [OF Suc.prems(4) off, of "ram s"]
    by (simp_all add: m1_def a_def)
  have s1: "ram s1 = m1" "vdevs s1 = d" "swap_block s1 = swap_block s" by (simp_all add: s1_def)
  have "\<exists>d' r. swap_read_loop m (sector + 1) (p + of_nat (512 * Suc k)) s1 = Some (set_ram r (set_devs d' s1)) \<and>
    disks d' = disks (vdevs s1) \<and> same_layout (all_blocks (vdevs s1)) (all_blocks d') \<and> block_by_role d' = block_by_role (vdevs s1) \<and>
    device_ready (swap_block s1) n d' \<and> agree (- {page_of p}) (ram s1) r \<and>
    page_bytes r p = splice (page_bytes (ram s1) p) (512 * Suc k)
      (concat (map (\<lambda>i. sector_of (vdevs s1) (swap_block s1) (sector + 1 + of_nat i)) [0 ..< m]))"
    using Suc.IH [of s1 "sector + 1" "Suc k"] Suc.prems(2-6) d(5) su sect s1 by simp
  then obtain d' r where d': "swap_read_loop m (sector + 1) (p + of_nat (512 * Suc k)) s1 = Some (set_ram r (set_devs d' s1))"
    "disks d' = disks d" "same_layout (all_blocks d) (all_blocks d')" "block_by_role d' = block_by_role d"
    "device_ready (swap_block s) n d'" "agree (- {page_of p}) m1 r"
    "page_bytes r p = splice (page_bytes m1 p) (512 * Suc k)
      (concat (map (\<lambda>i. sector_of (vdevs s) (swap_block s) (sector + 1 + of_nat i)) [0 ..< m]))"
    using s1 sect by auto
  have nx: "a + 512 = p + of_nat (512 * Suc k)" by (simp add: algebra_simps a_def)
  have "set_ram r (set_devs d' s1) = set_ram r (set_devs d' s)" by (simp add: s1_def set_ram_def set_devs_def)
  then have "swap_read_loop (Suc m) sector a s = Some (set_ram r (set_devs d' s))"
    using kv d(1) d'(1) by (simp add: nx flip: s1_def m1_def)
  moreover have "concat (map (\<lambda>i. sector_of (vdevs s) (swap_block s) (sector + of_nat i)) [0 ..< Suc m]) =
      bs @ concat (map (\<lambda>i. sector_of (vdevs s) (swap_block s) (sector + 1 + of_nat i)) [0 ..< m])"
  proof -
    have "[0 ..< Suc m] = 0 # map Suc [0 ..< m]" by (simp add: map_Suc_upt upt_conv_Cons)
    then show ?thesis by (simp add: bs_def o_def add.assoc del: upt_Suc)
  qed
  moreover have len: "length (concat (map (\<lambda>i. sector_of (vdevs s) (swap_block s) (sector + 1 + of_nat i)) [0 ..< m])) = 512 * m"
  proof (rule length_concat_const)
    fix i assume i: "i < m"
    have "unat (of_nat i :: u32) = i" using i Suc.prems(2) u32_unat_bound [of n] by (simp add: unat_of_nat)
    then have "unat (sector + 1 + of_nat i) = unat sector + 1 + i"
      using i su Suc.prems(2) u32_unat_bound [of n] by (subst unat_plus_u32) simp_all
    then show "length (sector_of (vdevs s) (swap_block s) (sector + 1 + of_nat i)) = 512"
      using Suc.prems(2,3) i by (simp add: word_less_nat_alt)
  qed
  moreover have "page_bytes r p = splice (page_bytes (ram s) p) (512 * k)
      (bs @ concat (map (\<lambda>i. sector_of (vdevs s) (swap_block s) (sector + 1 + of_nat i)) [0 ..< m]))"
    using d'(7) m1(2) splice_splice [of "512 * k" bs _ "page_bytes (ram s) p"] bs len Suc.prems(6) by (simp add: add.commute)
  ultimately show ?case
    using d'(2-6) d(2-4) agree_trans [OF m1(1) d'(6)] same_layout_trans [OF d(3) d'(3)] unfolding a_def by auto
qed

lemma slot_sector_sum: "of_nat (8 * j) + of_nat i = (of_nat (8 * j + i) :: u32)"
  by simp

lemma swap_read_ok:
  assumes ok: "swap_ok s" and pg: "vpages s p = Some pg" "swap_location pg = of_nat (8 * j)" and j: "j < slots s"
    and k: "pg_ofs k = 0" "is_kernel_vaddr k"
  shows "\<exists>d r b. swap_read k p s = Some (set_page p (pg\<lparr>swap_location := - 1\<rparr>) (set_ram r (set_devs d (s\<lparr>free_bitmap := Some b\<rparr>)))) \<and>
    disks d = disks (vdevs s) \<and> same_layout (all_blocks (vdevs s)) (all_blocks d) \<and> block_by_role d = block_by_role (vdevs s) \<and>
    swap_ok (set_devs d (s\<lparr>free_bitmap := Some b\<rparr>)) \<and> marked b = slots_used s - {j} \<and> unat (bit_cnt b) = slots s \<and>
    agree (- {page_of k}) (ram s) r \<and> page_bytes r k = slot_bytes s j"
proof -
  obtain b n where b: "free_bitmap s = Some b" "wf_bitmap b" "device_ready (swap_block s) n (vdevs s)"
      "8 * unat (bit_cnt b) \<le> unat n" "\<forall>t < n. length (sector_of (vdevs s) (swap_block s) t) = 512"
      "slots s = unat (bit_cnt b)" "slots_used s = marked b"
    using ok by (elim swap_okD)
  define sec where "sec = (of_nat (8 * j) :: u32)"
  have jb: "j < unat (bit_cnt b)" using j b(6) by simp
  have sec: "unat sec = 8 * j" using slot_sectors(1) [OF b(4) jb, of 0] by (simp add: sec_def)
  then have fit: "unat sec + 8 \<le> unat n" using b(4) jb by simp
  have idx: "unat (sec div 8) = j" using sec by (simp add: unat_div)
  obtain d r where d: "swap_read_loop 8 sec (k + of_nat (512 * 0)) s = Some (set_ram r (set_devs d s))"
      "disks d = disks (vdevs s)" "same_layout (all_blocks (vdevs s)) (all_blocks d)" "block_by_role d = block_by_role (vdevs s)"
      "device_ready (swap_block s) n d" "agree (- {page_of k}) (ram s) r"
      "page_bytes r k = splice (page_bytes (ram s) k) (512 * 0)
        (concat (map (\<lambda>i. sector_of (vdevs s) (swap_block s) (sec + of_nat i)) [0 ..< 8]))"
    using swap_read_loop_ok [OF b(3) fit b(5) k, of 0] by auto
  obtain b' where b': "bitmap_set b (sec div 8) False = Some b'" "wf_bitmap b'" "bit_cnt b' = bit_cnt b" "bm b' = (bm b)[j := False]"
    using bitmap_set_bm [OF b(2), of "sec div 8" False] idx jb by auto
  have "sector_of d (swap_block s) t = sector_of (vdevs s) (swap_block s) t" for t
    using d(2) place_same_layout [OF d(3)] b(3) by (simp add: sector_of_def device_ready_def)
  then have ok': "swap_ok (set_devs d (s\<lparr>free_bitmap := Some b'\<rparr>))" using b' b(4,5) d(5) by (auto simp: swap_ok_def)
  have "concat (map (\<lambda>i. sector_of (vdevs s) (swap_block s) (sec + of_nat i)) [0 ..< 8]) = slot_bytes s j"
    unfolding slot_bytes_def sec_def slot_sector_sum ..
  moreover have "length (slot_bytes s j) = 512 * 8"
    unfolding slot_bytes_def by (rule length_concat_const) (use b(5) slot_sectors(2) [OF b(4) jb] in blast)
  ultimately have "page_bytes r k = slot_bytes s j" using d(7) by (simp add: splice_def)
  moreover have "swap_read k p s =
      Some (set_page p (pg\<lparr>swap_location := - 1\<rparr>) (set_ram r (set_devs d (s\<lparr>free_bitmap := Some b'\<rparr>))))"
    using pg d(1) b(1) b'(1) unfolding swap_read_def sec_def [symmetric]
    by (simp add: set_ram_def set_devs_def set_page_def)
  ultimately show ?thesis
    using d(2-4,6) marked_set [OF b'(3,4) jb] b'(3) b(6,7) ok'
    by (intro exI [of _ d] exI [of _ r] exI [of _ b']) simp
qed

section \<open>Properties\<close>

text \<open>
  A machine with a swap disk of 24 sectors whose first slot is in use, and a page descriptor at
  address 1.
\<close>

definition example_swap :: vm where
  "example_swap = \<lparr>mach = example_pd_state,
     vfs = \<lparr>devs = \<lparr>all_blocks = [\<lparr>bname = ''hdb'', btype = BLOCK_SWAP, bsize = 24, ops = DiskOps 0, read_cnt = 0, write_cnt = 0\<rparr>],
         block_by_role = (\<lambda>_. None)(BLOCK_SWAP := Some 0), disks = (\<lambda>_ _. replicate 512 0)\<rparr>,
       fs_device = 0, inodes = (\<lambda>_. None), open_inodes = [], files = (\<lambda>_. None), free_map = \<lparr>bit_cnt = 0, bits = []\<rparr>,
       free_map_file = None, malloc_ok = (\<lambda>_. True), next_addr = 2\<rparr>,
     swap_block = 0, free_bitmap = Some \<lparr>bit_cnt = 3, bits = [1]\<rparr>,
     vpages = [1 \<mapsto> \<lparr>pg_upage = 0x08048000, pg_kpage = 0xc0202000, pg_file = None, pg_writable = True, page_read_bytes = 0,
       page_zero_bytes = 0, location = IN_FRAME, swap_location = - 1, pg_offset = 0, pg_pagedir = 0xc0100000\<rparr>],
     frame_table = [], occupancy = 0, clock_pointer = 25, frame_lock = False, procs = (\<lambda>_. None), current = 0\<rparr>"

lemma example_swap_ok: "swap_ok example_swap" "slots example_swap = 3" "1 < slots example_swap" "1 \<notin> slots_used example_swap"
  by (auto simp: swap_ok_def example_swap_def wf_bitmap_def device_ready_def devices_ok_def block_ok_def sector_of_def
      place.simps slots_def slots_used_def marked_def bm_def)

text \<open>C20: a page written to swap is read back. With a free slot, writing the page in frame \<open>k\<close> to
  swap succeeds; reading it back into any frame \<open>k'\<close>, after any change to memory, fills that frame
  with the 4096 bytes that were in \<open>k\<close>, frees the slot again, and the other slots keep their bytes.\<close>

theorem swap_roundtrip:
  assumes "swap_ok s" "vpages s p = Some pg" "pg_ofs k = 0" "is_kernel_vaddr k" "pg_ofs k' = 0" "is_kernel_vaddr k'"
    "i < slots s" "i \<notin> slots_used s"
  shows "\<exists>s1 s2. swap_write k p s = Some s1 \<and> swap_read k' p (set_ram m s1) = Some s2 \<and>
    page_bytes (ram s2) k' = page_bytes (ram s) k \<and> agree (- {page_of k'}) m (ram s2) \<and>
    slots_used s2 = slots_used s \<and> (\<forall>j \<in> slots_used s. slot_bytes s2 j = slot_bytes s j)"
proof -
  obtain j d b where w: "swap_write k p s = Some (set_page p (pg\<lparr>swap_location := of_nat (8 * j)\<rparr>) (set_devs d (s\<lparr>free_bitmap := Some b\<rparr>)))"
      "swap_ok (set_devs d (s\<lparr>free_bitmap := Some b\<rparr>))" "j < slots s" "j \<notin> slots_used s" "marked b = insert j (slots_used s)"
      "unat (bit_cnt b) = slots s"
      "\<forall>i < slots s. slot_bytes (set_devs d s) i = (if i = j then page_bytes (ram s) k else slot_bytes s i)"
    using swap_write_ok [OF assms(1-4,7,8)] by blast
  define s1 where "s1 = set_page p (pg\<lparr>swap_location := of_nat (8 * j)\<rparr>) (set_devs d (s\<lparr>free_bitmap := Some b\<rparr>))"
  have sb: "slot_bytes x i = slot_bytes (set_devs d s) i" if "vdevs x = d" "swap_block x = swap_block s" for x i
    using that by (simp add: slot_bytes_def)
  let ?s = "set_ram m s1"
  have ok: "swap_ok ?s" "slots ?s = slots s" "slots_used ?s = insert j (slots_used s)"
    using w(2,5,6) by (simp_all add: s1_def swap_ok_def slots_def slots_used_def)
  have "vpages ?s p = Some (pg\<lparr>swap_location := of_nat (8 * j)\<rparr>)" by (simp add: s1_def)
  then obtain d' r b' where r: "swap_read k' p ?s = Some (set_page p ((pg\<lparr>swap_location := of_nat (8 * j)\<rparr>)\<lparr>swap_location := - 1\<rparr>)
        (set_ram r (set_devs d' (?s\<lparr>free_bitmap := Some b'\<rparr>))))"
      "disks d' = disks d" "same_layout (all_blocks d) (all_blocks d')" "marked b' = insert j (slots_used s) - {j}"
      "agree (- {page_of k'}) m r" "page_bytes r k' = slot_bytes ?s j"
    using swap_read_ok [OF ok(1), of p _ j k'] ok(2,3) w(3) assms(5,6) by (auto simp: s1_def)
  have same: "slot_bytes (set_devs d' s) i = slot_bytes (set_devs d s) i" for i
  proof -
    have "swap_block s < length (all_blocks d)" using w(2) by (auto simp: swap_ok_def device_ready_def)
    then have "sector_of d' (swap_block s) t = sector_of d (swap_block s) t" for t
      using r(2) place_same_layout [OF r(3)] by (simp add: sector_of_def)
    then show ?thesis by (simp add: slot_bytes_def)
  qed
  define s2 where "s2 = set_page p ((pg\<lparr>swap_location := of_nat (8 * j)\<rparr>)\<lparr>swap_location := - 1\<rparr>)
        (set_ram r (set_devs d' (?s\<lparr>free_bitmap := Some b'\<rparr>)))"
  have "slot_bytes s2 i = slot_bytes (set_devs d' s) i" for i by (simp add: s2_def s1_def slot_bytes_def)
  then have "slot_bytes s2 i = slot_bytes s i" if "i \<in> slots_used s" for i
    using that w(4,7) slots_used_bound [OF assms(1)] same by metis
  moreover have "slots_used s2 = slots_used s" using r(4) w(4) by (simp add: s2_def slots_used_def)
  moreover have "page_bytes (ram s2) k' = page_bytes (ram s) k" "agree (- {page_of k'}) m (ram s2)"
    using r(5,6) w(3,7) sb [of ?s j] by (simp_all add: s2_def s1_def)
  ultimately show ?thesis using w(1) r(1) unfolding s1_def [symmetric] s2_def [symmetric] by blast
qed

theorem swap_roundtrip_witness:
  "\<exists>s1 s2. swap_write 0xc0202000 1 example_swap = Some s1 \<and> swap_read 0xc0203000 1 (set_ram (\<lambda>_. 7) s1) = Some s2 \<and>
    page_bytes (ram s2) 0xc0203000 = page_bytes (ram example_swap) 0xc0202000 \<and>
    agree (- {page_of 0xc0203000}) (\<lambda>_. 7) (ram s2) \<and>
    slots_used s2 = slots_used example_swap \<and> (\<forall>j \<in> slots_used example_swap. slot_bytes s2 j = slot_bytes example_swap j)"
  by (rule swap_roundtrip [OF example_swap_ok(1) _ _ _ _ _ example_swap_ok(3,4)])
    (simp_all add: example_swap_def pg_ofs_0 is_kernel_vaddr_def PHYS_BASE_def)

text \<open>when every slot is in use, writing to swap fails an assertion. \<open>bitmap_scan\<close> then returns its
  error value, and \<open>swap_get_free\<close> passes it to \<open>bitmap_set\<close> as an index.\<close>

theorem swap_full_panics:
  assumes "swap_ok s" "{..<slots s} \<subseteq> slots_used s"
  shows "swap_write k p s = None"
  using assms by (rule swap_write_full)

theorem swap_full_panics_witness:
  "swap_write 0xc0202000 1 (example_swap\<lparr>free_bitmap := Some \<lparr>bit_cnt = 3, bits = [7]\<rparr>\<rparr>) = None"
proof (rule swap_full_panics)
  let ?s = "example_swap\<lparr>free_bitmap := Some \<lparr>bit_cnt = 3, bits = [7]\<rparr>\<rparr>"
  show "swap_ok ?s"
    by (auto simp: swap_ok_def example_swap_def wf_bitmap_def device_ready_def devices_ok_def block_ok_def sector_of_def place.simps)
  have "{..<3 :: nat} = {0, 1, 2}" by auto
  then show "{..<slots ?s} \<subseteq> slots_used ?s" by (simp add: slots_def slots_used_def marked_def bm_def)
qed

end
