(* ===== verification/Frames.thy ===== *)
theory Frames
  imports Swap
begin

text \<open>
  \<^verbatim>\<open>vm/frames.c\<close>: the table of user frames, finding a free frame and evicting one by the clock
  algorithm, and \<open>install_page\<close> of \<^verbatim>\<open>userprog/process.c\<close>.

  A function that may end the process returns \<open>Inl\<close> with the exit code instead of a result;
  \<open>system_exit_helper\<close> does not return. The messages it and others print are not modelled.
\<close>

type_synonym 'a run = "(vm \<times> (int + 'a)) option"

definition TOTAL_PAGES :: nat where "TOTAL_PAGES = 367"

section \<open>The frame lock\<close>

text \<open>
  Whether the running thread holds the lock. In the code a thread that finds the lock taken by
  another waits; here it is a failure, which does not occur in steps that begin and end with the lock
  free.
\<close>

definition frame_lock_acquire :: "vm \<Rightarrow> vm option" where
  "frame_lock_acquire s = do {
     c_assert (\<not> frame_lock s);
     Some (s\<lparr>frame_lock := True\<rparr>) }"

definition frame_lock_release :: "vm \<Rightarrow> vm option" where
  "frame_lock_release s = do {
     c_assert (frame_lock s);
     Some (s\<lparr>frame_lock := False\<rparr>) }"

section \<open>Operations\<close>

definition set_pal :: "palloc_state \<Rightarrow> vm \<Rightarrow> vm" where
  "set_pal p s = s\<lparr>mach := (mach s)\<lparr>pal := p\<rparr>\<rparr>"

text \<open>A failed \<open>malloc\<close> is dereferenced before it is tested.\<close>

primrec frame_table_loop :: "nat \<Rightarrow> vm \<Rightarrow> vm option" where
  "frame_table_loop 0 s = Some s"
| "frame_table_loop (Suc n) s = do {
     let (s, x) = vm_malloc s;
     _ \<leftarrow> x;
     (p, k) \<leftarrow> palloc_get_page PAL_USER (pal (mach s));
     let s = set_pal p s;
     s \<leftarrow> frame_lock_acquire s;
     let s = s\<lparr>frame_table := frame_table s @ [\<lparr>fr_kpage = k, fr_upage = 0, fr_pagedir = 0, fr_page = None\<rparr>]\<rparr>;
     s \<leftarrow> frame_lock_release s;
     frame_table_loop n s }"

definition frame_table_init :: "vm \<Rightarrow> vm option" where
  "frame_table_init s =
     frame_table_loop TOTAL_PAGES (s\<lparr>occupancy := 0, clock_pointer := 25, frame_lock := False, frame_table := []\<rparr>)"

definition clear_frame :: "frame_table_elem \<Rightarrow> frame_table_elem" where
  "clear_frame f = f\<lparr>fr_upage := 0, fr_pagedir := 0, fr_page := None\<rparr>"

fun frame_free_loop :: "u32 \<Rightarrow> frame_table_elem list \<Rightarrow> int \<Rightarrow> frame_table_elem list \<times> int" where
  "frame_free_loop k [] occ = ([], occ)"
| "frame_free_loop k (f # fs) occ =
     (let (f, occ) = (if fr_kpage f = k then (clear_frame f, occ - 1) else (f, occ));
          (fs, occ) = frame_free_loop k fs occ
      in (f # fs, occ))"

definition frame_free :: "u32 \<Rightarrow> vm \<Rightarrow> vm option" where
  "frame_free k s = do {
     s \<leftarrow> frame_lock_acquire s;
     c_assert (length (frame_table s) = TOTAL_PAGES);
     let (fs, occ) = frame_free_loop k (frame_table s) (occupancy s);
     frame_lock_release (s\<lparr>frame_table := fs, occupancy := occ\<rparr>) }"

text \<open>\<open>install_page\<close> and \<open>install_page_external\<close>.\<close>

definition install_page :: "u32 \<Rightarrow> u32 \<Rightarrow> bool \<Rightarrow> vm \<Rightarrow> (vm \<times> bool) option" where
  "install_page upage k writable s = do {
     t \<leftarrow> procs s (current s);
     q \<leftarrow> pagedir_get_page (pagedir t) upage (mach s);
     if q = 0 then do {
       (m, ok) \<leftarrow> pagedir_set_page (pagedir t) upage k writable (mach s);
       Some (s\<lparr>mach := m\<rparr>, ok) }
     else Some (s, False) }"

text \<open>The loop stops where the code exits because a frame with this address is in use.\<close>

fun frame_install_loop ::
    "u32 \<Rightarrow> frame_table_elem \<Rightarrow> frame_table_elem list \<Rightarrow> int \<Rightarrow> frame_table_elem list \<times> int \<times> bool" where
  "frame_install_loop k new [] occ = ([], occ, True)"
| "frame_install_loop k new (f # fs) occ =
     (if fr_kpage f = k then
        (if fr_upage f \<noteq> 0 then (f # fs, occ, False)
         else let f = f\<lparr>fr_upage := fr_upage new, fr_pagedir := fr_pagedir new, fr_page := fr_page new\<rparr>;
                  (fs, occ, ok) = frame_install_loop k new fs (occ + 1)
              in (f # fs, occ, ok))
      else let (fs, occ, ok) = frame_install_loop k new fs occ in (f # fs, occ, ok))"

definition frame_install :: "u32 \<Rightarrow> u32 \<Rightarrow> u32 \<Rightarrow> bool \<Rightarrow> nat \<Rightarrow> vm \<Rightarrow> bool run" where
  "frame_install upage k pd writable p s = do {
     s \<leftarrow> frame_lock_acquire s;
     (s, success) \<leftarrow> install_page upage k writable s;
     if success then do {
       c_assert (length (frame_table s) = TOTAL_PAGES);
       let (fs, occ, ok) = frame_install_loop k \<lparr>fr_kpage = k, fr_upage = upage, fr_pagedir = pd, fr_page = Some p\<rparr>
         (frame_table s) (occupancy s);
       let s = s\<lparr>frame_table := fs, occupancy := occ\<rparr>;
       s \<leftarrow> frame_lock_release s;
       Some (s, if ok then Inr True else Inl (- 1)) }
     else do {
       s \<leftarrow> frame_lock_release s;
       Some (s, Inr False) } }"

definition advance_clock :: "vm \<Rightarrow> vm" where
  "advance_clock s =
     (let c = clock_pointer s + 1 in s\<lparr>clock_pointer := if c = TOTAL_PAGES then 25 else c\<rparr>)"

text \<open>The body of the branch that evicts the frame under the clock hand.\<close>

definition evict_frame :: "frame_table_elem \<Rightarrow> vm \<Rightarrow> (vm \<times> u32) option" where
  "evict_frame f s = do {
     m \<leftarrow> pagedir_clear_page (fr_pagedir f) (fr_upage f) (mach s);
     let s = s\<lparr>mach := m\<rparr>;
     p \<leftarrow> fr_page f;
     s \<leftarrow> swap_write (fr_kpage f) p s;
     pg \<leftarrow> vpages s p;
     let s = set_page p (pg\<lparr>location := IN_SWAP, pg_kpage := 0\<rparr>) s;
     let s = s\<lparr>frame_table := (frame_table s)[clock_pointer s := clear_frame f], occupancy := occupancy s - 1\<rparr>;
     Some (s, fr_kpage f) }"

partial_function (option) frame_evict :: "vm \<Rightarrow> (vm \<times> u32) option" where
  "frame_evict s = do {
     c_assert (clock_pointer s < length (frame_table s));
     let f = frame_table s ! clock_pointer s;
     a \<leftarrow> pagedir_is_accessed (fr_pagedir f) (fr_upage f) (mach s);
     if \<not> a then do {
       (s, k) \<leftarrow> evict_frame f s;
       Some (advance_clock s, k) }
     else do {
       m \<leftarrow> pagedir_set_accessed (fr_pagedir f) (fr_upage f) False (mach s);
       frame_evict (advance_clock (s\<lparr>mach := m\<rparr>)) } }"

definition frame_find_empty :: "vm \<Rightarrow> (vm \<times> u32) option" where
  "frame_find_empty s = do {
     s \<leftarrow> frame_lock_acquire s;
     if occupancy s < int TOTAL_PAGES then do {
       c_assert (length (frame_table s) = TOTAL_PAGES);
       s \<leftarrow> frame_lock_release s;
       (case find (\<lambda>f. fr_upage f = 0) (frame_table s) of
          Some f \<Rightarrow> Some (s, fr_kpage f)
        | None \<Rightarrow> Some (s, 0)) }
     else do {
       s \<leftarrow> frame_lock_release s;
       frame_evict s } }"

section \<open>The loops over the frame table\<close>

lemma frame_free_loop_eq:
  "frame_free_loop k fs occ = (map (\<lambda>f. if fr_kpage f = k then clear_frame f else f) fs,
     occ - int (length (filter (\<lambda>f. fr_kpage f = k) fs)))"
  by (induction fs arbitrary: occ) auto

definition fill_frame :: "frame_table_elem \<Rightarrow> frame_table_elem \<Rightarrow> frame_table_elem" where
  "fill_frame new f = f\<lparr>fr_upage := fr_upage new, fr_pagedir := fr_pagedir new, fr_page := fr_page new\<rparr>"

lemma frame_install_loop_eq:
  assumes "\<And>f. f \<in> set fs \<Longrightarrow> fr_kpage f = k \<Longrightarrow> fr_upage f = 0"
  shows "frame_install_loop k new fs occ = (map (\<lambda>f. if fr_kpage f = k then fill_frame new f else f) fs,
     occ + int (length (filter (\<lambda>f. fr_kpage f = k) fs)), True)"
  using assms by (induction fs arbitrary: occ) (auto simp: fill_frame_def)

text \<open>When the frames have different addresses, the loops change the one frame they look for.\<close>

lemma filter_kpage:
  "distinct (map fr_kpage fs) \<Longrightarrow> i < length fs \<Longrightarrow> length (filter (\<lambda>f. fr_kpage f = fr_kpage (fs ! i)) fs) = 1"
proof (induction fs arbitrary: i)
  case (Cons g gs)
  show ?case
  proof (cases i)
    case 0
    then have "filter (\<lambda>f. fr_kpage f = fr_kpage g) gs = []" using Cons.prems by (auto simp: filter_empty_conv image_iff)
    then show ?thesis using 0 by simp
  next
    case (Suc j)
    then have "fr_kpage g \<noteq> fr_kpage (gs ! j)" using Cons.prems by (auto simp: image_iff)
    then show ?thesis using Suc Cons by simp
  qed
qed simp

lemma map_kpage:
  assumes "distinct (map fr_kpage fs)" "i < length fs"
  shows "map (\<lambda>f. if fr_kpage f = fr_kpage (fs ! i) then g f else f) fs = fs[i := g (fs ! i)]"
proof (rule nth_equalityI)
  fix j assume j: "j < length (map (\<lambda>f. if fr_kpage f = fr_kpage (fs ! i) then g f else f) fs)"
  have "fr_kpage (fs ! j) = fr_kpage (fs ! i) \<longleftrightarrow> j = i"
    using nth_eq_iff_index_eq [OF assms(1), of j i] assms(2) j by simp
  then show "map (\<lambda>f. if fr_kpage f = fr_kpage (fs ! i) then g f else f) fs ! j = fs[i := g (fs ! i)] ! j"
    using j assms(2) by (auto simp: nth_list_update)
qed simp

end
