(* ===== verification/Paging.thy ===== *)
theory Paging
  imports Frames
begin

text \<open>
  \<^verbatim>\<open>vm/page.c\<close>: the supplemental page tables and the resolution of page faults, the page fault handler
  of \<^verbatim>\<open>userprog/exception.c\<close>, and \<open>process_exit\<close> of \<^verbatim>\<open>userprog/process.c\<close>.
\<close>

section \<open>The supplemental page table\<close>

definition page_hash :: "page_ref \<Rightarrow> u32" where
  "page_hash e = hash_int (snd e)"

definition page_less :: "page_ref \<Rightarrow> page_ref \<Rightarrow> bool" where
  "page_less a b \<longleftrightarrow> snd a < snd b"

definition set_spt :: "page_ref hash option \<Rightarrow> vm \<Rightarrow> vm option" where
  "set_spt h s = do {
     t \<leftarrow> procs s (current s);
     Some (s\<lparr>procs := (procs s)(current s \<mapsto> t\<lparr>spt := h\<rparr>)\<rparr>) }"

definition current_spt :: "vm \<Rightarrow> page_ref hash option" where
  "current_spt s = do {
     t \<leftarrow> procs s (current s);
     spt t }"

text \<open>The result of \<open>hash_init\<close> is ignored.\<close>

definition page_init :: "vm \<Rightarrow> vm option" where
  "page_init s = do {
     let (s, b) = vm_malloc s;
     let (h, _) = hash_init (b \<noteq> None) page_hash page_less;
     set_spt (Some h) s }"

text \<open>One answer of \<open>malloc\<close> is used up whether or not the table is enlarged.\<close>

definition page_add :: "nat \<Rightarrow> vm \<Rightarrow> vm option" where
  "page_add p s = do {
     h \<leftarrow> current_spt s;
     pg \<leftarrow> vpages s p;
     let (s, b) = vm_malloc s;
     (h, _) \<leftarrow> hash_insert (b \<noteq> None) h (p, pg_upage pg);
     set_spt (Some h) s }"

partial_function (option) page_clear_loop :: "page_ref hash \<Rightarrow> page_ref hash_iterator \<Rightarrow> vm \<Rightarrow> vm option" where
  "page_clear_loop h i s = do {
     i \<leftarrow> hash_next h i;
     case hash_cur i of
       None \<Rightarrow> Some s
     | Some e \<Rightarrow> do {
         pg \<leftarrow> vpages s (fst e);
         s \<leftarrow> (if location pg = IN_FRAME then do {
                s \<leftarrow> frame_free (pg_kpage pg) s;
                Some (set_page (fst e) (pg\<lparr>pg_kpage := 0, location := 0\<rparr>) s) }
              else Some s);
         page_clear_loop h i s } }"

text \<open>\<open>hash_destroy\<close> without a destructor and \<open>free\<close> only release memory.\<close>

definition page_clear_all :: "vm \<Rightarrow> vm option" where
  "page_clear_all s = do {
     h \<leftarrow> current_spt s;
     s \<leftarrow> page_clear_loop h hash_first s;
     set_spt None s }"

definition page_build :: "u32 \<Rightarrow> nat option \<Rightarrow> bool \<Rightarrow> u32 \<Rightarrow> u32 \<Rightarrow> int \<Rightarrow> u32 \<Rightarrow> u32 \<Rightarrow> vm \<Rightarrow> (vm \<times> nat) option" where
  "page_build up f writable rb zb loc off pd s = do {
     let (s, x) = vm_malloc s;
     p \<leftarrow> x;
     Some (set_page p \<lparr>pg_upage = up, pg_kpage = 0, pg_file = f, pg_writable = writable, page_read_bytes = rb,
       page_zero_bytes = zb, location = loc, swap_location = - 1, pg_offset = off, pg_pagedir = pd\<rparr> s, p) }"

section \<open>Page faults\<close>

definition page_install_to_frame :: "nat \<Rightarrow> u32 \<Rightarrow> u32 \<Rightarrow> u32 \<Rightarrow> vm \<Rightarrow> bool run" where
  "page_install_to_frame p up k pd s = do {
     pg \<leftarrow> vpages s p;
     (s, r) \<leftarrow> frame_install up k pd (pg_writable pg) p s;
     case r of
       Inl e \<Rightarrow> Some (s, Inl e)
     | Inr success \<Rightarrow>
         if \<not> success then do {
           s \<leftarrow> frame_free k s;
           Some (s, Inl (- 532)) }
         else do {
           pg \<leftarrow> vpages s p;
           Some (set_page p (pg\<lparr>location := IN_FRAME, pg_kpage := k\<rparr>) s, Inr success) } }"

text \<open>Storing bytes at a kernel address; no bytes need no valid address.\<close>

definition put_bytes :: "u32 \<Rightarrow> u8 list \<Rightarrow> vm \<Rightarrow> vm option" where
  "put_bytes a bs s =
     (if bs = [] then Some s
      else do {
        c_assert (is_kernel_vaddr a);
        Some (set_ram (store_bytes (ram s) a bs) s) })"

text \<open>\<open>page_read_install\<close> from where a frame has been found.\<close>

definition page_read_frame :: "nat \<Rightarrow> u32 \<Rightarrow> vm \<Rightarrow> unit run" where
  "page_read_frame p k s = do {
     pg \<leftarrow> vpages s p;
     f \<leftarrow> pg_file pg;
     v \<leftarrow> file_seek f (sint (pg_offset pg)) (vfs s);
     (v, bs) \<leftarrow> file_read f (sint (page_read_bytes pg)) v;
     s \<leftarrow> put_bytes k bs (s\<lparr>vfs := v\<rparr>);
     if int (length bs) \<noteq> sint (page_read_bytes pg) then do {
       s \<leftarrow> frame_free k s;
       Some (s, Inl (- 35)) }
     else do {
       s \<leftarrow> put_bytes (k + page_read_bytes pg) (replicate (unat (page_zero_bytes pg)) 0) s;
       (s, r) \<leftarrow> page_install_to_frame p (pg_upage pg) k (pg_pagedir pg) s;
       Some (s, map_sum id (\<lambda>_. ()) r) } }"

definition page_read_install :: "nat \<Rightarrow> vm \<Rightarrow> unit run" where
  "page_read_install p s = do {
     (s, k) \<leftarrow> frame_find_empty s;
     page_read_frame p k s }"

text \<open>The branches of \<open>page_fault_identifier\<close> for a new page of the stack and for a page in swap, from
  where a frame has been found.\<close>

definition grow_stack :: "u32 \<Rightarrow> u32 \<Rightarrow> vm \<Rightarrow> unit run" where
  "grow_stack fault_addr k s =
     (if k \<noteq> 0 then do {
        t \<leftarrow> procs s (current s);
        (s, p) \<leftarrow> page_build (pg_round_down fault_addr) None True 0 0 IN_FRAME 0 (pagedir t) s;
        s \<leftarrow> page_add p s;
        pg \<leftarrow> vpages s p;
        (s, r) \<leftarrow> page_install_to_frame p (pg_upage pg) k (pg_pagedir pg) s;
        Some (s, map_sum id (\<lambda>_. ()) r) }
      else Some (s, Inr ()))"

definition page_swap_in :: "nat \<Rightarrow> u32 \<Rightarrow> vm \<Rightarrow> unit run" where
  "page_swap_in p k s = do {
     s \<leftarrow> frame_lock_acquire s;
     s \<leftarrow> swap_read k p s;
     s \<leftarrow> frame_lock_release s;
     target \<leftarrow> vpages s p;
     (s, r) \<leftarrow> page_install_to_frame p (pg_upage target) k (pg_pagedir target) s;
     Some (s, map_sum id (\<lambda>_. ()) r) }"

text \<open>
  \<open>f_esp\<close> is the stack pointer in the interrupt frame. A search key is a structure on the stack;
  only its user address matters.
\<close>

definition page_fault_identifier :: "u32 \<Rightarrow> u32 \<Rightarrow> bool \<Rightarrow> vm \<Rightarrow> unit run" where
  "page_fault_identifier fault_addr f_esp user s = do {
     s \<leftarrow> (if frame_lock s then frame_lock_release s else Some s);
     t \<leftarrow> procs s (current s);
     h \<leftarrow> spt t;
     target_elem \<leftarrow> hash_find h (0, pg_round_down fault_addr);
     case target_elem of
       None \<Rightarrow>
         (let stack_pointer = (if \<not> user then esp t else f_esp) in
          if fault_addr \<ge> stack_pointer - 32 then do {
            (s, k) \<leftarrow> frame_find_empty s;
            grow_stack fault_addr k s }
          else Some (s, Inl (- 1)))
     | Some e \<Rightarrow> do {
         let p = fst e;
         target \<leftarrow> vpages s p;
         if location target = IN_SWAP then do {
           (s, k) \<leftarrow> frame_find_empty s;
           page_swap_in p k s }
         else if location target = IN_FILESYS then page_read_install p s
         else Some (s, Inr ()) } }"

definition PF_P :: u32 where "PF_P = 1"
definition PF_W :: u32 where "PF_W = 2"
definition PF_U :: u32 where "PF_U = 4"

text \<open>
  The address comes from the register \<open>cr2\<close>; counting faults is left out. The code enables
  interrupts before it goes on, so that other processes may run during the rest. The function is the
  handler running by itself; the theory of runs cuts it where a frame has been found.
\<close>

definition page_fault :: "u32 \<Rightarrow> u32 \<Rightarrow> u32 \<Rightarrow> vm \<Rightarrow> unit run" where
  "page_fault error_code fault_addr f_esp s =
     (let not_present = (error_code AND PF_P = 0);
          user = (error_code AND PF_U \<noteq> 0)
      in if fault_addr = 0 \<or> is_kernel_vaddr fault_addr \<or> \<not> not_present then Some (s, Inl (- 1))
         else if not_present then page_fault_identifier fault_addr f_esp user s
         else Some (s, Inr ()))"

section \<open>The end of a process\<close>

definition process_exit :: "vm \<Rightarrow> vm option" where
  "process_exit s = do {
     cur \<leftarrow> procs s (current s);
     let pd = pagedir cur;
     if pd \<noteq> 0 then do {
       let s = s\<lparr>procs := (procs s)(current s \<mapsto> cur\<lparr>pagedir := 0\<rparr>)\<rparr>;
       m \<leftarrow> pagedir_activate 0 (mach s);
       m \<leftarrow> pagedir_destroy pd m;
       Some (s\<lparr>mach := m\<rparr>) }
     else Some s }"

section \<open>The order of pages\<close>

interpretation page_table: hash_functions page_hash page_less
proof
  fix a b c :: page_ref
  show "\<not> page_less a a" by (simp add: page_less_def)
  assume ab: "\<not> page_less a b" "\<not> page_less b a"
  then have "snd a = snd b" by (simp add: page_less_def)
  then show "page_hash a = page_hash b" by (simp add: page_hash_def)
  show "\<not> page_less a c \<and> \<not> page_less c a" if "\<not> page_less b c" "\<not> page_less c b"
    using ab that by (auto simp: page_less_def)
qed

lemma page_eqv: "page_table.eqv a b \<longleftrightarrow> snd a = snd b"
  by (auto simp: page_table.eqv_def page_less_def)

end
