(* ===== verification/Vm_Inv.thy ===== *)
theory Vm_Inv
  imports Paging
begin

text \<open>
  The invariant of the virtual memory system, the contents of a page wherever it is, and the
  eviction of a frame.
\<close>

section \<open>Processes\<close>

definition pdir :: "vm \<Rightarrow> nat \<Rightarrow> u32" where
  "pdir s t = (case procs s t of Some pr \<Rightarrow> pagedir pr | None \<Rightarrow> 0)"

definition own :: "vm \<Rightarrow> nat \<Rightarrow> page_ref set" where
  "own s t = (case procs s t of Some pr \<Rightarrow> (case spt pr of Some h \<Rightarrow> elems h | None \<Rightarrow> {}) | None \<Rightarrow> {})"

text \<open>The page directory of a process that has not begun to exit: one that does gives up its supplemental page
  table first and its page directory later.\<close>

definition udir :: "vm \<Rightarrow> nat \<Rightarrow> u32" where
  "udir s t = (case procs s t of Some pr \<Rightarrow> (case spt pr of Some h \<Rightarrow> pagedir pr | None \<Rightarrow> 0) | None \<Rightarrow> 0)"

lemma procs_cong: "procs s' = procs s \<Longrightarrow> pdir s' = pdir s" "procs s' = procs s \<Longrightarrow> own s' = own s" "procs s' = procs s \<Longrightarrow> udir s' = udir s"
  by (simp_all add: pdir_def own_def udir_def fun_eq_iff)

lemma udir_pdir: "udir s t \<noteq> 0 \<Longrightarrow> pdir s t \<noteq> 0"
  by (auto simp: udir_def pdir_def split: option.splits)

lemma own_udir: "(p, u) \<in> own s t \<Longrightarrow> udir s t = pdir s t"
  by (auto simp: udir_def pdir_def own_def split: option.splits)

definition upage_ok :: "u32 \<Rightarrow> bool" where
  "upage_ok u \<longleftrightarrow> pg_ofs u = 0 \<and> is_user_vaddr u \<and> u \<noteq> 0"

lemma same_upage_eq: "pg_ofs u = 0 \<Longrightarrow> pg_ofs v = 0 \<Longrightarrow> same_upage u v \<longleftrightarrow> u = v"
  using page_of_eq [of u v] by (auto simp: same_upage_def page_of_def word_unat_eq_iff [of "pg_no u"] unat_pg_no)

lemma same_upage_sym: "same_upage u v \<longleftrightarrow> same_upage v u"
  by (auto simp: same_upage_def)

section \<open>The invariant\<close>

text \<open>Address spaces: the page directories of processes are well formed and share no page.\<close>

definition spaces :: "vm \<Rightarrow> bool" where
  "spaces s \<longleftrightarrow> palloc_ok (pal (mach s)) \<and> (\<forall>t. pdir s t \<noteq> 0 \<longrightarrow> wf_pd (mach s) (pdir s t)) \<and>
     (\<forall>t t'. t \<noteq> t' \<longrightarrow> pdir s t \<noteq> 0 \<longrightarrow> pdir s t' \<noteq> 0 \<longrightarrow>
       pd_pages (mach s) (pdir s t) \<inter> pd_pages (mach s) (pdir s t') = {})"

text \<open>Supplemental page tables: their entries describe pages of that process, and no two share one.\<close>

definition owners :: "vm \<Rightarrow> bool" where
  "owners s \<longleftrightarrow>
     (\<forall>t p u. (p, u) \<in> own s t \<longrightarrow> pdir s t \<noteq> 0 \<and> upage_ok u \<and>
        (\<exists>pg. vpages s p = Some pg \<and> pg_upage pg = u \<and> pg_pagedir pg = pdir s t \<and>
          location pg \<in> {IN_FRAME, IN_SWAP, IN_FILESYS})) \<and>
     (\<forall>t t' p u u'. (p, u) \<in> own s t \<longrightarrow> (p, u') \<in> own s t' \<longrightarrow> t = t') \<and>
     (\<forall>t pr h. procs s t = Some pr \<longrightarrow> spt pr = Some h \<longrightarrow> wf_hash page_hash page_less h) \<and>
     (\<forall>p pg. vpages s p = Some pg \<longrightarrow> p < next_addr (vfs s))"

text \<open>
  Pages in \<open>X\<close> are on the way from one place to another; what is said below of pages in frames, in
  swap and in files is said of the other pages.
\<close>

definition resides :: "nat set \<Rightarrow> vm \<Rightarrow> nat \<Rightarrow> nat \<Rightarrow> u32 \<Rightarrow> vpage \<Rightarrow> bool" where
  "resides X s t p u pg \<longleftrightarrow> (p, u) \<in> own s t \<and> p \<notin> X \<and> vpages s p = Some pg"

definition frame_ok :: "pd_state \<Rightarrow> frame_table_elem \<Rightarrow> bool" where
  "frame_ok st f \<longleftrightarrow> pg_ofs (fr_kpage f) = 0 \<and> page_of (fr_kpage f) \<in> in_use (user_pool (pal st)) \<and>
     (unat (fr_kpage f) - 0xc0000000) div 4096 < unat (init_ram_pages st)"

definition idle :: "frame_table_elem \<Rightarrow> bool" where
  "idle f \<longleftrightarrow> fr_upage f = 0 \<and> fr_pagedir f = 0 \<and> fr_page f = None"

definition busy :: "nat set \<Rightarrow> vm \<Rightarrow> frame_table_elem \<Rightarrow> bool" where
  "busy X s f \<longleftrightarrow> (\<exists>t p pg. fr_page f = Some p \<and> fr_pagedir f = pdir s t \<and> resides X s t p (fr_upage f) pg \<and>
     location pg = IN_FRAME \<and> pg_kpage pg = fr_kpage f)"

definition frames_ok :: "nat set \<Rightarrow> vm \<Rightarrow> bool" where
  "frames_ok X s \<longleftrightarrow> length (frame_table s) = TOTAL_PAGES \<and> distinct (map fr_kpage (frame_table s)) \<and>
     (\<forall>f \<in> set (frame_table s). frame_ok (mach s) f \<and> (idle f \<or> busy X s f)) \<and>
     occupancy s = int (length (filter (\<lambda>f. fr_upage f \<noteq> 0) (frame_table s))) \<and>
     25 \<le> clock_pointer s \<and> clock_pointer s < TOTAL_PAGES"

definition maps_to :: "u32 \<Rightarrow> vpage \<Rightarrow> bool" where
  "maps_to e pg \<longleftrightarrow> e AND PTE_P \<noteq> 0 \<and> pte_get_page e = Some (pg_kpage pg) \<and> (e AND PTE_W \<noteq> 0) = pg_writable pg"

definition mapped :: "nat set \<Rightarrow> vm \<Rightarrow> bool" where
  "mapped X s \<longleftrightarrow>
     (\<forall>t p u pg. resides X s t p u pg \<longrightarrow> location pg = IN_FRAME \<longrightarrow>
        maps_to (entry (mach s) (pdir s t) u) pg \<and> (\<exists>f \<in> set (frame_table s). fr_page f = Some p)) \<and>
     (\<forall>t va. is_user_vaddr va \<longrightarrow> udir s t \<noteq> 0 \<longrightarrow> entry (mach s) (pdir s t) va AND PTE_P \<noteq> 0 \<longrightarrow>
        (\<exists>p u pg. resides X s t p u pg \<and> same_upage va u \<and> location pg = IN_FRAME))"

definition swapped :: "nat set \<Rightarrow> vm \<Rightarrow> bool" where
  "swapped X s \<longleftrightarrow> swap_ok s \<and>
     (\<forall>t p u pg. resides X s t p u pg \<longrightarrow> location pg = IN_SWAP \<longrightarrow>
        (\<exists>j \<in> slots_used s. swap_location pg = of_nat (8 * j))) \<and>
     (\<forall>t p u pg t' p' u' pg'. resides X s t p u pg \<longrightarrow> resides X s t' p' u' pg' \<longrightarrow> location pg = IN_SWAP \<longrightarrow>
        location pg' = IN_SWAP \<longrightarrow> swap_location pg = swap_location pg' \<longrightarrow> p = p')"

definition file_page :: "fs \<Rightarrow> vpage \<Rightarrow> bool" where
  "file_page v pg \<longleftrightarrow> (\<exists>f fl ino. pg_file pg = Some f \<and> files v f = Some fl \<and> inodes v (finode fl) = Some ino \<and> data_ok v (data ino) \<and>
     unat (page_read_bytes pg) + unat (page_zero_bytes pg) = 4096 \<and> unat (pg_offset pg) < 2 ^ 31 \<and>
     (page_read_bytes pg = 0 \<or> unat (pg_offset pg) + unat (page_read_bytes pg) \<le> nat (dlength (data ino))))"

definition filed :: "nat set \<Rightarrow> vm \<Rightarrow> bool" where
  "filed X s \<longleftrightarrow> disk_ok (vfs s) \<and> apart (vdevs s) (swap_block s) (fs_device (vfs s)) \<and>
     (\<forall>t p u pg. resides X s t p u pg \<longrightarrow> location pg = IN_FILESYS \<longrightarrow> file_page (vfs s) pg)"

definition vm_inv :: "nat set \<Rightarrow> vm \<Rightarrow> bool" where
  "vm_inv X s \<longleftrightarrow> spaces s \<and> owners s \<and> frames_ok X s \<and> mapped X s \<and> swapped X s \<and> filed X s"

abbreviation vm_ok :: "vm \<Rightarrow> bool" where
  "vm_ok s \<equiv> vm_inv {} s \<and> \<not> frame_lock s"

section \<open>The contents of a page\<close>

definition file_bytes :: "fs \<Rightarrow> vpage \<Rightarrow> u8 list" where
  "file_bytes v pg = (case pg_file pg of None \<Rightarrow> [] | Some f \<Rightarrow> (case files v f of None \<Rightarrow> [] | Some fl \<Rightarrow>
     (case inodes v (finode fl) of None \<Rightarrow> [] | Some ino \<Rightarrow>
       take (unat (page_read_bytes pg)) (drop (unat (pg_offset pg)) (content v (data ino))) @
       replicate (unat (page_zero_bytes pg)) 0)))"

definition page_content :: "vm \<Rightarrow> vpage \<Rightarrow> u8 list" where
  "page_content s pg =
     (if location pg = IN_FRAME then page_bytes (ram s) (pg_kpage pg)
      else if location pg = IN_SWAP then slot_bytes s (unat (swap_location pg) div 8)
      else file_bytes (vfs s) pg)"

text \<open>The page at \<open>u\<close> of process \<open>t\<close> holds the bytes \<open>bs\<close>.\<close>

definition holds :: "nat set \<Rightarrow> vm \<Rightarrow> nat \<Rightarrow> u32 \<Rightarrow> u8 list \<Rightarrow> bool" where
  "holds X s t u bs \<longleftrightarrow> (\<exists>p pg. resides X s t p u pg \<and> bs = page_content s pg)"

section \<open>Consequences\<close>

lemma locations [simp]: "IN_FRAME \<noteq> IN_SWAP" "IN_SWAP \<noteq> IN_FRAME" "IN_FRAME \<noteq> IN_FILESYS" "IN_FILESYS \<noteq> IN_FRAME"
    "IN_SWAP \<noteq> IN_FILESYS" "IN_FILESYS \<noteq> IN_SWAP"
  by (simp_all add: IN_FRAME_def IN_SWAP_def IN_FILESYS_def)

lemma ownersD:
  assumes "owners s" "(p, u) \<in> own s t"
  obtains pg where "vpages s p = Some pg" "pg_upage pg = u" "pg_pagedir pg = pdir s t" "location pg \<in> {IN_FRAME, IN_SWAP, IN_FILESYS}"
    "pdir s t \<noteq> 0" "upage_ok u"
  using assms unfolding owners_def by blast

lemma own_owner: "owners s \<Longrightarrow> (p, u) \<in> own s t \<Longrightarrow> (p, u') \<in> own s t' \<Longrightarrow> t = t' \<and> u = u'"
  unfolding owners_def by (metis option.inject)

lemma own_unique:
  assumes "owners s" "(p, u) \<in> own s t" "(p', u) \<in> own s t"
  shows "p = p'"
proof -
  obtain pr h where h: "procs s t = Some pr" "spt pr = Some h" "(p, u) \<in> elems h" "(p', u) \<in> elems h"
    using assms(2,3) by (auto simp: own_def split: option.splits)
  then have "wf_hash page_hash page_less h" using assms(1) by (auto simp: owners_def)
  then have "\<forall>a \<in> elems h. \<forall>b \<in> elems h. \<not> page_less a b \<and> \<not> page_less b a \<longrightarrow> a = b" by (simp add: wf_hash_def)
  from this [rule_format, OF h(3,4)] have "(p, u) = (p', u)" by (simp add: page_less_def)
  then show ?thesis by simp
qed

lemma residesD:
  assumes "owners s" "resides X s t p u pg"
  shows "(p, u) \<in> own s t" "p \<notin> X" "vpages s p = Some pg" "pg_upage pg = u" "pg_pagedir pg = pdir s t" "pdir s t \<noteq> 0"
    "upage_ok u" "location pg \<in> {IN_FRAME, IN_SWAP, IN_FILESYS}"
proof -
  show a: "(p, u) \<in> own s t" "p \<notin> X" "vpages s p = Some pg" using assms(2) by (simp_all add: resides_def)
  show "pg_upage pg = u" "pg_pagedir pg = pdir s t" "pdir s t \<noteq> 0" "upage_ok u" "location pg \<in> {IN_FRAME, IN_SWAP, IN_FILESYS}"
    using ownersD [OF assms(1) a(1)] a(3) by (metis option.inject)+
qed

lemma resides_unique: "owners s \<Longrightarrow> resides X s t p u pg \<Longrightarrow> resides X s t p' u pg' \<Longrightarrow> p' = p \<and> pg' = pg"
  using own_unique [of s p u t p'] by (auto simp: resides_def)

lemma resides_page: "owners s \<Longrightarrow> resides X s t p u pg \<Longrightarrow> resides X s t' p u' pg' \<Longrightarrow> t' = t \<and> u' = u \<and> pg' = pg"
  using own_owner [of s p u t u' t'] by (auto simp: resides_def)

lemma frame_okD:
  assumes "palloc_ok (pal st)" "frame_ok st f"
  shows "is_kernel_vaddr (fr_kpage f)"
proof -
  have "page_of (fr_kpage f) \<in> pool_range (user_pool (pal st))" using assms(2) in_use_subset by (auto simp: frame_ok_def)
  moreover have "4096 dvd unat (base (user_pool (pal st)))" "0xc0000000 \<le> unat (base (user_pool (pal st)))"
    using assms(1) by (simp_all add: palloc_ok_def pool_ok_def)
  ultimately show ?thesis
    by (auto simp: is_kernel_vaddr_def PHYS_BASE_def word_le_nat_alt pool_range_def first_page_def page_of_def elim!: dvdE)
qed

lemma vm_invD:
  assumes "vm_inv X s"
  shows "spaces s" "owners s" "frames_ok X s" "mapped X s" "swapped X s" "filed X s"
  using assms by (simp_all add: vm_inv_def)

lemma spacesD:
  assumes "spaces s"
  shows "palloc_ok (pal (mach s))" "pdir s t \<noteq> 0 \<Longrightarrow> wf_pd (mach s) (pdir s t)"
    "t \<noteq> t' \<Longrightarrow> pdir s t \<noteq> 0 \<Longrightarrow> pdir s t' \<noteq> 0 \<Longrightarrow> pd_pages (mach s) (pdir s t) \<inter> pd_pages (mach s) (pdir s t') = {}"
  using assms by (auto simp: spaces_def)

lemma frames_okD:
  assumes "frames_ok X s" "i < TOTAL_PAGES"
  shows "frame_table s ! i \<in> set (frame_table s)" "frame_ok (mach s) (frame_table s ! i)"
    "idle (frame_table s ! i) \<or> busy X s (frame_table s ! i)" "length (frame_table s) = TOTAL_PAGES"
proof -
  show l: "length (frame_table s) = TOTAL_PAGES" using assms(1) by (simp add: frames_ok_def)
  show m: "frame_table s ! i \<in> set (frame_table s)" using l assms(2) by simp
  show "frame_ok (mach s) (frame_table s ! i)" "idle (frame_table s ! i) \<or> busy X s (frame_table s ! i)"
    using assms(1) m by (auto simp: frames_ok_def)
qed

text \<open>Two frames never hold the same page, and a page in a frame is in one frame only.\<close>

lemma frame_index:
  assumes "frames_ok X s" "owners s" "i < TOTAL_PAGES" "j < TOTAL_PAGES"
    "fr_page (frame_table s ! i) = Some p" "fr_page (frame_table s ! j) = Some p"
  shows "i = j"
proof -
  have b: "busy X s (frame_table s ! i)" "busy X s (frame_table s ! j)"
    using frames_okD(3) [OF assms(1,3)] frames_okD(3) [OF assms(1,4)] assms(5,6) by (auto simp: idle_def)
  then have "fr_kpage (frame_table s ! i) = fr_kpage (frame_table s ! j)"
    using assms(5,6) by (auto simp: busy_def resides_def)
  moreover have "distinct (map fr_kpage (frame_table s))" "length (frame_table s) = TOTAL_PAGES" using assms(1) by (simp_all add: frames_ok_def)
  ultimately show ?thesis using nth_eq_iff_index_eq [of "map fr_kpage (frame_table s)" i j] assms(3,4) by simp
qed

lemma busyD:
  assumes "busy X s f"
  obtains t p pg where "fr_page f = Some p" "fr_pagedir f = pdir s t" "resides X s t p (fr_upage f) pg"
    "location pg = IN_FRAME" "pg_kpage pg = fr_kpage f"
  using assms by (auto simp: busy_def)

lemma mappedD:
  assumes "mapped X s"
  shows "resides X s t p u pg \<Longrightarrow> location pg = IN_FRAME \<Longrightarrow> maps_to (entry (mach s) (pdir s t) u) pg"
    "resides X s t p u pg \<Longrightarrow> location pg = IN_FRAME \<Longrightarrow> \<exists>f \<in> set (frame_table s). fr_page f = Some p"
    "is_user_vaddr va \<Longrightarrow> udir s t \<noteq> 0 \<Longrightarrow> entry (mach s) (pdir s t) va AND PTE_P \<noteq> 0 \<Longrightarrow>
      \<exists>p u pg. resides X s t p u pg \<and> same_upage va u \<and> location pg = IN_FRAME"
proof -
  show "maps_to (entry (mach s) (pdir s t) u) pg" "\<exists>f \<in> set (frame_table s). fr_page f = Some p"
    if "resides X s t p u pg" "location pg = IN_FRAME"
    using assms that unfolding mapped_def by blast+
  show "\<exists>p u pg. resides X s t p u pg \<and> same_upage va u \<and> location pg = IN_FRAME"
    if "is_user_vaddr va" "udir s t \<noteq> 0" "entry (mach s) (pdir s t) va AND PTE_P \<noteq> 0"
    using assms that unfolding mapped_def by blast
qed

section \<open>Changing one directory\<close>

lemma space_touch:
  assumes sp: "spaces s" and pd: "pdir s t \<noteq> 0" and to: "touches (mach s) (pdir s t) m" and x: "x \<noteq> t" "pdir s x \<noteq> 0"
  shows "wf_pd m (pdir s x)" "pd_pages m (pdir s x) = pd_pages (mach s) (pdir s x)"
    "is_user_vaddr va \<Longrightarrow> entry m (pdir s x) va = entry (mach s) (pdir s x) va"
    "pd_pages m (pdir s t) \<inter> pd_pages m (pdir s x) = {}"
  using touches_other [OF to spacesD(2) [OF sp x(2)] spacesD(3) [OF sp _ pd x(2)]] x(1) by blast+

lemma spaces_touch:
  assumes sp: "spaces s" and pd: "pdir s t \<noteq> 0" and to: "touches (mach s) (pdir s t) m" and pr: "procs s' = procs s" "mach s' = m"
  shows "spaces s'"
proof -
  note other = space_touch [OF sp pd to]
  have wf: "wf_pd m (pdir s x)" if "pdir s x \<noteq> 0" for x using other(1) [of x] touchesD(1) [OF to] that by (cases "x = t") auto
  have "pd_pages m (pdir s x) \<inter> pd_pages m (pdir s y) = {}" if "x \<noteq> y" "pdir s x \<noteq> 0" "pdir s y \<noteq> 0" for x y
    using that other(2,4) [of x] other(2,4) [of y] spacesD(3) [OF sp that] by (cases "x = t"; cases "y = t") auto
  then show "spaces s'" using wf wf_pd_D(1) [OF wf [OF pd]] procs_cong(1) [OF pr(1)] by (simp add: spaces_def pr(2))
qed

lemma frame_ok_touch: "touches st pd m \<Longrightarrow> frame_ok m f = frame_ok st f"
  by (simp add: frame_ok_def touchesD(6,7))

lemma frame_bytes_touch:
  "touches st pd m \<Longrightarrow> palloc_ok (pal st) \<Longrightarrow> frame_ok st f \<Longrightarrow> page_bytes (mem (pal m)) (fr_kpage f) = page_bytes (mem (pal st)) (fr_kpage f)"
  by (rule touches_user_page) (simp_all add: frame_ok_def)

lemma in_frame:
  assumes ok: "vm_inv X s" and r: "resides X s t p u pg" "location pg = IN_FRAME"
  obtains i where "i < TOTAL_PAGES" "fr_page (frame_table s ! i) = Some p" "fr_kpage (frame_table s ! i) = pg_kpage pg"
    "fr_upage (frame_table s ! i) = u" "fr_pagedir (frame_table s ! i) = pdir s t" "frame_ok (mach s) (frame_table s ! i)"
proof -
  note inv = vm_invD [OF ok]
  obtain f where f: "f \<in> set (frame_table s)" "fr_page f = Some p" using mappedD(2) [OF inv(4) r] by blast
  then obtain i where i: "i < TOTAL_PAGES" "frame_table s ! i = f" using frames_okD(4) [OF inv(3)] inv(3)
    by (auto simp: in_set_conv_nth frames_ok_def)
  have "busy X s f" using frames_okD(3) [OF inv(3) i(1)] i(2) f(2) by (auto simp: idle_def)
  then obtain t' p' pg' where b: "fr_page f = Some p'" "fr_pagedir f = pdir s t'" "resides X s t' p' (fr_upage f) pg'"
      "location pg' = IN_FRAME" "pg_kpage pg' = fr_kpage f"
    by (rule busyD)
  have "t' = t \<and> fr_upage f = u \<and> pg' = pg" using resides_page [OF inv(2) r(1)] b(1,3) f(2) by simp
  then show ?thesis using that [of i] i f(2) b(2,5) frames_okD(2) [OF inv(3) i(1)] by simp
qed

lemma frame_content_touch:
  assumes "vm_inv X s" "touches (mach s) pd m" "resides X s t p u pg" "location pg = IN_FRAME"
  shows "page_bytes (mem (pal m)) (pg_kpage pg) = page_bytes (ram s) (pg_kpage pg)"
  using frame_bytes_touch [OF assms(2) spacesD(1) [OF vm_invD(1) [OF assms(1)]]] in_frame [OF assms(1,3,4)] by metis

lemma mach_upd [simp]: "resides X (s\<lparr>mach := m\<rparr>) = resides X s" "busy X (s\<lparr>mach := m\<rparr>) = busy X s" "pdir (s\<lparr>mach := m\<rparr>) = pdir s"
    "udir (s\<lparr>mach := m\<rparr>) = udir s"
    "own (s\<lparr>mach := m\<rparr>) = own s" "owners (s\<lparr>mach := m\<rparr>) = owners s" "swapped X (s\<lparr>mach := m\<rparr>) = swapped X s"
    "filed X (s\<lparr>mach := m\<rparr>) = filed X s"
  by (simp_all add: resides_def busy_def pdir_def udir_def own_def owners_def swapped_def filed_def swap_ok_def slots_used_def fun_eq_iff)

definition same_map :: "u32 \<Rightarrow> u32 \<Rightarrow> bool" where
  "same_map e e' \<longleftrightarrow> (\<forall>k \<in> {PTE_P, PTE_W, PTE_ADDR}. e' AND k = e AND k)"

lemma same_map_clear_A: "same_map e (e AND NOT PTE_A)"
proof -
  have "PTE_A AND PTE_P = 0" "PTE_A AND PTE_W = 0" "PTE_A AND PTE_ADDR = 0"
    by (simp_all add: PTE_P_def PTE_W_def PTE_A_def PTE_ADDR_def)
  then show ?thesis unfolding same_map_def using and_flag_disjoint(1) by blast
qed

lemma same_map_maps_to: "same_map e e' \<Longrightarrow> maps_to e' pg = maps_to e pg" "same_map e e' \<Longrightarrow> e' AND PTE_P = e AND PTE_P"
  by (simp_all add: same_map_def maps_to_def pte_get_page_def)

lemma step_entries:
  assumes ok: "vm_inv X s" and pd: "pdir s t \<noteq> 0" and to: "touches (mach s) (pdir s t) m"
    and same: "\<And>va. is_user_vaddr va \<Longrightarrow> same_map (entry (mach s) (pdir s t) va) (entry m (pdir s t) va)"
  shows "vm_inv X (s\<lparr>mach := m\<rparr>)" "holds X (s\<lparr>mach := m\<rparr>) t' u bs \<longleftrightarrow> holds X s t' u bs"
proof -
  note inv = vm_invD [OF ok]
  have sp: "spaces (s\<lparr>mach := m\<rparr>)" by (rule spaces_touch [OF inv(1) pd to]) simp_all
  have all: "same_map (entry (mach s) (pdir s x) va) (entry m (pdir s x) va)" if "pdir s x \<noteq> 0" "is_user_vaddr va" for x va
    using same [OF that(2)] space_touch(3) [OF inv(1) pd to _ that(1,2)] by (cases "x = t") (auto simp: same_map_def)
  have "frames_ok X (s\<lparr>mach := m\<rparr>)" using inv(3) frame_ok_touch [OF to] by (simp add: frames_ok_def)
  moreover have "mapped X (s\<lparr>mach := m\<rparr>)"
    unfolding mapped_def mach_upd
  proof (intro conjI allI impI)
    fix x p u pg assume r: "resides X s x p u pg" "location pg = IN_FRAME"
    have "is_user_vaddr u" "pdir s x \<noteq> 0" using residesD(6,7) [OF inv(2) r(1)] by (simp_all add: upage_ok_def)
    then show "maps_to (entry (mach (s\<lparr>mach := m\<rparr>)) (pdir s x) u) pg"
      using mappedD(1) [OF inv(4) r] same_map_maps_to(1) [OF all] by simp
    show "\<exists>f \<in> set (frame_table (s\<lparr>mach := m\<rparr>)). fr_page f = Some p" using mappedD(2) [OF inv(4) r] by simp
  next
    fix x va assume a: "is_user_vaddr va" "udir s x \<noteq> 0" "entry (mach (s\<lparr>mach := m\<rparr>)) (pdir s x) va AND PTE_P \<noteq> 0"
    then show "\<exists>p u pg. resides X s x p u pg \<and> same_upage va u \<and> location pg = IN_FRAME"
      using mappedD(3) [OF inv(4) a(1,2)] same_map_maps_to(2) [OF all] udir_pdir [OF a(2)] by simp
  qed
  ultimately show "vm_inv X (s\<lparr>mach := m\<rparr>)" using sp inv by (simp add: vm_inv_def)
  have "page_content (s\<lparr>mach := m\<rparr>) pg = page_content s pg" if "resides X s x p u pg" for x p u pg
    using frame_content_touch [OF ok to that] by (simp add: page_content_def slot_bytes_def)
  then show "holds X (s\<lparr>mach := m\<rparr>) t' u bs \<longleftrightarrow> holds X s t' u bs" unfolding holds_def mach_upd by metis
qed

section \<open>Eviction\<close>

subsection \<open>Clearing the accessed bit\<close>

definition accessed :: "vm \<Rightarrow> nat \<Rightarrow> bool" where
  "accessed s i \<longleftrightarrow> entry (mach s) (fr_pagedir (frame_table s ! i)) (fr_upage (frame_table s ! i)) AND PTE_A \<noteq> 0"

text \<open>Two busy frames are mapped at different addresses or in different processes.\<close>

lemma busy_apart:
  assumes "vm_inv X s" "i < TOTAL_PAGES" "j < TOTAL_PAGES" "i \<noteq> j" "busy X s (frame_table s ! i)" "busy X s (frame_table s ! j)"
    "fr_pagedir (frame_table s ! i) = pdir s t" "fr_pagedir (frame_table s ! j) = pdir s t"
  shows "\<not> same_upage (fr_upage (frame_table s ! i)) (fr_upage (frame_table s ! j))"
proof
  note inv = vm_invD [OF assms(1)]
  let ?f = "frame_table s ! i" and ?g = "frame_table s ! j"
  assume same: "same_upage (fr_upage ?f) (fr_upage ?g)"
  obtain a p pg where f: "fr_page ?f = Some p" "fr_pagedir ?f = pdir s a" "resides X s a p (fr_upage ?f) pg"
    using assms(5) by (rule busyD)
  obtain b q qg where g: "fr_page ?g = Some q" "fr_pagedir ?g = pdir s b" "resides X s b q (fr_upage ?g) qg"
    using assms(6) by (rule busyD)
  note rf = residesD [OF inv(2) f(3)] and rg = residesD [OF inv(2) g(3)]
  have "pdir s a = pdir s b" using assms(7,8) f(2) g(2) by simp
  then have "a = b" using spacesD(3) [OF inv(1) _ rf(6) rg(6)] pd_pagesI(1) [of "pdir s a" "mach s"] by auto
  moreover have "fr_upage ?f = fr_upage ?g" using same rf(7) rg(7) by (simp add: upage_ok_def same_upage_eq)
  ultimately have "p = q" using resides_unique [OF inv(2) f(3)] g(3) by simp
  then show False using frame_index [OF inv(3,2) assms(2,3) f(1)] g(1) assms(4) by simp
qed

lemma clear_accessed:
  assumes ok: "vm_inv X s" and i: "i < TOTAL_PAGES" and b: "busy X s (frame_table s ! i)"
    and c: "pagedir_set_accessed (fr_pagedir (frame_table s ! i)) (fr_upage (frame_table s ! i)) False (mach s) = Some m"
  shows "vm_inv X (s\<lparr>mach := m\<rparr>)" "holds X (s\<lparr>mach := m\<rparr>) t u bs \<longleftrightarrow> holds X s t u bs"
    "\<And>j. j < TOTAL_PAGES \<Longrightarrow> busy X s (frame_table s ! j) \<Longrightarrow> accessed (s\<lparr>mach := m\<rparr>) j \<longleftrightarrow> j \<noteq> i \<and> accessed s j"
    "kernel_pool (pal m) = kernel_pool (pal (mach s))"
proof -
  note inv = vm_invD [OF ok]
  let ?f = "frame_table s ! i"
  obtain x p pg where f: "fr_page ?f = Some p" "fr_pagedir ?f = pdir s x" "resides X s x p (fr_upage ?f) pg"
    using b by (rule busyD)
  note r = residesD [OF inv(2) f(3)]
  have u: "is_user_vaddr (fr_upage ?f)" using r(7) by (simp add: upage_ok_def)
  have wf: "wf_pd (mach s) (pdir s x)" using spacesD(2) [OF inv(1) r(6)] .
  note c = c [unfolded f(2)]
  have to: "touches (mach s) (pdir s x) m" using pagedir_set_accessed_touches [OF wf u c] .
  have up: "updates_entry (mach s) (pdir s x) (fr_upage ?f) (\<lambda>e. e AND NOT PTE_A) m"
    using pagedir_set_accessed_entry [OF wf u, of False] c by auto
  have e: "entry m (pdir s x) va = (if same_upage va (fr_upage ?f) \<and> pte_addr (mach s) (pdir s x) (fr_upage ?f) \<noteq> 0
      then entry (mach s) (pdir s x) (fr_upage ?f) AND NOT PTE_A else entry (mach s) (pdir s x) va)" if "is_user_vaddr va" for va
    using up that by (simp add: updates_entry_def)
  have same: "same_map (entry (mach s) (pdir s x) va) (entry m (pdir s x) va)" if "is_user_vaddr va" for va
    using e [OF that] entry_same [of va "fr_upage ?f"] same_map_clear_A by (simp add: same_map_def)
  show "vm_inv X (s\<lparr>mach := m\<rparr>)" "holds X (s\<lparr>mach := m\<rparr>) t u bs \<longleftrightarrow> holds X s t u bs"
    using step_entries [OF ok r(6) to same] by blast+
  show "kernel_pool (pal m) = kernel_pool (pal (mach s))" using up by (simp add: updates_entry_def)
  show "accessed (s\<lparr>mach := m\<rparr>) j \<longleftrightarrow> j \<noteq> i \<and> accessed s j" if j: "j < TOTAL_PAGES" "busy X s (frame_table s ! j)" for j
  proof -
    let ?g = "frame_table s ! j"
    obtain y q qg where g: "fr_page ?g = Some q" "fr_pagedir ?g = pdir s y" "resides X s y q (fr_upage ?g) qg"
      using j(2) by (rule busyD)
    note rg = residesD [OF inv(2) g(3)]
    have ug: "is_user_vaddr (fr_upage ?g)" using rg(7) by (simp add: upage_ok_def)
    have "entry m (pdir s x) (fr_upage ?f) AND PTE_A = 0"
      using e [OF u] entry_0 [OF wf u] and_flag_self(1) [of _ PTE_A] by (simp add: same_upage_def)
    moreover have "entry m (pdir s y) (fr_upage ?g) = entry (mach s) (pdir s y) (fr_upage ?g)" if "j \<noteq> i"
    proof (cases "y = x")
      case True
      then have "\<not> same_upage (fr_upage ?g) (fr_upage ?f)"
        using busy_apart [OF ok j(1) i that j(2) b, of x] g(2) f(2) by simp
      then show ?thesis using e [OF ug] True by simp
    next
      case False
      then show ?thesis using space_touch(3) [OF inv(1) r(6) to False rg(6) ug] by simp
    qed
    ultimately show ?thesis using f(2) g(2) by (cases "j = i") (auto simp: accessed_def)
  qed
qed

section \<open>Moving one page\<close>

text \<open>
  Page \<open>p0\<close> of process \<open>t0\<close> enters or leaves frame \<open>c\<close>: its descriptor becomes \<open>pg1\<close> and the frame
  becomes \<open>f1\<close>. Only the entry of its address changes in the page directory.
\<close>

definition moved :: "nat set \<Rightarrow> vm \<Rightarrow> nat \<Rightarrow> nat \<Rightarrow> u32 \<Rightarrow> vpage \<Rightarrow> nat \<Rightarrow> frame_table_elem \<Rightarrow> vm \<Rightarrow> bool" where
  "moved X s t0 p0 u0 pg1 c f1 s' \<longleftrightarrow>
     (p0, u0) \<in> own s t0 \<and> procs s' = procs s \<and> next_addr (vfs s) \<le> next_addr (vfs s') \<and> clock_pointer s' = clock_pointer s \<and>
     vpages s' = (vpages s)(p0 \<mapsto> pg1) \<and> pg_upage pg1 = u0 \<and> pg_pagedir pg1 = pdir s t0 \<and>
     location pg1 \<in> {IN_FRAME, IN_SWAP, IN_FILESYS} \<and>
     c < TOTAL_PAGES \<and> frame_table s' = (frame_table s)[c := f1] \<and> fr_kpage f1 = fr_kpage (frame_table s ! c) \<and>
     occupancy s' = occupancy s + of_bool (fr_upage f1 \<noteq> 0) - of_bool (fr_upage (frame_table s ! c) \<noteq> 0) \<and>
     (fr_page (frame_table s ! c) = Some p0 \<or> p0 \<in> X \<and> fr_page (frame_table s ! c) = None) \<and>
     touches (mach s) (pdir s t0) (mach s') \<and>
     (\<forall>va. is_user_vaddr va \<longrightarrow> \<not> same_upage va u0 \<longrightarrow> entry (mach s') (pdir s t0) va = entry (mach s) (pdir s t0) va) \<and>
     (if location pg1 = IN_FRAME
      then fr_page f1 = Some p0 \<and> fr_upage f1 = u0 \<and> fr_pagedir f1 = pdir s t0 \<and> pg_kpage pg1 = fr_kpage f1 \<and>
        maps_to (entry (mach s') (pdir s t0) u0) pg1
      else idle f1 \<and> (\<forall>va. is_user_vaddr va \<longrightarrow> same_upage va u0 \<longrightarrow> entry (mach s') (pdir s t0) va AND PTE_P = 0))"

lemma movedD:
  assumes "moved X s t0 p0 u0 pg1 c f1 s'"
  shows "(p0, u0) \<in> own s t0" "procs s' = procs s" "next_addr (vfs s) \<le> next_addr (vfs s')" "clock_pointer s' = clock_pointer s"
    "vpages s' = (vpages s)(p0 \<mapsto> pg1)" "pg_upage pg1 = u0" "pg_pagedir pg1 = pdir s t0" "location pg1 \<in> {IN_FRAME, IN_SWAP, IN_FILESYS}"
    "c < TOTAL_PAGES" "frame_table s' = (frame_table s)[c := f1]" "fr_kpage f1 = fr_kpage (frame_table s ! c)"
    "occupancy s' = occupancy s + of_bool (fr_upage f1 \<noteq> 0) - of_bool (fr_upage (frame_table s ! c) \<noteq> 0)"
    "fr_page (frame_table s ! c) = Some p0 \<or> p0 \<in> X \<and> fr_page (frame_table s ! c) = None"
    "touches (mach s) (pdir s t0) (mach s')"
    "\<And>va. is_user_vaddr va \<Longrightarrow> \<not> same_upage va u0 \<Longrightarrow> entry (mach s') (pdir s t0) va = entry (mach s) (pdir s t0) va"
    "location pg1 = IN_FRAME \<Longrightarrow> fr_page f1 = Some p0 \<and> fr_upage f1 = u0 \<and> fr_pagedir f1 = pdir s t0 \<and> pg_kpage pg1 = fr_kpage f1 \<and>
       maps_to (entry (mach s') (pdir s t0) u0) pg1"
    "location pg1 \<noteq> IN_FRAME \<Longrightarrow> idle f1 \<and> (\<forall>va. is_user_vaddr va \<longrightarrow> same_upage va u0 \<longrightarrow> entry (mach s') (pdir s t0) va AND PTE_P = 0)"
    "pdir s' = pdir s" "own s' = own s" "udir s' = udir s"
proof -
  note m = assms [unfolded moved_def]
  show pr: "procs s' = procs s" using m by blast
  show "pdir s' = pdir s" "own s' = own s" "udir s' = udir s" using procs_cong [OF pr] .
  show "location pg1 = IN_FRAME \<Longrightarrow> fr_page f1 = Some p0 \<and> fr_upage f1 = u0 \<and> fr_pagedir f1 = pdir s t0 \<and> pg_kpage pg1 = fr_kpage f1 \<and>
       maps_to (entry (mach s') (pdir s t0) u0) pg1" using m by simp
  show "location pg1 \<noteq> IN_FRAME \<Longrightarrow> idle f1 \<and> (\<forall>va. is_user_vaddr va \<longrightarrow> same_upage va u0 \<longrightarrow> entry (mach s') (pdir s t0) va AND PTE_P = 0)"
    using m by simp
  show "entry (mach s') (pdir s t0) va = entry (mach s) (pdir s t0) va" if "is_user_vaddr va" "\<not> same_upage va u0" for va
    using m that by simp
qed (use assms [unfolded moved_def] in blast)+

lemma moved_resides:
  assumes "owners s" "moved X s t0 p0 u0 pg1 c f1 s'"
  shows "resides (X - {p0}) s' t p u pg \<longleftrightarrow> (if p = p0 then t = t0 \<and> u = u0 \<and> pg = pg1 else resides X s t p u pg)"
proof -
  note m = movedD [OF assms(2)]
  have "(p0, u) \<in> own s t \<longleftrightarrow> t = t0 \<and> u = u0" using own_owner [OF assms(1) m(1), of u t] m(1) by blast
  then show ?thesis by (cases "p = p0") (auto simp: resides_def m(5,19))
qed

lemma moved_spaces:
  assumes "vm_inv X s" "moved X s t0 p0 u0 pg1 c f1 s'"
  shows "spaces s'" "pdir s t0 \<noteq> 0" "upage_ok u0"
    "is_user_vaddr va \<Longrightarrow> pdir s t \<noteq> 0 \<Longrightarrow> t = t0 \<longrightarrow> \<not> same_upage va u0 \<Longrightarrow> entry (mach s') (pdir s t) va = entry (mach s) (pdir s t) va"
proof -
  note inv = vm_invD [OF assms(1)] and m = movedD [OF assms(2)]
  show pd: "pdir s t0 \<noteq> 0" "upage_ok u0" using ownersD [OF inv(2) m(1)] by metis+
  show "spaces s'" by (rule spaces_touch [OF inv(1) pd(1) m(14,2)]) simp
  show "entry (mach s') (pdir s t) va = entry (mach s) (pdir s t) va"
    if "is_user_vaddr va" "pdir s t \<noteq> 0" "t = t0 \<longrightarrow> \<not> same_upage va u0"
    using m(15) [OF that(1)] space_touch(3) [OF inv(1) pd(1) m(14) _ that(2,1)] that(3) by (cases "t = t0") auto
qed

lemma moved_owners:
  assumes "vm_inv X s" "moved X s t0 p0 u0 pg1 c f1 s'"
  shows "owners s'"
  unfolding owners_def
proof (intro conjI allI impI)
  note inv = vm_invD [OF assms(1)] and m = movedD [OF assms(2)]
  fix t p u assume "(p, u) \<in> own s' t"
  then have a: "(p, u) \<in> own s t" by (simp add: m(19))
  obtain pg where pg: "vpages s p = Some pg" "pg_upage pg = u" "pg_pagedir pg = pdir s t" "location pg \<in> {IN_FRAME, IN_SWAP, IN_FILESYS}"
      "pdir s t \<noteq> 0" "upage_ok u"
    using ownersD [OF inv(2) a] .
  show "pdir s' t \<noteq> 0" "upage_ok u" using pg by (simp_all add: m(18))
  show "\<exists>pg. vpages s' p = Some pg \<and> pg_upage pg = u \<and> pg_pagedir pg = pdir s' t \<and> location pg \<in> {IN_FRAME, IN_SWAP, IN_FILESYS}"
    using pg own_owner [OF inv(2) m(1), of u t] a m(5-8,18) by (cases "p = p0") auto
next
  note inv = vm_invD [OF assms(1)] and m = movedD [OF assms(2)]
  show "t = t'" if "(p, u) \<in> own s' t" "(p, u') \<in> own s' t'" for t t' p u u'
    using that own_owner [OF inv(2)] by (auto simp: m(19))
  show "wf_hash page_hash page_less h" if "procs s' t = Some pr" "spt pr = Some h" for t pr h
    using that inv(2) m(2) by (auto simp: owners_def)
  show "p < next_addr (vfs s')" if "vpages s' p = Some pg" for p pg
  proof -
    have "p0 < next_addr (vfs s)" using ownersD [OF inv(2) m(1)] inv(2) unfolding owners_def by metis
    moreover have "p < next_addr (vfs s)" if "vpages s p = Some pg" for pg using that inv(2) unfolding owners_def by blast
    ultimately show ?thesis using that m(3,5) by (auto split: if_splits intro: order_less_le_trans)
  qed
qed

lemma length_filter_update:
  assumes "i < length xs"
  shows "int (length (filter P (xs[i := x]))) = int (length (filter P xs)) + of_bool (P x) - of_bool (P (xs ! i))"
proof -
  have "length (filter P xs) = length (filter P (take i xs @ xs ! i # drop (Suc i) xs))" using id_take_nth_drop [OF assms] by simp
  then show ?thesis using upd_conv_take_nth_drop [OF assms, of x] by simp
qed

lemma frame_ok_kpage: "fr_kpage f = fr_kpage g \<Longrightarrow> frame_ok st f = frame_ok st g"
  by (simp add: frame_ok_def)

lemma moved_frames:
  assumes ok: "vm_inv X s" and mv: "moved X s t0 p0 u0 pg1 c f1 s'"
  shows "frames_ok (X - {p0}) s'"
proof -
  note inv = vm_invD [OF ok] and m = movedD [OF mv] and res = moved_resides [OF vm_invD(2) [OF ok] mv]
  have len: "length (frame_table s) = TOTAL_PAGES" using inv(3) by (simp add: frames_ok_def)
  have bus: "busy (X - {p0}) s' (frame_table s ! i)" if a: "i < TOTAL_PAGES" "i \<noteq> c" "busy X s (frame_table s ! i)" for i
  proof -
    let ?g = "frame_table s ! i"
    obtain t p pg where g: "fr_page ?g = Some p" "fr_pagedir ?g = pdir s t" "resides X s t p (fr_upage ?g) pg" "location pg = IN_FRAME"
        "pg_kpage pg = fr_kpage ?g"
      using a(3) by (rule busyD)
    have "p \<noteq> p0" using frame_index [OF inv(3,2) a(1) m(9) g(1)] m(13) a(2) residesD(2) [OF inv(2) g(3)] by auto
    then show ?thesis unfolding busy_def res m(18) using g by auto
  qed
  have new: "frame_ok (mach s') f1 \<and> (idle f1 \<or> busy (X - {p0}) s' f1)"
  proof
    show "frame_ok (mach s') f1"
      using frames_okD(2) [OF inv(3) m(9)] by (simp add: frame_ok_kpage [OF m(11)] frame_ok_touch [OF m(14)])
    show "idle f1 \<or> busy (X - {p0}) s' f1"
      using m(16,17) unfolding busy_def res m(18) by (cases "location pg1 = IN_FRAME") auto
  qed
  have "frame_ok (mach s') g \<and> (idle g \<or> busy (X - {p0}) s' g)" if a: "g \<in> set (frame_table s')" for g
  proof -
    obtain i where i: "i < TOTAL_PAGES" "g = (if i = c then f1 else frame_table s ! i)"
      using a len by (auto simp: m(10) in_set_conv_nth nth_list_update)
    have "frame_ok (mach s') (frame_table s ! i)" using frames_okD(2) [OF inv(3) i(1)] by (simp add: frame_ok_touch [OF m(14)])
    then show ?thesis using new bus [OF i(1)] i(2) frames_okD(3) [OF inv(3) i(1)] by (cases "i = c") auto
  qed
  moreover have "map fr_kpage (frame_table s') = map fr_kpage (frame_table s)"
    by (rule nth_equalityI) (use m(9,11) len in \<open>simp_all add: m(10) nth_list_update\<close>)
  moreover have "occupancy s' = int (length (filter (\<lambda>f. fr_upage f \<noteq> 0) (frame_table s')))"
    using m(9,12) len inv(3) length_filter_update [of c "frame_table s" "\<lambda>f. fr_upage f \<noteq> 0" f1]
    unfolding frames_ok_def by (simp add: m(10))
  ultimately show ?thesis using inv(3) len by (simp add: frames_ok_def m(4,10))
qed

lemma moved_mapped:
  assumes ok: "vm_inv X s" and mv: "moved X s t0 p0 u0 pg1 c f1 s'"
  shows "mapped (X - {p0}) s'"
  unfolding mapped_def
proof (intro conjI allI impI)
  note inv = vm_invD [OF ok] and m = movedD [OF mv] and res = moved_resides [OF vm_invD(2) [OF ok] mv] and sp = moved_spaces [OF ok mv]
  have len: "length (frame_table s) = TOTAL_PAGES" using inv(3) by (simp add: frames_ok_def)
  fix t p u pg assume r: "resides (X - {p0}) s' t p u pg" "location pg = IN_FRAME"
  have "maps_to (entry (mach s') (pdir s t) u) pg \<and> (\<exists>f \<in> set (frame_table s'). fr_page f = Some p)"
  proof (cases "p = p0")
    case True
    then have "t = t0" "u = u0" "pg = pg1" using r(1) by (simp_all add: res)
    moreover have "f1 \<in> set (frame_table s')" using m(9) len by (simp add: m(10) set_update_memI)
    ultimately show ?thesis using m(16) r(2) True by auto
  next
    case False
    then have rs: "resides X s t p u pg" using r(1) by (simp add: res)
    note rr = residesD [OF inv(2) rs]
    have "\<not> same_upage u u0" if "t = t0"
      using that own_unique [OF inv(2) m(1)] rr(1,7) sp(3) False by (auto simp: upage_ok_def same_upage_eq)
    then have "entry (mach s') (pdir s t) u = entry (mach s) (pdir s t) u" using sp(4) [of u t] rr(6,7) by (auto simp: upage_ok_def)
    moreover obtain i where i: "i < TOTAL_PAGES" "fr_page (frame_table s ! i) = Some p" using in_frame [OF ok rs r(2)] by metis
    have "i \<noteq> c" using i(2) m(13) False by auto
    then have "frame_table s' ! i = frame_table s ! i" by (simp add: m(10))
    moreover have "frame_table s' ! i \<in> set (frame_table s')" using i(1) len by (intro nth_mem) (simp add: m(10))
    ultimately show ?thesis using mappedD(1) [OF inv(4) rs r(2)] i(2) by metis
  qed
  then show "maps_to (entry (mach s') (pdir s' t) u) pg" "\<exists>f \<in> set (frame_table s'). fr_page f = Some p" by (simp_all add: m(18))
next
  note inv = vm_invD [OF ok] and m = movedD [OF mv] and res = moved_resides [OF vm_invD(2) [OF ok] mv] and sp = moved_spaces [OF ok mv]
  fix t va assume a: "is_user_vaddr va" "udir s' t \<noteq> 0" "entry (mach s') (pdir s' t) va AND PTE_P \<noteq> 0"
  then have ud: "udir s t \<noteq> 0" by (simp add: m(20))
  then have pd: "pdir s t \<noteq> 0" by (rule udir_pdir)
  show "\<exists>p u pg. resides (X - {p0}) s' t p u pg \<and> same_upage va u \<and> location pg = IN_FRAME"
  proof (cases "t = t0 \<and> same_upage va u0")
    case True
    then have "location pg1 = IN_FRAME" using m(17) a by (auto simp: m(18))
    then show ?thesis using True unfolding res by (intro exI [of _ p0] exI [of _ u0] exI [of _ pg1]) simp
  next
    case False
    then have "entry (mach s) (pdir s t) va AND PTE_P \<noteq> 0" using sp(4) [OF a(1) pd] a(3) by (simp add: m(18))
    then obtain p u pg where r: "resides X s t p u pg" "same_upage va u" "location pg = IN_FRAME"
      using mappedD(3) [OF inv(4) a(1) ud] by blast
    have "p \<noteq> p0" using own_owner [OF inv(2) m(1)] residesD(1) [OF inv(2) r(1)] r(2) False by auto
    then show ?thesis using r by (auto simp: res)
  qed
qed

lemmas moved_inv = moved_spaces(1) moved_owners moved_frames moved_mapped

section \<open>Evicting a frame\<close>

subsection \<open>Writing to another device leaves files alone\<close>

lemma disk_only_dev:
  assumes "disk_ok v" "only_dev b (devs v) d" "apart (devs v) b (fs_device v)"
  shows "disk_ok (v\<lparr>devs := d\<rparr>)" "sect (v\<lparr>devs := d\<rparr>) = sect v" "fs_size (v\<lparr>devs := d\<rparr>) = fs_size v"
proof -
  have r: "device_ready (fs_device v) (fs_size v) (devs v)" using assms(1) by (simp add: disk_ok_def)
  have r': "device_ready (fs_device v) (fs_size v) d" using only_dev_ready [OF assms(2) r] .
  show sz: "fs_size (v\<lparr>devs := d\<rparr>) = fs_size v" using r' by (simp add: fs_size_def device_ready_def)
  have "sector_of d (fs_device v) t = sector_of (devs v) (fs_device v) t" if "t < fs_size v" for t
    using only_dev_apart [OF assms(2,3)] r that by (simp add: device_ready_def fs_size_def)
  then show se: "sect (v\<lparr>devs := d\<rparr>) = sect v" using sz by (auto simp: sect_def fun_eq_iff)
  show "disk_ok (v\<lparr>devs := d\<rparr>)" using assms(1) r' by (simp add: disk_ok_def sz se)
qed

lemma file_page_cong:
  assumes "files v' = files v" "inodes v' = inodes v" "fs_size v' = fs_size v" "sect v' = sect v"
  shows "file_page v' pg = file_page v pg" "file_bytes v' pg = file_bytes v pg"
proof -
  have c: "data_ok v' = data_ok v" "content v' = content v" by (simp_all add: fun_eq_iff data_ok_def content_def data_byte_def assms)
  show "file_page v' pg = file_page v pg" "file_bytes v' pg = file_bytes v pg"
    unfolding file_page_def file_bytes_def assms(1,2) c by (rule refl)+
qed

lemma unat_slot:
  assumes "swap_ok s" "i < slots s"
  shows "unat (of_nat (8 * i) :: u32) = 8 * i"
proof -
  obtain b :: bitmap and n :: u32 where "8 * unat (bit_cnt b) \<le> unat n" "slots s = unat (bit_cnt b)"
    using assms(1) by (elim swap_okD) blast
  then have "unat (of_nat (8 * i + 0) :: u32) = 8 * i + 0" using assms(2) by (intro slot_sectors(1)) simp_all
  then show ?thesis by (simp only: add_0_right)
qed

lemma swap_room:
  assumes "swap_ok s" "i < slots s" "j < slots s" "of_nat (8 * i) = (of_nat (8 * j) :: u32)"
  shows "i = j"
  using arg_cong [OF assms(4), of unat] unfolding unat_slot [OF assms(1,2)] unat_slot [OF assms(1,3)] by simp

text \<open>The state after the body of \<open>evict_frame\<close>, in terms of what changed.\<close>

definition evicted :: "vm \<Rightarrow> nat \<Rightarrow> nat \<Rightarrow> vpage \<Rightarrow> pd_state \<Rightarrow> sector devices \<Rightarrow> bitmap \<Rightarrow> vm" where
  "evicted s c p pg m d b = s\<lparr>mach := m, vfs := (vfs s)\<lparr>devs := d\<rparr>, free_bitmap := Some b, vpages := (vpages s)(p \<mapsto> pg),
     frame_table := (frame_table s)[c := clear_frame (frame_table s ! c)], occupancy := occupancy s - 1\<rparr>"

lemma evicted_simps [simp]:
  "mach (evicted s c p pg m d b) = m" "vfs (evicted s c p pg m d b) = (vfs s)\<lparr>devs := d\<rparr>"
  "swap_block (evicted s c p pg m d b) = swap_block s" "free_bitmap (evicted s c p pg m d b) = Some b"
  "vpages (evicted s c p pg m d b) = (vpages s)(p \<mapsto> pg)"
  "frame_table (evicted s c p pg m d b) = (frame_table s)[c := clear_frame (frame_table s ! c)]"
  "occupancy (evicted s c p pg m d b) = occupancy s - 1" "clock_pointer (evicted s c p pg m d b) = clock_pointer s"
  "frame_lock (evicted s c p pg m d b) = frame_lock s" "procs (evicted s c p pg m d b) = procs s"
  "current (evicted s c p pg m d b) = current s" "pdir (evicted s c p pg m d b) = pdir s" "own (evicted s c p pg m d b) = own s"
  by (simp_all add: evicted_def pdir_def own_def fun_eq_iff)

definition evict_facts :: "vm \<Rightarrow> frame_table_elem \<Rightarrow> nat \<Rightarrow> nat \<Rightarrow> vpage \<Rightarrow> pd_state \<Rightarrow> nat \<Rightarrow> sector devices \<Rightarrow> bitmap \<Rightarrow> bool" where
  "evict_facts s f t p pg m j d b \<longleftrightarrow>
     evict_frame f s = Some (evicted s (clock_pointer s) p (pg\<lparr>swap_location := of_nat (8 * j), location := IN_SWAP, pg_kpage := 0\<rparr>) m d b, fr_kpage f) \<and>
     fr_page f = Some p \<and> fr_pagedir f = pdir s t \<and> resides {} s t p (fr_upage f) pg \<and> location pg = IN_FRAME \<and> pg_kpage pg = fr_kpage f \<and>
     touches (mach s) (pdir s t) m \<and> kernel_pool (pal m) = kernel_pool (pal (mach s)) \<and>
     (\<forall>va. is_user_vaddr va \<longrightarrow> same_upage va (fr_upage f) \<longrightarrow> entry m (pdir s t) va AND PTE_P = 0) \<and>
     (\<forall>va. is_user_vaddr va \<longrightarrow> \<not> same_upage va (fr_upage f) \<longrightarrow> entry m (pdir s t) va = entry (mach s) (pdir s t) va) \<and>
     only_dev (swap_block s) (vdevs s) d \<and> swap_ok (set_devs d (s\<lparr>free_bitmap := Some b\<rparr>)) \<and> j < slots s \<and> j \<notin> slots_used s \<and>
     marked b = insert j (slots_used s) \<and> unat (bit_cnt b) = slots s \<and>
     (\<forall>i < slots s. slot_bytes (set_devs d s) i = (if i = j then page_bytes (ram s) (fr_kpage f) else slot_bytes s i))"

lemma evict_frame_run:
  assumes ok: "vm_inv {} s" and b: "busy {} s (frame_table s ! clock_pointer s)"
    and free: "j0 < slots s" "j0 \<notin> slots_used s"
  shows "\<exists>t p pg m j d bm'. evict_facts s (frame_table s ! clock_pointer s) t p pg m j d bm'"
proof -
  define f where "f = frame_table s ! clock_pointer s"
  note inv = vm_invD [OF ok]
  obtain t p pg where f: "fr_page f = Some p" "fr_pagedir f = pdir s t" "resides {} s t p (fr_upage f) pg"
      "location pg = IN_FRAME" "pg_kpage pg = fr_kpage f"
    using b unfolding f_def by (rule busyD)
  note r = residesD [OF inv(2) f(3)]
  have u: "is_user_vaddr (fr_upage f)" "pg_ofs (fr_upage f) = 0" using r(7) by (simp_all add: upage_ok_def)
  have wf: "wf_pd (mach s) (pdir s t)" using spacesD(2) [OF inv(1) r(6)] .
  obtain m where m: "pagedir_clear_page (pdir s t) (fr_upage f) (mach s) = Some m"
      "updates_entry (mach s) (pdir s t) (fr_upage f) (\<lambda>e. if e AND PTE_P \<noteq> 0 then e AND NOT PTE_P else e) m"
    using pagedir_clear_page_entry [OF wf u] by blast
  have to: "touches (mach s) (pdir s t) m" using pagedir_clear_page_touches [OF wf u(1) m(1)] .
  have cl: "clock_pointer s < TOTAL_PAGES" using inv(3) by (simp add: frames_ok_def)
  have fo: "frame_ok (mach s) f" using frames_okD(2) [OF inv(3) cl] by (simp add: f_def)
  have k: "pg_ofs (fr_kpage f) = 0" "is_kernel_vaddr (fr_kpage f)"
    using fo frame_okD [OF spacesD(1) [OF inv(1)] fo] by (simp_all add: frame_ok_def)
  let ?s = "s\<lparr>mach := m\<rparr>"
  have sw: "swap_ok ?s" "vpages ?s p = Some pg" "j0 < slots ?s" "j0 \<notin> slots_used ?s"
    using inv(5) r(3) free by (simp_all add: swapped_def swap_ok_def slots_def slots_used_def)
  obtain j d bm' where w: "swap_write (fr_kpage f) p ?s =
        Some (set_page p (pg\<lparr>swap_location := of_nat (8 * j)\<rparr>) (set_devs d (?s\<lparr>free_bitmap := Some bm'\<rparr>)))"
      "only_dev (swap_block s) (vdevs s) d" "swap_ok (set_devs d (?s\<lparr>free_bitmap := Some bm'\<rparr>))"
      "j < slots s" "j \<notin> slots_used s" "marked bm' = insert j (slots_used s)" "unat (bit_cnt bm') = slots s"
      "\<forall>i < slots s. slot_bytes (set_devs d ?s) i = (if i = j then page_bytes (mem (pal m)) (fr_kpage f) else slot_bytes ?s i)"
    using swap_write_ok [OF sw(1,2) k sw(3,4)] by (auto simp: slots_def slots_used_def)
  have e0: "entry m (pdir s t) va AND PTE_P = 0" if "is_user_vaddr va" "same_upage va (fr_upage f)" for va
    using m(2) that entry_0 [OF wf u(1)] entry_same [OF that(2)] and_flag_self(1) [of _ PTE_P]
    by (cases "pte_addr (mach s) (pdir s t) (fr_upage f) = 0") (auto simp: updates_entry_def)
  have e1: "entry m (pdir s t) va = entry (mach s) (pdir s t) va" if "is_user_vaddr va" "\<not> same_upage va (fr_upage f)" for va
    using m(2) that by (simp add: updates_entry_def)
  have run: "evict_frame f s = Some (evicted s (clock_pointer s) p
      (pg\<lparr>swap_location := of_nat (8 * j), location := IN_SWAP, pg_kpage := 0\<rparr>) m d bm', fr_kpage f)"
    using m(1) w(1) f(1,2) by (simp add: evict_frame_def evicted_def f_def set_page_def set_devs_def)
  have sl: "slot_bytes (set_devs d s) i = (if i = j then page_bytes (ram s) (fr_kpage f) else slot_bytes s i)" if "i < slots s" for i
    using w(8) that frame_bytes_touch [OF to spacesD(1) [OF inv(1)] fo] by (simp add: slot_bytes_def)
  have "swap_ok (set_devs d (s\<lparr>free_bitmap := Some bm'\<rparr>))" using w(3) by (simp add: swap_ok_def)
  moreover have "kernel_pool (pal m) = kernel_pool (pal (mach s))" using m(2) by (simp add: updates_entry_def)
  ultimately have "evict_facts s f t p pg m j d bm'"
    unfolding evict_facts_def using run f to e0 e1 w(2,4-7) sl by blast
  then show ?thesis unfolding f_def by blast
qed

lemma evict_moved:
  assumes "vm_inv {} s" "evict_facts s (frame_table s ! clock_pointer s) t p pg m j d b"
  defines "pg1 \<equiv> pg\<lparr>swap_location := of_nat (8 * j), location := IN_SWAP, pg_kpage := 0\<rparr>"
  shows "moved {} s t p (fr_upage (frame_table s ! clock_pointer s)) pg1 (clock_pointer s)
    (clear_frame (frame_table s ! clock_pointer s)) (evicted s (clock_pointer s) p pg1 m d b)"
proof -
  note inv = vm_invD [OF assms(1)]
  note f = assms(2) [unfolded evict_facts_def]
  have r: "resides {} s t p (fr_upage (frame_table s ! clock_pointer s)) pg" using f by blast
  note r = residesD [OF inv(2) r]
  have cl: "clock_pointer s < TOTAL_PAGES" using inv(3) by (simp add: frames_ok_def)
  show ?thesis
    unfolding moved_def using f r cl
    by (simp add: pg1_def clear_frame_def idle_def upage_ok_def)
qed

lemma evicted_swapped:
  assumes ok: "vm_inv {} s" and facts: "evict_facts s (frame_table s ! clock_pointer s) t p pg m j d b"
  defines "pg1 \<equiv> pg\<lparr>swap_location := of_nat (8 * j), location := IN_SWAP, pg_kpage := 0\<rparr>"
  shows "swapped {} (evicted s (clock_pointer s) p pg1 m d b)"
proof -
  note inv = vm_invD [OF ok]
  let ?s = "evicted s (clock_pointer s) p pg1 m d b"
  have j: "j < slots s" "j \<notin> slots_used s" and su: "slots_used ?s = insert j (slots_used s)"
    and ok': "swap_ok (set_devs d (s\<lparr>free_bitmap := Some b\<rparr>))"
    using facts by (simp_all add: evict_facts_def slots_used_def)
  have res: "resides {} ?s t' q v qg \<longleftrightarrow> (if q = p then t' = t \<and> v = fr_upage (frame_table s ! clock_pointer s) \<and> qg = pg1 else resides {} s t' q v qg)" for t' q v qg
    using moved_resides [OF inv(2) evict_moved [OF ok facts]] by (simp add: pg1_def)
  have sok: "swap_ok s" using inv(5) by (simp add: swapped_def)
  have slot: "\<exists>i \<in> slots_used s. swap_location qg = of_nat (8 * i)" if "resides {} s x q v qg" "location qg = IN_SWAP" for x q v qg
    using inv(5) that unfolding swapped_def by blast
  have fresh: "swap_location qg \<noteq> of_nat (8 * j)" if "resides {} s x q v qg" "location qg = IN_SWAP" for x q v qg
    using slot [OF that] swap_room [OF sok _ j(1)] slots_used_bound [OF sok] j(2) by metis
  show ?thesis
    unfolding swapped_def
  proof (intro conjI allI impI)
    show "swap_ok ?s" using ok' by (simp add: swap_ok_def)
    show "\<exists>i \<in> slots_used ?s. swap_location qg = of_nat (8 * i)" if "resides {} ?s x q v qg" "location qg = IN_SWAP" for x q v qg
      using that slot unfolding res su by (cases "q = p") (auto simp: pg1_def)
    show "q = q'" if "resides {} ?s x q v qg" "resides {} ?s x' q' v' qg'" "location qg = IN_SWAP" "location qg' = IN_SWAP"
        "swap_location qg = swap_location qg'" for x q v qg x' q' v' qg'
    proof (cases "q = p \<or> q' = p")
      case True
      have "swap_location pg1 = of_nat (8 * j)" by (simp add: pg1_def)
      then show ?thesis using True that fresh unfolding res by metis
    next
      case False
      then show ?thesis using inv(5) that unfolding swapped_def res by (metis (no_types, lifting))
    qed
  qed
qed

lemma evicted_files:
  assumes ok: "vm_inv {} s" and facts: "evict_facts s (frame_table s ! clock_pointer s) t p pg m j d b"
  defines "pg1 \<equiv> pg\<lparr>swap_location := of_nat (8 * j), location := IN_SWAP, pg_kpage := 0\<rparr>"
  shows "filed {} (evicted s (clock_pointer s) p pg1 m d b)" "file_bytes ((vfs s)\<lparr>devs := d\<rparr>) qg = file_bytes (vfs s) qg"
proof -
  note inv = vm_invD [OF ok]
  let ?s = "evicted s (clock_pointer s) p pg1 m d b"
  have d: "only_dev (swap_block s) (vdevs s) d" using facts by (simp add: evict_facts_def)
  have ap: "disk_ok (vfs s)" "apart (vdevs s) (swap_block s) (fs_device (vfs s))" using inv(6) by (simp_all add: filed_def)
  note dk = disk_only_dev [OF ap(1) d ap(2)]
  have fp: "file_page ((vfs s)\<lparr>devs := d\<rparr>) qg = file_page (vfs s) qg" "file_bytes ((vfs s)\<lparr>devs := d\<rparr>) qg = file_bytes (vfs s) qg" for qg
    using file_page_cong [of "(vfs s)\<lparr>devs := d\<rparr>" "vfs s"] dk by simp_all
  then show "file_bytes ((vfs s)\<lparr>devs := d\<rparr>) qg = file_bytes (vfs s) qg" by blast
  have lens: "swap_block s < length (all_blocks (vdevs s))" "fs_device (vfs s) < length (all_blocks (vdevs s))"
    using inv(5) ap(1) by (auto simp: swapped_def swap_ok_def disk_ok_def device_ready_def)
  have res: "resides {} ?s t' q v qg \<longleftrightarrow> (if q = p then t' = t \<and> v = fr_upage (frame_table s ! clock_pointer s) \<and> qg = pg1 else resides {} s t' q v qg)" for t' q v qg
    using moved_resides [OF inv(2) evict_moved [OF ok facts]] by (simp add: pg1_def)
  show "filed {} ?s"
    unfolding filed_def
  proof (intro conjI allI impI)
    show "disk_ok (vfs ?s)" using dk(1) by simp
    show "apart (vdevs ?s) (swap_block ?s) (fs_device (vfs ?s))" using apart_only_dev [OF d ap(2) lens] by simp
    show "file_page (vfs ?s) qg" if "resides {} ?s x q v qg" "location qg = IN_FILESYS" for x q v qg
      using that inv(6) fp(1) unfolding filed_def res by (auto simp: pg1_def split: if_splits)
  qed
qed

lemma slot_of_page: "swap_ok s \<Longrightarrow> i < slots s \<Longrightarrow> swap_location pg = of_nat (8 * i) \<Longrightarrow> unat (swap_location pg) div 8 = i"
  using unat_slot [of s i] by simp

lemma evicted_content:
  assumes ok: "vm_inv {} s" and facts: "evict_facts s (frame_table s ! clock_pointer s) t p pg m j d b"
  defines "pg1 \<equiv> pg\<lparr>swap_location := of_nat (8 * j), location := IN_SWAP, pg_kpage := 0\<rparr>"
  shows "resides {} s x q v qg \<Longrightarrow> q \<noteq> p \<Longrightarrow> page_content (evicted s (clock_pointer s) p pg1 m d b) qg = page_content s qg"
    "page_content (evicted s (clock_pointer s) p pg1 m d b) pg1 = page_content s pg"
proof -
  note inv = vm_invD [OF ok]
  let ?s = "evicted s (clock_pointer s) p pg1 m d b" and ?f = "frame_table s ! clock_pointer s"
  have sok: "swap_ok s" using inv(5) by (simp add: swapped_def)
  have j: "j < slots s" "j \<notin> slots_used s" "touches (mach s) (pdir s t) m" "location pg = IN_FRAME" "pg_kpage pg = fr_kpage ?f"
      "\<forall>i < slots s. slot_bytes (set_devs d s) i = (if i = j then page_bytes (ram s) (fr_kpage ?f) else slot_bytes s i)"
    using facts by (simp_all add: evict_facts_def)
  have sl: "slot_bytes ?s i = slot_bytes (set_devs d s) i" for i by (simp add: slot_bytes_def)
  show "page_content ?s qg = page_content s qg" if a: "resides {} s x q v qg" "q \<noteq> p"
  proof (cases "location qg = IN_SWAP")
    case True
    then obtain i where i: "i \<in> slots_used s" "swap_location qg = of_nat (8 * i)" using inv(5) a(1) unfolding swapped_def by blast
    have il: "i < slots s" using slots_used_bound [OF sok i(1)] .
    have "slot_bytes ?s i = slot_bytes s i" using j(2,6) il i(1) by (auto simp: sl)
    then show ?thesis using True slot_of_page [OF sok il i(2)] by (simp add: page_content_def)
  next
    case False
    then show ?thesis using frame_content_touch [OF ok j(3) a(1)] evicted_files(2) [OF ok facts] by (auto simp: page_content_def)
  qed
  have "unat (swap_location pg1) div 8 = j" by (rule slot_of_page [OF sok j(1)]) (simp add: pg1_def)
  then show "page_content ?s pg1 = page_content s pg" using j(1,4-6) by (simp add: page_content_def sl) (simp add: pg1_def)
qed

lemma evict_frame_ok:
  assumes ok: "vm_inv {} s" and b: "busy {} s (frame_table s ! clock_pointer s)"
    and free: "j0 < slots s" "j0 \<notin> slots_used s"
  shows "\<exists>s'. evict_frame (frame_table s ! clock_pointer s) s = Some (s', fr_kpage (frame_table s ! clock_pointer s)) \<and> vm_inv {} s' \<and>
    (\<forall>t u bs. holds {} s' t u bs \<longleftrightarrow> holds {} s t u bs) \<and>
    frame_table s' = (frame_table s)[clock_pointer s := clear_frame (frame_table s ! clock_pointer s)] \<and>
    procs s' = procs s \<and> current s' = current s \<and> frame_lock s' = frame_lock s \<and> clock_pointer s' = clock_pointer s \<and>
    (\<exists>d. vfs s' = (vfs s)\<lparr>devs := d\<rparr>) \<and> kernel_pool (pal (mach s')) = kernel_pool (pal (mach s)) \<and>
    (\<forall>p pg. vpages s p = Some pg \<longrightarrow> location pg \<noteq> IN_FRAME \<longrightarrow> vpages s' p = Some pg)"
proof -
  note inv = vm_invD [OF ok]
  obtain t p pg m j d bm' where facts: "evict_facts s (frame_table s ! clock_pointer s) t p pg m j d bm'"
    using evict_frame_run [OF ok b free] by blast
  define f where "f = frame_table s ! clock_pointer s"
  define pg1 where "pg1 = pg\<lparr>swap_location := of_nat (8 * j), location := IN_SWAP, pg_kpage := 0\<rparr>"
  define s' where "s' = evicted s (clock_pointer s) p pg1 m d bm'"
  have run: "evict_frame f s = Some (s', fr_kpage f)" and r: "resides {} s t p (fr_upage f) pg" "location pg = IN_FRAME"
    and kp: "kernel_pool (pal m) = kernel_pool (pal (mach s))"
    using facts by (simp_all add: evict_facts_def f_def s'_def pg1_def)
  note mv = evict_moved [OF ok facts, folded f_def pg1_def, folded s'_def]
  note c = evicted_content [OF ok facts, folded pg1_def, folded s'_def]
  have inv': "vm_inv {} s'"
    using moved_inv [OF ok mv] evicted_swapped [OF ok facts] evicted_files(1) [OF ok facts]
    by (simp add: vm_inv_def s'_def pg1_def)
  have "resides {} s' t' q v qg \<longleftrightarrow> (if q = p then t' = t \<and> v = fr_upage f \<and> qg = pg1 else resides {} s t' q v qg)" for t' q v qg
    using moved_resides [OF inv(2) mv] by simp
  moreover have "resides {} s t' p v qg \<longleftrightarrow> t' = t \<and> v = fr_upage f \<and> qg = pg" for t' v qg
    using resides_page [OF inv(2) r(1)] r(1) by blast
  ultimately have "holds {} s' t' v bs \<longleftrightarrow> holds {} s t' v bs" for t' v bs
    unfolding holds_def using c by metis
  moreover have "vpages s' q = Some qg" if "vpages s q = Some qg" "location qg \<noteq> IN_FRAME" for q qg
    using that r residesD(3) [OF inv(2) r(1)] by (auto simp: s'_def)
  ultimately show ?thesis using run inv' kp unfolding f_def by (intro exI [of _ s']) (auto simp: s'_def)
qed

section \<open>The clock\<close>

lemma clock_upd [simp]: "resides X (s\<lparr>clock_pointer := c\<rparr>) = resides X s" "busy X (s\<lparr>clock_pointer := c\<rparr>) = busy X s"
    "pdir (s\<lparr>clock_pointer := c\<rparr>) = pdir s" "own (s\<lparr>clock_pointer := c\<rparr>) = own s" "owners (s\<lparr>clock_pointer := c\<rparr>) = owners s"
    "swapped X (s\<lparr>clock_pointer := c\<rparr>) = swapped X s" "filed X (s\<lparr>clock_pointer := c\<rparr>) = filed X s"
    "spaces (s\<lparr>clock_pointer := c\<rparr>) = spaces s" "mapped X (s\<lparr>clock_pointer := c\<rparr>) = mapped X s"
    "holds X (s\<lparr>clock_pointer := c\<rparr>) = holds X s" "accessed (s\<lparr>clock_pointer := c\<rparr>) = accessed s"
  by (simp_all add: resides_def busy_def pdir_def udir_def own_def owners_def swapped_def filed_def swap_ok_def slots_used_def fun_eq_iff
      spaces_def mapped_def holds_def page_content_def slot_bytes_def accessed_def)

lemma advance_clock_eq: "advance_clock s = s\<lparr>clock_pointer := if Suc (clock_pointer s) = TOTAL_PAGES then 25 else Suc (clock_pointer s)\<rparr>"
  by (simp add: advance_clock_def Let_def)

lemma vm_inv_clock: "vm_inv X s \<Longrightarrow> vm_inv X (advance_clock s)"
  unfolding advance_clock_eq vm_inv_def by (auto simp: frames_ok_def TOTAL_PAGES_def)

lemma holds_clock [simp]: "holds X (advance_clock s) = holds X s"
  by (simp add: advance_clock_eq)

text \<open>What finding a frame does to the rest of the system.\<close>

definition quiet :: "vm \<Rightarrow> vm \<Rightarrow> bool" where
  "quiet s s' \<longleftrightarrow> procs s' = procs s \<and> current s' = current s \<and> frame_lock s' = frame_lock s \<and> (\<exists>d. vfs s' = (vfs s)\<lparr>devs := d\<rparr>) \<and>
     kernel_pool (pal (mach s')) = kernel_pool (pal (mach s)) \<and>
     (\<forall>p pg. vpages s p = Some pg \<longrightarrow> location pg \<noteq> IN_FRAME \<longrightarrow> vpages s' p = Some pg) \<and>
     (\<forall>t u bs. holds {} s' t u bs \<longleftrightarrow> holds {} s t u bs)"

lemma quiet_refl: "quiet s s"
proof -
  have "\<exists>d. vfs s = (vfs s)\<lparr>devs := d\<rparr>" by (intro exI [of _ "vdevs s"]) simp
  then show ?thesis by (simp add: quiet_def)
qed

lemma quiet_trans: "quiet a b \<Longrightarrow> quiet b c \<Longrightarrow> quiet a c"
  unfolding quiet_def by (elim conjE exE) (auto intro: exI)

definition free_frame :: "vm \<Rightarrow> u32 \<Rightarrow> bool" where
  "free_frame s k \<longleftrightarrow> (\<exists>i < TOTAL_PAGES. fr_kpage (frame_table s ! i) = k \<and> idle (frame_table s ! i))"

definition hot :: "vm \<Rightarrow> nat set" where
  "hot s = {i. 25 \<le> i \<and> i < TOTAL_PAGES \<and> accessed s i}"

text \<open>The frame that a scan of the table finds.\<close>

definition first_free :: "vm \<Rightarrow> u32 \<Rightarrow> bool" where
  "first_free s k \<longleftrightarrow> map_option fr_kpage (find (\<lambda>f. fr_upage f = 0) (frame_table s)) = Some k"

lemma find_update: "(\<And>x. x \<in> set xs \<Longrightarrow> \<not> P x) \<Longrightarrow> c < length xs \<Longrightarrow> P y \<Longrightarrow> find P (xs[c := y]) = Some y"
  by (induction xs arbitrary: c) (auto split: nat.splits)

lemma frame_evict_ok:
  assumes "vm_inv {} s" "\<And>i. i < TOTAL_PAGES \<Longrightarrow> fr_upage (frame_table s ! i) \<noteq> 0" "j < slots s" "j \<notin> slots_used s"
  shows "\<exists>s' k. frame_evict s = Some (s', k) \<and> vm_inv {} s' \<and> quiet s s' \<and> free_frame s' k \<and> first_free s' k"
  using assms
proof (induction "card (hot s)" arbitrary: s rule: less_induct)
  case less
  note ok = less.prems(1) and inv = vm_invD [OF less.prems(1)]
  define c where "c = clock_pointer s"
  define f where "f = frame_table s ! c"
  have c: "c < TOTAL_PAGES" "25 \<le> c" "length (frame_table s) = TOTAL_PAGES" using inv(3) by (simp_all add: c_def frames_ok_def)
  have all: "busy {} s (frame_table s ! i)" if "i < TOTAL_PAGES" for i
    using frames_okD(3) [OF inv(3) that] less.prems(2) [OF that] by (auto simp: idle_def)
  have bf: "busy {} s f" using all [OF c(1)] by (simp add: f_def)
  then obtain t p pg where r: "fr_pagedir f = pdir s t" "resides {} s t p (fr_upage f) pg" by (rule busyD)
  note rr = residesD [OF inv(2) r(2)]
  have u: "is_user_vaddr (fr_upage f)" using rr(7) by (simp add: upage_ok_def)
  have wf: "wf_pd (mach s) (pdir s t)" using spacesD(2) [OF inv(1) rr(6)] .
  have acc: "pagedir_is_accessed (fr_pagedir f) (fr_upage f) (mach s) = Some (accessed s c)"
    using pagedir_is_accessed_entry [OF wf u] r(1) by (simp add: accessed_def f_def)
  have body: "frame_evict s = (if \<not> accessed s c then do { (s, k) \<leftarrow> evict_frame f s; Some (advance_clock s, k) }
      else do { m \<leftarrow> pagedir_set_accessed (fr_pagedir f) (fr_upage f) False (mach s); frame_evict (advance_clock (s\<lparr>mach := m\<rparr>)) })"
    using c acc unfolding f_def c_def by (subst frame_evict.simps) (simp add: Let_def)
  show ?case
  proof (cases "accessed s c")
    case False
    obtain s1 where s1: "evict_frame f s = Some (s1, fr_kpage f)" "vm_inv {} s1" "\<forall>t u bs. holds {} s1 t u bs \<longleftrightarrow> holds {} s t u bs"
        "frame_table s1 = (frame_table s)[c := clear_frame f]" "procs s1 = procs s" "current s1 = current s" "frame_lock s1 = frame_lock s"
        "\<exists>d. vfs s1 = (vfs s)\<lparr>devs := d\<rparr>" "kernel_pool (pal (mach s1)) = kernel_pool (pal (mach s))"
        "\<forall>p pg. vpages s p = Some pg \<longrightarrow> location pg \<noteq> IN_FRAME \<longrightarrow> vpages s1 p = Some pg"
      using evict_frame_ok [OF ok _ less.prems(3,4)] bf unfolding f_def c_def by blast
    have "frame_evict s = Some (advance_clock s1, fr_kpage f)" using False s1(1) by (simp add: body)
    moreover have "quiet s (advance_clock s1)" unfolding quiet_def holds_clock using s1(3,5-10) by (simp add: advance_clock_eq)
    moreover have "free_frame (advance_clock s1) (fr_kpage f)"
      unfolding free_frame_def using c s1(4) by (intro exI [of _ c]) (simp add: advance_clock_eq clear_frame_def idle_def)
    moreover have "first_free (advance_clock s1) (fr_kpage f)"
    proof -
      have "fr_upage g \<noteq> 0" if "g \<in> set (frame_table s)" for g using that less.prems(2) c(3) by (metis in_set_conv_nth)
      then have "find (\<lambda>g. fr_upage g = 0) ((frame_table s)[c := clear_frame f]) = Some (clear_frame f)"
        using c by (intro find_update) (simp_all add: clear_frame_def)
      then show ?thesis using s1(4) by (simp add: first_free_def advance_clock_eq clear_frame_def)
    qed
    ultimately show ?thesis using vm_inv_clock [OF s1(2)] by blast
  next
    case True
    obtain m where m: "pagedir_set_accessed (fr_pagedir f) (fr_upage f) False (mach s) = Some m"
      using pagedir_set_accessed_entry [OF wf u, of False] r(1) by auto
    note cl = clear_accessed [OF ok c(1) all [OF c(1)] m [unfolded f_def]]
    define s1 where "s1 = advance_clock (s\<lparr>mach := m\<rparr>)"
    have "accessed s1 i \<longleftrightarrow> i \<noteq> c \<and> accessed s i" if "i < TOTAL_PAGES" for i
      using cl(3) [OF that all [OF that]] by (simp add: s1_def advance_clock_eq)
    then have "hot s1 = hot s - {c}" "c \<in> hot s" using True c by (auto simp: hot_def)
    moreover have "finite (hot s)" by (rule finite_subset [of _ "{..<TOTAL_PAGES}"]) (auto simp: hot_def)
    ultimately have "card (hot s1) < card (hot s)" by (metis card_Diff1_less)
    moreover have ok1: "vm_inv {} s1" unfolding s1_def by (rule vm_inv_clock [OF cl(1)])
    moreover have "fr_upage (frame_table s1 ! i) \<noteq> 0" if "i < TOTAL_PAGES" for i
      using less.prems(2) [OF that] by (simp add: s1_def advance_clock_eq)
    moreover have "j < slots s1" "j \<notin> slots_used s1" using less.prems(3,4) by (simp_all add: s1_def advance_clock_eq slots_def slots_used_def)
    ultimately obtain s' k where s': "frame_evict s1 = Some (s', k)" "vm_inv {} s'" "quiet s1 s'" "free_frame s' k" "first_free s' k"
      using less.hyps [of s1] by blast
    have "quiet s s1"
    proof -
      have "\<exists>d. vfs s = (vfs s)\<lparr>devs := d\<rparr>" by (intro exI [of _ "vdevs s"]) simp
      then show ?thesis unfolding quiet_def s1_def holds_clock using cl(2,4) by (simp add: advance_clock_eq)
    qed
    then show ?thesis using s' True m quiet_trans [of s s1 s'] by (auto simp: body s1_def)
  qed
qed

lemma frame_find_empty_first:
  assumes ok: "vm_ok s" and room: "(\<exists>i < TOTAL_PAGES. fr_upage (frame_table s ! i) = 0) \<or> (\<exists>j < slots s. j \<notin> slots_used s)"
  shows "\<exists>s' k. frame_find_empty s = Some (s', k) \<and> vm_ok s' \<and> quiet s s' \<and> free_frame s' k \<and> first_free s' k"
proof -
  note inv = vm_invD [OF conjunct1 [OF ok]]
  have len: "length (frame_table s) = TOTAL_PAGES" using inv(3) by (simp add: frames_ok_def)
  have occ: "occupancy s < int TOTAL_PAGES \<longleftrightarrow> (\<exists>i < TOTAL_PAGES. fr_upage (frame_table s ! i) = 0)"
  proof -
    have "length (filter (\<lambda>f. fr_upage f \<noteq> 0) (frame_table s)) < length (frame_table s) \<longleftrightarrow> (\<exists>f \<in> set (frame_table s). fr_upage f = 0)"
      using length_filter_less [of _ "frame_table s" "\<lambda>f. fr_upage f \<noteq> 0"] by (metis (mono_tags, lifting) filter_True less_irrefl)
    moreover have "(\<exists>f \<in> set (frame_table s). fr_upage f = 0) \<longleftrightarrow> (\<exists>i < TOTAL_PAGES. fr_upage (frame_table s ! i) = 0)"
      using len by (metis in_set_conv_nth)
    ultimately show ?thesis using inv(3) len by (simp add: frames_ok_def)
  qed
  have lk: "s\<lparr>frame_lock := False\<rparr> = s" using ok by simp
  show ?thesis
  proof (cases "occupancy s < int TOTAL_PAGES")
    case True
    then obtain n where "n < TOTAL_PAGES" "fr_upage (frame_table s ! n) = 0" using occ by blast
    then have "find (\<lambda>f. fr_upage f = 0) (frame_table s) \<noteq> None"
      unfolding find_None_iff using len nth_mem by metis
    then obtain f where f: "find (\<lambda>f. fr_upage f = 0) (frame_table s) = Some f" by blast
    then obtain i where i: "i < TOTAL_PAGES" "frame_table s ! i = f" "fr_upage f = 0"
      using len by (auto simp: find_Some_iff)
    then have "idle f" using frames_okD(3) [OF inv(3) i(1)] residesD(7) [OF inv(2)] by (fastforce simp: busy_def upage_ok_def)
    then have "free_frame s (fr_kpage f)" unfolding free_frame_def using i by blast
    moreover have "frame_find_empty s = Some (s, fr_kpage f)"
      using True ok len f lk by (simp add: frame_find_empty_def frame_lock_acquire_def frame_lock_release_def)
    moreover have "first_free s (fr_kpage f)" using f by (simp add: first_free_def)
    ultimately show ?thesis using ok quiet_refl by blast
  next
    case False
    then obtain j where "j < slots s" "j \<notin> slots_used s" using occ room by blast
    then obtain s' k where e: "frame_evict s = Some (s', k)" "vm_inv {} s'" "quiet s s'" "free_frame s' k" "first_free s' k"
      using frame_evict_ok [OF conjunct1 [OF ok]] occ False by blast
    have "frame_find_empty s = frame_evict (s\<lparr>frame_lock := False\<rparr>)"
      using False ok by (simp add: frame_find_empty_def frame_lock_acquire_def frame_lock_release_def)
    then have "frame_find_empty s = Some (s', k)" unfolding lk using e(1) by simp
    moreover have "\<not> frame_lock s'" using e(3) ok by (simp add: quiet_def)
    ultimately show ?thesis using e by blast
  qed
qed

lemma frame_find_empty_ok:
  assumes "vm_ok s" "(\<exists>i < TOTAL_PAGES. fr_upage (frame_table s ! i) = 0) \<or> (\<exists>j < slots s. j \<notin> slots_used s)"
  shows "\<exists>s' k. frame_find_empty s = Some (s', k) \<and> vm_ok s' \<and> quiet s s' \<and> free_frame s' k"
  using frame_find_empty_first [OF assms] by blast

text \<open>Finding a frame does not reserve it: whoever looks next, before it is installed, finds it again.\<close>

lemma frame_find_empty_again:
  assumes "vm_ok s" "first_free s k"
  shows "frame_find_empty (s\<lparr>current := t\<rparr>) = Some (s\<lparr>current := t\<rparr>, k)"
proof -
  note fr = vm_invD(3) [OF conjunct1 [OF assms(1)]]
  obtain f where f: "find (\<lambda>f. fr_upage f = 0) (frame_table s) = Some f" "fr_kpage f = k" using assms(2) by (auto simp: first_free_def)
  then have "\<exists>f \<in> set (frame_table s). fr_upage f = 0" by (auto simp: find_Some_iff)
  then have "length (filter (\<lambda>f. fr_upage f \<noteq> 0) (frame_table s)) < length (frame_table s)"
    using length_filter_less [of _ "frame_table s" "\<lambda>f. fr_upage f \<noteq> 0"] by blast
  then have "occupancy s < int TOTAL_PAGES" "length (frame_table s) = TOTAL_PAGES" using fr by (simp_all add: frames_ok_def)
  then show ?thesis using f assms(1) by (simp add: frame_find_empty_def frame_lock_acquire_def frame_lock_release_def)
qed

end
