(* ===== verification/Vm_Load.thy ===== *)
theory Vm_Load
  imports Vm_Inv
begin

text \<open>
  Loading a page into a free frame: from swap, from a file, or as a new page of the stack.
\<close>

lemma holds_eq: "owners s \<Longrightarrow> resides X s t p u pg \<Longrightarrow> holds X s t u bs \<longleftrightarrow> bs = page_content s pg"
  unfolding holds_def using resides_unique by blast

section \<open>What a step leaves alone\<close>

text \<open>A step of the running process leaves the others as they are, and their pages that are not in frames.\<close>

definition others_kept :: "vm \<Rightarrow> vm \<Rightarrow> bool" where
  "others_kept s s' \<longleftrightarrow> (\<forall>t. t \<noteq> current s \<longrightarrow> procs s' t = procs s t \<and>
     (\<forall>q u pg. (q, u) \<in> own s t \<longrightarrow> vpages s q = Some pg \<longrightarrow> location pg \<noteq> IN_FRAME \<longrightarrow> vpages s' q = Some pg))"

lemma others_kept_page:
  assumes "owners s" "\<And>t. t \<noteq> current s \<Longrightarrow> procs s' t = procs s t" "vpages s' = (vpages s)(p := x)" "\<And>t u. t \<noteq> current s \<Longrightarrow> (p, u) \<notin> own s t"
  shows "others_kept s s'"
  using assms unfolding others_kept_def by (metis fun_upd_other)

section \<open>A page on its way\<close>

lemma resides_transit: "resides {p} s t q u qg \<longleftrightarrow> resides {} s t q u qg \<and> q \<noteq> p"
  by (auto simp: resides_def)

lemma transit_in:
  assumes ok: "vm_inv {} s" and pg: "vpages s p = Some pg" "location pg \<noteq> IN_FRAME"
  shows "vm_inv {p} s" "holds {p} s t u bs \<longleftrightarrow> holds {} s t u bs \<and> (p, u) \<notin> own s t"
proof -
  note inv = vm_invD [OF ok]
  have notp: "q \<noteq> p" if "resides {} s t q u qg" "location qg = IN_FRAME" for t q u qg
    using that pg by (auto simp: resides_def)
  have "busy {p} s f" if "busy {} s f" for f using that notp unfolding busy_def resides_transit by blast
  then have "frames_ok {p} s" using inv(3) by (auto simp: frames_ok_def)
  moreover have "mapped {p} s" using inv(4) notp unfolding mapped_def resides_transit by blast
  moreover have "swapped {p} s" using inv(5) unfolding swapped_def resides_transit by blast
  moreover have "filed {p} s" using inv(6) unfolding filed_def resides_transit by blast
  ultimately show "vm_inv {p} s" using inv by (simp add: vm_inv_def)
  have "q \<noteq> p \<longleftrightarrow> (p, u) \<notin> own s t" if "resides {} s t q u qg" for q qg
    using that own_unique [OF inv(2)] by (auto simp: resides_def)
  then show "holds {p} s t u bs \<longleftrightarrow> holds {} s t u bs \<and> (p, u) \<notin> own s t" unfolding holds_def resides_transit by blast
qed

section \<open>Filling a free frame\<close>

definition at_ram :: "pd_state \<Rightarrow> (u32 \<Rightarrow> u32) \<Rightarrow> pd_state" where
  "at_ram st r = st\<lparr>pal := (pal st)\<lparr>mem := r\<rparr>\<rparr>"

lemma at_ram_simps [simp]: "mem (pal (at_ram st r)) = r" "kernel_pool (pal (at_ram st r)) = kernel_pool (pal st)"
    "user_pool (pal (at_ram st r)) = user_pool (pal st)" "init_ram_pages (at_ram st r) = init_ram_pages st"
    "init_page_dir (at_ram st r) = init_page_dir st" "cr3 (at_ram st r) = cr3 st" "palloc_ok (pal (at_ram st r)) = palloc_ok (pal st)"
    "mach (set_ram r s) = at_ram (mach s) r"
  by (simp_all add: at_ram_def)

lemma free_frameD:
  assumes ok: "vm_inv X s" and fr: "free_frame s k"
  obtains i where "i < TOTAL_PAGES" "fr_kpage (frame_table s ! i) = k" "idle (frame_table s ! i)" "frame_ok (mach s) (frame_table s ! i)"
    "pg_ofs k = 0" "is_kernel_vaddr k" "page_of k \<in> in_use (user_pool (pal (mach s)))"
    "(unat k - 0xc0000000) div 4096 < unat (init_ram_pages (mach s))"
proof -
  note inv = vm_invD [OF ok]
  obtain i where i: "i < TOTAL_PAGES" "fr_kpage (frame_table s ! i) = k" "idle (frame_table s ! i)" using fr by (auto simp: free_frame_def)
  note f = frames_okD(2) [OF inv(3) i(1)]
  show ?thesis using that [OF i f] i(2) f frame_okD [OF spacesD(1) [OF inv(1)] f] by (simp add: frame_ok_def)
qed

text \<open>A page in a frame is not in the free one.\<close>

lemma free_frame_apart:
  assumes ok: "vm_inv X s" and fr: "free_frame s k" and r: "resides X s t p u pg" "location pg = IN_FRAME"
  shows "page_of (pg_kpage pg) \<noteq> page_of k" "pg_ofs (pg_kpage pg) = 0"
proof -
  note inv = vm_invD [OF ok]
  obtain i where i: "i < TOTAL_PAGES" "fr_kpage (frame_table s ! i) = k" "idle (frame_table s ! i)" "pg_ofs k = 0"
    using free_frameD [OF ok fr] by metis
  obtain j where j: "j < TOTAL_PAGES" "fr_page (frame_table s ! j) = Some p" "fr_kpage (frame_table s ! j) = pg_kpage pg"
      "frame_ok (mach s) (frame_table s ! j)"
    using in_frame [OF ok r] by metis
  show a: "pg_ofs (pg_kpage pg) = 0" using j(3,4) by (simp add: frame_ok_def)
  have "j \<noteq> i" using i(3) j(2) by (auto simp: idle_def)
  then have "pg_kpage pg \<noteq> k"
    using inv(3) i(1,2) j(1,3) nth_eq_iff_index_eq [of "map fr_kpage (frame_table s)" i j] by (auto simp: frames_ok_def)
  then show "page_of (pg_kpage pg) \<noteq> page_of k" using page_of_eq [OF a i(4)] by simp
qed

text \<open>Directories lie outside the user pool, so writing a user page leaves them alone.\<close>

lemma dirs_at_ram:
  assumes ok: "vm_inv X s" and kp: "page_of k \<in> in_use (user_pool (pal (mach s)))" and ag: "agree (- {page_of k}) (ram s) r"
    and pd: "pdir s t \<noteq> 0"
  shows "wf_pd (at_ram (mach s) r) (pdir s t)" "pd_pages (at_ram (mach s) r) (pdir s t) = pd_pages (mach s) (pdir s t)"
    "is_user_vaddr va \<Longrightarrow> entry (at_ram (mach s) r) (pdir s t) va = entry (mach s) (pdir s t) va"
proof -
  note inv = vm_invD [OF ok]
  have wf: "wf_pd (mach s) (pdir s t)" using spacesD(2) [OF inv(1) pd] .
  have "page_of k \<notin> pd_pages (mach s) (pdir s t)"
    using user_pages_apart [OF spacesD(1) [OF inv(1)] kp] pd_pages_in_use [OF wf] by blast
  then have "agree (pd_pages (mach s) (pdir s t)) (ram s) (mem (pal (at_ram (mach s) r)))" using agree_subset [OF ag] by auto
  note a = pd_agree [OF wf this]
  show "wf_pd (at_ram (mach s) r) (pdir s t)" "pd_pages (at_ram (mach s) r) (pdir s t) = pd_pages (mach s) (pdir s t)"
    "is_user_vaddr va \<Longrightarrow> entry (at_ram (mach s) r) (pdir s t) va = entry (mach s) (pdir s t) va"
    using a spacesD(1) [OF inv(1)] by simp_all
qed

text \<open>
  The memory of a free frame, the descriptor of the page on its way and the devices change; swap
  and files still satisfy their part of the invariant.
\<close>

lemma load_inv:
  assumes ok: "vm_inv {p} s" and fr: "free_frame s k" and ag: "agree (- {page_of k}) (ram s) r"
    and s': "procs s' = procs s" "mach s' = at_ram (mach s) r" "frame_table s' = frame_table s" "occupancy s' = occupancy s"
      "clock_pointer s' = clock_pointer s" "vpages s' = (vpages s)(p \<mapsto> pg')" "next_addr (vfs s) \<le> next_addr (vfs s')"
    and pg: "vpages s p = Some pg" "pg_upage pg' = pg_upage pg" "pg_pagedir pg' = pg_pagedir pg" "location pg' = location pg"
    and sw: "swapped {p} s'" and fi: "filed {p} s'"
  shows "vm_inv {p} s'" "free_frame s' k" "resides {p} s' = resides {p} s" "own s' = own s" "pdir s' = pdir s"
    "resides {p} s t q u qg \<Longrightarrow> location qg = IN_FRAME \<Longrightarrow> page_bytes r (pg_kpage qg) = page_bytes (ram s) (pg_kpage qg)"
proof -
  note inv = vm_invD [OF ok] and pr = procs_cong [OF s'(1)]
  show pd: "own s' = own s" "pdir s' = pdir s" using pr by simp_all
  show res: "resides {p} s' = resides {p} s" by (auto simp: fun_eq_iff resides_def pd s'(6))
  show ff: "free_frame s' k" using fr by (simp add: free_frame_def s'(3))
  have kp: "page_of k \<in> in_use (user_pool (pal (mach s)))" using free_frameD [OF ok fr] by metis
  note dir = dirs_at_ram [OF ok kp ag, folded s'(2)]
  have "spaces s'" using inv(1) dir by (simp add: spaces_def pd s'(2) [symmetric]) (simp add: s'(2))
  moreover have "owners s'"
    unfolding owners_def pd
  proof (intro conjI allI impI)
    fix t q u assume "(q, u) \<in> own s t"
    then obtain qg where q: "vpages s q = Some qg" "pg_upage qg = u" "pg_pagedir qg = pdir s t" "location qg \<in> {IN_FRAME, IN_SWAP, IN_FILESYS}"
        "pdir s t \<noteq> 0" "upage_ok u"
      using ownersD [OF inv(2)] by metis
    show "pdir s t \<noteq> 0" "upage_ok u" using q by simp_all
    show "\<exists>pg. vpages s' q = Some pg \<and> pg_upage pg = u \<and> pg_pagedir pg = pdir s t \<and> location pg \<in> {IN_FRAME, IN_SWAP, IN_FILESYS}"
      using q pg by (cases "q = p") (auto simp: s'(6))
  next
    show "t = t'" if "(q, u) \<in> own s t" "(q, u') \<in> own s t'" for t t' q u u' using that own_owner [OF inv(2)] by blast
    show "wf_hash page_hash page_less h" if "procs s' t = Some pr" "spt pr = Some h" for t pr h
      using that inv(2) by (auto simp: s'(1) owners_def)
    show "q < next_addr (vfs s')" if "vpages s' q = Some qg" for q qg
      using that inv(2) pg(1) s'(7) unfolding owners_def s'(6) by (metis fun_upd_apply order_less_le_trans)
  qed
  moreover have "frames_ok {p} s'"
  proof -
    have "busy {p} s' = busy {p} s" unfolding busy_def res pd fun_eq_iff by simp
    moreover have "frame_ok (mach s') = frame_ok (mach s)" by (simp add: frame_ok_def s'(2) fun_eq_iff)
    ultimately show ?thesis using inv(3) by (simp add: frames_ok_def s'(3-5))
  qed
  moreover have "mapped {p} s'"
    unfolding mapped_def res pd procs_cong(3) [OF s'(1)]
  proof (intro conjI allI impI)
    fix t q u qg assume q: "resides {p} s t q u qg" "location qg = IN_FRAME"
    note rr = residesD [OF inv(2) q(1)]
    show "maps_to (entry (mach s') (pdir s t) u) qg"
      using mappedD(1) [OF inv(4) q] dir(3) [OF rr(6), of u] rr(7) by (simp add: upage_ok_def)
    show "\<exists>f \<in> set (frame_table s'). fr_page f = Some q" using mappedD(2) [OF inv(4) q] by (simp add: s'(3))
  next
    fix t va assume a: "is_user_vaddr va" "udir s t \<noteq> 0" "entry (mach s') (pdir s t) va AND PTE_P \<noteq> 0"
    then show "\<exists>p' u pg. resides {p} s t p' u pg \<and> same_upage va u \<and> location pg = IN_FRAME"
      using mappedD(3) [OF inv(4) a(1,2)] dir(3) [OF udir_pdir [OF a(2)] a(1)] by simp
  qed
  ultimately show "vm_inv {p} s'" using sw fi by (simp add: vm_inv_def)
  show "page_bytes r (pg_kpage qg) = page_bytes (ram s) (pg_kpage qg)" if "resides {p} s t q u qg" "location qg = IN_FRAME"
    using free_frame_apart [OF ok fr that] page_bytes_agree [OF ag] by simp
qed

section \<open>Installing a page\<close>

lemma pagedir_set_page_makes:
  assumes wf: "wf_pd st pd" and ua: "is_user_vaddr ua" "pg_ofs ua = 0"
    and kp: "pg_ofs kpage = 0" "is_kernel_vaddr kpage" "(unat kpage - 0xc0000000) div 4096 < unat (init_ram_pages st)"
    and free: "entry st pd ua AND PTE_P = 0" and q: "q \<in> pool_range (kernel_pool (pal st))" "q \<notin> in_use (kernel_pool (pal st))"
  shows "\<exists>st' e. pagedir_set_page pd ua kpage w st = Some (st', True) \<and> touches st pd st' \<and> pte_create_user kpage w = Some e \<and>
       (\<forall>vb. is_user_vaddr vb \<longrightarrow> entry st' pd vb = (if same_upage vb ua then e else entry st pd vb))"
  using pagedir_set_page_entry [OF wf ua kp free, of w] pagedir_set_page_touches [OF wf] q unfolding kernel_full_def by blast

definition spare :: "vm \<Rightarrow> bool" where
  "spare s \<longleftrightarrow> \<not> pool_range (kernel_pool (pal (mach s))) \<subseteq> in_use (kernel_pool (pal (mach s)))"

text \<open>The state after \<open>page_install_to_frame\<close>.\<close>

definition installed :: "vm \<Rightarrow> nat \<Rightarrow> nat \<Rightarrow> frame_table_elem \<Rightarrow> vpage \<Rightarrow> pd_state \<Rightarrow> vm" where
  "installed s p i f pg m = s\<lparr>mach := m, frame_table := (frame_table s)[i := f], occupancy := occupancy s + 1, vpages := (vpages s)(p \<mapsto> pg)\<rparr>"

lemma installed_simps [simp]:
  "mach (installed s p i f pg m) = m" "vfs (installed s p i f pg m) = vfs s" "swap_block (installed s p i f pg m) = swap_block s"
  "free_bitmap (installed s p i f pg m) = free_bitmap s" "vpages (installed s p i f pg m) = (vpages s)(p \<mapsto> pg)"
  "frame_table (installed s p i f pg m) = (frame_table s)[i := f]" "occupancy (installed s p i f pg m) = occupancy s + 1"
  "clock_pointer (installed s p i f pg m) = clock_pointer s" "frame_lock (installed s p i f pg m) = frame_lock s"
  "procs (installed s p i f pg m) = procs s" "current (installed s p i f pg m) = current s"
  by (simp_all add: installed_def)

lemma own_proc: "(p, u) \<in> own s t \<Longrightarrow> \<exists>pr h. procs s t = Some pr \<and> spt pr = Some h \<and> (p, u) \<in> elems h"
  by (auto simp: own_def split: option.splits)

lemma install_run:
  assumes ok: "vm_inv {p} s" "\<not> frame_lock s" and fr: "free_frame s k" and sp: "spare s"
    and p: "(p, u) \<in> own s (current s)" "vpages s p = Some pg"
  obtains i f m where "i < TOTAL_PAGES" "fr_kpage (frame_table s ! i) = k" "idle (frame_table s ! i)"
    "f = \<lparr>fr_kpage = k, fr_upage = u, fr_pagedir = pdir s (current s), fr_page = Some p\<rparr>"
    "page_install_to_frame p u k (pdir s (current s)) s = Some (installed s p i f (pg\<lparr>location := IN_FRAME, pg_kpage := k\<rparr>) m, Inr True)"
    "touches (mach s) (pdir s (current s)) m"
    "\<And>va. is_user_vaddr va \<Longrightarrow> \<not> same_upage va u \<Longrightarrow> entry m (pdir s (current s)) va = entry (mach s) (pdir s (current s)) va"
    "maps_to (entry m (pdir s (current s)) u) (pg\<lparr>location := IN_FRAME, pg_kpage := k\<rparr>)"
proof -
  note inv = vm_invD [OF ok(1)]
  let ?t = "current s" and ?pd = "pdir s (current s)"
  have o: "pg_upage pg = u" "pg_pagedir pg = ?pd" "?pd \<noteq> 0" "upage_ok u" using ownersD [OF inv(2) p(1)] p(2) by (metis option.inject)+
  have u: "is_user_vaddr u" "pg_ofs u = 0" "u \<noteq> 0" using o(4) by (simp_all add: upage_ok_def)
  have wf: "wf_pd (mach s) ?pd" using spacesD(2) [OF inv(1) o(3)] .
  obtain pr where pr: "procs s ?t = Some pr" "pagedir pr = ?pd" using own_proc [OF p(1)] by (auto simp: pdir_def)
  obtain i where i: "i < TOTAL_PAGES" "fr_kpage (frame_table s ! i) = k" "idle (frame_table s ! i)" "frame_ok (mach s) (frame_table s ! i)"
      "pg_ofs k = 0" "is_kernel_vaddr k" "(unat k - 0xc0000000) div 4096 < unat (init_ram_pages (mach s))"
    using free_frameD [OF ok(1) fr] by metis
  have np: "entry (mach s) ?pd u AND PTE_P = 0"
  proof (rule ccontr)
    assume "entry (mach s) ?pd u AND PTE_P \<noteq> 0"
    then obtain q v qg where r: "resides {p} s ?t q v qg" "same_upage u v" using mappedD(3) [OF inv(4) u(1)] own_udir [OF p(1)] o(3) by metis
    note rr = residesD [OF inv(2) r(1)]
    have "u = v" using r(2) u(2) rr(7) same_upage_eq by (simp add: upage_ok_def)
    then show False using own_unique [OF inv(2) p(1)] rr(1,2) by auto
  qed
  obtain q where q: "q \<in> pool_range (kernel_pool (pal (mach s)))" "q \<notin> in_use (kernel_pool (pal (mach s)))" using sp by (auto simp: spare_def)
  obtain m e where m: "pagedir_set_page ?pd u k (pg_writable pg) (mach s) = Some (m, True)" "touches (mach s) ?pd m"
      "pte_create_user k (pg_writable pg) = Some e"
      "\<forall>vb. is_user_vaddr vb \<longrightarrow> entry m ?pd vb = (if same_upage vb u then e else entry (mach s) ?pd vb)"
    using pagedir_set_page_makes [OF wf u(1,2) i(5-7) np q] by blast
  have get: "pagedir_get_page ?pd u (mach s) = Some 0" using pagedir_get_page_entry [OF wf u(1)] np by (simp add: get_by_entry_def)
  let ?f = "\<lparr>fr_kpage = k, fr_upage = u, fr_pagedir = ?pd, fr_page = Some p\<rparr>"
  have len: "length (frame_table s) = TOTAL_PAGES" "distinct (map fr_kpage (frame_table s))" using inv(3) by (simp_all add: frames_ok_def)
  have same: "fr_upage f = 0" if a: "f \<in> set (frame_table s)" "fr_kpage f = k" for f
  proof -
    obtain j where j: "j < TOTAL_PAGES" "frame_table s ! j = f" using a(1) len(1) by (metis in_set_conv_nth)
    have "j = i" using nth_eq_iff_index_eq [OF len(2), of j i] j i(1,2) a(2) len(1) by simp
    then show ?thesis using j i(3) by (simp add: idle_def)
  qed
  have "fill_frame ?f (frame_table s ! i) = ?f" using i(2) by (simp add: fill_frame_def)
  then have loop: "frame_install_loop k ?f (frame_table s) (occupancy s) = ((frame_table s)[i := ?f], occupancy s + 1, True)"
    using frame_install_loop_eq [of "frame_table s" k ?f "occupancy s", OF same]
      map_kpage [OF len(2), of i "fill_frame ?f"] filter_kpage [OF len(2), of i] i(1,2) len(1) by simp
  have "page_install_to_frame p u k ?pd s = Some (installed s p i ?f (pg\<lparr>location := IN_FRAME, pg_kpage := k\<rparr>) m, Inr True)"
    using ok(2) pr m(1) get p(2) len(1) loop
    by (simp add: page_install_to_frame_def frame_install_def install_page_def frame_lock_acquire_def frame_lock_release_def set_page_def installed_def)
  moreover have "maps_to (entry m ?pd u) (pg\<lparr>location := IN_FRAME, pg_kpage := k\<rparr>)"
    using m(3,4) u(1) pte_roundtrip [OF i(5,6), of "pg_writable pg"] by (auto simp: maps_to_def same_upage_def)
  ultimately show ?thesis using that [OF i(1-3) refl] m(2,4) by simp
qed


text \<open>What a successful installation does: the page holds what the frame had, and others what they had.\<close>

lemma install_ok:
  assumes ok: "vm_inv {p} s" "\<not> frame_lock s" and fr: "free_frame s k" and sp: "spare s"
    and p: "(p, u) \<in> own s (current s)" "vpages s p = Some pg"
  shows "\<exists>s'. page_install_to_frame p u k (pdir s (current s)) s = Some (s', Inr True) \<and> vm_ok s' \<and> procs s' = procs s \<and>
    current s' = current s \<and> vfs s' = vfs s \<and> vpages s' = (vpages s)(p \<mapsto> pg\<lparr>location := IN_FRAME, pg_kpage := k\<rparr>) \<and>
    (\<forall>t v bs. holds {} s' t v bs \<longleftrightarrow> (if t = current s \<and> v = u then bs = page_bytes (ram s) k else holds {p} s t v bs))"
proof -
  note inv = vm_invD [OF ok(1)]
  let ?t = "current s" and ?pd = "pdir s (current s)"
  define pg1 where "pg1 = pg\<lparr>location := IN_FRAME, pg_kpage := k\<rparr>"
  obtain i f m where i: "i < TOTAL_PAGES" "fr_kpage (frame_table s ! i) = k" "idle (frame_table s ! i)"
      and f: "f = \<lparr>fr_kpage = k, fr_upage = u, fr_pagedir = ?pd, fr_page = Some p\<rparr>"
      and run: "page_install_to_frame p u k ?pd s = Some (installed s p i f pg1 m, Inr True)"
      and to: "touches (mach s) ?pd m"
      and e: "\<And>va. is_user_vaddr va \<Longrightarrow> \<not> same_upage va u \<Longrightarrow> entry m ?pd va = entry (mach s) ?pd va" "maps_to (entry m ?pd u) pg1"
    using install_run [OF ok fr sp p] unfolding pg1_def by metis
  define s' where "s' = installed s p i f pg1 m"
  have o: "pg_upage pg = u" "pg_pagedir pg = ?pd" "?pd \<noteq> 0" "upage_ok u" using ownersD [OF inv(2) p(1)] p(2) by (metis option.inject)+
  have mv: "moved {p} s ?t p u pg1 i f s'"
    unfolding moved_def using p o i e to f by (simp add: s'_def pg1_def idle_def upage_ok_def)
  have res: "resides {} s' t q v qg \<longleftrightarrow> (if q = p then t = ?t \<and> v = u \<and> qg = pg1 else resides {p} s t q v qg)" for t q v qg
    using moved_resides [OF inv(2) mv] by simp
  have l1: "location pg1 = IN_FRAME" "pg_kpage pg1 = k" by (simp_all add: pg1_def)
  have same: "swap_ok s' = swap_ok s" "slots_used s' = slots_used s" "slots s' = slots s" "slot_bytes s' = slot_bytes s"
    by (simp_all add: s'_def swap_ok_def slots_used_def slots_def slot_bytes_def fun_eq_iff)
  have old: "resides {p} s t q v qg" if "resides {} s' t q v qg" "location qg \<noteq> IN_FRAME" for t q v qg
    using that l1 by (auto simp: res split: if_splits)
  have "swapped {} s'"
    unfolding swapped_def same
  proof (intro conjI allI impI)
    show "swap_ok s" using inv(5) by (simp add: swapped_def)
    show "\<exists>j \<in> slots_used s. swap_location qg = of_nat (8 * j)" if "resides {} s' t q v qg" "location qg = IN_SWAP" for t q v qg
      using old [OF that(1)] that(2) inv(5) by (auto simp: swapped_def)
    show "q = q'" if "resides {} s' t q v qg" "resides {} s' t' q' v' qg'" "location qg = IN_SWAP" "location qg' = IN_SWAP"
        "swap_location qg = swap_location qg'" for t q v qg t' q' v' qg'
      using old [OF that(1)] old [OF that(2)] that(3-5) inv(5) unfolding swapped_def by (metis locations(2))
  qed
  moreover have v: "vfs s' = vfs s" "swap_block s' = swap_block s" by (simp_all add: s'_def)
  have "filed {} s'" using inv(6) old unfolding filed_def v by (metis locations(4))
  ultimately have "vm_ok s'" using moved_inv [OF ok(1) mv] ok(2) by (simp add: vm_inv_def s'_def)
  moreover have c: "page_content s' qg = page_content s qg" if "resides {p} s t q v qg" for t q v qg
    using frame_content_touch [OF ok(1) to that] same(4) by (simp add: page_content_def s'_def)
  moreover have "page_content s' pg1 = page_bytes (ram s) k"
    using frame_bytes_touch [OF to spacesD(1) [OF inv(1)] frames_okD(2) [OF inv(3) i(1)]] i(2) by (simp add: page_content_def s'_def l1)
  moreover have "t = ?t \<and> v = u \<longrightarrow> q = p" if "(q, v) \<in> own s t" for t q v using that own_unique [OF inv(2) p(1)] by auto
  then have "\<not> (t = ?t \<and> v = u)" if "resides {p} s t q v qg" for t q v qg using that by (auto simp: resides_def)
  ultimately have "holds {} s' t v bs \<longleftrightarrow> (if t = ?t \<and> v = u then bs = page_bytes (ram s) k else holds {p} s t v bs)" for t v bs
    unfolding holds_def res by (metis (full_types) residesD(2) [OF inv(2)] insertI1)
  then show ?thesis using run \<open>vm_ok s'\<close> unfolding pg1_def [symmetric] by (intro exI [of _ s']) (simp add: s'_def)
qed

section \<open>A page from swap\<close>

lemma same_disks:
  assumes "disks d = disks (vdevs s)" "same_layout (all_blocks (vdevs s)) (all_blocks d)" "block_by_role d = block_by_role (vdevs s)"
    and fi: "filed X s" "swap_ok s"
  shows "disk_ok ((vfs s)\<lparr>devs := d\<rparr>)" "apart d (swap_block s) (fs_device (vfs s))" "file_page ((vfs s)\<lparr>devs := d\<rparr>) = file_page (vfs s)"
    "file_bytes ((vfs s)\<lparr>devs := d\<rparr>) = file_bytes (vfs s)" "j < slots s \<Longrightarrow> slot_bytes (set_devs d s) j = slot_bytes s j"
proof -
  have od: "only_dev (swap_block s) (vdevs s) d" using assms(1-3) by (simp add: only_dev_same_disks)
  have ap: "disk_ok (vfs s)" "apart (vdevs s) (swap_block s) (fs_device (vfs s))" using fi by (simp_all add: filed_def)
  note dk = disk_only_dev [OF ap(1) od ap(2)]
  show "disk_ok ((vfs s)\<lparr>devs := d\<rparr>)" by (rule dk)
  have lens: "swap_block s < length (all_blocks (vdevs s))" "fs_device (vfs s) < length (all_blocks (vdevs s))"
    using fi ap(1) by (auto simp: swap_ok_def disk_ok_def device_ready_def)
  show "apart d (swap_block s) (fs_device (vfs s))" by (rule apart_only_dev [OF od ap(2) lens])
  show "file_page ((vfs s)\<lparr>devs := d\<rparr>) = file_page (vfs s)" "file_bytes ((vfs s)\<lparr>devs := d\<rparr>) = file_bytes (vfs s)"
    using file_page_cong [of "(vfs s)\<lparr>devs := d\<rparr>" "vfs s"] dk by (simp_all add: fun_eq_iff)
  have "sector_of d (swap_block s) t = sector_of (vdevs s) (swap_block s) t" for t
    using assms(1) place_same_layout [OF assms(2) lens(1)] by (simp add: sector_of_def)
  then show "slot_bytes (set_devs d s) j = slot_bytes s j" if "j < slots s" by (simp add: slot_bytes_def set_devs_def)
qed


lemma page_apart:
  assumes ok: "vm_inv {} s" and r: "resides {} s t p u pg" "location pg = IN_SWAP"
  obtains j where "j \<in> slots_used s" "j < slots s" "swap_location pg = of_nat (8 * j)"
    "\<And>t' q v qg. resides {p} s t' q v qg \<Longrightarrow> location qg = IN_SWAP \<Longrightarrow> \<exists>i \<in> slots_used s - {j}. swap_location qg = of_nat (8 * i)"
proof -
  note inv = vm_invD(5) [OF ok]
  obtain j where j: "j \<in> slots_used s" "swap_location pg = of_nat (8 * j)" using inv r unfolding swapped_def by blast
  have "\<exists>i \<in> slots_used s - {j}. swap_location qg = of_nat (8 * i)" if a: "resides {p} s t' q v qg" "location qg = IN_SWAP" for t' q v qg
  proof -
    have q: "resides {} s t' q v qg" "q \<noteq> p" using a(1) by (simp_all add: resides_transit)
    obtain i where i: "i \<in> slots_used s" "swap_location qg = of_nat (8 * i)" using inv q(1) a(2) unfolding swapped_def by blast
    have "swap_location qg \<noteq> swap_location pg" using inv q r a(2) unfolding swapped_def by metis
    then show ?thesis using i j(2) by auto
  qed
  then show ?thesis using that j slots_used_bound inv by (simp add: swapped_def)
qed

lemma swap_in_ok:
  assumes ok: "vm_inv {} s" "\<not> frame_lock s" and fr: "free_frame s k" and sp: "spare s"
    and p: "(p, u) \<in> own s (current s)" "vpages s p = Some pg" "location pg = IN_SWAP"
  shows "\<exists>s'. page_swap_in p k s = Some (s', Inr ()) \<and> vm_ok s' \<and> procs s' = procs s \<and> others_kept s s' \<and>
    current s' = current s \<and> (\<forall>t v bs. holds {} s' t v bs \<longleftrightarrow> holds {} s t v bs) \<and>
    (\<exists>qg. vpages s' p = Some qg \<and> location qg = IN_FRAME \<and> pg_kpage qg = k \<and> pg_writable qg = pg_writable pg)"
proof -
  note inv = vm_invD [OF ok(1)]
  have r: "resides {} s (current s) p u pg" using p by (simp add: resides_def)
  note rr = residesD [OF inv(2) r]
  obtain j where j: "j \<in> slots_used s" "j < slots s" "swap_location pg = of_nat (8 * j)"
      "\<And>t' q v qg. resides {p} s t' q v qg \<Longrightarrow> location qg = IN_SWAP \<Longrightarrow> \<exists>i \<in> slots_used s - {j}. swap_location qg = of_nat (8 * i)"
    using page_apart [OF ok(1) r p(3)] by blast
  have sok: "swap_ok s" using inv(5) by (simp add: swapped_def)
  have "location pg \<noteq> IN_FRAME" using p(3) by simp
  note tr = transit_in [OF ok(1) p(2) this]
  note ok1 = tr(1)
  obtain k' where k: "pg_ofs k = 0" "is_kernel_vaddr k" using free_frameD [OF ok(1) fr] by metis
  let ?l = "s\<lparr>frame_lock := True\<rparr>"
  have "swap_ok ?l" "j < slots ?l" using sok j(2) by (simp_all add: swap_ok_def slots_def)
  then obtain d m b where d: "swap_read k p ?l = Some (set_page p (pg\<lparr>swap_location := - 1\<rparr>) (set_ram m (set_devs d (?l\<lparr>free_bitmap := Some b\<rparr>))))"
      "disks d = disks (vdevs s)" "same_layout (all_blocks (vdevs s)) (all_blocks d)" "block_by_role d = block_by_role (vdevs s)"
      "swap_ok (set_devs d (?l\<lparr>free_bitmap := Some b\<rparr>))" "marked b = slots_used s - {j}" "unat (bit_cnt b) = slots s"
      "agree (- {page_of k}) (ram s) m" "page_bytes m k = slot_bytes s j"
    using swap_read_ok [of ?l p pg j k] p(2) j(3) k by (auto simp: slots_def slots_used_def slot_bytes_def)
  define pg' where "pg' = pg\<lparr>swap_location := - 1\<rparr>"
  define s1 where "s1 = (set_page p pg' (set_ram m (set_devs d (?l\<lparr>free_bitmap := Some b\<rparr>))))\<lparr>frame_lock := False\<rparr>"
  have s1: "procs s1 = procs s" "mach s1 = at_ram (mach s) m" "frame_table s1 = frame_table s" "occupancy s1 = occupancy s"
      "clock_pointer s1 = clock_pointer s" "vpages s1 = (vpages s)(p \<mapsto> pg')" "vfs s1 = (vfs s)\<lparr>devs := d\<rparr>" "current s1 = current s"
      "\<not> frame_lock s1" "swap_block s1 = swap_block s" "free_bitmap s1 = Some b"
    by (simp_all add: s1_def set_page_def set_ram_def set_devs_def at_ram_def)
  have pg': "pg_upage pg' = pg_upage pg" "pg_pagedir pg' = pg_pagedir pg" "location pg' = location pg"
    "pg_writable pg' = pg_writable pg" by (simp_all add: pg'_def)
  have res: "resides {p} s1 = resides {p} s" using procs_cong [OF s1(1)] by (auto simp: fun_eq_iff resides_def s1(6))
  note sd = same_disks [OF d(2-4) inv(6) sok]
  have sw: "swapped {p} s1"
    unfolding swapped_def res
  proof (intro conjI allI impI)
    show "swap_ok s1" using d(5) s1 by (simp add: swap_ok_def)
    show "\<exists>i \<in> slots_used s1. swap_location qg = of_nat (8 * i)" if "resides {p} s t q v qg" "location qg = IN_SWAP" for t q v qg
      using j(4) [OF that] d(6) s1(11) by (simp add: slots_used_def)
    show "q = q'" if "resides {p} s t q v qg" "resides {p} s t' q' v' qg'" "location qg = IN_SWAP" "location qg' = IN_SWAP"
        "swap_location qg = swap_location qg'" for t q v qg t' q' v' qg'
      using vm_invD(5) [OF ok1] that unfolding swapped_def by blast
  qed
  have fi: "filed {p} s1" using sd(1-3) vm_invD(6) [OF ok1] unfolding filed_def res s1(7,10) by simp
  note ld = load_inv [OF ok1 fr d(8) s1(1-6) _ p(2) pg'(1-3) sw fi]
  have ok2: "vm_inv {p} s1" "free_frame s1 k" "own s1 = own s" "pdir s1 = pdir s" using ld(1,2,4,5) s1(7) by simp_all
  have cont: "page_content s1 qg = page_content s qg" if a: "resides {p} s t q v qg" for t q v qg
  proof (cases "location qg = IN_SWAP")
    case True
    then obtain i where i: "i \<in> slots_used s" "swap_location qg = of_nat (8 * i)" using j(4) [OF a] by blast
    have il: "i < slots s" using slots_used_bound [OF sok i(1)] .
    have "slot_bytes s1 i = slot_bytes (set_devs d s) i" using s1(7,10) by (simp add: slot_bytes_def)
    then show ?thesis using True sd(5) [OF il] slot_of_page [OF sok il i(2)] by (simp add: page_content_def)
  next
    case False
    then show ?thesis using ld(6) [OF _ a] s1(2,7) sd(4) by (simp add: page_content_def)
  qed
  have hs: "holds {p} s1 = holds {p} s" using cont unfolding holds_def res fun_eq_iff by metis
  have sp1: "spare s1" using sp s1(2) by (simp add: spare_def)
  have p1: "(p, u) \<in> own s1 (current s1)" "vpages s1 p = Some pg'" using s1(6,8) p(1) ok2(3) by simp_all
  obtain s' where s': "page_install_to_frame p u k (pdir s1 (current s1)) s1 = Some (s', Inr True)" "vm_ok s'" "procs s' = procs s1"
      "current s' = current s1" "vpages s' = (vpages s1)(p \<mapsto> pg'\<lparr>location := IN_FRAME, pg_kpage := k\<rparr>)"
      "\<forall>t v bs. holds {} s' t v bs \<longleftrightarrow> (if t = current s1 \<and> v = u then bs = page_bytes (ram s1) k else holds {p} s t v bs)"
    using install_ok [OF ok2(1) s1(9) ok2(2) sp1 p1] unfolding hs by blast
  have "page_content s pg = page_bytes m k" using p(3) slot_of_page [OF sok j(2,3)] d(9) by (simp add: page_content_def)
  then have "holds {} s (current s) u bs \<longleftrightarrow> bs = page_bytes (ram s1) k" for bs
    using holds_eq [OF inv(2) r] s1(2) by simp
  moreover have "holds {p} s t v bs \<longleftrightarrow> holds {} s t v bs" if "\<not> (t = current s \<and> v = u)" for t v bs
    using tr(2) [of t v bs] that own_owner [OF inv(2) p(1)] by blast
  ultimately have h: "holds {} s' t v bs \<longleftrightarrow> holds {} s t v bs" for t v bs using s'(6) s1(8) by auto
  have "page_swap_in p k s = Some (s', Inr ())"
    using ok(2) d(1) s1(6) rr(4,5) ok2(4) s1(8) pg' s'(1)
    by (simp add: page_swap_in_def frame_lock_acquire_def frame_lock_release_def s1_def pg'_def [symmetric])
  moreover have "others_kept s s'"
    using others_kept_page [OF inv(2), of s' p "Some (pg'\<lparr>location := IN_FRAME, pg_kpage := k\<rparr>)"] own_owner [OF inv(2) p(1)] s'(3,5) s1(1,6)
    by auto
  ultimately show ?thesis using s' s1(1,8) h pg'(4) by simp
qed

section \<open>A page from a file\<close>

text \<open>Reading changes nothing on any device.\<close>

definition calm :: "fs \<Rightarrow> fs \<Rightarrow> bool" where
  "calm v v' \<longleftrightarrow> disks (devs v') = disks (devs v) \<and> same_layout (all_blocks (devs v)) (all_blocks (devs v')) \<and>
     block_by_role (devs v') = block_by_role (devs v) \<and> fs_device v' = fs_device v"

lemma calm_trans: "calm a b \<Longrightarrow> calm b c \<Longrightarrow> calm a c"
  unfolding calm_def using same_layout_trans by auto

lemma calm_ready: "calm v v' \<Longrightarrow> device_ready (fs_device v) n (devs v) \<Longrightarrow> device_ready (fs_device v') n (devs v')"
  by (simp add: calm_def device_ready_same_layout)

lemma fs_malloc_calm: "fs_malloc v = (v', r) \<Longrightarrow> calm v v'"
  by (auto simp: fs_malloc_def calm_def)

lemma fs_read_calm:
  assumes "device_ready (fs_device v) n (devs v)" "fs_read sec v = Some (v', bs)"
  shows "calm v v'"
proof -
  obtain d where d: "block_read (fs_device v) sec (devs v) = Some (d, bs)" "v' = v\<lparr>devs := d\<rparr>"
    using assms(2) by (auto simp: fs_read_def bind_eq_Some_iff)
  have "sec < n" using d(1) assms(1) by (subst (asm) block_read.simps) (auto simp: device_ready_def bind_eq_Some_iff check_sector_def device_def split: if_splits)
  from block_read_quiet [OF assms(1) this] d show ?thesis by (auto simp: calm_def)
qed

lemma read_loop_calm:
  "read_loop inode sz i bounce v = Some (v', bs) \<Longrightarrow> device_ready (fs_device v) n (devs v) \<Longrightarrow> calm v v'"
proof (induction "nat sz" arbitrary: sz i bounce v bs rule: less_induct)
  case less
  note run = less.prems(1) [unfolded read_loop.simps [of inode sz i bounce v]]
  let ?c = "chunk inode sz i"
  have step: "calm v v'"
    if a: "fs_read sec v1 = Some (v2, b2)" "read_loop inode (sz - ?c) (i + ?c) b v2 = Some (v', bs1)" "calm v v1" "0 < sz" "0 < ?c"
    for sec v1 v2 b2 b bs1
  proof -
    have c: "calm v v2" using calm_trans [OF a(3) fs_read_calm [OF calm_ready [OF a(3) less.prems(2)] a(1)]] .
    have "nat (sz - ?c) < nat sz" using a(4,5) by simp
    then show ?thesis using less.hyps [OF _ a(2) calm_ready [OF c less.prems(2)]] calm_trans [OF c] by blast
  qed
  have refl: "calm v v" by (simp add: calm_def)
  show ?case
  proof (cases "0 < sz \<and> 0 < ?c")
    case False
    then show ?thesis using run refl by (auto simp: Let_def split: if_splits)
  next
    case True
    then have c: "0 < sz" "0 < ?c" by simp_all
    show ?thesis
    proof (cases "i mod 512 = 0 \<and> ?c = 512")
      case full: True
      then show ?thesis using run c step [OF _ _ refl] by (auto simp: Let_def bind_eq_Some_iff)
    next
      case part: False
      obtain v1 b1 where b: "get_bounce bounce v = (v1, b1)" by fastforce
      then have "calm v v1" using fs_malloc_calm refl by (auto simp: get_bounce_def split: if_splits prod.splits)
      then show ?thesis using run c part b step by (auto simp: Let_def bind_eq_Some_iff split: if_splits)
    qed
  qed
qed


lemma file_page_iff:
  "file_page v pg \<longleftrightarrow> (\<exists>f i ino. pg_file pg = Some f \<and> map_option finode (files v f) = Some i \<and> inodes v i = Some ino \<and> data_ok v (data ino) \<and>
     unat (page_read_bytes pg) + unat (page_zero_bytes pg) = 4096 \<and> unat (pg_offset pg) < 2 ^ 31 \<and>
     (page_read_bytes pg = 0 \<or> unat (pg_offset pg) + unat (page_read_bytes pg) \<le> nat (dlength (data ino))))"
  unfolding file_page_def by auto

lemma file_bytes_eq:
  "pg_file pg = Some f \<Longrightarrow> map_option finode (files v f) = Some i \<Longrightarrow> inodes v i = Some ino \<Longrightarrow>
   file_bytes v pg = take (unat (page_read_bytes pg)) (drop (unat (pg_offset pg)) (content v (data ino))) @ replicate (unat (page_zero_bytes pg)) 0"
  by (auto simp: file_bytes_def)

text \<open>Loading a page of a file reads its bytes and moves the position of the file.\<close>

definition moved_file :: "fs \<Rightarrow> fs \<Rightarrow> bool" where
  "moved_file v v' \<longleftrightarrow> calm v v' \<and> disk_ok v' \<and> fs_size v' = fs_size v \<and> sect v' = sect v \<and> inodes v' = inodes v \<and>
     next_addr v \<le> next_addr v' \<and> memory v' \<and> (\<forall>g. map_option finode (files v' g) = map_option finode (files v g))"

lemma moved_file_pages:
  assumes "moved_file v v'"
  shows "file_page v' = file_page v" "file_page v pg \<Longrightarrow> file_bytes v' pg = file_bytes v pg"
proof -
  have m: "fs_size v' = fs_size v" "sect v' = sect v" "inodes v' = inodes v" "\<And>g. map_option finode (files v' g) = map_option finode (files v g)"
    using assms by (simp_all add: moved_file_def)
  have c: "data_ok v' = data_ok v" "content v' = content v" by (simp_all add: fun_eq_iff data_ok_def content_def data_byte_def m)
  show "file_page v' = file_page v" unfolding fun_eq_iff file_page_iff m c by blast
  assume "file_page v pg"
  then obtain f i ino where f: "pg_file pg = Some f" "map_option finode (files v f) = Some i" "inodes v i = Some ino" unfolding file_page_iff by blast
  then show "file_bytes v' pg = file_bytes v pg" using file_bytes_eq [OF f(1), of v'] file_bytes_eq [OF f] by (simp add: m c)
qed

lemma file_load:
  assumes "file_page v pg" "disk_ok v" "memory v"
  obtains f v1 v2 bs where "pg_file pg = Some f" "file_seek f (sint (pg_offset pg)) v = Some v1"
    "file_read f (sint (page_read_bytes pg)) v1 = Some (v2, bs)" "moved_file v v2" "length bs = unat (page_read_bytes pg)"
    "sint (page_read_bytes pg) = int (unat (page_read_bytes pg))" "unat (page_read_bytes pg) + unat (page_zero_bytes pg) = 4096"
    "bs @ replicate (unat (page_zero_bytes pg)) 0 = file_bytes v pg"
proof -
  obtain f fl ino where f: "pg_file pg = Some f" "files v f = Some fl" "inodes v (finode fl) = Some ino" "data_ok v (data ino)"
     "unat (page_read_bytes pg) + unat (page_zero_bytes pg) = 4096" "unat (pg_offset pg) < 2 ^ 31"
     "page_read_bytes pg = 0 \<or> unat (pg_offset pg) + unat (page_read_bytes pg) \<le> nat (dlength (data ino))"
    using assms(1) unfolding file_page_def by blast
  let ?off = "unat (pg_offset pg)" and ?n = "unat (page_read_bytes pg)"
  have si: "sint (pg_offset pg) = int ?off" "sint (page_read_bytes pg) = int ?n" using f(5,6) by (simp_all add: sint_u32_small)
  define v1 where "v1 = set_file f (fl\<lparr>pos := int ?off\<rparr>) v"
  have v1: "disk_ok v1" "memory v1" "data_ok v1 (data ino)" "content v1 = content v" "inodes v1 = inodes v" "sect v1 = sect v" "fs_size v1 = fs_size v"
      "calm v v1" "next_addr v1 = next_addr v" "files v1 = (files v)(f \<mapsto> fl\<lparr>pos := int ?off\<rparr>)"
    using assms(2,3) f(4) by (simp_all add: v1_def set_file_def fun_eq_iff data_ok_def content_def data_byte_def calm_def)
  obtain v2 bs where r: "read_loop ino (int ?n) (int ?off) False v1 = Some (v2, bs)" "io v1 v2" "sect v2 = sect v1"
      "bs = take ?n (drop ?off (content v (data ino)))"
    using read_loop_ok [OF v1(1,3), of ?n ?off False] v1(2,4) by auto
  have c: "calm v1 v2" using read_loop_calm [OF r(1)] v1(1) unfolding disk_ok_def by blast
  define v3 where "v3 = set_file f (fl\<lparr>pos := int ?off + int (length bs)\<rparr>) v2"
  have i2: "fs_size v2 = fs_size v" "next_addr v \<le> next_addr v2" "memory v2" "inodes v2 = inodes v" "files v2 = files v1" "disk_ok v2"
    using r(2) v1 by (simp_all add: io_def)
  have "moved_file v v3"
    using calm_trans [OF v1(8) c] i2 r(3) v1 f(2) by (simp add: moved_file_def v3_def set_file_def calm_def)
  moreover have "file_seek f (sint (pg_offset pg)) v = Some v1" using f(2) by (simp add: file_seek_def si v1_def)
  moreover have "file_read f (sint (page_read_bytes pg)) v1 = Some (v3, bs)"
    using r(1) v1(5,10) f(3) by (simp add: file_read_def inode_read_at_def si v3_def)
  moreover have "length bs = ?n" using f(7) by (auto simp: r(4))
  moreover have "bs @ replicate (unat (page_zero_bytes pg)) 0 = file_bytes v pg" using f(1-3) by (simp add: file_bytes_def r(4))
  ultimately show ?thesis using that f(1,5) si(2) by blast
qed

lemma put_bytes_ok:
  assumes "pg_ofs k = 0" "is_kernel_vaddr k" "off + length bs \<le> 4096"
  shows "\<exists>m. put_bytes (k + of_nat off) bs s = Some (set_ram m s) \<and> agree (- {page_of k}) (ram s) m \<and>
    page_bytes m k = splice (page_bytes (ram s) k) off bs"
proof (cases "bs = []")
  case True
  have "set_ram (ram s) s = s" by (simp add: set_ram_def)
  then show ?thesis using True assms(3) by (intro exI [of _ "ram s"]) (simp add: put_bytes_def splice_Nil)
next
  case False
  then have "off < 4096" using assms(3) by (cases bs) auto
  then have "is_kernel_vaddr (k + of_nat off)"
    using unat_in_page(1) [OF assms(1)] assms(2) by (simp add: is_kernel_vaddr_def word_le_nat_alt)
  then show ?thesis using False store_agree [OF assms(1,3)] page_bytes_store [OF assms(1,3)]
    by (intro exI [of _ "store_bytes (ram s) (k + of_nat off) bs"]) (simp add: put_bytes_def)
qed

lemma put_page:
  assumes k: "pg_ofs k = 0" "is_kernel_vaddr k" and n: "length bs = unat n" "unat n + z = 4096"
  shows "\<exists>s1 m. put_bytes k bs s = Some s1 \<and> put_bytes (k + n) (replicate z 0) s1 = Some (set_ram m s) \<and>
    agree (- {page_of k}) (ram s) m \<and> page_bytes m k = bs @ replicate z 0"
proof -
  obtain m1 where m1: "put_bytes k bs s = Some (set_ram m1 s)" "agree (- {page_of k}) (ram s) m1" "page_bytes m1 k = splice (page_bytes (ram s) k) 0 bs"
    using put_bytes_ok [OF k, of 0 bs s] n by auto
  obtain m2 where m2: "put_bytes (k + n) (replicate z 0) (set_ram m1 s) = Some (set_ram m2 (set_ram m1 s))"
      "agree (- {page_of k}) (ram (set_ram m1 s)) m2" "page_bytes m2 k = splice (page_bytes m1 k) (unat n) (replicate z 0)"
    using put_bytes_ok [OF k, of "unat n" "replicate z 0" "set_ram m1 s"] n by (auto simp: set_ram_def)
  have "set_ram m2 (set_ram m1 s) = set_ram m2 s" by (simp add: set_ram_def)
  moreover have "page_bytes m2 k = bs @ replicate z 0" using m2(3) m1(3) n by (simp add: splice_def)
  ultimately show ?thesis using m1 m2(1) agree_trans [OF m1(2)] m2(2) by (metis at_ram_simps(1,8))
qed


lemma file_in_ok:
  assumes ok: "vm_inv {} s" "\<not> frame_lock s" and fr: "free_frame s k" and sp: "spare s" and mem: "memory (vfs s)"
    and p: "(p, u) \<in> own s (current s)" "vpages s p = Some pg" "location pg = IN_FILESYS"
  shows "\<exists>s'. page_read_frame p k s = Some (s', Inr ()) \<and> vm_ok s' \<and> procs s' = procs s \<and> memory (vfs s') \<and> others_kept s s' \<and>
    current s' = current s \<and> (\<forall>t v bs. holds {} s' t v bs \<longleftrightarrow> holds {} s t v bs) \<and>
    (\<exists>qg. vpages s' p = Some qg \<and> location qg = IN_FRAME \<and> pg_kpage qg = k \<and> pg_writable qg = pg_writable pg)"
proof -
  note inv = vm_invD [OF ok(1)]
  have r: "resides {} s (current s) p u pg" using p by (simp add: resides_def)
  note rr = residesD [OF inv(2) r]
  have sok: "swap_ok s" using inv(5) by (simp add: swapped_def)
  have "location pg \<noteq> IN_FRAME" using p(3) by simp
  note tr = transit_in [OF ok(1) p(2) this]
  note ok1 = tr(1)
  obtain k' where k: "pg_ofs k = 0" "is_kernel_vaddr k" using free_frameD [OF ok(1) fr] by metis
  have fp: "file_page (vfs s) pg" "disk_ok (vfs s)" using inv(6) r p(3) unfolding filed_def by blast+
  obtain f v1 v2 bs where f: "pg_file pg = Some f" "file_seek f (sint (pg_offset pg)) (vfs s) = Some v1"
      "file_read f (sint (page_read_bytes pg)) v1 = Some (v2, bs)" "moved_file (vfs s) v2" "length bs = unat (page_read_bytes pg)"
      "sint (page_read_bytes pg) = int (unat (page_read_bytes pg))" "unat (page_read_bytes pg) + unat (page_zero_bytes pg) = 4096"
      "bs @ replicate (unat (page_zero_bytes pg)) 0 = file_bytes (vfs s) pg"
    using file_load [OF fp mem] by metis
  let ?v = "s\<lparr>vfs := v2\<rparr>"
  obtain s0 m where m: "put_bytes k bs ?v = Some s0"
      "put_bytes (k + page_read_bytes pg) (replicate (unat (page_zero_bytes pg)) 0) s0 = Some (set_ram m ?v)"
      "agree (- {page_of k}) (ram s) m" "page_bytes m k = file_bytes (vfs s) pg"
    using put_page [OF k f(5,7), of ?v] f(8) by auto
  define s1 where "s1 = set_ram m ?v"
  have s1: "procs s1 = procs s" "mach s1 = at_ram (mach s) m" "frame_table s1 = frame_table s" "occupancy s1 = occupancy s"
      "clock_pointer s1 = clock_pointer s" "vpages s1 = (vpages s)(p \<mapsto> pg)" "vfs s1 = v2" "current s1 = current s"
      "\<not> frame_lock s1" "swap_block s1 = swap_block s" "free_bitmap s1 = free_bitmap s"
    using p(2) ok(2) by (auto simp: s1_def set_ram_def at_ram_def)
  have res: "resides {p} s1 = resides {p} s" using procs_cong [OF s1(1)] p(2) by (auto simp: fun_eq_iff resides_def s1(6))
  have calm: "disks (devs v2) = disks (vdevs s)" "same_layout (all_blocks (vdevs s)) (all_blocks (devs v2))"
      "block_by_role (devs v2) = block_by_role (vdevs s)" "fs_device v2 = fs_device (vfs s)" "disk_ok v2" "next_addr (vfs s) \<le> next_addr v2" "memory v2"
    using f(4) by (simp_all add: moved_file_def calm_def)
  note sd = same_disks [OF calm(1-3) inv(6) sok] and mf = moved_file_pages [OF f(4)]
  have sw: "swapped {p} s1"
  proof -
    obtain b n where b: "free_bitmap s = Some b" "wf_bitmap b" "device_ready (swap_block s) n (vdevs s)" "8 * unat (bit_cnt b) \<le> unat n"
        "\<forall>t < n. length (sector_of (vdevs s) (swap_block s) t) = 512"
      using sok unfolding swap_ok_def by blast
    have "sector_of (devs v2) (swap_block s) t = sector_of (vdevs s) (swap_block s) t" for t
      using calm(1) place_same_layout [OF calm(2)] b(3) by (simp add: sector_of_def device_ready_def)
    then have "swap_ok s1" using b device_ready_same_layout [OF b(3) calm(2)] calm(3) unfolding swap_ok_def s1(7,10,11) by auto
    moreover have "slots_used s1 = slots_used s" by (simp add: slots_used_def s1(11))
    ultimately show ?thesis using vm_invD(5) [OF ok1] unfolding swapped_def res by simp
  qed
  have fi: "filed {p} s1"
    using sd(2) calm(4,5) vm_invD(6) [OF ok1] unfolding filed_def res s1(7,10) mf(1) by simp
  note ld = load_inv [OF ok1 fr m(3) s1(1-6) _ p(2) refl refl refl sw fi]
  have ok2: "vm_inv {p} s1" "free_frame s1 k" "own s1 = own s" "pdir s1 = pdir s" using ld(1,2,4,5) s1(7) calm(6) by simp_all
  have cont: "page_content s1 qg = page_content s qg" if a: "resides {p} s t q v qg" for t q v qg
  proof -
    consider "location qg = IN_FRAME" | "location qg = IN_SWAP" | "location qg = IN_FILESYS"
      using residesD(8) [OF inv(2), of "{p}"] a by auto
    then show ?thesis
    proof cases
      case 1
      then show ?thesis using ld(6) [OF _ a] s1(2,7) calm(6) by (simp add: page_content_def)
    next
      case 2
      then obtain i where i: "i \<in> slots_used s" "swap_location qg = of_nat (8 * i)" using vm_invD(5) [OF ok1] a unfolding swapped_def by blast
      have il: "i < slots s" using slots_used_bound [OF sok i(1)] .
      have "slot_bytes s1 i = slot_bytes (set_devs (devs v2) s) i" using s1(7,10) by (simp add: slot_bytes_def)
      then show ?thesis using 2 sd(5) [OF il] slot_of_page [OF sok il i(2)] by (simp add: page_content_def)
    next
      case 3
      then have "file_page (vfs s) qg" using vm_invD(6) [OF ok1] a unfolding filed_def by blast
      then show ?thesis using mf(2) 3 by (simp add: page_content_def s1(7))
    qed
  qed
  have hs: "holds {p} s1 = holds {p} s" using cont unfolding holds_def res fun_eq_iff by metis
  have sp1: "spare s1" using sp s1(2) by (simp add: spare_def)
  have p1: "(p, u) \<in> own s1 (current s1)" "vpages s1 p = Some pg" using s1(6,8) p(1) ok2(3) by simp_all
  obtain s' where s': "page_install_to_frame p u k (pdir s1 (current s1)) s1 = Some (s', Inr True)" "vm_ok s'" "procs s' = procs s1"
      "current s' = current s1" "vfs s' = vfs s1" "vpages s' = (vpages s1)(p \<mapsto> pg\<lparr>location := IN_FRAME, pg_kpage := k\<rparr>)"
      "\<forall>t v bs. holds {} s' t v bs \<longleftrightarrow> (if t = current s1 \<and> v = u then bs = page_bytes (ram s1) k else holds {p} s t v bs)"
    using install_ok [OF ok2(1) s1(9) ok2(2) sp1 p1] unfolding hs by blast
  have "page_content s pg = page_bytes m k" using p(3) m(4) by (simp add: page_content_def)
  then have "holds {} s (current s) u bs \<longleftrightarrow> bs = page_bytes (ram s1) k" for bs using holds_eq [OF inv(2) r] s1(2) by simp
  moreover have "holds {p} s t v bs \<longleftrightarrow> holds {} s t v bs" if "\<not> (t = current s \<and> v = u)" for t v bs
    using tr(2) [of t v bs] that own_owner [OF inv(2) p(1)] by blast
  ultimately have h: "holds {} s' t v bs \<longleftrightarrow> holds {} s t v bs" for t v bs using s'(7) s1(8) by auto
  have "page_read_frame p k s = Some (s', Inr ())"
    using f(1-3,5,6) m(1,2) s'(1) s1(8) p(2) rr(4,5) ok2(4) by (simp add: page_read_frame_def s1_def [symmetric])
  moreover have "others_kept s s'"
    using others_kept_page [OF inv(2), of s' p "Some (pg\<lparr>location := IN_FRAME, pg_kpage := k\<rparr>)"] own_owner [OF inv(2) p(1)] s'(3,6) s1(1,6)
    by auto
  ultimately show ?thesis using s'(2-6) s1(1,7,8) h calm(7) by simp
qed

end
