(* ===== verification/Vm_Fault.thy ===== *)
theory Vm_Fault
  imports Vm_Load
begin

text \<open>
  Page faults: every fault on a page of the process, or on a new page of its stack, is resolved
  without changing what any page of any process holds.
\<close>

section \<open>Looking up and adding pages\<close>

lemma card_upages: "card {u :: u32. pg_ofs u = 0} \<le> 2 ^ 20"
proof -
  have "inj_on page_of {u :: u32. pg_ofs u = 0}" using page_of_eq by (auto simp: inj_on_def)
  moreover have "page_of u < 2 ^ 20" for u :: u32 using u32_unat_bound [of u] by (simp add: page_of_def less_mult_imp_div_less)
  then have "page_of ` {u :: u32. pg_ofs u = 0} \<subseteq> {..< 2 ^ 20}" by blast
  ultimately show ?thesis using card_inj_on_le [of page_of _ "{..< 2 ^ 20 :: nat}"] by simp
qed

lemma own_elems: "procs s t = Some pr \<Longrightarrow> spt pr = Some h \<Longrightarrow> own s t = elems h"
  by (simp add: own_def)

lemma spt_room:
  assumes ow: "owners s" and h: "procs s t = Some pr" "spt pr = Some h"
  shows "hash_room page_hash page_less 9 h"
proof -
  have wf: "wf_hash page_hash page_less h" using ow h by (auto simp: owners_def)
  then have "length (concat (buckets h)) = card (elems h)" by (simp add: wf_hash_def elems_def distinct_card del: set_concat)
  also have "\<dots> \<le> card {u :: u32. pg_ofs u = 0}"
  proof (rule card_inj_on_le [of snd])
    show "inj_on snd (elems h)" using own_unique [OF ow] own_elems [OF h] by (force simp: inj_on_def)
    show "snd ` elems h \<subseteq> {u. pg_ofs u = 0}" using ownersD [OF ow, of _ _ t] own_elems [OF h] by (force simp: upage_ok_def)
  qed simp
  finally show ?thesis using wf card_upages by (simp add: hash_room_def)
qed

lemma find_page:
  assumes "owners s" "procs s t = Some pr" "spt pr = Some h"
  shows "\<exists>r. hash_find h (0, u) = Some r \<and> (case r of None \<Rightarrow> \<forall>p. (p, u) \<notin> own s t | Some e \<Rightarrow> snd e = u \<and> e \<in> own s t)"
  using page_table.hash_lookup(2,3) [OF spt_room [OF assms], of "(0, u)"] own_elems [OF assms(2,3)]
  by (auto simp: answer_def page_eqv split: option.splits)

lemma find_some:
  assumes "owners s" "procs s t = Some pr" "spt pr = Some h" "(p, u) \<in> own s t"
  shows "hash_find h (0, u) = Some (Some (p, u))"
proof -
  obtain r where r: "hash_find h (0, u) = Some r" "case r of None \<Rightarrow> \<forall>p. (p, u) \<notin> own s t | Some e \<Rightarrow> snd e = u \<and> e \<in> own s t"
    using find_page [OF assms(1-3)] by blast
  then obtain e where e: "r = Some e" "snd e = u" "e \<in> own s t" using assms(4) by (cases r) simp_all
  then have "e = (p, u)" using own_unique [OF assms(1,4), of "fst e"] by (metis prod.collapse)
  then show ?thesis using r(1) e(1) by simp
qed

lemma find_none:
  assumes "owners s" "procs s t = Some pr" "spt pr = Some h" "\<And>p. (p, u) \<notin> own s t"
  shows "hash_find h (0, u) = Some None"
proof -
  obtain r where r: "hash_find h (0, u) = Some r" "case r of None \<Rightarrow> \<forall>p. (p, u) \<notin> own s t | Some e \<Rightarrow> snd e = u \<and> e \<in> own s t"
    using find_page [OF assms(1-3)] by blast
  have "r = None"
  proof (cases r)
    case (Some e)
    then have "(fst e, u) \<in> own s t" using r(2) by (cases e) simp
    then show ?thesis using assms(4) by blast
  qed
  then show ?thesis using r(1) by simp
qed

section \<open>Growing the stack\<close>

text \<open>The state after \<open>page_build\<close> and \<open>page_add\<close>.\<close>

definition with_page :: "vm \<Rightarrow> fs \<Rightarrow> nat \<Rightarrow> vpage \<Rightarrow> process \<Rightarrow> vm" where
  "with_page s v p pg pr = s\<lparr>vpages := (vpages s)(p \<mapsto> pg), vfs := v, procs := (procs s)(current s \<mapsto> pr)\<rparr>"

definition stack_page :: "u32 \<Rightarrow> u32 \<Rightarrow> vpage" where
  "stack_page u pd = \<lparr>pg_upage = u, pg_kpage = 0, pg_file = None, pg_writable = True, page_read_bytes = 0,
     page_zero_bytes = 0, location = IN_FRAME, swap_location = - 1, pg_offset = 0, pg_pagedir = pd\<rparr>"

lemma with_page_inv:
  assumes ok: "vm_inv {} s" and pr: "procs s (current s) = Some pr" "spt pr = Some h" "pagedir pr \<noteq> 0"
    and u: "upage_ok u" and new: "\<And>p. (p, u) \<notin> own s (current s)"
    and h': "wf_hash page_hash page_less h'" "elems h' = insert (p, u) (elems h)"
    and p: "p = next_addr (vfs s)" and v: "next_addr v = Suc (Suc p)" "v = (vfs s)\<lparr>malloc_ok := mo, next_addr := Suc (Suc p)\<rparr>"
  defines "s' \<equiv> with_page s v p (stack_page u (pagedir pr)) (pr\<lparr>spt := Some h'\<rparr>)"
  shows "vm_inv {p} s'" "(p, u) \<in> own s' (current s')" "holds {p} s' = holds {} s" "pdir s' = pdir s" "\<And>t u'. (p, u') \<notin> own s t"
proof -
  note inv = vm_invD [OF ok]
  have s': "mach s' = mach s" "frame_table s' = frame_table s" "occupancy s' = occupancy s" "clock_pointer s' = clock_pointer s"
      "swap_block s' = swap_block s" "free_bitmap s' = free_bitmap s" "vfs s' = v" "current s' = current s"
      "vpages s' = (vpages s)(p \<mapsto> stack_page u (pagedir pr))" "procs s' = (procs s)(current s \<mapsto> pr\<lparr>spt := Some h'\<rparr>)"
    by (simp_all add: s'_def with_page_def)
  show pd: "pdir s' = pdir s" using pr by (auto simp: fun_eq_iff pdir_def s'(10))
  have own: "own s' t = (if t = current s then insert (p, u) (own s t) else own s t)" for t
    using pr h'(2) by (auto simp: own_def s'(10))
  then show "(p, u) \<in> own s' (current s')" by (simp add: s'(8))
  show fresh: "(p, u') \<notin> own s t" for t u'
  proof
    assume "(p, u') \<in> own s t"
    then obtain pg where "vpages s p = Some pg" using ownersD [OF inv(2)] by metis
    then have "p < next_addr (vfs s)" using inv(2) unfolding owners_def by blast
    then show False by (simp add: p)
  qed
  have res: "resides {p} s' = resides {} s" using fresh by (auto simp: fun_eq_iff resides_def own s'(9))
  have fp: "file_page v = file_page (vfs s)" "file_bytes v = file_bytes (vfs s)" "disk_ok v = disk_ok (vfs s)" "devs v = devs (vfs s)" "fs_device v = fs_device (vfs s)"
    using file_page_cong [of v "vfs s"] by (simp_all add: fun_eq_iff v(2) sect_def fs_size_def disk_ok_def)
  have sw: "swap_ok s' = swap_ok s" "slots_used s' = slots_used s" "slot_bytes s' = slot_bytes s"
    by (simp_all add: swap_ok_def slots_used_def slot_bytes_def fun_eq_iff s' fp)
  have "spaces s'" using inv(1) by (simp add: spaces_def pd s'(1))
  moreover have "owners s'"
    unfolding owners_def pd
  proof (intro conjI allI impI)
    fix t q w assume a: "(q, w) \<in> own s' t"
    show "pdir s t \<noteq> 0" "upage_ok w"
      "\<exists>pg. vpages s' q = Some pg \<and> pg_upage pg = w \<and> pg_pagedir pg = pdir s t \<and> location pg \<in> {IN_FRAME, IN_SWAP, IN_FILESYS}"
    proof -
      have "pdir s t \<noteq> 0 \<and> upage_ok w \<and> (\<exists>pg. vpages s' q = Some pg \<and> pg_upage pg = w \<and> pg_pagedir pg = pdir s t \<and> location pg \<in> {IN_FRAME, IN_SWAP, IN_FILESYS})"
      proof (cases "q = p")
        case True
        then have "t = current s" "w = u" using a fresh by (auto simp: own split: if_splits)
        then show ?thesis using True pr u by (simp add: s'(9) stack_page_def pdir_def)
      next
        case False
        then have b: "(q, w) \<in> own s t" using a by (auto simp: own split: if_splits)
        show ?thesis using ownersD [OF inv(2) b] False by (auto simp: s'(9))
      qed
      then show "pdir s t \<noteq> 0" "upage_ok w"
        "\<exists>pg. vpages s' q = Some pg \<and> pg_upage pg = w \<and> pg_pagedir pg = pdir s t \<and> location pg \<in> {IN_FRAME, IN_SWAP, IN_FILESYS}" by blast+
    qed
  next
    show "t = t'" if "(q, w) \<in> own s' t" "(q, w') \<in> own s' t'" for t t' q w w'
    proof (cases "q = p")
      case True
      then show ?thesis using that fresh by (auto simp: own split: if_splits)
    next
      case False
      then have "(q, w) \<in> own s t" "(q, w') \<in> own s t'" using that by (auto simp: own split: if_splits)
      then show ?thesis using own_owner [OF inv(2)] by blast
    qed
    show "wf_hash page_hash page_less g" if "procs s' t = Some r" "spt r = Some g" for t r g
      using that h'(1) inv(2) by (auto simp: owners_def s'(10) split: if_splits)
    show "q < next_addr (vfs s')" if "vpages s' q = Some qg" for q qg
    proof -
      have "q < next_addr (vfs s)" if "vpages s q = Some qg" using that inv(2) unfolding owners_def by blast
      then show ?thesis using that v(1) p by (auto simp: s'(7,9) split: if_splits)
    qed
  qed
  moreover have "busy {p} s' = busy {} s" by (simp add: busy_def fun_eq_iff res pd)
  then have "frames_ok {p} s'" using inv(3) by (simp add: frames_ok_def s')
  moreover have "udir s' = udir s" using pr by (auto simp: fun_eq_iff udir_def s'(10))
  then have "mapped {p} s'" using inv(4) by (simp add: mapped_def res pd s')
  moreover have "swapped {p} s'" using inv(5) by (simp add: swapped_def res sw)
  moreover have "filed {p} s'" using inv(6) by (simp add: filed_def res s' fp)
  ultimately show "vm_inv {p} s'" by (simp add: vm_inv_def)
  have "page_content s' = page_content s" by (simp add: fun_eq_iff page_content_def sw s' fp)
  then show "holds {p} s' = holds {} s" by (simp add: holds_def fun_eq_iff res)
qed


lemma grow_ok:
  assumes ok: "vm_inv {} s" "\<not> frame_lock s" and pr: "procs s (current s) = Some pr" "spt pr = Some h" "pagedir pr \<noteq> 0"
    and u: "upage_ok (pg_round_down fa)" and new: "\<And>p. (p, pg_round_down fa) \<notin> own s (current s)"
    and mem: "memory (vfs s)" and fr: "free_frame s k" and sp: "spare s"
  shows "\<exists>s' p qg. grow_stack fa k s = Some (s', Inr ()) \<and> vm_ok s' \<and> current s' = current s \<and> others_kept s s' \<and>
    pdir s' = pdir s \<and> memory (vfs s') \<and> resides {} s' (current s) p (pg_round_down fa) qg \<and> location qg = IN_FRAME \<and> pg_kpage qg = k \<and> pg_writable qg \<and>
    (\<forall>t v bs. holds {} s' t v bs \<longleftrightarrow> (if t = current s \<and> v = pg_round_down fa then bs = page_bytes (ram s) k else holds {} s t v bs))"
proof -
  note inv = vm_invD [OF ok(1)]
  have m: "malloc_ok (vfs s) n" for n using mem by (simp add: memory_def)
  define u where "u = pg_round_down fa"
  note u = u [folded u_def] and new = new [folded u_def]
  define p where "p = next_addr (vfs s)"
  define v where "v = (vfs s)\<lparr>malloc_ok := (\<lambda>n. malloc_ok (vfs s) (Suc (Suc n))), next_addr := Suc (Suc p)\<rparr>"
  have "hash_room page_hash page_less (Suc 8) h" using spt_room [OF inv(2) pr(1,2)] by simp
  from page_table.hash_insert_request [OF this, of True "(p, u)"]
  obtain h' r where h': "hash_insert True h (p, u) = Some (h', r)" "wf_hash page_hash page_less h'"
      "answer page_table.eqv (elems h) (p, u) r" "elems h' = new_content (Insert (p, u)) r (elems h)"
    by (auto simp: hash_room_def)
  have "r = None" using h'(3) new own_elems [OF pr(1,2)] by (auto simp: answer_def page_eqv split: option.splits)
  then have e: "elems h' = insert (p, u) (elems h)" using h'(4) by simp
  define s1 where "s1 = with_page s v p (stack_page u (pagedir pr)) (pr\<lparr>spt := Some h'\<rparr>)"
  have v: "next_addr v = Suc (Suc p)" by (simp add: v_def)
  note w = with_page_inv [OF ok(1) pr u new h'(2) e p_def v v_def, folded s1_def]
  have s1: "vpages s1 p = Some (stack_page u (pagedir pr))" "current s1 = current s" "\<not> frame_lock s1" "free_frame s1 k" "spare s1" "vfs s1 = v"
      "mach s1 = mach s"
    using ok(2) fr sp by (simp_all add: s1_def with_page_def free_frame_def spare_def)
  have pd: "pdir s1 (current s1) = pagedir pr" using w(4) s1(2) pr(1) by (simp add: pdir_def)
  obtain s' where s': "page_install_to_frame p u k (pdir s1 (current s1)) s1 = Some (s', Inr True)" "vm_ok s'" "procs s' = procs s1"
      "current s' = current s1" "vfs s' = vfs s1" "vpages s' = (vpages s1)(p \<mapsto> (stack_page u (pagedir pr))\<lparr>location := IN_FRAME, pg_kpage := k\<rparr>)"
      "\<forall>t v bs. holds {} s' t v bs \<longleftrightarrow> (if t = current s1 \<and> v = u then bs = page_bytes (ram s1) k else holds {} s t v bs)"
    using install_ok [OF w(1) s1(3,4,5) w(2) s1(1)] unfolding w(3) by blast
  have "is_kernel_vaddr k" using free_frameD [OF ok(1) fr] by metis
  then have "k \<noteq> 0" by (auto simp: is_kernel_vaddr_def PHYS_BASE_def)
  then have run: "grow_stack fa k s = Some (s', Inr ())"
    using s'(1) h'(1) pr pd m
    by (simp add: grow_stack_def page_build_def page_add_def vm_malloc_def fs_malloc_def current_spt_def set_spt_def set_page_def p_def [symmetric]
        u_def [symmetric] s1_def with_page_def v_def stack_page_def)
  have "others_kept s s'"
    by (rule others_kept_page [OF inv(2), of s' p "Some ((stack_page u (pagedir pr))\<lparr>location := IN_FRAME, pg_kpage := k\<rparr>)"])
      (use s'(3,6) w(5) in \<open>simp_all add: s1_def with_page_def\<close>)
  moreover have "resides {} s' (current s) p u ((stack_page u (pagedir pr))\<lparr>location := IN_FRAME, pg_kpage := k\<rparr>)"
    using w(2) s'(6) procs_cong(2) [OF s'(3)] s1(2) by (simp add: resides_def)
  moreover have "memory (vfs s')" using m by (simp add: s'(5) s1(6) v_def memory_def)
  moreover have "pdir s' = pdir s" using w(4) procs_cong(1) [OF s'(3)] by simp
  moreover have "pg_writable (stack_page u (pagedir pr))" by (simp add: stack_page_def)
  ultimately show ?thesis using run s'(2,4,7) s1(2,7) unfolding u_def [symmetric]
    by (intro exI [of _ s'] exI [of _ p] exI [of _ "(stack_page u (pagedir pr))\<lparr>location := IN_FRAME, pg_kpage := k\<rparr>"]) simp
qed

section \<open>Page faults\<close>

definition room :: "vm \<Rightarrow> bool" where
  "room s \<longleftrightarrow> (\<exists>i < TOTAL_PAGES. fr_upage (frame_table s ! i) = 0) \<or> (\<exists>j < slots s. j \<notin> slots_used s)"

lemma quietD:
  assumes "quiet s s'"
  shows "procs s' = procs s" "current s' = current s" "own s' = own s" "pdir s' = pdir s" "spare s' = spare s" "memory (vfs s') = memory (vfs s)"
    "vpages s p = Some pg \<Longrightarrow> location pg \<noteq> IN_FRAME \<Longrightarrow> vpages s' p = Some pg" "holds {} s' t u bs \<longleftrightarrow> holds {} s t u bs"
proof -
  note q = assms [unfolded quiet_def]
  show pr: "procs s' = procs s" using q by blast
  show "own s' = own s" "pdir s' = pdir s" using procs_cong [OF pr] by simp_all
  show "spare s' = spare s" using q by (simp add: spare_def)
  show "memory (vfs s') = memory (vfs s)" using q by (auto simp: memory_def)
qed (use assms in \<open>auto simp: quiet_def\<close>)

text \<open>The page at \<open>u\<close> of process \<open>t\<close> is in frame \<open>k\<close>, and may be written if \<open>w\<close>; the address \<open>va\<close> is on a page that
  may be written.\<close>

definition present :: "vm \<Rightarrow> nat \<Rightarrow> u32 \<Rightarrow> u32 \<Rightarrow> bool \<Rightarrow> bool" where
  "present s t u k w \<longleftrightarrow> (\<exists>p pg. resides {} s t p u pg \<and> location pg = IN_FRAME \<and> pg_kpage pg = k \<and> pg_writable pg = w)"

definition writable_at :: "vm \<Rightarrow> nat \<Rightarrow> u32 \<Rightarrow> bool" where
  "writable_at s t va \<longleftrightarrow> (\<exists>p pg. resides {} s t p (pg_round_down va) pg \<and> pg_writable pg)"

lemma round_down_upage:
  assumes "is_user_vaddr fa" "4096 \<le> unat fa"
  shows "upage_ok (pg_round_down fa)"
proof -
  have "unat (pg_round_down fa) = 4096 * (unat fa div 4096)" by (rule unat_pg_round_down)
  moreover have "4096 * (unat fa div 4096) \<le> unat fa" "0 < unat fa div 4096" using assms(2) by simp_all
  moreover have "pg_ofs (pg_round_down fa) = 0" by (simp add: pg_ofs_0 unat_pg_round_down)
  ultimately show ?thesis
    using assms(1) by (auto simp: upage_ok_def is_user_vaddr_def word_less_nat_alt simp flip: unat_eq_zero)
qed

definition stack_pointer :: "u32 \<Rightarrow> bool \<Rightarrow> process \<Rightarrow> u32" where
  "stack_pointer f_esp user pr = (if user then f_esp else esp pr)"

text \<open>
  What is left to do when the handler has found a frame: to add a page to the stack, or to load
  a page from swap or from a file.
\<close>

datatype need = Grow u32 | Swap_in nat | Read_in nat

fun resume :: "need \<Rightarrow> u32 \<Rightarrow> vm \<Rightarrow> unit run" where
  "resume (Grow fa) k s = grow_stack fa k s"
| "resume (Swap_in p) k s = page_swap_in p k s"
| "resume (Read_in p) k s = page_read_frame p k s"

definition fault_need :: "u32 \<Rightarrow> u32 \<Rightarrow> bool \<Rightarrow> vm \<Rightarrow> need option" where
  "fault_need fault_addr f_esp user s = do {
     t \<leftarrow> procs s (current s);
     h \<leftarrow> spt t;
     target_elem \<leftarrow> hash_find h (0, pg_round_down fault_addr);
     case target_elem of
       None \<Rightarrow> if fault_addr \<ge> stack_pointer f_esp user t - 32 then Some (Grow fault_addr) else None
     | Some e \<Rightarrow> do {
         target \<leftarrow> vpages s (fst e);
         if location target = IN_SWAP then Some (Swap_in (fst e))
         else if location target = IN_FILESYS then Some (Read_in (fst e))
         else None } }"

lemma fault_split:
  assumes "fault_need fa f_esp user s = Some n" "\<not> frame_lock s"
  shows "page_fault_identifier fa f_esp user s = do { (s, k) \<leftarrow> frame_find_empty s; resume n k s }"
  using assms
  by (auto simp: fault_need_def page_fault_identifier_def page_read_install_def stack_pointer_def Let_def bind_eq_Some_iff split: option.splits if_splits)

text \<open>Process \<open>t\<close> needs a frame for the page of \<open>fa\<close>.\<close>

definition waits :: "vm \<Rightarrow> nat \<Rightarrow> u32 \<Rightarrow> need \<Rightarrow> bool" where
  "waits s t fa n \<longleftrightarrow> udir s t \<noteq> 0 \<and> is_user_vaddr fa \<and> 4096 \<le> unat fa \<and> (case n of
     Grow a \<Rightarrow> a = fa \<and> (\<forall>p. (p, pg_round_down fa) \<notin> own s t)
   | Swap_in p \<Rightarrow> (p, pg_round_down fa) \<in> own s t \<and> (\<exists>pg. vpages s p = Some pg \<and> location pg = IN_SWAP)
   | Read_in p \<Rightarrow> (p, pg_round_down fa) \<in> own s t \<and> (\<exists>pg. vpages s p = Some pg \<and> location pg = IN_FILESYS))"

lemma waits_quiet: "waits s t fa n \<Longrightarrow> quiet s s' \<Longrightarrow> waits s' t fa n"
  using quietD(3,7) [of s s'] procs_cong(3) [OF quietD(1)] unfolding waits_def by (cases n) fastforce+

lemma waits_kept:
  assumes "waits s t fa n" "others_kept s s'" "t \<noteq> current s"
  shows "waits s' t fa n"
proof -
  have pr: "procs s' t = procs s t" and vp: "\<And>q u pg. (q, u) \<in> own s t \<Longrightarrow> vpages s q = Some pg \<Longrightarrow> location pg \<noteq> IN_FRAME \<Longrightarrow> vpages s' q = Some pg"
    using assms(2,3) unfolding others_kept_def by blast+
  have o: "own s' t = own s t" "udir s' t = udir s t" using pr by (simp_all add: own_def udir_def)
  show ?thesis using assms(1) vp unfolding waits_def o by (cases n) fastforce+
qed

lemma udirD:
  assumes "udir s t \<noteq> 0"
  obtains pr h where "procs s t = Some pr" "spt pr = Some h" "pagedir pr \<noteq> 0"
  using assms by (auto simp: udir_def split: option.splits)

text \<open>Having found the frame, the handler loads the page and returns.\<close>

lemma resume_ok:
  assumes ok: "vm_ok s" and w: "waits s (current s) fa n" and fr: "free_frame s k" and sp: "spare s" and mem: "memory (vfs s)"
  shows "\<exists>s'. resume n k s = Some (s', Inr ()) \<and> vm_ok s' \<and> current s' = current s \<and> others_kept s s' \<and>
    (\<forall>t v bs. holds {} s' t v bs \<longleftrightarrow>
       (if t = current s \<and> v = pg_round_down fa \<and> n = Grow fa then bs = page_bytes (ram s) k else holds {} s t v bs)) \<and>
    present s' (current s) (pg_round_down fa) k (n = Grow fa \<or> writable_at s (current s) fa)"
proof -
  note inv = vm_invD [OF conjunct1 [OF ok]]
  let ?u = "pg_round_down fa"
  have w1: "udir s (current s) \<noteq> 0" "is_user_vaddr fa" "4096 \<le> unat fa" using w by (simp_all add: waits_def)
  obtain pr h where pr: "procs s (current s) = Some pr" "spt pr = Some h" "pagedir pr \<noteq> 0" using udirD [OF w1(1)] by blast
  have ok1: "vm_inv {} s" "\<not> frame_lock s" using ok by simp_all
  have there: "present s' (current s) ?u k (writable_at s (current s) fa)"
    if "(p, ?u) \<in> own s (current s)" "vpages s p = Some pg" "procs s' = procs s"
      "\<exists>qg. vpages s' p = Some qg \<and> location qg = IN_FRAME \<and> pg_kpage qg = k \<and> pg_writable qg = pg_writable pg" for s' p pg
  proof -
    have r: "resides {} s (current s) p ?u pg" using that(1,2) by (simp add: resides_def)
    have "writable_at s (current s) fa = pg_writable pg" using r resides_unique [OF inv(2) r] unfolding writable_at_def by blast
    moreover have "own s' = own s" by (rule procs_cong(2) [OF that(3)])
    ultimately show ?thesis using that(1,4) unfolding present_def resides_def by auto
  qed
  show ?thesis
  proof (cases n)
    case (Grow a)
    then have "a = fa" "\<And>p. (p, ?u) \<notin> own s (current s)" using w by (simp_all add: waits_def)
    then show ?thesis
      using grow_ok [OF ok1 pr round_down_upage [OF w1(2,3)] _ mem fr sp] Grow unfolding present_def by fastforce
  next
    case (Swap_in p)
    then obtain pg where p: "(p, ?u) \<in> own s (current s)" "vpages s p = Some pg" "location pg = IN_SWAP" using w by (auto simp: waits_def)
    obtain s' where s': "page_swap_in p k s = Some (s', Inr ())" "vm_ok s'" "procs s' = procs s" "others_kept s s'" "current s' = current s"
        "\<forall>t v bs. holds {} s' t v bs \<longleftrightarrow> holds {} s t v bs" "\<exists>qg. vpages s' p = Some qg \<and> location qg = IN_FRAME \<and> pg_kpage qg = k \<and> pg_writable qg = pg_writable pg"
      using swap_in_ok [OF ok1 fr sp p] by blast
    show ?thesis using s' there [OF p(1,2) s'(3,7)] Swap_in by auto
  next
    case (Read_in p)
    then obtain pg where p: "(p, ?u) \<in> own s (current s)" "vpages s p = Some pg" "location pg = IN_FILESYS" using w by (auto simp: waits_def)
    obtain s' where s': "page_read_frame p k s = Some (s', Inr ())" "vm_ok s'" "procs s' = procs s" "others_kept s s'" "current s' = current s"
        "\<forall>t v bs. holds {} s' t v bs \<longleftrightarrow> holds {} s t v bs" "\<exists>qg. vpages s' p = Some qg \<and> location qg = IN_FRAME \<and> pg_kpage qg = k \<and> pg_writable qg = pg_writable pg"
      using file_in_ok [OF ok1 fr sp mem p] by blast
    show ?thesis using s' there [OF p(1,2) s'(3,7)] Read_in by auto
  qed
qed

text \<open>The handler needs a frame unless the page has one or the access is wild.\<close>

lemma need_waits:
  assumes ok: "vm_ok s" and ud: "udir s (current s) \<noteq> 0" and fa: "is_user_vaddr fa" "4096 \<le> unat fa" and n: "fault_need fa f_esp user s = Some n"
  shows "waits s (current s) fa n"
proof -
  note inv = vm_invD [OF conjunct1 [OF ok]]
  obtain pr h where pr: "procs s (current s) = Some pr" "spt pr = Some h" "pagedir pr \<noteq> 0" using udirD [OF ud] by blast
  show ?thesis
  proof (cases "\<exists>p. (p, pg_round_down fa) \<in> own s (current s)")
    case True
    then obtain p where p: "(p, pg_round_down fa) \<in> own s (current s)" by blast
    show ?thesis using n find_some [OF inv(2) pr(1,2) p] pr ud fa p
      by (auto simp: fault_need_def waits_def bind_eq_Some_iff split: if_splits)
  next
    case False
    then show ?thesis using n find_none [OF inv(2) pr(1,2)] pr ud fa by (auto simp: fault_need_def waits_def bind_eq_Some_iff split: if_splits)
  qed
qed

lemma need_known:
  assumes ok: "vm_ok s" and ud: "udir s (current s) \<noteq> 0" and p: "resides {} s (current s) p (pg_round_down fa) pg"
  shows "location pg = IN_FRAME \<Longrightarrow> page_fault_identifier fa f_esp user s = Some (s, Inr ())"
    "location pg \<noteq> IN_FRAME \<Longrightarrow> \<exists>n. fault_need fa f_esp user s = Some n \<and> n \<noteq> Grow fa"
proof -
  note inv = vm_invD [OF conjunct1 [OF ok]]
  obtain pr h where pr: "procs s (current s) = Some pr" "spt pr = Some h" "pagedir pr \<noteq> 0" using udirD [OF ud] by blast
  note r = residesD [OF inv(2) p]
  note f = find_some [OF inv(2) pr(1,2) r(1)]
  show "page_fault_identifier fa f_esp user s = Some (s, Inr ())" if "location pg = IN_FRAME"
    using ok that f pr r(3) by (simp add: page_fault_identifier_def)
  show "\<exists>n. fault_need fa f_esp user s = Some n \<and> n \<noteq> Grow fa" if "location pg \<noteq> IN_FRAME"
    using that f pr r(3,8) by (auto simp: fault_need_def)
qed

lemma need_unknown:
  assumes ok: "vm_ok s" and pr: "procs s (current s) = Some pr" "spt pr = Some h"
    and new: "\<And>p. (p, pg_round_down fa) \<notin> own s (current s)" and st: "stack_pointer f_esp user pr - 32 \<le> fa"
  shows "fault_need fa f_esp user s = Some (Grow fa)"
  using find_none [OF vm_invD(2) [OF conjunct1 [OF ok]] pr new] pr st by (simp add: fault_need_def)

text \<open>An access below the stack, or to nothing, ends the process and changes no state.\<close>

lemma wild_fault:
  assumes ok: "vm_ok s" and pr: "procs s (current s) = Some pr" "spt pr = Some h"
    and new: "\<And>p. (p, pg_round_down fa) \<notin> own s (current s)" and st: "fa < stack_pointer f_esp user pr - 32"
  shows "page_fault_identifier fa f_esp user s = Some (s, Inl (- 1))"
proof -
  let ?u = "pg_round_down fa"
  note inv = vm_invD [OF conjunct1 [OF ok]]
  note r = find_none [OF inv(2) pr(1,2) new]
  show ?thesis using ok pr r st by (auto simp: page_fault_identifier_def stack_pointer_def Let_def)
qed

end
