(* ===== verification/Vm_Mem.thy ===== *)
theory Vm_Mem
  imports Vm_Fault
begin

text \<open>
  What a process sees of virtual memory. Loads and stores go through its page directory; a fault
  is handled by the kernel. Every process has a private memory in which a byte changes only when the
  process writes it.
\<close>

section \<open>Memory accesses\<close>

text \<open>
  The translation of an address by the processor, which marks the entry as accessed and, for a
  write, as dirty. \<open>None\<close> is a page fault.
\<close>

definition translate :: "bool \<Rightarrow> u32 \<Rightarrow> vm \<Rightarrow> u32 option" where
  "translate write va s =
     (let e = entry (mach s) (pdir s (current s)) va
      in if is_user_vaddr va \<and> pdir s (current s) \<noteq> 0 \<and> e AND PTE_P \<noteq> 0 \<and> (write \<longrightarrow> e AND PTE_W \<noteq> 0)
         then map_option (\<lambda>k. k + pg_ofs va) (pte_get_page e) else None)"

definition mark :: "bool \<Rightarrow> u32 \<Rightarrow> vm \<Rightarrow> vm" where
  "mark write va s =
     (let pd = pdir s (current s); e = entry (mach s) pd va
      in s\<lparr>mach := wr (mach s) (pte_addr (mach s) pd va) (e OR PTE_A OR (if write then PTE_D else 0))\<rparr>)"

definition user_load :: "u32 \<Rightarrow> vm \<Rightarrow> (vm \<times> u8) option" where
  "user_load va s = map_option (\<lambda>a. (mark False va s, byte_at (ram s) a)) (translate False va s)"

definition user_store :: "u32 \<Rightarrow> u8 \<Rightarrow> vm \<Rightarrow> vm option" where
  "user_store va b s = map_option (\<lambda>a. let s = mark True va s in set_ram (store_bytes (ram s) a [b]) s) (translate True va s)"

text \<open>The byte at an address of a process, wherever its page is.\<close>

definition vmem :: "vm \<Rightarrow> nat \<Rightarrow> u32 \<Rightarrow> u8 option" where
  "vmem s t va = do {
     pr \<leftarrow> procs s t;
     h \<leftarrow> spt pr;
     r \<leftarrow> hash_find h (0, pg_round_down va);
     e \<leftarrow> r;
     pg \<leftarrow> vpages s (fst e);
     Some (page_content s pg ! unat (pg_ofs va)) }"

lemma vmem_none: "owners s \<Longrightarrow> (\<And>p. (p, pg_round_down va) \<notin> own s t) \<Longrightarrow> vmem s t va = None"
  using find_none [of s t _ _ "pg_round_down va"] by (auto simp: vmem_def bind_eq_None_conv split: option.splits)

lemma vmem_some:
  assumes "owners s" "resides {} s t p (pg_round_down va) pg"
  shows "vmem s t va = Some (page_content s pg ! unat (pg_ofs va))"
proof -
  have o: "(p, pg_round_down va) \<in> own s t" "vpages s p = Some pg" using assms(2) by (simp_all add: resides_def)
  obtain pr h where "procs s t = Some pr" "spt pr = Some h" using own_proc [OF o(1)] by blast
  then show ?thesis using find_some [OF assms(1) _ _ o(1)] o(2) by (simp add: vmem_def)
qed

lemma vmem_iff:
  assumes "owners s"
  shows "vmem s t va = Some b \<longleftrightarrow> (\<exists>bs. holds {} s t (pg_round_down va) bs \<and> b = bs ! unat (pg_ofs va))"
proof (cases "\<exists>p. (p, pg_round_down va) \<in> own s t")
  case True
  then obtain p pg where r: "resides {} s t p (pg_round_down va) pg" using ownersD [OF assms] unfolding resides_def by (metis empty_iff)
  then show ?thesis using vmem_some [OF assms r] holds_eq [OF assms r] by auto
next
  case False
  then have "\<not> holds {} s t (pg_round_down va) bs" for bs by (auto simp: holds_def resides_def)
  then show ?thesis using vmem_none [OF assms] False by auto
qed

lemma vmem_cong:
  assumes "owners s" "owners s'" "\<And>bs. holds {} s' t (pg_round_down va) bs \<longleftrightarrow> holds {} s t (pg_round_down va) bs"
  shows "vmem s' t va = vmem s t va"
proof (rule option.expand [THEN sym])
  have "vmem s' t va = Some b \<longleftrightarrow> vmem s t va = Some b" for b using vmem_iff [OF assms(1)] vmem_iff [OF assms(2)] assms(3) by simp
  then show "(vmem s t va = None) = (vmem s' t va = None)" "vmem s t va \<noteq> None \<Longrightarrow> vmem s' t va \<noteq> None \<Longrightarrow> the (vmem s t va) = the (vmem s' t va)"
    by (metis not_None_eq option.collapse)+
qed

section \<open>Marking an entry\<close>

text \<open>A process that runs user code: it has a supplemental page table and a page directory.\<close>

definition user_process :: "vm \<Rightarrow> bool" where
  "user_process s \<longleftrightarrow> (\<exists>pr h. procs s (current s) = Some pr \<and> spt pr = Some h \<and> pagedir pr \<noteq> 0)"

lemma user_process_udir: "user_process s \<longleftrightarrow> udir s (current s) \<noteq> 0"
  by (auto simp: user_process_def udir_def split: option.splits)

lemma same_map_or:
  assumes "x AND PTE_P = 0" "x AND PTE_W = 0" "x AND PTE_ADDR = 0"
  shows "same_map e (e OR x)"
  unfolding same_map_def using assms by (auto simp: bit.conj_disj_distrib2)

lemma translateD:
  assumes ok: "vm_inv {} s" and up: "user_process s" and tr: "translate w va s = Some a"
  obtains p u pg where "resides {} s (current s) p u pg" "same_upage va u" "location pg = IN_FRAME" "a = pg_kpage pg + pg_ofs va"
    "w \<Longrightarrow> pg_writable pg" "is_user_vaddr va" "pdir s (current s) \<noteq> 0" "pte_addr (mach s) (pdir s (current s)) va \<noteq> 0" "u = pg_round_down va"
proof -
  note inv = vm_invD [OF ok]
  let ?pd = "pdir s (current s)" and ?e = "entry (mach s) (pdir s (current s)) va"
  have t: "is_user_vaddr va" "?pd \<noteq> 0" "?e AND PTE_P \<noteq> 0" "w \<Longrightarrow> ?e AND PTE_W \<noteq> 0" "\<exists>k. pte_get_page ?e = Some k \<and> a = k + pg_ofs va"
    using tr by (auto simp: translate_def Let_def split: if_splits)
  obtain p u pg where r: "resides {} s (current s) p u pg" "same_upage va u" "location pg = IN_FRAME"
    using mappedD(3) [OF inv(4) t(1) _ t(3)] up unfolding user_process_udir by blast
  have m: "maps_to ?e pg" using mappedD(1) [OF inv(4) r(1,3)] entry_same [OF r(2)] by simp
  have pte: "pte_addr (mach s) ?pd va \<noteq> 0" using entry_0 [OF spacesD(2) [OF inv(1) t(2)] t(1)] t(3) by auto
  have u: "u = pg_round_down va"
  proof -
    have "pg_no (pg_round_down va) = pg_no va" by (simp add: same_upage_def word_unat_eq_iff unat_pg_no unat_pg_round_down)
    moreover have "pg_ofs (pg_round_down va) = 0" by (simp add: pg_ofs_0 unat_pg_round_down)
    moreover have "pg_ofs u = 0" using residesD(7) [OF inv(2) r(1)] by (simp add: upage_ok_def)
    moreover have "pg_no u = pg_no va" using r(2) by (simp add: same_upage_def)
    ultimately show ?thesis using same_upage_eq [of u "pg_round_down va"] unfolding same_upage_def by simp
  qed
  have a: "a = pg_kpage pg + pg_ofs va" using m t(5) by (auto simp: maps_to_def)
  have w: "w \<Longrightarrow> pg_writable pg" using m t(4) by (simp add: maps_to_def)
  show ?thesis by (rule that [OF r a w t(1,2) pte u])
qed

lemma mark_ok:
  assumes ok: "vm_inv {} s" and up: "user_process s" and tr: "translate w va s = Some a"
  shows "vm_inv {} (mark w' va s)" "holds {} (mark w' va s) t u bs \<longleftrightarrow> holds {} s t u bs"
    "resides {} (mark w' va s) = resides {} s" "procs (mark w' va s) = procs s" "current (mark w' va s) = current s"
    "frame_lock (mark w' va s) = frame_lock s" "vfs (mark w' va s) = vfs s"
    "\<And>y q v qg. resides {} s y q v qg \<Longrightarrow> location qg = IN_FRAME \<Longrightarrow> page_bytes (ram (mark w' va s)) (pg_kpage qg) = page_bytes (ram s) (pg_kpage qg)"
proof -
  note inv = vm_invD [OF ok]
  let ?pd = "pdir s (current s)"
  have t: "is_user_vaddr va" "?pd \<noteq> 0" "pte_addr (mach s) ?pd va \<noteq> 0" using translateD [OF ok up tr] by metis+
  have wf: "wf_pd (mach s) ?pd" using spacesD(2) [OF inv(1) t(2)] .
  define x where "x = PTE_A OR (if w' then PTE_D else 0)"
  have x: "x AND PTE_P = 0" "x AND PTE_W = 0" "x AND PTE_ADDR = 0"
    by (simp_all add: x_def PTE_A_def PTE_D_def PTE_P_def PTE_W_def PTE_ADDR_def)
  define m where "m = wr (mach s) (pte_addr (mach s) ?pd va) (entry (mach s) ?pd va OR x)"
  have eq: "mark w' va s = s\<lparr>mach := m\<rparr>" by (simp add: mark_def Let_def m_def x_def or.assoc)
  have to: "touches (mach s) ?pd m" unfolding m_def by (rule touches_wr [OF wf t(1,3)])
  have same: "same_map (entry (mach s) ?pd vb) (entry m ?pd vb)" if "is_user_vaddr vb" for vb
    using wr_entry(2) [OF wf t(1,3) that] entry_same [of vb va] same_map_or [OF x] by (simp add: m_def same_map_def)
  note st = step_entries [OF ok t(2) to same]
  show "vm_inv {} (mark w' va s)" "holds {} (mark w' va s) t u bs \<longleftrightarrow> holds {} s t u bs" using st by (simp_all add: eq)
  show "page_bytes (ram (mark w' va s)) (pg_kpage qg) = page_bytes (ram s) (pg_kpage qg)" if "resides {} s y q v qg" "location qg = IN_FRAME" for y q v qg
    using frame_content_touch [OF ok to that] by (simp add: eq)
qed (simp_all add: mark_def Let_def)


section \<open>Loads and stores\<close>

lemma page_byte: "byte_at m (k + pg_ofs va) = page_bytes m k ! unat (pg_ofs va)" "unat (pg_ofs va) < 4096"
proof -
  show l: "unat (pg_ofs va) < 4096" by (simp add: unat_pg_ofs)
  show "byte_at m (k + pg_ofs va) = page_bytes m k ! unat (pg_ofs va)" using page_bytes_nth [OF l] by simp
qed

lemma address_unique:
  assumes "pg_round_down va = pg_round_down vb" "pg_ofs va = pg_ofs vb"
  shows "va = vb"
proof -
  have "4096 * (unat va div 4096) = 4096 * (unat vb div 4096)" "unat va mod 4096 = unat vb mod 4096"
    using arg_cong [OF assms(1), of unat] arg_cong [OF assms(2), of unat] by (simp_all add: unat_pg_round_down unat_pg_ofs)
  then have "unat va = unat vb" using mult_div_mod_eq [of 4096 "unat va"] mult_div_mod_eq [of 4096 "unat vb"] by linarith
  then show ?thesis by (simp add: word_unat_eq_iff)
qed

lemma load_ok:
  assumes ok: "vm_ok s" and up: "user_process s" and run: "user_load va s = Some (s', b)"
  shows "vm_ok s'" "vmem s (current s) va = Some b" "vmem s' = vmem s" "procs s' = procs s" "vpages s' = vpages s" "current s' = current s"
proof -
  note inv = vm_invD [OF conjunct1 [OF ok]]
  obtain a where a: "translate False va s = Some a" "s' = mark False va s" "b = byte_at (ram s) a"
    using run by (auto simp: user_load_def)
  note m = mark_ok [OF conjunct1 [OF ok] up a(1), where w' = False, folded a(2)]
  obtain p pg where r: "resides {} s (current s) p (pg_round_down va) pg" "location pg = IN_FRAME" "a = pg_kpage pg + pg_ofs va"
    using translateD [OF conjunct1 [OF ok] up a(1)] by metis
  show "vmem s (current s) va = Some b" using vmem_some [OF inv(2) r(1)] r(2,3) a(3) by (simp add: page_content_def page_byte)
  show "vm_ok s'" "procs s' = procs s" "vpages s' = vpages s" "current s' = current s" using m(1,4-6) ok a(2) by (simp_all add: mark_def Let_def)
  show "vmem s' = vmem s" using vmem_cong [OF inv(2) vm_invD(2) [OF m(1)]] m(2) by (intro ext) blast
qed

lemma frames_apart:
  assumes ok: "vm_inv X s" and p: "resides X s t p u pg" "location pg = IN_FRAME" and q: "resides X s x q v qg" "location qg = IN_FRAME"
    and ne: "q \<noteq> p"
  shows "page_of (pg_kpage qg) \<noteq> page_of (pg_kpage pg)" "pg_ofs (pg_kpage pg) = 0" "page_of (pg_kpage pg) \<in> in_use (user_pool (pal (mach s)))"
proof -
  note inv = vm_invD [OF ok]
  obtain i where i: "i < TOTAL_PAGES" "fr_page (frame_table s ! i) = Some p" "fr_kpage (frame_table s ! i) = pg_kpage pg" "frame_ok (mach s) (frame_table s ! i)"
    using in_frame [OF ok p] by metis
  obtain j where j: "j < TOTAL_PAGES" "fr_page (frame_table s ! j) = Some q" "fr_kpage (frame_table s ! j) = pg_kpage qg" "frame_ok (mach s) (frame_table s ! j)"
    using in_frame [OF ok q] by metis
  show o: "pg_ofs (pg_kpage pg) = 0" "page_of (pg_kpage pg) \<in> in_use (user_pool (pal (mach s)))" using i(3,4) by (simp_all add: frame_ok_def)
  have "pg_ofs (pg_kpage qg) = 0" using j(3,4) by (simp add: frame_ok_def)
  moreover have "i \<noteq> j" using i(2) j(2) ne by auto
  then have "pg_kpage qg \<noteq> pg_kpage pg"
    using inv(3) i(1,3) j(1,3) nth_eq_iff_index_eq [of "map fr_kpage (frame_table s)" i j] by (simp add: frames_ok_def)
  ultimately show "page_of (pg_kpage qg) \<noteq> page_of (pg_kpage pg)" using page_of_eq o(1) by blast
qed

lemma frame_page:
  assumes "vm_inv X s" "resides X s t p u pg" "location pg = IN_FRAME"
  shows "pg_ofs (pg_kpage pg) = 0" "page_of (pg_kpage pg) \<in> in_use (user_pool (pal (mach s)))"
  using in_frame [OF assms] by (metis frame_ok_def)+

lemma ram_inv:
  assumes ok: "vm_inv X s" and kp: "page_of k \<in> in_use (user_pool (pal (mach s)))" and ag: "agree (- {page_of k}) (ram s) r"
  shows "vm_inv X (set_ram r s)"
proof -
  note inv = vm_invD [OF ok] and dir = dirs_at_ram [OF ok kp ag]
  have s': "set_ram r s = s\<lparr>mach := at_ram (mach s) r\<rparr>" by (simp add: set_ram_def at_ram_def)
  have "spaces (set_ram r s)" using inv(1) dir(1,2) by (simp add: s' spaces_def)
  moreover have "frame_ok (at_ram (mach s) r) = frame_ok (mach s)" by (simp add: frame_ok_def fun_eq_iff)
  then have "frames_ok X (set_ram r s)" using inv(3) by (simp add: s' frames_ok_def)
  moreover have "mapped X (set_ram r s)"
    unfolding mapped_def s' mach_upd
  proof (intro conjI allI impI)
    fix t q u qg assume q: "resides X s t q u qg" "location qg = IN_FRAME"
    note rr = residesD [OF inv(2) q(1)]
    show "maps_to (entry (mach (s\<lparr>mach := at_ram (mach s) r\<rparr>)) (pdir s t) u) qg"
      using mappedD(1) [OF inv(4) q] dir(3) [OF rr(6), of u] rr(7) by (simp add: upage_ok_def)
    show "\<exists>f \<in> set (frame_table (s\<lparr>mach := at_ram (mach s) r\<rparr>)). fr_page f = Some q" using mappedD(2) [OF inv(4) q] by simp
  next
    fix t va assume a: "is_user_vaddr va" "udir s t \<noteq> 0" "entry (mach (s\<lparr>mach := at_ram (mach s) r\<rparr>)) (pdir s t) va AND PTE_P \<noteq> 0"
    then show "\<exists>p u pg. resides X s t p u pg \<and> same_upage va u \<and> location pg = IN_FRAME"
      using mappedD(3) [OF inv(4) a(1,2)] dir(3) [OF udir_pdir [OF a(2)] a(1)] by simp
  qed
  ultimately show ?thesis using inv by (simp add: vm_inv_def s')
qed

lemma store_ok:
  assumes ok: "vm_ok s" and up: "user_process s" and run: "user_store va b s = Some s'"
  shows "vm_ok s'" "vmem s (current s) va \<noteq> None" "vmem s' = (vmem s)(current s := (vmem s (current s))(va \<mapsto> b))" "current s' = current s"
    "procs s' = procs s" "vpages s' = vpages s"
proof -
  note inv = vm_invD [OF conjunct1 [OF ok]]
  let ?u = "pg_round_down va" and ?i = "unat (pg_ofs va)"
  obtain a where a: "translate True va s = Some a" "s' = set_ram (store_bytes (ram (mark True va s)) a [b]) (mark True va s)"
    using run by (auto simp: user_store_def Let_def)
  define s1 where "s1 = mark True va s"
  note m = mark_ok [OF conjunct1 [OF ok] up a(1), where w' = True, folded s1_def]
  note inv1 = vm_invD [OF m(1)]
  obtain p pg where r0: "resides {} s (current s) p ?u pg" and l: "location pg = IN_FRAME" "a = pg_kpage pg + pg_ofs va"
    using translateD [OF conjunct1 [OF ok] up a(1)] by metis
  have r: "resides {} s1 (current s) p ?u pg" using r0 m(3) by simp
  note f = frame_page [OF m(1) r l(1)]
  have i: "?i + length [b] \<le> 4096" using page_byte(2) [of va] by simp
  have a': "a = pg_kpage pg + of_nat ?i" using l(2) by simp
  define r where "r = store_bytes (ram s1) a [b]"
  have ag: "agree (- {page_of (pg_kpage pg)}) (ram s1) r" unfolding r_def a' by (rule store_agree [OF f(1) i]) simp
  have s': "s' = set_ram r s1" using a(2) by (simp add: r_def s1_def)
  have ok': "vm_inv {} s'" unfolding s' by (rule ram_inv [OF m(1) f(2) ag])
  show "vm_ok s'" "current s' = current s" "procs s' = procs s" "vpages s' = vpages s"
    using ok' m(4-6) ok by (simp_all add: s' set_ram_def s1_def mark_def Let_def)
  have res: "resides {} s' = resides {} s1" by (simp add: s' set_ram_def)
  have new: "page_content s' pg = (page_content s1 pg)[?i := b]"
  proof -
    have "page_bytes r (pg_kpage pg) = splice (page_bytes (ram s1) (pg_kpage pg)) ?i [b]"
      unfolding r_def a' by (rule page_bytes_store [OF f(1) i])
    then show ?thesis using l(1) page_byte(2) [of va] by (simp add: page_content_def s' splice_def upd_conv_take_nth_drop)
  qed
  have old: "page_content s' qg = page_content s1 qg" if q: "resides {} s1 x q v qg" "q \<noteq> p" for x q v qg
  proof (cases "location qg = IN_FRAME")
    case True
    then show ?thesis
      using frames_apart(1) [OF m(1) r l(1) q(1) True q(2)] page_bytes_agree [OF ag frame_page(1) [OF m(1) q(1) True]]
      by (simp add: page_content_def s')
  next
    case False
    then show ?thesis by (simp add: page_content_def s' set_ram_def slot_bytes_def)
  qed
  have vm1: "vmem s1 = vmem s" using vmem_cong [OF inv(2) inv1(2)] m(2) by (intro ext) blast
  show "vmem s (current s) va \<noteq> None" using vmem_some [OF inv(2) r0] by simp
  show "vmem s' = (vmem s)(current s := (vmem s (current s))(va \<mapsto> b))"
  proof (intro ext)
    fix t vb
    note v1 = vmem_some [OF inv1(2)] and v2 = vmem_some [OF vm_invD(2) [OF ok'], unfolded res]
    show "vmem s' t vb = ((vmem s)(current s := (vmem s (current s))(va \<mapsto> b))) t vb"
    proof (cases "\<exists>q qg. resides {} s1 t q (pg_round_down vb) qg")
      case False
      have n: "(q, pg_round_down vb) \<notin> own s1 t" for q
        using False ownersD [OF inv1(2), of q "pg_round_down vb" t] unfolding resides_def by (metis empty_iff)
      have "own s' = own s1" by (simp add: s' set_ram_def)
      then have "vmem s1 t vb = None" "vmem s' t vb = None" using vmem_none [OF inv1(2) n] vmem_none [OF vm_invD(2) [OF ok']] n by simp_all
      moreover have "\<not> (t = current s \<and> vb = va)" using False r by blast
      ultimately show ?thesis using vm1 by auto
    next
      case True
      then obtain q qg where q: "resides {} s1 t q (pg_round_down vb) qg" by blast
      show ?thesis
      proof (cases "q = p")
        case True
        then have e: "t = current s" "pg_round_down vb = ?u" "qg = pg" using resides_page [OF inv1(2) r] q by blast+
        have "(page_content s1 pg)[?i := b] ! unat (pg_ofs vb) = (if vb = va then b else page_content s1 pg ! unat (pg_ofs vb))"
        proof (cases "vb = va")
          case True
          then show ?thesis using page_byte(2) [of va] l(1) by (simp add: page_content_def)
        next
          case False
          then have "unat (pg_ofs vb) \<noteq> ?i" using address_unique [OF e(2)] by (metis word_unat_eq_iff)
          then show ?thesis using False by simp
        qed
        then show ?thesis using v1 [OF q] v2 [OF q] new vm1 e by (auto simp: fun_eq_iff)
      next
        case False
        then have "\<not> (t = current s \<and> vb = va)" using resides_unique [OF inv1(2) r] q by blast
        then show ?thesis using v1 [OF q] v2 [OF q] old [OF q False] vm1 by auto
      qed
    qed
  qed
qed


section \<open>Faults\<close>

lemma present_load:
  assumes ok: "vm_ok s" and p: "present s (current s) (pg_round_down va) k w" and va: "is_user_vaddr va"
  shows "\<exists>s' b. user_load va s = Some (s', b) \<and> vmem s (current s) va = Some b" "w \<Longrightarrow> \<exists>s'. user_store va b s = Some s'"
proof -
  note inv = vm_invD [OF conjunct1 [OF ok]]
  obtain p pg where r: "resides {} s (current s) p (pg_round_down va) pg" "location pg = IN_FRAME" "pg_writable pg = w"
    using p unfolding present_def by blast
  have "same_upage va (pg_round_down va)" by (simp add: same_upage_def word_unat_eq_iff unat_pg_no unat_pg_round_down)
  then have m: "maps_to (entry (mach s) (pdir s (current s)) va) pg" using mappedD(1) [OF inv(4) r(1,2)] entry_same by simp
  then have "translate False va s \<noteq> None" using va residesD(6) [OF inv(2) r(1)] by (simp add: translate_def maps_to_def Let_def)
  then obtain s' c where l: "user_load va s = Some (s', c)" by (auto simp: user_load_def)
  have up: "user_process s" using own_udir [OF residesD(1) [OF inv(2) r(1)]] residesD(6) [OF inv(2) r(1)] by (simp add: user_process_udir)
  then show "\<exists>s' b. user_load va s = Some (s', b) \<and> vmem s (current s) va = Some b" using load_ok(2) [OF ok _ l] l by blast
  assume w
  then have "translate True va s \<noteq> None" using m r(3) va residesD(6) [OF inv(2) r(1)] by (simp add: translate_def maps_to_def Let_def)
  then show "\<exists>s'. user_store va b s = Some s'" by (auto simp: user_store_def)
qed

text \<open>What a fault may need: a frame that is free or can be evicted, a page for a page table, and memory.\<close>

definition resources :: "vm \<Rightarrow> bool" where
  "resources s \<longleftrightarrow> room s \<and> spare s \<and> memory (vfs s)"

text \<open>Whether the handler takes the access for one to the process's memory or its stack.\<close>

definition expected :: "vm \<Rightarrow> u32 \<Rightarrow> u32 \<Rightarrow> u32 \<Rightarrow> bool" where
  "expected s error_code fa f_esp \<longleftrightarrow> vmem s (current s) fa \<noteq> None \<or>
     (\<exists>pr. procs s (current s) = Some pr \<and> stack_pointer f_esp (error_code AND PF_U \<noteq> 0) pr - 32 \<le> fa)"

definition grown :: "nat \<Rightarrow> u32 \<Rightarrow> (nat \<Rightarrow> u32 \<Rightarrow> u8 option) \<Rightarrow> (nat \<Rightarrow> u32 \<Rightarrow> u8 option) \<Rightarrow> bool" where
  "grown t fa m m' \<longleftrightarrow> (\<forall>x va. m' x va = m x va \<or> x = t \<and> pg_round_down va = pg_round_down fa \<and> m x va = None)"

lemma resume_mem:
  assumes ok: "vm_ok s" and w: "waits s (current s) fa n" and r: "free_frame s k" "spare s" "memory (vfs s)"
  shows "\<exists>s' s'' b. resume n k s = Some (s', Inr ()) \<and> vm_ok s' \<and> current s' = current s \<and> others_kept s s' \<and>
    present s' (current s) (pg_round_down fa) k (n = Grow fa \<or> writable_at s (current s) fa) \<and>
    grown (current s) fa (vmem s) (vmem s') \<and> (n \<noteq> Grow fa \<longrightarrow> vmem s' = vmem s) \<and> user_load fa s' = Some (s'', b) \<and>
    (n = Grow fa \<or> writable_at s (current s) fa \<longrightarrow> (\<forall>c. user_store fa c s' \<noteq> None))"
proof -
  note inv = vm_invD [OF conjunct1 [OF ok]]
  let ?u = "pg_round_down fa"
  obtain s' where s': "resume n k s = Some (s', Inr ())" "vm_ok s'" "current s' = current s" "others_kept s s'"
      "\<forall>t v bs. holds {} s' t v bs \<longleftrightarrow>
         (if t = current s \<and> v = ?u \<and> n = Grow fa then bs = page_bytes (ram s) k else holds {} s t v bs)"
      "present s' (current s') ?u k (n = Grow fa \<or> writable_at s (current s) fa)"
    using resume_ok [OF ok w r] by auto
  note cong = vmem_cong [OF inv(2) vm_invD(2) [OF conjunct1 [OF s'(2)]]]
  have fa: "is_user_vaddr fa" using w by (simp add: waits_def)
  have "vmem s' t va = vmem s t va \<or> t = current s \<and> pg_round_down va = ?u \<and> vmem s t va = None" for t va
  proof (cases "t = current s \<and> pg_round_down va = ?u \<and> n = Grow fa")
    case True
    then have "(p, pg_round_down va) \<notin> own s t" for p using w by (simp add: waits_def)
    then show ?thesis using vmem_none [OF inv(2), of va t] True by simp
  next
    case False
    then show ?thesis using cong [of t va] s'(5) by auto
  qed
  moreover have "vmem s' = vmem s" if "n \<noteq> Grow fa" using cong s'(5) that by (intro ext) simp
  moreover obtain s'' b where "user_load fa s' = Some (s'', b)" using present_load(1) [OF s'(2,6) fa] by blast
  moreover have "user_store fa c s' \<noteq> None" if "n = Grow fa \<or> writable_at s (current s) fa" for c
    using present_load(2) [OF s'(2,6) fa that] by blast
  ultimately show ?thesis using s'(1-4,6) by (auto simp: grown_def)
qed

lemma find_mem:
  assumes ok: "vm_ok s" and rm: "room s"
  obtains s' k where "frame_find_empty s = Some (s', k)" "vm_ok s'" "quiet s s'" "free_frame s' k" "vmem s' = vmem s"
proof -
  obtain s' k where s': "frame_find_empty s = Some (s', k)" "vm_ok s'" "quiet s s'" "free_frame s' k"
    using frame_find_empty_ok [OF ok] rm unfolding room_def by blast
  have "vmem s' = vmem s"
    using vmem_cong [OF vm_invD(2) [OF conjunct1 [OF ok]] vm_invD(2) [OF conjunct1 [OF s'(2)]]] quietD(8) [OF s'(3)] by (intro ext) blast
  then show ?thesis using that s' by blast
qed

lemma fault_start:
  assumes "is_user_vaddr fa" "4096 \<le> unat fa" "error_code AND PF_P = 0"
  shows "page_fault error_code fa f_esp s = page_fault_identifier fa f_esp (error_code AND PF_U \<noteq> 0) s"
  using assms by (auto simp: page_fault_def Let_def is_kernel_vaddr_def is_user_vaddr_def)

lemma fault_resolved:
  assumes ok: "vm_ok s" and up: "user_process s" and rs: "resources s" and fa: "is_user_vaddr fa" "4096 \<le> unat fa"
    and code: "error_code AND PF_P = 0" and ex: "expected s error_code fa f_esp"
  shows "\<exists>s' s'' b. page_fault error_code fa f_esp s = Some (s', Inr ()) \<and> vm_ok s' \<and> current s' = current s \<and>
    grown (current s) fa (vmem s) (vmem s') \<and> user_load fa s' = Some (s'', b) \<and> (vmem s (current s) fa \<noteq> None \<longrightarrow> vmem s' = vmem s) \<and>
    (writable_at s (current s) fa \<or> vmem s (current s) fa = None \<longrightarrow> (\<forall>c. user_store fa c s' \<noteq> None))"
proof -
  note inv = vm_invD [OF conjunct1 [OF ok]] and start = fault_start [OF fa code]
  let ?u = "pg_round_down fa" and ?user = "error_code AND PF_U \<noteq> 0"
  have ud: "udir s (current s) \<noteq> 0" using up by (simp add: user_process_udir)
  have r: "room s" "spare s" "memory (vfs s)" using rs by (simp_all add: resources_def)
  have none: "vmem s (current s) fa = None \<longleftrightarrow> (\<forall>p. (p, ?u) \<notin> own s (current s))"
    using vmem_none [OF inv(2)] vmem_some [OF inv(2)] ownersD [OF inv(2)] unfolding resides_def by (metis empty_iff option.distinct(1))
  show ?thesis
  proof (cases "\<exists>p pg. resides {} s (current s) p ?u pg \<and> location pg = IN_FRAME")
    case True
    then obtain p pg where p: "resides {} s (current s) p ?u pg" "location pg = IN_FRAME" by blast
    have "writable_at s (current s) fa = pg_writable pg" using p(1) resides_unique [OF inv(2) p(1)] unfolding writable_at_def by blast
    then have pr: "present s (current s) ?u (pg_kpage pg) (writable_at s (current s) fa)" using p unfolding present_def by blast
    obtain s'' b where l: "user_load fa s = Some (s'', b)" using present_load(1) [OF ok pr fa(1)] by blast
    have "\<forall>c. user_store fa c s \<noteq> None" if "writable_at s (current s) fa" using present_load(2) [OF ok pr fa(1) that] by blast
    then show ?thesis using start need_known(1) [OF ok ud p] l ok vmem_some [OF inv(2) p(1)] by (simp add: grown_def)
  next
    case False
    have "\<exists>n. fault_need fa f_esp ?user s = Some n \<and> (n = Grow fa \<longleftrightarrow> vmem s (current s) fa = None)"
    proof (cases "vmem s (current s) fa = None")
      case True
      obtain pr h where "procs s (current s) = Some pr" "spt pr = Some h" using udirD [OF ud] by blast
      then show ?thesis using need_unknown [OF ok] ex True none by (auto simp: expected_def)
    next
      case known: False
      then obtain p pg where p: "resides {} s (current s) p ?u pg" using none ownersD [OF inv(2)] unfolding resides_def by (metis empty_iff)
      then have "location pg \<noteq> IN_FRAME" using False by blast
      then show ?thesis using need_known(2) [OF ok ud p, of f_esp ?user] known by auto
    qed
    then obtain n where n: "fault_need fa f_esp ?user s = Some n" "n = Grow fa \<longleftrightarrow> vmem s (current s) fa = None" by (elim exE conjE)
    obtain s1 k where s1: "frame_find_empty s = Some (s1, k)" "vm_ok s1" "quiet s s1" "free_frame s1 k" "vmem s1 = vmem s"
      using find_mem [OF ok r(1)] by blast
    note q = quietD [OF s1(3)]
    have wa: "waits s (current s) fa n" by (rule need_waits [OF ok ud fa n(1)])
    then have w: "waits s1 (current s1) fa n" using waits_quiet [OF _ s1(3)] q(2) by simp
    have "writable_at s1 (current s1) fa" if wr: "writable_at s (current s) fa"
    proof -
      obtain p pg where p: "resides {} s (current s) p ?u pg" "pg_writable pg" using wr unfolding writable_at_def by blast
      then have "location pg \<noteq> IN_FRAME" using False by blast
      then have "resides {} s1 (current s1) p ?u pg" using p(1) q(2,3,7) unfolding resides_def by simp
      then show ?thesis using p(2) unfolding writable_at_def by blast
    qed
    moreover obtain s' s'' b where s': "resume n k s1 = Some (s', Inr ())" "vm_ok s'" "current s' = current s1"
        "grown (current s1) fa (vmem s1) (vmem s')" "n \<noteq> Grow fa \<longrightarrow> vmem s' = vmem s1" "user_load fa s' = Some (s'', b)"
        "n = Grow fa \<or> writable_at s1 (current s1) fa \<longrightarrow> (\<forall>c. user_store fa c s' \<noteq> None)"
      using resume_mem [OF s1(2) w s1(4)] r(2,3) q(5,6) by blast
    moreover have "page_fault error_code fa f_esp s = Some (s', Inr ())" using start fault_split [OF n(1)] ok s1(1) s'(1) by simp
    ultimately show ?thesis using q(2) s1(5) n(2) by auto
  qed
qed

lemma fault_refused:
  assumes ok: "vm_ok s" and up: "user_process s" and ex: "\<not> expected s error_code fa f_esp \<or> error_code AND PF_P \<noteq> 0 \<or> fa = 0 \<or> is_kernel_vaddr fa"
  shows "page_fault error_code fa f_esp s = Some (s, Inl (- 1))"
proof -
  note inv = vm_invD [OF conjunct1 [OF ok]]
  let ?u = "pg_round_down fa" and ?user = "error_code AND PF_U \<noteq> 0"
  obtain pr h where pr: "procs s (current s) = Some pr" "spt pr = Some h" "pagedir pr \<noteq> 0" using up by (auto simp: user_process_def)
  show ?thesis
  proof (cases "error_code AND PF_P \<noteq> 0 \<or> fa = 0 \<or> is_kernel_vaddr fa")
    case True
    then show ?thesis by (auto simp: page_fault_def Let_def)
  next
    case False
    then have e: "vmem s (current s) fa = None" "fa < stack_pointer f_esp ?user pr - 32" using ex pr(1) by (auto simp: expected_def not_le)
    have "(p, ?u) \<notin> own s (current s)" for p
    proof
      assume "(p, ?u) \<in> own s (current s)"
      then obtain pg where "resides {} s (current s) p ?u pg" using ownersD [OF inv(2)] unfolding resides_def by (metis empty_iff)
      then show False using vmem_some [OF inv(2)] e(1) by simp
    qed
    then show ?thesis using wild_fault [OF ok pr(1,2) _ e(2)] False by (simp add: page_fault_def Let_def)
  qed
qed

end
