(* ===== verification/Vm_Exit.thy ===== *)
theory Vm_Exit
  imports Vm_Mem
begin

text \<open>
  The end of a process. \<open>thread_exit\<close> calls \<open>page_clear_all\<close>, may then sleep until the parent has
  taken the exit status, and calls \<open>process_exit\<close> when it runs again. The two are treated apart: each
  keeps the invariant, so that other processes may run in between.
\<close>

section \<open>Clearing the pages of a process\<close>

primrec clear_pages :: "page_ref list \<Rightarrow> vm \<Rightarrow> vm option" where
  "clear_pages [] s = Some s"
| "clear_pages (e # es) s = do {
     pg \<leftarrow> vpages s (fst e);
     s \<leftarrow> (if location pg = IN_FRAME then do {
            s \<leftarrow> frame_free (pg_kpage pg) s;
            Some (set_page (fst e) (pg\<lparr>pg_kpage := 0, location := 0\<rparr>) s) }
          else Some s);
     clear_pages es s }"

lemma page_clear_loop_eq:
  assumes "\<And>b. b \<in> set (buckets h) \<Longrightarrow> distinct b"
  shows "valid_iter h i \<Longrightarrow> page_clear_loop h i s = clear_pages (to_visit h i) s"
proof (induction "length (to_visit h i)" arbitrary: i s)
  case 0
  then show ?case
    using hash_next_visits [OF 0(2) assms] by (auto simp: page_clear_loop.simps [of h i])
next
  case (Suc n)
  then obtain x r where r: "to_visit h i = x # r" by (cases "to_visit h i") auto
  then obtain i' where i': "hash_next h i = Some i'" "hash_cur i' = Some x" "valid_iter h i'" "to_visit h i' = r"
    using hash_next_visits [OF Suc.prems assms] by auto
  then have "page_clear_loop h i' = clear_pages r" using Suc.hyps(1) [of i'] Suc.hyps(2) r by (auto simp: fun_eq_iff)
  then show ?case using i' r by (simp add: page_clear_loop.simps [of h i])
qed

definition forget :: "vpage \<Rightarrow> vpage" where
  "forget pg = (if location pg = IN_FRAME then pg\<lparr>pg_kpage := 0, location := 0\<rparr> else pg)"

text \<open>The state when the pages in \<open>P\<close> are cleared.\<close>

definition clr :: "nat set \<Rightarrow> vm \<Rightarrow> vm" where
  "clr P s = s\<lparr>vpages := (\<lambda>p. if p \<in> P then map_option forget (vpages s p) else vpages s p),
     frame_table := map (\<lambda>f. if fr_page f \<in> Some ` P then clear_frame f else f) (frame_table s),
     occupancy := int (length (filter (\<lambda>f. fr_upage f \<noteq> 0 \<and> fr_page f \<notin> Some ` P) (frame_table s)))\<rparr>"

lemma clr_simps [simp]:
  "mach (clr P s) = mach s" "vfs (clr P s) = vfs s" "swap_block (clr P s) = swap_block s" "free_bitmap (clr P s) = free_bitmap s"
  "clock_pointer (clr P s) = clock_pointer s" "frame_lock (clr P s) = frame_lock s" "procs (clr P s) = procs s" "current (clr P s) = current s"
  by (simp_all add: clr_def)

lemma clr_empty: "frames_ok X s \<Longrightarrow> clr {} s = s"
  by (simp add: clr_def frames_ok_def)

lemma frame_of_page:
  assumes ok: "vm_inv X s" and r: "resides X s t p u pg" "location pg = IN_FRAME" and f: "f \<in> set (frame_table s)"
  shows "fr_kpage f = pg_kpage pg \<longleftrightarrow> fr_page f = Some p"
proof -
  note inv = vm_invD [OF ok]
  have len: "length (frame_table s) = TOTAL_PAGES" "distinct (map fr_kpage (frame_table s))" using inv(3) by (simp_all add: frames_ok_def)
  obtain i where i: "i < TOTAL_PAGES" "fr_page (frame_table s ! i) = Some p" "fr_kpage (frame_table s ! i) = pg_kpage pg"
    using in_frame [OF ok r] by metis
  obtain j where j: "j < TOTAL_PAGES" "frame_table s ! j = f" using f len(1) by (metis in_set_conv_nth)
  have "fr_kpage f = pg_kpage pg \<longleftrightarrow> j = i" using nth_eq_iff_index_eq [OF len(2), of j i] i(1,3) j len(1) by simp
  moreover have "fr_page f = Some p \<longleftrightarrow> j = i" using frame_index [OF inv(3,2) j(1) i(1)] i(2) j(2) by auto
  ultimately show ?thesis by simp
qed

lemma clear_step:
  assumes ok: "vm_ok s" and e: "resides {} s t p u pg" and P: "p \<notin> P"
  shows "(if location pg = IN_FRAME then do {
      s \<leftarrow> frame_free (pg_kpage pg) (clr P s);
      Some (set_page p (pg\<lparr>pg_kpage := 0, location := 0\<rparr>) s) } else Some (clr P s)) = Some (clr (insert p P) s)"
proof -
  note inv = vm_invD [OF conjunct1 [OF ok]]
  have len: "length (frame_table s) = TOTAL_PAGES" "distinct (map fr_kpage (frame_table s))" using inv(3) by (simp_all add: frames_ok_def)
  have vp: "vpages s p = Some pg" using e by (simp add: resides_def)
  show ?thesis
  proof (cases "location pg = IN_FRAME")
    case True
    let ?k = "pg_kpage pg"
    note fp = frame_of_page [OF conjunct1 [OF ok] e True]
    have ft: "map (\<lambda>f. if fr_kpage f = ?k then clear_frame f else f) (frame_table (clr P s)) = frame_table (clr (insert p P) s)"
      using fp by (auto simp: clr_def clear_frame_def)
    obtain i where i: "i < TOTAL_PAGES" "fr_page (frame_table s ! i) = Some p" "fr_kpage (frame_table s ! i) = ?k" "fr_upage (frame_table s ! i) = u"
      using in_frame [OF conjunct1 [OF ok] e True] by metis
    have kp: "map fr_kpage (frame_table (clr P s)) = map fr_kpage (frame_table s)" "fr_kpage (frame_table (clr P s) ! i) = ?k"
        "length (frame_table (clr P s)) = TOTAL_PAGES"
      using i(1,3) len(1) by (auto simp: clr_def clear_frame_def)
    have one: "length (filter (\<lambda>f. fr_kpage f = ?k) (frame_table (clr P s))) = 1"
      using filter_kpage [of "frame_table (clr P s)" i] len(2) i(1) unfolding kp by simp
    have "length (filter (\<lambda>f. fr_upage f \<noteq> 0 \<and> fr_page f \<notin> Some ` P) (frame_table s)) =
        Suc (length (filter (\<lambda>f. fr_upage f \<noteq> 0 \<and> fr_page f \<notin> Some ` insert p P) (frame_table s)))"
    proof -
      let ?Q = "\<lambda>f. fr_upage f \<noteq> 0 \<and> fr_page f \<notin> Some ` P"
      have "filter (\<lambda>f. fr_upage f \<noteq> 0 \<and> fr_page f \<notin> Some ` insert p P) (frame_table s) = filter (\<lambda>f. fr_kpage f \<noteq> ?k) (filter ?Q (frame_table s))"
        using fp by (auto simp: filter_filter intro!: filter_cong)
      moreover have "filter (\<lambda>f. fr_kpage f = ?k) (filter ?Q (frame_table s)) = filter (\<lambda>f. fr_kpage f = ?k) (frame_table s)"
      proof -
        have "?Q f" if a: "f \<in> set (frame_table s)" "fr_kpage f = ?k" for f
        proof -
          obtain j where j: "j < TOTAL_PAGES" "frame_table s ! j = f" using a(1) len(1) by (metis in_set_conv_nth)
          have pg: "fr_page f = Some p" using fp [OF a(1)] a(2) by simp
          then have "j = i" using frame_index [OF inv(3,2) j(1) i(1)] i(2) j(2) by simp
          then show ?thesis using j(2) i(4) pg P residesD(7) [OF inv(2) e] by (auto simp: upage_ok_def)
        qed
        then show ?thesis by (auto simp: filter_filter intro!: filter_cong)
      qed
      moreover have "length (filter (\<lambda>f. fr_kpage f = ?k) (frame_table s)) = 1" using filter_kpage [OF len(2), of i] i(1,3) len(1) by simp
      ultimately show ?thesis using sum_length_filter_compl [of "\<lambda>f. fr_kpage f = ?k" "filter ?Q (frame_table s)"] by simp
    qed
    then have occ: "occupancy (clr P s) - 1 = occupancy (clr (insert p P) s)" by (simp add: clr_def)
    have len': "length (frame_table (clr P s)) = TOTAL_PAGES" using len(1) by (simp add: clr_def)
    have "frame_free ?k (clr P s) = Some ((clr P s)\<lparr>frame_table := frame_table (clr (insert p P) s), occupancy := occupancy (clr (insert p P) s)\<rparr>)"
      using ok len' one by (simp add: frame_free_def frame_lock_acquire_def frame_lock_release_def frame_free_loop_eq ft occ)
    then show ?thesis using True vp P by (simp add: set_page_def) (simp add: clr_def forget_def fun_eq_iff)
  next
    case False
    have no: "fr_page f \<noteq> Some p" if "f \<in> set (frame_table s)" for f
    proof
      assume a: "fr_page f = Some p"
      then have "busy {} s f" using inv(3) that by (auto simp: frames_ok_def idle_def)
      then show False using a False resides_page [OF inv(2) e] by (elim busyD) auto
    qed
    have "map (\<lambda>f. if fr_page f \<in> Some ` insert p P then clear_frame f else f) (frame_table s) =
        map (\<lambda>f. if fr_page f \<in> Some ` P then clear_frame f else f) (frame_table s)"
      "filter (\<lambda>f. fr_upage f \<noteq> 0 \<and> fr_page f \<notin> Some ` insert p P) (frame_table s) = filter (\<lambda>f. fr_upage f \<noteq> 0 \<and> fr_page f \<notin> Some ` P) (frame_table s)"
      using no by (auto intro!: filter_cong)
    moreover have "(\<lambda>q. if q \<in> insert p P then map_option forget (vpages s q) else vpages s q) =
        (\<lambda>q. if q \<in> P then map_option forget (vpages s q) else vpages s q)"
      using vp False by (auto simp: fun_eq_iff forget_def)
    ultimately show ?thesis using False by (simp add: clr_def del: image_insert)
  qed
qed

lemma clear_pages_ok:
  "vm_ok s \<Longrightarrow> distinct es \<Longrightarrow> set es \<subseteq> own s t \<Longrightarrow> P \<inter> fst ` set es = {} \<Longrightarrow>
   clear_pages es (clr P s) = Some (clr (fst ` set es \<union> P) s)"
proof (induction es arbitrary: P)
  case (Cons e es)
  note inv = vm_invD [OF conjunct1 [OF Cons.prems(1)]]
  obtain p u where e: "e = (p, u)" by fastforce
  then have o: "(p, u) \<in> own s t" using Cons.prems(3) by simp
  obtain pg where pg: "vpages s p = Some pg" using ownersD [OF inv(2) o] by metis
  then have r: "resides {} s t p u pg" using o by (simp add: resides_def)
  have p: "p \<notin> P" using Cons.prems(4) e by auto
  have "p \<notin> fst ` set es"
  proof
    assume "p \<in> fst ` set es"
    then obtain w where w: "(p, w) \<in> set es" by auto
    then have "w = u" using own_owner [OF inv(2) o, of w t] Cons.prems(3) by auto
    then show False using w Cons.prems(2) e by simp
  qed
  then have "insert p P \<inter> fst ` set es = {}" using Cons.prems(4) by auto
  then have "clear_pages es (clr (insert p P) s) = Some (clr (fst ` set es \<union> insert p P) s)" using Cons.IH Cons.prems(1-3) by simp
  moreover have "vpages (clr P s) p = Some pg" using pg p by (simp add: clr_def)
  ultimately show ?case using clear_step [OF Cons.prems(1) r p] e
    by (cases "location pg = IN_FRAME") (auto simp: bind_eq_Some_iff)
qed simp

lemma page_clear_all_ok:
  assumes ok: "vm_ok s" and pr: "procs s (current s) = Some pr" "spt pr = Some h"
  shows "page_clear_all s = Some ((clr (fst ` own s (current s)) s)\<lparr>procs := (procs s)(current s \<mapsto> pr\<lparr>spt := None\<rparr>)\<rparr>)"
proof -
  note inv = vm_invD [OF conjunct1 [OF ok]]
  have wf: "wf_hash page_hash page_less h" using inv(2) pr by (auto simp: owners_def)
  then have d: "distinct (concat (buckets h))" by (simp add: wf_hash_def)
  obtain k where k: "bucket_cnt h = 2 ^ k" "k < 32" "length (buckets h) = unat (bucket_cnt h)"
    using wf by (auto simp: wf_hash_def wf_buckets_def)
  then have "buckets h \<noteq> []" using unat_2_power [of k] by auto
  then obtain b bs where "buckets h = b # bs" by (cases "buckets h") auto
  then have first: "valid_iter h hash_first" "to_visit h hash_first = concat (buckets h)"
    by (simp_all add: valid_iter_def to_visit_def hash_first_def)
  have "page_clear_loop h hash_first s = clear_pages (concat (buckets h)) (clr {} s)"
    using page_clear_loop_eq [OF _ first(1)] d clr_empty [OF inv(3)] by (auto simp: first(2) distinct_concat_iff)
  also have "\<dots> = Some (clr (fst ` set (concat (buckets h)) \<union> {}) s)"
    by (rule clear_pages_ok [OF ok d, of "current s"]) (use own_elems [OF pr] in \<open>auto simp: elems_def\<close>)
  finally show ?thesis using pr own_elems [OF pr] by (simp add: page_clear_all_def current_spt_def set_spt_def elems_def)
qed


section \<open>After the pages are cleared\<close>

text \<open>The state after \<open>page_clear_all\<close>, where \<open>pr\<close> is what is left of the process.\<close>

definition cleared :: "vm \<Rightarrow> process \<Rightarrow> vm" where
  "cleared s pr = (clr (fst ` own s (current s)) s)\<lparr>procs := (procs s)(current s \<mapsto> pr)\<rparr>"

lemma cleared_simps [simp]:
  "mach (cleared s pr) = mach s" "vfs (cleared s pr) = vfs s" "swap_block (cleared s pr) = swap_block s" "free_bitmap (cleared s pr) = free_bitmap s"
  "clock_pointer (cleared s pr) = clock_pointer s" "frame_lock (cleared s pr) = frame_lock s" "procs (cleared s pr) = (procs s)(current s \<mapsto> pr)"
  "current (cleared s pr) = current s"
  by (simp_all add: cleared_def)

lemma cleared_procs:
  assumes "spt pr = None" "pagedir pr = pdir s (current s)"
  shows "pdir (cleared s pr) = pdir s" "own (cleared s pr) t = (if t = current s then {} else own s t)"
    "udir (cleared s pr) t = (if t = current s then 0 else udir s t)"
  using assms by (auto simp: pdir_def own_def udir_def fun_eq_iff)

lemma cleared_pages:
  assumes ok: "vm_ok s" and pr: "spt pr = None" "pagedir pr = pdir s (current s)"
  shows "\<And>q w t. (q, w) \<in> own s t \<Longrightarrow> t \<noteq> current s \<Longrightarrow> q \<notin> fst ` own s (current s) \<and> vpages (cleared s pr) q = vpages s q"
    "resides {} (cleared s pr) t q w qg \<longleftrightarrow> t \<noteq> current s \<and> resides {} s t q w qg"
    "others_kept s (cleared s pr)"
proof -
  note inv = vm_invD [OF conjunct1 [OF ok]]
  let ?t = "current s" and ?P = "fst ` own s (current s)"
  show vp: "q \<notin> ?P \<and> vpages (cleared s pr) q = vpages s q" if a: "(q, w) \<in> own s t" "t \<noteq> ?t" for q w t
  proof -
    have "q \<notin> ?P"
    proof
      assume "q \<in> ?P"
      then obtain w' where "(q, w') \<in> own s ?t" by auto
      then show False using own_owner [OF inv(2) a(1)] a(2) by blast
    qed
    then show ?thesis by (simp add: cleared_def clr_def)
  qed
  show "resides {} (cleared s pr) t q w qg \<longleftrightarrow> t \<noteq> ?t \<and> resides {} s t q w qg"
    using vp by (auto simp: resides_def cleared_procs(2) [OF pr])
  show "others_kept s (cleared s pr)" using vp by (simp add: others_kept_def)
qed

lemma cleared_frames:
  assumes ok: "vm_ok s" and pr: "spt pr = None" "pagedir pr = pdir s (current s)"
  shows "frames_ok {} (cleared s pr)"
proof -
  note inv = vm_invD [OF conjunct1 [OF ok]]
  let ?s = "cleared s pr" and ?t = "current s" and ?P = "fst ` own s (current s)"
  note res = cleared_pages(2) [OF ok pr] and pd = cleared_procs(1) [OF pr]
  have ft: "frame_table ?s = map (\<lambda>f. if fr_page f \<in> Some ` ?P then clear_frame f else f) (frame_table s)" by (simp add: cleared_def clr_def)
  have "frame_ok (mach s) g \<and> (idle g \<or> busy {} ?s g)" if a: "g \<in> set (frame_table ?s)" for g
  proof -
    obtain f where f: "f \<in> set (frame_table s)" "g = (if fr_page f \<in> Some ` ?P then clear_frame f else f)"
      using a unfolding ft set_map by blast
    have ff: "frame_ok (mach s) f" "idle f \<or> busy {} s f" using inv(3) f(1) by (auto simp: frames_ok_def)
    have "frame_ok (mach s) g" using ff(1) f(2) by (simp add: frame_ok_def clear_frame_def)
    moreover have "idle g \<or> busy {} ?s g"
    proof (cases "fr_page f \<in> Some ` ?P")
      case True
      then show ?thesis using f(2) by (simp add: idle_def clear_frame_def)
    next
      case False
      have "busy {} ?s f" if nid: "\<not> idle f"
      proof -
        obtain t q qg where b: "fr_page f = Some q" "fr_pagedir f = pdir s t" "resides {} s t q (fr_upage f) qg"
            "location qg = IN_FRAME" "pg_kpage qg = fr_kpage f"
          using ff(2) nid busyD by blast
        have "t \<noteq> ?t" using residesD(1) [OF inv(2) b(3)] False b(1) by force
        then show ?thesis unfolding busy_def res pd using b by (intro exI [of _ t] exI [of _ q] exI [of _ qg]) simp
      qed
      then show ?thesis using f(2) False by auto
    qed
    ultimately show ?thesis by blast
  qed
  moreover have "map fr_kpage (frame_table ?s) = map fr_kpage (frame_table s)" by (simp add: ft clear_frame_def)
  moreover have "occupancy ?s = int (length (filter (\<lambda>f. fr_upage f \<noteq> 0) (frame_table ?s)))"
  proof -
    have "filter (\<lambda>f. fr_upage (if fr_page f \<in> Some ` ?P then clear_frame f else f) \<noteq> 0) (frame_table s) =
        filter (\<lambda>f. fr_upage f \<noteq> 0 \<and> fr_page f \<notin> Some ` ?P) (frame_table s)"
      by (rule filter_cong) (auto simp: clear_frame_def)
    then show ?thesis by (simp add: cleared_def clr_def filter_map comp_def)
  qed
  moreover have "length (frame_table ?s) = length (frame_table s)" by (simp add: ft)
  ultimately show ?thesis using inv(3) unfolding frames_ok_def by (metis cleared_simps(1,5))
qed

lemma cleared_mapped:
  assumes ok: "vm_ok s" and pr: "spt pr = None" "pagedir pr = pdir s (current s)"
  shows "mapped {} (cleared s pr)"
  unfolding mapped_def cleared_pages(2) [OF ok pr] cleared_procs(1) [OF pr] cleared_simps(1)
proof (intro conjI allI impI)
  note inv = vm_invD [OF conjunct1 [OF ok]]
  let ?s = "cleared s pr" and ?t = "current s" and ?P = "fst ` own s (current s)"
  fix t q u qg assume a: "t \<noteq> ?t \<and> resides {} s t q u qg" and l: "location qg = IN_FRAME"
  then have q: "t \<noteq> ?t" "resides {} s t q u qg" by simp_all
  show "maps_to (entry (mach s) (pdir s t) u) qg" by (rule mappedD(1) [OF inv(4) q(2) l])
  obtain f where f: "f \<in> set (frame_table s)" "fr_page f = Some q" using mappedD(2) [OF inv(4) q(2) l] by blast
  have "q \<notin> ?P" using cleared_pages(1) [OF ok pr residesD(1) [OF inv(2) q(2)] q(1)] by simp
  then have "f \<in> set (frame_table ?s)" using f by (force simp: cleared_def clr_def)
  then show "\<exists>f \<in> set (frame_table ?s). fr_page f = Some q" using f(2) by blast
next
  note inv = vm_invD [OF conjunct1 [OF ok]]
  fix t va assume a: "is_user_vaddr va" "udir (cleared s pr) t \<noteq> 0" "entry (mach s) (pdir s t) va AND PTE_P \<noteq> 0"
  then have "t \<noteq> current s" "udir s t \<noteq> 0" by (auto simp: cleared_procs(3) [OF pr] split: if_splits)
  then show "\<exists>p u pg. (t \<noteq> current s \<and> resides {} s t p u pg) \<and> same_upage va u \<and> location pg = IN_FRAME"
    using mappedD(3) [OF inv(4) a(1) _ a(3)] by simp
qed

lemma cleared_owners:
  assumes ok: "vm_ok s" and pr: "spt pr = None" "pagedir pr = pdir s (current s)"
  shows "owners (cleared s pr)"
  unfolding owners_def cleared_procs(1) [OF pr]
proof (intro conjI allI impI)
  note inv = vm_invD [OF conjunct1 [OF ok]]
  let ?s = "cleared s pr"
  fix t q w assume "(q, w) \<in> own ?s t"
  then have a: "t \<noteq> current s" "(q, w) \<in> own s t" by (auto simp: cleared_procs(2) [OF pr] split: if_splits)
  show "pdir s t \<noteq> 0" "upage_ok w" using ownersD [OF inv(2) a(2)] by metis+
  show "\<exists>pg. vpages ?s q = Some pg \<and> pg_upage pg = w \<and> pg_pagedir pg = pdir s t \<and> location pg \<in> {IN_FRAME, IN_SWAP, IN_FILESYS}"
    using ownersD [OF inv(2) a(2)] cleared_pages(1) [OF ok pr a(2,1)] by metis
next
  note inv = vm_invD [OF conjunct1 [OF ok]]
  let ?s = "cleared s pr"
  show "t = t'" if "(q, w) \<in> own ?s t" "(q, w') \<in> own ?s t'" for t t' q w w'
  proof -
    have "(q, w) \<in> own s t" "(q, w') \<in> own s t'" using that by (auto simp: cleared_procs(2) [OF pr] split: if_splits)
    then show ?thesis using own_owner [OF inv(2)] by blast
  qed
  show "wf_hash page_hash page_less g" if "procs ?s t = Some r" "spt r = Some g" for t r g
    using that pr inv(2) by (auto simp: owners_def split: if_splits)
  show "q < next_addr (vfs ?s)" if "vpages ?s q = Some qg" for q qg
  proof -
    have "\<exists>g. vpages s q = Some g" using that by (auto simp: cleared_def clr_def split: if_splits)
    then show ?thesis using inv(2) unfolding owners_def cleared_simps(2) by blast
  qed
qed

lemma cleared_ok:
  assumes ok: "vm_ok s" and pr: "spt pr = None" "pagedir pr = pdir s (current s)"
  shows "vm_ok (cleared s pr)" "vmem (cleared s pr) = (vmem s)(current s := (\<lambda>_. None))"
    "f \<in> set (frame_table (cleared s pr)) \<Longrightarrow> pdir s (current s) \<noteq> 0 \<Longrightarrow> fr_pagedir f \<noteq> pdir s (current s)"
proof -
  note inv = vm_invD [OF conjunct1 [OF ok]] and pages = cleared_pages [OF ok pr]
  let ?s = "cleared s pr" and ?t = "current s"
  have sw: "swap_ok ?s = swap_ok s" "slots_used ?s = slots_used s" "slot_bytes ?s = slot_bytes s"
    by (simp_all add: swap_ok_def slots_used_def slot_bytes_def fun_eq_iff)
  have "spaces ?s" using inv(1) by (simp add: spaces_def cleared_procs(1) [OF pr])
  moreover have "swapped {} ?s" using inv(5) unfolding swapped_def pages(2) sw by blast
  moreover have "filed {} ?s" using inv(6) unfolding filed_def pages(2) cleared_simps(2,3) by blast
  ultimately show ok': "vm_ok ?s"
    using ok cleared_owners [OF ok pr] cleared_frames [OF ok pr] cleared_mapped [OF ok pr] by (simp add: vm_inv_def)
  note ow' = vm_invD(2) [OF conjunct1 [OF ok']]
  have "vmem ?s ?t va = None" for va using vmem_none [OF ow'] cleared_procs(2) [OF pr] by simp
  moreover have "vmem ?s t va = vmem s t va" if "t \<noteq> ?t" for t va
  proof -
    have "page_content ?s = page_content s" by (simp add: page_content_def sw fun_eq_iff)
    then have "holds {} ?s t u bs \<longleftrightarrow> holds {} s t u bs" for u bs unfolding holds_def pages(2) using that by simp
    then show ?thesis using vmem_cong [OF inv(2) ow'] by blast
  qed
  ultimately show "vmem ?s = (vmem s)(?t := (\<lambda>_. None))" by (auto simp: fun_eq_iff)
  assume f: "f \<in> set (frame_table ?s)" and pd: "pdir s ?t \<noteq> 0"
  have "idle f \<or> busy {} ?s f" using vm_invD(3) [OF conjunct1 [OF ok']] f by (auto simp: frames_ok_def)
  then show "fr_pagedir f \<noteq> pdir s ?t"
  proof
    assume "busy {} ?s f"
    then obtain t q qg where b: "fr_pagedir f = pdir s t" "resides {} ?s t q (fr_upage f) qg" by (rule busyD) (simp add: cleared_procs(1) [OF pr])
    have t: "t \<noteq> ?t" "pdir s t \<noteq> 0" using b(2) residesD(6) [OF ow' b(2)] unfolding pages(2) cleared_procs(1) [OF pr] by simp_all
    then show ?thesis using spacesD(3) [OF inv(1) t pd] pd_pagesI(1) [of "pdir s ?t" "mach s"] b(1) by auto
  qed (use pd in \<open>simp add: idle_def\<close>)
qed

section \<open>Releasing the page directory\<close>

lemma activate_kernel:
  assumes "is_kernel_vaddr (init_page_dir st)"
  shows "\<exists>x. pagedir_activate 0 st = Some (st\<lparr>cr3 := x\<rparr>) \<and> (\<exists>a. ptov x = Some a)"
proof -
  obtain x where x: "vtop (init_page_dir st) = Some x" using assms by (simp add: vtop_def)
  moreover have "\<exists>a. ptov x = Some a" using vtop_ptov [OF x] by blast
  ultimately show ?thesis by (intro exI [of _ x]) (simp add: pagedir_activate_def)
qed

text \<open>The state after \<open>process_exit\<close>.\<close>

definition released :: "vm \<Rightarrow> process \<Rightarrow> pd_state \<Rightarrow> vm" where
  "released s pr m = s\<lparr>procs := (procs s)(current s \<mapsto> pr), mach := m\<rparr>"

lemma released_simps [simp]:
  "mach (released s pr m) = m" "vfs (released s pr m) = vfs s" "swap_block (released s pr m) = swap_block s"
  "free_bitmap (released s pr m) = free_bitmap s" "clock_pointer (released s pr m) = clock_pointer s"
  "frame_lock (released s pr m) = frame_lock s" "procs (released s pr m) = (procs s)(current s \<mapsto> pr)" "current (released s pr m) = current s"
  "vpages (released s pr m) = vpages s" "frame_table (released s pr m) = frame_table s" "occupancy (released s pr m) = occupancy s"
  by (simp_all add: released_def)

lemma released_ok:
  assumes ok: "vm_ok s" and old: "own s (current s) = {}" and pr: "pagedir pr = 0" "spt pr = None" and pd: "pdir s (current s) \<noteq> 0"
    and m: "palloc_ok (pal m)" "in_use (kernel_pool (pal m)) = in_use (kernel_pool (pal (mach s))) - pd_pages (mach s) (pdir s (current s))"
      "user_pool (pal m) = user_pool (pal (mach s))" "agree (- pd_pages (mach s) (pdir s (current s))) (ram s) (mem (pal m))"
      "init_page_dir m = init_page_dir (mach s)" "init_ram_pages m = init_ram_pages (mach s)" "\<exists>a. ptov (cr3 m) = Some a"
  shows "vm_ok (released s pr m)" "vmem (released s pr m) = vmem s"
proof -
  note inv = vm_invD [OF conjunct1 [OF ok]]
  let ?t = "current s" and ?s = "released s pr m"
  have p': "pdir ?s t = (if t = ?t then 0 else pdir s t)" "own ?s t = own s t" "udir ?s t = (if t = ?t then 0 else udir s t)" for t
    using pr old by (simp_all add: pdir_def own_def udir_def)
  have res: "resides X ?s = resides X s" for X by (simp add: fun_eq_iff resides_def p'(2))
  have other: "t \<noteq> ?t" if "resides {} s t q w qg" for t q w qg using that old by (auto simp: resides_def)
  have dir: "wf_pd m (pdir s t)" "pd_pages m (pdir s t) = pd_pages (mach s) (pdir s t)"
      "is_user_vaddr va \<Longrightarrow> entry m (pdir s t) va = entry (mach s) (pdir s t) va" if a: "t \<noteq> ?t" "pdir s t \<noteq> 0" for t va
  proof -
    have wf: "wf_pd (mach s) (pdir s t)" using spacesD(2) [OF inv(1) a(2)] .
    have dj: "pd_pages (mach s) (pdir s t) \<subseteq> - pd_pages (mach s) (pdir s ?t)" using spacesD(3) [OF inv(1) a(1,2) pd] by blast
    have "agree (pd_pages (mach s) (pdir s t)) (ram s) (mem (pal m))" using agree_subset [OF m(4) dj] .
    moreover have "pd_pages (mach s) (pdir s t) \<subseteq> in_use (kernel_pool (pal m))" using pd_pages_in_use [OF wf] dj m(2) by blast
    ultimately show "wf_pd m (pdir s t)" "pd_pages m (pdir s t) = pd_pages (mach s) (pdir s t)"
        "is_user_vaddr va \<Longrightarrow> entry m (pdir s t) va = entry (mach s) (pdir s t) va"
      using pd_kept [OF wf _ m(1) _ m(5,7)] by blast+
  qed
  have "spaces ?s"
    unfolding spaces_def released_simps(1)
  proof (intro conjI allI impI)
    show "palloc_ok (pal m)" by (rule m)
    show "wf_pd m (pdir ?s t)" if "pdir ?s t \<noteq> 0" for t using that dir(1) by (auto simp: p'(1) split: if_splits)
    show "pd_pages m (pdir ?s t) \<inter> pd_pages m (pdir ?s t') = {}" if "t \<noteq> t'" "pdir ?s t \<noteq> 0" "pdir ?s t' \<noteq> 0" for t t'
      using that dir(2) spacesD(3) [OF inv(1) that(1)] by (auto simp: p'(1) split: if_splits)
  qed
  moreover have "owners ?s"
    unfolding owners_def p'(2) released_simps(2,9)
  proof (intro conjI allI impI)
    fix t q w assume a: "(q, w) \<in> own s t"
    then have "t \<noteq> ?t" using old by auto
    then show "pdir ?s t \<noteq> 0" "upage_ok w"
      "\<exists>pg. vpages s q = Some pg \<and> pg_upage pg = w \<and> pg_pagedir pg = pdir ?s t \<and> location pg \<in> {IN_FRAME, IN_SWAP, IN_FILESYS}"
      using ownersD [OF inv(2) a] by (simp_all add: p'(1)) metis+
  next
    show "t = t'" if "(q, w) \<in> own s t" "(q, w') \<in> own s t'" for t t' q w w' using that own_owner [OF inv(2)] by blast
    show "wf_hash page_hash page_less g" if "procs ?s t = Some r" "spt r = Some g" for t r g
      using that pr inv(2) by (auto simp: owners_def split: if_splits)
    show "q < next_addr (vfs s)" if "vpages s q = Some qg" for q qg using that inv(2) unfolding owners_def by blast
  qed
  moreover have "frames_ok {} ?s"
  proof -
    have "frame_ok m = frame_ok (mach s)" using m(3,6) by (simp add: fun_eq_iff frame_ok_def)
    moreover have "busy {} ?s f" if "busy {} s f" for f using that other unfolding busy_def res p'(1) by metis
    ultimately show ?thesis using inv(3) unfolding frames_ok_def released_simps by metis
  qed
  moreover have "mapped {} ?s"
    unfolding mapped_def res released_simps(1,10)
  proof (intro conjI allI impI)
    fix t q u qg assume r: "resides {} s t q u qg" "location qg = IN_FRAME"
    note rr = residesD [OF inv(2) r(1)] and t = other [OF r(1)]
    show "maps_to (entry m (pdir ?s t) u) qg" using mappedD(1) [OF inv(4) r] dir(3) [OF t rr(6), of u] rr(7) t by (simp add: upage_ok_def p'(1))
    show "\<exists>f \<in> set (frame_table s). fr_page f = Some q" by (rule mappedD(2) [OF inv(4) r])
  next
    fix t va assume a: "is_user_vaddr va" "udir ?s t \<noteq> 0" "entry m (pdir ?s t) va AND PTE_P \<noteq> 0"
    then have t: "t \<noteq> ?t" "udir s t \<noteq> 0" by (auto simp: p'(3) split: if_splits)
    then show "\<exists>p u pg. resides {} s t p u pg \<and> same_upage va u \<and> location pg = IN_FRAME"
      using mappedD(3) [OF inv(4) a(1) t(2)] dir(3) [OF t(1) udir_pdir [OF t(2)] a(1)] a(3) by (simp add: p'(1))
  qed
  moreover have sw: "swap_ok ?s = swap_ok s" "slots_used ?s = slots_used s" "slot_bytes ?s = slot_bytes s"
    by (simp_all add: swap_ok_def slots_used_def slot_bytes_def fun_eq_iff)
  then have "swapped {} ?s" using inv(5) unfolding swapped_def res sw by blast
  moreover have "filed {} ?s" using inv(6) unfolding filed_def res released_simps(2,3) by blast
  ultimately show ok': "vm_ok ?s" using ok by (simp add: vm_inv_def)
  have "page_bytes (mem (pal m)) (pg_kpage qg) = page_bytes (ram s) (pg_kpage qg)" if "resides {} s t q u qg" "location qg = IN_FRAME" for t q u qg
  proof -
    note f = frame_page [OF conjunct1 [OF ok] that]
    have "page_of (pg_kpage qg) \<in> - pd_pages (mach s) (pdir s ?t)"
      using user_pages_apart [OF spacesD(1) [OF inv(1)] f(2)] pd_pages_in_use [OF spacesD(2) [OF inv(1) pd]] by blast
    then show ?thesis by (rule page_bytes_agree [OF m(4) f(1)])
  qed
  then have "page_content ?s qg = page_content s qg" if "resides {} s t q u qg" for t q u qg
    using that by (simp add: page_content_def sw)
  then have "holds {} ?s t u bs \<longleftrightarrow> holds {} s t u bs" for t u bs unfolding holds_def res by metis
  then show "vmem ?s = vmem s" using vmem_cong [OF inv(2) vm_invD(2) [OF conjunct1 [OF ok']]] by (intro ext) blast
qed

section \<open>The two steps of an exit\<close>

lemma clear_all_ok:
  assumes ok: "vm_ok s" and up: "user_process s"
  shows "\<exists>s'. page_clear_all s = Some s' \<and> vm_ok s' \<and> others_kept s s' \<and> current s' = current s \<and> vmem s' = (vmem s)(current s := (\<lambda>_. None)) \<and>
    (\<exists>pr. procs s' (current s) = Some pr \<and> spt pr = None \<and> pagedir pr = pdir s (current s)) \<and> mach s' = mach s \<and>
    (\<forall>f \<in> set (frame_table s'). fr_pagedir f \<noteq> pdir s (current s)) \<and> slots_used s' = slots_used s"
proof -
  obtain pr h where pr: "procs s (current s) = Some pr" "spt pr = Some h" "pagedir pr \<noteq> 0" using up by (auto simp: user_process_def)
  define pr' where "pr' = pr\<lparr>spt := None\<rparr>"
  have pr': "spt pr' = None" "pagedir pr' = pdir s (current s)" using pr(1) by (simp_all add: pr'_def pdir_def)
  have "page_clear_all s = Some (cleared s pr')" using page_clear_all_ok [OF ok pr(1,2)] by (simp add: cleared_def pr'_def)
  moreover have "slots_used (cleared s pr') = slots_used s" by (simp add: slots_used_def)
  moreover have "pdir s (current s) \<noteq> 0" using pr by (simp add: pdir_def)
  ultimately show ?thesis
    using cleared_ok [OF ok pr'] cleared_pages(3) [OF ok pr'] pr' by (intro exI [of _ "cleared s pr'"]) simp
qed

lemma release_ok:
  assumes ok: "vm_ok s" and pr: "procs s (current s) = Some pr" "spt pr = None" "pagedir pr \<noteq> 0" and ini: "is_kernel_vaddr (init_page_dir (mach s))"
  shows "\<exists>s'. process_exit s = Some s' \<and> vm_ok s' \<and> others_kept s s' \<and> current s' = current s \<and> vmem s' = vmem s \<and> pdir s' (current s) = 0 \<and>
    in_use (kernel_pool (pal (mach s'))) = in_use (kernel_pool (pal (mach s))) - pd_pages (mach s) (pdir s (current s))"
proof -
  note inv = vm_invD [OF conjunct1 [OF ok]]
  let ?pd = "pdir s (current s)"
  have pd: "?pd = pagedir pr" using pr(1) by (simp add: pdir_def)
  have pd0: "?pd \<noteq> 0" using pr(3) pd by simp
  have wf: "wf_pd (mach s) ?pd" using spacesD(2) [OF inv(1) pd0] .
  obtain x where x: "pagedir_activate 0 (mach s) = Some ((mach s)\<lparr>cr3 := x\<rparr>)" "\<exists>a. ptov x = Some a" using activate_kernel [OF ini] by blast
  let ?m = "(mach s)\<lparr>cr3 := x\<rparr>"
  have k: "wf_pd ?m ?pd" "pd_pages ?m ?pd = pd_pages (mach s) ?pd"
    using pd_kept [OF wf, of ?m] wf_pd_D(1) [OF wf] pd_pages_in_use [OF wf] x(2) by simp_all
  obtain m where m: "pagedir_destroy ?pd ?m = Some m" "palloc_ok (pal m)"
      "in_use (kernel_pool (pal m)) = in_use (kernel_pool (pal (mach s))) - pd_pages (mach s) ?pd" "user_pool (pal m) = user_pool (pal (mach s))"
      "agree (- pd_pages (mach s) ?pd) (ram s) (mem (pal m))" "init_page_dir m = init_page_dir (mach s)"
      "init_ram_pages m = init_ram_pages (mach s)" "cr3 m = x"
    using pagedir_destroy_ok [OF k(1)] k(2) by auto
  define pr' where "pr' = pr\<lparr>pagedir := 0\<rparr>"
  have run: "process_exit s = Some (released s pr' m)"
    using pr x(1) m(1) pd by (simp add: process_exit_def released_def pr'_def)
  have pr': "pagedir pr' = 0" "spt pr' = None" using pr(2) by (simp_all add: pr'_def)
  have old: "own s (current s) = {}" using pr(1,2) by (simp add: own_def)
  have cr: "\<exists>a. ptov (cr3 m) = Some a" using x(2) m(8) by simp
  have "others_kept s (released s pr' m)" by (simp add: others_kept_def)
  moreover have "pdir (released s pr' m) (current s) = 0" using pr'(1) by (simp add: pdir_def)
  ultimately show ?thesis using run released_ok [OF ok old pr' pd0 m(2-7) cr] m(3) by (intro exI [of _ "released s pr' m"]) simp
qed

end
