(* ===== verification/Vm_Boot.thy ===== *)
theory Vm_Boot
  imports Vm_Mem
begin

text \<open>
  Starting the virtual memory system: \<open>frame_table_init\<close> takes the frames from the user pool and
  \<open>swap_init\<close> finds the swap device.
\<close>

section \<open>Taking the frames\<close>

lemma palloc_pool_range:
  assumes "palloc_ok st" "0 < n" "palloc_get_multiple flags n st = Some (st', pages)"
  shows "pool_range (user_pool st') = pool_range (user_pool st)"
proof -
  define u where "u = (flags AND PAL_USER \<noteq> 0)"
  have "wf_bitmap (used_map (select_pool u st))" using palloc_ok_select [OF assms(1)] by (simp add: pool_ok_def)
  from bitmap_acquire_marked [OF this assms(2)] obtain b r where
    b: "bitmap_scan_and_flip (used_map (select_pool u st)) 0 n False = Some (b, r)" "bit_cnt b = bit_cnt (used_map (select_pool u st))" by blast
  have "n \<noteq> 0" using assms(2) by auto
  then have "user_pool st' = user_pool (set_used_map u b st)"
    using assms(3) b(1) by (auto simp: palloc_get_multiple_def Let_def u_def [symmetric] split: if_splits)
  then show ?thesis using b(2) by (auto simp: pool_range_def first_page_def set_used_map_def select_pool_def split: if_splits)
qed

lemma palloc_user_page:
  assumes ok: "palloc_ok p" and q: "q \<in> pool_range (user_pool p) - in_use (user_pool p)"
  shows "\<exists>p' k. palloc_get_page PAL_USER p = Some (p', k) \<and> palloc_ok p' \<and> pg_ofs k = 0 \<and>
    page_of k \<in> pool_range (user_pool p) - in_use (user_pool p) \<and> in_use (user_pool p') = insert (page_of k) (in_use (user_pool p)) \<and>
    pool_range (user_pool p') = pool_range (user_pool p) \<and> kernel_pool p' = kernel_pool p \<and> mem p' = mem p"
proof -
  let ?b = "used_map (user_pool p)" and ?i = "q - first_page (user_pool p)"
  have i: "?i < unat (bit_cnt ?b)" "first_page (user_pool p) \<le> q" using q by (auto simp: pool_range_def)
  then have "\<not> bm ?b ! ?i" using q by (auto simp: in_use_def marked_def image_iff)
  then have "run_at (bm (used_map (select_pool True p))) False (unat (1 :: u32)) ?i"
    using i(1) by (auto simp: run_at_def select_pool_def less_Suc_eq_le le_antisym)
  from palloc_get_multiple_success [OF ok _ this, of PAL_USER]
  obtain p' k where g: "palloc_get_multiple PAL_USER 1 p = Some (p', k)" "palloc_ok p'" "pg_ofs k = 0"
     "page_run k 1 \<subseteq> pool_range (select_pool True p) - in_use (select_pool True p)"
     "in_use (select_pool True p') = in_use (select_pool True p) \<union> page_run k 1"
     "select_pool (\<not> True) p' = select_pool (\<not> True) p" "mem p' = mem p"
    by (auto simp: PAL_USER_def PAL_ZERO_def)
  have run: "page_run k 1 = {page_of k}" by (simp add: page_run_def page_of_def)
  have "pool_range (user_pool p') = pool_range (user_pool p)" using palloc_pool_range [OF ok _ g(1)] by simp
  then show ?thesis using g unfolding run by (auto simp: select_pool_def palloc_get_page_def)
qed


text \<open>The frames taken so far: new pages of the user pool, all different, none in use.\<close>

definition taken :: "vm \<Rightarrow> frame_table_elem list \<Rightarrow> vm \<Rightarrow> bool" where
  "taken s fs s' \<longleftrightarrow> frame_table s' = frame_table s @ fs \<and> palloc_ok (pal (mach s')) \<and> (\<forall>f \<in> set fs. idle f \<and> pg_ofs (fr_kpage f) = 0) \<and>
     distinct (map (page_of \<circ> fr_kpage) fs) \<and>
     (page_of \<circ> fr_kpage) ` set fs \<subseteq> pool_range (user_pool (pal (mach s))) - in_use (user_pool (pal (mach s))) \<and>
     in_use (user_pool (pal (mach s'))) = in_use (user_pool (pal (mach s))) \<union> (page_of \<circ> fr_kpage) ` set fs \<and>
     pool_range (user_pool (pal (mach s'))) = pool_range (user_pool (pal (mach s))) \<and> kernel_pool (pal (mach s')) = kernel_pool (pal (mach s)) \<and>
     (\<exists>p v. s' = s\<lparr>vfs := v, mach := (mach s)\<lparr>pal := p\<rparr>, frame_table := frame_table s'\<rparr>) \<and> memory (vfs s') \<and>
     devs (vfs s') = devs (vfs s) \<and> fs_device (vfs s') = fs_device (vfs s) \<and> next_addr (vfs s) \<le> next_addr (vfs s')"

lemma frame_table_loop_ok:
  assumes "palloc_ok (pal (mach s))" "memory (vfs s)" "\<not> frame_lock s"
    "n \<le> card (pool_range (user_pool (pal (mach s))) - in_use (user_pool (pal (mach s))))"
  shows "\<exists>s' fs. frame_table_loop n s = Some s' \<and> length fs = n \<and> taken s fs s'"
  using assms
proof (induction n arbitrary: s)
  case 0
  have "\<exists>p v. s = s\<lparr>vfs := v, mach := (mach s)\<lparr>pal := p\<rparr>\<rparr>" by (intro exI [of _ "pal (mach s)"] exI [of _ "vfs s"]) simp
  then show ?case using 0 by (intro exI [of _ s] exI [of _ "[]"]) (simp add: taken_def)
next
  case (Suc n)
  let ?F = "pool_range (user_pool (pal (mach s))) - in_use (user_pool (pal (mach s)))"
  have "?F \<noteq> {}" using Suc.prems(4) by (metis card.empty not_less_eq_eq zero_le)
  then obtain q where "q \<in> ?F" by blast
  from palloc_user_page [OF Suc.prems(1) this]
  obtain p' k where g: "palloc_get_page PAL_USER (pal (mach s)) = Some (p', k)" "palloc_ok p'" "pg_ofs k = 0" "page_of k \<in> ?F"
     "in_use (user_pool p') = insert (page_of k) (in_use (user_pool (pal (mach s))))" "pool_range (user_pool p') = pool_range (user_pool (pal (mach s)))"
     "kernel_pool p' = kernel_pool (pal (mach s))"
    by blast
  have m: "malloc_ok (vfs s) n" for n using Suc.prems(2) by (simp add: memory_def)
  define v where "v = (vfs s)\<lparr>malloc_ok := (\<lambda>n. malloc_ok (vfs s) (Suc n)), next_addr := Suc (next_addr (vfs s))\<rparr>"
  define f where "f = \<lparr>fr_kpage = k, fr_upage = 0, fr_pagedir = 0, fr_page = None\<rparr>"
  define s1 where "s1 = s\<lparr>vfs := v, mach := (mach s)\<lparr>pal := p'\<rparr>, frame_table := frame_table s @ [f]\<rparr>"
  have lk: "s\<lparr>frame_lock := False\<rparr> = s" using Suc.prems(3) by simp
  have "frame_table_loop (Suc n) s = frame_table_loop n (s1\<lparr>frame_lock := False\<rparr>)"
    using g(1) Suc.prems(3) m [of 0]
    by (simp add: vm_malloc_def fs_malloc_def set_pal_def frame_lock_acquire_def frame_lock_release_def s1_def v_def f_def Let_def)
  moreover have "s1\<lparr>frame_lock := False\<rparr> = s1" using Suc.prems(3) by (simp add: s1_def)
  ultimately have run: "frame_table_loop (Suc n) s = frame_table_loop n s1" by simp
  have F1: "pool_range (user_pool p') - in_use (user_pool p') = ?F - {page_of k}" using g(5,6) by auto
  have "finite ?F" by (simp add: pool_range_def)
  then have c: "n \<le> card (?F - {page_of k})" using Suc.prems(4) g(4) by (simp add: card_Diff_singleton)
  have mv: "memory v" using m by (simp add: memory_def v_def)
  obtain s' fs where s': "frame_table_loop n s1 = Some s'" "length fs = n" "taken s1 fs s'"
    using Suc.IH [of s1] g(2) mv Suc.prems(3) c F1 by (auto simp: s1_def)
  have s1': "mach s1 = (mach s)\<lparr>pal := p'\<rparr>" "vfs s1 = v" "frame_table s1 = frame_table s @ [f]" by (simp_all add: s1_def)
  have v': "devs v = devs (vfs s)" "fs_device v = fs_device (vfs s)" "next_addr v = Suc (next_addr (vfs s))" by (simp_all add: v_def)
  note t = s'(3) [unfolded taken_def s1' pd_state.simps F1]
  obtain p v2 where e: "s' = s1\<lparr>vfs := v2, mach := (mach s1)\<lparr>pal := p\<rparr>, frame_table := frame_table s'\<rparr>" using s'(3) unfolding taken_def by blast
  have "taken s (f # fs) s'"
    unfolding taken_def
  proof (intro conjI)
    show "\<exists>p v. s' = s\<lparr>vfs := v, mach := (mach s)\<lparr>pal := p\<rparr>, frame_table := frame_table s'\<rparr>"
      using e by (intro exI [of _ p] exI [of _ v2]) (simp add: s1_def)
    show "in_use (user_pool (pal (mach s'))) = in_use (user_pool (pal (mach s))) \<union> (page_of \<circ> fr_kpage) ` set (f # fs)"
      using t g(5) by (auto simp: f_def)
    show "distinct (map (page_of \<circ> fr_kpage) (f # fs))" using t g(5) by (auto simp: f_def)
    show "\<forall>g \<in> set (f # fs). idle g \<and> pg_ofs (fr_kpage g) = 0" using t g(3) by (simp add: f_def idle_def)
    show "(page_of \<circ> fr_kpage) ` set (f # fs) \<subseteq> ?F" using t g(4-6) by (auto simp: f_def)
    show "devs (vfs s') = devs (vfs s)" "fs_device (vfs s') = fs_device (vfs s)" "next_addr (vfs s) \<le> next_addr (vfs s')" using t v' by simp_all
  qed (use t g(6,7) in simp_all)
  then show ?case using run s'(1,2) by (intro exI [of _ s'] exI [of _ "f # fs"]) simp
qed

section \<open>The first state\<close>

text \<open>
  The kernel takes the frames first; only then are the block devices found and is swap set up.
  The device of the file system, which \<open>filesys_init\<close> chooses last, plays no part in either.
\<close>

definition boot_ready :: "vm \<Rightarrow> bool" where
  "boot_ready s \<longleftrightarrow> palloc_ok (pal (mach s)) \<and> memory (vfs s) \<and> procs s = (\<lambda>_. None) \<and> vpages s = (\<lambda>_. None) \<and>
     TOTAL_PAGES \<le> card (pool_range (user_pool (pal (mach s))) - in_use (user_pool (pal (mach s)))) \<and>
     (\<forall>q \<in> pool_range (user_pool (pal (mach s))). q - 0xc0000 < unat (init_ram_pages (mach s)))"

definition devices_found :: "fs \<Rightarrow> bool" where
  "devices_found v \<longleftrightarrow> memory v \<and> disk_ok v \<and>
     (\<exists>b n. block_by_role (devs v) BLOCK_SWAP = Some b \<and> device_ready b n (devs v) \<and> (\<forall>t < n. length (sector_of (devs v) b t) = 512) \<and>
       apart (devs v) b (fs_device v))"

lemma frame_table_init_ok:
  assumes "boot_ready s"
  shows "\<exists>s' fs. frame_table_init s = Some s' \<and> length fs = TOTAL_PAGES \<and>
    taken (s\<lparr>occupancy := 0, clock_pointer := 25, frame_lock := False, frame_table := []\<rparr>) fs s'"
  using frame_table_loop_ok [of "s\<lparr>occupancy := 0, clock_pointer := 25, frame_lock := False, frame_table := []\<rparr>" TOTAL_PAGES] assms
  by (simp add: frame_table_init_def boot_ready_def)

lemma boot_ok:
  assumes bt: "boot_ready s" "devices_found v" and buf: "\<And>b n. block_by_role (devs v) BLOCK_SWAP = Some b \<Longrightarrow> block_size b (devs v) = Some n \<Longrightarrow>
    length buf = (unat (n * 512 div PGSIZE) + 31) div 32"
  shows "\<exists>s1 s2. frame_table_init s = Some s1 \<and> swap_init buf (s1\<lparr>vfs := v\<rparr>) = Some s2 \<and> vm_ok s2 \<and> occupancy s2 = 0 \<and>
    slots_used s2 = {} \<and> (\<forall>t. vmem s2 t = (\<lambda>_. None)) \<and> memory (vfs s2) \<and> kernel_pool (pal (mach s2)) = kernel_pool (pal (mach s))"
proof -
  let ?s0 = "s\<lparr>occupancy := 0, clock_pointer := 25, frame_lock := False, frame_table := []\<rparr>"
  obtain s1 fs where s1: "frame_table_init s = Some s1" "length fs = TOTAL_PAGES" "taken ?s0 fs s1" using frame_table_init_ok [OF bt(1)] by blast
  note t = s1(3) [unfolded taken_def]
  obtain p v1 where e: "s1 = ?s0\<lparr>vfs := v1, mach := (mach s)\<lparr>pal := p\<rparr>, frame_table := frame_table s1\<rparr>" using t by auto
  have e1: "procs s1 = procs s" "vpages s1 = vpages s" "occupancy s1 = 0" "clock_pointer s1 = 25" "\<not> frame_lock s1" "mach s1 = (mach s)\<lparr>pal := p\<rparr>"
    by (subst e; simp)+
  have e2: "frame_table s1 = fs" "memory v" using t bt(2) by (simp_all add: devices_found_def)
  obtain b n where b: "block_by_role (devs v) BLOCK_SWAP = Some b" "device_ready b n (devs v)" "\<forall>t < n. length (sector_of (devs v) b t) = 512"
      "apart (devs v) b (fs_device v)" using bt(2) unfolding devices_found_def by blast
  have sz: "block_size b (devs v) = Some n" using b(2) by (simp add: block_size_def device_def device_ready_def)
  let ?c = "n * 512 div PGSIZE"
  have "wf_bitmap \<lparr>bit_cnt = ?c, bits = buf\<rparr>" using buf [OF b(1) sz] by (simp add: wf_bitmap_def)
  from bitmap_set_all_bm [OF this, of False] obtain bm' :: bitmap where m: "bitmap_set_all \<lparr>bit_cnt = ?c, bits = buf\<rparr> False = Some bm'" "wf_bitmap bm'"
      "bit_cnt bm' = ?c" "bm bm' = replicate (unat ?c) False" by auto
  have cap: "8 * unat ?c \<le> unat n"
  proof -
    have "unat (n * 512) \<le> unat n * 512" by (simp add: unat_word_ariths)
    then show ?thesis by (simp add: unat_div PGSIZE_def PGBITS_def)
  qed
  have mo: "malloc_ok v k" for k using e2(2) by (simp add: memory_def)
  define v2 where "v2 = v\<lparr>malloc_ok := (\<lambda>k. malloc_ok v (Suc (Suc k))), next_addr := Suc (Suc (next_addr v))\<rparr>"
  define s2 where "s2 = s1\<lparr>swap_block := b, vfs := v2, free_bitmap := Some bm'\<rparr>"
  have run: "swap_init buf (s1\<lparr>vfs := v\<rparr>) = Some s2"
    using b(1) sz m(1) mo
    by (simp add: swap_init_def block_get_role_def vm_malloc_def fs_malloc_def bitmap_create_def s2_def v2_def)
  have s2: "procs s2 = (\<lambda>_. None)" "vpages s2 = (\<lambda>_. None)" "occupancy s2 = 0" "clock_pointer s2 = 25" "\<not> frame_lock s2" "mach s2 = mach s1"
      "vfs s2 = v2" "swap_block s2 = b" "free_bitmap s2 = Some bm'" "frame_table s2 = fs"
    using e1 e2(1) bt(1) by (simp_all add: s2_def boot_ready_def)
  have v2: "devs v2 = devs v" "fs_device v2 = fs_device v" "memory v2" using mo by (simp_all add: v2_def memory_def)
  have none: "own s2 t = {}" "pdir s2 t = 0" "udir s2 t = 0" for t by (simp_all add: own_def pdir_def udir_def s2(1))
  have res: "\<not> resides {} s2 t q u qg" for t q u qg by (simp add: resides_def none)
  have pl: "palloc_ok (pal (mach s2))" using t s2(6) by simp
  have "spaces s2" using pl by (simp add: spaces_def none)
  moreover have "owners s2" by (simp add: owners_def none s2(1,2))
  moreover have "frames_ok {} s2"
  proof -
    have "frame_ok (mach s2) f" if a: "f \<in> set fs" for f
    proof -
      have f: "pg_ofs (fr_kpage f) = 0" "page_of (fr_kpage f) \<in> in_use (user_pool (pal (mach s2)))" "page_of (fr_kpage f) \<in> pool_range (user_pool (pal (mach s)))"
        using t a s2(6) by auto
      have "page_of (fr_kpage f) - 0xc0000 < unat (init_ram_pages (mach s))" using bt(1) f(3) by (simp add: boot_ready_def)
      moreover have "(unat (fr_kpage f) - 0xc0000000) div 4096 = page_of (fr_kpage f) - 0xc0000" 
      proof -
        obtain c where "unat (fr_kpage f) = 4096 * c" using f(1) by (auto simp: pg_ofs_0)
        then show ?thesis using diff_mult_distrib2 [of 4096 c 786432] by (simp add: page_of_def)
      qed
      ultimately show ?thesis using f(1,2) s2(6) e1(6) by (simp add: frame_ok_def)
    qed
    moreover have "distinct (map page_of (map fr_kpage fs))" using t by simp
    then have "distinct (map fr_kpage fs)" by (rule distinct_map [THEN iffD1, THEN conjunct1])
    moreover have "idle f" if "f \<in> set fs" for f using t that by simp
    ultimately show ?thesis using s1(2) s2 by (auto simp: frames_ok_def idle_def filter_False TOTAL_PAGES_def)
  qed
  moreover have "mapped {} s2" by (simp add: mapped_def res none)
  moreover have "swapped {} s2"
  proof -
    have "8 * unat (bit_cnt bm') \<le> unat n" using cap m(3) by simp
    then have "swap_ok s2" unfolding swap_ok_def s2(7-9) v2(1) using m(2) b(2,3) by blast
    then show ?thesis unfolding swapped_def using res by blast
  qed
  moreover have "filed {} s2"
  proof -
    have "disk_ok v2" using bt(2) by (simp add: devices_found_def disk_ok_def sect_def fs_size_def v2)
    then show ?thesis using res b(4) unfolding filed_def s2(7,8) v2 by blast
  qed
  ultimately have ok: "vm_ok s2" using s2(5) by (simp add: vm_inv_def)
  moreover have "slots_used s2 = {}" using m(3,4) by (auto simp: slots_used_def s2(9) marked_def)
  moreover have "vmem s2 t = (\<lambda>_. None)" for t by (auto simp: vmem_def s2(1))
  moreover have "kernel_pool (pal (mach s2)) = kernel_pool (pal (mach s))" using t s2(6) by simp
  ultimately show ?thesis using s1(1) run s2(3,7) v2(3) by blast
qed

end
