(* ===== verification/Vm_Steps.thy ===== *)
theory Vm_Steps
  imports Vm_Exit
begin

text \<open>
  Runs of several processes over the virtual memory system. The page fault handler of the code
  runs with interrupts on: it finds a frame in one step, during which a page may be evicted, and loads
  and installs its page in another, and other processes run in between. A process that exits gives up
  its pages in one step and its page directory in another.
\<close>

section \<open>Steps\<close>

text \<open>The state, and for each process that has found a frame what it has found it for: the address of the
  fault, what is left to do, and the frame.\<close>

type_synonym vm_config = "vm \<times> (nat \<Rightarrow> (u32 \<times> need \<times> u32) option)"

datatype vm_event = Load nat u32 u8 | Store nat u32 u8 | Fault nat u32 | Resolve nat u32 | Refuse nat u32 | Clear nat | Release nat | Switch nat

text \<open>
  Each step runs to its end; in the code the steps of the handler can also be interrupted, while a page
  is written to swap or read. Between steps anything may happen.

  \<^item> A process that is not in the handler loads and stores.
  \<^item> \<open>Fault\<close>: the handler finds a frame. There is a frame or a swap slot to be had; with neither the
    kernel panics. Page 0 is excluded.
  \<^item> \<open>Resolve\<close>: the handler loads the page. The frame has not been given away since it was found, and
    there is memory for a page table and a descriptor. The code neither reserves the frame nor checks
    that it is still free before it overwrites it.
  \<^item> \<open>Refuse\<close>: a wild access, which the handler answers by ending the process.
  \<^item> \<open>Clear\<close>, \<open>Release\<close>: the two steps of an exit.
  \<^item> \<open>Switch\<close>: the scheduler runs another process, at any time.
\<close>

inductive vm_step :: "vm_config \<Rightarrow> vm_event \<Rightarrow> vm_config \<Rightarrow> bool" where
  load: "user_process s \<Longrightarrow> w (current s) = None \<Longrightarrow> user_load va s = Some (s', b) \<Longrightarrow> vm_step (s, w) (Load (current s) va b) (s', w)"
| store: "user_process s \<Longrightarrow> w (current s) = None \<Longrightarrow> user_store va b s = Some s' \<Longrightarrow> vm_step (s, w) (Store (current s) va b) (s', w)"
| fault: "user_process s \<Longrightarrow> w (current s) = None \<Longrightarrow> is_user_vaddr fa \<Longrightarrow> 4096 \<le> unat fa \<Longrightarrow> room s \<Longrightarrow>
    fault_need fa f_esp user s = Some n \<Longrightarrow> frame_find_empty s = Some (s', k) \<Longrightarrow>
    vm_step (s, w) (Fault (current s) fa) (s', w(current s \<mapsto> (fa, n, k)))"
| resolve: "w (current s) = Some (fa, n, k) \<Longrightarrow> free_frame s k \<Longrightarrow> spare s \<Longrightarrow> memory (vfs s) \<Longrightarrow> resume n k s = Some (s', r) \<Longrightarrow>
    vm_step (s, w) (Resolve (current s) fa) (s', w(current s := None))"
| refuse: "user_process s \<Longrightarrow> w (current s) = None \<Longrightarrow>
    \<not> expected s error_code fa f_esp \<or> error_code AND PF_P \<noteq> 0 \<or> fa = 0 \<or> is_kernel_vaddr fa \<Longrightarrow>
    page_fault error_code fa f_esp s = Some (s', r) \<Longrightarrow> vm_step (s, w) (Refuse (current s) fa) (s', w)"
| clear: "user_process s \<Longrightarrow> w (current s) = None \<Longrightarrow> page_clear_all s = Some s' \<Longrightarrow> vm_step (s, w) (Clear (current s)) (s', w)"
| release: "procs s (current s) = Some pr \<Longrightarrow> spt pr = None \<Longrightarrow> process_exit s = Some s' \<Longrightarrow> vm_step (s, w) (Release (current s)) (s', w)"
| switch: "procs s t \<noteq> None \<Longrightarrow> vm_step (s, w) (Switch t) (s\<lparr>current := t\<rparr>, w)"

text \<open>The two steps of the handler, one after the other, are the handler.\<close>

lemma fault_resolve_handler:
  assumes "is_user_vaddr fa" "4096 \<le> unat fa" "error_code AND PF_P = 0" "\<not> frame_lock s"
    "fault_need fa f_esp (error_code AND PF_U \<noteq> 0) s = Some n" "frame_find_empty s = Some (s1, k)"
  shows "page_fault error_code fa f_esp s = resume n k s1"
  using fault_start [OF assms(1-3)] fault_split [OF assms(5,4)] assms(6) by simp

inductive vm_run :: "vm_config \<Rightarrow> vm_event list \<Rightarrow> vm_config \<Rightarrow> bool" where
  stop: "vm_run c [] c"
| more: "vm_step c e c' \<Longrightarrow> vm_run c' es c'' \<Longrightarrow> vm_run c (e # es) c''"

text \<open>The process that takes a step.\<close>

fun actor :: "vm_event \<Rightarrow> nat option" where
  "actor (Load t va b) = Some t"
| "actor (Store t va b) = Some t"
| "actor (Fault t fa) = Some t"
| "actor (Resolve t fa) = Some t"
| "actor (Refuse t fa) = Some t"
| "actor (Clear t) = Some t"
| "actor (Release t) = Some t"
| "actor (Switch t) = None"

text \<open>The specification: private memories of processes.\<close>

inductive mem_step :: "(nat \<Rightarrow> u32 \<Rightarrow> u8 option) \<Rightarrow> vm_event \<Rightarrow> (nat \<Rightarrow> u32 \<Rightarrow> u8 option) \<Rightarrow> bool" where
  mem_load: "m t va = Some b \<Longrightarrow> mem_step m (Load t va b) m"
| mem_store: "m t va \<noteq> None \<Longrightarrow> mem_step m (Store t va b) (m(t := (m t)(va \<mapsto> b)))"
| mem_fault: "mem_step m (Fault t fa) m"
| mem_resolve: "grown t fa m m' \<Longrightarrow> mem_step m (Resolve t fa) m'"
| mem_refuse: "mem_step m (Refuse t fa) m"
| mem_clear: "mem_step m (Clear t) (m(t := (\<lambda>_. None)))"
| mem_release: "mem_step m (Release t) m"
| mem_switch: "mem_step m (Switch t) m"

inductive mem_run :: "(nat \<Rightarrow> u32 \<Rightarrow> u8 option) \<Rightarrow> vm_event list \<Rightarrow> (nat \<Rightarrow> u32 \<Rightarrow> u8 option) \<Rightarrow> bool" where
  mem_stop: "mem_run m [] m"
| mem_more: "mem_step m e m' \<Longrightarrow> mem_run m' es m'' \<Longrightarrow> mem_run m (e # es) m''"

section \<open>The refinement\<close>

definition config_ok :: "vm_config \<Rightarrow> bool" where
  "config_ok c \<longleftrightarrow> vm_ok (fst c) \<and> (\<forall>t fa n k. snd c t = Some (fa, n, k) \<longrightarrow> waits (fst c) t fa n)"

lemma config_okD: "config_ok (s, w) \<Longrightarrow> vm_ok s" "config_ok (s, w) \<Longrightarrow> w t = Some (fa, n, k) \<Longrightarrow> waits s t fa n"
  by (auto simp: config_ok_def)

text \<open>A step of the running process that leaves the others alone.\<close>

lemma config_step:
  assumes ok: "config_ok (s, w)" and s': "vm_ok s'" "others_kept s s'"
    and w': "\<And>t. t \<noteq> current s \<Longrightarrow> w' t = w t" "\<And>fa n k. w' (current s) = Some (fa, n, k) \<Longrightarrow> waits s' (current s) fa n"
  shows "config_ok (s', w')"
  unfolding config_ok_def fst_conv snd_conv
proof (intro conjI allI impI)
  show "vm_inv {} s'" "\<not> frame_lock s'" using s'(1) by simp_all
  show "waits s' t fa n" if a: "w' t = Some (fa, n, k)" for t fa n k
    using a w' waits_kept [OF config_okD(2) [OF ok] s'(2)] by (cases "t = current s") auto
qed

lemma others_kept_procs: "others_kept s s' \<Longrightarrow> t \<noteq> current s \<Longrightarrow> procs s' t = procs s t"
  by (simp add: others_kept_def)

lemma quiet_kept: "quiet s s' \<Longrightarrow> others_kept s s'"
  by (auto simp: others_kept_def quiet_def)

lemma current_upd:
  "vmem (s\<lparr>current := t\<rparr>) = vmem s" "vm_inv X (s\<lparr>current := t\<rparr>) = vm_inv X s" "waits (s\<lparr>current := t\<rparr>) = waits s"
proof -
  have "page_content (s\<lparr>current := t\<rparr>) = page_content s" by (simp add: page_content_def slot_bytes_def fun_eq_iff)
  then show "vmem (s\<lparr>current := t\<rparr>) = vmem s" by (simp add: vmem_def fun_eq_iff)
  have p: "pdir (s\<lparr>current := t\<rparr>) = pdir s" "own (s\<lparr>current := t\<rparr>) = own s" "udir (s\<lparr>current := t\<rparr>) = udir s"
    by (rule procs_cong; simp)+
  show "vm_inv X (s\<lparr>current := t\<rparr>) = vm_inv X s"
    by (simp add: vm_inv_def spaces_def owners_def frames_ok_def mapped_def swapped_def filed_def resides_def busy_def p swap_ok_def slots_used_def)
  show "waits (s\<lparr>current := t\<rparr>) = waits s" by (auto simp: waits_def p fun_eq_iff split: need.splits)
qed

lemma vm_step_refines:
  assumes "vm_step c e c'" "config_ok c"
  shows "config_ok c' \<and> mem_step (vmem (fst c)) e (vmem (fst c')) \<and> (\<forall>t. actor e \<noteq> Some t \<longrightarrow> procs (fst c') t = procs (fst c) t)"
  using assms
proof (induction rule: vm_step.induct)
  case (load s w va s' b)
  note l = load_ok [OF config_okD(1) [OF load.prems] load.hyps(1,3)]
  have "config_ok (s', w)" by (rule config_step [OF load.prems l(1)]) (use l load.hyps(2) in \<open>auto simp: others_kept_def\<close>)
  then show ?case using l(2-4) mem_load by simp
next
  case (store s w va b s')
  note l = store_ok [OF config_okD(1) [OF store.prems] store.hyps(1,3)]
  have "config_ok (s', w)" by (rule config_step [OF store.prems l(1)]) (use l store.hyps(2) in \<open>auto simp: others_kept_def\<close>)
  then show ?case using mem_store [of "vmem s" "current s" va b, OF l(2)] unfolding fst_conv l(3,5) by blast
next
  case (fault s w fa f_esp user n s' k)
  note ok = config_okD(1) [OF fault.prems]
  obtain s1 k1 where "frame_find_empty s = Some (s1, k1)" "vm_ok s1" "quiet s s1" "vmem s1 = vmem s"
    using find_mem [OF ok fault.hyps(5)] by blast
  then have f: "vm_ok s'" "quiet s s'" "vmem s' = vmem s" using fault.hyps(7) by simp_all
  have "waits s' (current s) fa n"
    using need_waits [OF ok _ fault.hyps(3,4,6)] fault.hyps(1) waits_quiet [OF _ f(2)] by (simp add: user_process_udir)
  then have "config_ok (s', w(current s \<mapsto> (fa, n, k)))"
    by (intro config_step [OF fault.prems f(1) quiet_kept [OF f(2)]]) auto
  then show ?case using f(3) mem_fault others_kept_procs [OF quiet_kept [OF f(2)]] by simp
next
  case (resolve w s fa n k s' r)
  note ok = config_okD [OF resolve.prems]
  obtain s1 where "resume n k s = Some (s1, Inr ())" "vm_ok s1" "others_kept s s1" "grown (current s) fa (vmem s) (vmem s1)"
    using resume_mem [OF ok(1) ok(2) [OF resolve.hyps(1)] resolve.hyps(2-4)] by blast
  then have f: "vm_ok s'" "others_kept s s'" "grown (current s) fa (vmem s) (vmem s')" using resolve.hyps(5) by simp_all
  have "config_ok (s', w(current s := None))" by (rule config_step [OF resolve.prems f(1,2)]) auto
  then show ?case using mem_resolve [OF f(3)] others_kept_procs [OF f(2)] by simp
next
  case (refuse s w error_code fa f_esp s' r)
  have "s' = s" using fault_refused [OF config_okD(1) [OF refuse.prems] refuse.hyps(1,3)] refuse.hyps(4) by simp
  then show ?case using refuse.prems mem_refuse by simp
next
  case (clear s w s')
  have f: "vm_ok s'" "others_kept s s'" "vmem s' = (vmem s)(current s := (\<lambda>_. None))"
    using clear_all_ok [OF config_okD(1) [OF clear.prems] clear.hyps(1)] clear.hyps(3) by auto
  have "config_ok (s', w)" by (rule config_step [OF clear.prems f(1,2)]) (use clear.hyps(2) in auto)
  moreover have "\<forall>t. actor (Clear (current s)) \<noteq> Some t \<longrightarrow> procs s' t = procs s t" using others_kept_procs [OF f(2)] by simp
  ultimately show ?case using mem_clear [of "vmem s" "current s"] unfolding fst_conv f(3) by blast
next
  case (release s pr s' w)
  note ok = config_okD [OF release.prems]
  have none: "w (current s) = None"
    using ok(2) [of "current s"] release.hyps(1,2) by (cases "w (current s)") (auto simp: waits_def udir_def)
  have f: "vm_ok s' \<and> others_kept s s' \<and> vmem s' = vmem s"
  proof (cases "pagedir pr = 0")
    case True
    then have "s' = s" using release.hyps by (simp add: process_exit_def)
    then show ?thesis using ok(1) by (simp add: others_kept_def)
  next
    case False
    then have "is_kernel_vaddr (init_page_dir (mach s))"
      using release.hyps by (auto simp: process_exit_def pagedir_activate_def vtop_def Let_def bind_eq_Some_iff split: if_splits)
    then show ?thesis using release_ok [OF ok(1) release.hyps(1,2) False] release.hyps(3) by auto
  qed
  have "config_ok (s', w)" by (rule config_step [OF release.prems]) (use f none in auto)
  then show ?case using f mem_release others_kept_procs by simp
next
  case (switch s t w)
  then show ?case using mem_switch by (simp add: config_ok_def current_upd)
qed

lemma vm_run_refines:
  "vm_run c es c' \<Longrightarrow> config_ok c \<Longrightarrow> config_ok c' \<and> mem_run (vmem (fst c)) es (vmem (fst c')) \<and>
     (\<forall>t. (\<forall>e \<in> set es. actor e \<noteq> Some t) \<longrightarrow> procs (fst c') t = procs (fst c) t)"
proof (induction rule: vm_run.induct)
  case (stop c)
  then show ?case using mem_stop by blast
next
  case (more c e c' es c'')
  then show ?case using vm_step_refines [OF more.hyps(1) more.prems] mem_more by fastforce
qed

section \<open>The end of a process\<close>

text \<open>Between its two steps, a process that exits sleeps while others run.\<close>

lemma exit_run:
  assumes ok: "config_ok (s, w)" and up: "user_process s" "w (current s) = None"
  shows "\<exists>s1. page_clear_all s = Some s1 \<and> config_ok (s1, w) \<and> vmem s1 = (vmem s)(current s := (\<lambda>_. None)) \<and>
    (\<forall>f \<in> set (frame_table s1). fr_pagedir f \<noteq> pdir s (current s)) \<and> slots_used s1 = slots_used s \<and>
    (\<forall>es s2 w2. vm_run (s1, w) es (s2, w2) \<longrightarrow> (\<forall>e \<in> set es. actor e \<noteq> Some (current s)) \<longrightarrow> current s2 = current s \<longrightarrow>
       is_kernel_vaddr (init_page_dir (mach s2)) \<longrightarrow>
       (\<exists>s3. process_exit s2 = Some s3 \<and> config_ok (s3, w2) \<and> vmem s3 = vmem s2 \<and> pdir s3 (current s) = 0 \<and>
         in_use (kernel_pool (pal (mach s3))) = in_use (kernel_pool (pal (mach s2))) - pd_pages (mach s2) (pdir s (current s))))"
proof -
  let ?t = "current s"
  obtain s1 pr where s1: "page_clear_all s = Some s1" "current s1 = ?t" "vmem s1 = (vmem s)(?t := (\<lambda>_. None))"
      "procs s1 ?t = Some pr" "spt pr = None" "pagedir pr = pdir s ?t"
      "\<forall>f \<in> set (frame_table s1). fr_pagedir f \<noteq> pdir s ?t" "slots_used s1 = slots_used s"
    using clear_all_ok [OF config_okD(1) [OF ok] up(1)] by blast
  have ok1: "config_ok (s1, w)" using vm_step_refines [OF clear [of s w s1, OF up s1(1)] ok] by simp
  have "pdir s ?t \<noteq> 0" using up(1) udir_pdir by (simp add: user_process_udir)
  then have pd: "pagedir pr \<noteq> 0" using s1(6) by simp
  have "\<exists>s3. process_exit s2 = Some s3 \<and> config_ok (s3, w2) \<and> vmem s3 = vmem s2 \<and> pdir s3 ?t = 0 \<and>
      in_use (kernel_pool (pal (mach s3))) = in_use (kernel_pool (pal (mach s2))) - pd_pages (mach s2) (pdir s ?t)"
    if run: "vm_run (s1, w) es (s2, w2)" "\<forall>e \<in> set es. actor e \<noteq> Some ?t" "current s2 = ?t" "is_kernel_vaddr (init_page_dir (mach s2))" for es s2 w2
  proof -
    have ok2: "config_ok (s2, w2)" and pr: "procs s2 (current s2) = Some pr" using vm_run_refines [OF run(1) ok1] run(2,3) s1(4) by simp_all
    have "pdir s2 (current s2) = pdir s ?t" using pr s1(6) by (simp add: pdir_def)
    then obtain s3 where s3: "process_exit s2 = Some s3" "vmem s3 = vmem s2" "pdir s3 ?t = 0"
        "in_use (kernel_pool (pal (mach s3))) = in_use (kernel_pool (pal (mach s2))) - pd_pages (mach s2) (pdir s ?t)"
      using release_ok [OF config_okD(1) [OF ok2] pr s1(5) pd run(4)] run(3) by auto
    have "config_ok (s3, w2)" using vm_step_refines [OF release [of s2 pr s3 w2, OF pr s1(5) s3(1)] ok2] by simp
    then show ?thesis using s3 by blast
  qed
  then show ?thesis using s1 ok1 by blast
qed

section \<open>A frame given away twice\<close>

lemma frame_install_taken:
  assumes "f \<in> set fs" "fr_kpage f = k" "fr_upage f \<noteq> 0" "distinct (map fr_kpage fs)"
  shows "frame_install_loop k new fs occ = (fs, occ, False)"
  using assms
proof (induction fs)
  case (Cons g gs)
  show ?case
  proof (cases "fr_kpage g = k")
    case True
    then have "g = f" using Cons.prems by (auto simp: image_iff)
    then show ?thesis using Cons.prems(2,3) by simp
  next
    case False
    then show ?thesis using Cons by auto
  qed
qed simp

lemma page_shift: "pg_round_down (pg_round_down a + pg_ofs b) = pg_round_down a" "pg_ofs (pg_round_down a + pg_ofs b) = pg_ofs b"
proof -
  have "unat a div 4096 < 1048576" using u32_unat_bound [of a] by (simp add: less_mult_imp_div_less)
  moreover have "unat b mod 4096 < 4096" by simp
  ultimately have "4096 * (unat a div 4096) + unat b mod 4096 < 4294967296" by linarith
  then have "unat (pg_round_down a) + unat (pg_ofs b) < 2 ^ 32" unfolding unat_pg_round_down unat_pg_ofs by simp
  then have u: "unat (pg_round_down a + pg_ofs b) = 4096 * (unat a div 4096) + unat b mod 4096"
    by (simp add: unat_plus_u32 unat_pg_round_down unat_pg_ofs)
  show "pg_round_down (pg_round_down a + pg_ofs b) = pg_round_down a" "pg_ofs (pg_round_down a + pg_ofs b) = pg_ofs b"
    by (simp_all add: word_unat_eq_iff unat_pg_round_down [of "_ + _"] unat_pg_ofs [of "_ + _"] u) (simp_all add: unat_pg_round_down unat_pg_ofs)
qed

text \<open>The handler loads a page from swap into a frame that another process has got in the meantime.\<close>

lemma resume_taken:
  assumes ok: "vm_ok s" and w: "waits s (current s) fa (Swap_in p)"
    and q: "resides {} s t q v qg" "location qg = IN_FRAME" and t: "t \<noteq> current s"
  shows "\<exists>s' c. resume (Swap_in p) (pg_kpage qg) s = Some (s', Inl c) \<and>
    (\<forall>va. pg_round_down va = v \<longrightarrow> vmem s' t va = vmem s (current s) (pg_round_down fa + pg_ofs va))"
proof -
  note inv = vm_invD [OF conjunct1 [OF ok]]
  let ?t = "current s" and ?pd = "pdir s (current s)" and ?u = "pg_round_down fa" and ?k = "pg_kpage qg"
  obtain pg where p: "(p, ?u) \<in> own s ?t" "vpages s p = Some pg" "location pg = IN_SWAP" using w by (auto simp: waits_def)
  have r: "resides {} s ?t p ?u pg" using p by (simp add: resides_def)
  note rr = residesD [OF inv(2) r] and qq = residesD [OF inv(2) q(1)] and f = frame_page [OF conjunct1 [OF ok] q]
  have u: "is_user_vaddr ?u" "pg_ofs ?u = 0" using rr(7) by (simp_all add: upage_ok_def)
  obtain i where i: "i < TOTAL_PAGES" "fr_kpage (frame_table s ! i) = ?k" "fr_upage (frame_table s ! i) = v" "frame_ok (mach s) (frame_table s ! i)"
    using in_frame [OF conjunct1 [OF ok] q] by metis
  have k: "is_kernel_vaddr ?k" "(unat ?k - 0xc0000000) div 4096 < unat (init_ram_pages (mach s))"
    using i(2,4) frame_okD [OF spacesD(1) [OF inv(1)] i(4)] by (simp_all add: frame_ok_def)
  obtain j where j: "j \<in> slots_used s" "j < slots s" "swap_location pg = of_nat (8 * j)" using page_apart [OF conjunct1 [OF ok] r p(3)] by metis
  have sok: "swap_ok s" using inv(5) by (simp add: swapped_def)
  let ?l = "s\<lparr>frame_lock := True\<rparr>"
  have "swap_ok ?l" "j < slots ?l" using sok j(2) by (simp_all add: swap_ok_def slots_def)
  then obtain d m b where d: "swap_read ?k p ?l = Some (set_page p (pg\<lparr>swap_location := - 1\<rparr>) (set_ram m (set_devs d (?l\<lparr>free_bitmap := Some b\<rparr>))))"
      "agree (- {page_of ?k}) (ram s) m" "page_bytes m ?k = slot_bytes s j"
    using swap_read_ok [of ?l p pg j ?k] p(2) j(3) f(1) k(1) by (auto simp: slot_bytes_def)
  define s1 where "s1 = set_page p (pg\<lparr>swap_location := - 1\<rparr>) (set_ram m (set_devs d (?l\<lparr>free_bitmap := Some b\<rparr>)))\<lparr>frame_lock := False\<rparr>"
  have s1: "procs s1 = procs s" "mach s1 = at_ram (mach s) m" "frame_table s1 = frame_table s" "occupancy s1 = occupancy s"
      "vpages s1 = (vpages s)(p \<mapsto> pg\<lparr>swap_location := - 1\<rparr>)" "current s1 = ?t" "\<not> frame_lock s1"
    using ok by (simp_all add: s1_def set_page_def set_ram_def set_devs_def at_ram_def)
  note dir = dirs_at_ram [OF conjunct1 [OF ok] f(2) d(2) rr(6)]
  have np: "entry (at_ram (mach s) m) ?pd ?u AND PTE_P = 0"
  proof (rule ccontr)
    assume "entry (at_ram (mach s) m) ?pd ?u AND PTE_P \<noteq> 0"
    then obtain q' v' g where a: "resides {} s ?t q' v' g" "same_upage ?u v'" "location g = IN_FRAME"
      using mappedD(3) [OF inv(4) u(1)] dir(3) [OF u(1)] own_udir [OF p(1)] rr(6) by metis
    have "v' = ?u" using a(2) u(2) residesD(7) [OF inv(2) a(1)] same_upage_eq by (simp add: upage_ok_def)
    then show False using resides_unique [OF inv(2) r] a p(3) by auto
  qed
  have get: "pagedir_get_page ?pd ?u (at_ram (mach s) m) = Some 0"
    using pagedir_get_page_entry [OF dir(1) u(1)] np by (simp add: get_by_entry_def)
  have len: "length (frame_table s) = TOTAL_PAGES" "distinct (map fr_kpage (frame_table s))" using inv(3) by (simp_all add: frames_ok_def)
  have v: "v \<noteq> 0" using qq(7) by (simp add: upage_ok_def)
  have loop: "frame_install_loop ?k new (frame_table s) occ = (frame_table s, occ, False)" for new occ
    using frame_install_taken [of "frame_table s ! i" "frame_table s" ?k] i(1-3) len v by simp
  obtain pr where pr: "procs s ?t = Some pr" "pagedir pr = ?pd" using own_proc [OF p(1)] by (auto simp: pdir_def)
  have same: "s1\<lparr>mach := at_ram (mach s) m, frame_lock := False\<rparr> = s1" using s1(2,7) by (cases s1) simp
  note defs = page_install_to_frame_def frame_install_def install_page_def frame_lock_acquire_def frame_lock_release_def
  obtain s' c where s': "page_install_to_frame p ?u ?k ?pd s1 = Some (s', Inl c)" "procs s' = procs s1" "vpages s' = vpages s1"
      "page_bytes (ram s') ?k = page_bytes m ?k"
  proof (cases "table (at_ram (mach s) m) ?pd (pd_no ?u) = None \<and> kernel_full (at_ram (mach s) m)")
    case True
    then have "pagedir_set_page ?pd ?u ?k (pg_writable pg) (at_ram (mach s) m) = Some (at_ram (mach s) m, False)"
      using pagedir_set_page_entry [OF dir(1) u f(1) k(1) _ np, of "pg_writable pg"] k(2) by simp
    then have "page_install_to_frame p ?u ?k ?pd s1 = do { s \<leftarrow> frame_free ?k s1; Some (s, Inl (- 532)) }"
      using s1 pr get p(2) by (simp add: defs same)
    moreover obtain fs occ where "frame_free ?k s1 = Some (s1\<lparr>frame_table := fs, occupancy := occ, frame_lock := False\<rparr>)"
      using s1(3,4,7) len(1) by (cases "frame_free_loop ?k (frame_table s) (occupancy s)") (auto simp: frame_free_def frame_lock_acquire_def frame_lock_release_def)
    ultimately show ?thesis using that [of "s1\<lparr>frame_table := fs, occupancy := occ, frame_lock := False\<rparr>"] s1(2) by simp
  next
    case False
    then obtain m' where m': "pagedir_set_page ?pd ?u ?k (pg_writable pg) (at_ram (mach s) m) = Some (m', True)"
      using pagedir_set_page_entry [OF dir(1) u f(1) k(1) _ np, of "pg_writable pg"] k(2) by auto
    have to: "touches (at_ram (mach s) m) ?pd m'" using pagedir_set_page_touches [OF dir(1) m'] .
    have "page_install_to_frame p ?u ?k ?pd s1 = Some (s1\<lparr>mach := m'\<rparr>, Inl (- 1))"
      using s1 pr get m' loop p(2) len(1) by (simp add: defs)
    moreover have "page_bytes (mem (pal m')) ?k = page_bytes m ?k"
      using frame_bytes_touch [OF to, of "frame_table s ! i"] spacesD(1) [OF inv(1)] i(2,4) by (simp add: frame_ok_def)
    ultimately show ?thesis using that [of "s1\<lparr>mach := m'\<rparr>"] by simp
  qed
  have run: "page_swap_in p ?k s = Some (s', Inl c)"
    using ok d(1) rr(4,5) s'(1) by (simp add: page_swap_in_def frame_lock_acquire_def frame_lock_release_def s1_def set_page_def set_ram_def set_devs_def)
  have bytes: "page_bytes (ram s') ?k = slot_bytes s j" using s'(4) d(3) by simp
  have "vmem s' t va = vmem s ?t (?u + pg_ofs va)" if "pg_round_down va = v" for va
  proof -
    obtain pr' h where h: "procs s t = Some pr'" "spt pr' = Some h" using own_proc [OF qq(1)] by blast
    have "q \<noteq> p" using resides_page [OF inv(2) r] q(1) t by blast
    then have "vmem s' t va = Some (page_content s' qg ! unat (pg_ofs va))"
      using find_some [OF inv(2) h qq(1)] h qq(3) s1(1,5) s'(2,3) that by (simp add: vmem_def)
    moreover have "pg_round_down (?u + pg_ofs va) = ?u" "pg_ofs (?u + pg_ofs va) = pg_ofs va"
      by (simp_all add: page_shift)
    then have "vmem s ?t (?u + pg_ofs va) = Some (page_content s pg ! unat (pg_ofs va))" using vmem_some [OF inv(2), of ?t p "?u + pg_ofs va" pg] r by simp
    moreover have "page_content s' qg = page_content s pg"
      using bytes q(2) p(3) slot_of_page [OF sok j(2,3)] by (simp add: page_content_def)
    ultimately show ?thesis by simp
  qed
  then show ?thesis using run by auto
qed

text \<open>Two processes that find a frame one after the other find the same one.\<close>

lemma race:
  assumes ok: "vm_ok s" and up: "user_process s" and rs: "resources s" and fa: "is_user_vaddr fa" "4096 \<le> unat fa"
    and n: "fault_need fa f_esp user s = Some n" and b: "waits s b fb (Swap_in p)" "b \<noteq> current s"
  shows "\<exists>s1 k s2 s3 c. frame_find_empty s = Some (s1, k) \<and> frame_find_empty (s1\<lparr>current := b\<rparr>) = Some (s1\<lparr>current := b\<rparr>, k) \<and>
    resume n k s1 = Some (s2, Inr ()) \<and> resume (Swap_in p) k (s2\<lparr>current := b\<rparr>) = Some (s3, Inl c) \<and>
    (\<forall>va. pg_round_down va = pg_round_down fa \<longrightarrow> vmem s3 (current s) va = vmem s b (pg_round_down fb + pg_ofs va))"
proof -
  have r: "room s" "spare s" "memory (vfs s)" using rs by (simp_all add: resources_def)
  obtain s1 k where s1: "frame_find_empty s = Some (s1, k)" "vm_ok s1" "quiet s s1" "free_frame s1 k" "first_free s1 k"
    using frame_find_empty_first [OF ok] r(1) unfolding room_def by blast
  note q = quietD [OF s1(3)]
  have v1: "vmem s1 = vmem s" using find_mem [OF ok r(1)] s1(1) by (metis option.inject prod.inject)
  have "udir s (current s) \<noteq> 0" using up by (simp add: user_process_udir)
  then have w: "waits s1 (current s1) fa n" using waits_quiet [OF need_waits [OF ok _ fa n] s1(3)] q(2) by simp
  obtain s2 x where s2: "resume n k s1 = Some (s2, Inr ())" "vm_ok s2" "others_kept s1 s2" "present s2 (current s1) (pg_round_down fa) k x"
      "grown (current s1) fa (vmem s1) (vmem s2)"
    using resume_mem [OF s1(2) w s1(4)] r(2,3) q(5,6) by blast
  let ?s = "s2\<lparr>current := b\<rparr>"
  obtain a g where a: "resides {} s2 (current s1) a (pg_round_down fa) g" "location g = IN_FRAME" "pg_kpage g = k"
    using s2(4) unfolding present_def by blast
  have "own ?s = own s2" by (rule procs_cong(2)) simp
  then have a': "resides {} ?s (current s1) a (pg_round_down fa) g" using a(1) by (simp add: resides_def)
  have b1: "b \<noteq> current s1" using b(2) q(2) by simp
  have wb: "waits ?s (current ?s) fb (Swap_in p)"
    using waits_kept [OF waits_quiet [OF b(1) s1(3)] s2(3) b1] by (simp add: current_upd)
  have okb: "vm_ok ?s" using s2(2) by (simp add: current_upd)
  have vb: "vmem s2 b = vmem s b" using s2(5) b1 v1 unfolding grown_def by auto
  obtain s3 c where "resume (Swap_in p) k ?s = Some (s3, Inl c)"
      "\<forall>va. pg_round_down va = pg_round_down fa \<longrightarrow> vmem s3 (current s1) va = vmem ?s (current ?s) (pg_round_down fb + pg_ofs va)"
    using resume_taken [OF okb wb a' a(2)] b1 a(3) by auto
  then show ?thesis using s1(1) s2(1) frame_find_empty_again [OF s1(2,5), of b] q(2) vb by (auto simp: current_upd)
qed

end
