(* ===== verification/Vm_Run.thy ===== *)
theory Vm_Run
  imports Vm_Boot Vm_Steps
begin

text \<open>
  The theorems on virtual memory, with a system of two processes as an example: a page of one is
  in a file, a page of the other in swap.
\<close>

section \<open>An example\<close>

definition one_page :: "nat \<Rightarrow> page_ref hash" where
  "one_page p = (case hash_insert True (fst (hash_init True page_hash page_less)) (p, 0x08048000) of
     Some (h, _) \<Rightarrow> h | None \<Rightarrow> fst (hash_init True page_hash page_less))"

definition example_vm :: vm where
  "example_vm =
     \<lparr>mach = \<lparr>pal = \<lparr>kernel_pool = \<lparr>used_map = \<lparr>bit_cnt = 4, bits = [3]\<rparr>, base = 0xc0100000\<rparr>,
          user_pool = \<lparr>used_map = \<lparr>bit_cnt = 367, bits = replicate 12 (- 1)\<rparr>, base = 0xc0200000\<rparr>, mem = (\<lambda>_. 0)\<rparr>,
        init_page_dir = 0xc0001000, init_ram_pages = 1024, cr3 = 0x1000\<rparr>,
      vfs = \<lparr>devs = \<lparr>all_blocks =
            [\<lparr>bname = ''hda'', btype = BLOCK_FILESYS, bsize = 64, ops = DiskOps 0, read_cnt = 0, write_cnt = 0\<rparr>,
             \<lparr>bname = ''hdb'', btype = BLOCK_SWAP, bsize = 24, ops = DiskOps 1, read_cnt = 0, write_cnt = 0\<rparr>],
          block_by_role = (\<lambda>_. None)(BLOCK_FILESYS := Some 0, BLOCK_SWAP := Some 1), disks = (\<lambda>_ t. replicate 512 (ucast t))\<rparr>,
        fs_device = 0,
        inodes = [2 \<mapsto> \<lparr>isector = 4, open_cnt = 1, removed = False, deny_write_cnt = 0, data = \<lparr>start = 5, dlength = 600, magic = INODE_MAGIC\<rparr>\<rparr>],
        open_inodes = [2], files = [3 \<mapsto> \<lparr>finode = 2, pos = 0, deny_write = False\<rparr>], free_map = \<lparr>bit_cnt = 0, bits = []\<rparr>,
        free_map_file = None, malloc_ok = (\<lambda>_. True), next_addr = 10\<rparr>,
      swap_block = 1, free_bitmap = Some \<lparr>bit_cnt = 3, bits = [1]\<rparr>,
      vpages = [8 \<mapsto> \<lparr>pg_upage = 0x08048000, pg_kpage = 0, pg_file = Some 3, pg_writable = True, page_read_bytes = 600,
            page_zero_bytes = 3496, location = IN_FILESYS, swap_location = - 1, pg_offset = 0, pg_pagedir = 0xc0100000\<rparr>,
          9 \<mapsto> \<lparr>pg_upage = 0x08048000, pg_kpage = 0, pg_file = None, pg_writable = True, page_read_bytes = 0,
            page_zero_bytes = 0, location = IN_SWAP, swap_location = 0, pg_offset = 0, pg_pagedir = 0xc0101000\<rparr>],
      frame_table = map (\<lambda>i. \<lparr>fr_kpage = 0xc0200000 + of_nat (4096 * i), fr_upage = 0, fr_pagedir = 0, fr_page = None\<rparr>) [0 ..< 367],
      occupancy = 0, clock_pointer = 25, frame_lock = False,
      procs = [0 \<mapsto> \<lparr>spt = Some (one_page 8), pagedir = 0xc0100000, esp = 0xbffff000\<rparr>,
          1 \<mapsto> \<lparr>spt = Some (one_page 9), pagedir = 0xc0101000, esp = 0xbffff000\<rparr>],
      current = 0\<rparr>"

lemma one_page: "wf_hash page_hash page_less (one_page p)" "elems (one_page p) = {(p, 0x08048000)}"
proof -
  define h where "h = fst (hash_init True page_hash page_less)"
  have h: "hash_room page_hash page_less (Suc 0) h" "elems h = {}" unfolding h_def using hash_init_room [of "Suc 0" page_hash page_less] by simp_all
  obtain h' r where r: "hash_insert True h (p, 0x08048000) = Some (h', r)" "hash_room page_hash page_less 0 h'"
      "answer page_table.eqv (elems h) (p, 0x08048000) r" "elems h' = new_content (Insert (p, 0x08048000)) r (elems h)"
    using page_table.hash_insert_request [OF h(1), of True "(p, 0x08048000)"] by blast
  have "r = None" using r(3) h(2) by (auto simp: answer_def split: option.splits)
  moreover have "one_page p = h'" using r(1) by (simp add: one_page_def h_def)
  ultimately show "wf_hash page_hash page_less (one_page p)" "elems (one_page p) = {(p, 0x08048000)}"
    using r(2,4) h(2) by (simp_all add: hash_room_def)
qed

lemma example_procs: "pdir example_vm t = (if t = 0 then 0xc0100000 else if t = 1 then 0xc0101000 else 0)"
    "Vm_Inv.own example_vm t = (if t = 0 then {(8, 0x08048000)} else if t = 1 then {(9, 0x08048000)} else {})"
  by (simp_all add: pdir_def own_def example_vm_def one_page)

lemma example_pools: "palloc_ok (pal (mach example_vm))" "in_use (kernel_pool (pal (mach example_vm))) = {0xc0100, 0xc0101}"
    "in_use (user_pool (pal (mach example_vm))) = {0xc0200 ..< 0xc0200 + 367}"
proof -
  show "palloc_ok (pal (mach example_vm))" by (simp add: palloc_ok_def pool_ok_def wf_bitmap_def example_vm_def)
  have "bm \<lparr>bit_cnt = 4, bits = [3]\<rparr> = [True, True, False, False]" by code_simp
  moreover have "marked \<lparr>bit_cnt = 4, bits = [3]\<rparr> = set (filter (\<lambda>j. bm \<lparr>bit_cnt = 4, bits = [3]\<rparr> ! j) [0 ..< 4])" by (auto simp: marked_def)
  ultimately have "marked \<lparr>bit_cnt = 4, bits = [3]\<rparr> = {0, 1}" by (simp add: upt_rec)
  then show "in_use (kernel_pool (pal (mach example_vm))) = {0xc0100, 0xc0101}" by (auto simp: in_use_def first_page_def example_vm_def)
  have "bit (replicate 12 (- 1 :: u32) ! (j div 32)) (j mod 32)" if "j < 367" for j
  proof -
    have "j div 32 < 12" "j mod 32 < 32" using that by auto
    then show ?thesis by (simp add: bit_minus_1_iff)
  qed
  then have "marked \<lparr>bit_cnt = 367, bits = replicate 12 (- 1)\<rparr> = {..< 367}" by (auto simp: marked_def bm_def)
  then have "in_use (user_pool (pal (mach example_vm))) = (\<lambda>j. 0xc0200 + j) ` {..< 367}" by (simp add: in_use_def first_page_def example_vm_def)
  then show "in_use (user_pool (pal (mach example_vm))) = {0xc0200 ..< 0xc0200 + 367}"
    using image_add_atLeastLessThan [of "0xc0200 :: nat" 0 367] by (simp add: lessThan_atLeast0)
qed

lemma example_dirs:
  assumes "pd = 0xc0100000 \<or> pd = 0xc0101000"
  shows "wf_pd (mach example_vm) pd" "pd_pages (mach example_vm) pd = {page_of pd}" "entry (mach example_vm) pd va = 0"
proof -
  have t: "slot (mach example_vm) pd i = 0" "table (mach example_vm) pd i = None" for i by (simp_all add: slot_def table_def example_vm_def)
  have "kernel_page (mach example_vm) pd"
    using assms unfolding kernel_page_def example_pools(2) by (elim disjE) (simp_all add: pg_ofs_0 is_kernel_vaddr_def PHYS_BASE_def page_of_def)
  moreover have "pd \<noteq> init_page_dir (mach example_vm)" "\<exists>a. ptov (cr3 (mach example_vm)) = Some a"
    using assms by (auto simp: example_vm_def ptov_def PHYS_BASE_def)
  ultimately show "wf_pd (mach example_vm) pd" using example_pools(1) t by (simp add: wf_pd_def)
  show "pd_pages (mach example_vm) pd = {page_of pd}" using t by (simp add: pd_pages_def)
  show "entry (mach example_vm) pd va = 0" using t by (simp add: entry_def)
qed

lemma example_frames:
  assumes "i < 367"
  shows "unat (0xc0200000 + of_nat (4096 * i) :: u32) = 0xc0200000 + 4096 * i"
proof -
  have "unat (of_nat (4096 * i) :: u32) = 4096 * i" using assms by (simp only: unat_of_nat) simp
  then show ?thesis using assms by (subst unat_plus_u32) simp_all
qed

lemma example_devices: "devices_ok (vdevs example_vm)" "slots_used example_vm = {0}"
proof -
  show "devices_ok (vdevs example_vm)" by (auto simp: devices_ok_def block_ok_def example_vm_def less_Suc_eq)
  have "bm \<lparr>bit_cnt = 3, bits = [1]\<rparr> = [True, False, False]" by code_simp
  moreover have "slots_used example_vm = set (filter (\<lambda>j. bm \<lparr>bit_cnt = 3, bits = [1]\<rparr> ! j) [0 ..< 3])"
    by (auto simp: slots_used_def marked_def example_vm_def)
  ultimately show "slots_used example_vm = {0}" by (simp add: upt_rec)
qed

lemma example_vm_ok: "vm_ok example_vm"
proof -
  have "spaces example_vm"
    unfolding spaces_def using example_pools(1) example_dirs by (auto simp: example_procs page_of_def)
  moreover have "owners example_vm"
    unfolding owners_def by (auto simp: example_procs upage_ok_def pg_ofs_0 is_user_vaddr_def PHYS_BASE_def split: if_splits)
      (auto simp: example_vm_def one_page split: if_splits)
  moreover have "frames_ok {} example_vm"
  proof -
    have "frame_ok (mach example_vm) f \<and> idle f" if a: "f \<in> set (frame_table example_vm)" for f
    proof -
      obtain i where i: "i < 367" "f = \<lparr>fr_kpage = 0xc0200000 + of_nat (4096 * i), fr_upage = 0, fr_pagedir = 0, fr_page = None\<rparr>"
        using a by (auto simp: example_vm_def)
      have "page_of (fr_kpage f) = 0xc0200 + i" "unat (fr_kpage f) = 0xc0200000 + 4096 * i" using example_frames [OF i(1)] i(2) by (simp_all add: page_of_def)
      then show ?thesis using i example_pools(3) by (simp add: frame_ok_def idle_def pg_ofs_0 example_vm_def)
    qed
    moreover have "distinct (map fr_kpage (frame_table example_vm))"
    proof -
      have "inj_on (\<lambda>i. 0xc0200000 + of_nat (4096 * i) :: u32) {0 ..< 367}"
        using example_frames by (intro inj_onI) (metis add_left_cancel atLeastLessThan_iff mult_left_cancel zero_neq_numeral)
      then show ?thesis by (simp add: example_vm_def distinct_map comp_def)
    qed
    ultimately show ?thesis by (auto simp: frames_ok_def TOTAL_PAGES_def) (simp_all add: example_vm_def filter_map comp_def)
  qed
  moreover have "mapped {} example_vm"
  proof -
    have "entry (mach example_vm) (pdir example_vm t) va = 0" if "udir example_vm t \<noteq> 0" for t va
      using udir_pdir [OF that] example_dirs(3) by (auto simp: example_procs split: if_splits)
    moreover have "location pg \<noteq> IN_FRAME" if "resides {} example_vm t p u pg" for t p u pg
      using that unfolding resides_def example_procs by (auto simp: example_vm_def split: if_splits)
    ultimately show ?thesis unfolding mapped_def by auto
  qed
  moreover have "swapped {} example_vm"
  proof -
    have "swap_ok example_vm"
      using example_devices(1) by (simp add: swap_ok_def device_ready_def) (simp add: example_vm_def wf_bitmap_def sector_of_def place.simps)
    then show ?thesis unfolding swapped_def resides_def example_procs example_devices(2) by (auto simp: example_vm_def split: if_splits)
  qed
  moreover have "filed {} example_vm"
  proof -
    have "disk_ok (vfs example_vm)"
      using example_devices(1) by (simp add: disk_ok_def device_ready_def) (simp add: example_vm_def fs_size_def sect_def sector_of_def place.simps)
    moreover have "apart (vdevs example_vm) (swap_block example_vm) (fs_device (vfs example_vm))" by (simp add: apart_def example_vm_def place.simps)
    ultimately show ?thesis
      unfolding filed_def resides_def example_procs
      by (auto simp: file_page_def data_ok_def nsect_def fs_size_def example_vm_def split: if_splits)
  qed
  ultimately show ?thesis by (simp add: vm_inv_def) (simp add: example_vm_def)
qed


lemma example_ready: "user_process example_vm" "resources example_vm"
proof -
  show "user_process example_vm" by (simp add: user_process_def example_vm_def)
  have "frame_table example_vm ! 0 = \<lparr>fr_kpage = 0xc0200000, fr_upage = 0, fr_pagedir = 0, fr_page = None\<rparr>" by (simp add: example_vm_def)
  then have "room example_vm" unfolding room_def by (intro disjI1 exI [of _ 0]) (simp add: TOTAL_PAGES_def)
  moreover have "0xc0103 \<in> pool_range (kernel_pool (pal (mach example_vm)))" by (simp add: pool_range_def first_page_def example_vm_def)
  then have "spare example_vm" unfolding spare_def example_pools(2) by auto
  moreover have "memory (vfs example_vm)" by (simp add: memory_def example_vm_def)
  ultimately show "resources example_vm" by (simp add: resources_def)
qed

lemma example_page:
  "resides {} example_vm 0 8 (pg_round_down 0x08048123) (the (vpages example_vm 8))"
  "resides {} example_vm 1 9 (pg_round_down 0x08048123) (the (vpages example_vm 9))"
  "writable_at example_vm (current example_vm) 0x08048123" "vmem example_vm (current example_vm) 0x08048123 \<noteq> None"
proof -
  have r: "pg_round_down 0x08048123 = 0x08048000" by code_simp
  show p: "resides {} example_vm 0 8 (pg_round_down 0x08048123) (the (vpages example_vm 8))"
      "resides {} example_vm 1 9 (pg_round_down 0x08048123) (the (vpages example_vm 9))"
    unfolding r by (simp_all add: resides_def example_procs) (simp_all add: example_vm_def)
  have c: "current example_vm = 0" by (simp add: example_vm_def)
  have "pg_writable (the (vpages example_vm 8))" by (simp add: example_vm_def)
  then show "writable_at example_vm (current example_vm) 0x08048123" using p(1) c unfolding writable_at_def by auto
  show "vmem example_vm (current example_vm) 0x08048123 \<noteq> None"
    using vmem_some [OF vm_invD(2) [OF conjunct1 [OF example_vm_ok]] p(1)] c by simp
qed

lemma example_expected: "expected example_vm 4 0x08048123 0"
  using example_page(4) by (simp add: expected_def)

lemma example_bytes: "vmem example_vm 0 0x08048123 = Some 5" "vmem example_vm 1 0x08048123 = Some 0"
proof -
  note ow = vm_invD(2) [OF conjunct1 [OF example_vm_ok]]
  have o: "unat (pg_ofs 0x08048123) = 291" by code_simp
  have "page_content example_vm (the (vpages example_vm 8)) ! 291 = 5"
    by (simp add: page_content_def file_bytes_def content_def data_byte_def example_vm_def nth_append fs_size_def sect_def sector_of_def place.simps)
  then show "vmem example_vm 0 0x08048123 = Some 5" using vmem_some [OF ow example_page(1)] o by simp
  have "page_content example_vm (the (vpages example_vm 9)) = slot_bytes example_vm 0" by (simp add: page_content_def example_vm_def)
  moreover have "sector_of (vdevs example_vm) (swap_block example_vm) 0 = replicate 512 0" by (simp add: example_vm_def sector_of_def place.simps)
  then have "slot_bytes example_vm 0 ! 291 = 0" by (simp add: slot_bytes_def upt_conv_Cons nth_append)
  ultimately have "page_content example_vm (the (vpages example_vm 9)) ! 291 = 0" by simp
  then show "vmem example_vm 1 0x08048123 = Some 0" using vmem_some [OF ow example_page(2)] o by simp
qed

lemma example_need: "fault_need 0x08048123 0 True example_vm = Some (Read_in 8)" "waits example_vm 1 0x08048123 (Swap_in 9)"
proof -
  note ow = vm_invD(2) [OF conjunct1 [OF example_vm_ok]]
  obtain pr h where h: "procs example_vm 0 = Some pr" "spt pr = Some h" by (simp add: example_vm_def)
  have "hash_find h (0, pg_round_down 0x08048123) = Some (Some (8, pg_round_down 0x08048123))"
    using find_some [OF ow h] example_page(1) by (simp add: resides_def)
  moreover have "current example_vm = 0" "map_option location (vpages example_vm 8) = Some IN_FILESYS" by (simp_all add: example_vm_def)
  ultimately show "fault_need 0x08048123 0 True example_vm = Some (Read_in 8)" using h by (auto simp: fault_need_def)
  have "(9, pg_round_down 0x08048123) \<in> Vm_Inv.own example_vm 1" using example_page(2) by (simp add: resides_def)
  moreover have "udir example_vm 1 \<noteq> 0" "location (the (vpages example_vm 9)) = IN_SWAP" "vpages example_vm 9 \<noteq> None"
    by (simp_all add: udir_def) (simp_all add: example_vm_def)
  ultimately show "waits example_vm 1 0x08048123 (Swap_in 9)" by (auto simp: waits_def is_user_vaddr_def PHYS_BASE_def)
qed

lemma example_config: "config_ok (example_vm, \<lambda>_. None)"
  using example_vm_ok by (simp add: config_ok_def)

lemma example_run:
  "\<exists>b s'. vm_run (example_vm, \<lambda>_. None) [Fault 0 0x08048123, Switch 1, Switch 0, Resolve 0 0x08048123, Load 0 0x08048123 b] (s', \<lambda>_. None)"
proof -
  let ?w = "\<lambda>_ :: nat. None :: (u32 \<times> need \<times> u32) option"
  have c: "current example_vm = 0" by (simp add: example_vm_def)
  have r: "room example_vm" "spare example_vm" "memory (vfs example_vm)" using example_ready(2) by (simp_all add: resources_def)
  have fa: "is_user_vaddr 0x08048123" by (simp add: is_user_vaddr_def PHYS_BASE_def)
  obtain s1 k where s1: "frame_find_empty example_vm = Some (s1, k)" "vm_ok s1" "quiet example_vm s1" "free_frame s1 k"
    using find_mem [OF example_vm_ok r(1)] by blast
  note q = quietD [OF s1(3)]
  have 1: "vm_step (example_vm, ?w) (Fault 0 0x08048123) (s1, ?w(0 \<mapsto> (0x08048123, Read_in 8, k)))"
    using fault [of example_vm ?w, OF example_ready(1) _ fa _ r(1) example_need(1) s1(1)] c by simp
  have "procs s1 1 \<noteq> None" "procs s1 0 \<noteq> None" by (simp_all add: q(1)) (simp_all add: example_vm_def)
  then have 2: "vm_step (s1, w) (Switch 1) (s1\<lparr>current := 1\<rparr>, w)" and 3: "vm_step (s1\<lparr>current := 1\<rparr>, w) (Switch 0) (s1\<lparr>current := 0\<rparr>, w)" for w
    using switch [of s1 1 w] switch [of "s1\<lparr>current := 1\<rparr>" 0 w] by simp_all
  have same: "s1\<lparr>current := 0\<rparr> = s1" using q(2) c by simp
  have "udir example_vm (current example_vm) \<noteq> 0" using example_ready(1) by (simp add: user_process_udir)
  then have "waits s1 (current s1) 0x08048123 (Read_in 8)"
    using waits_quiet [OF need_waits [OF example_vm_ok _ fa _ example_need(1)] s1(3)] q(2) by simp
  from resume_mem [OF s1(2) this s1(4)] r(2,3) q(5,6)
  obtain s2 s3 b x where s2: "resume (Read_in 8) k s1 = Some (s2, Inr ())" "current s2 = current s1" "vm_ok s2"
      "user_load 0x08048123 s2 = Some (s3, b)" "present s2 (current s1) (pg_round_down 0x08048123) k x"
    by blast
  have 4: "vm_step (s1\<lparr>current := 0\<rparr>, ?w(0 \<mapsto> (0x08048123, Read_in 8, k))) (Resolve 0 0x08048123) (s2, ?w)"
    using resolve [of "?w(0 \<mapsto> (0x08048123, Read_in 8, k))" s1 "0x08048123" "Read_in 8" k s2 "Inr ()"] s1(4) s2(1) r(2,3) q(2,5,6) c
    unfolding same by (simp add: fun_upd_idem)
  have "user_process s2"
  proof -
    obtain a g where a: "resides {} s2 (current s2) a (pg_round_down 0x08048123) g" using s2(2,5) unfolding present_def by auto
    note rd = residesD [OF vm_invD(2) [OF conjunct1 [OF s2(3)]] a]
    show ?thesis using own_udir [OF rd(1)] rd(6) by (simp add: user_process_udir)
  qed
  then have 5: "vm_step (s2, ?w) (Load 0 0x08048123 b) (s3, ?w)" using load [of s2 ?w, OF _ _ s2(4)] s2(2) q(2) c by simp
  show ?thesis using vm_run.more [OF 1 vm_run.more [OF 2 vm_run.more [OF 3 vm_run.more [OF 4 vm_run.more [OF 5 vm_run.stop]]]]] by blast
qed

text \<open>The same machine before the frame table exists.\<close>

definition example_boot :: vm where
  "example_boot = example_vm\<lparr>mach := \<lparr>pal = \<lparr>kernel_pool = \<lparr>used_map = \<lparr>bit_cnt = 4, bits = [0]\<rparr>, base = 0xc0100000\<rparr>,
        user_pool = \<lparr>used_map = \<lparr>bit_cnt = 367, bits = replicate 12 0\<rparr>, base = 0xc0200000\<rparr>, mem = (\<lambda>_. 0)\<rparr>,
      init_page_dir = 0xc0001000, init_ram_pages = 1024, cr3 = 0x1000\<rparr>,
    free_bitmap := None, frame_table := [], procs := (\<lambda>_. None), vpages := (\<lambda>_. None)\<rparr>"

lemma example_boot_ready: "boot_ready example_boot" "devices_found (vfs example_vm)"
proof -
  have d: "vdevs example_boot = vdevs example_vm" "vfs example_boot = vfs example_vm" by (simp_all add: example_boot_def)
  have "bit (replicate 12 (0 :: u32) ! (j div 32)) (j mod 32) = False" if "j < 367" for j using that by simp
  then have "marked \<lparr>bit_cnt = 367, bits = replicate 12 0\<rparr> = {}" by (auto simp: marked_def bm_def)
  then have u: "in_use (user_pool (pal (mach example_boot))) = {}" "pool_range (user_pool (pal (mach example_boot))) = {0xc0200 ..< 0xc0200 + 367}"
    by (simp_all add: in_use_def pool_range_def first_page_def example_boot_def)
  have m: "memory (vfs example_vm)" using example_ready(2) by (simp add: resources_def)
  have "device_ready 1 24 (vdevs example_vm)" using example_devices(1) by (simp add: device_ready_def) (simp add: example_vm_def)
  moreover have "\<forall>t < 24. length (sector_of (vdevs example_vm) 1 t) = 512" by (simp add: example_vm_def sector_of_def place.simps)
  moreover have "block_by_role (vdevs example_vm) BLOCK_SWAP = Some 1" "swap_block example_vm = 1" by (simp_all add: example_vm_def)
  moreover have "disk_ok (vfs example_vm)" "apart (vdevs example_vm) (swap_block example_vm) (fs_device (vfs example_vm))"
    using vm_invD(6) [OF conjunct1 [OF example_vm_ok]] by (simp_all add: filed_def)
  ultimately show "devices_found (vfs example_vm)" using m by (auto simp: devices_found_def)
  have "palloc_ok (pal (mach example_boot))" by (simp add: palloc_ok_def pool_ok_def wf_bitmap_def example_boot_def)
  then show "boot_ready example_boot"
    unfolding boot_ready_def d u using m by (auto simp: TOTAL_PAGES_def) (simp_all add: example_boot_def)
qed

section \<open>Theorems\<close>

text \<open>C14: finding a frame. When a frame or a swap slot is free, \<open>frame_find_empty\<close> returns: it gives a
  frame that holds no page, evicting one with the clock algorithm if it must, and no byte of any page of
  any process changes.\<close>

theorem frame_find_empty_correct:
  assumes "vm_ok s" "room s"
  shows "\<exists>s' k. frame_find_empty s = Some (s', k) \<and> vm_ok s' \<and> free_frame s' k \<and> vmem s' = vmem s"
proof -
  obtain s' k where s': "frame_find_empty s = Some (s', k)" "vm_ok s'" "quiet s s'" "free_frame s' k"
    using frame_find_empty_ok [OF assms(1)] assms(2) unfolding room_def by blast
  have "vmem s' = vmem s"
    using vmem_cong [OF vm_invD(2) [OF conjunct1 [OF assms(1)]] vm_invD(2) [OF conjunct1 [OF s'(2)]]] quietD(8) [OF s'(3)] by (intro ext) blast
  then show ?thesis using s' by blast
qed

theorem frame_find_empty_correct_witness:
  "frame_find_empty example_vm = Some (example_vm, 0xc0200000) \<and> vm_ok example_vm \<and> free_frame example_vm 0xc0200000"
proof -
  have "find (\<lambda>f. fr_upage f = 0) (frame_table example_vm) = Some \<lparr>fr_kpage = 0xc0200000, fr_upage = 0, fr_pagedir = 0, fr_page = None\<rparr>"
    using upt_conv_Cons [of 0 367] by (simp add: example_vm_def)
  moreover have "length (frame_table example_vm) = TOTAL_PAGES" "occupancy example_vm = 0" "\<not> frame_lock example_vm"
    by (simp_all add: example_vm_def TOTAL_PAGES_def)
  moreover have "example_vm\<lparr>frame_lock := False\<rparr> = example_vm" by (simp add: example_vm_def)
  ultimately have "frame_find_empty example_vm = Some (example_vm, 0xc0200000)"
    by (simp add: frame_find_empty_def frame_lock_acquire_def frame_lock_release_def TOTAL_PAGES_def)
  moreover have "room example_vm" using example_ready(2) by (simp add: resources_def)
  ultimately show ?thesis using frame_find_empty_correct [OF example_vm_ok] by auto
qed

text \<open>C12: page faults are resolved. A process faults on a page it has, in swap or in a file, or at most 32 bytes
  below its stack pointer, at a user address outside page 0. There is a free frame or a free swap
  slot, a free kernel page for a page table, and \<open>malloc\<close> succeeds; no other process runs during the
  handler. Then the handler returns; the address can be read, and written if its page is
  writable or new; no byte of any process has changed, and no address outside the page of the fault
  has become accessible.\<close>

theorem page_fault_resolves:
  assumes "vm_ok s" "user_process s" "resources s" "is_user_vaddr fa" "4096 \<le> unat fa" "error_code AND PF_P = 0"
    "expected s error_code fa f_esp"
  shows "\<exists>s' s'' b. page_fault error_code fa f_esp s = Some (s', Inr ()) \<and> vm_ok s' \<and> current s' = current s \<and>
    grown (current s) fa (vmem s) (vmem s') \<and> user_load fa s' = Some (s'', b) \<and> (vmem s (current s) fa \<noteq> None \<longrightarrow> vmem s' = vmem s) \<and>
    (writable_at s (current s) fa \<or> vmem s (current s) fa = None \<longrightarrow> (\<forall>c. user_store fa c s' \<noteq> None))"
  by (rule fault_resolved [OF assms])

theorem page_fault_resolves_witness:
  "\<exists>s' s'' b. page_fault 4 0x08048123 0 example_vm = Some (s', Inr ()) \<and> vm_ok s' \<and> vmem s' = vmem example_vm \<and>
    user_load 0x08048123 s' = Some (s'', b) \<and> (\<forall>c. user_store 0x08048123 c s' \<noteq> None)"
proof -
  have "\<exists>s' s'' b. page_fault 4 0x08048123 0 example_vm = Some (s', Inr ()) \<and> vm_ok s' \<and> current s' = current example_vm \<and>
    grown (current example_vm) 0x08048123 (vmem example_vm) (vmem s') \<and> user_load 0x08048123 s' = Some (s'', b) \<and>
    (vmem example_vm (current example_vm) 0x08048123 \<noteq> None \<longrightarrow> vmem s' = vmem example_vm) \<and>
    (writable_at example_vm (current example_vm) 0x08048123 \<or> vmem example_vm (current example_vm) 0x08048123 = None \<longrightarrow>
      (\<forall>c. user_store 0x08048123 c s' \<noteq> None))"
    by (rule page_fault_resolves [OF example_vm_ok example_ready _ _ _ example_expected])
      (simp_all add: is_user_vaddr_def PHYS_BASE_def PF_P_def)
  then show ?thesis using example_page(3,4) by blast
qed

text \<open>C21: wild accesses end the process. A fault at address 0, at a kernel address, on a page that may not
  be written, or outside the memory and the stack of the process, ends the process with status -1 and
  changes nothing else.\<close>

theorem page_fault_refuses:
  assumes "vm_ok s" "user_process s"
    "\<not> expected s error_code fa f_esp \<or> error_code AND PF_P \<noteq> 0 \<or> fa = 0 \<or> is_kernel_vaddr fa"
  shows "page_fault error_code fa f_esp s = Some (s, Inl (- 1))"
  by (rule fault_refused [OF assms])

theorem page_fault_refuses_witness: "page_fault 5 0x08048123 0 example_vm = Some (example_vm, Inl (- 1))"
  by (rule page_fault_refuses [OF example_vm_ok example_ready(1)]) (simp add: PF_P_def)

text \<open>C2: virtual memory is a private memory for each process. Processes run in any order and are interrupted between
  any two steps: loads and stores, the two steps of the page fault handler (finding a frame, then loading
  the page into it), refused faults, and the two steps of an exit. In every such run each load returns the
  byte last stored at that address by that process, whatever was evicted and loaded in between, and
  the invariant of the virtual memory system is kept. A step of the handler assumes the resources it
  needs (a free frame or swap slot for the first; a kernel page and \<open>malloc\<close> for the second) and an
  address outside page 0, and the second step assumes that the frame found in the first is still free:
  the code does not ensure that. Each step by itself is not interrupted; in the code it may sleep during
  disk transfers.\<close>

theorem vm_private_memory:
  assumes "config_ok (s, w)" "vm_run (s, w) es (s', w')"
  shows "config_ok (s', w') \<and> vm_ok s' \<and> mem_run (vmem s) es (vmem s')"
  using vm_run_refines [OF assms(2,1)] config_okD(1) [of s' w'] by auto

theorem vm_private_memory_witness:
  "\<exists>b s'. vm_run (example_vm, \<lambda>_. None) [Fault 0 0x08048123, Switch 1, Switch 0, Resolve 0 0x08048123, Load 0 0x08048123 b] (s', \<lambda>_. None) \<and>
     vm_ok s' \<and> mem_run (vmem example_vm) [Fault 0 0x08048123, Switch 1, Switch 0, Resolve 0 0x08048123, Load 0 0x08048123 b] (vmem s')"
proof -
  have "\<exists>b s'. vm_run (example_vm, \<lambda>_. None) [Fault 0 0x08048123, Switch 1, Switch 0, Resolve 0 0x08048123, Load 0 0x08048123 b] (s', \<lambda>_. None)"
    by (rule example_run)
  then show ?thesis using vm_private_memory [OF example_config] by blast
qed

text \<open>C35: the frame is not reserved. While one process has found a frame and not yet loaded its page, a second one that
  faults on a page in swap finds the same frame. When the first has loaded its page there, the second
  overwrites it: the first process then reads the bytes of the second, which is ended.\<close>

theorem frame_found_twice:
  assumes "vm_ok s" "user_process s" "resources s" "is_user_vaddr fa" "4096 \<le> unat fa" "fault_need fa f_esp user s = Some n"
    "waits s b fb (Swap_in p)" "b \<noteq> current s"
  shows "\<exists>s1 k s2 s3 c. frame_find_empty s = Some (s1, k) \<and> frame_find_empty (s1\<lparr>current := b\<rparr>) = Some (s1\<lparr>current := b\<rparr>, k) \<and>
    resume n k s1 = Some (s2, Inr ()) \<and> resume (Swap_in p) k (s2\<lparr>current := b\<rparr>) = Some (s3, Inl c) \<and>
    (\<forall>va. pg_round_down va = pg_round_down fa \<longrightarrow> vmem s3 (current s) va = vmem s b (pg_round_down fb + pg_ofs va))"
  by (rule race [OF assms])

theorem frame_found_twice_witness:
  "\<exists>s1 k s2 s3 c. frame_find_empty example_vm = Some (s1, k) \<and> frame_find_empty (s1\<lparr>current := 1\<rparr>) = Some (s1\<lparr>current := 1\<rparr>, k) \<and>
    resume (Read_in 8) k s1 = Some (s2, Inr ()) \<and> resume (Swap_in 9) k (s2\<lparr>current := 1\<rparr>) = Some (s3, Inl c) \<and>
    vmem example_vm 0 0x08048123 = Some 5 \<and> vmem s3 0 0x08048123 = Some 0"
proof -
  have c: "current example_vm = 0" by (simp add: example_vm_def)
  have fa: "is_user_vaddr 0x08048123" "4096 \<le> unat (0x08048123 :: u32)" by (simp_all add: is_user_vaddr_def PHYS_BASE_def)
  have v: "pg_round_down 0x08048123 + pg_ofs 0x08048123 = (0x08048123 :: u32)" by code_simp
  obtain s1 k s2 s3 d where s: "frame_find_empty example_vm = Some (s1, k)" "frame_find_empty (s1\<lparr>current := 1\<rparr>) = Some (s1\<lparr>current := 1\<rparr>, k)"
      "resume (Read_in 8) k s1 = Some (s2, Inr ())" "resume (Swap_in 9) k (s2\<lparr>current := 1\<rparr>) = Some (s3, Inl d)"
      "\<forall>va. pg_round_down va = pg_round_down 0x08048123 \<longrightarrow> vmem s3 (current example_vm) va = vmem example_vm 1 (pg_round_down 0x08048123 + pg_ofs va)"
    using frame_found_twice [OF example_vm_ok example_ready fa example_need] c by auto
  have "vmem s3 0 0x08048123 = Some 0" using spec [OF s(5), of "0x08048123"] v c example_bytes(2) by simp
  then show ?thesis using s(1-4) example_bytes(1) by blast
qed

text \<open>C19: the first state. On a machine with at least 367 free user pages \<open>frame_table_init\<close> succeeds, and when
  the devices have been found \<open>swap_init\<close> does; together they establish the invariant of the virtual memory
  system, with every frame and every swap slot free.\<close>

theorem vm_boot_correct:
  assumes "boot_ready s" "devices_found v" "block_by_role (devs v) BLOCK_SWAP = Some b" "block_size b (devs v) = Some n"
    "length buf = (unat (n * 512 div PGSIZE) + 31) div 32"
  shows "\<exists>s1 s2. frame_table_init s = Some s1 \<and> swap_init buf (s1\<lparr>vfs := v\<rparr>) = Some s2 \<and> vm_ok s2 \<and> occupancy s2 = 0 \<and> slots_used s2 = {}"
proof -
  have "length buf = (unat (n' * 512 div PGSIZE) + 31) div 32"
    if "block_by_role (devs v) BLOCK_SWAP = Some b'" "block_size b' (devs v) = Some n'" for b' n'
    using that assms(3-5) by simp
  then show ?thesis using boot_ok [OF assms(1,2), of buf] by blast
qed

theorem vm_boot_correct_witness:
  "\<exists>s1 s2. frame_table_init example_boot = Some s1 \<and> swap_init [7] (s1\<lparr>vfs := vfs example_vm\<rparr>) = Some s2 \<and> vm_ok s2 \<and> occupancy s2 = 0 \<and>
    slots_used s2 = {}"
  by (rule vm_boot_correct [OF example_boot_ready, of 1 24])
    (simp_all add: example_vm_def block_size_def device_def PGSIZE_def PGBITS_def unat_div)

text \<open>C13: the end of a process. \<open>page_clear_all\<close> succeeds: the process has no memory, none of its frames is in
  use, every other process has the memory it had, and the invariant holds, so that others can go on
  running. The swap slots that held its pages stay marked as used. The process then sleeps until its
  parent has taken its exit status. Whatever the others do in the meantime, \<open>process_exit\<close> succeeds when
  it runs again, provided the kernel's page directory is at a kernel address: its page directory and page
  tables are back in the kernel pool, no process has lost a byte, and the invariant holds. The user pages
  that the page directory maps are not freed by it.\<close>

theorem process_exit_correct:
  assumes "config_ok (s, w)" "user_process s" "w (current s) = None"
  shows "\<exists>s1. page_clear_all s = Some s1 \<and> config_ok (s1, w) \<and> vmem s1 = (vmem s)(current s := (\<lambda>_. None)) \<and>
    (\<forall>f \<in> set (frame_table s1). fr_pagedir f \<noteq> pdir s (current s)) \<and> slots_used s1 = slots_used s \<and>
    (\<forall>es s2 w2. vm_run (s1, w) es (s2, w2) \<longrightarrow> (\<forall>e \<in> set es. actor e \<noteq> Some (current s)) \<longrightarrow> current s2 = current s \<longrightarrow>
       is_kernel_vaddr (init_page_dir (mach s2)) \<longrightarrow>
       (\<exists>s3. process_exit s2 = Some s3 \<and> config_ok (s3, w2) \<and> vmem s3 = vmem s2 \<and> pdir s3 (current s) = 0 \<and>
         in_use (kernel_pool (pal (mach s3))) = in_use (kernel_pool (pal (mach s2))) - pd_pages (mach s2) (pdir s (current s))))"
  by (rule exit_run [OF assms])

theorem process_exit_correct_witness:
  "\<exists>s1 s3. page_clear_all example_vm = Some s1 \<and> vm_run (s1, \<lambda>_. None) [Switch 1, Switch 0] (s1\<lparr>current := 0\<rparr>, \<lambda>_. None) \<and>
    process_exit (s1\<lparr>current := 0\<rparr>) = Some s3 \<and> vm_ok s3 \<and> vmem s3 = (vmem example_vm)(0 := (\<lambda>_. None)) \<and>
    in_use (kernel_pool (pal (mach s3))) = {0xc0101}"
proof -
  have c: "current example_vm = 0" "pdir example_vm 0 = 0xc0100000" by (simp add: example_vm_def) (simp add: example_procs)
  obtain s1 where s1: "page_clear_all example_vm = Some s1" "vmem s1 = (vmem example_vm)(0 := (\<lambda>_. None))"
      "\<forall>es s2 w2. vm_run (s1, \<lambda>_. None) es (s2, w2) \<longrightarrow> (\<forall>e \<in> set es. actor e \<noteq> Some 0) \<longrightarrow> current s2 = 0 \<longrightarrow>
         is_kernel_vaddr (init_page_dir (mach s2)) \<longrightarrow>
         (\<exists>s3. process_exit s2 = Some s3 \<and> config_ok (s3, w2) \<and> vmem s3 = vmem s2 \<and> pdir s3 0 = 0 \<and>
           in_use (kernel_pool (pal (mach s3))) = in_use (kernel_pool (pal (mach s2))) - pd_pages (mach s2) 0xc0100000)"
    using process_exit_correct [OF example_config example_ready(1)] c by auto
  obtain s1' where s1': "page_clear_all example_vm = Some s1'" "others_kept example_vm s1'" "mach s1' = mach example_vm" "procs s1' 0 \<noteq> None"
    using clear_all_ok [OF example_vm_ok example_ready(1)] c by auto
  then have m: "mach s1 = mach example_vm" "procs s1 0 \<noteq> None" "procs s1 1 = procs example_vm 1" using s1(1) others_kept_procs [OF s1'(2), of 1] c by simp_all
  have "procs s1 1 \<noteq> None" using m(3) by (simp add: example_vm_def)
  then have run: "vm_run (s1, \<lambda>_. None) [Switch 1, Switch 0] (s1\<lparr>current := 0\<rparr>, \<lambda>_. None)"
    using vm_run.more [OF switch [of s1 1] vm_run.more [OF switch [of "s1\<lparr>current := 1\<rparr>" 0] vm_run.stop]] m(2) by simp
  have "is_kernel_vaddr (init_page_dir (mach example_vm))" by (simp add: example_vm_def is_kernel_vaddr_def PHYS_BASE_def)
  then obtain s3 where s3: "process_exit (s1\<lparr>current := 0\<rparr>) = Some s3" "config_ok (s3, \<lambda>_. None)" "vmem s3 = vmem (s1\<lparr>current := 0\<rparr>)"
      "in_use (kernel_pool (pal (mach s3))) = in_use (kernel_pool (pal (mach example_vm))) - pd_pages (mach example_vm) 0xc0100000"
    using s1(3) run m(1) by fastforce
  moreover have "in_use (kernel_pool (pal (mach example_vm))) - pd_pages (mach example_vm) 0xc0100000 = {0xc0101}"
    using example_pools(2) example_dirs(2) [of "0xc0100000"] by (simp add: page_of_def)
  ultimately show ?thesis using s1(1,2) run config_okD(1) [OF s3(2)] by (auto simp: current_upd)
qed

end
