(* ===== verification/Spec2Isabelle.thy ===== *)
theory Spec2Isabelle
  imports Prelude Lists List_Sort Bitmap Arithmetic Prng Vaddr Palloc Pagedir Hash Threads Synch Descriptors Strings Stdlib Bytes Block Partition Inode Fs_Inv Directory Filesys Mount Ram Spaces Swap Frames Paging Vm_Inv Vm_Load Vm_Fault Vm_Mem Vm_Exit Vm_Boot Vm_Steps Vm_Run
begin

text \<open>
  A verification of the Pintos kernel under \<^verbatim>\<open>src/src\<close>: its data structures and string library, the
  page allocator and page tables, threads and synchronization, block devices, the file system, and
  virtual memory.

  \<^bold>\<open>How the parts fit together.\<close> \<^verbatim>\<open>lib\<close> provides linked lists, bitmaps, hash tables, strings, sorting and
  64-bit division to the rest. The page allocator (\<^verbatim>\<open>threads/palloc.c\<close>) hands out runs of pages that
  it tracks in bitmaps; page directories (\<^verbatim>\<open>userprog/pagedir.c\<close>) are built in such pages. Threads
  (\<^verbatim>\<open>threads/thread.c\<close>) are scheduled from a ready list by the timer interrupt
  (\<^verbatim>\<open>threads/interrupt.c\<close>), and semaphores, locks and condition variables (\<^verbatim>\<open>threads/synch.c\<close>) block
  and unblock them. Block devices (\<^verbatim>\<open>devices/block.c\<close>) store sectors; partitions
  (\<^verbatim>\<open>devices/partition.c\<close>) are windows on them. On one of them lies the file system
  (\<^verbatim>\<open>filesys/\<close>): inodes own extents of sectors, the free map records which sectors are owned, and
  the root directory names inodes. Virtual memory (\<^verbatim>\<open>vm/\<close>) gives the pages of user processes frames of
  the user pool; a page fault loads a page from its file or from swap, and when no frame is free the
  clock algorithm writes one to the swap device.

  \<^bold>\<open>Conventions.\<close> A C function that can fail an assertion, panic or run into undefined behaviour
  returns an option, with \<open>None\<close> for that case; the theorems state that the result is \<open>Some\<close>. Machine
  integers are words of their width; integers whose overflow is undefined are \<open>int\<close> with the range
  checked where it matters. Loops the source does not bound are partial functions, for which
  \<open>None\<close> also means not returning, and the theorems show that they return; there is no fuel. The
  outcome of a memory allocation is an argument of the operations that allocate.

  \<^bold>\<open>The theories.\<close>
  \<^item> \<^theory_text>\<open>Prelude\<close>: machine types, assertions, and facts on words, options and lists.
  \<^item> \<^theory_text>\<open>Lists\<close>, \<^theory_text>\<open>List_Sort\<close>: \<^verbatim>\<open>lib/kernel/list.c\<close> on a heap of nodes: queue refinement, splicing,
    reversal, and the natural merge sort (sorted, stable, a permutation, and it ends).
  \<^item> \<^theory_text>\<open>Bitmap\<close>: \<^verbatim>\<open>lib/kernel/bitmap.c\<close>: first fit, and runs handed out never overlap (the locale
    \<open>run_allocator\<close>).
  \<^item> \<^theory_text>\<open>Arithmetic\<close>, \<^theory_text>\<open>Prng\<close>: 64-bit division from 32-bit division, and the generator of
    \<^verbatim>\<open>lib/random.c\<close>.
  \<^item> \<^theory_text>\<open>Vaddr\<close>, \<^theory_text>\<open>Palloc\<close>, \<^theory_text>\<open>Pagedir\<close>: addresses and page table entries, the page pools (pages in use
    are never handed out again), and mapping and unmapping pages in two-level tables that live in
    allocated pages.
  \<^item> \<^theory_text>\<open>Hash\<close>: \<^verbatim>\<open>lib/kernel/hash.c\<close> refines a set of elements, through every rehash; iteration visits
    each element once.
  \<^item> \<^theory_text>\<open>Threads\<close>, \<^theory_text>\<open>Synch\<close>: the scheduler with the timer interrupt, and the synchronization primitives as
    a step relation of interleaved threads: mutual exclusion, no lost wakeup, no panic.
  \<^item> \<^theory_text>\<open>Descriptors\<close>: the interrupt and segment descriptor tables.
  \<^item> \<^theory_text>\<open>Strings\<close>, \<^theory_text>\<open>Stdlib\<close>: \<^verbatim>\<open>lib/string.c\<close> over byte memory, heap sort, binary search and number
    parsing.
  \<^item> \<^theory_text>\<open>Bytes\<close>, \<^theory_text>\<open>Block\<close>, \<^theory_text>\<open>Partition\<close>: little-endian layouts, devices and partitions (the locale
    \<open>sector_store\<close> is the contract of a device), and the scan of partition tables.
  \<^item> \<^theory_text>\<open>Inode\<close>, \<^theory_text>\<open>Fs_Inv\<close>: \<^verbatim>\<open>filesys/inode.c\<close>, \<^verbatim>\<open>filesys/file.c\<close> and \<^verbatim>\<open>filesys/free-map.c\<close>, their common
    invariant (every sector has one owner, the free map file holds the free map, the counts of
    each open inode are those of its handles), and reading and writing files.
  \<^item> \<^theory_text>\<open>Directory\<close>, \<^theory_text>\<open>Filesys\<close>, \<^theory_text>\<open>Mount\<close>: \<^verbatim>\<open>filesys/directory.c\<close> and \<^verbatim>\<open>filesys/filesys.c\<close>: the root
    directory as a map from names to contents, every call on it, and mounting and formatting.
  \<^item> \<^theory_text>\<open>Ram\<close>, \<^theory_text>\<open>Spaces\<close>: memory as bytes, and what an operation on one page directory leaves alone.
  \<^item> \<^theory_text>\<open>Swap\<close>, \<^theory_text>\<open>Frames\<close>, \<^theory_text>\<open>Paging\<close>: \<^verbatim>\<open>vm/swap.c\<close>, \<^verbatim>\<open>vm/frames.c\<close>, \<^verbatim>\<open>vm/page.c\<close> and the page fault handler.
  \<^item> \<^theory_text>\<open>Vm_Inv\<close>: the invariant that ties page tables, frame table, supplemental page tables, swap slots
    and files of all processes together, and the eviction of a page under it. \<^theory_text>\<open>Vm_Load\<close>, \<^theory_text>\<open>Vm_Fault\<close>:
    loading a page from swap or a file, growing the stack, and page faults.
  \<^item> \<^theory_text>\<open>Vm_Mem\<close>: the memory a process sees, its loads and stores, and the page fault handler when it runs
    by itself. \<^theory_text>\<open>Vm_Exit\<close>, \<^theory_text>\<open>Vm_Boot\<close>: what a process that ends gives back, and the first state of virtual
    memory.
  \<^item> \<^theory_text>\<open>Vm_Steps\<close>, \<^theory_text>\<open>Vm_Run\<close>: runs of several processes. Loads and stores, the two steps of the handler
    (finding a frame, loading the page), the two steps of an exit and switches at any point refine a
    private memory for each process. \<^theory_text>\<open>Vm_Run\<close> holds the theorems and an example of two processes.

  \<^bold>\<open>Limits of the virtual memory theorems.\<close> In the code the page fault handler runs with interrupts on
  and sleeps during disk transfers. In \<^theory_text>\<open>Vm_Steps\<close> it can be interrupted between its two steps but not within
  one, and a handler loads a page only into a frame that is still free. The code does not ensure the
  latter: a frame that was found is not reserved, and a theorem of \<^theory_text>\<open>Vm_Run\<close> shows how a second process
  then overwrites the page of the first. The steps also assume that there is a frame or a swap slot to
  be had, a kernel page for a page table, and memory for \<open>malloc\<close>; a fault in page 0 is left out.

  \<^bold>\<open>Not modelled.\<close> Port and register I/O of the drivers (\<^verbatim>\<open>ide.c\<close>, \<^verbatim>\<open>serial.c\<close>, \<^verbatim>\<open>vga.c\<close>, \<^verbatim>\<open>pit.c\<close>, \<^verbatim>\<open>rtc.c\<close>,
  \<^verbatim>\<open>speaker.c\<close>, \<^verbatim>\<open>shutdown.c\<close>) is behaviour of the hardware. Assembly (start-up, context switch, the
  interrupt stubs) and console output have no counterpart here. The user programs under \<^verbatim>\<open>examples\<close>
  and the host tools under \<^verbatim>\<open>utils\<close> are not part of the kernel; \<^verbatim>\<open>tests\<close> are its test programs.
\<close>

end
